(* ===== verification/SvsPrelude.thy ===== *)
theory SvsPrelude
  imports Main "HOL-Library.Word"
begin

unbundle bit_operations_syntax

text \<open>
  The vocabulary every component of the development shares.

  The stream and record servers are C++ programs for a little-endian machine that look at
  network data through packed structs laid over byte buffers.  This theory fixes how such code
  is read: a buffer is a list of bytes, a struct field is a native (little-endian) load or store
  at an offset, a bit field is a slice of one loaded word, and \<open>ntohs\<close>/\<open>ntohl\<close> exchange the
  bytes of a word.  The lemmas say how loads and stores at different places interact; they are
  collected in \<open>mem_simps\<close> (loads after stores) and \<open>bf_simps\<close> (bit fields), so that the
  component proofs can hand whole collections to the simplifier.
\<close>

section \<open>Types and return codes\<close>

type_synonym u8 = "8 word"
type_synonym u16 = "16 word"
type_synonym u32 = "32 word"
type_synonym u64 = "64 word"
type_synonym bytes = "u8 list"

text \<open>The return codes of \<open>SVS_RET_CODE\<close>.\<close>

datatype retcode =
    RET_OK
  | RET_FAIL
  | RET_ERR_PARAM
  | RET_ERR_UNREGISTED
  | RET_ERR_DISCONNECT
  | RET_ERR_TIMEOUT
  | RET_ERR_LIST_EMPTY
  | RET_ERR_STATUS_ABNORMAL
  | RET_ERR_PARSE_MSG
  | RET_ERR_QUEUE_FULL
  | RET_ERR_SEND_FAIL
  | RET_ERR_MEDIA_DATA
  | RET_ERR_CONFIG_ITEM_NOT_FOUND
  | RET_ERR_SYS
  | RET_ERR_SYS_NEW

named_theorems mem_simps "loads and stores on byte buffers"
named_theorems bf_simps "bit fields of one word"

section \<open>Bit fields\<close>

text \<open>
  A bit field of \<open>len\<close> bits starting at bit \<open>lo\<close>, as a C compiler lays it out from the least
  significant bit on.
\<close>

definition bf_get :: "nat \<Rightarrow> nat \<Rightarrow> 'a::len word \<Rightarrow> 'a word" where
  "bf_get lo len x = take_bit len (drop_bit lo x)"

definition bf_set :: "nat \<Rightarrow> nat \<Rightarrow> 'a::len word \<Rightarrow> 'a word \<Rightarrow> 'a word" where
  "bf_set lo len v x =
     (x AND NOT (push_bit lo (mask len))) OR push_bit lo (take_bit len v)"

lemma bit_bf_get [bf_simps]:
  "bit (bf_get lo len x) n \<longleftrightarrow> n < len \<and> bit (x :: 'a::len word) (lo + n)"
  by (auto simp: bf_get_def bit_take_bit_iff bit_drop_bit_eq ac_simps)

lemma bit_bf_set [bf_simps]:
  "bit (bf_set lo len v (x :: 'a::len word)) n \<longleftrightarrow>
     n < LENGTH('a) \<and> (if lo \<le> n \<and> n < lo + len then bit v (n - lo) else bit x n)"
  by (auto simp: bf_set_def bit_simps not_less dest: bit_imp_le_length)

lemma bf_get_set_same [simp]:
  "lo + len \<le> LENGTH('a) \<Longrightarrow> bf_get lo len (bf_set lo len v (x :: 'a::len word)) = take_bit len v"
  by (rule bit_word_eqI) (auto simp: bf_simps bit_take_bit_iff)

lemma bf_get_set_other:
  "lo + len \<le> lo' \<or> lo' + len' \<le> lo \<Longrightarrow>
     bf_get lo len (bf_set lo' len' v (x :: 'a::len word)) = bf_get lo len x"
  by (rule bit_word_eqI) (auto simp: bf_simps dest: bit_imp_le_length)

lemma bf_get_less: "len < LENGTH('a) \<Longrightarrow> unat (bf_get lo len (x :: 'a::len word)) < 2 ^ len"
  by (simp add: bf_get_def unsigned_take_bit_eq)

section \<open>Lists\<close>

lemma concat_map_butlast_last:
  "xs \<noteq> [] \<Longrightarrow> concat (map g xs) = concat (map g (butlast xs)) @ g (last xs)"
  by (induction xs) auto

text \<open>The first index of a range at which a test holds, and the bytes at a position.\<close>

lemma find_upt_Some:
  "List.find P [i..<n] = Some q \<longleftrightarrow> i \<le> q \<and> q < n \<and> P q \<and> (\<forall>r. i \<le> r \<longrightarrow> r < q \<longrightarrow> \<not> P r)"
proof
  assume "List.find P [i..<n] = Some q"
  then obtain j where j: "j < n - i" "P (i + j)" "q = i + j" "\<forall>k<j. \<not> P (i + k)"
    by (auto simp: find_Some_iff)
  have "\<not> P r" if "i \<le> r" "r < q" for r
    using j(3,4) that by (metis le_add_diff_inverse nat_add_left_cancel_less)
  with j show "i \<le> q \<and> q < n \<and> P q \<and> (\<forall>r. i \<le> r \<longrightarrow> r < q \<longrightarrow> \<not> P r)" by auto
next
  assume "i \<le> q \<and> q < n \<and> P q \<and> (\<forall>r. i \<le> r \<longrightarrow> r < q \<longrightarrow> \<not> P r)"
  then show "List.find P [i..<n] = Some q"
    by (auto simp: find_Some_iff intro!: exI [of _ "q - i"])
qed

lemma take_drop_Suc:
  "take (Suc n) (drop i b) = x # xs \<longleftrightarrow> i < length b \<and> b ! i = x \<and> take n (drop (Suc i) b) = xs"
proof (cases "i < length b")
  case True
  then show ?thesis by (simp add: Cons_nth_drop_Suc [symmetric])
qed simp

lemma take_drop_3:
  "take 3 (drop i b) = [x, y, z] \<longleftrightarrow>
     i + 3 \<le> length b \<and> b ! i = x \<and> b ! (i + 1) = y \<and> b ! (i + 2) = z"
  by (auto simp: numeral_3_eq_3 take_drop_Suc)

lemma take_drop_4:
  "take 4 (drop i b) = [x, y, z, w] \<longleftrightarrow>
     i + 4 \<le> length b \<and> b ! i = x \<and> b ! (i + 1) = y \<and> b ! (i + 2) = z \<and> b ! (i + 3) = w"
proof -
  have "(4 :: nat) = Suc 3" by simp
  then show ?thesis by (simp only: take_drop_Suc take_drop_3) (auto simp: numeral_3_eq_3)
qed

section \<open>Loads and stores\<close>

text \<open>Native loads and stores of the little-endian target, at a byte offset.\<close>

definition ld16 :: "bytes \<Rightarrow> nat \<Rightarrow> u16" where
  "ld16 b i = ucast (b ! i) OR push_bit 8 (ucast (b ! Suc i))"

definition ld32 :: "bytes \<Rightarrow> nat \<Rightarrow> u32" where
  "ld32 b i = ucast (b ! i) OR push_bit 8 (ucast (b ! (i + 1)))
     OR push_bit 16 (ucast (b ! (i + 2))) OR push_bit 24 (ucast (b ! (i + 3)))"

definition le16 :: "u16 \<Rightarrow> bytes" where
  "le16 v = [ucast v, ucast (drop_bit 8 v)]"

definition le32 :: "u32 \<Rightarrow> bytes" where
  "le32 v = [ucast v, ucast (drop_bit 8 v), ucast (drop_bit 16 v), ucast (drop_bit 24 v)]"

text \<open>\<open>memcpy (b + i, xs, n)\<close> with \<open>n = length xs\<close>, for a block that fits the buffer.\<close>

definition st_block :: "nat \<Rightarrow> bytes \<Rightarrow> bytes \<Rightarrow> bytes" where
  "st_block i xs b = take i b @ xs @ drop (i + length xs) b"

definition st8 :: "nat \<Rightarrow> u8 \<Rightarrow> bytes \<Rightarrow> bytes" where
  "st8 i v b = b[i := v]"

definition st16 :: "nat \<Rightarrow> u16 \<Rightarrow> bytes \<Rightarrow> bytes" where
  "st16 i v b = b[i := ucast v, i + 1 := ucast (drop_bit 8 v)]"

definition st32 :: "nat \<Rightarrow> u32 \<Rightarrow> bytes \<Rightarrow> bytes" where
  "st32 i v b = b[i := ucast v, i + 1 := ucast (drop_bit 8 v),
     i + 2 := ucast (drop_bit 16 v), i + 3 := ucast (drop_bit 24 v)]"

lemma length_st8 [simp]: "length (st8 i v b) = length b"
  by (simp add: st8_def)

lemma length_st16 [simp]: "length (st16 i v b) = length b"
  by (simp add: st16_def)

lemma length_st32 [simp]: "length (st32 i v b) = length b"
  by (simp add: st32_def)

lemma length_st_block [simp]: "i + length xs \<le> length b \<Longrightarrow> length (st_block i xs b) = length b"
  by (simp add: st_block_def)

lemma nth_st8 [mem_simps]: "i < length b \<Longrightarrow> st8 i v b ! j = (if j = i then v else b ! j)"
  by (simp add: st8_def nth_list_update)

lemma nth_st16 [mem_simps]:
  "i + 1 < length b \<Longrightarrow>
     st16 i v b ! j = (if j = i then ucast v else if j = i + 1 then ucast (drop_bit 8 v) else b ! j)"
  by (auto simp: st16_def nth_list_update)

lemma nth_st32 [mem_simps]:
  "i + 3 < length b \<Longrightarrow>
     st32 i v b ! j =
       (if j = i then ucast v else if j = i + 1 then ucast (drop_bit 8 v)
        else if j = i + 2 then ucast (drop_bit 16 v) else if j = i + 3 then ucast (drop_bit 24 v)
        else b ! j)"
  by (auto simp: st32_def nth_list_update)

lemma nth_st_block [mem_simps]:
  "i + length xs \<le> length b \<Longrightarrow>
     st_block i xs b ! j = (if i \<le> j \<and> j < i + length xs then xs ! (j - i) else b ! j)"
  by (auto simp: st_block_def nth_append)

lemma ld16_bytes:
  "(ucast (ucast v :: u8) OR push_bit 8 (ucast (ucast (drop_bit 8 v) :: u8))) = (v :: u16)"
  by (rule bit_word_eqI) (auto simp: bit_simps not_less)

lemma ld32_bytes:
  "(ucast (ucast v :: u8) OR push_bit 8 (ucast (ucast (drop_bit 8 v) :: u8))
     OR push_bit 16 (ucast (ucast (drop_bit 16 v) :: u8))
     OR push_bit 24 (ucast (ucast (drop_bit 24 v) :: u8))) = (v :: u32)"
proof (rule bit_word_eqI)
  fix n
  assume "n < LENGTH(32)"
  then consider "n < 8" | "8 \<le> n \<and> n < 16" | "16 \<le> n \<and> n < 24" | "24 \<le> n \<and> n < 32"
    by force
  then show "bit (ucast (ucast v :: u8) OR push_bit 8 (ucast (ucast (drop_bit 8 v) :: u8))
     OR push_bit 16 (ucast (ucast (drop_bit 16 v) :: u8))
     OR push_bit 24 (ucast (ucast (drop_bit 24 v) :: u8)) :: u32) n = bit v n"
    by cases (auto simp: bit_simps)
qed

lemma ld16_st16 [mem_simps]: "i + 1 < length b \<Longrightarrow> ld16 (st16 i v b) i = v"
  by (simp add: ld16_def mem_simps ld16_bytes)

lemma ld32_st32 [mem_simps]: "i + 3 < length b \<Longrightarrow> ld32 (st32 i v b) i = v"
  by (simp add: ld32_def mem_simps ld32_bytes)

lemma ld16_cong: "b ! i = c ! i \<Longrightarrow> b ! Suc i = c ! Suc i \<Longrightarrow> ld16 b i = ld16 c i"
  by (simp add: ld16_def)

lemma ld32_cong:
  "b ! i = c ! i \<Longrightarrow> b ! (i + 1) = c ! (i + 1) \<Longrightarrow> b ! (i + 2) = c ! (i + 2) \<Longrightarrow>
     b ! (i + 3) = c ! (i + 3) \<Longrightarrow> ld32 b i = ld32 c i"
  by (simp add: ld32_def)

lemma ld16_append [mem_simps]: "ld16 (xs @ ys) (length xs + i) = ld16 ys i"
  by (simp add: ld16_def nth_append)

lemma ld16_le16 [mem_simps]: "ld16 (le16 v @ xs) 0 = v"
  by (simp add: ld16_def le16_def ld16_bytes)

lemma ld32_le32 [mem_simps]: "ld32 (le32 v @ xs) 0 = v"
  by (simp add: ld32_def le32_def ld32_bytes)

lemma length_le16 [simp]: "length (le16 v) = 2"
  by (simp add: le16_def)

lemma length_le32 [simp]: "length (le32 v) = 4"
  by (simp add: le32_def)

lemma length_concat_le32 [simp]: "length (concat (map (\<lambda>w. le32 (f w)) ws)) = 4 * length ws"
  by (induction ws) simp_all

section \<open>Network byte order\<close>

definition ntohs :: "u16 \<Rightarrow> u16" where
  "ntohs v = push_bit 8 v OR drop_bit 8 v"

definition ntohl :: "u32 \<Rightarrow> u32" where
  "ntohl v = push_bit 24 v OR (push_bit 8 v AND 0xFF0000) OR (drop_bit 8 v AND 0xFF00)
     OR drop_bit 24 v"

text \<open>The host is little-endian, so conversion in the two directions is the same exchange.\<close>

abbreviation htons :: "u16 \<Rightarrow> u16" where "htons \<equiv> ntohs"
abbreviation htonl :: "u32 \<Rightarrow> u32" where "htonl \<equiv> ntohl"

lemma mask_ff0000: "(0xFF0000 :: u32) = push_bit 16 (mask 8)"
  by (simp add: mask_eq_exp_minus_1)

lemma mask_ff00: "(0xFF00 :: u32) = push_bit 8 (mask 8)"
  by (simp add: mask_eq_exp_minus_1)

lemma ntohs_ntohs [simp]: "ntohs (ntohs v) = v"
  by (rule bit_word_eqI) (auto simp: ntohs_def bit_simps not_less dest: bit_imp_le_length)

lemma bit_ntohl:
  "bit (ntohl v) n \<longleftrightarrow> n < 32 \<and> bit v (if n < 8 then n + 24 else if n < 16 then n + 8
     else if n < 24 then n - 8 else n - 24)"
  unfolding ntohl_def mask_ff0000 mask_ff00
  by (auto simp: bit_simps not_less ac_simps dest: bit_imp_le_length)

lemma ntohl_ntohl [simp]: "ntohl (ntohl v) = v"
  by (rule bit_word_eqI) (auto simp: bit_ntohl)

text \<open>A 16-bit field in network order as a number.\<close>

lemma unat_u8: "unat (x :: u8) < 256"
  by (rule order_less_le_trans [OF unsigned_less]) simp

lemma unat_ntohs_ld16: "unat (ntohs (ld16 b i)) = 256 * unat (b ! i) + unat (b ! Suc i)"
proof -
  have "ntohs (ld16 b i) = push_bit 8 (ucast (b ! i)) OR ucast (b ! Suc i)"
    by (rule bit_word_eqI) (auto simp: ntohs_def ld16_def bit_simps not_less dest: bit_imp_le_length)
  also have "\<dots> = push_bit 8 (ucast (b ! i)) + ucast (b ! Suc i)"
    by (rule disjunctive_add [symmetric]) (auto simp: bit_simps dest: bit_imp_le_length)
  finally have e: "ntohs (ld16 b i) = push_bit 8 (ucast (b ! i)) + ucast (b ! Suc i)" .
  have u: "unat (ucast (y :: u8) :: u16) = unat y" for y
    using unat_u8 [of y] by (simp add: unsigned_ucast_eq take_bit_nat_eq_self_iff)
  have "unat (b ! i) < 256" "unat (b ! Suc i) < 256"
    by (rule unat_u8)+
  then show ?thesis
    by (simp add: e push_bit_eq_mult unat_word_ariths u)
qed

end
