(* ===== verification/RtpPacket.thy ===== *)
theory RtpPacket
  imports SvsPrelude
begin

unbundle bit_operations_syntax

text \<open>
  The RTP packet view \<open>CRtpPacket\<close> (\<open>svs_adapter_rtp_packet.cpp\<close>, \<open>svs_adapter_rtp_head.h\<close>):
  a pointer to packet bytes owned by somebody else, the fixed-header and extension-header
  pointers into them, and the lengths computed by \<open>ParsePacket\<close>.  The setters and the parser
  write through the pointer; the model keeps the bytes in the record, so that a caller reads the
  written buffer back from it.
\<close>

section \<open>The header and its fields\<close>

definition RTP_FIXED_HEADER_SIZE :: nat where "RTP_FIXED_HEADER_SIZE = 12"
definition RTP_EXTEND_HEADER_SIZE :: nat where "RTP_EXTEND_HEADER_SIZE = 4"
definition RTP_CSRC_LEN :: nat where "RTP_CSRC_LEN = 4"
definition RTP_EXTEND_PROFILE_LEN :: nat where "RTP_EXTEND_PROFILE_LEN = 4"
definition RTP_PACKET_VERSION :: u8 where "RTP_PACKET_VERSION = 2"

lemmas rtp_consts [simp] =
  RTP_FIXED_HEADER_SIZE_def RTP_EXTEND_HEADER_SIZE_def RTP_CSRC_LEN_def
  RTP_EXTEND_PROFILE_LEN_def RTP_PACKET_VERSION_def

text \<open>The bit fields of \<open>RTP_FIXED_HEADER\<close>, low bits first.\<close>

definition hdr_csrc_len :: "bytes \<Rightarrow> u8" where "hdr_csrc_len b = bf_get 0 4 (b ! 0)"
definition hdr_extension :: "bytes \<Rightarrow> u8" where "hdr_extension b = bf_get 4 1 (b ! 0)"
definition hdr_padding :: "bytes \<Rightarrow> u8" where "hdr_padding b = bf_get 5 1 (b ! 0)"
definition hdr_version :: "bytes \<Rightarrow> u8" where "hdr_version b = bf_get 6 2 (b ! 0)"
definition hdr_payload :: "bytes \<Rightarrow> u8" where "hdr_payload b = bf_get 0 7 (b ! 1)"
definition hdr_marker :: "bytes \<Rightarrow> u8" where "hdr_marker b = bf_get 7 1 (b ! 1)"

definition set_hdr_extension :: "u8 \<Rightarrow> bytes \<Rightarrow> bytes" where
  "set_hdr_extension v b = st8 0 (bf_set 4 1 v (b ! 0)) b"
definition set_hdr_padding :: "u8 \<Rightarrow> bytes \<Rightarrow> bytes" where
  "set_hdr_padding v b = st8 0 (bf_set 5 1 v (b ! 0)) b"
definition set_hdr_version :: "u8 \<Rightarrow> bytes \<Rightarrow> bytes" where
  "set_hdr_version v b = st8 0 (bf_set 6 2 v (b ! 0)) b"
definition set_hdr_payload :: "u8 \<Rightarrow> bytes \<Rightarrow> bytes" where
  "set_hdr_payload v b = st8 1 (bf_set 0 7 v (b ! 1)) b"
definition set_hdr_marker :: "u8 \<Rightarrow> bytes \<Rightarrow> bytes" where
  "set_hdr_marker v b = st8 1 (bf_set 7 1 v (b ! 1)) b"

lemmas hdr_get_defs =
  hdr_csrc_len_def hdr_extension_def hdr_padding_def hdr_version_def hdr_payload_def
  hdr_marker_def
lemmas hdr_set_defs =
  set_hdr_extension_def set_hdr_padding_def set_hdr_version_def set_hdr_payload_def
  set_hdr_marker_def

section \<open>The packet object\<close>

text \<open>
  \<open>m_pFixedHead\<close> is either null or equal to \<open>m_pRtpData\<close>, so a Boolean says which;
  \<open>m_pExtHead\<close> is an offset into the data.  All lengths stay below \<open>2 ^ 19\<close> plus the caller's
  length (a header is at most 12 + 60 + 4 + 4 * 65535 bytes), so they are naturals.
\<close>

record CRtpPacket =
  m_pRtpData :: "bytes option"
  m_pFixedHead :: bool
  m_pExtHead :: "nat option"
  m_ulPacketLen :: nat
  m_ulHeadLen :: nat
  m_ulTailLen :: nat

definition CRtpPacket_new :: CRtpPacket where
  "CRtpPacket_new = \<lparr>m_pRtpData = None, m_pFixedHead = False, m_pExtHead = None,
     m_ulPacketLen = 0, m_ulHeadLen = 0, m_ulTailLen = 0\<rparr>"

definition rtp_bytes :: "CRtpPacket \<Rightarrow> bytes" where
  "rtp_bytes p = (case m_pRtpData p of None \<Rightarrow> [] | Some b \<Rightarrow> b)"

definition write_fixed_head :: "(bytes \<Rightarrow> bytes) \<Rightarrow> CRtpPacket \<Rightarrow> retcode \<times> CRtpPacket" where
  "write_fixed_head f p =
     (if \<not> m_pFixedHead p then (RET_FAIL, p)
      else (RET_OK, p\<lparr>m_pRtpData := map_option f (m_pRtpData p)\<rparr>))"

definition GetVersion :: "CRtpPacket \<Rightarrow> retcode \<times> u8" where
  "GetVersion p = (if \<not> m_pFixedHead p then (RET_FAIL, 0) else (RET_OK, hdr_version (rtp_bytes p)))"

definition CheckVersion :: "CRtpPacket \<Rightarrow> retcode" where
  "CheckVersion p =
     (case GetVersion p of (ret, cVersion) \<Rightarrow>
        if ret \<noteq> RET_OK then RET_FAIL
        else if RTP_PACKET_VERSION \<noteq> cVersion then RET_FAIL
        else RET_OK)"

definition GetSeqNum :: "CRtpPacket \<Rightarrow> u16" where
  "GetSeqNum p = (if \<not> m_pFixedHead p then 0 else ntohs (ld16 (rtp_bytes p) 2))"

definition GetTimeStamp :: "CRtpPacket \<Rightarrow> u32" where
  "GetTimeStamp p = (if \<not> m_pFixedHead p then 0 else ntohl (ld32 (rtp_bytes p) 4))"

definition GetPayloadType :: "CRtpPacket \<Rightarrow> u8" where
  "GetPayloadType p = (if \<not> m_pFixedHead p then 0 else hdr_payload (rtp_bytes p))"

definition GetMarker :: "CRtpPacket \<Rightarrow> bool" where
  "GetMarker p = (if \<not> m_pFixedHead p then False else hdr_marker (rtp_bytes p) \<noteq> 0)"

definition GetSSRC :: "CRtpPacket \<Rightarrow> u32" where
  "GetSSRC p = (if \<not> m_pFixedHead p then 0 else ld32 (rtp_bytes p) 8)"

definition GetHeadLen :: "CRtpPacket \<Rightarrow> nat" where "GetHeadLen p = m_ulHeadLen p"
definition GetTailLen :: "CRtpPacket \<Rightarrow> nat" where "GetTailLen p = m_ulTailLen p"

definition SetVersion :: "u8 \<Rightarrow> CRtpPacket \<Rightarrow> retcode \<times> CRtpPacket" where
  "SetVersion v = write_fixed_head (set_hdr_version v)"

definition SetPadding :: "u8 \<Rightarrow> CRtpPacket \<Rightarrow> retcode \<times> CRtpPacket" where
  "SetPadding v = write_fixed_head (set_hdr_padding v)"

definition SetSeqNum :: "u16 \<Rightarrow> CRtpPacket \<Rightarrow> retcode \<times> CRtpPacket" where
  "SetSeqNum usSeqNum = write_fixed_head (st16 2 (ntohs usSeqNum))"

definition SetTimeStamp :: "u32 \<Rightarrow> CRtpPacket \<Rightarrow> retcode \<times> CRtpPacket" where
  "SetTimeStamp ulTimeStamp = write_fixed_head (st32 4 (ntohl ulTimeStamp))"

definition SetSSRC :: "u32 \<Rightarrow> CRtpPacket \<Rightarrow> CRtpPacket" where
  "SetSSRC unSsrc p = snd (write_fixed_head (st32 8 unSsrc) p)"

definition SetPayloadType :: "u8 \<Rightarrow> CRtpPacket \<Rightarrow> retcode \<times> CRtpPacket" where
  "SetPayloadType v = write_fixed_head (set_hdr_payload v)"

definition SetMarker :: "bool \<Rightarrow> CRtpPacket \<Rightarrow> retcode \<times> CRtpPacket" where
  "SetMarker bMarker = write_fixed_head (set_hdr_marker (if bMarker then 1 else 0))"

text \<open>
  \<open>ParsePacket\<close>.  The caller hands a pointer (\<^const>\<open>None\<close> is the null pointer) to \<open>ulLen\<close>
  readable bytes.  A set padding bit is cleared in the caller's buffer after the padding length
  has been taken from the last byte.
\<close>

definition parse_padding :: "bytes \<Rightarrow> CRtpPacket \<Rightarrow> CRtpPacket" where
  "parse_padding b p =
     (if hdr_padding b = 1
      then snd (SetPadding 0 (p\<lparr>m_ulTailLen := unat (b ! (length b - 1))\<rparr>))
      else p)"

definition parse_extension :: "nat \<Rightarrow> nat \<Rightarrow> CRtpPacket \<Rightarrow> retcode \<times> CRtpPacket" where
  "parse_extension ulLen ulHeadLen p =
     (if hdr_extension (rtp_bytes p) \<noteq> 1 then (RET_OK, p\<lparr>m_ulHeadLen := ulHeadLen\<rparr>)
      else if ulLen < ulHeadLen + RTP_EXTEND_HEADER_SIZE then (RET_ERR_PARAM, p)
      else
        let p' = p\<lparr>m_pExtHead := Some ulHeadLen\<rparr>;
            ulHeadLen' = ulHeadLen + (RTP_EXTEND_HEADER_SIZE
              + unat (ntohs (ld16 (rtp_bytes p') (ulHeadLen + 2))) * RTP_EXTEND_PROFILE_LEN)
        in if ulLen < ulHeadLen' then (RET_ERR_PARAM, p')
           else (RET_OK, p'\<lparr>m_ulHeadLen := ulHeadLen'\<rparr>))"

definition ParsePacket :: "bytes option \<Rightarrow> CRtpPacket \<Rightarrow> retcode \<times> CRtpPacket" where
  "ParsePacket pRtpData p =
     (case pRtpData of None \<Rightarrow> (RET_ERR_PARAM, p)
      | Some b \<Rightarrow>
        let ulLen = length b in
        if ulLen < RTP_FIXED_HEADER_SIZE then (RET_ERR_PARAM, p)
        else
          let p1 = parse_padding b
                     (p\<lparr>m_pRtpData := Some b, m_ulPacketLen := ulLen, m_pFixedHead := True\<rparr>);
              ulHeadLen = RTP_FIXED_HEADER_SIZE
                + unat (hdr_csrc_len (rtp_bytes p1)) * RTP_CSRC_LEN
          in if ulLen < ulHeadLen then (RET_ERR_PARAM, p1)
             else if CheckVersion p1 \<noteq> RET_OK then (RET_FAIL, p1)
             else parse_extension ulLen ulHeadLen p1)"

text \<open>
  \<open>GeneratePacket\<close>: zero the caller's buffer and put the defaults into its header.  The code does
  not compare the length with the size of the header; a buffer shorter than that would be written
  past its end, which the model does not show (the stores of the first two bytes are then lost).
  Every caller passes the start of a buffer of at least twelve bytes.
\<close>

definition GeneratePacket :: "bytes option \<Rightarrow> CRtpPacket \<Rightarrow> retcode \<times> CRtpPacket" where
  "GeneratePacket pRtpPacket p =
     (case pRtpPacket of None \<Rightarrow> (RET_ERR_PARAM, p)
      | Some b \<Rightarrow>
        let b0 = replicate (length b) 0;
            b1 = set_hdr_version RTP_PACKET_VERSION b0;
            b2 = set_hdr_marker 0 b1;
            b3 = set_hdr_payload 96 b2;
            b4 = set_hdr_extension 0 b3
        in (RET_OK, p\<lparr>m_pRtpData := Some b4, m_ulPacketLen := length b, m_pFixedHead := True,
                       m_ulHeadLen := RTP_FIXED_HEADER_SIZE\<rparr>))"

text \<open>The static \<open>GetSeqNum (const ACE_Message_Block*)\<close>: the sequence number of a packet block.\<close>

definition GetSeqNum_mb :: "bytes option \<Rightarrow> u16" where
  "GetSeqNum_mb pMb =
     (case pMb of None \<Rightarrow> 0
      | Some b \<Rightarrow>
        (case ParsePacket (Some b) CRtpPacket_new of
           (ret, p) \<Rightarrow> if ret \<noteq> RET_OK then 0 else GetSeqNum p))"

section \<open>Headers as values\<close>

text \<open>
  What the fields of a header are after the setters: each setter changes its own field, cuts it
  to the field's width and leaves the others alone.  The facts are collected in \<open>hdr_simps\<close>.
\<close>

named_theorems hdr_simps "header fields after header stores"

lemma length_set_hdr [simp]:
  "length (set_hdr_extension v b) = length b" "length (set_hdr_padding v b) = length b"
  "length (set_hdr_version v b) = length b" "length (set_hdr_payload v b) = length b"
  "length (set_hdr_marker v b) = length b"
  by (simp_all add: hdr_set_defs)

lemma hdr_after_byte0_nonempty:
  assumes "0 < length b"
  shows "hdr_csrc_len (set_hdr_extension v b) = hdr_csrc_len b"
    "hdr_padding (set_hdr_extension v b) = hdr_padding b"
    "hdr_version (set_hdr_extension v b) = hdr_version b"
    "hdr_extension (set_hdr_extension v b) = take_bit 1 v"
    "hdr_csrc_len (set_hdr_padding v b) = hdr_csrc_len b"
    "hdr_extension (set_hdr_padding v b) = hdr_extension b"
    "hdr_version (set_hdr_padding v b) = hdr_version b"
    "hdr_padding (set_hdr_padding v b) = take_bit 1 v"
    "hdr_csrc_len (set_hdr_version v b) = hdr_csrc_len b"
    "hdr_extension (set_hdr_version v b) = hdr_extension b"
    "hdr_padding (set_hdr_version v b) = hdr_padding b"
    "hdr_version (set_hdr_version v b) = take_bit 2 v"
  using assms by (simp_all add: hdr_get_defs hdr_set_defs nth_st8 bf_get_set_other)

lemmas hdr_after_byte0 [hdr_simps] = hdr_after_byte0_nonempty [OF order_less_trans [OF zero_less_one]]

lemma hdr_after_byte1 [hdr_simps]:
  assumes "1 < length b"
  shows "hdr_marker (set_hdr_payload v b) = hdr_marker b"
    "hdr_payload (set_hdr_payload v b) = take_bit 7 v"
    "hdr_payload (set_hdr_marker v b) = hdr_payload b"
    "hdr_marker (set_hdr_marker v b) = take_bit 1 v"
  using assms by (simp_all add: hdr_get_defs hdr_set_defs nth_st8 bf_get_set_other)

text \<open>Byte 0 and byte 1 are separate, and both lie before the sequence number.\<close>

lemma nth_set_hdr [hdr_simps]:
  shows "0 < i \<Longrightarrow> set_hdr_extension v b ! i = b ! i" "0 < i \<Longrightarrow> set_hdr_padding v b ! i = b ! i"
    "0 < i \<Longrightarrow> set_hdr_version v b ! i = b ! i" "i \<noteq> 1 \<Longrightarrow> set_hdr_payload v b ! i = b ! i"
    "i \<noteq> 1 \<Longrightarrow> set_hdr_marker v b ! i = b ! i"
  by (auto simp: hdr_set_defs st8_def)

lemma hdr_across_bytes [hdr_simps]:
  assumes "1 < length b"
  shows "hdr_payload (set_hdr_extension v b) = hdr_payload b"
    "hdr_marker (set_hdr_extension v b) = hdr_marker b"
    "hdr_payload (set_hdr_padding v b) = hdr_payload b"
    "hdr_marker (set_hdr_padding v b) = hdr_marker b"
    "hdr_payload (set_hdr_version v b) = hdr_payload b"
    "hdr_marker (set_hdr_version v b) = hdr_marker b"
    "hdr_csrc_len (set_hdr_payload v b) = hdr_csrc_len b"
    "hdr_extension (set_hdr_payload v b) = hdr_extension b"
    "hdr_padding (set_hdr_payload v b) = hdr_padding b"
    "hdr_version (set_hdr_payload v b) = hdr_version b"
    "hdr_csrc_len (set_hdr_marker v b) = hdr_csrc_len b"
    "hdr_extension (set_hdr_marker v b) = hdr_extension b"
    "hdr_padding (set_hdr_marker v b) = hdr_padding b"
    "hdr_version (set_hdr_marker v b) = hdr_version b"
  using assms by (simp_all add: hdr_get_defs nth_set_hdr)

lemma ld_set_hdr [hdr_simps]:
  assumes "1 < length b" "1 < i"
  shows "ld16 (set_hdr_extension v b) i = ld16 b i" "ld16 (set_hdr_padding v b) i = ld16 b i"
    "ld16 (set_hdr_version v b) i = ld16 b i" "ld16 (set_hdr_payload v b) i = ld16 b i"
    "ld16 (set_hdr_marker v b) i = ld16 b i"
    "ld32 (set_hdr_extension v b) i = ld32 b i" "ld32 (set_hdr_padding v b) i = ld32 b i"
    "ld32 (set_hdr_version v b) i = ld32 b i" "ld32 (set_hdr_payload v b) i = ld32 b i"
    "ld32 (set_hdr_marker v b) i = ld32 b i"
  using assms by (auto intro!: ld16_cong ld32_cong simp: nth_set_hdr)

lemma hdr_st16 [hdr_simps]:
  assumes "i + 1 < length b" "1 < i"
  shows "hdr_csrc_len (st16 i v b) = hdr_csrc_len b" "hdr_extension (st16 i v b) = hdr_extension b"
    "hdr_padding (st16 i v b) = hdr_padding b" "hdr_version (st16 i v b) = hdr_version b"
    "hdr_payload (st16 i v b) = hdr_payload b" "hdr_marker (st16 i v b) = hdr_marker b"
  using assms by (simp_all add: hdr_get_defs nth_st16)

lemma hdr_st32 [hdr_simps]:
  assumes "i + 3 < length b" "1 < i"
  shows "hdr_csrc_len (st32 i v b) = hdr_csrc_len b" "hdr_extension (st32 i v b) = hdr_extension b"
    "hdr_padding (st32 i v b) = hdr_padding b" "hdr_version (st32 i v b) = hdr_version b"
    "hdr_payload (st32 i v b) = hdr_payload b" "hdr_marker (st32 i v b) = hdr_marker b"
  using assms by (simp_all add: hdr_get_defs nth_st32)

lemma ld_st_other [hdr_simps]:
  "11 < length b \<Longrightarrow> ld32 (st16 2 v b) 4 = ld32 b 4"
  "11 < length b \<Longrightarrow> ld32 (st16 2 v b) 8 = ld32 b 8"
  "11 < length b \<Longrightarrow> ld16 (st32 4 w b) 2 = ld16 b 2"
  "11 < length b \<Longrightarrow> ld16 (st32 8 w b) 2 = ld16 b 2"
  "11 < length b \<Longrightarrow> ld32 (st32 4 w b) 8 = ld32 b 8"
  "11 < length b \<Longrightarrow> ld32 (st32 8 w b) 4 = ld32 b 4"
  by (auto intro!: ld16_cong ld32_cong simp: nth_st16 nth_st32)

lemma hdr_zero [hdr_simps]:
  "1 < n \<Longrightarrow> hdr_csrc_len (replicate n 0) = 0" "1 < n \<Longrightarrow> hdr_padding (replicate n 0) = 0"
  "1 < n \<Longrightarrow> hdr_extension (replicate n 0) = 0"
  by (simp_all add: hdr_get_defs bf_get_def)

section \<open>What the parser computes\<close>

text \<open>
  \<open>head_ok b n\<close>: the bytes start with a version 2 RTP header that occupies \<open>n\<close> bytes, CSRC
  list and extension included, all of it inside the packet.
\<close>

definition head_ok :: "bytes \<Rightarrow> nat \<Rightarrow> bool" where
  "head_ok b n \<longleftrightarrow>
     (let h = 12 + unat (hdr_csrc_len b) * 4 in
      12 \<le> length b \<and> h \<le> length b \<and> hdr_version b = 2 \<and>
      (if hdr_extension b = 1
       then h + 4 \<le> length b \<and> n = h + (4 + unat (ntohs (ld16 b (h + 2))) * 4) \<and> n \<le> length b
       else n = h))"

definition clear_padding :: "bytes \<Rightarrow> bytes" where
  "clear_padding b = (if hdr_padding b = 1 then set_hdr_padding 0 b else b)"

lemma length_clear_padding [simp]: "length (clear_padding b) = length b"
  by (simp add: clear_padding_def)

lemma clear_padding_hdr [hdr_simps]:
  assumes "1 < length b"
  shows "hdr_csrc_len (clear_padding b) = hdr_csrc_len b"
    "hdr_extension (clear_padding b) = hdr_extension b"
    "hdr_version (clear_padding b) = hdr_version b" "hdr_payload (clear_padding b) = hdr_payload b"
    "hdr_marker (clear_padding b) = hdr_marker b" "hdr_padding (clear_padding b) \<noteq> 1"
    "1 < i \<Longrightarrow> ld16 (clear_padding b) i = ld16 b i" "1 < i \<Longrightarrow> ld32 (clear_padding b) i = ld32 b i"
  using assms by (auto simp: clear_padding_def hdr_simps)

lemma rtp_bytes_simps [simp]:
  "rtp_bytes (p\<lparr>m_pRtpData := Some b\<rparr>) = b"
  "rtp_bytes (p\<lparr>m_pExtHead := e\<rparr>) = rtp_bytes p"
  "rtp_bytes (p\<lparr>m_ulHeadLen := n\<rparr>) = rtp_bytes p"
  "rtp_bytes (p\<lparr>m_ulTailLen := n\<rparr>) = rtp_bytes p"
  by (simp_all add: rtp_bytes_def)

lemma parse_padding_eq:
  "m_pFixedHead p \<Longrightarrow> m_pRtpData p = Some b \<Longrightarrow>
     parse_padding b p = p\<lparr>m_pRtpData := Some (clear_padding b),
       m_ulTailLen := (if hdr_padding b = 1 then unat (b ! (length b - 1)) else m_ulTailLen p)\<rparr>"
  by (auto simp: parse_padding_def SetPadding_def write_fixed_head_def clear_padding_def)

definition parsed :: "bytes \<Rightarrow> nat \<Rightarrow> CRtpPacket \<Rightarrow> CRtpPacket \<Rightarrow> bool" where
  "parsed b n q p \<longleftrightarrow>
     m_pFixedHead p \<and> m_pRtpData p = Some (clear_padding b) \<and> m_ulPacketLen p = length b \<and>
     m_ulHeadLen p = n \<and>
     m_ulTailLen p = (if hdr_padding b = 1 then unat (b ! (length b - 1)) else m_ulTailLen q)"

lemma CheckVersion_iff:
  "CheckVersion p = RET_OK \<longleftrightarrow> m_pFixedHead p \<and> hdr_version (rtp_bytes p) = 2"
  by (auto simp: CheckVersion_def GetVersion_def split: if_splits)

definition parse_start :: "bytes \<Rightarrow> CRtpPacket \<Rightarrow> CRtpPacket" where
  "parse_start b q = q\<lparr>m_pRtpData := Some (clear_padding b), m_pFixedHead := True,
     m_ulPacketLen := length b,
     m_ulTailLen := (if hdr_padding b = 1 then unat (b ! (length b - 1)) else m_ulTailLen q)\<rparr>"

lemma parse_start_sel [simp]:
  "rtp_bytes (parse_start b q) = clear_padding b" "m_pFixedHead (parse_start b q)"
  by (simp_all add: parse_start_def rtp_bytes_def)

lemma ParsePacket_eq:
  assumes "12 \<le> length b"
  shows "ParsePacket (Some b) q =
    (let h = 12 + unat (hdr_csrc_len b) * 4 in
     if length b < h then (RET_ERR_PARAM, parse_start b q)
     else if hdr_version b \<noteq> 2 then (RET_FAIL, parse_start b q)
     else parse_extension (length b) h (parse_start b q))"
proof -
  have "1 < length b" using assms by linarith
  moreover have "parse_padding b (q\<lparr>m_pRtpData := Some b, m_ulPacketLen := length b, m_pFixedHead := True\<rparr>)
      = parse_start b q"
    by (simp add: parse_padding_eq parse_start_def)
  ultimately show ?thesis
    using assms by (simp add: ParsePacket_def Let_def CheckVersion_iff hdr_simps)
qed

lemma parse_extension_eq:
  assumes "1 < length b"
  shows "parse_extension l h (parse_start b q) =
    (if hdr_extension b \<noteq> 1 then (RET_OK, (parse_start b q)\<lparr>m_ulHeadLen := h\<rparr>)
     else if l < h + 4 then (RET_ERR_PARAM, parse_start b q)
     else let n = h + (4 + unat (ntohs (ld16 b (h + 2))) * 4) in
       if l < n then (RET_ERR_PARAM, (parse_start b q)\<lparr>m_pExtHead := Some h\<rparr>)
       else (RET_OK, (parse_start b q)\<lparr>m_pExtHead := Some h, m_ulHeadLen := n\<rparr>))"
  using assms by (simp add: parse_extension_def Let_def hdr_simps)

lemma ParsePacket_short: "length b < 12 \<Longrightarrow> ParsePacket (Some b) q = (RET_ERR_PARAM, q)"
  by (simp add: ParsePacket_def)

lemma parsed_parse_start:
  "parsed b n q ((parse_start b q)\<lparr>m_ulHeadLen := n\<rparr>)"
  "parsed b n q ((parse_start b q)\<lparr>m_pExtHead := e, m_ulHeadLen := n\<rparr>)"
  by (simp_all add: parsed_def parse_start_def)

lemma ParsePacket_head_ok:
  assumes "head_ok b n"
  shows "\<exists>p. ParsePacket (Some b) q = (RET_OK, p) \<and> parsed b n q p"
proof -
  have "12 \<le> length b" "1 < length b" using assms by (auto simp: head_ok_def Let_def)
  then show ?thesis
    using assms parsed_parse_start
    by (auto simp: ParsePacket_eq parse_extension_eq head_ok_def Let_def split: if_splits)
qed

lemma ParsePacket_OK_head_ok:
  assumes "ParsePacket (Some b) q = (RET_OK, p)"
  shows "head_ok b (m_ulHeadLen p) \<and> parsed b (m_ulHeadLen p) q p"
proof -
  have l: "12 \<le> length b"
    using assms ParsePacket_short [of b q] by fastforce
  then have "1 < length b" by linarith
  with l show ?thesis
    using assms parsed_parse_start
    by (auto simp: ParsePacket_eq parse_extension_eq head_ok_def Let_def split: if_splits)
qed

lemma parsed_getters:
  assumes "parsed b n q p" "1 < length b"
  shows "GetSeqNum p = ntohs (ld16 b 2)" "GetTimeStamp p = ntohl (ld32 b 4)"
    "GetSSRC p = ld32 b 8" "GetPayloadType p = hdr_payload b"
    "GetMarker p \<longleftrightarrow> hdr_marker b \<noteq> 0" "GetHeadLen p = n" "rtp_bytes p = clear_padding b"
  using assms
  by (simp_all add: parsed_def GetSeqNum_def GetTimeStamp_def GetSSRC_def GetPayloadType_def
      GetMarker_def GetHeadLen_def rtp_bytes_def hdr_simps)

section \<open>Well-formed packets\<close>

text \<open>
  The packets of RFC 3550 as values, and their encoding, every field in network byte order.
  \<open>rh_padding\<close> is the number of padding octets, the last of which holds the number itself.
\<close>

record rtp_header =
  rh_marker :: bool
  rh_pt :: u8
  rh_seq :: u16
  rh_ts :: u32
  rh_ssrc :: u32
  rh_csrcs :: "u32 list"
  rh_ext :: "(u16 \<times> u32 list) option"
  rh_padding :: nat

definition rtp_header_valid :: "rtp_header \<Rightarrow> bool" where
  "rtp_header_valid h \<longleftrightarrow>
     rh_pt h < 128 \<and> length (rh_csrcs h) < 16 \<and> rh_padding h < 256 \<and>
     (case rh_ext h of None \<Rightarrow> True | Some (_, ws) \<Rightarrow> length ws < 65536)"

definition encode_ext :: "(u16 \<times> u32 list) option \<Rightarrow> bytes" where
  "encode_ext e =
     (case e of None \<Rightarrow> []
      | Some (prof, ws) \<Rightarrow> le16 (htons prof) @ le16 (htons (of_nat (length ws)))
          @ concat (map (\<lambda>w. le32 (htonl w)) ws))"

definition encode_byte0 :: "rtp_header \<Rightarrow> u8" where
  "encode_byte0 h = bf_set 0 4 (of_nat (length (rh_csrcs h)))
     (bf_set 4 1 (if rh_ext h = None then 0 else 1)
     (bf_set 5 1 (if rh_padding h = 0 then 0 else 1) (bf_set 6 2 2 0)))"

definition encode_fixed :: "rtp_header \<Rightarrow> bytes" where
  "encode_fixed h = [encode_byte0 h, bf_set 0 7 (rh_pt h) (bf_set 7 1 (if rh_marker h then 1 else 0) 0)]
     @ le16 (htons (rh_seq h)) @ le32 (htonl (rh_ts h)) @ le32 (htonl (rh_ssrc h))"

definition encode_header :: "rtp_header \<Rightarrow> bytes" where
  "encode_header h = encode_fixed h @ concat (map (\<lambda>w. le32 (htonl w)) (rh_csrcs h))
     @ encode_ext (rh_ext h)"

definition encode_padding :: "nat \<Rightarrow> bytes" where
  "encode_padding n = (if n = 0 then [] else replicate (n - 1) 0 @ [of_nat n])"

definition encode_packet :: "rtp_header \<Rightarrow> bytes \<Rightarrow> bytes" where
  "encode_packet h payload = encode_header h @ payload @ encode_padding (rh_padding h)"

lemma length_encode_fixed [simp]: "length (encode_fixed h) = 12"
  by (simp add: encode_fixed_def)

lemma length_encode_padding [simp]: "length (encode_padding n) = n"
  by (simp add: encode_padding_def)

lemma length_encode_ext:
  "length (encode_ext e) = (case e of None \<Rightarrow> 0 | Some (_, ws) \<Rightarrow> 4 + 4 * length ws)"
  by (simp add: encode_ext_def split: option.splits prod.splits)

lemma take_bit_small: "unat (v :: 'a::len word) < 2 ^ n \<Longrightarrow> take_bit n v = v"
  by (metis unsigned_take_bit_eq take_bit_nat_eq_self word_unat_eq_iff)

lemma encode_fixed_fields:
  assumes "rtp_header_valid h"
  shows "unat (hdr_csrc_len (encode_fixed h @ r)) = length (rh_csrcs h)"
    "hdr_extension (encode_fixed h @ r) = (if rh_ext h = None then 0 else 1)"
    "hdr_padding (encode_fixed h @ r) = (if rh_padding h = 0 then 0 else 1)"
    "hdr_version (encode_fixed h @ r) = 2"
    "hdr_payload (encode_fixed h @ r) = rh_pt h"
    "hdr_marker (encode_fixed h @ r) = (if rh_marker h then 1 else 0)"
    "ld16 (encode_fixed h @ r) 2 = ntohs (rh_seq h)"
    "ld32 (encode_fixed h @ r) 4 = ntohl (rh_ts h)"
    "ld32 (encode_fixed h @ r) 8 = ntohl (rh_ssrc h)"
proof -
  have cc: "length (rh_csrcs h) < 16" and pt: "unat (rh_pt h) < 2 ^ 7"
    using assms by (auto simp: rtp_header_valid_def word_less_nat_alt)
  have "take_bit 4 (of_nat (length (rh_csrcs h)) :: u8) = of_nat (length (rh_csrcs h))"
    using cc by (intro take_bit_small) (simp add: unat_of_nat)
  then show "unat (hdr_csrc_len (encode_fixed h @ r)) = length (rh_csrcs h)"
    using cc by (simp add: hdr_get_defs encode_fixed_def encode_byte0_def unat_of_nat)
  show "hdr_payload (encode_fixed h @ r) = rh_pt h"
    using take_bit_small [OF pt] by (simp add: hdr_get_defs encode_fixed_def)
qed (simp_all add: hdr_get_defs encode_fixed_def encode_byte0_def bf_get_set_other le16_def le32_def
      ld16_def ld32_def ld16_bytes ld32_bytes nth_append)

lemma head_ok_encode:
  assumes "rtp_header_valid h"
  shows "head_ok (encode_header h @ r) (length (encode_header h))"
proof (cases "rh_ext h")
  case None
  with assms show ?thesis
    by (simp add: head_ok_def Let_def encode_header_def encode_fixed_fields encode_ext_def)
next
  case (Some e)
  obtain prof ws where e: "e = (prof, ws)" by (cases e)
  define pre where "pre = encode_fixed h @ concat (map (\<lambda>w. le32 (htonl w)) (rh_csrcs h))"
  have lp: "length pre = 12 + length (rh_csrcs h) * 4" by (simp add: pre_def)
  have lw: "length ws < 65536" using assms Some e by (simp add: rtp_header_valid_def)
  have skip: "ld16 (le16 (htons prof) @ t) 2 = ld16 t 0" for t
    using ld16_append [of "le16 (htons prof)" t 0] by simp
  have "ld16 (pre @ le16 (htons prof) @ le16 (htons (of_nat (length ws))) @ t) (length pre + 2)
      = htons (of_nat (length ws))" for t
    by (simp only: ld16_append skip ld16_le16)
  with lw Some e assms lp show ?thesis
    by (simp add: head_ok_def Let_def encode_header_def encode_fixed_fields encode_ext_def
        pre_def unat_of_nat mult.commute [of "length (rh_csrcs h)" 4])
qed

lemma last_encode_packet:
  assumes "0 < rh_padding h" "rh_padding h < 256"
  shows "unat (encode_packet h payload ! (length (encode_packet h payload) - 1)) = rh_padding h"
proof -
  define xs where "xs = encode_header h @ payload @ replicate (rh_padding h - 1) 0"
  have eq: "encode_packet h payload = xs @ [of_nat (rh_padding h)]"
    using assms by (simp add: encode_packet_def encode_padding_def xs_def)
  show ?thesis
    unfolding eq using assms by (simp add: unat_of_nat)
qed

lemma drop_clear_padding: "0 < n \<Longrightarrow> drop n (clear_padding b) = drop n b"
  by (simp add: clear_padding_def set_hdr_padding_def st8_def)

lemma ParsePacket_encode_aux:
  assumes "rtp_header_valid h"
  shows "\<exists>p. ParsePacket (Some (encode_packet h payload)) CRtpPacket_new = (RET_OK, p) \<and>
    GetMarker p = rh_marker h \<and> GetPayloadType p = rh_pt h \<and> GetSeqNum p = rh_seq h \<and>
    GetTimeStamp p = rh_ts h \<and> GetSSRC p = ntohl (rh_ssrc h) \<and>
    GetHeadLen p = length (encode_header h) \<and> GetTailLen p = rh_padding h \<and>
    take (length payload) (drop (GetHeadLen p) (rtp_bytes p)) = payload"
proof -
  let ?b = "encode_packet h payload"
  have ok: "head_ok ?b (length (encode_header h))"
    using head_ok_encode [OF assms] by (simp add: encode_packet_def)
  then obtain p where p: "ParsePacket (Some ?b) CRtpPacket_new = (RET_OK, p)"
    and pd: "parsed ?b (length (encode_header h)) CRtpPacket_new p"
    using ParsePacket_head_ok by blast
  obtain r where r: "?b = encode_fixed h @ r" by (simp add: encode_packet_def encode_header_def)
  have len: "1 < length ?b" using r by simp
  have pos: "0 < length (encode_header h)" by (simp add: encode_header_def)
  have tail: "GetTailLen p = rh_padding h"
    using pd last_encode_packet [of h payload] assms encode_fixed_fields(3) [OF assms, of r] r
    by (auto simp: parsed_def GetTailLen_def CRtpPacket_new_def rtp_header_valid_def)
  have pay: "take (length payload) (drop (GetHeadLen p) (rtp_bytes p)) = payload"
    using parsed_getters(6,7) [OF pd len] pos
    by (simp add: drop_clear_padding) (simp add: encode_packet_def)
  show ?thesis
    using p tail pay parsed_getters [OF pd len] encode_fixed_fields [OF assms, of r] r
    by (intro exI [of _ p]) simp
qed

text \<open>
  C1.  \<open>ParsePacket\<close> accepts every well-formed RTP packet, whatever its CSRC list, header extension,
  payload and padding, and reads it right: the getters return the header's fields, the head
  length is the exact size of fixed header, CSRC list and extension, the tail length is the
  number of padding octets, and what lies between head and tail is the payload.  The SSRC is the
  exception: \<open>GetSSRC\<close> does not convert it from network order, so it returns the number with its
  four bytes reversed.
\<close>

theorem ParsePacket_encode:
  assumes "rtp_header_valid h"
  shows "\<exists>p. ParsePacket (Some (encode_packet h payload)) CRtpPacket_new = (RET_OK, p) \<and>
    GetMarker p = rh_marker h \<and> GetPayloadType p = rh_pt h \<and> GetSeqNum p = rh_seq h \<and>
    GetTimeStamp p = rh_ts h \<and> GetSSRC p = ntohl (rh_ssrc h) \<and>
    GetHeadLen p = length (encode_header h) \<and> GetTailLen p = rh_padding h \<and>
    take (length payload) (drop (GetHeadLen p) (rtp_bytes p)) = payload"
  using assms by (rule ParsePacket_encode_aux)

definition example_header :: rtp_header where
  "example_header = \<lparr>rh_marker = True, rh_pt = 96, rh_seq = 0x1234, rh_ts = 0x01020304,
     rh_ssrc = 0xCAFE, rh_csrcs = [7, 9], rh_ext = Some (0xBEDE, [5]), rh_padding = 2\<rparr>"

theorem ParsePacket_encode_witness:
  "rtp_header_valid example_header \<and>
   (\<exists>p. ParsePacket (Some (encode_packet example_header [1, 2, 3])) CRtpPacket_new = (RET_OK, p) \<and>
     GetSeqNum p = 0x1234 \<and> GetSSRC p = 0xFECA0000 \<and> GetHeadLen p = 28 \<and> GetTailLen p = 2)"
proof -
  have s: "ntohl 0xCAFE = 0xFECA0000" by code_simp
  have v: "rtp_header_valid example_header"
    by (simp add: example_header_def rtp_header_valid_def)
  have l: "length (encode_header example_header) = 28"
    by (simp add: encode_header_def length_encode_ext example_header_def)
  from ParsePacket_encode [OF v, of "[1, 2, 3]"] v l s show ?thesis
    by (auto simp: example_header_def)
qed

text \<open>
  The same question on the raw bytes, in plain arithmetic and without the bit fields of the
  struct: does a version 2 header with its CSRC list and its extension lie inside the packet,
  and how long is it?
\<close>

definition rtp_head_len :: "bytes \<Rightarrow> nat option" where
  "rtp_head_len b =
     (if length b < 12 \<or> unat (b ! 0) div 64 \<noteq> 2 then None
      else
        let h = 12 + 4 * (unat (b ! 0) mod 16);
            n = (if even (unat (b ! 0) div 16) then h
                 else h + 4 + 4 * (256 * unat (b ! (h + 2)) + unat (b ! (h + 3))))
        in if n \<le> length b then Some n else None)"

lemma unat_bf_get: "unat (bf_get lo len (x :: 'a::len word)) = unat x div 2 ^ lo mod 2 ^ len"
  by (simp add: bf_get_def unsigned_take_bit_eq unat_drop_bit_eq take_bit_eq_mod [where 'a = nat]
      drop_bit_eq_div [where 'a = nat])

lemma rtp_head_len_head_ok: "rtp_head_len b = Some n \<longleftrightarrow> head_ok b n"
proof -
  have l: "unat (b ! 0) < 256" by (rule unat_u8)
  have v: "hdr_version b = 2 \<longleftrightarrow> unat (b ! 0) div 64 = 2"
    using l by (simp add: hdr_version_def word_unat_eq_iff unat_bf_get)
  have c: "unat (hdr_csrc_len b) = unat (b ! 0) mod 16"
    by (simp add: hdr_csrc_len_def unat_bf_get)
  have x: "hdr_extension b = 1 \<longleftrightarrow> odd (unat (b ! 0) div 16)"
    by (simp add: hdr_extension_def word_unat_eq_iff unat_bf_get odd_iff_mod_2_eq_one)
  show ?thesis
    unfolding rtp_head_len_def head_ok_def Let_def v c x unat_ntohs_ld16
    by (auto simp: mult.commute split: if_splits)
qed

lemma bf_get_one: "bf_get lo 1 (x :: 'a::len word) = 1 \<longleftrightarrow> bit x lo"
proof
  assume "bf_get lo 1 x = 1"
  then have "bit (bf_get lo 1 x) 0" by simp
  then show "bit x lo" by (simp only: bit_bf_get) simp
next
  assume "bit x lo"
  then show "bf_get lo 1 x = 1" by (intro bit_word_eqI) (auto simp: bit_bf_get bit_1_iff)
qed

lemma clear_padding_and:
  assumes "b \<noteq> []"
  shows "clear_padding b = (hd b AND 0xDF) # tl b"
proof -
  have m: "bit (0xDF :: u8) n \<longleftrightarrow> n < 8 \<and> n \<noteq> 5" for n
  proof (cases "n < 8")
    case True
    then consider "n = 0" | "n = 1" | "n = 2" | "n = 3" | "n = 4" | "n = 5" | "n = 6" | "n = 7"
      by linarith
    then show ?thesis by cases simp_all
  qed (auto dest: bit_imp_le_length)
  have h: "b = hd b # tl b" using assms by simp
  have "bf_set 5 1 0 (hd b) = hd b AND 0xDF"
    by (rule bit_word_eqI, simp only: bf_simps bit_and_iff m) auto
  moreover have "hd b = hd b AND 0xDF" if "hdr_padding b \<noteq> 1"
  proof (rule bit_word_eqI)
    fix n
    assume n: "n < LENGTH(8)"
    have "\<not> bit (hd b) 5"
    proof
      assume "bit (hd b) 5"
      then have "bf_get 5 1 (hd b) = 1"
        by (intro bit_word_eqI) (auto simp: bf_simps bit_1_iff)
      with that assms show False by (simp add: hdr_padding_def hd_conv_nth)
    qed
    with n show "bit (hd b) n = bit (hd b AND 0xDF) n"
      by (simp only: bit_and_iff m) auto
  qed
  ultimately show ?thesis
    using assms by (subst (1 2 3) h) (auto simp: clear_padding_def set_hdr_padding_def st8_def
      hdr_padding_def hd_conv_nth)
qed

text \<open>
  C2.  Whatever bytes arrive, \<open>ParsePacket\<close> accepts them exactly when a version 2 header with its
  whole CSRC list and header extension lies inside them, computed on the raw bytes in plain
  arithmetic.  The head length is then exactly the size of this header (so the callers'
  \<open>rd_ptr(GetHeadLen())\<close> never runs past the data), the tail length is the last byte if the padding
  bit is set and unchanged otherwise, and the buffer stays as it was but for the padding bit of
  the first byte, which is cleared.
\<close>

theorem ParsePacket_bounds:
  "case ParsePacket (Some b) q of (ret, p) \<Rightarrow>
     (case rtp_head_len b of
        None \<Rightarrow> ret \<noteq> RET_OK
      | Some n \<Rightarrow> ret = RET_OK \<and> GetHeadLen p = n \<and> n \<le> length b \<and>
          GetTailLen p = (if bit (hd b) 5 then unat (last b) else GetTailLen q) \<and>
          rtp_bytes p = (hd b AND 0xDF) # tl b)"
proof (cases "rtp_head_len b")
  case None
  then have "fst (ParsePacket (Some b) q) \<noteq> RET_OK"
    using ParsePacket_OK_head_ok [of b q] rtp_head_len_head_ok [of b]
    by (cases "ParsePacket (Some b) q") auto
  with None show ?thesis by (auto split: prod.split)
next
  case (Some n)
  then have ok: "head_ok b n" by (simp add: rtp_head_len_head_ok)
  from ParsePacket_head_ok [OF this] obtain p where p: "ParsePacket (Some b) q = (RET_OK, p)"
    and pd: "parsed b n q p" by blast
  have len: "1 < length b" using ok by (auto simp: head_ok_def Let_def)
  then have ne: "b \<noteq> []" by auto
  have bit5: "hdr_padding b = 1 \<longleftrightarrow> bit (hd b) 5"
    using ne by (simp add: hdr_padding_def hd_conv_nth bf_get_one [unfolded One_nat_def])
  from ok have "n \<le> length b" by (auto simp: head_ok_def Let_def split: if_splits)
  then show ?thesis
    using Some p pd parsed_getters(6,7) [OF pd len] bit5 clear_padding_and [OF ne] ne
    by (simp add: parsed_def GetTailLen_def last_conv_nth)
qed

section \<open>Writing packets\<close>

text \<open>
  The encapsulators fill the header of a generated packet by the same five setter calls;
  \<open>rtp_fill\<close> is that sequence.
\<close>

definition rtp_fill :: "u8 \<Rightarrow> u16 \<Rightarrow> u32 \<Rightarrow> u32 \<Rightarrow> bool \<Rightarrow> CRtpPacket \<Rightarrow> CRtpPacket" where
  "rtp_fill pt seq ts ssrc mk p =
     snd (SetMarker mk (SetSSRC ssrc (snd (SetTimeStamp ts (snd (SetSeqNum seq
       (snd (SetPayloadType pt p))))))))"

definition fill_bytes :: "u8 \<Rightarrow> u16 \<Rightarrow> u32 \<Rightarrow> u32 \<Rightarrow> bool \<Rightarrow> bytes \<Rightarrow> bytes" where
  "fill_bytes pt seq ts ssrc mk b =
     set_hdr_marker (if mk then 1 else 0) (st32 8 ssrc (st32 4 (ntohl ts)
       (st16 2 (ntohs seq) (set_hdr_payload pt b))))"

lemma rtp_fill_eq:
  assumes "m_pFixedHead p" "m_pRtpData p = Some b"
  shows "rtp_fill pt seq ts ssrc mk p = p\<lparr>m_pRtpData := Some (fill_bytes pt seq ts ssrc mk b)\<rparr>"
  using assms
  by (simp add: rtp_fill_def fill_bytes_def SetMarker_def SetSSRC_def SetTimeStamp_def
      SetSeqNum_def SetPayloadType_def write_fixed_head_def)

lemma length_fill_bytes [simp]: "length (fill_bytes pt seq ts ssrc mk b) = length b"
  by (simp add: fill_bytes_def)

text \<open>
  The header of a packet the encapsulators write.  \<open>SetSSRC\<close> stores its argument in host order
  as it is, so the SSRC on the wire is the argument with its bytes reversed.
\<close>

definition simple_header :: "bool \<Rightarrow> u8 \<Rightarrow> u16 \<Rightarrow> u32 \<Rightarrow> u32 \<Rightarrow> rtp_header" where
  "simple_header mk pt seq ts ssrc = \<lparr>rh_marker = mk, rh_pt = pt, rh_seq = seq, rh_ts = ts,
     rh_ssrc = ntohl ssrc, rh_csrcs = [], rh_ext = None, rh_padding = 0\<rparr>"

lemma simple_header_valid [simp]: "pt < 128 \<Longrightarrow> rtp_header_valid (simple_header mk pt seq ts ssrc)"
  by (simp add: simple_header_def rtp_header_valid_def)

lemma encode_packet_simple:
  "encode_packet (simple_header mk pt seq ts ssrc) payload =
     encode_fixed (simple_header mk pt seq ts ssrc) @ payload"
  by (simp add: encode_packet_def encode_header_def encode_ext_def encode_padding_def
      simple_header_def)

lemma simple_header_sel [simp]:
  "rh_marker (simple_header mk pt seq ts ssrc) = mk" "rh_pt (simple_header mk pt seq ts ssrc) = pt"
  "rh_seq (simple_header mk pt seq ts ssrc) = seq" "rh_ts (simple_header mk pt seq ts ssrc) = ts"
  "rh_ssrc (simple_header mk pt seq ts ssrc) = ntohl ssrc"
  "length (encode_header (simple_header mk pt seq ts ssrc)) = 12"
  by (simp_all add: simple_header_def encode_header_def encode_ext_def)

lemma ParsePacket_simple:
  assumes "pt < 128"
  obtains p where
    "ParsePacket (Some (encode_packet (simple_header mk pt seq ts ssrc) payload)) CRtpPacket_new
       = (RET_OK, p)"
    "GetMarker p = mk" "GetPayloadType p = pt" "GetSeqNum p = seq" "GetTimeStamp p = ts"
    "GetSSRC p = ssrc" "GetHeadLen p = 12" "drop 12 (rtp_bytes p) = payload"
proof -
  let ?h = "simple_header mk pt seq ts ssrc"
  from ParsePacket_encode_aux [OF simple_header_valid [OF assms], of mk seq ts ssrc payload,
      unfolded simple_header_sel ntohl_ntohl]
  obtain p where p: "ParsePacket (Some (encode_packet ?h payload)) CRtpPacket_new = (RET_OK, p)"
    and f: "GetMarker p = mk" "GetPayloadType p = pt" "GetSeqNum p = seq"
      "GetTimeStamp p = ts" "GetSSRC p = ssrc" "GetHeadLen p = 12"
      "take (length payload) (drop (GetHeadLen p) (rtp_bytes p)) = payload"
    by blast
  have "length (rtp_bytes p) = 12 + length payload"
    using ParsePacket_OK_head_ok [OF p] by (simp add: parsed_def rtp_bytes_def encode_packet_simple)
  with f(6,7) have "drop 12 (rtp_bytes p) = payload" by simp
  with p f(1-6) show ?thesis by (rule that)
qed

lemma bf_set_byte1: "bf_set 7 1 m (bf_set 0 7 v (x :: u8)) = bf_set 0 7 v (bf_set 7 1 m 0)"
  by (rule bit_word_eqI) (auto simp: bf_simps)

lemma encode_byte0_simple: "encode_byte0 (simple_header mk pt seq ts ssrc) = 0x80"
proof -
  have "encode_byte0 (simple_header mk pt seq ts ssrc) = bf_set 0 4 0 (bf_set 4 1 0 (bf_set 5 1 0 (bf_set 6 2 2 0)))"
    by (simp add: encode_byte0_def simple_header_def)
  also have "\<dots> = 0x80" by code_simp
  finally show ?thesis .
qed

text \<open>The first twelve bytes of a buffer, one by one.\<close>

lemma take12:
  "12 \<le> length b \<Longrightarrow>
     take 12 b = [b!0, b!1, b!2, b!3, b!4, b!5, b!6, b!7, b!8, b!9, b!10, b!11]"
  by (rule nth_equalityI) (auto simp: less_Suc_eq numeral_eq_Suc)

lemma take12_fill_bytes:
  assumes "12 \<le> length b" "b ! 0 = 0x80"
  shows "take 12 (fill_bytes pt seq ts ssrc mk b) = encode_fixed (simple_header mk pt seq ts ssrc)"
proof -
  let ?f = "fill_bytes pt seq ts ssrc mk b"
  have n: "?f ! 0 = 0x80"
    "?f ! 1 = bf_set 0 7 pt (bf_set 7 1 (if mk then 1 else 0) 0)"
    "?f ! 2 = ucast (ntohs seq)" "?f ! 3 = ucast (drop_bit 8 (ntohs seq))"
    "?f ! 4 = ucast (ntohl ts)" "?f ! 5 = ucast (drop_bit 8 (ntohl ts))"
    "?f ! 6 = ucast (drop_bit 16 (ntohl ts))" "?f ! 7 = ucast (drop_bit 24 (ntohl ts))"
    "?f ! 8 = ucast ssrc" "?f ! 9 = ucast (drop_bit 8 ssrc)"
    "?f ! 10 = ucast (drop_bit 16 ssrc)" "?f ! 11 = ucast (drop_bit 24 ssrc)"
    using assms by (simp_all add: fill_bytes_def hdr_set_defs mem_simps bf_set_byte1 [unfolded One_nat_def])
  show ?thesis
    using assms by (subst take12) (simp_all only: n length_fill_bytes, simp add: encode_fixed_def
      encode_byte0_simple le16_def le32_def)
qed

lemma drop12_fill_bytes:
  "12 \<le> length b \<Longrightarrow> drop 12 (fill_bytes pt seq ts ssrc mk b) = drop 12 b"
  by (rule nth_equalityI) (auto simp: fill_bytes_def hdr_set_defs mem_simps)

lemma nth0_fill_bytes:
  "12 \<le> length b \<Longrightarrow> fill_bytes pt seq ts ssrc mk b ! 0 = b ! 0"
  by (simp add: fill_bytes_def hdr_set_defs mem_simps)

lemma GeneratePacket_bytes:
  assumes "12 \<le> length b"
  shows "\<exists>p b'. GeneratePacket (Some b) q = (RET_OK, p) \<and> m_pFixedHead p \<and> m_pRtpData p = Some b' \<and>
    length b' = length b \<and> b' ! 0 = 0x80 \<and> drop 12 b' = replicate (length b - 12) 0"
proof -
  have z: "bf_set 4 1 0 (bf_set 6 2 2 (0 :: u8)) = 0x80" by code_simp
  from assms have "b \<noteq> []" "1 < length b" by auto
  then show ?thesis
    using assms
    by (simp add: GeneratePacket_def Let_def hdr_set_defs mem_simps z [simplified])
      (simp add: st8_def)
qed

text \<open>
  Round trip of a written packet: generate a packet in a buffer, fill its header with the
  setters, copy a payload behind the header, and parse the bytes again.  The parser accepts and
  returns the marker, payload type, sequence number, time stamp and SSRC that were set, and the
  payload.
\<close>

theorem generate_fill_parse:
  assumes "12 + length payload \<le> length b" "pt < 128"
  shows "\<exists>p. ParsePacket (Some (take (12 + length payload) (st_block 12 payload
      (rtp_bytes (rtp_fill pt seq ts ssrc mk (snd (GeneratePacket (Some b) q))))))) CRtpPacket_new
      = (RET_OK, p) \<and>
    GetMarker p = mk \<and> GetPayloadType p = pt \<and> GetSeqNum p = seq \<and> GetTimeStamp p = ts \<and>
    GetSSRC p = ssrc \<and> GetHeadLen p = 12 \<and> drop 12 (rtp_bytes p) = payload"
proof -
  have l12: "12 \<le> length b" using assms(1) by linarith
  from GeneratePacket_bytes [OF this, of q] obtain p b' where
    g: "GeneratePacket (Some b) q = (RET_OK, p)" "m_pFixedHead p" "m_pRtpData p = Some b'"
    and b': "length b' = length b" "b' ! 0 = 0x80"
    by blast
  let ?h = "simple_header mk pt seq ts ssrc"
  let ?f = "fill_bytes pt seq ts ssrc mk b'"
  have "take (12 + length payload) (st_block 12 payload ?f) = encode_packet ?h payload"
    using l12 b' assms(1) take12_fill_bytes [of b' pt seq ts ssrc mk]
    by (simp add: st_block_def encode_packet_simple)
  then have bytes: "take (12 + length payload) (st_block 12 payload
      (rtp_bytes (rtp_fill pt seq ts ssrc mk (snd (GeneratePacket (Some b) q)))))
      = encode_packet ?h payload"
    using g by (simp add: rtp_fill_eq)
  show ?thesis
    unfolding bytes by (rule ParsePacket_simple [OF assms(2), of mk seq ts ssrc payload]) blast
qed

theorem generate_fill_parse_witness:
  "12 + length [7 :: u8, 8] \<le> length (replicate 32 (0 :: u8)) \<and> (96 :: u8) < 128 \<and>
   (\<exists>p. ParsePacket (Some (take 14 (st_block 12 [7, 8]
      (rtp_bytes (rtp_fill 96 10 20 30 True (snd (GeneratePacket (Some (replicate 32 0))
         CRtpPacket_new))))))) CRtpPacket_new = (RET_OK, p) \<and> GetSeqNum p = 10 \<and>
      drop 12 (rtp_bytes p) = [7, 8])"
proof -
  have a: "12 + length [7 :: u8, 8] \<le> length (replicate 32 (0 :: u8))" and b: "(96 :: u8) < 128"
    by simp_all
  from generate_fill_parse [OF a b, of 10 20 30 True CRtpPacket_new] show ?thesis
    by auto
qed

end
