(* ===== verification/RtpFrameOrganizer.thy ===== *)
theory RtpFrameOrganizer
  imports RtpPacket "HOL-Library.Multiset" "HOL-Library.Sublist"
begin

unbundle bit_operations_syntax

text \<open>
  \<open>CRtpFrameOrganizer\<close> (\<open>svs_adapter_rtp_frame_organizer.cpp\<close>): it collects RTP packets by time
  stamp in a bounded number of frame records, keeps the packets of a frame in order of their
  sequence numbers and hands a frame to its callback when it has a packet with the marker and no
  gap.

  A message block is a reference number and its bytes.  What an operation does besides changing the
  organizer is a list of events: frames handed to the callback and blocks given back to the pool.
  The \<open>std::map\<close> of frames is an association list in key order.
\<close>

type_synonym block = "nat \<times> bytes"

record RTP_PACK_INFO_S =
  usSeq :: u16
  pk_unTimestamp :: u32
  pk_bMarker :: bool
  pRtpMsgBlock :: block

record RTP_FRAME_INFO_S =
  unTimestamp :: u32
  bMarker :: bool
  PacketQueue :: "RTP_PACK_INFO_S list"

record CRtpFrameOrganizer =
  m_unMaxCacheFrameNum :: nat
  m_pRtpFrameHandler :: bool
  m_RtpFrameMap :: "(u32 \<times> RTP_FRAME_INFO_S) list"
  m_RtpFrameFreeList :: "RTP_FRAME_INFO_S list"

datatype org_event = Deliver "block list" | FreeBlock block

definition CRtpFrameOrganizer_new :: CRtpFrameOrganizer where
  "CRtpFrameOrganizer_new = \<lparr>m_unMaxCacheFrameNum = 0, m_pRtpFrameHandler = False,
     m_RtpFrameMap = [], m_RtpFrameFreeList = []\<rparr>"

definition empty_frame :: RTP_FRAME_INFO_S where
  "empty_frame = \<lparr>unTimestamp = 0, bMarker = False, PacketQueue = []\<rparr>"

text \<open>\<open>init\<close>; \<open>alloc i\<close> says whether the allocation of frame record \<open>i\<close> succeeds.\<close>

fun alloc_frames :: "(nat \<Rightarrow> bool) \<Rightarrow> nat \<Rightarrow> nat \<Rightarrow> CRtpFrameOrganizer \<Rightarrow> retcode \<times> CRtpFrameOrganizer" where
  "alloc_frames alloc i 0 s = (RET_OK, s)"
| "alloc_frames alloc i (Suc n) s =
     (if \<not> alloc i then (RET_FAIL, s)
      else alloc_frames alloc (Suc i) n
             (s\<lparr>m_RtpFrameFreeList := m_RtpFrameFreeList s @ [empty_frame]\<rparr>))"

definition organizer_init ::
  "bool \<Rightarrow> nat \<Rightarrow> (nat \<Rightarrow> bool) \<Rightarrow> CRtpFrameOrganizer \<Rightarrow> retcode \<times> CRtpFrameOrganizer" where
  "organizer_init pHandler unMaxFrameCache alloc s =
     (if \<not> pHandler \<or> unMaxFrameCache = 0 then (RET_FAIL, s)
      else alloc_frames alloc 0 unMaxFrameCache
             (s\<lparr>m_pRtpFrameHandler := True, m_unMaxCacheFrameNum := unMaxFrameCache\<rparr>))"

section \<open>Frame records\<close>

text \<open>\<open>std::map\<close>: insert if the key is new, erase, and change through the stored pointer.\<close>

fun map_put :: "u32 \<Rightarrow> 'f \<Rightarrow> (u32 \<times> 'f) list \<Rightarrow> (u32 \<times> 'f) list" where
  "map_put k f [] = [(k, f)]"
| "map_put k f ((k', f') # m) =
     (if k < k' then (k, f) # (k', f') # m
      else if k = k' then (k', f') # m
      else (k', f') # map_put k f m)"

definition map_erase :: "u32 \<Rightarrow> (u32 \<times> 'f) list \<Rightarrow> (u32 \<times> 'f) list" where
  "map_erase k m = filter (\<lambda>(k', f). k' \<noteq> k) m"

definition map_change :: "u32 \<Rightarrow> ('f \<Rightarrow> 'f) \<Rightarrow> (u32 \<times> 'f) list \<Rightarrow> (u32 \<times> 'f) list" where
  "map_change k g m = map (\<lambda>(k', f). if k' = k then (k', g f) else (k', f)) m"

text \<open>\<open>InsertFrame\<close>: take a free record for a new time stamp.\<close>

definition InsertFrame :: "u32 \<Rightarrow> CRtpFrameOrganizer \<Rightarrow> RTP_FRAME_INFO_S option \<times> CRtpFrameOrganizer" where
  "InsertFrame ts s =
     (case m_RtpFrameFreeList s of [] \<Rightarrow> (None, s)
      | f # fs \<Rightarrow>
          let f1 = f\<lparr>bMarker := False, unTimestamp := ts\<rparr>
          in (Some f1, s\<lparr>m_RtpFrameFreeList := fs, m_RtpFrameMap := map_put ts f1 (m_RtpFrameMap s)\<rparr>))"

fun small_frame :: "RTP_FRAME_INFO_S option \<Rightarrow> (u32 \<times> RTP_FRAME_INFO_S) list \<Rightarrow> RTP_FRAME_INFO_S option" where
  "small_frame best [] = best"
| "small_frame None ((k, f) # m) = small_frame (Some f) m"
| "small_frame (Some b) ((k, f) # m) =
     small_frame (Some (if unTimestamp b > unTimestamp f then f else b)) m"

definition GetSmallFrame :: "CRtpFrameOrganizer \<Rightarrow> RTP_FRAME_INFO_S option" where
  "GetSmallFrame s = small_frame None (m_RtpFrameMap s)"

text \<open>\<open>releaseRtpPacket\<close>: free the packets of a frame and give its record back.\<close>

definition releaseRtpPacket ::
  "RTP_FRAME_INFO_S option \<Rightarrow> CRtpFrameOrganizer \<Rightarrow> CRtpFrameOrganizer \<times> org_event list" where
  "releaseRtpPacket pFrame s =
     (case pFrame of None \<Rightarrow> (s, [])
      | Some f \<Rightarrow>
          (case map_of (m_RtpFrameMap s) (unTimestamp f) of None \<Rightarrow> (s, [])
           | Some _ \<Rightarrow>
               (s\<lparr>m_RtpFrameMap := map_erase (unTimestamp f) (m_RtpFrameMap s),
                  m_RtpFrameFreeList := m_RtpFrameFreeList s @ [f\<lparr>PacketQueue := []\<rparr>]\<rparr>,
                map (\<lambda>p. FreeBlock (pRtpMsgBlock p)) (PacketQueue f))))"

section \<open>Packets of a frame\<close>

text \<open>
  \<open>insertRange\<close>: the loop looks at positions up to and including the size; reading there is
  \<^const>\<open>None\<close>.
\<close>

function insertRange_loop ::
  "nat \<Rightarrow> RTP_PACK_INFO_S \<Rightarrow> RTP_PACK_INFO_S list \<Rightarrow> (retcode \<times> RTP_PACK_INFO_S list) option" where
  "insertRange_loop i info q =
     (if i \<le> length q
      then if i = length q then None
           else if usSeq info \<le> usSeq (q ! i) then Some (RET_OK, take i q @ info # drop i q)
           else insertRange_loop (i + 1) info q
      else Some (RET_FAIL, q))"
  by pat_completeness auto
termination
  by (relation "measure (\<lambda>(i, info, q). Suc (length q) - i)") auto

declare insertRange_loop.simps [simp del]

definition insertRange ::
  "RTP_PACK_INFO_S \<Rightarrow> RTP_PACK_INFO_S list \<Rightarrow> (retcode \<times> RTP_PACK_INFO_S list) option" where
  "insertRange info q = insertRange_loop 0 info q"

definition org_insert ::
  "RTP_PACK_INFO_S \<Rightarrow> RTP_PACK_INFO_S list \<Rightarrow> (retcode \<times> RTP_PACK_INFO_S list) option" where
  "org_insert info q =
     (if q = [] then Some (RET_OK, q @ [info])
      else if usSeq (last q) \<le> usSeq info then Some (RET_OK, q @ [info])
      else if usSeq info < usSeq (hd q) then Some (RET_OK, info # q)
      else insertRange info q)"

text \<open>The loop of \<open>checkFrame\<close>: the sequence numbers count up, modulo \<open>2 ^ 16\<close>.\<close>

fun seq_run :: "u16 \<Rightarrow> RTP_PACK_INFO_S list \<Rightarrow> bool" where
  "seq_run n [] = True"
| "seq_run n (p # ps) = (if n \<noteq> usSeq p then False else seq_run (n + 1) ps)"

definition handleFinishedFrame :: "RTP_FRAME_INFO_S option \<Rightarrow> CRtpFrameOrganizer \<Rightarrow> org_event list" where
  "handleFinishedFrame pFrame s =
     (case pFrame of None \<Rightarrow> []
      | Some f \<Rightarrow>
          if PacketQueue f = [] then []
          else if \<not> m_pRtpFrameHandler s then []
          else [Deliver (map pRtpMsgBlock (PacketQueue f))])"

definition checkFrame :: "CRtpFrameOrganizer \<Rightarrow> CRtpFrameOrganizer \<times> org_event list" where
  "checkFrame s =
     (case GetSmallFrame s of None \<Rightarrow> (s, [])
      | Some f \<Rightarrow>
          if PacketQueue f = [] then (s, [])
          else if \<not> bMarker f then (s, [])
          else if \<not> seq_run (usSeq (hd (PacketQueue f))) (PacketQueue f) then (s, [])
          else
            let ev1 = handleFinishedFrame (Some f) s
            in case releaseRtpPacket (Some f) s of (s1, ev2) \<Rightarrow> (s1, ev1 @ ev2))"

text \<open>
  The part of \<open>insertRtpPacket\<close> behind the parser: find or make the frame, insert the packet, look
  whether the oldest frame is complete.  Without a free record the packet is dropped and the oldest
  frame with it.  \<^const>\<open>None\<close> is the read outside the queue in \<open>insertRange\<close>.
\<close>

definition place_packet ::
  "RTP_PACK_INFO_S \<Rightarrow> CRtpFrameOrganizer \<Rightarrow> (retcode \<times> CRtpFrameOrganizer \<times> org_event list) option" where
  "place_packet rtpInfo s =
     (let ts = pk_unTimestamp rtpInfo
      in case (case map_of (m_RtpFrameMap s) ts of None \<Rightarrow> InsertFrame ts s | Some f \<Rightarrow> (Some f, s)) of
           (None, s1) \<Rightarrow>
             (case releaseRtpPacket (GetSmallFrame s1) s1 of (s2, ev) \<Rightarrow>
                Some (RET_FAIL, s2, FreeBlock (pRtpMsgBlock rtpInfo) # ev))
         | (Some f, s1) \<Rightarrow>
             let f1 = (if \<not> bMarker f then f\<lparr>bMarker := pk_bMarker rtpInfo\<rparr> else f)
             in case org_insert rtpInfo (PacketQueue f1) of
                  None \<Rightarrow> None
                | Some (r, q) \<Rightarrow>
                    let s2 = s1\<lparr>m_RtpFrameMap :=
                          map_change ts (\<lambda>_. f1\<lparr>PacketQueue := q\<rparr>) (m_RtpFrameMap s1)\<rparr>
                    in if r \<noteq> RET_OK then Some (RET_FAIL, s2, [FreeBlock (pRtpMsgBlock rtpInfo)])
                       else case checkFrame s2 of (s3, ev) \<Rightarrow> Some (RET_OK, s3, ev))"

text \<open>
  \<open>insertRtpPacket\<close>; \<open>dup\<close> is the reference number of the duplicate of the block, if \<open>duplicate\<close>
  succeeds.
\<close>

definition pack_info :: "nat \<Rightarrow> CRtpPacket \<Rightarrow> RTP_PACK_INFO_S" where
  "pack_info ref p = \<lparr>usSeq = GetSeqNum p, pk_unTimestamp = GetTimeStamp p, pk_bMarker = GetMarker p,
     pRtpMsgBlock = (ref, rtp_bytes p)\<rparr>"

definition insertRtpPacket ::
  "bytes option \<Rightarrow> nat option \<Rightarrow> CRtpFrameOrganizer \<Rightarrow> (retcode \<times> CRtpFrameOrganizer \<times> org_event list) option" where
  "insertRtpPacket pRtpBlock dup s =
     (case pRtpBlock of None \<Rightarrow> Some (RET_FAIL, s, [])
      | Some b \<Rightarrow>
        (case ParsePacket (Some b) CRtpPacket_new of (ret, p) \<Rightarrow>
           if ret \<noteq> RET_OK then Some (RET_FAIL, s, [])
           else case dup of None \<Rightarrow> Some (RET_FAIL, s, [])
                | Some ref \<Rightarrow> place_packet (pack_info ref p) s))"

text \<open>\<open>release\<close>: all packets are freed and all records deleted.\<close>

definition organizer_release :: "CRtpFrameOrganizer \<Rightarrow> CRtpFrameOrganizer \<times> org_event list" where
  "organizer_release s =
     (s\<lparr>m_RtpFrameMap := [], m_RtpFrameFreeList := []\<rparr>,
      concat (map (\<lambda>(k, f). map (\<lambda>p. FreeBlock (pRtpMsgBlock p)) (PacketQueue f)) (m_RtpFrameMap s)))"

section \<open>The packet queue\<close>

abbreviation seq_sorted :: "RTP_PACK_INFO_S list \<Rightarrow> bool" where
  "seq_sorted q \<equiv> sorted (map usSeq q)"

lemma insertRange_loop_found:
  assumes "i \<le> j" "j < length q" "usSeq info \<le> usSeq (q ! j)"
  shows "\<exists>k. i \<le> k \<and> k \<le> j \<and> usSeq info \<le> usSeq (q ! k) \<and>
    (\<forall>l. i \<le> l \<and> l < k \<longrightarrow> usSeq (q ! l) < usSeq info) \<and>
    insertRange_loop i info q = Some (RET_OK, take k q @ info # drop k q)"
  using assms
proof (induction i info q rule: insertRange_loop.induct)
  case (1 i info q)
  show ?case
  proof (cases "usSeq info \<le> usSeq (q ! i)")
    case True
    with 1 show ?thesis by (intro exI [of _ i]) (auto simp: insertRange_loop.simps [of i info q])
  next
    case False
    with "1.prems" have ij: "i + 1 \<le> j" by (cases "i = j") auto
    then have i: "i \<le> length q" "i \<noteq> length q" using "1.prems" by auto
    from "1.IH" [OF i False ij] "1.prems" obtain k where k: "i + 1 \<le> k" "k \<le> j" "usSeq info \<le> usSeq (q ! k)"
      "\<forall>l. i + 1 \<le> l \<and> l < k \<longrightarrow> usSeq (q ! l) < usSeq info"
      "insertRange_loop (i + 1) info q = Some (RET_OK, take k q @ info # drop k q)"
      by auto
    have "usSeq (q ! l) < usSeq info" if "i \<le> l" "l < k" for l
      using that k(4) False by (cases "l = i") (auto simp: not_le)
    with k i False show ?thesis
      by (intro exI [of _ k]) (auto simp: insertRange_loop.simps [of i info q])
  qed
qed

lemma sorted_insert_at:
  assumes "seq_sorted q" "k \<le> length q" "\<And>l. l < k \<Longrightarrow> usSeq (q ! l) \<le> usSeq info"
    "k < length q \<Longrightarrow> usSeq info \<le> usSeq (q ! k)"
  shows "seq_sorted (take k q @ info # drop k q)"
proof -
  have s: "seq_sorted (take k q)" "seq_sorted (drop k q)"
    using assms(1) by (simp_all add: take_map [symmetric] drop_map [symmetric] sorted_wrt_take sorted_wrt_drop)
  have t: "usSeq x \<le> usSeq info" if "x \<in> set (take k q)" for x
    using that assms(2,3) by (auto simp: in_set_conv_nth)
  have d: "usSeq info \<le> usSeq y" if "y \<in> set (drop k q)" for y
  proof -
    from that obtain j where j: "j < length q - k" "y = q ! (k + j)" by (auto simp: in_set_conv_nth)
    then have "usSeq (q ! k) \<le> usSeq (q ! (k + j))"
      using assms(1) sorted_nth_mono [of "map usSeq q" k "k + j"] by simp
    moreover have "usSeq info \<le> usSeq (q ! k)" using j assms(4) by simp
    ultimately show ?thesis unfolding j(2) by (rule order_trans [rotated])
  qed
  show ?thesis
    using s t d by (auto simp: sorted_append intro: order_trans)
qed

lemma org_insert_sorted:
  assumes "seq_sorted q"
  shows "\<exists>q'. org_insert info q = Some (RET_OK, q') \<and> seq_sorted q' \<and> mset q' = add_mset info (mset q)"
proof -
  have le_last: "usSeq (q ! l) \<le> usSeq (last q)" if "l < length q" for l
  proof -
    have "q \<noteq> []" using that by auto
    with that show ?thesis
      using assms sorted_nth_mono [of "map usSeq q" l "length q - 1"] by (simp add: last_conv_nth)
  qed
  consider (c_nil) "q = []" | (c_back) "q \<noteq> []" "usSeq (last q) \<le> usSeq info"
    | (c_front) "q \<noteq> []" "\<not> usSeq (last q) \<le> usSeq info" "usSeq info < usSeq (hd q)"
    | (c_range) "q \<noteq> []" "\<not> usSeq (last q) \<le> usSeq info" "\<not> usSeq info < usSeq (hd q)"
    by blast
  then show ?thesis
  proof cases
    case c_back
    have "seq_sorted (take (length q) q @ info # drop (length q) q)"
      using assms c_back le_last by (intro sorted_insert_at) (auto intro: order_trans)
    with c_back show ?thesis by (simp add: org_insert_def)
  next
    case c_front
    have "seq_sorted (take 0 q @ info # drop 0 q)"
      using assms c_front by (intro sorted_insert_at) (auto simp: hd_conv_nth)
    with c_front show ?thesis by (simp add: org_insert_def)
  next
    case c_range
    have j: "length q - 1 < length q" "usSeq info \<le> usSeq (q ! (length q - 1))"
      using c_range by (auto simp: last_conv_nth)
    from insertRange_loop_found [OF _ j, of 0] obtain k where k: "k \<le> length q - 1"
      "usSeq info \<le> usSeq (q ! k)" "\<forall>l < k. usSeq (q ! l) < usSeq info"
      "insertRange_loop 0 info q = Some (RET_OK, take k q @ info # drop k q)"
      by auto
    have "seq_sorted (take k q @ info # drop k q)"
      using assms k j by (intro sorted_insert_at) (auto intro: less_imp_le)
    moreover have "mset (take k q @ info # drop k q) = add_mset info (mset q)"
      using union_code [of "take k q" "drop k q"] by simp
    ultimately show ?thesis using c_range k(4) by (simp add: org_insert_def insertRange_def)
  qed (simp add: org_insert_def)
qed

section \<open>The organizer's invariant\<close>

text \<open>A packet record repeats what its block says.\<close>

definition block_seq :: "block \<Rightarrow> u16" where "block_seq b = ntohs (ld16 (snd b) 2)"
definition block_ts :: "block \<Rightarrow> u32" where "block_ts b = ntohl (ld32 (snd b) 4)"
definition block_marker :: "block \<Rightarrow> bool" where "block_marker b \<longleftrightarrow> hdr_marker (snd b) \<noteq> 0"

definition pack_ok :: "RTP_PACK_INFO_S \<Rightarrow> bool" where
  "pack_ok p \<longleftrightarrow> usSeq p = block_seq (pRtpMsgBlock p) \<and> pk_unTimestamp p = block_ts (pRtpMsgBlock p) \<and>
     pk_bMarker p = block_marker (pRtpMsgBlock p)"

definition frame_ok :: "u32 \<Rightarrow> RTP_FRAME_INFO_S \<Rightarrow> bool" where
  "frame_ok k f \<longleftrightarrow> unTimestamp f = k \<and> PacketQueue f \<noteq> [] \<and> seq_sorted (PacketQueue f) \<and>
     (\<forall>p \<in> set (PacketQueue f). pk_unTimestamp p = k \<and> pack_ok p) \<and>
     (bMarker f \<longleftrightarrow> (\<exists>p \<in> set (PacketQueue f). pk_bMarker p))"

definition org_inv :: "CRtpFrameOrganizer \<Rightarrow> bool" where
  "org_inv s \<longleftrightarrow> m_pRtpFrameHandler s \<and> sorted_wrt (<) (map fst (m_RtpFrameMap s)) \<and>
     (\<forall>(k, f) \<in> set (m_RtpFrameMap s). frame_ok k f) \<and>
     (\<forall>f \<in> set (m_RtpFrameFreeList s). PacketQueue f = []) \<and>
     length (m_RtpFrameMap s) + length (m_RtpFrameFreeList s) = m_unMaxCacheFrameNum s"

text \<open>The blocks an organizer holds and the blocks a list of events frees.\<close>

definition frame_blocks :: "RTP_FRAME_INFO_S \<Rightarrow> block list" where
  "frame_blocks f = map pRtpMsgBlock (PacketQueue f)"

definition held :: "CRtpFrameOrganizer \<Rightarrow> block list" where
  "held s = concat (map (\<lambda>(k, f). frame_blocks f) (m_RtpFrameMap s))"

fun freed :: "org_event list \<Rightarrow> block list" where
  "freed [] = []"
| "freed (FreeBlock b # ev) = b # freed ev"
| "freed (Deliver bs # ev) = freed ev"

lemma freed_append [simp]: "freed (xs @ ys) = freed xs @ freed ys"
  by (induction xs rule: freed.induct) simp_all

lemma freed_map [simp]: "freed (map (\<lambda>p. FreeBlock (pRtpMsgBlock p)) q) = map pRtpMsgBlock q"
  by (induction q) simp_all

lemma alloc_frames_ok:
  assumes "alloc_frames alloc i n s = (RET_OK, s')"
  shows "s' = s\<lparr>m_RtpFrameFreeList := m_RtpFrameFreeList s @ replicate n empty_frame\<rparr>"
  using assms
  by (induction alloc i n s rule: alloc_frames.induct) (auto split: if_splits)

lemma org_inv_init:
  assumes "organizer_init h n alloc CRtpFrameOrganizer_new = (RET_OK, s)"
  shows "org_inv s \<and> m_unMaxCacheFrameNum s = n \<and> 0 < n \<and> held s = []"
  using assms
  by (auto simp: organizer_init_def CRtpFrameOrganizer_new_def org_inv_def held_def empty_frame_def
      dest!: alloc_frames_ok split: if_splits)

subsection \<open>The map\<close>

lemma map_put_new:
  assumes "sorted_wrt (<) (map fst m)" "k \<notin> fst ` set m"
  shows "sorted_wrt (<) (map fst (map_put k f m))" "set (map_put k f m) = insert (k, f) (set m)"
    "length (map_put k f m) = Suc (length m)"
    "\<exists>m1 m2. m = m1 @ m2 \<and> map_put k f m = m1 @ (k, f) # m2"
proof -
  show set: "set (map_put k f m) = insert (k, f) (set m)"
    using assms(2) by (induction m) (auto split: if_splits)
  show "length (map_put k f m) = Suc (length m)"
    using assms(2) by (induction m) auto
  show "\<exists>m1 m2. m = m1 @ m2 \<and> map_put k f m = m1 @ (k, f) # m2"
    using assms(2)
  proof (induction m)
    case (Cons a m)
    obtain k' f' where a: "a = (k', f')" by (rule prod.exhaust)
    show ?case
    proof (cases "k < k'")
      case True
      then show ?thesis using a by (intro exI [of _ "[]"] exI [of _ "a # m"]) simp
    next
      case False
      from Cons obtain m1 m2 where "m = m1 @ m2" "map_put k f m = m1 @ (k, f) # m2" by auto
      with False Cons.prems show ?thesis
        by (intro exI [of _ "a # m1"] exI [of _ m2]) (auto simp: a)
    qed
  qed simp
  show "sorted_wrt (<) (map fst (map_put k f m))"
    using assms
  proof (induction m)
    case (Cons a m)
    obtain k' f' where a: "a = (k', f')" by (rule prod.exhaust)
    have k': "\<forall>x \<in> fst ` set m. k' < x" "sorted_wrt (<) (map fst m)" using Cons.prems(1) a by auto
    have s: "set (map_put k f m) = insert (k, f) (set m)"
      using Cons.prems(2) by (induction m) (auto split: if_splits)
    show ?case using Cons a k' s by (auto intro: less_trans)
  qed simp
qed

lemma map_change_props [simp]:
  "map fst (map_change k g m) = map fst m" "length (map_change k g m) = length m"
  by (auto simp: map_change_def)

lemma map_change_split:
  assumes "sorted_wrt (<) (map fst (m1 @ (k, f) # m2))"
  shows "map_change k g (m1 @ (k, f) # m2) = m1 @ (k, g f) # m2"
proof -
  have n: "a \<noteq> k" if "(a, b) \<in> set m1 \<union> set m2" for a b
    using assms that by (fastforce simp: sorted_wrt_append)
  have "map_change k g m1 = m1" "map_change k g m2 = m2"
    unfolding map_change_def by (rule map_idI; use n in fastforce)+
  then show ?thesis by (simp add: map_change_def)
qed

lemma small_frame_first:
  assumes "sorted_wrt (<) (map fst ((k, f) # m))" "\<forall>(k, f) \<in> set ((k, f) # m). unTimestamp f = k"
  shows "small_frame None ((k, f) # m) = Some f"
proof -
  have "small_frame (Some f) m = Some f"
    if "\<forall>(k', f') \<in> set m. k < k' \<and> unTimestamp f' = k'" "unTimestamp f = k" for m
    using that by (induction m) (auto simp: not_less)
  moreover have "\<forall>(k', f') \<in> set m. k < k' \<and> unTimestamp f' = k'" "unTimestamp f = k"
    using assms by fastforce+
  ultimately show ?thesis by simp
qed

lemma GetSmallFrame_inv:
  assumes "org_inv s"
  shows "GetSmallFrame s = (case m_RtpFrameMap s of [] \<Rightarrow> None | (k, f) # m \<Rightarrow> Some f)"
proof (cases "m_RtpFrameMap s")
  case (Cons a m)
  obtain k f where a: "a = (k, f)" by (rule prod.exhaust)
  have "small_frame None ((k, f) # m) = Some f"
    using assms Cons a by (intro small_frame_first) (auto simp: org_inv_def frame_ok_def)
  then show ?thesis using Cons a by (simp add: GetSmallFrame_def)
qed (simp add: GetSmallFrame_def)

lemma release_first:
  assumes "org_inv s" "m_RtpFrameMap s = (k, f) # m"
  shows "releaseRtpPacket (Some f) s = (s\<lparr>m_RtpFrameMap := m,
      m_RtpFrameFreeList := m_RtpFrameFreeList s @ [f\<lparr>PacketQueue := []\<rparr>]\<rparr>,
      map (\<lambda>p. FreeBlock (pRtpMsgBlock p)) (PacketQueue f))"
proof -
  have "unTimestamp f = k" "\<forall>x \<in> set m. fst x \<noteq> k"
    using assms by (auto simp: org_inv_def frame_ok_def)
  then have "map_erase k ((k, f) # m) = m"
    by (auto simp: map_erase_def intro!: filter_True)
  with \<open>unTimestamp f = k\<close> assms(2) show ?thesis by (simp add: releaseRtpPacket_def)
qed

lemma org_inv_drop_first:
  assumes "org_inv s" "m_RtpFrameMap s = (k, f) # m"
  defines "s' \<equiv> s\<lparr>m_RtpFrameMap := m, m_RtpFrameFreeList := m_RtpFrameFreeList s @ [f\<lparr>PacketQueue := []\<rparr>]\<rparr>"
  shows "org_inv s'" "mset (held s) = mset (held s') + mset (frame_blocks f)"
  using assms by (auto simp: org_inv_def held_def)

subsection \<open>Operations keep the invariant\<close>

lemma checkFrame_eq:
  assumes "org_inv s"
  shows "checkFrame s = (case m_RtpFrameMap s of [] \<Rightarrow> (s, [])
    | (k, f) # m \<Rightarrow>
        if bMarker f \<and> seq_run (usSeq (hd (PacketQueue f))) (PacketQueue f)
        then (s\<lparr>m_RtpFrameMap := m, m_RtpFrameFreeList := m_RtpFrameFreeList s @ [f\<lparr>PacketQueue := []\<rparr>]\<rparr>,
              Deliver (frame_blocks f) # map (\<lambda>p. FreeBlock (pRtpMsgBlock p)) (PacketQueue f))
        else (s, []))"
proof (cases "m_RtpFrameMap s")
  case Nil
  then show ?thesis using assms by (simp add: checkFrame_def GetSmallFrame_inv)
next
  case (Cons a m)
  obtain k f where a: "a = (k, f)" by (rule prod.exhaust)
  have q: "PacketQueue f \<noteq> []" and h: "m_pRtpFrameHandler s"
    using assms Cons a by (auto simp: org_inv_def frame_ok_def)
  then show ?thesis
    using Cons a release_first [OF assms, of k f m]
    by (simp add: checkFrame_def GetSmallFrame_inv [OF assms] handleFinishedFrame_def frame_blocks_def)
qed

lemma checkFrame_inv:
  assumes "org_inv s" "checkFrame s = (s', ev)"
  shows "org_inv s'" "mset (held s') + mset (freed ev) = mset (held s)"
    "m_unMaxCacheFrameNum s' = m_unMaxCacheFrameNum s"
proof -
  have "org_inv s' \<and> mset (held s') + mset (freed ev) = mset (held s) \<and>
    m_unMaxCacheFrameNum s' = m_unMaxCacheFrameNum s"
  proof (cases "m_RtpFrameMap s")
    case Nil
    then show ?thesis using assms by (simp add: checkFrame_eq)
  next
    case (Cons a m)
    obtain k f where a: "a = (k, f)" by (rule prod.exhaust)
    with org_inv_drop_first [OF assms(1), of k f m] Cons assms show ?thesis
      by (auto simp: checkFrame_eq frame_blocks_def split: if_splits)
  qed
  then show "org_inv s'" "mset (held s') + mset (freed ev) = mset (held s)"
    "m_unMaxCacheFrameNum s' = m_unMaxCacheFrameNum s" by simp_all
qed

lemma map_of_split:
  assumes "map_of m k = Some f"
  shows "\<exists>m1 m2. m = m1 @ (k, f) # m2"
  using map_of_SomeD [OF assms] by (rule split_list)

text \<open>The frame a packet goes to, with the packet in it.\<close>

definition with_packet :: "RTP_PACK_INFO_S \<Rightarrow> RTP_FRAME_INFO_S \<Rightarrow> RTP_PACK_INFO_S list \<Rightarrow> RTP_FRAME_INFO_S" where
  "with_packet info f q =
     (if \<not> bMarker f then f\<lparr>bMarker := pk_bMarker info\<rparr> else f)\<lparr>PacketQueue := q\<rparr>"

lemma frame_ok_with_packet:
  assumes "unTimestamp f = pk_unTimestamp info" "pack_ok info"
    "\<forall>p \<in> set (PacketQueue f). pk_unTimestamp p = pk_unTimestamp info \<and> pack_ok p"
    "bMarker f \<longleftrightarrow> (\<exists>p \<in> set (PacketQueue f). pk_bMarker p)"
    "seq_sorted q" "mset q = add_mset info (mset (PacketQueue f))"
  shows "frame_ok (pk_unTimestamp info) (with_packet info f q)"
proof -
  have s: "set q = insert info (set (PacketQueue f))" using assms(6) by (metis set_mset_add_mset_insert set_mset_mset)
  then have "q \<noteq> []" by auto
  with s assms show ?thesis by (auto simp: frame_ok_def with_packet_def)
qed

lemma place_packet_found:
  assumes "org_inv s" "pack_ok info" "map_of (m_RtpFrameMap s) (pk_unTimestamp info) = Some f"
    "m_RtpFrameMap s = m1 @ (pk_unTimestamp info, f) # m2"
  obtains q where "seq_sorted q" "mset q = add_mset info (mset (PacketQueue f))"
    "place_packet info s = (case checkFrame (s\<lparr>m_RtpFrameMap := m1 @ (pk_unTimestamp info, with_packet info f q) # m2\<rparr>)
       of (s3, ev) \<Rightarrow> Some (RET_OK, s3, ev))"
    "org_inv (s\<lparr>m_RtpFrameMap := m1 @ (pk_unTimestamp info, with_packet info f q) # m2\<rparr>)"
proof -
  let ?ts = "pk_unTimestamp info"
  have fr: "frame_ok ?ts f" using assms(1,4) by (auto simp: org_inv_def)
  then have "seq_sorted (PacketQueue (if \<not> bMarker f then f\<lparr>bMarker := pk_bMarker info\<rparr> else f))"
    by (simp add: frame_ok_def)
  from org_insert_sorted [OF this, of info] obtain q where q: "seq_sorted q"
    "mset q = add_mset info (mset (PacketQueue f))"
    "org_insert info (PacketQueue (if \<not> bMarker f then f\<lparr>bMarker := pk_bMarker info\<rparr> else f)) = Some (RET_OK, q)"
    by (auto split: if_splits)
  have sorted: "sorted_wrt (<) (map fst (m1 @ (?ts, f) # m2))" using assms(1,4) by (simp add: org_inv_def)
  have "place_packet info s = (case checkFrame (s\<lparr>m_RtpFrameMap := m1 @ (?ts, with_packet info f q) # m2\<rparr>)
       of (s3, ev) \<Rightarrow> Some (RET_OK, s3, ev))"
    using assms(3) q(3) map_change_split [OF sorted] assms(4)
    by (simp add: place_packet_def Let_def with_packet_def)
  moreover have "frame_ok ?ts (with_packet info f q)"
    using fr assms(2) q by (intro frame_ok_with_packet) (auto simp: frame_ok_def)
  then have "org_inv (s\<lparr>m_RtpFrameMap := m1 @ (?ts, with_packet info f q) # m2\<rparr>)"
    using assms(1,4) by (auto simp: org_inv_def)
  ultimately show ?thesis using q that by blast
qed

text \<open>A new frame: a record from the free list with the packet alone.\<close>

definition one_packet :: "RTP_PACK_INFO_S \<Rightarrow> RTP_FRAME_INFO_S \<Rightarrow> RTP_FRAME_INFO_S" where
  "one_packet info f0 = f0\<lparr>bMarker := pk_bMarker info, unTimestamp := pk_unTimestamp info, PacketQueue := [info]\<rparr>"

lemma place_packet_new:
  assumes "org_inv s" "pack_ok info" "map_of (m_RtpFrameMap s) (pk_unTimestamp info) = None"
    "m_RtpFrameFreeList s = f0 # fs"
  obtains m1 m2 where "m_RtpFrameMap s = m1 @ m2"
    "place_packet info s = (case checkFrame (s\<lparr>m_RtpFrameFreeList := fs,
         m_RtpFrameMap := m1 @ (pk_unTimestamp info, one_packet info f0) # m2\<rparr>)
       of (s3, ev) \<Rightarrow> Some (RET_OK, s3, ev))"
    "org_inv (s\<lparr>m_RtpFrameFreeList := fs,
       m_RtpFrameMap := m1 @ (pk_unTimestamp info, one_packet info f0) # m2\<rparr>)"
proof -
  let ?ts = "pk_unTimestamp info"
  let ?f1 = "f0\<lparr>bMarker := False, unTimestamp := ?ts\<rparr>"
  have sorted: "sorted_wrt (<) (map fst (m_RtpFrameMap s))" and free: "PacketQueue f0 = []"
    using assms(1,4) by (auto simp: org_inv_def)
  have new: "?ts \<notin> fst ` set (m_RtpFrameMap s)" using assms(3) by (simp add: map_of_eq_None_iff)
  note put = map_put_new [OF sorted new, of ?f1]
  obtain m1 m2 where m: "m_RtpFrameMap s = m1 @ m2" "map_put ?ts ?f1 (m_RtpFrameMap s) = m1 @ (?ts, ?f1) # m2"
    using put(4) by blast
  have "map_change ?ts (\<lambda>_. one_packet info f0) (m1 @ (?ts, ?f1) # m2) = m1 @ (?ts, one_packet info f0) # m2"
    using put(1) m(2) by (intro map_change_split) simp
  moreover have "?f1\<lparr>bMarker := pk_bMarker info, PacketQueue := [info]\<rparr> = one_packet info f0"
    by (simp add: one_packet_def)
  ultimately have "place_packet info s = (case checkFrame (s\<lparr>m_RtpFrameFreeList := fs,
         m_RtpFrameMap := m1 @ (?ts, one_packet info f0) # m2\<rparr>) of (s3, ev) \<Rightarrow> Some (RET_OK, s3, ev))"
    using assms(3,4) free m(2)
    by (simp add: place_packet_def InsertFrame_def Let_def org_insert_def)
  moreover have "org_inv (s\<lparr>m_RtpFrameFreeList := fs, m_RtpFrameMap := m1 @ (?ts, one_packet info f0) # m2\<rparr>)"
  proof -
    have "sorted_wrt (<) (map fst (m1 @ (?ts, one_packet info f0) # m2))"
      using put(1) m(2) by simp
    moreover have "frame_ok ?ts (one_packet info f0)"
      using assms(2) by (auto simp: frame_ok_def one_packet_def)
    ultimately show ?thesis
      using assms(1,4) m(1) by (auto simp: org_inv_def)
  qed
  ultimately show ?thesis using m(1) that by blast
qed

lemma held_split:
  "held (s\<lparr>m_RtpFrameMap := m1 @ (k, f) # m2\<rparr>) =
     held (s\<lparr>m_RtpFrameMap := m1\<rparr>) @ frame_blocks f @ held (s\<lparr>m_RtpFrameMap := m2\<rparr>)"
  by (simp add: held_def)

lemma place_packet_inv:
  assumes "org_inv s" "pack_ok info"
  shows "\<exists>r s' ev. place_packet info s = Some (r, s', ev) \<and> org_inv s' \<and>
    m_unMaxCacheFrameNum s' = m_unMaxCacheFrameNum s \<and>
    mset (held s') + mset (freed ev) = add_mset (pRtpMsgBlock info) (mset (held s))"
proof -
  consider (found) f m1 m2 where "map_of (m_RtpFrameMap s) (pk_unTimestamp info) = Some f"
      "m_RtpFrameMap s = m1 @ (pk_unTimestamp info, f) # m2"
    | (new) f0 fs where "map_of (m_RtpFrameMap s) (pk_unTimestamp info) = None" "m_RtpFrameFreeList s = f0 # fs"
    | (full) "map_of (m_RtpFrameMap s) (pk_unTimestamp info) = None" "m_RtpFrameFreeList s = []"
    using map_of_split by (cases "map_of (m_RtpFrameMap s) (pk_unTimestamp info)"; cases "m_RtpFrameFreeList s") fastforce+
  then show ?thesis
  proof cases
    case found
    obtain q where q: "mset q = add_mset info (mset (PacketQueue f))"
      "place_packet info s = (case checkFrame (s\<lparr>m_RtpFrameMap := m1 @ (pk_unTimestamp info, with_packet info f q) # m2\<rparr>)
         of (s3, ev) \<Rightarrow> Some (RET_OK, s3, ev))"
      and i: "org_inv (s\<lparr>m_RtpFrameMap := m1 @ (pk_unTimestamp info, with_packet info f q) # m2\<rparr>)" (is "org_inv ?s2")
      using place_packet_found [OF assms found] by blast
    have "mset (frame_blocks (with_packet info f q)) = add_mset (pRtpMsgBlock info) (mset (frame_blocks f))"
      using q(1) by (simp add: frame_blocks_def with_packet_def)
    then have "mset (held ?s2) = add_mset (pRtpMsgBlock info) (mset (held s))"
      using found(2) by (simp add: held_def)
    moreover obtain s3 ev where c: "checkFrame ?s2 = (s3, ev)" by (rule prod.exhaust)
    ultimately show ?thesis using q(2) checkFrame_inv [OF i c] by auto
  next
    case new
    obtain m1 m2 where m: "m_RtpFrameMap s = m1 @ m2"
      "place_packet info s = (case checkFrame (s\<lparr>m_RtpFrameFreeList := fs,
         m_RtpFrameMap := m1 @ (pk_unTimestamp info, one_packet info f0) # m2\<rparr>) of (s3, ev) \<Rightarrow> Some (RET_OK, s3, ev))"
      and i: "org_inv (s\<lparr>m_RtpFrameFreeList := fs,
        m_RtpFrameMap := m1 @ (pk_unTimestamp info, one_packet info f0) # m2\<rparr>)" (is "org_inv ?s2")
      using place_packet_new [OF assms new] by blast
    have "mset (held ?s2) = add_mset (pRtpMsgBlock info) (mset (held s))"
      using m(1) by (simp add: held_def frame_blocks_def one_packet_def)
    moreover obtain s3 ev where c: "checkFrame ?s2 = (s3, ev)" by (rule prod.exhaust)
    ultimately show ?thesis using m(2) checkFrame_inv [OF i c] by auto
  next
    case full
    show ?thesis
    proof (cases "m_RtpFrameMap s")
      case Nil
      with full assms(1) show ?thesis
        by (auto simp: place_packet_def InsertFrame_def Let_def GetSmallFrame_inv releaseRtpPacket_def)
    next
      case (Cons a m)
      obtain k f where a: "a = (k, f)" by (rule prod.exhaust)
      with full Cons release_first [OF assms(1), of k f m] org_inv_drop_first [OF assms(1), of k f m]
      show ?thesis
        by (simp add: place_packet_def InsertFrame_def Let_def GetSmallFrame_inv [OF assms(1)] frame_blocks_def)
    qed
  qed
qed

lemma pack_ok_parsed:
  assumes "ParsePacket (Some b) q = (RET_OK, p)"
  shows "pack_ok (pack_info ref p)"
proof -
  from ParsePacket_OK_head_ok [OF assms] have "m_pFixedHead p" by (simp add: parsed_def)
  then show ?thesis
    by (simp add: pack_ok_def pack_info_def block_seq_def block_ts_def block_marker_def GetSeqNum_def
        GetTimeStamp_def GetMarker_def)
qed

text \<open>
  C11.  Whatever arrives, \<open>insertRtpPacket\<close> returns (it never reads behind the queue), keeps the
  organizer's invariant (frames keyed by time stamp, packets of a frame in order, every record either in
  the map or free) and loses no block: a duplicate made of the packet is afterwards either held in a
  frame or freed, and no block is freed twice.
\<close>

theorem insertRtpPacket_inv:
  assumes "org_inv s"
  shows "\<exists>r s' ev. insertRtpPacket b dup s = Some (r, s', ev) \<and> org_inv s' \<and>
    m_unMaxCacheFrameNum s' = m_unMaxCacheFrameNum s \<and>
    mset (held s') + mset (freed ev) = mset (held s) +
      (case (b, dup) of (Some bs, Some ref) \<Rightarrow>
         (case ParsePacket (Some bs) CRtpPacket_new of (ret, p) \<Rightarrow>
            if ret = RET_OK then {#(ref, rtp_bytes p)#} else {#})
       | _ \<Rightarrow> {#})"
proof (cases b)
  case (Some bs)
  obtain ret p where p: "ParsePacket (Some bs) CRtpPacket_new = (ret, p)" by (rule prod.exhaust)
  show ?thesis
  proof (cases "ret = RET_OK \<and> dup \<noteq> None")
    case True
    then obtain ref where ref: "dup = Some ref" by auto
    from place_packet_inv [OF assms pack_ok_parsed [of bs _ p ref]] p True
    show ?thesis by (simp add: insertRtpPacket_def Some ref pack_info_def)
  next
    case False
    with p assms show ?thesis by (auto simp: insertRtpPacket_def Some split: option.splits)
  qed
qed (use assms in \<open>simp add: insertRtpPacket_def\<close>)

definition example_org :: CRtpFrameOrganizer where
  "example_org = snd (organizer_init True 3 (\<lambda>_. True) CRtpFrameOrganizer_new)"

lemma example_org: "org_inv example_org" "m_RtpFrameMap example_org = []" "m_unMaxCacheFrameNum example_org = 3"
proof -
  have r: "organizer_init True 3 (\<lambda>_. True) CRtpFrameOrganizer_new = (RET_OK, example_org)"
    by (simp add: example_org_def organizer_init_def numeral_eq_Suc)
  from org_inv_init [OF r] show "org_inv example_org" "m_unMaxCacheFrameNum example_org = 3" by simp_all
  show "m_RtpFrameMap example_org = []"
    by (simp add: example_org_def organizer_init_def CRtpFrameOrganizer_new_def numeral_eq_Suc)
qed

theorem insertRtpPacket_inv_witness:
  "org_inv example_org \<and> (\<exists>r s' ev. insertRtpPacket (Some [0x80]) (Some 1) example_org = Some (r, s', ev) \<and>
     org_inv s' \<and> m_unMaxCacheFrameNum s' = 3)"
  using insertRtpPacket_inv [OF example_org(1), of "Some [0x80]" "Some 1"] example_org by auto

section \<open>What is delivered\<close>

lemma seq_run_nth: "seq_run n q \<Longrightarrow> i < length q \<Longrightarrow> usSeq (q ! i) = n + of_nat i"
proof (induction n q arbitrary: i rule: seq_run.induct)
  case (2 n p ps)
  then show ?case by (cases i) (auto simp: add.assoc split: if_splits)
qed simp

lemma checkFrame_deliver:
  assumes "org_inv s" "checkFrame s = (s', ev)" "Deliver bs \<in> set ev"
  shows "bs \<noteq> [] \<and> (\<forall>i < length bs. block_seq (bs ! i) = block_seq (hd bs) + of_nat i \<and>
      block_ts (bs ! i) = block_ts (hd bs)) \<and> (\<exists>b \<in> set bs. block_marker b) \<and> sorted (map block_seq bs) \<and>
    (\<forall>k \<in> fst ` set (m_RtpFrameMap s'). block_ts (hd bs) < k)"
proof -
  obtain k f m where m: "m_RtpFrameMap s = (k, f) # m"
    using assms by (auto simp: checkFrame_eq split: list.splits)
  have r: "bMarker f" "seq_run (usSeq (hd (PacketQueue f))) (PacketQueue f)" "bs = frame_blocks f"
    using assms(2,3) m by (auto simp: checkFrame_eq [OF assms(1)] split: if_splits)
  have f: "frame_ok k f" using assms(1) m by (simp add: org_inv_def)
  let ?q = "PacketQueue f"
  have ok: "usSeq p = block_seq (pRtpMsgBlock p)" "k = block_ts (pRtpMsgBlock p)"
    "pk_bMarker p = block_marker (pRtpMsgBlock p)" if "p \<in> set ?q" for p
    using f that by (auto simp: frame_ok_def pack_ok_def)
  have q: "?q \<noteq> []" using f by (simp add: frame_ok_def)
  have "block_seq (bs ! i) = block_seq (hd bs) + of_nat i \<and> block_ts (bs ! i) = block_ts (hd bs)"
    if "i < length bs" for i
  proof -
    have i: "i < length ?q" using that r(3) by (simp add: frame_blocks_def)
    have "usSeq (?q ! i) = usSeq (hd ?q) + of_nat i" using seq_run_nth [OF r(2) i] .
    then show ?thesis
      using ok [of "?q ! i"] ok [of "hd ?q"] i q r(3) by (simp add: frame_blocks_def hd_map)
  qed
  moreover have "\<exists>b \<in> set bs. block_marker b"
    using r(1,3) f ok by (auto simp: frame_ok_def frame_blocks_def)
  moreover have "map block_seq bs = map usSeq ?q"
    using r(3) ok(1) by (simp add: frame_blocks_def)
  then have "sorted (map block_seq bs)" using f by (simp add: frame_ok_def)
  moreover have "m_RtpFrameMap s' = m"
    using assms(2,3) m by (auto simp: checkFrame_eq [OF assms(1)] split: if_splits)
  then have "\<forall>k' \<in> fst ` set (m_RtpFrameMap s'). k < k'"
    using assms(1) m by (auto simp: org_inv_def)
  moreover have "block_ts (hd bs) = k" using ok(2) [of "hd ?q"] q r(3) by (simp add: frame_blocks_def hd_map)
  ultimately show ?thesis using q r(3) by (simp add: frame_blocks_def)
qed

lemma place_packet_deliver:
  assumes "org_inv s" "pack_ok info" "place_packet info s = Some (r, s', ev)" "Deliver bs \<in> set ev"
  shows "\<exists>s2. org_inv s2 \<and> checkFrame s2 = (s', ev)"
proof -
  consider (found) f m1 m2 where "map_of (m_RtpFrameMap s) (pk_unTimestamp info) = Some f"
      "m_RtpFrameMap s = m1 @ (pk_unTimestamp info, f) # m2"
    | (new) f0 fs where "map_of (m_RtpFrameMap s) (pk_unTimestamp info) = None" "m_RtpFrameFreeList s = f0 # fs"
    | (full) "map_of (m_RtpFrameMap s) (pk_unTimestamp info) = None" "m_RtpFrameFreeList s = []"
    using map_of_split by (cases "map_of (m_RtpFrameMap s) (pk_unTimestamp info)"; cases "m_RtpFrameFreeList s") fastforce+
  then show ?thesis
  proof cases
    case found
    show ?thesis
      by (rule place_packet_found [OF assms(1,2) found]) (use assms(3) in \<open>auto split: prod.splits\<close>)
  next
    case new
    show ?thesis
      by (rule place_packet_new [OF assms(1,2) new]) (use assms(3) in \<open>auto split: prod.splits\<close>)
  next
    case full
    then show ?thesis
      using assms(3,4)
      by (auto simp: place_packet_def InsertFrame_def Let_def releaseRtpPacket_def split: option.splits prod.splits)
  qed
qed

lemma sorted_run_no_wrap:
  assumes "sorted ns" "\<forall>i < length ns. ns ! i = (ns ! 0 :: 'a::len word) + of_nat i" "i < length ns"
  shows "unat (ns ! i) = unat (ns ! 0) + i"
  using assms(3)
proof (induction i)
  case (Suc i)
  have "ns ! Suc i = ns ! i + 1" using assms(2) Suc.prems by (simp add: add.assoc add.commute [of 1])
  moreover have "ns ! i \<le> ns ! Suc i" using assms(1) Suc.prems by (intro sorted_nth_mono) auto
  ultimately have "unat (ns ! Suc i) = unat (ns ! i) + 1"
    by (metis unat_plus_simple unat_1)
  with Suc show ?case by simp
qed simp

lemma insertRtpPacket_deliver:
  assumes "org_inv s" "insertRtpPacket b dup s = Some (r, s', ev)" "Deliver bs \<in> set ev"
  shows "bs \<noteq> [] \<and> (\<forall>i < length bs. unat (block_seq (bs ! i)) = unat (block_seq (hd bs)) + i \<and>
      block_ts (bs ! i) = block_ts (hd bs)) \<and> (\<exists>b \<in> set bs. block_marker b) \<and>
    (\<forall>k \<in> fst ` set (m_RtpFrameMap s'). block_ts (hd bs) < k)"
proof -
  obtain bytes p ref where p: "ParsePacket (Some bytes) CRtpPacket_new = (RET_OK, p)"
    "place_packet (pack_info ref p) s = Some (r, s', ev)"
    using assms(2,3) by (auto simp: insertRtpPacket_def split: option.splits if_splits prod.splits)
  from place_packet_deliver [OF assms(1) pack_ok_parsed [OF p(1)] p(2) assms(3)] obtain s2 where
    "org_inv s2" "checkFrame s2 = (s', ev)" by blast
  note c = checkFrame_deliver [OF this assms(3)]
  have ne: "bs \<noteq> []" and srt: "sorted (map block_seq bs)"
    using c by blast+
  have run: "block_seq (bs ! i) = block_seq (hd bs) + of_nat i" if "i < length bs" for i
    using c that by blast
  have h: "map block_seq bs ! 0 = block_seq (hd bs)" using ne by (simp add: hd_conv_nth)
  have "unat (block_seq (bs ! i)) = unat (block_seq (hd bs)) + i" if i: "i < length bs" for i
  proof -
    have "\<forall>j < length (map block_seq bs). map block_seq bs ! j = map block_seq bs ! 0 + of_nat j"
      unfolding h using run by simp
    from sorted_run_no_wrap [OF srt this, of i] i show ?thesis unfolding h by simp
  qed
  with c show ?thesis by blast
qed

text \<open>
  C12.  A frame handed to the callback is never empty, all its packets carry the same time stamp, their
  sequence numbers count up by one from packet to packet without wrapping, at least one of them (not
  necessarily the last one) has the marker, and it is the oldest frame: whatever stays in the organizer
  has a later time stamp.
\<close>

theorem delivered_frame_complete:
  assumes "org_inv s" "insertRtpPacket b dup s = Some (r, s', ev)" "Deliver bs \<in> set ev"
  shows "bs \<noteq> [] \<and> (\<forall>i < length bs. unat (block_seq (bs ! i)) = unat (block_seq (hd bs)) + i \<and>
      block_ts (bs ! i) = block_ts (hd bs)) \<and> (\<exists>b \<in> set bs. block_marker b) \<and>
    (\<forall>k \<in> fst ` set (m_RtpFrameMap s'). block_ts (hd bs) < k)"
  using assms by (rule insertRtpPacket_deliver)

text \<open>
  Sequence numbers are compared as plain numbers, so a frame whose sequence numbers wrap from 65535
  to 0 is never handed over.
\<close>

lemma delivered_frame_no_wrap:
  assumes "org_inv s" "insertRtpPacket b dup s = Some (r, s', ev)" "Deliver bs \<in> set ev"
    "block_seq (bs ! i) = 0xFFFF" "i < length bs"
  shows "i = length bs - 1"
proof (rule ccontr)
  assume "i \<noteq> length bs - 1"
  then have i: "Suc i < length bs" using assms(5) by simp
  have e: "unat (block_seq (bs ! k)) = unat (block_seq (hd bs)) + k" if "k < length bs" for k
    using insertRtpPacket_deliver [OF assms(1-3)] that by blast
  have "unat (block_seq (bs ! Suc i)) = unat (block_seq (bs ! i)) + 1"
    using e [OF i] e [OF assms(5)] by simp
  moreover have "unat (block_seq (bs ! Suc i)) < 2 ^ 16"
    by (rule order_less_le_trans [OF unsigned_less]) simp
  ultimately show False using assms(4) by simp
qed

section \<open>Reordering\<close>

text \<open>
  The packets of one frame: sequence numbers \<open>s0\<close>, \<open>s0 + 1\<close>, ... without wrap-around, one time stamp,
  the marker on the last packet.
\<close>

definition frame_packets :: "u32 \<Rightarrow> nat \<Rightarrow> RTP_PACK_INFO_S list \<Rightarrow> bool" where
  "frame_packets ts s0 F \<longleftrightarrow> F \<noteq> [] \<and> s0 + length F \<le> 2 ^ 16 \<and>
     (\<forall>i < length F. unat (usSeq (F ! i)) = s0 + i \<and> pk_unTimestamp (F ! i) = ts \<and> pack_ok (F ! i) \<and>
        (pk_bMarker (F ! i) \<longleftrightarrow> i = length F - 1))"

lemma frame_packets_seq:
  assumes "frame_packets ts s0 F"
  shows "seq_sorted F" "inj_on usSeq (set F)" "distinct F"
proof -
  have u: "unat (usSeq (F ! i)) = s0 + i" if "i < length F" for i
    using assms that by (simp add: frame_packets_def)
  show "seq_sorted F"
    by (auto simp: sorted_iff_nth_mono word_le_nat_alt u)
  have i: "i = j" if "i < length F" "j < length F" "usSeq (F ! i) = usSeq (F ! j)" for i j
    using u [OF that(1)] u [OF that(2)] unfolding that(3) by linarith
  show "inj_on usSeq (set F)"
  proof (rule inj_onI)
    fix x y assume x: "x \<in> set F" "y \<in> set F" "usSeq x = usSeq y"
    then obtain a b where "a < length F" "x = F ! a" "b < length F" "y = F ! b" by (metis in_set_conv_nth)
    with i x(3) show "x = y" by metis
  qed
  show "distinct F" using i by (auto simp: distinct_conv_nth)
qed

lemma frame_packets_run:
  assumes "frame_packets ts s0 F"
  shows "seq_run (usSeq (hd F)) F"
proof -
  have "seq_run (of_nat m) q" if "\<forall>i < length q. unat (usSeq (q ! i)) = m + i" for m q
    using that
  proof (induction q arbitrary: m)
    case (Cons p ps)
    have "unat (usSeq p) = m" using Cons.prems by (auto dest: spec [of _ 0])
    then have "usSeq p = of_nat m" by auto
    moreover have "\<forall>i < length ps. unat (usSeq (ps ! i)) = Suc m + i"
      using Cons.prems by (auto dest: spec [of _ "Suc _"])
    ultimately show ?case using Cons.IH [of "Suc m"] by (simp add: add.commute)
  qed simp
  moreover have "usSeq (hd F) = of_nat s0"
  proof -
    have "unat (usSeq (F ! 0)) = s0" "F \<noteq> []" using assms by (auto simp: frame_packets_def)
    then show ?thesis by (auto simp: hd_conv_nth)
  qed
  ultimately show ?thesis using assms by (simp add: frame_packets_def)
qed

text \<open>A part of the frame that has the first and the last packet has a gap.\<close>

lemma frame_gap:
  assumes "frame_packets ts s0 F" "seq_sorted q" "distinct q" "set q \<subset> set F" "hd F \<in> set q" "last F \<in> set q"
  shows "\<not> seq_run (usSeq (hd q)) q"
proof
  assume run: "seq_run (usSeq (hd q)) q"
  have q: "q \<noteq> []" using assms(5) by auto
  have u: "unat (usSeq (F ! i)) = s0 + i" if "i < length F" for i
    using assms(1) that by (simp add: frame_packets_def)
  have F: "F \<noteq> []" "s0 + length F \<le> 2 ^ 16" using assms(1) by (simp_all add: frame_packets_def)
  have len: "length q < length F"
    using assms(3,4) frame_packets_seq(3) [OF assms(1)] psubset_card_mono [of "set F" "set q"]
    by (simp add: distinct_card)
  have "hd q \<in> set F" using assms(4) hd_in_set [OF q] by blast
  then obtain j where "j < length F" "F ! j = hd q" by (auto simp: in_set_conv_nth)
  with u [of j] have "s0 \<le> unat (usSeq (hd q))" by simp
  moreover have "unat (usSeq (hd q)) \<le> s0"
  proof -
    have "usSeq (hd q) \<le> usSeq (hd F)"
      using assms(2,5) q by (cases q) auto
    then show ?thesis using u [of 0] F by (simp add: hd_conv_nth word_le_nat_alt)
  qed
  ultimately have h: "unat (usSeq (hd q)) = s0" by simp
  obtain i where i: "i < length q" "q ! i = last F" using assms(6) by (auto simp: in_set_conv_nth)
  have "usSeq (last F) = usSeq (hd q) + of_nat i" using seq_run_nth [OF run i(1)] i(2) by simp
  moreover have "s0 + i < 2 ^ 16" using i(1) len F(2) by simp
  ultimately have "unat (usSeq (last F)) = s0 + i"
    using h by (simp add: unat_word_ariths unat_of_nat)
  moreover have "unat (usSeq (last F)) = s0 + (length F - 1)" using u [of "length F - 1"] F by (simp add: last_conv_nth)
  ultimately show False using i(1) len by simp
qed

text \<open>An organizer that holds a part of one frame and nothing else.\<close>

definition holds_part :: "u32 \<Rightarrow> RTP_PACK_INFO_S list \<Rightarrow> CRtpFrameOrganizer \<Rightarrow> bool" where
  "holds_part ts xs s \<longleftrightarrow> org_inv s \<and> 0 < m_unMaxCacheFrameNum s \<and>
     (if xs = [] then m_RtpFrameMap s = []
      else \<exists>f. m_RtpFrameMap s = [(ts, f)] \<and> mset (PacketQueue f) = mset xs)"

lemma place_part:
  assumes "holds_part ts xs s" "pack_ok info" "pk_unTimestamp info = ts"
  shows "\<exists>s2 f. org_inv s2 \<and> m_unMaxCacheFrameNum s2 = m_unMaxCacheFrameNum s \<and> m_RtpFrameMap s2 = [(ts, f)] \<and>
    mset (PacketQueue f) = mset (xs @ [info]) \<and> frame_ok ts f \<and>
    place_packet info s = (case checkFrame s2 of (s3, ev) \<Rightarrow> Some (RET_OK, s3, ev))"
proof (cases "xs = []")
  case True
  then have m: "m_RtpFrameMap s = []" and inv: "org_inv s" using assms(1) by (simp_all add: holds_part_def)
  then have "length (m_RtpFrameFreeList s) = m_unMaxCacheFrameNum s" by (simp add: org_inv_def)
  then obtain f0 fs where free: "m_RtpFrameFreeList s = f0 # fs"
    using assms(1) by (cases "m_RtpFrameFreeList s") (auto simp: holds_part_def)
  have n: "map_of (m_RtpFrameMap s) (pk_unTimestamp info) = None" using m by simp
  show ?thesis
  proof (rule place_packet_new [OF inv assms(2) n free])
    fix m1 m2
    assume a: "m_RtpFrameMap s = m1 @ m2"
      "place_packet info s = (case checkFrame (s\<lparr>m_RtpFrameFreeList := fs,
         m_RtpFrameMap := m1 @ (pk_unTimestamp info, one_packet info f0) # m2\<rparr>)
       of (s3, ev) \<Rightarrow> Some (RET_OK, s3, ev))"
      and i: "org_inv (s\<lparr>m_RtpFrameFreeList := fs,
       m_RtpFrameMap := m1 @ (pk_unTimestamp info, one_packet info f0) # m2\<rparr>)" (is "org_inv ?s2")
    have "m_RtpFrameMap ?s2 = [(ts, one_packet info f0)]" using a(1) m assms(3) by simp
    moreover from this i have "frame_ok ts (one_packet info f0)" unfolding org_inv_def by simp
    ultimately show ?thesis
      using a(2) i True by (intro exI [of _ ?s2] exI [of _ "one_packet info f0"]) (simp add: one_packet_def)
  qed
next
  case False
  then obtain f where m: "m_RtpFrameMap s = [(ts, f)]" "mset (PacketQueue f) = mset xs" and inv: "org_inv s"
    using assms(1) by (auto simp: holds_part_def)
  have k: "map_of (m_RtpFrameMap s) (pk_unTimestamp info) = Some f"
    "m_RtpFrameMap s = [] @ (pk_unTimestamp info, f) # []" using m(1) assms(3) by simp_all
  show ?thesis
  proof (rule place_packet_found [OF inv assms(2) k])
    fix q
    assume a: "mset q = add_mset info (mset (PacketQueue f))"
      "place_packet info s = (case checkFrame (s\<lparr>m_RtpFrameMap := [] @ (pk_unTimestamp info, with_packet info f q) # []\<rparr>)
         of (s3, ev) \<Rightarrow> Some (RET_OK, s3, ev))"
      and i: "org_inv (s\<lparr>m_RtpFrameMap := [] @ (pk_unTimestamp info, with_packet info f q) # []\<rparr>)" (is "org_inv ?s2")
    have "m_RtpFrameMap ?s2 = [(ts, with_packet info f q)]" using assms(3) by simp
    moreover from this i have "frame_ok ts (with_packet info f q)" unfolding org_inv_def by simp
    ultimately show ?thesis
      using a i m(2) by (intro exI [of _ ?s2] exI [of _ "with_packet info f q"]) (simp add: with_packet_def)
  qed
qed

lemma place_part_more:
  assumes "frame_packets ts s0 F" "holds_part ts xs s" "info \<in> set F" "distinct (xs @ [info])"
    "set (xs @ [info]) \<subset> set F" "last F \<in> set (xs @ [info]) \<Longrightarrow> hd F \<in> set (xs @ [info])"
  shows "\<exists>s'. place_packet info s = Some (RET_OK, s', []) \<and> holds_part ts (xs @ [info]) s'"
proof -
  have info: "pack_ok info" "pk_unTimestamp info = ts"
    using assms(1,3) by (auto simp: frame_packets_def in_set_conv_nth)
  from place_part [OF assms(2) info] obtain s2 f where s2: "org_inv s2" "m_RtpFrameMap s2 = [(ts, f)]"
    "m_unMaxCacheFrameNum s2 = m_unMaxCacheFrameNum s"
    "mset (PacketQueue f) = mset (xs @ [info])" "frame_ok ts f"
    "place_packet info s = (case checkFrame s2 of (s3, ev) \<Rightarrow> Some (RET_OK, s3, ev))" by blast
  let ?q = "PacketQueue f"
  have set: "set ?q = set (xs @ [info])" using s2(4) by (metis set_mset_mset)
  have d: "distinct ?q" using s2(4) assms(4) by (metis mset_eq_imp_distinct_iff)
  have "\<not> (bMarker f \<and> seq_run (usSeq (hd ?q)) ?q)"
  proof
    assume b: "bMarker f \<and> seq_run (usSeq (hd ?q)) ?q"
    then obtain p where p: "p \<in> set ?q" "pk_bMarker p" using s2(5) by (auto simp: frame_ok_def)
    have "p \<in> set F" using p(1) assms(5) set by blast
    then obtain i where i: "i < length F" "F ! i = p" by (auto simp: in_set_conv_nth)
    with p(2) assms(1) have "i = length F - 1" "F \<noteq> []" by (auto simp: frame_packets_def)
    with i have "p = last F" by (simp add: last_conv_nth)
    with p assms(6) have "last F \<in> set ?q" "hd F \<in> set ?q" using set by auto
    with frame_gap [OF assms(1) _ d, unfolded set] b s2(5) assms(5) set show False
      by (simp add: frame_ok_def)
  qed
  then have "checkFrame s2 = (s2, [])" using s2(2) by (simp add: checkFrame_eq [OF s2(1)])
  then show ?thesis
    using s2 assms(2) by (auto simp: holds_part_def)
qed

lemma place_part_last:
  assumes "frame_packets ts s0 F" "holds_part ts xs s" "mset (xs @ [info]) = mset F"
  shows "\<exists>s' fr. place_packet info s = Some (RET_OK, s', Deliver (map pRtpMsgBlock F) # fr) \<and>
    (\<forall>bs. Deliver bs \<notin> set fr) \<and> holds_part ts [] s'"
proof -
  have "info \<in> set F" using assms(3) by (metis in_set_conv_decomp set_mset_mset)
  then have info: "pack_ok info" "pk_unTimestamp info = ts"
    using assms(1) by (auto simp: frame_packets_def in_set_conv_nth)
  from place_part [OF assms(2) info] obtain s2 f where s2: "org_inv s2" "m_RtpFrameMap s2 = [(ts, f)]"
    "m_unMaxCacheFrameNum s2 = m_unMaxCacheFrameNum s"
    "mset (PacketQueue f) = mset (xs @ [info])" "frame_ok ts f"
    "place_packet info s = (case checkFrame s2 of (s3, ev) \<Rightarrow> Some (RET_OK, s3, ev))" by blast
  note F = frame_packets_seq [OF assms(1)]
  have ms: "mset (PacketQueue f) = mset F" using s2(4) assms(3) by simp
  then have "set (PacketQueue f) = set F" by (metis set_mset_mset)
  then have "sort_key usSeq F = PacketQueue f"
    using ms F s2(5) by (intro sort_key_inj_key_eq) (auto simp: frame_ok_def)
  moreover have "sort_key usSeq F = F" using F by (intro sort_key_inj_key_eq) auto
  ultimately have q: "PacketQueue f = F" by simp
  have "last F \<in> set F" "pk_bMarker (last F)"
    using assms(1) by (auto simp: frame_packets_def last_conv_nth)
  then have "bMarker f" using s2(5) q by (auto simp: frame_ok_def)
  then have c: "checkFrame s2 = (s2\<lparr>m_RtpFrameMap := [],
      m_RtpFrameFreeList := m_RtpFrameFreeList s2 @ [f\<lparr>PacketQueue := []\<rparr>]\<rparr>,
      Deliver (map pRtpMsgBlock F) # map (\<lambda>p. FreeBlock (pRtpMsgBlock p)) F)"
    using s2(2) frame_packets_run [OF assms(1)] by (simp add: checkFrame_eq [OF s2(1)] q frame_blocks_def)
  moreover have "org_inv (s2\<lparr>m_RtpFrameMap := [],
      m_RtpFrameFreeList := m_RtpFrameFreeList s2 @ [f\<lparr>PacketQueue := []\<rparr>]\<rparr>)"
    using org_inv_drop_first(1) [OF s2(1,2)] .
  ultimately show ?thesis
    using s2(3,6) assms(2) by (auto simp: holds_part_def)
qed

text \<open>A sequence of arrivals.\<close>

fun insert_all :: "block list \<Rightarrow> CRtpFrameOrganizer \<Rightarrow> (CRtpFrameOrganizer \<times> org_event list) option" where
  "insert_all [] s = Some (s, [])"
| "insert_all ((ref, b) # bs) s =
     (case insertRtpPacket (Some b) (Some ref) s of None \<Rightarrow> None
      | Some (r, s1, ev1) \<Rightarrow>
          (case insert_all bs s1 of None \<Rightarrow> None | Some (s2, ev2) \<Rightarrow> Some (s2, ev1 @ ev2)))"

definition rx_info :: "block \<Rightarrow> RTP_PACK_INFO_S" where
  "rx_info b = pack_info (fst b) (snd (ParsePacket (Some (snd b)) CRtpPacket_new))"

definition rx_ok :: "block \<Rightarrow> bool" where
  "rx_ok b \<longleftrightarrow> fst (ParsePacket (Some (snd b)) CRtpPacket_new) = RET_OK"

lemma insert_rx:
  "rx_ok (ref, b) \<Longrightarrow> insertRtpPacket (Some b) (Some ref) s = place_packet (rx_info (ref, b)) s"
  by (auto simp: insertRtpPacket_def rx_ok_def rx_info_def split: prod.splits)

definition deliveries :: "org_event list \<Rightarrow> block list list" where
  "deliveries ev = concat (map (\<lambda>e. case e of Deliver bs \<Rightarrow> [bs] | FreeBlock b \<Rightarrow> []) ev)"

lemma deliveries_simps [simp]:
  "deliveries [] = []" "deliveries (xs @ ys) = deliveries xs @ deliveries ys"
  "deliveries (Deliver bs # ev) = bs # deliveries ev"
  "(\<forall>bs. Deliver bs \<notin> set ev) \<Longrightarrow> deliveries ev = []"
  by (auto simp: deliveries_def split: org_event.splits)

text \<open>
  The arrivals of a frame in some order; the packet with the lowest sequence number comes before the
  one with the marker.
\<close>

definition first_before_last :: "block list \<Rightarrow> block list \<Rightarrow> bool" where
  "first_before_last F arr \<longleftrightarrow>
     (\<forall>xs ys. arr = xs @ ys \<and> last F \<in> set xs \<longrightarrow> hd F \<in> set xs)"

lemma insert_all_frame:
  assumes "frame_packets ts s0 (map rx_info F)" "\<And>b. b \<in> set F \<Longrightarrow> rx_ok b"
    "mset (xs @ ys) = mset F" "first_before_last F (xs @ ys)" "ys \<noteq> []"
    "holds_part ts (map rx_info xs) s"
  shows "\<exists>s' ev. insert_all ys s = Some (s', ev) \<and> holds_part ts [] s' \<and>
    deliveries ev = [map (pRtpMsgBlock \<circ> rx_info) F]"
  using assms(3-6)
proof (induction ys arbitrary: xs s)
  case (Cons b ys)
  note F = frame_packets_seq [OF assms(1)]
  have d: "distinct F" "inj_on rx_info (set F)" using F(3) by (simp_all add: distinct_map)
  have set: "set (xs @ b # ys) = set F" using Cons.prems(1) by (metis set_mset_mset)
  then have "b \<in> set F" by auto
  then have ok: "rx_ok b" by (rule assms(2))
  have dx: "distinct (xs @ b # ys)" using d(1) Cons.prems(1) by (metis mset_eq_imp_distinct_iff)
  have step: "insert_all (b # ys) s = (case place_packet (rx_info b) s of None \<Rightarrow> None
      | Some (r, s1, ev1) \<Rightarrow>
          (case insert_all ys s1 of None \<Rightarrow> None | Some (s2, ev2) \<Rightarrow> Some (s2, ev1 @ ev2)))"
    using ok insert_rx by (cases b) simp
  have ne: "F \<noteq> []" using assms(1) by (auto simp: frame_packets_def)
  show ?case
  proof (cases "ys = []")
    case True
    have "mset (map rx_info xs @ [rx_info b]) = mset (map rx_info F)"
      using arg_cong [OF Cons.prems(1), of "image_mset rx_info"] True by simp
    from place_part_last [OF assms(1) Cons.prems(4) this] True step show ?thesis
      by auto
  next
    case False
    have sub: "set (xs @ [b]) \<subset> set F" using set dx False by (cases ys) auto
    have inj: "inj_on rx_info (set (xs @ [b]))" using d(2) sub by (meson inj_on_subset psubset_imp_subset)
    have 1: "rx_info b \<in> set (map rx_info F)" using set by auto
    have 2: "distinct (map rx_info xs @ [rx_info b])"
      using dx inj distinct_map [of rx_info "xs @ [b]"] by simp
    have 3: "set (map rx_info xs @ [rx_info b]) \<subset> set (map rx_info F)"
      using image_strict_mono [OF d(2) sub] by simp
    have 4: "hd (map rx_info F) \<in> set (map rx_info xs @ [rx_info b])"
      if "last (map rx_info F) \<in> set (map rx_info xs @ [rx_info b])"
    proof -
      have "rx_info (last F) \<in> rx_info ` set (xs @ [b])" using that ne by (simp add: last_map)
      then have "last F \<in> set (xs @ [b])"
        using d(2) sub ne last_in_set [OF ne] by (metis inj_on_image_mem_iff psubset_imp_subset)
      then have "hd F \<in> set (xs @ [b])"
        using Cons.prems(2) unfolding first_before_last_def by (metis append.assoc append_Cons append_Nil)
      then show ?thesis using ne by (auto simp: hd_map)
    qed
    from place_part_more [OF assms(1) Cons.prems(4) 1 2 3 4] obtain s1 where
      s1: "place_packet (rx_info b) s = Some (RET_OK, s1, [])" "holds_part ts (map rx_info (xs @ [b])) s1"
      by auto
    have "mset ((xs @ [b]) @ ys) = mset F" "first_before_last F ((xs @ [b]) @ ys)"
      using Cons.prems(1,2) by simp_all
    from Cons.IH [OF this False s1(2)] s1(1) step show ?thesis by auto
  qed
qed simp

text \<open>
  C13.  The organizer holds no frame, has room for at least one, and exactly the packets of one frame
  arrive, in some order: sequence numbers that count up by one and do not wrap inside the frame, one time
  stamp, the marker on the last packet only.  If the first packet of the frame arrives before the packet
  with the marker, then the frame is handed over exactly once, whole and in the order of the sequence
  numbers, and nothing stays in the organizer.
\<close>

theorem reorder_frame:
  assumes "org_inv s" "m_RtpFrameMap s = []" "0 < m_unMaxCacheFrameNum s"
    "frame_packets ts s0 (map rx_info F)" "\<forall>b \<in> set F. rx_ok b" "mset arr = mset F" "first_before_last F arr"
  shows "\<exists>s' ev. insert_all arr s = Some (s', ev) \<and> org_inv s' \<and> m_RtpFrameMap s' = [] \<and>
    deliveries ev = [map (\<lambda>b. pRtpMsgBlock (rx_info b)) F]"
proof -
  have "F \<noteq> []" using assms(4) by (simp add: frame_packets_def)
  then have "arr \<noteq> []" using assms(6) by auto
  moreover have "holds_part ts (map rx_info []) s" using assms(1-3) by (simp add: holds_part_def)
  ultimately obtain s' ev where "insert_all arr s = Some (s', ev)" "holds_part ts [] s'"
    "deliveries ev = [map (pRtpMsgBlock \<circ> rx_info) F]"
    using insert_all_frame [OF assms(4), of "[]" arr s] assms(5-7) by auto
  then show ?thesis by (auto simp: holds_part_def comp_def)
qed

lemma rx_simple:
  fixes ref :: nat and mk :: bool and pt :: u8 and sq :: u16 and ts ssrc :: u32 and payload :: bytes
  assumes "pt < 128"
  defines "b \<equiv> (ref, encode_packet (simple_header mk pt sq ts ssrc) payload)"
  shows "rx_ok b" "usSeq (rx_info b) = sq" "pk_unTimestamp (rx_info b) = ts" "pk_bMarker (rx_info b) = mk"
    "pack_ok (rx_info b)"
proof -
  obtain p where p: "ParsePacket (Some (snd b)) CRtpPacket_new = (RET_OK, p)"
    "GetMarker p = mk" "GetSeqNum p = sq" "GetTimeStamp p = ts"
    using ParsePacket_simple [OF assms(1), of mk sq ts ssrc payload] unfolding b_def by auto
  then show "rx_ok b" "usSeq (rx_info b) = sq" "pk_unTimestamp (rx_info b) = ts" "pk_bMarker (rx_info b) = mk"
    "pack_ok (rx_info b)"
    using pack_ok_parsed [OF p(1)] by (simp_all add: rx_ok_def rx_info_def pack_info_def)
qed

definition example_block :: "nat \<Rightarrow> bool \<Rightarrow> block" where
  "example_block i mk = (i, encode_packet (simple_header mk 96 (of_nat (10 + i)) 7 9) [of_nat i])"

lemma example_block_rx [simp]:
  "rx_ok (example_block i mk)" "usSeq (rx_info (example_block i mk)) = of_nat (10 + i)"
  "pk_unTimestamp (rx_info (example_block i mk)) = 7" "pk_bMarker (rx_info (example_block i mk)) = mk"
  "pack_ok (rx_info (example_block i mk))"
  unfolding example_block_def by (rule rx_simple; simp)+

theorem reorder_frame_witness:
  "\<exists>s' ev. insert_all [example_block 0 False, example_block 2 True, example_block 1 False] example_org
      = Some (s', ev) \<and>
    deliveries ev = [map (\<lambda>b. pRtpMsgBlock (rx_info b)) [example_block 0 False, example_block 1 False, example_block 2 True]]"
proof -
  let ?F = "[example_block 0 False, example_block 1 False, example_block 2 True]"
  let ?arr = "[example_block 0 False, example_block 2 True, example_block 1 False]"
  have f: "frame_packets 7 10 (map rx_info ?F)"
    by (auto simp: frame_packets_def less_Suc_eq nth_Cons')
  have m: "0 < m_unMaxCacheFrameNum example_org" using example_org(3) by simp
  have o: "first_before_last ?F ?arr"
    by (auto simp: first_before_last_def Cons_eq_append_conv)
  have ok: "\<forall>b \<in> set ?F. rx_ok b" by simp
  have p: "mset ?arr = mset ?F" by simp
  show ?thesis
    using reorder_frame [OF example_org(1,2) m f ok p o] by blast
qed

lemma example_delivery:
  "\<exists>r s' ev bs. insertRtpPacket (Some (snd (example_block 0 True))) (Some 0) example_org = Some (r, s', ev) \<and>
     Deliver bs \<in> set ev \<and> length bs = 1"
proof -
  let ?b = "example_block 0 True"
  have f: "frame_packets 7 10 (map rx_info [?b])" by (simp add: frame_packets_def)
  have h: "holds_part 7 (map rx_info []) example_org" using example_org by (simp add: holds_part_def)
  have "\<exists>s' ev. insert_all [?b] example_org = Some (s', ev) \<and> holds_part 7 [] s' \<and>
      deliveries ev = [map (pRtpMsgBlock \<circ> rx_info) [?b]]"
    by (rule insert_all_frame [OF f _ _ _ _ h]) (simp_all add: first_before_last_def Cons_eq_append_conv)
  then obtain s2 ev2 where a: "insert_all [(0, snd ?b)] example_org = Some (s2, ev2)"
    "deliveries ev2 = [map (pRtpMsgBlock \<circ> rx_info) [?b]]"
    by (auto simp: example_block_def)
  then obtain r s' ev where i: "insertRtpPacket (Some (snd ?b)) (Some 0) example_org = Some (r, s', ev)"
    and d: "deliveries ev = [map (pRtpMsgBlock \<circ> rx_info) [?b]]"
    by (auto split: option.splits)
  from d have "map (pRtpMsgBlock \<circ> rx_info) [?b] \<in> set (deliveries ev)" by simp
  then have "Deliver (map (pRtpMsgBlock \<circ> rx_info) [?b]) \<in> set ev"
    by (auto simp: deliveries_def split: org_event.splits)
  with i show ?thesis by (intro exI) auto
qed

theorem delivered_frame_complete_witness:
  "\<exists>r s' ev bs. insertRtpPacket (Some (snd (example_block 0 True))) (Some 0) example_org = Some (r, s', ev) \<and>
     Deliver bs \<in> set ev \<and> bs \<noteq> [] \<and> (\<exists>b \<in> set bs. block_marker b)"
proof -
  obtain r s' ev bs where i: "insertRtpPacket (Some (snd (example_block 0 True))) (Some 0) example_org = Some (r, s', ev)"
    and d: "Deliver bs \<in> set ev" using example_delivery by blast
  with delivered_frame_complete [OF example_org(1) i d] show ?thesis by blast
qed

end
