(* ===== verification/RtpSegment.thy ===== *)
theory RtpSegment
  imports RtpPacket
begin

unbundle bit_operations_syntax

text \<open>
  The interface of everything that cuts a byte stream into RTP packets: the packetisers of
  \<open>CPsRtpEncap::handlePsStream\<close> and \<open>CEsRtpEncap::handleAudioEsStream\<close> both promise that each
  packet carries the next at most \<open>maxp\<close> bytes, the next sequence number and a common header,
  and that only the last packet may have the marker.  The locale derives from that one-packet
  law what a receiver needs; the two packetisers interpret it.
\<close>

locale rtp_segmenter =
  fixes seg :: "u16 \<Rightarrow> bytes \<Rightarrow> bytes list"
    and maxp :: nat
    and pt :: u8
    and ts :: u32
    and ssrc :: u32
    and mk :: bool
  assumes maxp_pos: "0 < maxp"
    and pt_7bit: "pt < 128"
    and seg_Nil: "seg s [] = []"
    and seg_step: "d \<noteq> [] \<Longrightarrow> seg s d =
      encode_packet (simple_header (mk \<and> length d \<le> maxp) pt s ts ssrc) (take maxp d)
        # seg (s + 1) (drop maxp d)"
begin

lemma seg_induct [case_names Nil step]:
  assumes "\<And>s. P s []"
    and "\<And>s d. d \<noteq> [] \<Longrightarrow> P (s + 1) (drop maxp d) \<Longrightarrow> P s d"
  shows "P s (d :: bytes)"
proof (induction d arbitrary: s rule: length_induct)
  case (1 d)
  show ?case
  proof (cases "d = []")
    case False
    then have "length (drop maxp d) < length d" using maxp_pos by simp
    with 1 False show ?thesis using assms(2) by blast
  qed (use assms(1) in blast)
qed

lemma seg_payload: "concat (map (drop 12) (seg s d)) = d"
proof (induction s d rule: seg_induct)
  case (step s d)
  then show ?case by (simp add: seg_step encode_packet_simple)
qed (simp add: seg_Nil)

lemma seg_size: "pkt \<in> set (seg s d) \<Longrightarrow> 12 < length pkt \<and> length pkt \<le> 12 + maxp"
proof (induction s d rule: seg_induct)
  case (step s d)
  then show ?case using maxp_pos by (auto simp: seg_step encode_packet_simple)
qed (simp add: seg_Nil)

lemma seg_count: "length (seg s d) = (length d + maxp - 1) div maxp"
proof (induction s d rule: seg_induct)
  case (step s d)
  show ?case
  proof (cases "length d \<le> maxp")
    case True
    then have "(length d + maxp - 1) div maxp = 1"
      using step.hyps maxp_pos by (intro div_nat_eqI) (cases d, simp_all)
    then show ?thesis using step True by (simp add: seg_step seg_Nil)
  next
    case False
    then have "length d + maxp - 1 = (length d - maxp + maxp - 1) + maxp" by simp
    then have "(length d + maxp - 1) div maxp = (length d - maxp + maxp - 1) div maxp + 1"
      using maxp_pos by (metis div_add_self2 less_numeral_extra(3) Suc_eq_plus1)
    then show ?thesis using step by (simp add: seg_step)
  qed
qed (use maxp_pos in \<open>simp add: seg_Nil\<close>)

lemma seg_Nil_iff: "seg s d = [] \<longleftrightarrow> d = []"
  by (cases "d = []") (simp_all add: seg_step seg_Nil)

lemma seg_parse:
  "k < length (seg s d) \<Longrightarrow>
   \<exists>p. ParsePacket (Some (seg s d ! k)) CRtpPacket_new = (RET_OK, p) \<and> GetPayloadType p = pt \<and>
     GetSeqNum p = s + of_nat k \<and> GetTimeStamp p = ts \<and> GetSSRC p = ssrc \<and>
     GetHeadLen p = 12 \<and> (GetMarker p \<longleftrightarrow> mk \<and> k = length (seg s d) - 1)"
proof (induction s d arbitrary: k rule: seg_induct)
  case (step s d)
  let ?h = "simple_header (mk \<and> length d \<le> maxp) pt s ts ssrc"
  note st = seg_step [OF step.hyps, of s]
  have only: "length d \<le> maxp \<longleftrightarrow> length (seg (s + 1) (drop maxp d)) = 0"
    by (simp add: seg_Nil_iff)
  show ?case
  proof (cases k)
    case 0
    then have "seg s d ! k = encode_packet ?h (take maxp d)"
      by (simp add: st)
    moreover have "k = length (seg s d) - 1 \<longleftrightarrow> length d \<le> maxp"
      using 0 only by (simp add: st)
    moreover obtain p where
      "ParsePacket (Some (encode_packet ?h (take maxp d))) CRtpPacket_new = (RET_OK, p)"
      "GetMarker p = (mk \<and> length d \<le> maxp)" "GetPayloadType p = pt" "GetSeqNum p = s"
      "GetTimeStamp p = ts" "GetSSRC p = ssrc" "GetHeadLen p = 12"
      by (rule ParsePacket_simple [OF pt_7bit, of "mk \<and> length d \<le> maxp" s ts ssrc "take maxp d"])
    ultimately show ?thesis using 0 by (intro exI [of _ p]) simp
  next
    case (Suc j)
    with step.prems have j: "j < length (seg (s + 1) (drop maxp d))"
      by (simp add: st)
    have "s + of_nat k = s + 1 + of_nat j" using Suc by simp
    moreover have "k = length (seg s d) - 1 \<longleftrightarrow> j = length (seg (s + 1) (drop maxp d)) - 1"
      using Suc j by (simp add: st) linarith
    moreover have "seg s d ! k = seg (s + 1) (drop maxp d) ! j"
      using Suc by (simp add: st)
    ultimately show ?thesis using step.IH [OF j] by (simp add: add.assoc)
  qed
qed (simp add: seg_Nil)

end

section \<open>One slice\<close>

text \<open>
  The body both packetisers share: fill the header of the packet in the buffer with the marker
  off, set the marker for the last slice, and copy the slice behind the header.
\<close>

definition slice_packet ::
  "u8 \<Rightarrow> u16 \<Rightarrow> u32 \<Rightarrow> u32 \<Rightarrow> bool \<Rightarrow> bytes \<Rightarrow> CRtpPacket \<Rightarrow> CRtpPacket" where
  "slice_packet pt seq ts ssrc isLast chunk p =
     (let p1 = rtp_fill pt seq ts ssrc False p;
          p2 = (if isLast then snd (SetMarker True p1) else p1)
      in p2\<lparr>m_pRtpData := map_option (st_block 12 chunk) (m_pRtpData p2)\<rparr>)"

text \<open>A packet object on a buffer of \<open>n\<close> bytes whose first byte is the generated one.\<close>

definition packet_on :: "nat \<Rightarrow> CRtpPacket \<Rightarrow> bool" where
  "packet_on n p \<longleftrightarrow> m_pFixedHead p \<and>
     (\<exists>b. m_pRtpData p = Some b \<and> length b = n \<and> b ! 0 = 0x80)"

lemma packet_on_generate:
  "12 \<le> length b \<Longrightarrow> packet_on (length b) (snd (GeneratePacket (Some b) q))"
  using GeneratePacket_bytes [of b q] by (auto simp: packet_on_def)

lemma set_marker_fill:
  assumes "12 \<le> length b"
  shows "set_hdr_marker 1 (fill_bytes pt seq ts ssrc False b) = fill_bytes pt seq ts ssrc True b"
proof -
  have "bf_set 7 1 1 (bf_set 7 1 0 x) = bf_set 7 1 1 (x :: u8)" for x
    by (rule bit_word_eqI) (auto simp: bf_simps)
  then show ?thesis
    using assms by (simp add: fill_bytes_def set_hdr_marker_def st8_def)
qed

lemma slice_packet:
  fixes p :: CRtpPacket and chunk :: bytes and pt :: u8 and seq :: u16 and ts ssrc :: u32 and isLast :: bool
  assumes "packet_on n p" "12 + length chunk \<le> n"
  defines "p' \<equiv> slice_packet pt seq ts ssrc isLast chunk p"
  shows "packet_on n p'"
    "take (12 + length chunk) (rtp_bytes p') =
       encode_packet (simple_header isLast pt seq ts ssrc) chunk"
proof -
  obtain b where b: "m_pFixedHead p" "m_pRtpData p = Some b" "length b = n" "b ! 0 = 0x80"
    using assms(1) by (auto simp: packet_on_def)
  let ?f = "fill_bytes pt seq ts ssrc isLast b"
  have l: "12 \<le> length b" using assms(2) b(3) by linarith
  have p': "p' = p\<lparr>m_pRtpData := Some (st_block 12 chunk ?f)\<rparr>"
    using b set_marker_fill [OF l, of pt seq ts ssrc]
    by (simp add: p'_def slice_packet_def Let_def rtp_fill_eq SetMarker_def write_fixed_head_def)
  show "packet_on n p'"
    using b l assms(2) by (simp add: p' packet_on_def mem_simps nth0_fill_bytes)
  show "take (12 + length chunk) (rtp_bytes p') =
      encode_packet (simple_header isLast pt seq ts ssrc) chunk"
    using b l assms(2) take12_fill_bytes [OF l b(4), of pt seq ts ssrc isLast]
    by (simp add: p' st_block_def encode_packet_simple)
qed

end
