(* ===== verification/MpegPsEnc.thy ===== *)
theory MpegPsEnc
  imports SvsPrelude
begin

unbundle bit_operations_syntax

text \<open>
  The MPEG program-stream multiplexer \<open>CMpegPsEnc\<close> (\<open>svs_adapter_mpeg_ps_enc.cpp\<close>,
  \<open>svs_adapter_mpeg_def.h\<close>) with its CRC: it wraps elementary-stream frames into pack header,
  system header, program stream map and PES packets in a cache and hands the cache to a callback.

  The cache pointer and the write pointer together are the bytes written so far (\<open>ps_buf\<close>,
  \<^const>\<open>None\<close> for the null pointer): nothing behind the write pointer is ever read.  Calls of the
  callback \<open>handlePsStream\<close> do not touch the encoder, so they are collected, in order, as events.
  \<open>SVS_GetSecondTime\<close> is an argument of the operations that read the clock.
\<close>

section \<open>Constants\<close>

definition MIN_NALU_SIZE :: nat where "MIN_NALU_SIZE = 5"
definition MAX_ENCAP_RTP_SIZE :: nat where "MAX_ENCAP_RTP_SIZE = 1418"
definition DEFAULT_PS_CACHE :: nat where "DEFAULT_PS_CACHE = 1024 * 1024"
definition MAX_PS_HEADER_LEN :: nat where "MAX_PS_HEADER_LEN = 128"
definition INVALID_TIMESTAMP :: u64 where "INVALID_TIMESTAMP = 0x8000000000000000"
definition VIDEO_STREAM_ID :: u8 where "VIDEO_STREAM_ID = 0xe0"
definition AUDIO_STREAM_ID :: u8 where "AUDIO_STREAM_ID = 0xc0"
definition VIDEO_STREAM_TYPE_H264 :: u8 where "VIDEO_STREAM_TYPE_H264 = 0x1b"
definition AUDIO_STREAM_TYPE_G711 :: u8 where "AUDIO_STREAM_TYPE_G711 = 0x90"

lemmas ps_consts =
  MIN_NALU_SIZE_def MAX_ENCAP_RTP_SIZE_def DEFAULT_PS_CACHE_def MAX_PS_HEADER_LEN_def
  VIDEO_STREAM_ID_def AUDIO_STREAM_ID_def

datatype ES_TYPE_E = ES_TYPE_VIDEO | ES_TYPE_AUDIO | ES_TYPE_MAX

text \<open>The macro \<open>GET_BITS (x, s, e)\<close>: bits \<open>s\<close> to \<open>e\<close> of \<open>x\<close>, both included.\<close>

definition GET_BITS :: "'a::len word \<Rightarrow> nat \<Rightarrow> nat \<Rightarrow> 'a word" where
  "GET_BITS x s e = take_bit (e - s + 1) (drop_bit s x)"

section \<open>CRC\<close>

record crc_state =
  uVal :: u32
  upoly :: u32
  bCRCInit :: bool

definition CRCInit :: "crc_state \<Rightarrow> crc_state" where
  "CRCInit c = c\<lparr>uVal := 0xffffffff, upoly := 0x02608edb, bCRCInit := True\<rparr>"

definition CRCClose :: "crc_state \<Rightarrow> crc_state" where
  "CRCClose c = c\<lparr>uVal := 0, upoly := 0, bCRCInit := False\<rparr>"

definition CRCInputBit :: "u8 \<Rightarrow> crc_state \<Rightarrow> crc_state" where
  "CRCInputBit byin c =
     (let utemp = drop_bit 31 (uVal c AND 0x80000000) XOR ucast byin;
          v1 = (if utemp = 1 then uVal c XOR upoly c else uVal c)
      in c\<lparr>uVal := push_bit 1 v1 OR utemp\<rparr>)"

text \<open>
  The bits of a byte go in from the most significant one on.  The loop counter over the bytes is
  a \<open>uint8_t\<close>, so the loop does not end for more than 255 bytes (\<^const>\<open>None\<close>).
\<close>

definition CRCInputByte :: "u8 \<Rightarrow> crc_state \<Rightarrow> crc_state" where
  "CRCInputByte v c = fold (\<lambda>j. CRCInputBit (drop_bit 7 (push_bit j v AND 0x80))) [0..<8] c"

definition CRCGet :: "bytes \<Rightarrow> crc_state \<Rightarrow> (u32 \<times> crc_state) option" where
  "CRCGet byValue c =
     (if \<not> bCRCInit c then Some (0xffffffff, c)
      else if 255 < length byValue then None
      else let c' = fold CRCInputByte byValue c in Some (uVal c', c'))"

section \<open>The encoder\<close>

record CMpegPsEnc =
  m_pPsStreamHandle :: bool
  ps_buf :: "bytes option"
  m_unBufferSize :: nat
  m_ullScr :: u64
  m_ullVideoPts :: u64
  m_ullAudioPts :: u64
  m_unMuxRate :: u32
  m_unVideoTimestamp :: u32
  m_unAudioTimestamp :: u32
  m_unEsStreamSize :: u32
  m_LastCalcTime :: u32
  m_isFirstPES :: bool
  psm_cVersion :: u8
  crc_statics :: crc_state

text \<open>A call of \<open>handlePsStream\<close>: the data, the time stamp and the end flag.\<close>

type_synonym ps_event = "bytes \<times> u32 \<times> bool"

text \<open>
  The constructor; \<open>psm_cVersion\<close> and \<open>crc_statics\<close> are the function- and file-scope statics,
  which exist before it runs.
\<close>

definition CMpegPsEnc_new :: "u8 \<Rightarrow> crc_state \<Rightarrow> CMpegPsEnc" where
  "CMpegPsEnc_new ver crc = \<lparr>m_pPsStreamHandle = False, ps_buf = None, m_unBufferSize = 0,
     m_ullScr = INVALID_TIMESTAMP, m_ullVideoPts = INVALID_TIMESTAMP,
     m_ullAudioPts = INVALID_TIMESTAMP, m_unMuxRate = 0, m_unVideoTimestamp = 0,
     m_unAudioTimestamp = 0, m_unEsStreamSize = 0, m_LastCalcTime = 0, m_isFirstPES = True,
     psm_cVersion = ver, crc_statics = crc\<rparr>"

text \<open>\<open>init\<close>: the handle, whether \<open>new\<close> succeeds, the encoder.\<close>

definition ps_enc_init :: "bool \<Rightarrow> bool \<Rightarrow> CMpegPsEnc \<Rightarrow> int \<times> CMpegPsEnc" where
  "ps_enc_init pHandle alloc_ok e =
     (if \<not> pHandle then (-1, e)
      else
        let e1 = e\<lparr>m_pPsStreamHandle := True\<rparr>;
            e2 = (if alloc_ok then e1\<lparr>ps_buf := Some [], m_unBufferSize := DEFAULT_PS_CACHE\<rparr>
                  else e1)
        in (0, e2\<lparr>m_ullScr := 0, m_ullVideoPts := 0, m_ullAudioPts := 0,
                  m_unMuxRate := (1024 * 1024) div 50\<rparr>))"

definition getWritePos :: "CMpegPsEnc \<Rightarrow> nat" where
  "getWritePos e = (case ps_buf e of None \<Rightarrow> 0 | Some b \<Rightarrow> length b)"

definition cache_bytes :: "CMpegPsEnc \<Rightarrow> bytes" where
  "cache_bytes e = (case ps_buf e of None \<Rightarrow> [] | Some b \<Rightarrow> b)"

text \<open>Hand the cache to the callback, if there is one, and reset the write pointer.\<close>

definition flush_cache :: "u32 \<Rightarrow> bool \<Rightarrow> CMpegPsEnc \<Rightarrow> CMpegPsEnc \<times> ps_event list" where
  "flush_cache ts endFlag e =
     (if m_pPsStreamHandle e
      then (e\<lparr>ps_buf := map_option (\<lambda>_. []) (ps_buf e)\<rparr>, [(cache_bytes e, ts, endFlag)])
      else (e, []))"

definition ps_enc_release :: "CMpegPsEnc \<Rightarrow> CMpegPsEnc \<times> ps_event list" where
  "ps_enc_release e =
     (let (e1, ev) = (if cache_bytes e \<noteq> [] then flush_cache (m_unVideoTimestamp e) True e
                      else (e, []))
      in (e1\<lparr>ps_buf := None\<rparr>, ev))"

definition put_bytes :: "bytes \<Rightarrow> CMpegPsEnc \<Rightarrow> CMpegPsEnc" where
  "put_bytes bs e = e\<lparr>ps_buf := map_option (\<lambda>b. b @ bs) (ps_buf e)\<rparr>"

definition can_write :: "CMpegPsEnc \<Rightarrow> bool" where
  "can_write e \<longleftrightarrow> ps_buf e \<noteq> None \<and> getWritePos e < m_unBufferSize e"

definition ps_header_bytes :: "u64 \<Rightarrow> u32 \<Rightarrow> bytes" where
  "ps_header_bytes scr mux =
     [0x00, 0x00, 0x01, 0xBA,
      0x40 OR ucast (push_bit 3 (GET_BITS scr 30 32)) OR 0x04 OR ucast (GET_BITS scr 28 29),
      ucast (GET_BITS scr 20 27),
      push_bit 3 (ucast (GET_BITS scr 15 19)) OR 0x04 OR ucast (GET_BITS scr 13 14),
      ucast (GET_BITS scr 5 12),
      push_bit 3 (ucast (GET_BITS scr 0 6)) OR 0x04,
      0x01,
      ucast (GET_BITS mux 14 21),
      ucast (GET_BITS mux 6 13),
      push_bit 2 (ucast (GET_BITS mux 0 6)) OR 0x03,
      0xf8]"

definition writePSHeader :: "CMpegPsEnc \<Rightarrow> int \<times> CMpegPsEnc" where
  "writePSHeader e =
     (if \<not> can_write e then (-1, e)
      else (0, put_bytes (ps_header_bytes (m_ullScr e) (m_unMuxRate e)) e))"

definition sys_header_bytes :: "u32 \<Rightarrow> bytes" where
  "sys_header_bytes mux =
     [0x00, 0x00, 0x01, 0xBB, 0x00, 0x06,
      0x80 OR ucast (GET_BITS mux 15 21),
      ucast (GET_BITS mux 7 14),
      push_bit 1 (ucast (GET_BITS mux 0 6)) OR 0x1,
      push_bit 2 1,
      0xe1,
      0x7f]"

definition writeSysHeader :: "CMpegPsEnc \<Rightarrow> int \<times> CMpegPsEnc" where
  "writeSysHeader e =
     (if \<not> can_write e then (-1, e) else (0, put_bytes (sys_header_bytes (m_unMuxRate e)) e))"

text \<open>The program stream map up to its CRC, for one value of the version counter.\<close>

definition psm_body :: "u8 \<Rightarrow> bytes" where
  "psm_body ver =
     [0x00, 0x00, 0x01, 0xBC, 0x00, 0x12, 0xe0 OR ver, 0xff, 0x00, 0x00, 0x00, 0x08,
      VIDEO_STREAM_TYPE_H264, VIDEO_STREAM_ID, 0x00, 0x00,
      AUDIO_STREAM_TYPE_G711, AUDIO_STREAM_ID, 0x00, 0x00]"

text \<open>
  \<open>CRCGet\<close> returns for the 20 bytes of \<open>psm_body\<close>; the CRC is appended in host byte order.
\<close>

definition writePsmPacket :: "CMpegPsEnc \<Rightarrow> (int \<times> CMpegPsEnc) option" where
  "writePsmPacket e =
     (if \<not> can_write e then Some (-1, e)
      else
        let body = psm_body (psm_cVersion e);
            e1 = put_bytes body (e\<lparr>psm_cVersion := (psm_cVersion e + 1) mod 0x1f\<rparr>)
        in case CRCGet body (CRCInit (crc_statics e1)) of
             None \<Rightarrow> None
           | Some (unCrc, crc') \<Rightarrow> Some (0, put_bytes (le32 unCrc) (e1\<lparr>crc_statics := crc'\<rparr>)))"

definition pts_bytes :: "u8 \<Rightarrow> u64 \<Rightarrow> bytes" where
  "pts_bytes tag ts =
     [push_bit 4 tag OR push_bit 1 (ucast (GET_BITS ts 30 32)) OR 0x1,
      ucast (GET_BITS ts 22 29),
      push_bit 1 (ucast (GET_BITS ts 15 21)) OR 0x1,
      ucast (GET_BITS ts 7 14),
      push_bit 1 (ucast (GET_BITS ts 0 6)) OR 0x1]"

definition pes_header_bytes :: "nat \<Rightarrow> u8 \<Rightarrow> u64 \<Rightarrow> u64 \<Rightarrow> bytes" where
  "pes_header_bytes unDataSize ucStreamId ullPts ullDts =
     (let hasPts = (ullPts \<noteq> INVALID_TIMESTAMP);
          hasDts = (ullDts \<noteq> INVALID_TIMESTAMP);
          usLen = 3 + (if hasPts then 5 else 0) + (if hasDts then 5 else 0)
                  + (of_nat unDataSize :: u16);
          extLen = (if hasPts then 5 else 0) + (if hasDts then 5 else (0 :: u8));
          tsFlag = (if hasPts then 0x02 else 0) OR (if hasDts then 0x01 else (0 :: u8))
      in [0x00, 0x00, 0x01, ucStreamId,
          ucast (GET_BITS usLen 8 15), ucast (GET_BITS usLen 0 7),
          0x80, push_bit 6 tsFlag, extLen]
         @ (if hasPts then pts_bytes tsFlag ullPts
              @ (if hasDts then pts_bytes 0x1 ullDts else [])
            else []))"

definition writePESHeader :: "nat \<Rightarrow> u8 \<Rightarrow> u64 \<Rightarrow> u64 \<Rightarrow> CMpegPsEnc \<Rightarrow> int \<times> CMpegPsEnc" where
  "writePESHeader unDataSize ucStreamId ullPts ullDts e =
     (if \<not> can_write e then (-1, e)
      else if ullPts = INVALID_TIMESTAMP \<and> ullDts \<noteq> INVALID_TIMESTAMP then (-1, e)
      else (0, put_bytes (pes_header_bytes unDataSize ucStreamId ullPts ullDts) e))"

text \<open>\<open>calcEsBitrate\<close> at second \<open>now\<close>.\<close>

definition calcEsBitrate :: "u32 \<Rightarrow> nat \<Rightarrow> CMpegPsEnc \<Rightarrow> CMpegPsEnc" where
  "calcEsBitrate now unDataSize e =
     (let e1 = e\<lparr>m_unEsStreamSize := m_unEsStreamSize e + of_nat unDataSize\<rparr> in
      if m_LastCalcTime e1 = 0 then e1\<lparr>m_LastCalcTime := now\<rparr>
      else if m_LastCalcTime e1 < now
      then e1\<lparr>m_unMuxRate := (m_unEsStreamSize e1 div (now - m_LastCalcTime e1)) div (8 * 50),
              m_LastCalcTime := now\<rparr>
      else e1)"

text \<open>Subtraction of unsigned 32-bit sizes.\<close>

definition usub32 :: "nat \<Rightarrow> nat \<Rightarrow> nat" where
  "usub32 a b = (if b \<le> a then a - b else a + 2 ^ 32 - b)"

text \<open>
  The three headers at the start of a PS packet; a failing header stops the sequence with what
  has been written so far in the cache.
\<close>

definition write_ps_headers :: "CMpegPsEnc \<Rightarrow> (int \<times> CMpegPsEnc) option" where
  "write_ps_headers e =
     (case writePSHeader e of (r1, e1) \<Rightarrow>
        if r1 \<noteq> 0 then Some (-1, e1)
        else case writeSysHeader e1 of (r2, e2) \<Rightarrow>
          if r2 \<noteq> 0 then Some (-1, e2)
          else case writePsmPacket e2 of None \<Rightarrow> None
            | Some (r3, e3) \<Rightarrow>
                if r3 \<noteq> 0 then Some (-1, e3) else Some (0, e3\<lparr>m_isFirstPES := False\<rparr>))"

definition es_ids :: "ES_TYPE_E \<Rightarrow> CMpegPsEnc \<Rightarrow> u8 \<times> u64 \<times> u64" where
  "es_ids enEsType e =
     (if enEsType = ES_TYPE_AUDIO then (AUDIO_STREAM_ID, m_ullAudioPts e, INVALID_TIMESTAMP)
      else (VIDEO_STREAM_ID, m_ullVideoPts e, m_ullVideoPts e))"

text \<open>The part of \<open>writeESPacket\<close> after the cache has been flushed, with the events so far.\<close>

definition write_es_body ::
  "bytes \<Rightarrow> ES_TYPE_E \<Rightarrow> ps_event list \<Rightarrow> CMpegPsEnc \<Rightarrow> (int \<times> CMpegPsEnc \<times> ps_event list) option" where
  "write_es_body pInData enEsType ev e1 =
     (case (if cache_bytes e1 = [] \<and> m_isFirstPES e1 then write_ps_headers e1 else Some (0, e1)) of
        None \<Rightarrow> None
      | Some (r2, e2) \<Rightarrow>
          if r2 \<noteq> 0 then Some (-1, e2, ev)
          else case es_ids enEsType e2 of (ucStreamId, ullPts, ullDts) \<Rightarrow>
            (case writePESHeader (length pInData) ucStreamId ullPts ullDts e2 of (r3, e3) \<Rightarrow>
               if r3 \<noteq> 0 then Some (-1, e3, ev)
               else Some (0, put_bytes pInData e3, ev)))"

text \<open>
  \<open>writeESPacket\<close>.  The source refuses a null pointer and an empty frame in one test with the same result, so both are the empty list here.
\<close>

definition writeESPacket ::
  "bytes \<Rightarrow> ES_TYPE_E \<Rightarrow> CMpegPsEnc \<Rightarrow> (int \<times> CMpegPsEnc \<times> ps_event list) option" where
  "writeESPacket pInData enEsType e =
     (let unDataSize = length pInData in
      if unDataSize = 0 then Some (-1, e, [])
      else if usub32 (m_unBufferSize e) MAX_PS_HEADER_LEN < unDataSize then Some (-1, e, [])
      else
        let (e1, ev) =
              (if usub32 (m_unBufferSize e) (getWritePos e)
                   < (unDataSize + MAX_PS_HEADER_LEN) mod 2 ^ 32
               then flush_cache (m_unAudioTimestamp e) True e else (e, []))
        in write_es_body pInData enEsType ev e1)"

text \<open>
  The presentation time stamp: the first frame sets it, every later one adds the distance to the
  time stamp before, computed in 64 bits.
\<close>

definition advance_pts :: "u32 \<Rightarrow> u64 \<Rightarrow> u32 \<Rightarrow> u64" where
  "advance_pts lastTs pts ts =
     (if lastTs = 0 then ucast ts
      else pts + (if lastTs \<le> ts then ucast (ts - lastTs)
                  else (0xffffffff - ucast lastTs) + ucast ts))"

text \<open>\<open>unSendDataSize\<close>: as many whole RTP payloads as fit a PES packet.\<close>

definition pes_chunk :: nat where
  "pes_chunk = ((0xffff - 13) div (MAX_ENCAP_RTP_SIZE - 12)) * (MAX_ENCAP_RTP_SIZE - 12)"

lemma pes_chunk_val: "pes_chunk = 64676"
  by (simp add: pes_chunk_def ps_consts)

function video_loop ::
  "bytes \<Rightarrow> CMpegPsEnc \<Rightarrow> (int \<times> bytes \<times> CMpegPsEnc \<times> ps_event list) option" where
  "video_loop unLeft e =
     (if length unLeft \<le> 0xffff - 13 then Some (0, unLeft, e, [])
      else case writeESPacket (take pes_chunk unLeft) ES_TYPE_VIDEO e of
        None \<Rightarrow> None
      | Some (ret, e1, ev1) \<Rightarrow>
          if ret \<noteq> 0 then Some (-1, unLeft, e1, ev1)
          else case flush_cache (m_unVideoTimestamp e1) False e1 of (e2, ev2) \<Rightarrow>
            (case video_loop (drop pes_chunk unLeft) e2 of
               None \<Rightarrow> None
             | Some (r, d, e3, ev3) \<Rightarrow> Some (r, d, e3, ev1 @ ev2 @ ev3)))"
  by pat_completeness auto
termination
  by (relation "measure (\<lambda>(d, e). length d)") (auto simp: pes_chunk_val)

declare video_loop.simps [simp del]

definition max_pts :: "CMpegPsEnc \<Rightarrow> u64" where
  "max_pts e = (if m_ullAudioPts e < m_ullVideoPts e then m_ullVideoPts e else m_ullAudioPts e)"

definition writeVideoEsStream ::
  "bytes \<Rightarrow> u32 \<Rightarrow> u32 \<Rightarrow> CMpegPsEnc \<Rightarrow> (int \<times> CMpegPsEnc \<times> ps_event list) option" where
  "writeVideoEsStream pInData unTimestamp now e =
     (if length pInData < MIN_NALU_SIZE then Some (-1, e, [])
      else
        let e1 = e\<lparr>m_ullVideoPts := advance_pts (m_unVideoTimestamp e) (m_ullVideoPts e) unTimestamp,
                   m_unVideoTimestamp := unTimestamp\<rparr>;
            e2 = e1\<lparr>m_ullScr := max_pts e1\<rparr>;
            e3 = (calcEsBitrate now (length pInData) e2)\<lparr>m_isFirstPES := True\<rparr>
        in case video_loop pInData e3 of
             None \<Rightarrow> None
           | Some (r, rest, e4, ev1) \<Rightarrow>
               if r \<noteq> 0 then Some (-1, e4, ev1)
               else (case writeESPacket rest ES_TYPE_VIDEO e4 of
                   None \<Rightarrow> None
                 | Some (r2, e5, ev2) \<Rightarrow>
                     if r2 \<noteq> 0 then Some (-1, e5, ev1 @ ev2)
                     else case flush_cache (m_unVideoTimestamp e5) True e5 of (e6, ev3) \<Rightarrow>
                       Some (0, e6, ev1 @ ev2 @ ev3)))"

definition writeAudioEsStream ::
  "bytes \<Rightarrow> u32 \<Rightarrow> u32 \<Rightarrow> CMpegPsEnc \<Rightarrow> (int \<times> CMpegPsEnc \<times> ps_event list) option" where
  "writeAudioEsStream pInData unTimestamp now e =
     (let e1 = e\<lparr>m_ullAudioPts := advance_pts (m_unAudioTimestamp e) (m_ullAudioPts e) unTimestamp,
                 m_unAudioTimestamp := unTimestamp\<rparr>;
          e2 = calcEsBitrate now (length pInData) e1;
          e3 = e2\<lparr>m_ullScr := max_pts e2, m_isFirstPES := True\<rparr>
      in case writeESPacket pInData ES_TYPE_AUDIO e3 of
           None \<Rightarrow> None
         | Some (r, e4, ev1) \<Rightarrow>
             if r \<noteq> 0 then Some (-1, e4, ev1)
             else case flush_cache (m_unAudioTimestamp e4) True e4 of (e5, ev2) \<Rightarrow>
               Some (0, e5, ev1 @ ev2))"

section \<open>The CRC is CRC-32/MPEG-2\<close>

text \<open>
  The reference: the remainder register shifts left by one bit and the polynomial
  \<open>0x04C11DB7\<close> is subtracted when the bit shifted out differs from the input bit.
\<close>

definition crc_mpeg2_bit :: "bool \<Rightarrow> u32 \<Rightarrow> u32" where
  "crc_mpeg2_bit b r = push_bit 1 r XOR (if bit r 31 \<noteq> b then 0x04C11DB7 else 0)"

definition msb_bits :: "u8 \<Rightarrow> bool list" where
  "msb_bits v = map (\<lambda>j. bit v (7 - j)) [0..<8]"

definition crc_mpeg2 :: "bytes \<Rightarrow> u32" where
  "crc_mpeg2 bs = fold crc_mpeg2_bit (concat (map msb_bits bs)) 0xffffffff"

lemma top_bit: "drop_bit 31 ((v :: u32) AND 0x80000000) = (if bit v 31 then 1 else 0)"
proof -
  have m: "(0x80000000 :: u32) = push_bit 31 1" by simp
  show ?thesis
  proof (rule bit_word_eqI)
    fix n :: nat
    show "bit (drop_bit 31 ((v :: u32) AND 0x80000000)) n = bit (if bit v 31 then 1 else 0 :: u32) n"
      unfolding m by (cases "n = 0") (auto simp: bit_simps simp del: push_bit_of_1)
  qed
qed

lemma poly_shift_gen: "push_bit 1 (v XOR p) OR 1 = push_bit 1 (v :: u32) XOR (push_bit 1 p OR 1)"
  by (rule bit_word_eqI) (auto simp: bit_simps simp del: push_bit_of_1 push_bit_Suc)

lemma poly_shift: "push_bit 1 (v XOR 0x02608edb) OR 1 = push_bit 1 (v :: u32) XOR 0x04C11DB7"
proof -
  have p: "push_bit 1 0x02608edb OR 1 = (0x04C11DB7 :: u32)" by simp
  show ?thesis
    unfolding poly_shift_gen p ..
qed

lemma CRCInputBit_ref:
  assumes "upoly c = 0x02608edb"
  shows "CRCInputBit (if b then 1 else 0) c = c\<lparr>uVal := crc_mpeg2_bit b (uVal c)\<rparr>"
proof -
  have t: "drop_bit 31 (uVal c AND 0x80000000) XOR ucast (if b then 1 else 0 :: u8)
      = (if bit (uVal c) 31 \<noteq> b then 1 else 0)"
    unfolding top_bit by simp
  show ?thesis
    unfolding CRCInputBit_def crc_mpeg2_bit_def Let_def t assms
    using poly_shift [of "uVal c"] by (cases "bit (uVal c) 31 \<noteq> b") (simp_all only: if_True if_False, simp_all)
qed

lemma byte_bit:
  assumes "j < 8"
  shows "drop_bit 7 (push_bit j (v :: u8) AND 0x80) = (if bit v (7 - j) then 1 else 0)"
proof -
  have m: "(0x80 :: u8) = push_bit 7 1" by simp
  show ?thesis
  proof (rule bit_word_eqI)
    fix n :: nat
    show "bit (drop_bit 7 (push_bit j (v :: u8) AND 0x80)) n
        = bit (if bit v (7 - j) then 1 else 0 :: u8) n"
      unfolding m using assms
      by (cases "n = 0") (auto simp: bit_simps simp del: push_bit_of_1)
  qed
qed

lemma fold_CRCInputBit:
  "upoly c = 0x02608edb \<Longrightarrow> fold (\<lambda>j. CRCInputBit (if f j then 1 else 0)) js c =
     c\<lparr>uVal := fold crc_mpeg2_bit (map f js) (uVal c)\<rparr>"
  by (induction js arbitrary: c) (simp_all add: CRCInputBit_ref)

lemma CRCInputByte_ref:
  assumes "upoly c = 0x02608edb"
  shows "CRCInputByte v c = c\<lparr>uVal := fold crc_mpeg2_bit (msb_bits v) (uVal c)\<rparr>"
proof -
  have "CRCInputByte v c = fold (\<lambda>j. CRCInputBit (if bit v (7 - j) then 1 else 0)) [0..<8] c"
    unfolding CRCInputByte_def by (rule fold_cong) (simp_all only: set_upt atLeastLessThan_iff byte_bit)
  then show ?thesis using assms by (simp add: fold_CRCInputBit msb_bits_def)
qed

lemma fold_CRCInputByte:
  "upoly c = 0x02608edb \<Longrightarrow> fold CRCInputByte bs c =
     c\<lparr>uVal := fold crc_mpeg2_bit (concat (map msb_bits bs)) (uVal c)\<rparr>"
  by (induction bs arbitrary: c) (simp_all add: CRCInputByte_ref)

text \<open>
  C3.  After \<open>CRCInit\<close>, \<open>CRCGet\<close> computes the CRC-32/MPEG-2 of its input, although it works with
  the halved polynomial and sets the last bit by hand, for every input the loop counter can
  count; for longer inputs it does not return.
\<close>

theorem CRCGet_crc_mpeg2:
  "map_option fst (CRCGet bs (CRCInit c)) = (if length bs \<le> 255 then Some (crc_mpeg2 bs) else None)"
  by (simp add: CRCGet_def CRCInit_def fold_CRCInputByte crc_mpeg2_def Let_def)

text \<open>The check value of CRC-32/MPEG-2, for the bytes of \<open>123456789\<close>.\<close>

lemma crc_mpeg2_check: "crc_mpeg2 [0x31, 0x32, 0x33, 0x34, 0x35, 0x36, 0x37, 0x38, 0x39] = 0x0376E6E7"
  by code_simp

section \<open>What the encoder writes\<close>

text \<open>The start of a PS packet and one PES packet, as values.\<close>

definition ps_prefix :: "u64 \<Rightarrow> u32 \<Rightarrow> u8 \<Rightarrow> bytes" where
  "ps_prefix scr mux ver = ps_header_bytes scr mux @ sys_header_bytes mux
     @ psm_body ver @ le32 (crc_mpeg2 (psm_body ver))"

definition pes_packet :: "u8 \<Rightarrow> u64 \<Rightarrow> u64 \<Rightarrow> bytes \<Rightarrow> bytes" where
  "pes_packet ucStreamId ullPts ullDts d = pes_header_bytes (length d) ucStreamId ullPts ullDts @ d"

lemma length_ps_bytes [simp]:
  "length (ps_header_bytes scr mux) = 14" "length (sys_header_bytes mux) = 12"
  "length (psm_body ver) = 20" "length (pts_bytes tag ts) = 5" "length (ps_prefix scr mux ver) = 50"
  by (simp_all add: ps_header_bytes_def sys_header_bytes_def psm_body_def pts_bytes_def ps_prefix_def)

lemma length_pes_header: "length (pes_header_bytes n sid pts dts) \<le> 19"
  by (simp add: pes_header_bytes_def Let_def)

text \<open>
  An encoder after a successful \<open>init\<close>: it has a callback and a cache of the full size, and what
  is written fits the cache.
\<close>

definition enc_ready :: "CMpegPsEnc \<Rightarrow> bool" where
  "enc_ready e \<longleftrightarrow> m_pPsStreamHandle e \<and> m_unBufferSize e = DEFAULT_PS_CACHE \<and>
     (\<exists>b. ps_buf e = Some b \<and> length b \<le> DEFAULT_PS_CACHE)"

lemma enc_ready_init:
  "ps_enc_init True True e = (0, e') \<Longrightarrow> enc_ready e' \<and> cache_bytes e' = []"
  by (auto simp: ps_enc_init_def Let_def enc_ready_def cache_bytes_def)

lemma enc_readyE:
  assumes "enc_ready e"
  obtains b where "ps_buf e = Some b" "cache_bytes e = b" "length b \<le> DEFAULT_PS_CACHE"
    "getWritePos e = length b" "m_unBufferSize e = DEFAULT_PS_CACHE" "m_pPsStreamHandle e"
  using assms by (auto simp: enc_ready_def cache_bytes_def getWritePos_def)

lemma writePsmPacket_eq:
  assumes "can_write e"
  shows "writePsmPacket e = Some (0, put_bytes (psm_body (psm_cVersion e)
      @ le32 (crc_mpeg2 (psm_body (psm_cVersion e))))
    (e\<lparr>psm_cVersion := (psm_cVersion e + 1) mod 0x1f,
       crc_statics := (CRCInit (crc_statics e))\<lparr>uVal := crc_mpeg2 (psm_body (psm_cVersion e))\<rparr>\<rparr>))"
  using assms
  by (simp add: writePsmPacket_def Let_def CRCGet_def fold_CRCInputByte crc_mpeg2_def put_bytes_def
      CRCInit_def option.map_comp comp_def)

definition after_headers :: "CMpegPsEnc \<Rightarrow> CMpegPsEnc" where
  "after_headers e = (put_bytes (ps_prefix (m_ullScr e) (m_unMuxRate e) (psm_cVersion e)) e)
    \<lparr>psm_cVersion := (psm_cVersion e + 1) mod 0x1f,
     crc_statics := (CRCInit (crc_statics e))\<lparr>uVal := crc_mpeg2 (psm_body (psm_cVersion e))\<rparr>,
     m_isFirstPES := False\<rparr>"

lemma write_ps_headers_eq:
  assumes "ps_buf e = Some b" "length b + 50 < m_unBufferSize e"
  shows "write_ps_headers e = Some (0, after_headers e)"
  using assms
  by (simp add: write_ps_headers_def writePSHeader_def writeSysHeader_def can_write_def
      getWritePos_def writePsmPacket_eq put_bytes_def after_headers_def ps_prefix_def)

text \<open>The state after the optional flush and the optional headers of \<open>writeESPacket\<close>.\<close>

lemma writeESPacket_room:
  assumes "ps_buf e = Some b" "m_unBufferSize e = DEFAULT_PS_CACHE" "d \<noteq> []"
    "length b + length d + 128 \<le> DEFAULT_PS_CACHE"
  shows "writeESPacket d ty e =
    (let e1 = (if b = [] \<and> m_isFirstPES e then after_headers e else e)
     in case es_ids ty e1 of (sid, pts, dts) \<Rightarrow> Some (0, put_bytes (pes_packet sid pts dts d) e1, []))"
proof -
  have len: "length b + 50 < m_unBufferSize e" using assms by simp
  have noflush: "\<not> usub32 (m_unBufferSize e) (getWritePos e) < (length d + MAX_PS_HEADER_LEN) mod 2 ^ 32"
    using assms by (simp add: usub32_def getWritePos_def ps_consts)
  have guard: "\<not> usub32 (m_unBufferSize e) MAX_PS_HEADER_LEN < length d"
    using assms by (simp add: usub32_def ps_consts)
  have w: "can_write e" "can_write (after_headers e)"
    using assms by (simp_all add: can_write_def getWritePos_def after_headers_def put_bytes_def ps_consts)
  have ids: "es_ids ty x = (sid, pts, dts) \<Longrightarrow> \<not> (pts = INVALID_TIMESTAMP \<and> dts \<noteq> INVALID_TIMESTAMP)"
    for x sid pts dts by (auto simp: es_ids_def split: if_splits)
  have hd: "write_ps_headers e = Some (0, after_headers e)"
    by (rule write_ps_headers_eq [OF assms(1) len])
  have cb: "cache_bytes e = b" using assms(1) by (simp add: cache_bytes_def)
  have pes: "writePESHeader (length d) sid pts dts x =
      (0, put_bytes (pes_header_bytes (length d) sid pts dts) x)"
    if "can_write x" "es_ids ty x = (sid, pts, dts)" for x sid pts dts
    using ids [OF that(2)] that(1) by (auto simp: writePESHeader_def)
  show ?thesis
    using assms(3) guard noflush w hd cb pes
    by (auto simp: writeESPacket_def write_es_body_def Let_def pes_packet_def put_bytes_def
        option.map_comp comp_def split: prod.splits)
qed

lemma flush_cache_ready:
  "enc_ready e \<Longrightarrow> flush_cache ts f e = (e\<lparr>ps_buf := Some []\<rparr>, [(cache_bytes e, ts, f)])"
  by (auto elim!: enc_readyE simp: flush_cache_def)

lemma enc_ready_upd:
  "enc_ready e \<Longrightarrow> length b \<le> DEFAULT_PS_CACHE \<Longrightarrow> enc_ready (e\<lparr>ps_buf := Some b\<rparr>)"
  by (auto simp: enc_ready_def)

lemma writeESPacket_ready:
  assumes "enc_ready e" "ps_buf e = Some b" "d \<noteq> []" "length b + length d + 128 \<le> DEFAULT_PS_CACHE"
  shows "\<exists>e'. writeESPacket d ty e = Some (0, e', []) \<and> enc_ready e'"
proof -
  have r: "enc_ready (put_bytes (pes_packet sid pts dts d) x)" if "x = e \<or> x = after_headers e"
    for sid pts dts x
  proof -
    have "length (pes_packet sid pts dts d) \<le> 19 + length d"
      using length_pes_header by (simp add: pes_packet_def)
    with assms that show ?thesis
      by (auto simp: enc_ready_def put_bytes_def after_headers_def)
  qed
  show ?thesis
    using assms r by (auto simp: writeESPacket_room enc_ready_def Let_def split: prod.splits)
qed

text \<open>When the rest of the cache is too small, the old contents go out first.\<close>

lemma writeESPacket_flush:
  assumes "enc_ready e" "ps_buf e = Some b" "d \<noteq> []" "length d + 128 \<le> DEFAULT_PS_CACHE"
    "DEFAULT_PS_CACHE < length b + length d + 128"
  shows "\<exists>e'. writeESPacket d ty e = Some (0, e', [(b, m_unAudioTimestamp e, True)]) \<and> enc_ready e'"
proof -
  let ?e = "e\<lparr>ps_buf := Some []\<rparr>"
  have r: "enc_ready ?e" using assms(1) by (simp add: enc_ready_upd)
  from writeESPacket_ready [OF this, of "[]" d ty] assms
  obtain e' where e': "writeESPacket d ty ?e = Some (0, e', [])" "enc_ready e'" by auto
  have "usub32 (m_unBufferSize e) (getWritePos e) < (length d + MAX_PS_HEADER_LEN) mod 2 ^ 32"
    using assms by (auto elim!: enc_readyE simp: usub32_def ps_consts)
  moreover have "\<not> usub32 (m_unBufferSize ?e) (getWritePos ?e) < (length d + MAX_PS_HEADER_LEN) mod 2 ^ 32"
    using assms by (auto elim!: enc_readyE simp: usub32_def ps_consts getWritePos_def)
  moreover have "flush_cache (m_unAudioTimestamp e) True e = (?e, [(b, m_unAudioTimestamp e, True)])"
    using assms(1,2) by (auto elim!: enc_readyE simp: flush_cache_def)
  moreover have "\<not> usub32 (m_unBufferSize e) MAX_PS_HEADER_LEN < length d"
    using assms by (auto elim!: enc_readyE simp: usub32_def ps_consts)
  moreover have "write_es_body d ty [(b, m_unAudioTimestamp e, True)] ?e =
      map_option (\<lambda>(r, y, _). (r, y, [(b, m_unAudioTimestamp e, True)])) (write_es_body d ty [] ?e)"
    by (simp add: write_es_body_def split: option.splits prod.splits)
  ultimately have "writeESPacket d ty e =
      map_option (\<lambda>(r, x, _). (r, x, [(b, m_unAudioTimestamp e, True)])) (writeESPacket d ty ?e)"
    using assms(3) by (simp add: writeESPacket_def)
  with e' show ?thesis by simp
qed

text \<open>
  C4.  \<open>writeESPacket\<close> always returns, accepts exactly the frames that fit the cache next to
  \<open>MAX_PS_HEADER_LEN\<close> bytes of headers, and never writes past the end of the cache: pack header,
  system header, stream map, PES header and data stay inside it, after flushing the old contents
  where that is needed.
\<close>

theorem writeESPacket_in_bounds:
  assumes "enc_ready e" "length d < 2 ^ 32"
  shows "\<exists>r e' ev. writeESPacket d ty e = Some (r, e', ev) \<and>
    (r = 0 \<longleftrightarrow> 0 < length d \<and> length d + MAX_PS_HEADER_LEN \<le> DEFAULT_PS_CACHE) \<and>
    getWritePos e' \<le> DEFAULT_PS_CACHE \<and> enc_ready e'"
proof -
  obtain b where b: "ps_buf e = Some b" "m_unBufferSize e = DEFAULT_PS_CACHE"
    using assms(1) by (auto elim: enc_readyE)
  have pos: "enc_ready e' \<Longrightarrow> getWritePos e' \<le> DEFAULT_PS_CACHE" for e'
    by (auto elim!: enc_readyE)
  consider (bad) "d = [] \<or> DEFAULT_PS_CACHE < length d + 128"
    | (room) "d \<noteq> []" "length b + length d + 128 \<le> DEFAULT_PS_CACHE"
    | (flush) "d \<noteq> []" "length d + 128 \<le> DEFAULT_PS_CACHE"
        "DEFAULT_PS_CACHE < length b + length d + 128"
    by linarith
  then show ?thesis
  proof cases
    case bad
    then have "writeESPacket d ty e = Some (-1, e, [])"
      using b by (auto simp: writeESPacket_def Let_def usub32_def ps_consts)
    with bad assms(1) pos show ?thesis by (auto simp: ps_consts)
  next
    case room
    with writeESPacket_ready [OF assms(1) b(1) room, of ty] pos show ?thesis
      by (auto simp: MAX_PS_HEADER_LEN_def)
  next
    case flush
    with writeESPacket_flush [OF assms(1) b(1) flush, of ty] pos show ?thesis
      by (auto simp: MAX_PS_HEADER_LEN_def)
  qed
qed

definition example_enc :: CMpegPsEnc where
  "example_enc = snd (ps_enc_init True True (CMpegPsEnc_new 0 \<lparr>uVal = 0, upoly = 0, bCRCInit = False\<rparr>))"

lemma example_enc_ready: "enc_ready example_enc" "cache_bytes example_enc = []"
  by (simp_all add: example_enc_def ps_enc_init_def Let_def enc_ready_def cache_bytes_def)

theorem writeESPacket_in_bounds_witness:
  "enc_ready example_enc \<and>
   (\<exists>r e' ev. writeESPacket [0, 0, 0, 1, 0x65] ES_TYPE_VIDEO example_enc = Some (r, e', ev) \<and> r = 0 \<and>
      getWritePos e' \<le> DEFAULT_PS_CACHE)"
proof -
  have "length [0 :: u8, 0, 0, 1, 0x65] < 2 ^ 32" by simp
  from writeESPacket_in_bounds [OF example_enc_ready(1) this, of ES_TYPE_VIDEO] example_enc_ready
  show ?thesis by (auto simp: ps_consts)
qed

section \<open>A whole video frame\<close>

text \<open>The pieces in which \<open>writeVideoEsStream\<close> cuts a frame.\<close>

function vchunks :: "bytes \<Rightarrow> bytes list" where
  "vchunks d = (if length d \<le> 0xffff - 13 then [d] else take pes_chunk d # vchunks (drop pes_chunk d))"
  by pat_completeness auto
termination
  by (relation "measure length") (auto simp: pes_chunk_val)

declare vchunks.simps [simp del]

lemma vchunks_neq_Nil [simp]: "vchunks d \<noteq> []"
  by (subst vchunks.simps) simp

lemma concat_vchunks [simp]: "concat (vchunks d) = d"
  by (induction d rule: vchunks.induct) (subst vchunks.simps, simp)

lemma vchunks_size:
  "d \<noteq> [] \<Longrightarrow> c \<in> set (vchunks d) \<Longrightarrow> c \<noteq> [] \<and> length c \<le> 0xffff - 13"
proof (induction d rule: vchunks.induct)
  case (1 d)
  show ?case
  proof (cases "length d \<le> 0xffff - 13")
    case True
    with 1 show ?thesis by (simp add: vchunks.simps [of d])
  next
    case False
    moreover from False have "drop pes_chunk d \<noteq> []" "take pes_chunk d \<noteq> []"
      "length (take pes_chunk d) \<le> 0xffff - 13"
      by (auto simp: pes_chunk_val)
    ultimately show ?thesis using 1 by (auto simp: vchunks.simps [of d])
  qed
qed

text \<open>One PES packet of a frame: write it into the empty cache and flush the cache.\<close>

definition first_prefix :: "CMpegPsEnc \<Rightarrow> bytes" where
  "first_prefix e =
     (if m_isFirstPES e then ps_prefix (m_ullScr e) (m_unMuxRate e) (psm_cVersion e) else [])"

definition video_step :: "CMpegPsEnc \<Rightarrow> CMpegPsEnc" where
  "video_step e = (if m_isFirstPES e then after_headers e else e)\<lparr>ps_buf := Some []\<rparr>"

definition video_pes :: "CMpegPsEnc \<Rightarrow> bytes \<Rightarrow> bytes" where
  "video_pes e = pes_packet VIDEO_STREAM_ID (m_ullVideoPts e) (m_ullVideoPts e)"

definition enc_idle :: "CMpegPsEnc \<Rightarrow> bool" where
  "enc_idle e \<longleftrightarrow> enc_ready e \<and> ps_buf e = Some []"

lemma video_step_simps [simp]:
  "enc_idle e \<Longrightarrow> enc_idle (video_step e)" "video_pes (video_step e) = video_pes e"
  "m_unVideoTimestamp (video_step e) = m_unVideoTimestamp e" "\<not> m_isFirstPES (video_step e)"
  "first_prefix (video_step e) = []" "enc_idle e \<Longrightarrow> video_step (video_step e) = video_step e"
  "m_ullVideoPts (video_step e) = m_ullVideoPts e"
  by (auto simp: video_step_def enc_idle_def enc_ready_def after_headers_def put_bytes_def
      video_pes_def first_prefix_def)

lemma write_flush:
  assumes "enc_idle e" "d \<noteq> []" "length d \<le> 0xffff - 13"
  obtains e1 where "writeESPacket d ES_TYPE_VIDEO e = Some (0, e1, [])"
    "\<And>f. flush_cache (m_unVideoTimestamp e1) f e1 =
       (video_step e, [(first_prefix e @ video_pes e d, m_unVideoTimestamp e, f)])"
proof -
  define e1 where "e1 = put_bytes (video_pes e d) (if m_isFirstPES e then after_headers e else e)"
  have "writeESPacket d ES_TYPE_VIDEO e = Some (0, e1, [])"
    using assms writeESPacket_room [of e "[]" d ES_TYPE_VIDEO]
    by (auto simp: enc_idle_def enc_ready_def es_ids_def e1_def video_pes_def after_headers_def
        put_bytes_def DEFAULT_PS_CACHE_def)
  moreover have "flush_cache (m_unVideoTimestamp e1) f e1 =
      (video_step e, [(first_prefix e @ video_pes e d, m_unVideoTimestamp e, f)])" for f
    using assms
    by (auto simp: enc_idle_def enc_ready_def e1_def flush_cache_def video_step_def first_prefix_def
        after_headers_def put_bytes_def cache_bytes_def)
  ultimately show ?thesis by (rule that)
qed

lemma video_loop_eq:
  assumes "enc_idle e" "d \<noteq> []"
  shows "\<exists>evs. video_loop d e = Some (0, last (vchunks d),
      (if length (vchunks d) = 1 then e else video_step e), evs) \<and>
    concat (map fst evs) = (if length (vchunks d) = 1 then [] else first_prefix e)
      @ concat (map (video_pes e) (butlast (vchunks d))) \<and>
    map snd evs = replicate (length (vchunks d) - 1) (m_unVideoTimestamp e, False)"
  using assms
proof (induction d arbitrary: e rule: vchunks.induct)
  case (1 d)
  show ?case
  proof (cases "length d \<le> 0xffff - 13")
    case True
    then show ?thesis by (simp add: vchunks.simps [of d] video_loop.simps [of d])
  next
    case False
    have "take pes_chunk d \<noteq> []" "length (take pes_chunk d) \<le> 0xffff - 13"
      and rest: "drop pes_chunk d \<noteq> []"
      using False by (auto simp: pes_chunk_val)
    from write_flush [OF "1.prems"(1) this(1,2)] obtain e1 where
      w: "writeESPacket (take pes_chunk d) ES_TYPE_VIDEO e = Some (0, e1, [])"
      and fl: "\<And>f. flush_cache (m_unVideoTimestamp e1) f e1 = (video_step e,
         [(first_prefix e @ video_pes e (take pes_chunk d), m_unVideoTimestamp e, f)])"
      by blast
    let ?r = "drop pes_chunk d"
    have idle: "enc_idle (video_step e)" using "1.prems"(1) by simp
    have "\<not> length d \<le> 0xffff - 13" using False by simp
    from "1.IH" [OF this idle rest] obtain evs where
      l: "video_loop ?r (video_step e) = Some (0, last (vchunks ?r),
        (if length (vchunks ?r) = 1 then video_step e else video_step (video_step e)), evs)"
      and c: "concat (map fst evs) = concat (map (video_pes e) (butlast (vchunks ?r)))"
      and t: "map snd evs = replicate (length (vchunks ?r) - 1) (m_unVideoTimestamp e, False)"
      by (auto split: if_splits)
    have v: "vchunks d = take pes_chunk d # vchunks ?r"
      using False by (simp add: vchunks.simps [of d])
    have "video_loop d e = Some (0, last (vchunks d), video_step e,
        (first_prefix e @ video_pes e (take pes_chunk d), m_unVideoTimestamp e, False) # evs)"
      using False w fl l "1.prems"(1) by (simp add: video_loop.simps [of d] v)
    moreover have "length (vchunks d) \<noteq> 1" by (simp add: v)
    moreover obtain n where "length (vchunks ?r) = Suc n"
      using vchunks_neq_Nil [of ?r] by (cases "vchunks ?r") simp_all
    ultimately show ?thesis using c t by (simp add: v)
  qed
qed

text \<open>The encoder when the first PES packet of a frame is about to be written.\<close>

definition video_begin :: "bytes \<Rightarrow> u32 \<Rightarrow> u32 \<Rightarrow> CMpegPsEnc \<Rightarrow> CMpegPsEnc" where
  "video_begin d ts now e =
     (let e1 = e\<lparr>m_ullVideoPts := advance_pts (m_unVideoTimestamp e) (m_ullVideoPts e) ts,
                m_unVideoTimestamp := ts\<rparr>
      in (calcEsBitrate now (length d) (e1\<lparr>m_ullScr := max_pts e1\<rparr>))\<lparr>m_isFirstPES := True\<rparr>)"

lemma calcEsBitrate_simps [simp]:
  "ps_buf (calcEsBitrate now n e) = ps_buf e"
  "m_pPsStreamHandle (calcEsBitrate now n e) = m_pPsStreamHandle e"
  "m_unBufferSize (calcEsBitrate now n e) = m_unBufferSize e"
  "m_ullVideoPts (calcEsBitrate now n e) = m_ullVideoPts e"
  "m_unVideoTimestamp (calcEsBitrate now n e) = m_unVideoTimestamp e"
  "m_ullScr (calcEsBitrate now n e) = m_ullScr e"
  "psm_cVersion (calcEsBitrate now n e) = psm_cVersion e"
  by (simp_all add: calcEsBitrate_def Let_def)

lemma video_begin_simps [simp]:
  "enc_idle e \<Longrightarrow> enc_idle (video_begin d ts now e)" "m_isFirstPES (video_begin d ts now e)"
  "m_unVideoTimestamp (video_begin d ts now e) = ts"
  "m_ullVideoPts (video_begin d ts now e) = advance_pts (m_unVideoTimestamp e) (m_ullVideoPts e) ts"
  by (auto simp: video_begin_def Let_def enc_idle_def enc_ready_def)

text \<open>The program stream of a frame.\<close>

definition video_ps :: "CMpegPsEnc \<Rightarrow> bytes \<Rightarrow> bytes" where
  "video_ps e d = first_prefix e @ concat (map (video_pes e) (vchunks d))"

lemma writeVideoEsStream_eq:
  assumes "enc_idle e" "5 \<le> length d"
  shows "\<exists>evs. writeVideoEsStream d ts now e = Some (0, video_step (video_begin d ts now e), evs) \<and>
    concat (map fst evs) = video_ps (video_begin d ts now e) d \<and>
    map snd evs = replicate (length (vchunks d) - 1) (ts, False) @ [(ts, True)]"
proof -
  let ?b = "video_begin d ts now e"
  have d: "d \<noteq> []" using assms(2) by auto
  have b: "enc_idle ?b" using assms(1) by simp
  from video_loop_eq [OF b d] obtain evs where
    l: "video_loop d ?b = Some (0, last (vchunks d),
        (if length (vchunks d) = 1 then ?b else video_step ?b), evs)"
    and c: "concat (map fst evs) = (if length (vchunks d) = 1 then [] else first_prefix ?b)
      @ concat (map (video_pes ?b) (butlast (vchunks d)))"
    and t: "map snd evs = replicate (length (vchunks d) - 1) (ts, False)"
    by auto
  define e4 where "e4 = (if length (vchunks d) = 1 then ?b else video_step ?b)"
  have e4: "enc_idle e4" "video_pes e4 = video_pes ?b" "m_unVideoTimestamp e4 = ts"
    "video_step e4 = video_step ?b"
    using b by (auto simp: e4_def)
  have "last (vchunks d) \<in> set (vchunks d)" by simp
  then have "last (vchunks d) \<noteq> []" "length (last (vchunks d)) \<le> 0xffff - 13"
    using vchunks_size [OF d] by blast+
  from write_flush [OF e4(1) this] obtain e5 where
    w: "writeESPacket (last (vchunks d)) ES_TYPE_VIDEO e4 = Some (0, e5, [])"
    and f: "\<And>f. flush_cache (m_unVideoTimestamp e5) f e5 = (video_step ?b,
       [(first_prefix e4 @ video_pes ?b (last (vchunks d)), ts, f)])"
    unfolding e4 by blast
  have "writeVideoEsStream d ts now e = Some (0, video_step ?b,
      evs @ [(first_prefix e4 @ video_pes ?b (last (vchunks d)), ts, True)])"
    using assms(2) l w f
    by (simp add: writeVideoEsStream_def Let_def video_begin_def e4_def MIN_NALU_SIZE_def)
  moreover have "concat (map fst evs) @ first_prefix e4 @ video_pes ?b (last (vchunks d))
      = video_ps ?b d"
  proof (cases "length (vchunks d) = 1")
    case True
    then have "butlast (vchunks d) = []" by (cases "vchunks d") auto
    with True c show ?thesis
      by (simp add: video_ps_def concat_map_butlast_last [of "vchunks d"] e4_def)
  next
    case False
    with c show ?thesis by (simp add: video_ps_def concat_map_butlast_last [of "vchunks d"] e4_def)
  qed
  ultimately show ?thesis using t by auto
qed

end
