(* ===== verification/MpegPsDec.thy ===== *)
theory MpegPsDec
  imports MpegPsEnc
begin

unbundle bit_operations_syntax

text \<open>
  The MPEG program-stream demultiplexer \<open>CMpegPsDec\<close> (\<open>svs_adapter_mpeg_ps_dec.cpp\<close>).  It walks
  with \<open>m_pCurMediaData\<close> through a packet, strips headers and collects PES payloads in a buffer of
  one megabyte.

  The read pointer is an offset into the packet.  The code bounds its reads by
  \<open>m_ulCurMediaLen\<close>, which is not always the number of bytes left, so the model checks every
  access against the real packet and the real buffer and makes an access outside them the
  outcome \<open>Fault\<close>.  The loop may run forever; it is a \<^theory_text>\<open>partial_function\<close> whose value
  \<^const>\<open>None\<close> is not returning.
\<close>

definition MAX_BUFFER_LEN :: nat where "MAX_BUFFER_LEN = 1024 * 1024"
definition PS_STARTCODE_LEN :: nat where "PS_STARTCODE_LEN = 4"
definition PS_HEAD_LEN :: nat where "PS_HEAD_LEN = 14"
definition SYS_HEAD_LEN_MIN :: nat where "SYS_HEAD_LEN_MIN = 6"
definition PSM_HEAD_LEN_MIN :: nat where "PSM_HEAD_LEN_MIN = 6"
definition PS_STARTCODE_INVAL :: u32 where "PS_STARTCODE_INVAL = 0xFFFFFFFF"
definition PS_STARTCODE :: u32 where "PS_STARTCODE = 0x000001"
definition PACK_START_CODE :: u32 where "PACK_START_CODE = 0x000001ba"
definition SYSTEM_HEADER_START_CODE :: u32 where "SYSTEM_HEADER_START_CODE = 0x000001bb"
definition PROGRAM_STREAM_MAP :: u32 where "PROGRAM_STREAM_MAP = 0x000001bc"
definition PADDING_STREAM :: u32 where "PADDING_STREAM = 0x000001be"
definition PRIVATE_STREAM_2 :: u32 where "PRIVATE_STREAM_2 = 0x000001bf"
definition H264_PES_STREAM_CODE :: u32 where "H264_PES_STREAM_CODE = 0x000001e0"
definition G711_PES_STREAM_CODE :: u32 where "G711_PES_STREAM_CODE = 0x000001c0"

lemmas dec_consts =
  MAX_BUFFER_LEN_def PS_STARTCODE_LEN_def PS_HEAD_LEN_def SYS_HEAD_LEN_MIN_def
  PSM_HEAD_LEN_MIN_def PS_STARTCODE_INVAL_def PS_STARTCODE_def PACK_START_CODE_def
  SYSTEM_HEADER_START_CODE_def PROGRAM_STREAM_MAP_def PADDING_STREAM_def PRIVATE_STREAM_2_def
  H264_PES_STREAM_CODE_def G711_PES_STREAM_CODE_def

text \<open>
  The decoder's pointers and the locals of \<open>writePsStream\<close>: the offset of \<open>m_pCurMediaData\<close>,
  \<open>m_ulCurMediaLen\<close>, the filled part of \<open>pBuffer\<close>, \<open>bFound\<close> and \<open>unStartCode\<close>.
\<close>

record ps_dec =
  m_pCurMediaData :: nat
  m_ulCurMediaLen :: nat
  pBuffer :: bytes
  bFound :: bool
  unStartCode :: u32

text \<open>One step of the loop: go on, return -1, or an access outside the memory.\<close>

datatype dec_res = Next ps_dec | Ret_err ps_dec | Fault

text \<open>
  \<open>getStartCode\<close>: the first three bytes go through a (signed) \<open>char\<close>, the fourth through
  \<open>uint8_t\<close>.  \<^const>\<open>None\<close> is a read behind the packet.
\<close>

definition shift_in :: "u32 \<Rightarrow> u8 \<Rightarrow> u32" where
  "shift_in code c = (push_bit 8 code OR scast c) AND 0xFFFFFF"

definition getStartCode :: "bytes \<Rightarrow> ps_dec \<Rightarrow> u32 option" where
  "getStartCode data d =
     (let i = m_pCurMediaData d in
      if m_ulCurMediaLen d < PS_STARTCODE_LEN then Some PS_STARTCODE_INVAL
      else if length data < i + 3 then None
      else if shift_in (shift_in (shift_in 0 (data ! i)) (data ! (i + 1))) (data ! (i + 2))
                \<noteq> PS_STARTCODE then Some PS_STARTCODE_INVAL
      else if length data < i + 4 then None
      else Some (push_bit 8 PS_STARTCODE OR ucast (data ! (i + 3))))"

definition StripPSHeader :: "bytes \<Rightarrow> ps_dec \<Rightarrow> dec_res" where
  "StripPSHeader data d =
     (if m_ulCurMediaLen d < PS_HEAD_LEN then Ret_err d
      else if length data \<le> m_pCurMediaData d + 13 then Fault
      else
        let unLen = unat (data ! (m_pCurMediaData d + 13) AND 0x07) + PS_HEAD_LEN
        in if m_ulCurMediaLen d < unLen then Ret_err d
           else Next (d\<lparr>m_pCurMediaData := m_pCurMediaData d + unLen,
                        m_ulCurMediaLen := m_ulCurMediaLen d - unLen\<rparr>))"

text \<open>
  \<open>StripSysHeader\<close> and \<open>StripPsmPacket\<close> do the same with their two minimum lengths; the size is
  kept in a \<open>uint16_t\<close>.
\<close>

definition strip_sized :: "nat \<Rightarrow> bytes \<Rightarrow> ps_dec \<Rightarrow> dec_res" where
  "strip_sized minLen data d =
     (if m_ulCurMediaLen d < minLen then Ret_err d
      else if length data \<le> m_pCurMediaData d + 5 then Fault
      else
        let usHeadSize = unat (ntohs (ld16 data (m_pCurMediaData d + 4)) + 2 + 4)
        in if m_ulCurMediaLen d < usHeadSize then Ret_err d
           else Next (d\<lparr>m_pCurMediaData := m_pCurMediaData d + usHeadSize,
                        m_ulCurMediaLen := m_ulCurMediaLen d - usHeadSize\<rparr>))"

definition StripSysHeader :: "bytes \<Rightarrow> ps_dec \<Rightarrow> dec_res" where
  "StripSysHeader = strip_sized SYS_HEAD_LEN_MIN"

definition StripPsmPacket :: "bytes \<Rightarrow> ps_dec \<Rightarrow> dec_res" where
  "StripPsmPacket = strip_sized PSM_HEAD_LEN_MIN"

text \<open>
  \<open>StripPESHeader\<close>: the payload length is computed in \<open>int\<close> and stored in a \<open>uint32_t\<close>.
\<close>

definition StripPESHeader :: "bytes \<Rightarrow> ps_dec \<Rightarrow> dec_res" where
  "StripPESHeader data d =
     (if m_ulCurMediaLen d < PSM_HEAD_LEN_MIN then Ret_err d
      else if length data \<le> m_pCurMediaData d + 8 then Fault
      else
        let usPackLen = unat (ntohs (ld16 data (m_pCurMediaData d + 4)));
            usHeadLen = unat (data ! (m_pCurMediaData d + 8))
        in Next (d\<lparr>m_pCurMediaData := m_pCurMediaData d + (9 + usHeadLen),
                   m_ulCurMediaLen := nat ((int usPackLen - (3 + int usHeadLen)) mod 2 ^ 32)\<rparr>))"

text \<open>Copy the PES payload behind what is already in the buffer.\<close>

definition copy_payload :: "bytes \<Rightarrow> ps_dec \<Rightarrow> dec_res" where
  "copy_payload data d =
     (if length (pBuffer d) < MAX_BUFFER_LEN
      then if length data < m_pCurMediaData d + m_ulCurMediaLen d
              \<or> MAX_BUFFER_LEN < length (pBuffer d) + m_ulCurMediaLen d
           then Fault
           else Next (d\<lparr>pBuffer := pBuffer d
                          @ take (m_ulCurMediaLen d) (drop (m_pCurMediaData d) data),
                        m_pCurMediaData := m_pCurMediaData d + m_ulCurMediaLen d,
                        bFound := True\<rparr>)
      else Next (d\<lparr>bFound := True\<rparr>))"

definition dec_step :: "bytes \<Rightarrow> ps_dec \<Rightarrow> dec_res" where
  "dec_step data d0 =
     (if m_ulCurMediaLen d0 = 0 then Ret_err d0
      else case getStartCode data d0 of
        None \<Rightarrow> Fault
      | Some code \<Rightarrow>
          let d = d0\<lparr>unStartCode := code\<rparr> in
          if code = PACK_START_CODE then StripPSHeader data d
          else if code = SYSTEM_HEADER_START_CODE then StripSysHeader data d
          else if code = PADDING_STREAM then Next d
          else if code = PRIVATE_STREAM_2 then Next d
          else if code = PROGRAM_STREAM_MAP then StripPsmPacket data d
          else if code = H264_PES_STREAM_CODE \<or> code = G711_PES_STREAM_CODE
          then (case StripPESHeader data d of
                  Next d' \<Rightarrow> copy_payload data d'
                | r \<Rightarrow> r)
          else Next (d\<lparr>m_pCurMediaData := m_pCurMediaData d + 1\<rparr>))"

partial_function (option) dec_loop :: "bytes \<Rightarrow> ps_dec \<Rightarrow> dec_res option" where
  "dec_loop data d =
     (if m_pCurMediaData d < length data
      then case dec_step data d of
             Next d' \<Rightarrow> dec_loop data d'
           | Ret_err d' \<Rightarrow> Some (Ret_err d')
           | Fault \<Rightarrow> Some Fault
      else Some (Next d))"

declare dec_loop.simps [code]

text \<open>What \<open>writePsStream\<close> does in the end: return a code, with the elementary stream it delivers.\<close>

datatype es_event = VideoEs bytes u32 | AudioEs bytes u32

datatype dec_outcome = DecRet int "es_event list" | DecFault

definition ps_dec_start :: "bytes \<Rightarrow> ps_dec" where
  "ps_dec_start data = \<lparr>m_pCurMediaData = 0, m_ulCurMediaLen = length data, pBuffer = [],
     bFound = False, unStartCode = PS_STARTCODE_INVAL\<rparr>"

definition dec_finish :: "u32 \<Rightarrow> ps_dec \<Rightarrow> dec_outcome" where
  "dec_finish ts d =
     (if \<not> bFound d then DecRet (-1) []
      else if unStartCode d = H264_PES_STREAM_CODE then DecRet 0 [VideoEs (pBuffer d) ts]
      else if unStartCode d = G711_PES_STREAM_CODE then DecRet 0 [AudioEs (pBuffer d) ts]
      else DecRet (-1) [])"

definition writePsStream :: "bool \<Rightarrow> bytes option \<Rightarrow> u32 \<Rightarrow> dec_outcome option" where
  "writePsStream m_pEsStreamHandle pInData unTimestamp =
     (case pInData of None \<Rightarrow> Some (DecRet (-1) [])
      | Some data \<Rightarrow>
          if \<not> m_pEsStreamHandle then Some (DecRet (-1) [])
          else case dec_loop data (ps_dec_start data) of
              None \<Rightarrow> None
            | Some (Next d) \<Rightarrow> Some (dec_finish unTimestamp d)
            | Some (Ret_err d) \<Rightarrow> Some (DecRet (-1) [])
            | Some Fault \<Rightarrow> Some DecFault)"

section \<open>One header at a time\<close>

lemma drop_at:
  assumes "drop i data = xs" "k < length xs"
  shows "data ! (i + k) = xs ! k" "i + k < length data"
proof -
  from assms have "length xs = length data - i" by auto
  with assms(2) show "i + k < length data" by linarith
  with assms show "data ! (i + k) = xs ! k" by auto
qed

lemma drop4:
  "i + 4 \<le> length xs \<Longrightarrow>
     drop i xs = xs ! i # xs ! (i + 1) # xs ! (i + 2) # xs ! (i + 3) # drop (i + 4) xs"
  by (simp add: Cons_nth_drop_Suc numeral_eq_Suc)

lemma shift_in_start: "shift_in (shift_in (shift_in 0 0) 0) 1 = PS_STARTCODE"
  by (simp add: shift_in_def PS_STARTCODE_def)

definition start_code :: "u8 \<Rightarrow> u32" where
  "start_code c = push_bit 8 PS_STARTCODE OR ucast c"

lemma getStartCode_at:
  assumes "drop (m_pCurMediaData d) data = 0 # 0 # 1 # c # rest" "4 \<le> m_ulCurMediaLen d"
  shows "getStartCode data d = Some (start_code c)"
  using assms(2) drop_at [OF assms(1), of 0] drop_at [OF assms(1), of 1]
    drop_at [OF assms(1), of 2] drop_at [OF assms(1), of 3]
  by (simp add: getStartCode_def Let_def shift_in_start [unfolded One_nat_def] dec_consts
      start_code_def)

lemma start_codes:
  "start_code 0xBA = PACK_START_CODE"
  "start_code 0xBB = SYSTEM_HEADER_START_CODE"
  "start_code 0xBC = PROGRAM_STREAM_MAP"
  "start_code 0xBE = PADDING_STREAM"
  "start_code 0xBF = PRIVATE_STREAM_2"
  "start_code 0xe0 = H264_PES_STREAM_CODE"
  "start_code 0xc0 = G711_PES_STREAM_CODE"
  by (simp_all add: dec_consts start_code_def)

lemma codes_distinct [simp]:
  "SYSTEM_HEADER_START_CODE \<noteq> PACK_START_CODE" "PROGRAM_STREAM_MAP \<noteq> PACK_START_CODE"
  "PROGRAM_STREAM_MAP \<noteq> SYSTEM_HEADER_START_CODE" "PROGRAM_STREAM_MAP \<noteq> PADDING_STREAM"
  "PROGRAM_STREAM_MAP \<noteq> PRIVATE_STREAM_2" "H264_PES_STREAM_CODE \<noteq> PACK_START_CODE"
  "H264_PES_STREAM_CODE \<noteq> SYSTEM_HEADER_START_CODE" "H264_PES_STREAM_CODE \<noteq> PADDING_STREAM"
  "H264_PES_STREAM_CODE \<noteq> PRIVATE_STREAM_2" "H264_PES_STREAM_CODE \<noteq> PROGRAM_STREAM_MAP"
  "G711_PES_STREAM_CODE \<noteq> PACK_START_CODE"
  "G711_PES_STREAM_CODE \<noteq> SYSTEM_HEADER_START_CODE" "G711_PES_STREAM_CODE \<noteq> PADDING_STREAM"
  "G711_PES_STREAM_CODE \<noteq> PRIVATE_STREAM_2" "G711_PES_STREAM_CODE \<noteq> PROGRAM_STREAM_MAP"
  "PADDING_STREAM \<noteq> PACK_START_CODE" "PADDING_STREAM \<noteq> SYSTEM_HEADER_START_CODE"
  "PRIVATE_STREAM_2 \<noteq> PACK_START_CODE" "PRIVATE_STREAM_2 \<noteq> SYSTEM_HEADER_START_CODE"
  "PRIVATE_STREAM_2 \<noteq> PADDING_STREAM" "G711_PES_STREAM_CODE \<noteq> H264_PES_STREAM_CODE"
  by (simp_all add: dec_consts)

lemmas codes_distinct_sym [simp] = codes_distinct [symmetric]

text \<open>
  The decoder stands in front of a block: the block and what follows it are the rest of the
  packet, and \<open>m_ulCurMediaLen\<close> counts at least the block.
\<close>

definition at_block :: "bytes \<Rightarrow> ps_dec \<Rightarrow> bytes \<Rightarrow> bytes \<Rightarrow> bool" where
  "at_block data d blk rest \<longleftrightarrow>
     drop (m_pCurMediaData d) data = blk @ rest \<and> length blk \<le> m_ulCurMediaLen d"

definition skip_to :: "nat \<Rightarrow> u32 \<Rightarrow> ps_dec \<Rightarrow> ps_dec" where
  "skip_to n code d = d\<lparr>m_pCurMediaData := m_pCurMediaData d + n,
     m_ulCurMediaLen := m_ulCurMediaLen d - n, unStartCode := code\<rparr>"

lemma dec_step_pack:
  assumes "at_block data d (ps_header_bytes scr mux) rest"
  shows "dec_step data d = Next (skip_to 14 PACK_START_CODE d)"
proof -
  have h: "drop (m_pCurMediaData d) data = 0 # 0 # 1 # 0xBA # drop 4 (ps_header_bytes scr mux) @ rest"
    and l: "14 \<le> m_ulCurMediaLen d"
    using assms by (simp_all add: at_block_def ps_header_bytes_def)
  have "ps_header_bytes scr mux ! 13 = 0xf8" by (simp add: ps_header_bytes_def)
  then have "data ! (m_pCurMediaData d + 13) = 0xf8" "m_pCurMediaData d + 13 < length data"
    using drop_at [of "m_pCurMediaData d" data "ps_header_bytes scr mux @ rest" 13] assms
    by (simp_all add: at_block_def nth_append)
  then show ?thesis
    using getStartCode_at [OF h] l
    by (simp add: dec_step_def start_codes StripPSHeader_def PS_HEAD_LEN_def skip_to_def)
qed

lemma strip_sized_at:
  assumes "at_block data d blk rest" "minLen = 6" "6 \<le> length blk"
    "unat (ntohs (ld16 blk 4) + 2 + 4) = length blk"
  shows "strip_sized minLen data d = Next (d\<lparr>m_pCurMediaData := m_pCurMediaData d + length blk,
     m_ulCurMediaLen := m_ulCurMediaLen d - length blk\<rparr>)"
proof -
  have dr: "drop (m_pCurMediaData d) data = blk @ rest" and l: "length blk \<le> m_ulCurMediaLen d"
    using assms(1) by (simp_all add: at_block_def)
  have "ld16 data (m_pCurMediaData d + 4) = ld16 blk 4"
    using drop_at [OF dr, of 4] drop_at [OF dr, of 5] assms(3)
    by (simp add: ld16_def nth_append add.commute [of 5])
  with drop_at(2) [OF dr, of 5] l assms show ?thesis
    by (simp add: strip_sized_def Let_def)
qed

lemma dec_step_sys:
  assumes "at_block data d (sys_header_bytes mux) rest"
  shows "dec_step data d = Next (skip_to 12 SYSTEM_HEADER_START_CODE d)"
proof -
  have h: "drop (m_pCurMediaData d) data = 0 # 0 # 1 # 0xBB # drop 4 (sys_header_bytes mux) @ rest"
    and l: "12 \<le> m_ulCurMediaLen d"
    using assms by (simp_all add: at_block_def sys_header_bytes_def)
  have "ld16 (sys_header_bytes mux) 4 = 0x0600" by (simp add: ld16_def sys_header_bytes_def)
  then have u: "unat (ntohs (ld16 (sys_header_bytes mux) 4) + 2 + 4) = 12"
    by (simp add: ntohs_def)
  have "at_block data (d\<lparr>unStartCode := c\<rparr>) (sys_header_bytes mux) rest" for c
    using assms by (simp add: at_block_def)
  from strip_sized_at [OF this, of SYS_HEAD_LEN_MIN] u
  show ?thesis
    using getStartCode_at [OF h] l
    by (simp add: dec_step_def start_codes StripSysHeader_def SYS_HEAD_LEN_MIN_def skip_to_def)
qed

lemma dec_step_psm:
  assumes "at_block data d (psm_body ver @ le32 crc) rest"
  shows "dec_step data d = Next (skip_to 24 PROGRAM_STREAM_MAP d)"
proof -
  let ?b = "psm_body ver @ le32 crc"
  have h: "drop (m_pCurMediaData d) data = 0 # 0 # 1 # 0xBC # drop 4 ?b @ rest"
    and l: "24 \<le> m_ulCurMediaLen d"
    using assms by (simp_all add: at_block_def psm_body_def)
  have "ld16 ?b 4 = 0x1200" by (simp add: ld16_def psm_body_def)
  then have u: "unat (ntohs (ld16 ?b 4) + 2 + 4) = 24"
    by (simp add: ntohs_def)
  have "at_block data (d\<lparr>unStartCode := c\<rparr>) ?b rest" for c
    using assms by (simp add: at_block_def)
  from strip_sized_at [OF this, of PSM_HEAD_LEN_MIN] u
  show ?thesis
    using getStartCode_at [OF h] l
    by (simp add: dec_step_def start_codes StripPsmPacket_def PSM_HEAD_LEN_MIN_def skip_to_def)
qed

text \<open>A PES packet of the encoder, and the decoder's state after it.\<close>

lemma pes_header_fields:
  fixes n :: nat and sid :: u8 and pts dts :: u64
  assumes "n \<le> 0xffff - 13" "pts \<noteq> INVALID_TIMESTAMP \<or> dts = INVALID_TIMESTAMP"
  defines "h \<equiv> pes_header_bytes n sid pts dts"
  shows "take 4 h = [0, 0, 1, sid]" "9 \<le> length h"
    "int (unat (ntohs (ld16 h 4))) - (3 + int (unat (h ! 8))) = int n"
    "length h = 9 + unat (h ! 8)"
proof -
  define ext where "ext = (if pts \<noteq> INVALID_TIMESTAMP then 5 else 0)
    + (if dts \<noteq> INVALID_TIMESTAMP then 5 else (0 :: nat))"
  have ext: "ext \<le> 10" by (simp add: ext_def)
  define usLen :: u16 where "usLen = of_nat (3 + ext + n)"
  have hb: "ucast (GET_BITS usLen 8 15) = (ucast (drop_bit 8 usLen) :: u8)"
    "ucast (GET_BITS usLen 0 7) = (ucast usLen :: u8)"
    by (rule bit_word_eqI; auto simp: GET_BITS_def bit_simps)+
  have h: "h = [0, 0, 1, sid, ucast (drop_bit 8 usLen), ucast usLen, 0x80, h ! 7, of_nat ext] @ drop 9 h"
    and lh: "length h = 9 + ext"
    using assms(2) unfolding hb [symmetric]
    by (auto simp: h_def pes_header_bytes_def Let_def usLen_def ext_def)
  show "take 4 h = [0, 0, 1, sid]" by (subst h) simp
  show "9 \<le> length h" using lh by simp
  have 8: "unat (h ! 8) = ext" using ext by (subst h) (simp add: unat_of_nat)
  have "ld16 h 4 = ntohs usLen"
    by (subst h, simp add: ld16_def ntohs_def)
      (rule bit_word_eqI, auto simp: bit_simps dest: bit_imp_le_length)
  then have "unat (ntohs (ld16 h 4)) = 3 + ext + n"
    using assms(1) ext by (simp add: usLen_def unat_of_nat del: of_nat_add)
  then show "int (unat (ntohs (ld16 h 4))) - (3 + int (unat (h ! 8))) = int n"
    using 8 by simp
  show "length h = 9 + unat (h ! 8)" using lh 8 by simp
qed

lemma dec_step_pes:
  fixes pts dts :: u64
  assumes "drop (m_pCurMediaData d) data = pes_packet sid pts dts p @ rest"
    "6 \<le> m_ulCurMediaLen d" "length p \<le> 0xffff - 13"
    "pts \<noteq> INVALID_TIMESTAMP \<or> dts = INVALID_TIMESTAMP"
    "start_code sid = H264_PES_STREAM_CODE \<or> start_code sid = G711_PES_STREAM_CODE"
    "length (pBuffer d) < MAX_BUFFER_LEN" "length (pBuffer d) + length p \<le> MAX_BUFFER_LEN"
  shows "dec_step data d = Next (d\<lparr>m_pCurMediaData := m_pCurMediaData d + length (pes_packet sid pts dts p),
     m_ulCurMediaLen := length p, pBuffer := pBuffer d @ p, bFound := True,
     unStartCode := start_code sid\<rparr>)"
proof -
  define h where "h = pes_header_bytes (length p) sid pts dts"
  note f = pes_header_fields [OF assms(3,4), of sid, folded h_def]
  let ?i = "m_pCurMediaData d"
  have dr: "drop ?i data = h @ p @ rest" using assms(1) by (simp add: pes_packet_def h_def)
  have "h = take 4 h @ drop 4 h" by simp
  then have start: "drop ?i data = 0 # 0 # 1 # sid # drop 4 h @ p @ rest"
    using dr f(1) by (metis append_Cons append_Nil append_assoc)
  have "ld16 data (?i + 4) = ld16 h 4"
    using drop_at(1) [OF dr, of 4] drop_at(1) [OF dr, of 5] f(2)
    by (simp add: ld16_def nth_append add.commute [of 5])
  moreover have "data ! (?i + 8) = h ! 8" "?i + 8 < length data"
    using drop_at [OF dr, of 8] f(2) by (simp_all add: nth_append)
  ultimately have strip: "StripPESHeader data (d\<lparr>unStartCode := c\<rparr>) = Next (d\<lparr>m_pCurMediaData := ?i + length h,
      m_ulCurMediaLen := length p, unStartCode := c\<rparr>)" for c
    using assms(2,3) f(3,4)
    by (simp add: StripPESHeader_def PSM_HEAD_LEN_MIN_def Let_def)
  have "length data - ?i = length h + length p + length rest"
    using arg_cong [OF dr, of length] by simp
  moreover have "?i \<le> length data" using drop_at(2) [OF dr, of 8] f(2) by simp
  ultimately have fit: "?i + length h + length p \<le> length data" by linarith
  have "drop (?i + length h) data = p @ rest" using dr by (metis append_eq_conv_conj drop_drop add.commute)
  then have pay: "take (length p) (drop (?i + length h) data) = p" by simp
  have code: "start_code sid \<noteq> PACK_START_CODE" "start_code sid \<noteq> SYSTEM_HEADER_START_CODE"
    "start_code sid \<noteq> PADDING_STREAM" "start_code sid \<noteq> PRIVATE_STREAM_2"
    "start_code sid \<noteq> PROGRAM_STREAM_MAP"
    using assms(5) by auto
  show ?thesis
    using getStartCode_at [OF start] assms(2,5,6,7) strip code fit pay
    by (simp add: dec_step_def Let_def copy_payload_def pes_packet_def h_def add.assoc)
qed

section \<open>The loop on an encoded stream\<close>

lemma dec_loop_Next:
  "m_pCurMediaData d < length data \<Longrightarrow> dec_step data d = Next d' \<Longrightarrow>
     dec_loop data d = dec_loop data d'"
  by (simp add: dec_loop.simps [of data d])

lemma dec_loop_end: "length data \<le> m_pCurMediaData d \<Longrightarrow> dec_loop data d = Some (Next d)"
  by (simp add: dec_loop.simps)

lemma at_block_less: "at_block data d blk rest \<Longrightarrow> blk \<noteq> [] \<Longrightarrow> m_pCurMediaData d < length data"
  using drop_at(2) [of "m_pCurMediaData d" data "blk @ rest" 0] by (simp add: at_block_def)

lemma dec_loop_prefix:
  assumes "drop (m_pCurMediaData d) data = ps_prefix scr mux ver @ rest" "56 \<le> m_ulCurMediaLen d"
  shows "\<exists>d'. dec_loop data d = dec_loop data d' \<and> drop (m_pCurMediaData d') data = rest \<and>
    6 \<le> m_ulCurMediaLen d' \<and> pBuffer d' = pBuffer d"
proof -
  let ?psm = "psm_body ver @ le32 (crc_mpeg2 (psm_body ver))"
  let ?d1 = "skip_to 14 PACK_START_CODE d"
  let ?d2 = "skip_to 12 SYSTEM_HEADER_START_CODE ?d1"
  let ?d3 = "skip_to 24 PROGRAM_STREAM_MAP ?d2"
  have b1: "at_block data d (ps_header_bytes scr mux) (sys_header_bytes mux @ ?psm @ rest)"
    using assms by (simp add: at_block_def ps_prefix_def)
  have adv: "drop (m_pCurMediaData (skip_to n c x)) data = r"
    if "drop (m_pCurMediaData x) data = b @ r" "length b = n" for b r n c x
  proof -
    have "drop (m_pCurMediaData x + n) data = drop n (drop (m_pCurMediaData x) data)"
      by (simp add: add.commute)
    with that show ?thesis by (simp add: skip_to_def)
  qed
  have b2: "at_block data ?d1 (sys_header_bytes mux) (?psm @ rest)"
    using adv [of d "ps_header_bytes scr mux" "sys_header_bytes mux @ ?psm @ rest" 14] b1 assms(2)
    by (simp add: at_block_def) (simp add: skip_to_def)
  have b3: "at_block data ?d2 ?psm rest"
    using adv [of ?d1 "sys_header_bytes mux" "?psm @ rest" 12] b2 assms(2)
    by (simp add: at_block_def) (simp add: skip_to_def)
  have "dec_loop data d = dec_loop data ?d1"
    using dec_loop_Next [OF at_block_less [OF b1] dec_step_pack [OF b1]]
    by (simp add: ps_header_bytes_def)
  also have "\<dots> = dec_loop data ?d2"
    using dec_loop_Next [OF at_block_less [OF b2] dec_step_sys [OF b2]]
    by (simp add: sys_header_bytes_def)
  also have "\<dots> = dec_loop data ?d3"
    using dec_loop_Next [OF at_block_less [OF b3] dec_step_psm [OF b3]]
    by (simp add: psm_body_def)
  finally have "dec_loop data d = dec_loop data ?d3" .
  moreover have "drop (m_pCurMediaData ?d3) data = rest"
    using adv [of ?d2 ?psm rest 24] b3 by (simp add: at_block_def)
  ultimately show ?thesis
    using assms(2) by (intro exI [of _ ?d3]) (simp add: skip_to_def)
qed

lemma dec_loop_pes:
  fixes pts dts :: u64
  assumes "drop (m_pCurMediaData d) data = concat (map (pes_packet sid pts dts) cs)" "cs \<noteq> []"
    "6 \<le> m_ulCurMediaLen d" "\<And>c. c \<in> set cs \<Longrightarrow> c \<noteq> [] \<and> length c \<le> 0xffff - 13"
    "\<And>c. c \<in> set (butlast cs) \<Longrightarrow> 6 \<le> length c"
    "pts \<noteq> INVALID_TIMESTAMP \<or> dts = INVALID_TIMESTAMP"
    "start_code sid = H264_PES_STREAM_CODE \<or> start_code sid = G711_PES_STREAM_CODE"
    "length (pBuffer d) + length (concat cs) \<le> MAX_BUFFER_LEN"
  shows "\<exists>d'. dec_loop data d = Some (Next d') \<and> pBuffer d' = pBuffer d @ concat cs \<and> bFound d' \<and>
    unStartCode d' = start_code sid"
  using assms(1-5,8)
proof (induction cs arbitrary: d)
  case (Cons c cs)
  let ?p = "pes_packet sid pts dts c"
  let ?d1 = "d\<lparr>m_pCurMediaData := m_pCurMediaData d + length ?p,
     m_ulCurMediaLen := length c, pBuffer := pBuffer d @ c, bFound := True,
     unStartCode := start_code sid\<rparr>"
  have dr: "drop (m_pCurMediaData d) data = ?p @ concat (map (pes_packet sid pts dts) cs)"
    using Cons.prems(1) by simp
  have c: "0 < length c" "length c \<le> 0xffff - 13" using Cons.prems(4) by auto
  have "length (pBuffer d) < MAX_BUFFER_LEN" "length (pBuffer d) + length c \<le> MAX_BUFFER_LEN"
    using Cons.prems(6) c(1) unfolding concat.simps length_append by linarith+
  from dec_step_pes [OF dr Cons.prems(3) c(2) assms(6,7) this]
  have "dec_step data d = Next ?d1" .
  moreover have lt: "m_pCurMediaData d < length data"
    using drop_at(2) [OF dr, of 0] c by (simp add: pes_packet_def)
  ultimately have step: "dec_loop data d = dec_loop data ?d1" by (intro dec_loop_Next)
  have "drop (m_pCurMediaData ?d1) data = drop (length ?p) (drop (m_pCurMediaData d) data)"
    by (simp add: add.commute)
  then have dr1: "drop (m_pCurMediaData ?d1) data = concat (map (pes_packet sid pts dts) cs)"
    using dr by simp
  show ?case
  proof (cases "cs = []")
    case True
    then show ?thesis using step dr1 dec_loop_end [of data ?d1] by auto
  next
    case False
    have "\<exists>d'. dec_loop data ?d1 = Some (Next d') \<and> pBuffer d' = pBuffer ?d1 @ concat cs \<and> bFound d' \<and>
      unStartCode d' = start_code sid"
      using False Cons.prems(4-6) by (intro Cons.IH [OF dr1 False]) auto
    with step show ?thesis by auto
  qed
qed simp

text \<open>The headers and PES packets of one elementary-stream frame.\<close>

lemma writePsStream_frame:
  fixes pts dts :: u64
  assumes "cs \<noteq> []" "\<And>c. c \<in> set cs \<Longrightarrow> c \<noteq> [] \<and> length c \<le> 0xffff - 13"
    "\<And>c. c \<in> set (butlast cs) \<Longrightarrow> 6 \<le> length c"
    "pts \<noteq> INVALID_TIMESTAMP \<or> dts = INVALID_TIMESTAMP" "length (concat cs) \<le> MAX_BUFFER_LEN"
    "start_code sid = H264_PES_STREAM_CODE \<or> start_code sid = G711_PES_STREAM_CODE"
  shows "\<exists>d. writePsStream True (Some (ps_prefix scr mux ver @ concat (map (pes_packet sid pts dts) cs))) ts
      = Some (dec_finish ts d) \<and> pBuffer d = concat cs \<and> bFound d \<and> unStartCode d = start_code sid"
proof -
  let ?rest = "concat (map (pes_packet sid pts dts) cs)"
  let ?data = "ps_prefix scr mux ver @ ?rest"
  obtain c cs' where cs: "cs = c # cs'" using assms(1) by (cases cs) auto
  have "9 \<le> length (pes_packet sid pts dts c)"
    using pes_header_fields(2) [of "length c" pts dts sid] assms(2,4) cs by (simp add: pes_packet_def)
  then have len: "56 \<le> length ?data" using cs by simp
  obtain d1 where d1: "dec_loop ?data (ps_dec_start ?data) = dec_loop ?data d1"
    "drop (m_pCurMediaData d1) ?data = ?rest" "6 \<le> m_ulCurMediaLen d1" "pBuffer d1 = []"
    using dec_loop_prefix [of "ps_dec_start ?data" ?data scr mux ver ?rest] len
    by (auto simp: ps_dec_start_def)
  have "\<exists>d'. dec_loop ?data d1 = Some (Next d') \<and> pBuffer d' = pBuffer d1 @ concat cs \<and> bFound d' \<and>
    unStartCode d' = start_code sid"
    using assms d1(3,4) by (intro dec_loop_pes [OF d1(2)]) auto
  with d1 show ?thesis by (auto simp: writePsStream_def)
qed

lemma butlast_vchunks: "c \<in> set (butlast (vchunks d)) \<Longrightarrow> length c = pes_chunk"
proof (induction d rule: vchunks.induct)
  case (1 d)
  then show ?case
    by (cases "length d \<le> 0xffff - 13") (auto simp: vchunks.simps [of d] pes_chunk_val)
qed

lemma ps_video_roundtrip_aux:
  assumes "enc_idle e" "MIN_NALU_SIZE \<le> length d" "length d \<le> MAX_BUFFER_LEN"
  shows "\<exists>e' evs. writeVideoEsStream d ts now e = Some (0, e', evs) \<and> enc_idle e' \<and>
    writePsStream True (Some (concat (map fst evs))) ts' = Some (DecRet 0 [VideoEs d ts'])"
proof -
  let ?b = "video_begin d ts now e"
  have d: "d \<noteq> []" "5 \<le> length d" using assms(2) by (auto simp: MIN_NALU_SIZE_def)
  obtain evs where w: "writeVideoEsStream d ts now e = Some (0, video_step ?b, evs)"
    "concat (map fst evs) = video_ps ?b d"
    using writeVideoEsStream_eq [OF assms(1) d(2)] by blast
  have ps: "video_ps ?b d = ps_prefix (m_ullScr ?b) (m_unMuxRate ?b) (psm_cVersion ?b)
      @ concat (map (pes_packet 0xe0 (m_ullVideoPts ?b) (m_ullVideoPts ?b)) (vchunks d))"
    by (simp add: video_ps_def first_prefix_def video_pes_def VIDEO_STREAM_ID_def)
  have "\<exists>x. writePsStream True (Some (video_ps ?b d)) ts' = Some (dec_finish ts' x) \<and>
      pBuffer x = concat (vchunks d) \<and> bFound x \<and> unStartCode x = start_code 0xe0"
    unfolding ps using assms(3) vchunks_size [OF d(1)]
    by (intro writePsStream_frame) (auto simp: start_codes dest!: butlast_vchunks simp: pes_chunk_val)
  with w assms(1) show ?thesis by (auto simp: dec_finish_def start_codes)
qed

text \<open>
  C5.  Multiplexing and demultiplexing a video frame gives the frame back: whatever state the encoder
  is in between two frames, what \<open>writeVideoEsStream\<close> hands to its callback for a frame of up to
  one megabyte is a program stream from which \<open>writePsStream\<close> returns exactly this frame, also when the
  frame is split over many PES packets.
\<close>

theorem ps_video_roundtrip:
  assumes "enc_idle e" "MIN_NALU_SIZE \<le> length d" "length d \<le> MAX_BUFFER_LEN"
  shows "\<exists>e' evs. writeVideoEsStream d ts now e = Some (0, e', evs) \<and> enc_idle e' \<and>
    writePsStream True (Some (concat (map fst evs))) ts' = Some (DecRet 0 [VideoEs d ts'])"
  using assms by (rule ps_video_roundtrip_aux)

theorem ps_video_roundtrip_witness:
  "enc_idle example_enc \<and>
   (\<exists>e' evs. writeVideoEsStream (replicate 70000 7) 90 1 example_enc = Some (0, e', evs) \<and>
      writePsStream True (Some (concat (map fst evs))) 90
        = Some (DecRet 0 [VideoEs (replicate 70000 7) 90]))"
proof -
  have i: "enc_idle example_enc"
    using example_enc_ready by (auto simp: enc_idle_def elim!: enc_readyE)
  have "MIN_NALU_SIZE \<le> length (replicate 70000 (7 :: u8))"
    "length (replicate 70000 (7 :: u8)) \<le> MAX_BUFFER_LEN"
    by (simp_all add: MIN_NALU_SIZE_def MAX_BUFFER_LEN_def)
  from ps_video_roundtrip [OF i this] i show ?thesis by blast
qed

lemma writeAudioEsStream_eq:
  assumes "enc_idle e" "d \<noteq> []" "length d \<le> 0xffff - 13"
  shows "\<exists>e' scr mux ver pts. writeAudioEsStream d ts now e = Some (0, e',
      [(ps_prefix scr mux ver @ pes_packet AUDIO_STREAM_ID pts INVALID_TIMESTAMP d, ts, True)]) \<and>
    enc_idle e'"
proof -
  define e3 where "e3 = (let e1 = e\<lparr>m_ullAudioPts := advance_pts (m_unAudioTimestamp e) (m_ullAudioPts e) ts,
                 m_unAudioTimestamp := ts\<rparr>;
          e2 = calcEsBitrate now (length d) e1
      in e2\<lparr>m_ullScr := max_pts e2, m_isFirstPES := True\<rparr>)"
  define e4 where "e4 = put_bytes (pes_packet AUDIO_STREAM_ID (m_ullAudioPts e3) INVALID_TIMESTAMP d)
    (after_headers e3)"
  have e3: "ps_buf e3 = Some []" "m_unBufferSize e3 = DEFAULT_PS_CACHE" "m_isFirstPES e3"
    "m_pPsStreamHandle e3" "m_unAudioTimestamp e3 = ts"
    using assms(1) by (auto simp: e3_def Let_def enc_idle_def enc_ready_def calcEsBitrate_def)
  then have w: "writeESPacket d ES_TYPE_AUDIO e3 = Some (0, e4, [])"
    using assms(2,3) writeESPacket_room [of e3 "[]" d ES_TYPE_AUDIO]
    by (simp add: es_ids_def e4_def DEFAULT_PS_CACHE_def after_headers_def put_bytes_def)
  have "flush_cache (m_unAudioTimestamp e4) True e4 = (e4\<lparr>ps_buf := Some []\<rparr>,
      [(ps_prefix (m_ullScr e3) (m_unMuxRate e3) (psm_cVersion e3)
        @ pes_packet AUDIO_STREAM_ID (m_ullAudioPts e3) INVALID_TIMESTAMP d, ts, True)])"
    using e3 by (simp add: e4_def after_headers_def put_bytes_def flush_cache_def cache_bytes_def)
  with w have "writeAudioEsStream d ts now e = Some (0, e4\<lparr>ps_buf := Some []\<rparr>,
      [(ps_prefix (m_ullScr e3) (m_unMuxRate e3) (psm_cVersion e3)
        @ pes_packet AUDIO_STREAM_ID (m_ullAudioPts e3) INVALID_TIMESTAMP d, ts, True)])"
    by (simp add: writeAudioEsStream_def e3_def Let_def)
  moreover have "enc_idle (e4\<lparr>ps_buf := Some []\<rparr>)"
    using e3 by (simp add: enc_idle_def enc_ready_def e4_def after_headers_def put_bytes_def)
  ultimately show ?thesis by blast
qed

text \<open>
  The same for an audio frame, which \<open>writeAudioEsStream\<close> does not split: every frame that
  fits the 16-bit length of one PES packet comes back from the demultiplexer as audio.
\<close>

theorem ps_audio_roundtrip:
  assumes "enc_idle e" "d \<noteq> []" "length d \<le> 0xffff - 13"
  shows "\<exists>e' ps. writeAudioEsStream d ts now e = Some (0, e', [(ps, ts, True)]) \<and> enc_idle e' \<and>
    writePsStream True (Some ps) ts' = Some (DecRet 0 [AudioEs d ts'])"
proof -
  obtain e' scr mux ver pts where w: "writeAudioEsStream d ts now e = Some (0, e',
      [(ps_prefix scr mux ver @ pes_packet 0xc0 pts INVALID_TIMESTAMP d, ts, True)])" "enc_idle e'"
    using writeAudioEsStream_eq [OF assms] unfolding AUDIO_STREAM_ID_def by blast
  have "\<exists>x. writePsStream True (Some (ps_prefix scr mux ver
        @ concat (map (pes_packet 0xc0 pts INVALID_TIMESTAMP) [d]))) ts' = Some (dec_finish ts' x) \<and>
      pBuffer x = concat [d] \<and> bFound x \<and> unStartCode x = start_code 0xc0"
    using assms by (intro writePsStream_frame) (auto simp: start_codes MAX_BUFFER_LEN_def)
  then show ?thesis
    using w by (auto simp: dec_finish_def start_codes)
qed

theorem ps_audio_roundtrip_witness:
  "enc_idle example_enc \<and>
   (\<exists>e' ps. writeAudioEsStream (replicate 320 0xd5) 8000 1 example_enc = Some (0, e', [(ps, 8000, True)]) \<and>
      writePsStream True (Some ps) 8000 = Some (DecRet 0 [AudioEs (replicate 320 0xd5) 8000]))"
proof -
  have i: "enc_idle example_enc"
    using example_enc_ready by (auto simp: enc_idle_def elim!: enc_readyE)
  have "replicate 320 (0xd5 :: u8) \<noteq> []" "length (replicate 320 (0xd5 :: u8)) \<le> 0xffff - 13"
    by simp_all
  from ps_audio_roundtrip [OF i this] i show ?thesis by blast
qed

section \<open>When the loop ends\<close>

text \<open>
  A position where the decoder does not move: a padding or private stream, or a system header or
  stream map whose length makes the 16-bit header size zero.
\<close>

definition stuck_at :: "bytes \<Rightarrow> nat \<Rightarrow> bool" where
  "stuck_at data i \<longleftrightarrow> i + 4 \<le> length data \<and> data ! i = 0 \<and> data ! (i + 1) = 0 \<and> data ! (i + 2) = 1 \<and>
     (data ! (i + 3) \<in> {0xBE, 0xBF} \<or>
      data ! (i + 3) \<in> {0xBB, 0xBC} \<and> i + 6 \<le> length data \<and> ntohs (ld16 data (i + 4)) = 0xFFFA)"

lemma bit_shift_in:
  "bit (shift_in code c) n \<longleftrightarrow> n < 24 \<and> (8 \<le> n \<and> bit code (n - 8) \<or> bit c (min n 7))"
proof -
  have m: "(0xFFFFFF :: u32) = mask 24" by (simp add: mask_eq_exp_minus_1)
  show ?thesis
    unfolding shift_in_def m by (auto simp: bit_simps min_def not_less le_less_Suc_eq)
qed

lemma shift_in_PS_STARTCODE:
  assumes "shift_in (shift_in (shift_in 0 a) b) c = PS_STARTCODE"
  shows "a = 0 \<and> b = 0 \<and> c = 1"
proof -
  have e: "bit (shift_in (shift_in (shift_in 0 a) b) c) n \<longleftrightarrow> n = 0" for n
    unfolding assms by (simp add: PS_STARTCODE_def bit_1_iff)
  have c: "bit c n \<longleftrightarrow> n = 0" if "n < 8" for n
    using e [of n] that by (auto simp: bit_shift_in min_def not_le le_less_Suc_eq numeral_eq_Suc)
  have b: "\<not> bit b n" if "n < 8" for n
    using e [of "n + 8"] that by (auto simp: bit_shift_in min_def not_le le_less_Suc_eq numeral_eq_Suc)
  have a: "\<not> bit a n" if "n < 8" for n
    using e [of "n + 16"] that by (auto simp: bit_shift_in min_def not_le le_less_Suc_eq numeral_eq_Suc)
  have "c = 1" by (rule bit_word_eqI) (auto simp: c bit_1_iff)
  moreover have "b = 0" by (rule bit_word_eqI) (auto simp: b)
  moreover have "a = 0" by (rule bit_word_eqI) (auto simp: a)
  ultimately show ?thesis by simp
qed

text \<open>At every other position a step that goes on moves the decoder forward.\<close>

lemma getStartCode_bytes:
  assumes "getStartCode data d = Some code" "code \<noteq> PS_STARTCODE_INVAL"
  shows "m_pCurMediaData d + 4 \<le> length data \<and> data ! m_pCurMediaData d = 0 \<and>
    data ! (m_pCurMediaData d + 1) = 0 \<and> data ! (m_pCurMediaData d + 2) = 1 \<and>
    code = start_code (data ! (m_pCurMediaData d + 3))"
  using assms
  by (auto simp: getStartCode_def Let_def start_code_def split: if_splits dest!: shift_in_PS_STARTCODE)

lemma start_code_inj: "start_code a = start_code b \<longleftrightarrow> a = b"
proof
  assume e: "start_code a = start_code b"
  have s: "bit (start_code x) n \<longleftrightarrow> bit x n" if "n < 8" for x n
    using that by (simp add: start_code_def bit_simps)
  show "a = b"
  proof (rule bit_word_eqI)
    fix n assume "n < LENGTH(8)"
    then have "n < 8" by simp
    with s [of n a] s [of n b] e show "bit a n = bit b n" by simp
  qed
qed simp

lemma strip_sized_moves:
  assumes "strip_sized n data d = Next d'" "n = 6"
  shows "m_pCurMediaData d < m_pCurMediaData d' \<or>
    m_pCurMediaData d + 6 \<le> length data \<and> ntohs (ld16 data (m_pCurMediaData d + 4)) = 0xFFFA"
proof (rule disjCI)
  let ?l = "ntohs (ld16 data (m_pCurMediaData d + 4))"
  assume "\<not> (m_pCurMediaData d + 6 \<le> length data \<and> ?l = 0xFFFA)"
  then have "?l + 2 + 4 \<noteq> 0"
    using assms by (auto simp: strip_sized_def Let_def add_eq_0_iff split: if_splits)
  then have "0 < unat (?l + 2 + 4)" by (metis unat_gt_0)
  then show "m_pCurMediaData d < m_pCurMediaData d'"
    using assms by (auto simp: strip_sized_def Let_def split: if_splits)
qed

lemma dec_step_moves:
  assumes "dec_step data d = Next d'" "\<not> stuck_at data (m_pCurMediaData d)"
  shows "m_pCurMediaData d < m_pCurMediaData d'"
proof -
  let ?i = "m_pCurMediaData d"
  obtain code where g: "getStartCode data d = Some code"
    using assms(1) by (auto simp: dec_step_def split: if_splits option.splits)
  let ?d = "d\<lparr>unStartCode := code\<rparr>"
  have at: "?i + 4 \<le> length data \<and> data ! ?i = 0 \<and> data ! (?i + 1) = 0 \<and> data ! (?i + 2) = 1 \<and>
      data ! (?i + 3) = c" if "code = start_code c" "start_code c \<noteq> PS_STARTCODE_INVAL" for c
    using getStartCode_bytes [OF g] that by (auto simp: start_code_inj)
  have hdr: "start_code 0xBB \<noteq> PS_STARTCODE_INVAL" "start_code 0xBC \<noteq> PS_STARTCODE_INVAL"
    "start_code 0xBE \<noteq> PS_STARTCODE_INVAL" "start_code 0xBF \<noteq> PS_STARTCODE_INVAL"
    by (simp_all add: start_code_def dec_consts)
  have no_pad: "code \<noteq> PADDING_STREAM" "code \<noteq> PRIVATE_STREAM_2"
    using at hdr assms(2) by (auto simp: start_codes [symmetric] stuck_at_def)
  have sized: "?i < m_pCurMediaData d'"
    if "strip_sized 6 data ?d = Next d'" "code = start_code 0xBB \<or> code = start_code 0xBC"
    using that(2)
  proof
    assume "code = start_code 0xBB"
    from at [OF this hdr(1)] strip_sized_moves [OF that(1)] assms(2)
    show ?thesis by (auto simp: stuck_at_def)
  next
    assume "code = start_code 0xBC"
    from at [OF this hdr(2)] strip_sized_moves [OF that(1)] assms(2)
    show ?thesis by (auto simp: stuck_at_def)
  qed
  consider (pack) "code = PACK_START_CODE" | (sys) "code = SYSTEM_HEADER_START_CODE"
    | (psm) "code = PROGRAM_STREAM_MAP"
    | (pes) "code = H264_PES_STREAM_CODE \<or> code = G711_PES_STREAM_CODE"
    | (other) "code \<noteq> PACK_START_CODE" "code \<noteq> SYSTEM_HEADER_START_CODE" "code \<noteq> PROGRAM_STREAM_MAP"
        "code \<noteq> H264_PES_STREAM_CODE" "code \<noteq> G711_PES_STREAM_CODE"
    by blast
  then show ?thesis
  proof cases
    case pack
    with g assms(1) show ?thesis
      by (auto simp: dec_step_def StripPSHeader_def Let_def PS_HEAD_LEN_def split: if_splits)
  next
    case sys
    with g assms(1) have "strip_sized 6 data ?d = Next d'"
      by (auto simp: dec_step_def StripSysHeader_def SYS_HEAD_LEN_MIN_def split: if_splits)
    with sys sized show ?thesis by (simp add: start_codes)
  next
    case psm
    with g assms(1) have "strip_sized 6 data ?d = Next d'"
      by (auto simp: dec_step_def StripPsmPacket_def PSM_HEAD_LEN_MIN_def split: if_splits)
    with psm sized show ?thesis by (simp add: start_codes)
  next
    case pes
    with g assms(1) show ?thesis
      by (auto simp: dec_step_def StripPESHeader_def copy_payload_def Let_def
          split: if_splits dec_res.splits)
  next
    case other
    with g assms(1) no_pad show ?thesis by (auto simp: dec_step_def Let_def split: if_splits)
  qed
qed

lemma dec_loop_returns:
  assumes "\<And>i. \<not> stuck_at data i"
  shows "\<exists>r. dec_loop data d = Some r"
proof (induction "length data - m_pCurMediaData d" arbitrary: d rule: less_induct)
  case less
  show ?case
  proof (cases "m_pCurMediaData d < length data")
    case True
    show ?thesis
    proof (cases "dec_step data d")
      case (Next d')
      with dec_step_moves [OF this assms] True less show ?thesis
        by (simp add: dec_loop.simps [of data d])
    qed (simp_all add: dec_loop.simps [of data d])
  qed (simp add: dec_loop.simps [of data d])
qed

lemma dec_loop_hangs:
  assumes "stuck_at data (m_pCurMediaData d)" "6 \<le> m_ulCurMediaLen d"
  shows "dec_loop data d = None"
proof -
  have "\<not> (stuck_at data (m_pCurMediaData d) \<and> 6 \<le> m_ulCurMediaLen d)"
    if "dec_loop data d = Some y" for y
  proof (rule dec_loop.raw_induct [OF _ that, where P = "\<lambda>data d y.
      \<not> (stuck_at data (m_pCurMediaData d) \<and> 6 \<le> m_ulCurMediaLen d)"])
    fix f data d y
    assume IH: "\<And>data d y. f data d = Some y \<Longrightarrow>
        \<not> (stuck_at data (m_pCurMediaData d) \<and> 6 \<le> m_ulCurMediaLen d)"
      and body: "(if m_pCurMediaData d < length data
         then case dec_step data d of Next d' \<Rightarrow> f data d' | Ret_err d' \<Rightarrow> Some (Ret_err d')
           | Fault \<Rightarrow> Some Fault else Some (Next d)) = Some y"
    show "\<not> (stuck_at data (m_pCurMediaData d) \<and> 6 \<le> m_ulCurMediaLen d)"
    proof
      assume st: "stuck_at data (m_pCurMediaData d) \<and> 6 \<le> m_ulCurMediaLen d"
      let ?i = "m_pCurMediaData d"
      define c where "c = data ! (?i + 3)"
      have "drop ?i data = 0 # 0 # 1 # c # drop (?i + 4) data"
        using st drop4 [of ?i data] by (simp add: stuck_at_def c_def)
      with st have g: "getStartCode data d = Some (start_code c)"
        by (intro getStartCode_at) auto
      have "dec_step data d = Next (d\<lparr>unStartCode := start_code c\<rparr>)"
        using st g by (auto simp: dec_step_def stuck_at_def c_def [symmetric] start_codes StripSysHeader_def
            StripPsmPacket_def strip_sized_def Let_def SYS_HEAD_LEN_MIN_def PSM_HEAD_LEN_MIN_def)
      moreover have "?i < length data" using st by (auto simp: stuck_at_def)
      ultimately have "f data (d\<lparr>unStartCode := start_code c\<rparr>) = Some y"
        using body by simp
      then have "\<not> (stuck_at data (m_pCurMediaData (d\<lparr>unStartCode := start_code c\<rparr>)) \<and>
          6 \<le> m_ulCurMediaLen (d\<lparr>unStartCode := start_code c\<rparr>))"
        by (rule IH)
      with st show False by simp
    qed
  qed
  with assms show ?thesis by (cases "dec_loop data d") auto
qed

lemma writePsStream_returns:
  assumes "\<forall>i < length data. \<not> stuck_at data i"
  shows "\<exists>r. writePsStream h (Some data) ts = Some r"
proof -
  have "\<not> stuck_at data i" for i
    using assms by (cases "i < length data") (auto simp: stuck_at_def)
  then obtain r where "dec_loop data (ps_dec_start data) = Some r"
    using dec_loop_returns by blast
  then show ?thesis by (auto simp: writePsStream_def split: dec_res.splits)
qed

section \<open>Program streams of complete blocks\<close>

text \<open>
  A program stream as a list of blocks: pack headers with their stuffing, system headers and stream
  maps, and PES packets of the two stream ids the decoder knows, each complete and with a length
  field that is right.  Nothing is said about the order of the blocks or about their contents.
\<close>

datatype ps_block = HeaderBlock bytes | PesBlock bytes bytes


definition block_bytes :: "ps_block \<Rightarrow> bytes" where
  "block_bytes blk = (case blk of HeaderBlock b \<Rightarrow> b | PesBlock h p \<Rightarrow> h @ p)"

definition block_payload :: "ps_block \<Rightarrow> bytes" where
  "block_payload blk = (case blk of HeaderBlock b \<Rightarrow> [] | PesBlock h p \<Rightarrow> p)"





definition block_code :: "ps_block \<Rightarrow> u32" where
  "block_code blk = start_code (block_bytes blk ! 3)"

lemma block_simps [simp]:
  "block_bytes (HeaderBlock b) = b" "block_bytes (PesBlock h p) = h @ p"
  "block_payload (HeaderBlock b) = []" "block_payload (PesBlock h p) = p"
  "block_code (HeaderBlock b) = start_code (b ! 3)"
  "3 < length h \<Longrightarrow> block_code (PesBlock h p) = start_code (h ! 3)"
  by (simp_all add: block_bytes_def block_payload_def block_code_def nth_append)










text \<open>
  C7.  On a packet that begins with such a position the loop of \<open>writePsStream\<close> never ends:
  neither the \<open>PADDING_STREAM\<close> and \<open>PRIVATE_STREAM_2\<close> cases nor a header size of zero move the read
  pointer.
\<close>

theorem writePsStream_hangs:
  assumes "stuck_at data 0" "6 \<le> length data"
  shows "writePsStream True (Some data) ts = None"
  using dec_loop_hangs [of data "ps_dec_start data"] assms
  by (simp add: writePsStream_def ps_dec_start_def)

theorem writePsStream_hangs_witness:
  "stuck_at [0, 0, 1, 0xBE, 0, 2, 0xFF, 0xFF] 0 \<and>
   writePsStream True (Some [0, 0, 1, 0xBE, 0, 2, 0xFF, 0xFF]) 0 = None"
proof -
  have a: "stuck_at [0, 0, 1, 0xBE, 0, 2, 0xFF, 0xFF] 0" by (simp add: stuck_at_def)
  with writePsStream_hangs [OF a] show ?thesis by simp
qed

end
