(* ===== verification/PsRtpEncap.thy ===== *)
theory PsRtpEncap
  imports RtpSegment MpegPsDec
begin

unbundle bit_operations_syntax

text \<open>
  \<open>CPsRtpEncap\<close> (\<open>svs_adapter_ps_rtp_encap.cpp\<close>): it multiplexes H.264 and G.711 frames into a
  program stream with its \<open>CMpegPsEnc\<close> and, as the callback of that encoder, slices the stream
  into RTP packets, which it hands to its own callback.  The packets handed over are collected in
  order.
\<close>

definition STREAM_MSG_BLOCK_SIZE :: nat where "STREAM_MSG_BLOCK_SIZE = 2 * 1024"
definition PS_RTP_PAYLOAD_TYPE :: u8 where "PS_RTP_PAYLOAD_TYPE = 96"

record CPsRtpEncap =
  m_pRtpHandle :: bool
  m_MpegPsEncap :: CMpegPsEnc
  m_RtpBuffer :: bytes
  m_usRtpSeq :: u16

definition CPsRtpEncap_new :: "u8 \<Rightarrow> crc_state \<Rightarrow> CPsRtpEncap" where
  "CPsRtpEncap_new ver crc = \<lparr>m_pRtpHandle = False, m_MpegPsEncap = CMpegPsEnc_new ver crc,
     m_RtpBuffer = replicate STREAM_MSG_BLOCK_SIZE 0, m_usRtpSeq = 0\<rparr>"

text \<open>\<open>init\<close>: the handle, whether the encoder's \<open>new\<close> succeeds, the value of \<open>rand\<close>.\<close>

definition ps_encap_init :: "bool \<Rightarrow> bool \<Rightarrow> u16 \<Rightarrow> CPsRtpEncap \<Rightarrow> retcode \<times> CPsRtpEncap" where
  "ps_encap_init pHandle alloc_ok rnd x =
     (if \<not> pHandle then (RET_FAIL, x)
      else
        let x1 = x\<lparr>m_pRtpHandle := True\<rparr>
        in case ps_enc_init True alloc_ok (m_MpegPsEncap x1) of (r, enc) \<Rightarrow>
             let x2 = x1\<lparr>m_MpegPsEncap := enc\<rparr>
             in if r \<noteq> 0 then (RET_FAIL, x2) else (RET_OK, x2\<lparr>m_usRtpSeq := rnd\<rparr>))"

text \<open>The slicing loop over the bytes left, with the packet object on \<open>m_RtpBuffer\<close>.\<close>

function ps_slices ::
  "u32 \<Rightarrow> bool \<Rightarrow> bytes \<Rightarrow> CRtpPacket \<Rightarrow> u16 \<Rightarrow> bytes list \<times> CRtpPacket \<times> u16" where
  "ps_slices ts endFlag left p seq =
     (if left = [] then ([], p, seq)
      else
        let maxSize = MAX_ENCAP_RTP_SIZE - RTP_FIXED_HEADER_SIZE;
            isLast = (length left \<le> maxSize);
            unCopySize = (if isLast then length left else maxSize);
            p1 = slice_packet PS_RTP_PAYLOAD_TYPE seq ts 999999999 (isLast \<and> endFlag)
                   (take unCopySize left) p;
            pkt = take (unCopySize + RTP_FIXED_HEADER_SIZE) (rtp_bytes p1)
        in case ps_slices ts endFlag (drop unCopySize left) p1 (seq + 1) of
             (pkts, p2, seq2) \<Rightarrow> (pkt # pkts, p2, seq2))"
  by pat_completeness auto
termination
  by (relation "measure (\<lambda>(ts, f, left, p, seq). length left)") (auto simp: MAX_ENCAP_RTP_SIZE_def)

declare ps_slices.simps [simp del]

definition handlePsStream ::
  "bytes option \<Rightarrow> u32 \<Rightarrow> bool \<Rightarrow> CPsRtpEncap \<Rightarrow> CPsRtpEncap \<times> bytes list" where
  "handlePsStream pPSData ts endFlag x =
     (case pPSData of None \<Rightarrow> (x, [])
      | Some d \<Rightarrow>
          if d = [] then (x, [])
          else if \<not> m_pRtpHandle x then (x, [])
          else case ps_slices ts endFlag d
                      (snd (GeneratePacket (Some (m_RtpBuffer x)) CRtpPacket_new)) (m_usRtpSeq x) of
                 (pkts, p, seq) \<Rightarrow> (x\<lparr>m_RtpBuffer := rtp_bytes p, m_usRtpSeq := seq\<rparr>, pkts))"

text \<open>The encoder's calls of the callback, one after the other.\<close>

fun handle_ps_events :: "ps_event list \<Rightarrow> CPsRtpEncap \<Rightarrow> CPsRtpEncap \<times> bytes list" where
  "handle_ps_events [] x = (x, [])"
| "handle_ps_events ((d, ts, f) # evs) x =
     (case handlePsStream (Some d) ts f x of (x1, pkts1) \<Rightarrow>
        case handle_ps_events evs x1 of (x2, pkts2) \<Rightarrow> (x2, pkts1 @ pkts2))"

text \<open>\<^const>\<open>None\<close>: a call of the encoder does not return.\<close>

definition insert_frame ::
  "(bytes \<Rightarrow> u32 \<Rightarrow> u32 \<Rightarrow> CMpegPsEnc \<Rightarrow> (int \<times> CMpegPsEnc \<times> ps_event list) option) \<Rightarrow>
   bytes option \<Rightarrow> u32 \<Rightarrow> u32 \<Rightarrow> CPsRtpEncap \<Rightarrow> (retcode \<times> CPsRtpEncap \<times> bytes list) option" where
  "insert_frame write pData ts now x =
     (case pData of None \<Rightarrow> Some (RET_FAIL, x, [])
      | Some d \<Rightarrow>
          if d = [] then Some (RET_FAIL, x, [])
          else case write d ts now (m_MpegPsEncap x) of
                 None \<Rightarrow> None
               | Some (r, enc, evs) \<Rightarrow>
                   (case handle_ps_events evs (x\<lparr>m_MpegPsEncap := enc\<rparr>) of (x1, pkts) \<Rightarrow>
                      Some (if r \<noteq> 0 then RET_FAIL else RET_OK, x1, pkts)))"

definition insertVideoFrame ::
  "bytes option \<Rightarrow> u32 \<Rightarrow> u32 \<Rightarrow> CPsRtpEncap \<Rightarrow> (retcode \<times> CPsRtpEncap \<times> bytes list) option" where
  "insertVideoFrame = insert_frame writeVideoEsStream"

definition insertAudioFrame ::
  "bytes option \<Rightarrow> u32 \<Rightarrow> u32 \<Rightarrow> CPsRtpEncap \<Rightarrow> (retcode \<times> CPsRtpEncap \<times> bytes list) option" where
  "insertAudioFrame = insert_frame writeAudioEsStream"

definition ps_encap_release :: "CPsRtpEncap \<Rightarrow> CPsRtpEncap \<times> bytes list" where
  "ps_encap_release x =
     (case ps_enc_release (m_MpegPsEncap x) of (enc, evs) \<Rightarrow>
        handle_ps_events evs (x\<lparr>m_MpegPsEncap := enc\<rparr>))"

section \<open>The packetiser is a segmenter\<close>

text \<open>An encapsulator after \<open>init\<close>, between two frames.\<close>

definition encap_ready :: "CPsRtpEncap \<Rightarrow> bool" where
  "encap_ready x \<longleftrightarrow> m_pRtpHandle x \<and> length (m_RtpBuffer x) = STREAM_MSG_BLOCK_SIZE"

text \<open>The packets of one call as a function of sequence number and data.\<close>

function ps_packets :: "bool \<Rightarrow> u32 \<Rightarrow> u16 \<Rightarrow> bytes \<Rightarrow> bytes list" where
  "ps_packets f ts s d =
     (if d = [] then []
      else encode_packet (simple_header (f \<and> length d \<le> 1406) 96 s ts 999999999) (take 1406 d)
        # ps_packets f ts (s + 1) (drop 1406 d))"
  by pat_completeness auto
termination
  by (relation "measure (\<lambda>(f, ts, s, d). length d)") auto

declare ps_packets.simps [simp del]

lemma ps_slices_eq:
  assumes "packet_on STREAM_MSG_BLOCK_SIZE p"
  shows "\<exists>p'. ps_slices ts f d p s = (ps_packets f ts s d, p', s + of_nat (length (ps_packets f ts s d)))
    \<and> packet_on STREAM_MSG_BLOCK_SIZE p'"
  using assms
proof (induction ts f d p s rule: ps_slices.induct)
  case (1 ts f d p s)
  show ?case
  proof (cases "d = []")
    case True
    with 1 show ?thesis by (simp add: ps_slices.simps [of ts f "[]"] ps_packets.simps [of f ts s "[]"])
  next
    case False
    let ?n = "if length d \<le> 1406 then length d else 1406"
    let ?p1 = "slice_packet 96 s ts 999999999 (length d \<le> 1406 \<and> f) (take ?n d) p"
    have m: "MAX_ENCAP_RTP_SIZE - RTP_FIXED_HEADER_SIZE = 1406" by (simp add: MAX_ENCAP_RTP_SIZE_def)
    have t: "take ?n d = take 1406 d" "drop ?n d = drop 1406 d" "12 + length (take 1406 d) = ?n + 12"
      by auto
    have sl: "packet_on STREAM_MSG_BLOCK_SIZE ?p1"
      "take (?n + 12) (rtp_bytes ?p1) =
         encode_packet (simple_header (f \<and> length d \<le> 1406) 96 s ts 999999999) (take 1406 d)"
      using slice_packet [OF "1.prems", of "take 1406 d" 96 s ts 999999999 "f \<and> length d \<le> 1406"]
      by (cases "length d \<le> 1406"; simp add: STREAM_MSG_BLOCK_SIZE_def add.commute [of 12])+
    obtain p' where "ps_slices ts f (drop ?n d) ?p1 (s + 1) =
        (ps_packets f ts (s + 1) (drop ?n d), p', s + 1 + of_nat (length (ps_packets f ts (s + 1) (drop ?n d))))"
      "packet_on STREAM_MSG_BLOCK_SIZE p'"
      using "1.IH" [OF False refl refl refl refl refl, unfolded m PS_RTP_PAYLOAD_TYPE_def, OF sl(1)] by blast
    then show ?thesis
      using False sl(2)
      by (cases "length d \<le> 1406") (simp_all add: ps_slices.simps [of ts f d]
          ps_packets.simps [of f ts s d] Let_def MAX_ENCAP_RTP_SIZE_def PS_RTP_PAYLOAD_TYPE_def)
  qed
qed

lemma handlePsStream_eq:
  assumes "encap_ready x"
  shows "\<exists>x'. handlePsStream (Some d) ts f x = (x', ps_packets f ts (m_usRtpSeq x) d) \<and>
    encap_ready x' \<and> m_MpegPsEncap x' = m_MpegPsEncap x \<and>
    m_usRtpSeq x' = m_usRtpSeq x + of_nat (length (ps_packets f ts (m_usRtpSeq x) d))"
proof (cases "d = []")
  case True
  with assms show ?thesis by (simp add: handlePsStream_def ps_packets.simps)
next
  case False
  have "packet_on STREAM_MSG_BLOCK_SIZE (snd (GeneratePacket (Some (m_RtpBuffer x)) CRtpPacket_new))"
    using packet_on_generate [of "m_RtpBuffer x" CRtpPacket_new] assms
    by (simp add: encap_ready_def STREAM_MSG_BLOCK_SIZE_def)
  from ps_slices_eq [OF this, of ts f d "m_usRtpSeq x"] False assms show ?thesis
    by (auto simp: handlePsStream_def encap_ready_def packet_on_def rtp_bytes_def)
qed

definition encap_start :: "u16 \<Rightarrow> CPsRtpEncap" where
  "encap_start s = snd (ps_encap_init True True s
     (CPsRtpEncap_new 0 \<lparr>uVal = 0, upoly = 0, bCRCInit = False\<rparr>))"

lemma encap_start [simp]:
  "encap_ready (encap_start s)" "m_usRtpSeq (encap_start s) = s"
  "enc_idle (m_MpegPsEncap (encap_start s))"
  by (simp_all add: encap_start_def ps_encap_init_def ps_enc_init_def CPsRtpEncap_new_def
      encap_ready_def enc_idle_def enc_ready_def)

definition sent_packets :: "bool \<Rightarrow> u32 \<Rightarrow> u16 \<Rightarrow> bytes \<Rightarrow> bytes list" where
  "sent_packets f ts s d = snd (handlePsStream (Some d) ts f (encap_start s))"

lemma sent_packets_eq: "sent_packets f ts s d = ps_packets f ts s d"
  using handlePsStream_eq [OF encap_start(1), of d ts f s] by (auto simp: sent_packets_def)

interpretation psseg: rtp_segmenter "sent_packets f ts" 1406 96 ts 999999999 f for f ts
  by unfold_locales (simp_all add: sent_packets_eq ps_packets.simps)

text \<open>Every encapsulator sends these packets, whatever its buffer holds.\<close>

lemma handlePsStream_sent:
  assumes "encap_ready x"
  obtains x' where "handlePsStream (Some d) ts f x = (x', sent_packets f ts (m_usRtpSeq x) d)"
    "encap_ready x'" "m_MpegPsEncap x' = m_MpegPsEncap x"
    "m_usRtpSeq x' = m_usRtpSeq x + of_nat (length (sent_packets f ts (m_usRtpSeq x) d))"
  using handlePsStream_eq [OF assms, of d ts f] unfolding sent_packets_eq by blast

text \<open>
  Slicing a program stream loses and reorders nothing: the payloads of the RTP packets that
  \<open>handlePsStream\<close> hands over are, one after the other, the stream; the packets are as few as
  possible and none exceeds \<open>MAX_ENCAP_RTP_SIZE\<close>; the sequence number afterwards is the next one.
\<close>

theorem handlePsStream_payload:
  assumes "encap_ready x"
  shows "\<exists>x' pkts. handlePsStream (Some d) ts f x = (x', pkts) \<and> encap_ready x' \<and>
    concat (map (drop RTP_FIXED_HEADER_SIZE) pkts) = d \<and>
    (\<forall>pkt \<in> set pkts. length pkt \<le> MAX_ENCAP_RTP_SIZE) \<and>
    length pkts = (length d + 1405) div 1406 \<and>
    m_usRtpSeq x' = m_usRtpSeq x + of_nat (length pkts)"
proof -
  obtain x' where x': "handlePsStream (Some d) ts f x = (x', sent_packets f ts (m_usRtpSeq x) d)"
    "encap_ready x'" "m_usRtpSeq x' = m_usRtpSeq x + of_nat (length (sent_packets f ts (m_usRtpSeq x) d))"
    using handlePsStream_sent [OF assms] by blast
  have "\<forall>pkt \<in> set (sent_packets f ts (m_usRtpSeq x) d). length pkt \<le> MAX_ENCAP_RTP_SIZE"
    using psseg.seg_size [of _ f ts "m_usRtpSeq x" d] by (auto simp: MAX_ENCAP_RTP_SIZE_def)
  with x' show ?thesis
    using psseg.seg_payload [of f ts "m_usRtpSeq x" d] psseg.seg_count [of f ts "m_usRtpSeq x" d] by simp
qed

theorem handlePsStream_payload_witness:
  "encap_ready (encap_start 0xFFFF) \<and>
   (\<exists>x' pkts. handlePsStream (Some (replicate 1500 3)) 7 True (encap_start 0xFFFF) = (x', pkts) \<and>
      concat (map (drop RTP_FIXED_HEADER_SIZE) pkts) = replicate 1500 3 \<and> length pkts = 2 \<and>
      m_usRtpSeq x' = 1)"
proof -
  have l: "length (replicate 1500 (3 :: u8)) = 1500" by (rule length_replicate)
  show ?thesis
    using handlePsStream_payload [OF encap_start(1), of "replicate 1500 3" 7 True "0xFFFF"] unfolding l
    by (auto simp del: replicate.simps)
qed

text \<open>
  A receiver that parses the packets of one slicing finds in each the PS payload type, the
  time stamp, the fixed SSRC and consecutive sequence numbers (modulo \<open>2 ^ 16\<close>), and the marker on
  the last packet of the last slice of a frame only.
\<close>

theorem handlePsStream_headers:
  assumes "encap_ready x" "handlePsStream (Some d) ts f x = (x', pkts)" "k < length pkts"
  shows "\<exists>p. ParsePacket (Some (pkts ! k)) CRtpPacket_new = (RET_OK, p) \<and>
    GetPayloadType p = PS_RTP_PAYLOAD_TYPE \<and> GetSeqNum p = m_usRtpSeq x + of_nat k \<and>
    GetTimeStamp p = ts \<and> GetSSRC p = 999999999 \<and> GetHeadLen p = RTP_FIXED_HEADER_SIZE \<and>
    (GetMarker p \<longleftrightarrow> f \<and> k = length pkts - 1)"
proof -
  have "pkts = sent_packets f ts (m_usRtpSeq x) d"
    using handlePsStream_sent [OF assms(1), of d ts f] assms(2) by auto
  with psseg.seg_parse [of k f ts "m_usRtpSeq x" d] assms(3) show ?thesis
    by (simp add: PS_RTP_PAYLOAD_TYPE_def)
qed

theorem handlePsStream_headers_witness:
  "\<exists>x' pkts p. handlePsStream (Some [1, 2, 3]) 7 True (encap_start 9) = (x', pkts) \<and> 0 < length pkts \<and>
     ParsePacket (Some (pkts ! 0)) CRtpPacket_new = (RET_OK, p) \<and> GetSeqNum p = 9 \<and> GetTimeStamp p = 7"
proof -
  obtain x' pkts where h: "handlePsStream (Some [1, 2, 3]) 7 True (encap_start 9) = (x', pkts)"
    by (rule prod.exhaust)
  have "pkts = sent_packets True 7 9 [1, 2, 3]" using h by (simp add: sent_packets_def)
  then have l: "0 < length pkts" by (simp add: psseg.seg_count)
  from handlePsStream_headers [OF encap_start(1) h l] h l show ?thesis by auto
qed

section \<open>A frame through encoder and packetiser\<close>

lemma handle_ps_events_payload:
  "encap_ready x \<Longrightarrow> \<exists>x' pkts. handle_ps_events evs x = (x', pkts) \<and> encap_ready x' \<and>
     m_MpegPsEncap x' = m_MpegPsEncap x \<and>
     concat (map (drop 12) pkts) = concat (map fst evs) \<and>
     m_usRtpSeq x' = m_usRtpSeq x + of_nat (length pkts) \<and>
     (\<forall>pkt \<in> set pkts. pkt \<noteq> [] \<and> length pkt \<le> MAX_ENCAP_RTP_SIZE)"
proof (induction evs arbitrary: x)
  case (Cons ev evs)
  obtain d ts f where ev: "ev = (d, ts, f)" by (rule prod_cases3)
  obtain x1 where x1: "handlePsStream (Some d) ts f x = (x1, sent_packets f ts (m_usRtpSeq x) d)"
    "encap_ready x1" "m_MpegPsEncap x1 = m_MpegPsEncap x"
    "m_usRtpSeq x1 = m_usRtpSeq x + of_nat (length (sent_packets f ts (m_usRtpSeq x) d))"
    using handlePsStream_sent [OF Cons.prems] by blast
  from Cons.IH [OF x1(2)] obtain x2 pkts where
    "handle_ps_events evs x1 = (x2, pkts)" "encap_ready x2" "m_MpegPsEncap x2 = m_MpegPsEncap x1"
    "concat (map (drop 12) pkts) = concat (map fst evs)"
    "m_usRtpSeq x2 = m_usRtpSeq x1 + of_nat (length pkts)"
    "\<forall>pkt \<in> set pkts. pkt \<noteq> [] \<and> length pkt \<le> MAX_ENCAP_RTP_SIZE"
    by blast
  moreover have "pkt \<noteq> [] \<and> length pkt \<le> MAX_ENCAP_RTP_SIZE"
    if "pkt \<in> set (sent_packets f ts (m_usRtpSeq x) d)" for pkt
    using psseg.seg_size [OF that] by (auto simp: MAX_ENCAP_RTP_SIZE_def)
  ultimately show ?case
    using x1 psseg.seg_payload [of f ts "m_usRtpSeq x" d] by (auto simp: ev)
qed simp

lemma insertVideoFrame_decodes_aux:
  assumes "encap_ready x" "enc_idle (m_MpegPsEncap x)" "MIN_NALU_SIZE \<le> length d"
    "length d \<le> MAX_BUFFER_LEN"
  shows "\<exists>x' pkts. insertVideoFrame (Some d) ts now x = Some (RET_OK, x', pkts) \<and>
    encap_ready x' \<and> enc_idle (m_MpegPsEncap x') \<and>
    m_usRtpSeq x' = m_usRtpSeq x + of_nat (length pkts) \<and>
    writePsStream True (Some (concat (map (drop RTP_FIXED_HEADER_SIZE) pkts))) ts'
      = Some (DecRet 0 [VideoEs d ts']) \<and>
    (\<forall>pkt \<in> set pkts. pkt \<noteq> [] \<and> length pkt \<le> MAX_ENCAP_RTP_SIZE)"
proof -
  obtain enc evs where w: "writeVideoEsStream d ts now (m_MpegPsEncap x) = Some (0, enc, evs)"
    "enc_idle enc" "writePsStream True (Some (concat (map fst evs))) ts' = Some (DecRet 0 [VideoEs d ts'])"
    using ps_video_roundtrip_aux [OF assms(2-4)] by blast
  have "encap_ready (x\<lparr>m_MpegPsEncap := enc\<rparr>)" using assms(1) by (simp add: encap_ready_def)
  from handle_ps_events_payload [OF this, of evs] obtain x' pkts where
    "handle_ps_events evs (x\<lparr>m_MpegPsEncap := enc\<rparr>) = (x', pkts)" "encap_ready x'"
    "m_MpegPsEncap x' = enc" "concat (map (drop 12) pkts) = concat (map fst evs)"
    "m_usRtpSeq x' = m_usRtpSeq x + of_nat (length pkts)"
    "\<forall>pkt \<in> set pkts. pkt \<noteq> [] \<and> length pkt \<le> MAX_ENCAP_RTP_SIZE"
    by auto
  moreover have "d \<noteq> []" using assms(3) by (auto simp: MIN_NALU_SIZE_def)
  ultimately show ?thesis
    using w by (simp add: insertVideoFrame_def insert_frame_def)
qed

text \<open>
  C8.  End to end: for a video frame of up to one megabyte \<open>insertVideoFrame\<close> succeeds, leaves the
  encapsulator ready for the next frame, and the payloads of the RTP packets it sends, put together
  and given to the program-stream decoder, are this frame again.
\<close>

theorem insertVideoFrame_decodes:
  assumes "encap_ready x" "enc_idle (m_MpegPsEncap x)" "MIN_NALU_SIZE \<le> length d"
    "length d \<le> MAX_BUFFER_LEN"
  shows "\<exists>x' pkts. insertVideoFrame (Some d) ts now x = Some (RET_OK, x', pkts) \<and>
    encap_ready x' \<and> enc_idle (m_MpegPsEncap x') \<and>
    m_usRtpSeq x' = m_usRtpSeq x + of_nat (length pkts) \<and>
    writePsStream True (Some (concat (map (drop RTP_FIXED_HEADER_SIZE) pkts))) ts'
      = Some (DecRet 0 [VideoEs d ts'])"
  using insertVideoFrame_decodes_aux [OF assms, of ts now ts'] by blast

theorem insertVideoFrame_decodes_witness:
  "encap_ready (encap_start 5) \<and> enc_idle (m_MpegPsEncap (encap_start 5)) \<and>
   (\<exists>x' pkts. insertVideoFrame (Some (replicate 3000 9)) 90 1 (encap_start 5) = Some (RET_OK, x', pkts) \<and>
      writePsStream True (Some (concat (map (drop RTP_FIXED_HEADER_SIZE) pkts))) 90
        = Some (DecRet 0 [VideoEs (replicate 3000 9) 90]))"
proof -
  have l: "MIN_NALU_SIZE \<le> length (replicate 3000 (9 :: u8))"
    "length (replicate 3000 (9 :: u8)) \<le> MAX_BUFFER_LEN"
    by (simp_all add: MIN_NALU_SIZE_def MAX_BUFFER_LEN_def)
  from insertVideoFrame_decodes [OF encap_start(1,3) l] show ?thesis
    using encap_start by blast
qed

end
