(* ===== verification/H264Packager.thy ===== *)
theory H264Packager
  imports RtpSegment
begin

unbundle bit_operations_syntax

text \<open>
  \<open>CH264Packager\<close> (\<open>svs_adapter_rtp_packer.cpp\<close>): it sends H.264 NAL units as single RTP packets or
  FU-A fragments and AAC or G.711 audio, from two buffers of 1500 bytes whose RTP headers it fills
  field by field.  Input pointers are the bytes they may read; reading behind them, writing behind a
  send buffer or calling a null callback is \<^const>\<open>None\<close>.  The packets handed to the callback are
  collected in order.
\<close>

definition RTP_HDR_LEN :: nat where "RTP_HDR_LEN = 12"
definition RTP_PLAYLOAD_LEN :: nat where "RTP_PLAYLOAD_LEN = 1400"
definition RTP_PACK_BUF_SIZE :: nat where "RTP_PACK_BUF_SIZE = 1500"
definition AU_HEADER_SIZE :: nat where "AU_HEADER_SIZE = 4"
definition RTP_SSRC :: u32 where "RTP_SSRC = 78541"
definition PT_ACC :: u32 where "PT_ACC = 97"
definition PT_H264 :: u32 where "PT_H264 = 96"
definition PCMU :: u32 where "PCMU = 0"

lemmas pk_consts = RTP_HDR_LEN_def RTP_PLAYLOAD_LEN_def RTP_PACK_BUF_SIZE_def AU_HEADER_SIZE_def

record CH264Packager =
  m_pCallBackHandle :: bool
  m_pSendVideoBuf :: bytes
  m_pSendAudioBuf :: bytes
  m_VideoRTPSeq :: u16
  m_AudioRTPSeq :: u16
  m_ulVideoTimeStamp :: u32
  m_ulAudioTimeStamp :: u32
  m_ulVideoPt :: u32
  m_ulAudioPt :: u32
  m_ulVideoClockFreq :: u32
  m_ulAudioClockFreq :: u32

text \<open>The two constructors, base class first.\<close>

definition CH264Packager_new :: CH264Packager where
  "CH264Packager_new = \<lparr>m_pCallBackHandle = False, m_pSendVideoBuf = replicate RTP_PACK_BUF_SIZE 0,
     m_pSendAudioBuf = replicate RTP_PACK_BUF_SIZE 0, m_VideoRTPSeq = 0, m_AudioRTPSeq = 0,
     m_ulVideoTimeStamp = 0, m_ulAudioTimeStamp = 0, m_ulVideoPt = PT_H264, m_ulAudioPt = PCMU,
     m_ulVideoClockFreq = 90000, m_ulAudioClockFreq = 8000\<rparr>"

definition packager_Init :: "bool \<Rightarrow> u32 \<Rightarrow> u32 \<Rightarrow> u32 \<Rightarrow> u32 \<Rightarrow> CH264Packager \<Rightarrow> int \<times> CH264Packager" where
  "packager_Init handle ulVideoPt ulAudioPt vfreq afreq x =
     (0, x\<lparr>m_pCallBackHandle := handle, m_ulVideoPt := ulVideoPt, m_ulAudioPt := ulAudioPt,
           m_ulVideoClockFreq := vfreq, m_ulAudioClockFreq := afreq\<rparr>)"

section \<open>Start codes\<close>

definition FindStartCode :: "bytes \<Rightarrow> nat option" where
  "FindStartCode b =
     (if length b < 4 then None
      else if b ! 0 = 0 \<and> b ! 1 = 0 \<and> b ! 2 = 0 \<and> b ! 3 = 1 then Some 4
      else if b ! 0 = 0 \<and> b ! 1 = 0 \<and> b ! 2 = 1 then Some 3
      else None)"

text \<open>\<open>pPtr[2] > 1\<close> is a comparison of a signed \<open>char\<close>.\<close>

function nalu_end_loop :: "bytes \<Rightarrow> nat \<Rightarrow> nat \<Rightarrow> nat option" where
  "nalu_end_loop b ulSearchLen i =
     (if i < ulSearchLen
      then if sint (b ! (i + 2)) > 1 then nalu_end_loop b ulSearchLen (i + 3)
           else if b ! (i + 1) \<noteq> 0 then nalu_end_loop b ulSearchLen (i + 2)
           else if b ! i \<noteq> 0 then nalu_end_loop b ulSearchLen (i + 1)
           else if (b ! i = 0 \<and> b ! (i + 1) = 0 \<and> b ! (i + 2) = 1)
             \<or> (b ! i = 0 \<and> b ! (i + 1) = 0 \<and> b ! (i + 2) = 0 \<and> b ! (i + 3) = 1) then Some i
           else nalu_end_loop b ulSearchLen (i + 1)
      else None)"
  by pat_completeness auto
termination
  by (relation "measure (\<lambda>(b, n, i). n - i)") auto

declare nalu_end_loop.simps [simp del]

definition FindNaluEnd :: "bytes \<Rightarrow> nat option" where
  "FindNaluEnd b =
     (if length b < 4 then None
      else case nalu_end_loop b (length b - 3) 0 of
             None \<Rightarrow> Some (length b)
           | Some p \<Rightarrow> Some p)"

section \<open>Video\<close>

definition fua_indicator :: "u8 \<Rightarrow> u8 \<Rightarrow> u8" where
  "fua_indicator nal old =
     bf_set 0 5 28 (bf_set 5 2 (bf_get 5 2 nal) (bf_set 7 1 (bf_get 7 1 nal) old))"

definition fua_header :: "u8 \<Rightarrow> u8 \<Rightarrow> u8 \<Rightarrow> u8 \<Rightarrow> u8" where
  "fua_header e s nal old = bf_set 0 5 (bf_get 0 5 nal) (bf_set 7 1 s (bf_set 5 1 0 (bf_set 6 1 e old)))"

text \<open>
  One turn of the fragment loop: the sequence number, then marker, FU bytes and data, then the
  callback.  The result is the buffer and the packet.
\<close>

definition fua_send :: "u8 \<Rightarrow> u8 \<Rightarrow> u8 \<Rightarrow> u16 \<Rightarrow> bytes \<Rightarrow> nat \<Rightarrow> nat \<Rightarrow> bytes \<Rightarrow> (bytes \<times> bytes) option" where
  "fua_send mk e s seq nalu pos n buf =
     (if length nalu < pos + n \<or> length buf < RTP_HDR_LEN + 2 + n then None
      else
        let b1 = st16 2 (htons seq) buf;
            b2 = set_hdr_marker mk b1;
            b3 = st8 RTP_HDR_LEN (fua_indicator (nalu ! 0) (b2 ! RTP_HDR_LEN)) b2;
            b4 = st8 (RTP_HDR_LEN + 1) (fua_header e s (nalu ! 0) (b3 ! (RTP_HDR_LEN + 1))) b3;
            b5 = st_block (RTP_HDR_LEN + 2) (take n (drop pos nalu)) b4
        in Some (b5, take (n + RTP_HDR_LEN + 2) b5))"

function fua_loop ::
  "nat \<Rightarrow> nat \<Rightarrow> bytes \<Rightarrow> nat \<Rightarrow> u16 \<Rightarrow> bytes \<Rightarrow> (bytes list \<times> u16 \<times> bytes) option" where
  "fua_loop k lLastLen nalu t seq buf =
     (if t \<le> k
      then case (if t = 0 then fua_send 0 0 1 seq nalu 1 RTP_PLAYLOAD_LEN buf
                 else if k = t then fua_send 1 1 0 seq nalu (t * RTP_PLAYLOAD_LEN + 1) lLastLen buf
                 else fua_send 0 0 0 seq nalu (t * RTP_PLAYLOAD_LEN + 1) RTP_PLAYLOAD_LEN buf) of
             None \<Rightarrow> None
           | Some (buf1, pkt) \<Rightarrow>
               (case fua_loop k lLastLen nalu (t + 1) (seq + 1) buf1 of
                  None \<Rightarrow> None
                | Some (pkts, seq2, buf2) \<Rightarrow> Some (pkt # pkts, seq2, buf2))
      else Some ([], seq, buf))"
  by pat_completeness auto
termination
  by (relation "measure (\<lambda>(k, l, nalu, t, seq, buf). Suc k - t)") auto

declare fua_loop.simps [simp del]

text \<open>The header fields both kinds of packets share.\<close>

definition init_header :: "u32 \<Rightarrow> bytes \<Rightarrow> bytes" where
  "init_header pt b = st32 8 (htonl RTP_SSRC) (set_hdr_extension 0 (set_hdr_marker 0
     (set_hdr_version 2 (set_hdr_payload (ucast pt) b))))"

definition SendNaluVideoData :: "bytes \<Rightarrow> u32 \<Rightarrow> CH264Packager \<Rightarrow> (CH264Packager \<times> bytes list) option" where
  "SendNaluVideoData pNalu ulTimeStamp x =
     (let ulNaluLen = (length pNalu + 2 ^ 32 - 1) mod 2 ^ 32;
          b1 = init_header (m_ulVideoPt x) (m_pSendVideoBuf x);
          ts = ulTimeStamp * (m_ulVideoClockFreq x div 1000)
      in if \<not> m_pCallBackHandle x then None
         else if ulNaluLen \<le> RTP_PLAYLOAD_LEN
         then
           let b2 = st32 4 (htonl ts) (st16 2 (htons (m_VideoRTPSeq x)) (set_hdr_marker 1 b1));
               b3 = st_block RTP_HDR_LEN pNalu b2
           in if length b2 < RTP_HDR_LEN + length pNalu then None
              else Some (x\<lparr>m_pSendVideoBuf := b3, m_ulVideoTimeStamp := ts,
                           m_VideoRTPSeq := m_VideoRTPSeq x + 1\<rparr>,
                         [take (RTP_HDR_LEN + ulNaluLen + 1) b3])
         else
           let k0 = ulNaluLen div RTP_PLAYLOAD_LEN;
               l0 = ulNaluLen mod RTP_PLAYLOAD_LEN;
               lLastLen = (if l0 = 0 then RTP_PLAYLOAD_LEN else l0);
               k = (if l0 = 0 then k0 - 1 else k0)
           in case fua_loop k lLastLen pNalu 0 (m_VideoRTPSeq x) (st32 4 (htonl ts) b1) of
                None \<Rightarrow> None
              | Some (pkts, seq, buf) \<Rightarrow>
                  Some (x\<lparr>m_pSendVideoBuf := buf, m_ulVideoTimeStamp := ts, m_VideoRTPSeq := seq\<rparr>, pkts))"

text \<open>\<open>SendRawVideoData\<close> as it is compiled (without \<open>__CUT_PPS_SPS_FRAME__\<close>); it always returns 0.\<close>

definition SendRawVideoData :: "bytes \<Rightarrow> u32 \<Rightarrow> CH264Packager \<Rightarrow> (CH264Packager \<times> bytes list) option" where
  "SendRawVideoData pBuf ulTimeStamp x =
     (case FindStartCode pBuf of None \<Rightarrow> Some (x, [])
      | Some n \<Rightarrow> SendNaluVideoData (drop n pBuf) ulTimeStamp x)"

section \<open>Audio\<close>

text \<open>The loop over full AAC packets; \<open>off\<close> is a \<open>uint16_t\<close>.\<close>

function aac_loop ::
  "bytes \<Rightarrow> nat \<Rightarrow> u16 \<Rightarrow> u16 \<Rightarrow> bytes \<Rightarrow> (bytes list \<times> nat \<times> u16 \<times> u16 \<times> bytes) option" where
  "aac_loop pBuf ulBufLen off seq buf =
     (let payload = RTP_PLAYLOAD_LEN - AU_HEADER_SIZE in
      if payload < ulBufLen
      then if length pBuf < unat off + payload then None
           else
             let b1 = st_block (RTP_HDR_LEN + AU_HEADER_SIZE) (take payload (drop (unat off) pBuf)) buf;
                 b2 = set_hdr_marker 0 (st16 2 (htons seq) b1)
             in case aac_loop pBuf (ulBufLen - payload) (off + of_nat payload) (seq + 1) b2 of
                  None \<Rightarrow> None
                | Some (pkts, l, off2, seq2, buf2) \<Rightarrow>
                    Some (take (RTP_PLAYLOAD_LEN + RTP_HDR_LEN) b2 # pkts, l, off2, seq2, buf2)
      else Some ([], ulBufLen, off, seq, buf))"
  by pat_completeness auto
termination
  by (relation "measure (\<lambda>(p, l, off, seq, buf). l)") (auto simp: pk_consts)

declare aac_loop.simps [simp del]

definition aac_header :: "nat \<Rightarrow> bytes \<Rightarrow> bytes" where
  "aac_header ulBufLen b =
     st8 15 (push_bit 3 (ucast ((of_nat ulBufLen :: u32) AND 0x1f)))
       (st8 14 (ucast (drop_bit 5 ((of_nat ulBufLen :: u32) AND 0x1fe0))) (st8 13 0x10 (st8 12 0x00 b)))"

definition SendRawAudioData :: "bytes \<Rightarrow> u32 \<Rightarrow> CH264Packager \<Rightarrow> (CH264Packager \<times> bytes list) option" where
  "SendRawAudioData pBuf ulTimeStamp x =
     (let ts = ulTimeStamp * (m_ulAudioClockFreq x div 1000);
          b1 = st32 4 (htonl ts) (init_header (m_ulAudioPt x) (m_pSendAudioBuf x))
      in if \<not> m_pCallBackHandle x then None
         else if PT_ACC = m_ulAudioPt x
         then case aac_loop pBuf (length pBuf) 0 (m_AudioRTPSeq x) (aac_header (length pBuf) b1) of
                None \<Rightarrow> None
              | Some (pkts, n, off, seq, buf) \<Rightarrow>
                  if length pBuf < unat off + n then None
                  else
                    let b2 = st_block (RTP_HDR_LEN + AU_HEADER_SIZE) (take n (drop (unat off) pBuf)) buf;
                        b3 = st16 2 (htons seq) (set_hdr_marker 1 b2)
                    in Some (x\<lparr>m_pSendAudioBuf := b3, m_ulAudioTimeStamp := ts, m_AudioRTPSeq := seq + 1\<rparr>,
                             pkts @ [take (n + AU_HEADER_SIZE + RTP_HDR_LEN) b3])
         else if length b1 < RTP_HDR_LEN + length pBuf then None
         else
           let b2 = set_hdr_marker 1 (st16 2 (htons (m_AudioRTPSeq x)) b1);
               b3 = st_block RTP_HDR_LEN pBuf b2
           in Some (x\<lparr>m_pSendAudioBuf := b3, m_ulAudioTimeStamp := ts, m_AudioRTPSeq := m_AudioRTPSeq x + 1\<rparr>,
                    [take (length pBuf + RTP_HDR_LEN) b3]))"

section \<open>The skipping search is the plain search\<close>

definition nalu_start_at :: "bytes \<Rightarrow> nat \<Rightarrow> bool" where
  "nalu_start_at b i \<longleftrightarrow> b ! i = 0 \<and> b ! (i + 1) = 0 \<and> (b ! (i + 2) = 1 \<or> b ! (i + 2) = 0 \<and> b ! (i + 3) = 1)"

lemma find_upt_skip:
  assumes "j \<le> n" "\<And>k. i \<le> k \<Longrightarrow> k < j \<Longrightarrow> \<not> P k" "i \<le> j"
  shows "List.find P [i..<n] = List.find P [j..<n]"
proof -
  have "List.find P (xs @ ys) = List.find P ys" if "\<forall>x \<in> set xs. \<not> P x" for xs ys :: "nat list"
    using that by (induction xs) auto
  from this [of "[i..<j]" "[j..<n]"] show ?thesis
    using assms upt_add_eq_append [of i j "n - j"] by simp
qed

lemma find_upt_empty: "(\<And>k. i \<le> k \<Longrightarrow> k < n \<Longrightarrow> \<not> P k) \<Longrightarrow> List.find P [i..<n] = None"
  by (auto simp: find_None_iff)

lemma find_upt_step:
  assumes "\<And>k. i \<le> k \<Longrightarrow> k < i + d \<Longrightarrow> k < n \<Longrightarrow> \<not> P k"
  shows "List.find P [i..<n] = List.find P [i + d..<n]"
proof (cases "i + d \<le> n")
  case True
  then show ?thesis using assms by (intro find_upt_skip) auto
next
  case False
  then show ?thesis using assms find_upt_empty [of i n P] by simp
qed

lemma nalu_end_loop_find: "nalu_end_loop b n i = List.find (nalu_start_at b) [i..<n]"
proof (induction b n i rule: nalu_end_loop.induct)
  case (1 b n i)
  have s01: "sint (0 :: u8) = 0" "sint (1 :: u8) = 1" by simp_all
  show ?case
  proof (cases "i < n")
    case False
    then show ?thesis by (simp add: nalu_end_loop.simps [of b n i])
  next
    case True
    consider (three) "sint (b ! (i + 2)) > 1"
      | (two) "\<not> sint (b ! (i + 2)) > 1" "b ! (i + 1) \<noteq> 0"
      | (one) "\<not> sint (b ! (i + 2)) > 1" "b ! (i + 1) = 0" "\<not> nalu_start_at b i"
      | (here) "\<not> sint (b ! (i + 2)) > 1" "nalu_start_at b i"
      by blast
    then show ?thesis
    proof cases
      case three
      then have "b ! (i + 2) \<noteq> 0" "b ! (i + 2) \<noteq> 1" by auto
      then have "\<not> nalu_start_at b k" if "i \<le> k" "k < i + 3" for k
        using that by (auto simp: nalu_start_at_def less_Suc_eq numeral_3_eq_3 le_less_Suc_eq)
      then have "List.find (nalu_start_at b) [i..<n] = List.find (nalu_start_at b) [i + 3..<n]"
        by (intro find_upt_step) auto
      with three True 1 show ?thesis by (simp add: nalu_end_loop.simps [of b n i])
    next
      case two
      then have "\<not> nalu_start_at b k" if "i \<le> k" "k < i + 2" for k
        using that by (auto simp: nalu_start_at_def less_Suc_eq numeral_2_eq_2 le_less_Suc_eq)
      then have "List.find (nalu_start_at b) [i..<n] = List.find (nalu_start_at b) [i + 2..<n]"
        by (intro find_upt_step) auto
      with two True 1 show ?thesis by (simp add: nalu_end_loop.simps [of b n i])
    next
      case one
      have "List.find (nalu_start_at b) [i..<n] = List.find (nalu_start_at b) [i + 1..<n]"
        using one(3) True by (simp add: upt_rec [of i n])
      moreover have "nalu_end_loop b n i = nalu_end_loop b n (i + 1)"
        using one True by (auto simp: nalu_end_loop.simps [of b n i] nalu_start_at_def [of b i])
      moreover have "nalu_end_loop b n (i + 1) = List.find (nalu_start_at b) [i + 1..<n]"
        using one True 1(3,4) by (cases "b ! i = 0") (auto simp: nalu_start_at_def [of b i])
      ultimately show ?thesis by simp
    next
      case here
      then show ?thesis
        using True by (auto simp: nalu_end_loop.simps [of b n i] nalu_start_at_def upt_rec [of i n])
    qed
  qed
qed

text \<open>
  The specification, on the bytes: the first position of the buffer at which the bytes 0, 0, 1 or
  0, 0, 0, 1 stand.
\<close>

definition first_start_code :: "bytes \<Rightarrow> nat option" where
  "first_start_code b =
     List.find (\<lambda>i. take 3 (drop i b) = [0, 0, 1] \<or> take 4 (drop i b) = [0, 0, 0, 1]) [0..<length b]"

lemma nalu_start_at_iff:
  "i + 4 \<le> length b \<Longrightarrow>
     nalu_start_at b i \<longleftrightarrow> take 3 (drop i b) = [0, 0, 1] \<or> take 4 (drop i b) = [0, 0, 0, 1]"
  by (auto simp: nalu_start_at_def take_drop_3 take_drop_4)

lemma find_nalu_first:
  "List.find (nalu_start_at b) [0..<length b - 3] =
     (case first_start_code b of None \<Rightarrow> None | Some i \<Rightarrow> if i + 3 = length b then None else Some i)"
proof -
  let ?P = "\<lambda>i. take 3 (drop i b) = [0, 0, 1] \<or> take 4 (drop i b) = [0, 0, 0, 1]"
  have le: "i + 3 \<le> length b" if "?P i" for i using that by (auto simp: take_drop_3 take_drop_4)
  show ?thesis
  proof (cases "first_start_code b")
    case None
    then have "\<not> ?P i" if "i < length b" for i
      using that by (auto simp: first_start_code_def find_None_iff)
    then have "List.find (nalu_start_at b) [0..<length b - 3] = None"
      by (intro find_upt_empty) (simp add: nalu_start_at_iff)
    with None show ?thesis by simp
  next
    case (Some i)
    then have i: "?P i" "\<And>r. r < i \<Longrightarrow> \<not> ?P r"
      by (simp_all only: first_start_code_def find_upt_Some) auto
    show ?thesis
    proof (cases "i + 3 = length b")
      case True
      have "List.find (nalu_start_at b) [0..<length b - 3] = None"
        using i(2) True by (intro find_upt_empty) (simp add: nalu_start_at_iff)
      with Some True show ?thesis by simp
    next
      case False
      have "List.find (nalu_start_at b) [0..<length b - 3] = Some i"
        using i False le [OF i(1)] by (simp only: find_upt_Some) (simp add: nalu_start_at_iff)
      with Some False show ?thesis by simp
    qed
  qed
qed

text \<open>
  C14.  \<open>FindNaluEnd\<close> skips up to three bytes at a time and refuses the buffers shorter than four
  bytes.  For every other buffer it returns the first position at which a three or four byte start
  code stands in the buffer, except that the length is returned when there is none or when it is a
  three byte start code made of the last three bytes, which the search does not look at.
\<close>

theorem FindNaluEnd_eq:
  "FindNaluEnd b =
     (if length b < 4 then None
      else Some (case first_start_code b of
                   None \<Rightarrow> length b
                 | Some i \<Rightarrow> if i + 3 = length b then length b else i))"
  by (auto simp: FindNaluEnd_def nalu_end_loop_find find_nalu_first split: option.splits)

section \<open>The packets\<close>

text \<open>A header that was filled field by field is the encoded header.\<close>

lemma le16_ld16: "le16 (ld16 b i) = [b ! i, b ! Suc i]"
proof -
  have "ucast (ld16 b i) = b ! i" "ucast (drop_bit 8 (ld16 b i)) = b ! Suc i"
    by (rule bit_word_eqI; auto simp: ld16_def bit_simps dest: bit_imp_le_length)+
  then show ?thesis by (simp add: le16_def)
qed

lemma le32_ld32: "le32 (ld32 b i) = [b ! i, b ! (i + 1), b ! (i + 2), b ! (i + 3)]"
proof -
  have l: "8 \<le> m \<Longrightarrow> \<not> bit (b ! j) m" for m j by (auto dest: bit_imp_le_length)
  have "ucast (ld32 b i) = b ! i" "ucast (drop_bit 8 (ld32 b i)) = b ! (i + 1)"
    "ucast (drop_bit 16 (ld32 b i)) = b ! (i + 2)" "ucast (drop_bit 24 (ld32 b i)) = b ! (i + 3)"
    by (rule bit_word_eqI; simp add: ld32_def bit_simps l)+
  then show ?thesis by (simp add: le32_def)
qed

lemma take12_fields:
  assumes "12 \<le> length b" "b ! 0 = 0x80" "hdr_payload b = pt" "hdr_marker b = (if mk then 1 else 0)"
    "ld16 b 2 = htons sq" "ld32 b 4 = htonl ts" "ld32 b 8 = ssrc"
  shows "take 12 b = encode_fixed (simple_header mk pt sq ts ssrc)"
proof -
  have 1: "b ! 1 = bf_set 0 7 pt (bf_set 7 1 (if mk then 1 else 0) 0)"
    unfolding assms(3) [symmetric] assms(4) [symmetric] hdr_payload_def hdr_marker_def
  proof (rule bit_word_eqI)
    fix n assume "n < LENGTH(8)"
    then show "bit (b ! 1) n = bit (bf_set 0 7 (bf_get 0 7 (b ! 1)) (bf_set 7 1 (bf_get 7 1 (b ! 1)) 0)) n"
      by (cases "n = 7") (auto simp: bf_simps)
  qed
  have "encode_fixed (simple_header mk pt sq ts ssrc) = [b ! 0, b ! 1] @ le16 (ld16 b 2) @ le32 (ld32 b 4) @ le32 (ld32 b 8)"
    using assms 1 by (simp add: encode_fixed_def encode_byte0_simple)
  then show ?thesis
    unfolding le16_ld16 le32_ld32 using assms(1) by (subst take12) simp_all
qed

text \<open>What stays the same in a send buffer between the packets of one NAL unit.\<close>

definition pk_fields :: "u8 \<Rightarrow> u32 \<Rightarrow> bytes \<Rightarrow> bool" where
  "pk_fields pt ts b \<longleftrightarrow> length b = RTP_PACK_BUF_SIZE \<and> b ! 0 = 0x80 \<and> hdr_payload b = pt \<and>
     ld32 b 4 = htonl ts \<and> ld32 b 8 = htonl RTP_SSRC"

lemma pk_fields_stores:
  assumes "pk_fields pt ts b"
  shows "pk_fields pt ts (st16 2 v b)" "pk_fields pt ts (set_hdr_marker m b)"
    "12 \<le> i \<Longrightarrow> i < 1500 \<Longrightarrow> pk_fields pt ts (st8 i w b)"
    "12 \<le> i \<Longrightarrow> i + length xs \<le> 1500 \<Longrightarrow> pk_fields pt ts (st_block i xs b)"
proof -
  have l: "length b = 1500" using assms by (simp add: pk_fields_def RTP_PACK_BUF_SIZE_def)
  show "pk_fields pt ts (st16 2 v b)" "pk_fields pt ts (set_hdr_marker m b)"
    using assms l by (simp_all add: pk_fields_def hdr_simps nth_st16)
  show "pk_fields pt ts (st8 i w b)" if "12 \<le> i" "i < 1500"
  proof -
    have "st8 i w b ! j = b ! j" if "j < 12" for j using that \<open>12 \<le> i\<close> by (simp add: st8_def)
    then show ?thesis using assms by (simp add: pk_fields_def hdr_payload_def ld32_def)
  qed
  show "pk_fields pt ts (st_block i xs b)" if "12 \<le> i" "i + length xs \<le> 1500"
  proof -
    have "st_block i xs b ! j = b ! j" if "j < 12" for j using that \<open>12 \<le> i\<close> \<open>i + length xs \<le> 1500\<close> l
      by (simp add: nth_st_block)
    then show ?thesis using assms that l by (simp add: pk_fields_def hdr_payload_def ld32_def)
  qed
qed

text \<open>A send buffer between two calls: zero, or with the header byte that the code puts there.\<close>

definition pk_buf :: "bytes \<Rightarrow> bool" where
  "pk_buf b \<longleftrightarrow> length b = RTP_PACK_BUF_SIZE \<and> (b ! 0 = 0 \<or> b ! 0 = 0x80)"

lemma pk_fields_buf: "pk_fields pt ts b \<Longrightarrow> pk_buf b"
  by (simp add: pk_fields_def pk_buf_def)

lemma init_header_fields:
  assumes "pk_buf b" "pt < 128"
  shows "pk_fields (ucast pt) ts (st32 4 (htonl ts) (init_header pt b))"
proof -
  have l: "length b = 1500" using assms(1) by (simp add: pk_buf_def RTP_PACK_BUF_SIZE_def)
  have e: "bf_set 4 1 0 (bf_set 6 2 2 x) = 0x80" if "x = 0 \<or> x = 0x80" for x :: u8
    using that by (elim disjE; simp only:; code_simp)
  have "init_header pt b ! 0 = bf_set 4 1 0 (bf_set 6 2 2 (b ! 0))"
    using l by (simp add: init_header_def nth_st32 hdr_set_defs nth_st8)
  with assms(1) e [of "b ! 0"] have z: "init_header pt b ! 0 = 0x80" by (simp add: pk_buf_def)
  have "take_bit 7 (ucast pt :: u8) = ucast pt"
  proof -
    have "unat pt < 2 ^ 7" using assms(2) by (simp add: word_less_nat_alt)
    then have "unat (take_bit 7 pt) = unat pt" by (simp add: unsigned_take_bit_eq take_bit_nat_eq_self)
    then have "take_bit 7 pt = pt" by (simp add: word_unat_eq_iff)
    then have "bit pt n \<longleftrightarrow> n < 7 \<and> bit pt n" for n by (metis bit_take_bit_iff)
    then show ?thesis by (intro bit_word_eqI) (auto simp: bit_simps)
  qed
  then have p: "hdr_payload (init_header pt b) = ucast pt"
    using l by (simp add: init_header_def hdr_simps)
  have "ld32 (init_header pt b) 8 = htonl RTP_SSRC"
    using l by (simp add: init_header_def mem_simps)
  with z p l show ?thesis
    by (simp add: pk_fields_def RTP_PACK_BUF_SIZE_def hdr_simps mem_simps init_header_def)
qed

lemma fua_bytes_total:
  "fua_indicator nal old = fua_indicator nal 0" "fua_header e s nal old = fua_header e s nal 0"
proof -
  have n: "n < 5 \<or> n = 5 \<or> n = 6 \<or> n = 7" if "n < LENGTH(8)" for n :: nat using that by auto
  show "fua_indicator nal old = fua_indicator nal 0"
    by (rule bit_word_eqI) (use n in \<open>force simp: fua_indicator_def bf_simps\<close>)
  show "fua_header e s nal old = fua_header e s nal 0"
    by (rule bit_word_eqI) (use n in \<open>force simp: fua_header_def bf_simps\<close>)
qed

definition fua_fragment :: "u8 \<Rightarrow> u16 \<Rightarrow> u32 \<Rightarrow> bool \<Rightarrow> bool \<Rightarrow> u8 \<Rightarrow> bytes \<Rightarrow> bytes" where
  "fua_fragment pt seq ts isLast isFirst nal chunk =
     encode_packet (simple_header isLast pt seq ts (htonl RTP_SSRC))
       (fua_indicator nal 0 # fua_header (if isLast then 1 else 0) (if isFirst then 1 else 0) nal 0 # chunk)"

lemma fua_send_eq:
  assumes "pk_fields pt ts buf" "pos + n \<le> length nalu" "n \<le> 1400"
  shows "\<exists>buf'. fua_send (if mk then 1 else 0) (if mk then 1 else 0) (if f then 1 else 0) seq nalu pos n buf =
      Some (buf', fua_fragment pt seq ts mk f (nalu ! 0) (take n (drop pos nalu))) \<and> pk_fields pt ts buf'"
proof -
  let ?chunk = "take n (drop pos nalu)"
  let ?ind = "fua_indicator (nalu ! 0) 0"
  let ?h = "fua_header (if mk then 1 else 0) (if f then 1 else 0) (nalu ! 0) 0"
  define b2 where "b2 = set_hdr_marker (if mk then 1 else 0) (st16 2 (htons seq) buf)"
  define b4 where "b4 = st8 13 ?h (st8 12 ?ind b2)"
  have f2: "pk_fields pt ts b2" unfolding b2_def by (intro pk_fields_stores assms)
  have f4: "pk_fields pt ts b4" unfolding b4_def by (intro pk_fields_stores f2) simp_all
  have l: "length buf = 1500" "length b2 = 1500" "length b4 = 1500" "length ?chunk = n"
    using assms f2 f4 by (simp_all add: pk_fields_def RTP_PACK_BUF_SIZE_def)
  have "hdr_marker b2 = (if mk then 1 else 0)" "ld16 b2 2 = htons seq"
    using l(1) by (simp_all add: b2_def hdr_simps mem_simps)
  then have t2: "take 12 b2 = encode_fixed (simple_header mk pt seq ts (htonl RTP_SSRC))"
    using f2 l(2) by (intro take12_fields) (simp_all add: pk_fields_def)
  have "take 14 b4 = take 12 b4 @ [b4 ! 12, b4 ! 13]"
    using l(3) by (simp add: take_Suc_conv_app_nth numeral_eq_Suc)
  also have "\<dots> = encode_fixed (simple_header mk pt seq ts (htonl RTP_SSRC)) @ [?ind, ?h]"
    using t2 l by (simp add: b4_def st8_def)
  finally have t4: "take 14 b4 = encode_fixed (simple_header mk pt seq ts (htonl RTP_SSRC)) @ [?ind, ?h]" .
  have s: "fua_send (if mk then 1 else 0) (if mk then 1 else 0) (if f then 1 else 0) seq nalu pos n buf =
      Some (st_block 14 ?chunk b4, take (n + 14) (st_block 14 ?chunk b4))"
    using assms l by (simp add: fua_send_def Let_def RTP_HDR_LEN_def b4_def b2_def
        fua_bytes_total(1) [of _ "set_hdr_marker _ _ ! _"] fua_bytes_total(2) [of _ _ _ "st8 _ _ _ ! _"] add.commute [of n])
  have p: "take (n + 14) (st_block 14 ?chunk b4) = fua_fragment pt seq ts mk f (nalu ! 0) ?chunk"
    using t4 l assms(3) by (simp add: st_block_def fua_fragment_def encode_packet_simple add.commute [of n])
  have "pk_fields pt ts (st_block 14 ?chunk b4)"
    using l(4) assms(3) by (intro pk_fields_stores f4) simp_all
  with s p show ?thesis by simp
qed

definition fua_piece :: "bytes \<Rightarrow> nat \<Rightarrow> bytes" where
  "fua_piece nalu j = take 1400 (drop (j * 1400 + 1) nalu)"

definition fua_packets :: "u8 \<Rightarrow> u16 \<Rightarrow> u32 \<Rightarrow> nat \<Rightarrow> bytes \<Rightarrow> bytes list" where
  "fua_packets pt seq ts k nalu =
     map (\<lambda>j. fua_fragment pt (seq + of_nat j) ts (j = k) (j = 0) (nalu ! 0) (fua_piece nalu j)) [0..<Suc k]"

lemma fua_loop_eq:
  assumes "pk_fields pt ts buf" "length nalu = k * 1400 + 1 + lst" "0 < lst" "lst \<le> 1400" "0 < k" "t \<le> Suc k"
  shows "\<exists>buf'. fua_loop k lst nalu t (seq + of_nat t) buf =
      Some (drop t (fua_packets pt seq ts k nalu), seq + of_nat (Suc k), buf') \<and> pk_fields pt ts buf'"
  using assms(1,6)
proof (induction "Suc k - t" arbitrary: t buf)
  case 0
  then have "t = Suc k" by simp
  with 0 show ?case by (simp add: fua_loop.simps fua_packets_def)
next
  case (Suc n)
  then have t: "t \<le> k" by simp
  have room: "(t = k \<longrightarrow> t * 1400 + 1 + lst \<le> length nalu) \<and> (t < k \<longrightarrow> t * 1400 + 1 + 1400 \<le> length nalu)"
  proof (intro conjI impI)
    assume "t < k"
    then have "Suc t * 1400 \<le> k * 1400" by (intro mult_le_mono1) simp
    then show "t * 1400 + 1 + 1400 \<le> length nalu" using assms(2) by simp
  qed (use assms(2) in simp)
  let ?c = "if t = 0 then fua_send 0 0 1 (seq + of_nat t) nalu 1 RTP_PLAYLOAD_LEN buf
      else if k = t then fua_send 1 1 0 (seq + of_nat t) nalu (t * RTP_PLAYLOAD_LEN + 1) lst buf
      else fua_send 0 0 0 (seq + of_nat t) nalu (t * RTP_PLAYLOAD_LEN + 1) RTP_PLAYLOAD_LEN buf"
  have "\<exists>buf'. ?c = Some (buf', fua_fragment pt (seq + of_nat t) ts (t = k) (t = 0) (nalu ! 0) (fua_piece nalu t))
      \<and> pk_fields pt ts buf'"
  proof (cases "t = k")
    case True
    have "drop (t * 1400 + 1) nalu = take lst (drop (t * 1400 + 1) nalu)" using True assms(2) by simp
    then have "take lst (drop (t * 1400 + 1) nalu) = fua_piece nalu t"
      unfolding fua_piece_def using True assms(2,4) by simp
    with True assms(4,5) room fua_send_eq [OF Suc.prems(1), of "t * 1400 + 1" lst nalu True False "seq + of_nat t"]
    show ?thesis by (simp add: RTP_PLAYLOAD_LEN_def)
  next
    case False
    with t room fua_send_eq [OF Suc.prems(1), of "t * 1400 + 1" 1400 nalu False "t = 0" "seq + of_nat t"]
    show ?thesis by (cases "t = 0") (simp_all add: RTP_PLAYLOAD_LEN_def fua_piece_def)
  qed
  then obtain buf1 where c: "?c = Some (buf1, fua_fragment pt (seq + of_nat t) ts (t = k) (t = 0) (nalu ! 0) (fua_piece nalu t))"
    and f1: "pk_fields pt ts buf1" by blast
  have "n = Suc k - Suc t" "Suc t \<le> Suc k" using Suc.hyps(2) t by simp_all
  from Suc.hyps(1) [OF this(1) f1 this(2)] obtain buf2 where
    l: "fua_loop k lst nalu (Suc t) (seq + of_nat (Suc t)) buf1 =
      Some (drop (Suc t) (fua_packets pt seq ts k nalu), seq + of_nat (Suc k), buf2)" "pk_fields pt ts buf2"
    by blast
  have "drop t (fua_packets pt seq ts k nalu) =
      fua_fragment pt (seq + of_nat t) ts (t = k) (t = 0) (nalu ! 0) (fua_piece nalu t) # drop (Suc t) (fua_packets pt seq ts k nalu)"
    using t by (simp add: fua_packets_def Cons_nth_drop_Suc [symmetric] del: upt_Suc)
  moreover have "seq + of_nat t + 1 = seq + of_nat (Suc t)" by simp
  ultimately show ?case
    using t c l by (subst fua_loop.simps) (simp add: add.assoc del: of_nat_Suc)
qed

text \<open>The packets of a NAL unit, and a packager ready to send.\<close>

definition nal_packets :: "u8 \<Rightarrow> u16 \<Rightarrow> u32 \<Rightarrow> bytes \<Rightarrow> bytes list" where
  "nal_packets pt seq ts nal =
     (if length nal \<le> 1401 then [encode_packet (simple_header True pt seq ts (htonl RTP_SSRC)) nal]
      else fua_packets pt seq ts ((length nal - 2) div 1400) nal)"

definition packager_ready :: "CH264Packager \<Rightarrow> bool" where
  "packager_ready x \<longleftrightarrow> m_pCallBackHandle x \<and> pk_buf (m_pSendVideoBuf x) \<and> pk_buf (m_pSendAudioBuf x) \<and>
     m_ulVideoPt x < 128 \<and> m_ulAudioPt x < 128"

lemma fua_split:
  fixes n :: nat
  assumes "1401 < n"
  shows "(if (n - 1) mod 1400 = 0 then (n - 1) div 1400 - 1 else (n - 1) div 1400) = (n - 2) div 1400"
    "n = (n - 2) div 1400 * 1400 + 1 + (if (n - 1) mod 1400 = 0 then 1400 else (n - 1) mod 1400)"
    "0 < (n - 2) div 1400"
proof -
  define m where "m = n - 2"
  have n: "n = m + 2" "1400 \<le> m" using assms by (simp_all add: m_def)
  have d: "m = m div 1400 * 1400 + m mod 1400" "m mod 1400 < 1400" by simp_all
  have s: "Suc m mod 1400 = (if Suc (m mod 1400) = 1400 then 0 else Suc (m mod 1400))"
    "Suc m div 1400 = (if Suc (m mod 1400) = 1400 then Suc (m div 1400) else m div 1400)"
    by (simp_all add: mod_Suc div_Suc)
  show "(if (n - 1) mod 1400 = 0 then (n - 1) div 1400 - 1 else (n - 1) div 1400) = (n - 2) div 1400"
    using s by (simp add: n)
  show "n = (n - 2) div 1400 * 1400 + 1 + (if (n - 1) mod 1400 = 0 then 1400 else (n - 1) mod 1400)"
  proof (cases "Suc (m mod 1400) = 1400")
    case True
    then have "(n - 1) mod 1400 = 0" using s by (simp add: n)
    moreover have "n - 2 = m" by (simp add: n)
    ultimately show ?thesis using True d(1) n(1) by simp
  next
    case False
    then have "(n - 1) mod 1400 = Suc (m mod 1400)" using s by (simp add: n)
    moreover have "n - 2 = m" by (simp add: n)
    ultimately show ?thesis using d(1) n(1) by simp
  qed
  show "0 < (n - 2) div 1400" using n by (simp add: div_greater_zero_iff)
qed

lemma SendNaluVideoData_eq:
  fixes x :: CH264Packager and nal :: bytes and ts :: u32
  assumes "packager_ready x" "nal \<noteq> []" "length nal < 2 ^ 32"
  defines "ts' \<equiv> ts * (m_ulVideoClockFreq x div 1000)"
  shows "\<exists>x'. SendNaluVideoData nal ts x = Some (x', nal_packets (ucast (m_ulVideoPt x)) (m_VideoRTPSeq x) ts' nal) \<and>
    packager_ready x' \<and>
    m_VideoRTPSeq x' = m_VideoRTPSeq x + of_nat (length (nal_packets (ucast (m_ulVideoPt x)) (m_VideoRTPSeq x) ts' nal))"
proof -
  let ?b = "st32 4 (htonl ts') (init_header (m_ulVideoPt x) (m_pSendVideoBuf x))"
  let ?pt = "ucast (m_ulVideoPt x) :: u8"
  have f: "pk_fields ?pt ts' ?b"
    using init_header_fields assms(1) by (simp add: packager_ready_def)
  have nl: "(length nal + 2 ^ 32 - 1) mod 2 ^ 32 = length nal - 1"
  proof -
    have "length nal + 2 ^ 32 - 1 = (length nal - 1) + 2 ^ 32" using assms(2) by (cases nal) simp_all
    moreover have "(length nal - 1) mod 2 ^ 32 = length nal - 1" using assms(3) by (intro mod_less) simp
    ultimately show ?thesis by (simp only: mod_add_self2)
  qed
  show ?thesis
  proof (cases "length nal \<le> 1401")
    case True
    define b2 where "b2 = st32 4 (htonl ts') (st16 2 (htons (m_VideoRTPSeq x))
      (set_hdr_marker 1 (init_header (m_ulVideoPt x) (m_pSendVideoBuf x))))"
    have l: "length (init_header (m_ulVideoPt x) (m_pSendVideoBuf x)) = 1500" "length b2 = 1500"
      using f by (simp_all add: pk_fields_def RTP_PACK_BUF_SIZE_def b2_def)
    have f2: "pk_fields ?pt ts' b2"
      using f l by (simp add: pk_fields_def b2_def hdr_simps mem_simps)
    have "hdr_marker b2 = (if True then 1 else 0)" "ld16 b2 2 = htons (m_VideoRTPSeq x)"
      using l(1) by (simp_all add: b2_def hdr_simps mem_simps)
    then have "take 12 b2 = encode_fixed (simple_header True ?pt (m_VideoRTPSeq x) ts' (htonl RTP_SSRC))"
      using f2 l(2) by (intro take12_fields) (simp_all add: pk_fields_def)
    then have t: "take (12 + (length nal - 1) + 1) (st_block 12 nal b2) =
        encode_packet (simple_header True ?pt (m_VideoRTPSeq x) ts' (htonl RTP_SSRC)) nal"
      using assms(2) l(2) True by (cases nal) (simp_all add: st_block_def encode_packet_simple)
    have fin: "pk_buf (st_block 12 nal b2)"
      using True by (intro pk_fields_buf [of ?pt ts'] pk_fields_stores f2) simp_all
    have "SendNaluVideoData nal ts x = Some (x\<lparr>m_pSendVideoBuf := st_block 12 nal b2, m_ulVideoTimeStamp := ts',
        m_VideoRTPSeq := m_VideoRTPSeq x + 1\<rparr>,
        [encode_packet (simple_header True ?pt (m_VideoRTPSeq x) ts' (htonl RTP_SSRC)) nal])"
      unfolding SendNaluVideoData_def Let_def nl ts'_def [symmetric] b2_def [symmetric]
      using assms(1) True t l(2) by (auto simp: packager_ready_def pk_consts)
    with fin assms(1) True show ?thesis by (simp add: nal_packets_def packager_ready_def)
  next
    case False
    note sp = fua_split [of "length nal"]
    define lst where "lst = (if (length nal - 1) mod 1400 = 0 then 1400 else (length nal - 1) mod 1400)"
    have lst: "0 < lst" "lst \<le> 1400" by (auto simp: lst_def)
    obtain buf where l: "fua_loop ((length nal - 2) div 1400)
        lst nal 0 (m_VideoRTPSeq x + of_nat 0) ?b =
        Some (drop 0 (fua_packets ?pt (m_VideoRTPSeq x) ts' ((length nal - 2) div 1400) nal),
          m_VideoRTPSeq x + of_nat (Suc ((length nal - 2) div 1400)), buf)" "pk_fields ?pt ts' buf"
      using fua_loop_eq [OF f sp(2) [folded lst_def] lst sp(3), of 0 "m_VideoRTPSeq x"] False by force
    have big: "\<not> length nal - 1 \<le> 1400" using False by linarith
    have "SendNaluVideoData nal ts x = Some (x\<lparr>m_pSendVideoBuf := buf, m_ulVideoTimeStamp := ts',
        m_VideoRTPSeq := m_VideoRTPSeq x + of_nat (Suc ((length nal - 2) div 1400))\<rparr>,
        fua_packets ?pt (m_VideoRTPSeq x) ts' ((length nal - 2) div 1400) nal)"
      unfolding SendNaluVideoData_def Let_def nl ts'_def [symmetric] RTP_PLAYLOAD_LEN_def
      using assms(1) False sp(1) l(1) big unfolding lst_def by (simp add: packager_ready_def del: of_nat_Suc)
    moreover have "length (fua_packets ?pt (m_VideoRTPSeq x) ts' ((length nal - 2) div 1400) nal) = Suc ((length nal - 2) div 1400)"
      by (simp add: fua_packets_def)
    ultimately show ?thesis
      using pk_fields_buf [OF l(2)] assms(1) False by (simp add: nal_packets_def packager_ready_def)
  qed
qed

lemma ucast_pt:
  fixes pt :: u32
  assumes "pt < 128"
  shows "(ucast pt :: u8) < 128"
proof -
  have "unat pt < 128" using assms by (simp add: word_less_nat_alt)
  moreover have "unat (ucast pt :: u8) \<le> unat pt" by (simp add: unsigned_ucast_eq)
  ultimately show ?thesis by (simp add: word_less_nat_alt)
qed

lemma concat_fua_pieces: "concat (map (fua_piece nalu) [0..<n]) = take (n * 1400) (drop 1 nalu)"
proof (induction n)
  case (Suc n)
  have "fua_piece nalu n = take 1400 (drop (n * 1400) (drop 1 nalu))"
    by (simp add: fua_piece_def)
  then show ?case using Suc by (simp add: add.commute [of 1400] take_add)
qed simp

lemma fua_packets_pieces:
  assumes "1401 < length nal"
  shows "concat (map (fua_piece nal) [0..<Suc ((length nal - 2) div 1400)]) = tl nal"
proof -
  have "length nal - 1 \<le> Suc ((length nal - 2) div 1400) * 1400"
    using fua_split(2) [OF assms] by simp
  then have "take (Suc ((length nal - 2) div 1400) * 1400) (drop 1 nal) = drop 1 nal" by simp
  then show ?thesis unfolding concat_fua_pieces by (simp add: drop_Suc)
qed

lemma nal_packets_nth:
  assumes "k < length (nal_packets pt sq ts nal)"
  shows "\<exists>payload. nal_packets pt sq ts nal ! k =
    encode_packet (simple_header (k = length (nal_packets pt sq ts nal) - 1) pt (sq + of_nat k) ts (htonl RTP_SSRC)) payload
    \<and> length payload \<le> 1402"
proof (cases "length nal \<le> 1401")
  case True
  with assms show ?thesis by (auto simp: nal_packets_def)
next
  case False
  then have "k < Suc ((length nal - 2) div 1400)" using assms by (simp add: nal_packets_def fua_packets_def)
  with False show ?thesis
    by (auto simp: nal_packets_def fua_packets_def fua_fragment_def fua_piece_def simp del: upt_Suc)
qed

text \<open>
  Every packet that \<open>SendNaluVideoData\<close> hands over for a NAL unit is a well-formed RTP packet of at
  most 1414 bytes; the packets have consecutive sequence numbers (modulo \<open>2 ^ 16\<close>), the scaled time
  stamp and the configured payload type, only the last one has the marker, and the packager continues
  with the next sequence number.
\<close>

theorem SendNaluVideoData_headers:
  assumes "packager_ready x" "nal \<noteq> []" "length nal < 2 ^ 32"
  shows "\<exists>x' pkts. SendNaluVideoData nal ts x = Some (x', pkts) \<and> packager_ready x' \<and>
    m_VideoRTPSeq x' = m_VideoRTPSeq x + of_nat (length pkts) \<and> pkts \<noteq> [] \<and>
    (\<forall>k < length pkts. length (pkts ! k) \<le> 1414 \<and>
      (\<exists>p. ParsePacket (Some (pkts ! k)) CRtpPacket_new = (RET_OK, p) \<and>
        GetPayloadType p = ucast (m_ulVideoPt x) \<and> GetSeqNum p = m_VideoRTPSeq x + of_nat k \<and>
        GetTimeStamp p = ts * (m_ulVideoClockFreq x div 1000) \<and> (GetMarker p \<longleftrightarrow> k = length pkts - 1)))"
proof -
  let ?ts = "ts * (m_ulVideoClockFreq x div 1000)" and ?pt = "ucast (m_ulVideoPt x) :: u8"
  let ?pkts = "nal_packets ?pt (m_VideoRTPSeq x) ?ts nal"
  obtain x' where x': "SendNaluVideoData nal ts x = Some (x', ?pkts)" "packager_ready x'"
    "m_VideoRTPSeq x' = m_VideoRTPSeq x + of_nat (length ?pkts)"
    using SendNaluVideoData_eq [OF assms, of ts] by blast
  have pt: "?pt < 128" using assms(1) by (intro ucast_pt) (simp add: packager_ready_def)
  have "length (?pkts ! k) \<le> 1414 \<and> (\<exists>p. ParsePacket (Some (?pkts ! k)) CRtpPacket_new = (RET_OK, p) \<and>
        GetPayloadType p = ?pt \<and> GetSeqNum p = m_VideoRTPSeq x + of_nat k \<and>
        GetTimeStamp p = ?ts \<and> (GetMarker p \<longleftrightarrow> k = length ?pkts - 1))" if k: "k < length ?pkts" for k
  proof -
    obtain payload where p: "?pkts ! k = encode_packet (simple_header (k = length ?pkts - 1) ?pt
        (m_VideoRTPSeq x + of_nat k) ?ts (htonl RTP_SSRC)) payload" "length payload \<le> 1402"
      using nal_packets_nth [OF k] by blast
    have "length (?pkts ! k) \<le> 1414" using p by (simp add: encode_packet_simple)
    then show ?thesis
      unfolding p(1)
      using ParsePacket_simple [OF pt, of "k = length ?pkts - 1" "m_VideoRTPSeq x + of_nat k" ?ts
          "htonl RTP_SSRC" payload]
      by metis
  qed
  moreover have "?pkts \<noteq> []" by (simp add: nal_packets_def fua_packets_def)
  ultimately show ?thesis using x' by blast
qed

definition example_packager :: CH264Packager where
  "example_packager = snd (packager_Init True 96 0 90000 8000 CH264Packager_new)"

lemma example_packager: "packager_ready example_packager"
  by (simp add: example_packager_def packager_Init_def CH264Packager_new_def packager_ready_def pk_buf_def
      RTP_PACK_BUF_SIZE_def)

theorem SendNaluVideoData_headers_witness:
  "packager_ready example_packager \<and>
   (\<exists>x' pkts. SendNaluVideoData (replicate 3000 0x65) 40 example_packager = Some (x', pkts) \<and> pkts \<noteq> [] \<and>
      m_VideoRTPSeq x' = m_VideoRTPSeq example_packager + of_nat (length pkts))"
proof -
  have "replicate 3000 (0x65 :: u8) \<noteq> []" "length (replicate 3000 (0x65 :: u8)) < 2 ^ 32" by simp_all
  from SendNaluVideoData_headers [OF example_packager this, of 40] example_packager show ?thesis by blast
qed

text \<open>
  G.711 audio of up to 1488 bytes goes out as one packet whose payload is the audio; longer data is
  copied past the end of the 1500-byte send buffer, since \<open>SendRawAudioData\<close> does not check the length.
\<close>

theorem SendRawAudioData_pcm:
  assumes "packager_ready x" "m_ulAudioPt x \<noteq> PT_ACC"
  shows "if length d \<le> 1488
    then \<exists>x' pkt p. SendRawAudioData d ts x = Some (x', [pkt]) \<and> packager_ready x' \<and>
      m_AudioRTPSeq x' = m_AudioRTPSeq x + 1 \<and> ParsePacket (Some pkt) CRtpPacket_new = (RET_OK, p) \<and>
      GetMarker p \<and> GetSeqNum p = m_AudioRTPSeq x \<and> GetTimeStamp p = ts * (m_ulAudioClockFreq x div 1000) \<and>
      drop (GetHeadLen p) (rtp_bytes p) = d
    else SendRawAudioData d ts x = None"
proof -
  let ?ts = "ts * (m_ulAudioClockFreq x div 1000)" and ?pt = "ucast (m_ulAudioPt x) :: u8"
  let ?b = "st32 4 (htonl ?ts) (init_header (m_ulAudioPt x) (m_pSendAudioBuf x))"
  have f: "pk_fields ?pt ?ts ?b" using init_header_fields assms(1) by (simp add: packager_ready_def)
  then have l: "length ?b = 1500" by (simp add: pk_fields_def RTP_PACK_BUF_SIZE_def)
  have h: "m_pCallBackHandle x" "PT_ACC \<noteq> m_ulAudioPt x" using assms by (auto simp: packager_ready_def)
  show ?thesis
  proof (cases "length d \<le> 1488")
    case False
    then show ?thesis using h l by (simp add: SendRawAudioData_def Let_def RTP_HDR_LEN_def)
  next
    case True
    define b2 where "b2 = set_hdr_marker 1 (st16 2 (htons (m_AudioRTPSeq x)) ?b)"
    have f2: "pk_fields ?pt ?ts b2" unfolding b2_def by (intro pk_fields_stores f)
    then have l2: "length b2 = 1500" by (simp add: pk_fields_def RTP_PACK_BUF_SIZE_def)
    have "hdr_marker b2 = (if True then 1 else 0)" "ld16 b2 2 = htons (m_AudioRTPSeq x)"
      using l by (simp_all add: b2_def hdr_simps mem_simps)
    then have "take 12 b2 = encode_fixed (simple_header True ?pt (m_AudioRTPSeq x) ?ts (htonl RTP_SSRC))"
      using f2 l2 by (intro take12_fields) (simp_all add: pk_fields_def)
    then have t: "take (length d + 12) (st_block 12 d b2) =
        encode_packet (simple_header True ?pt (m_AudioRTPSeq x) ?ts (htonl RTP_SSRC)) d"
      using l2 True by (simp add: st_block_def encode_packet_simple add.commute [of _ 12])
    have s: "SendRawAudioData d ts x = Some (x\<lparr>m_pSendAudioBuf := st_block 12 d b2, m_ulAudioTimeStamp := ?ts,
        m_AudioRTPSeq := m_AudioRTPSeq x + 1\<rparr>,
        [encode_packet (simple_header True ?pt (m_AudioRTPSeq x) ?ts (htonl RTP_SSRC)) d])"
      using h l True t by (simp add: SendRawAudioData_def Let_def RTP_HDR_LEN_def b2_def)
    have fin: "pk_buf (st_block 12 d b2)"
      using True by (intro pk_fields_buf [of ?pt ?ts] pk_fields_stores f2) simp_all
    have "?pt < 128" using assms(1) by (intro ucast_pt) (simp add: packager_ready_def)
    from ParsePacket_simple [OF this, of True "m_AudioRTPSeq x" ?ts "htonl RTP_SSRC" d] obtain p where
      "ParsePacket (Some (encode_packet (simple_header True ?pt (m_AudioRTPSeq x) ?ts (htonl RTP_SSRC)) d))
         CRtpPacket_new = (RET_OK, p)" "GetMarker p = True" "GetSeqNum p = m_AudioRTPSeq x"
      "GetTimeStamp p = ?ts" "GetHeadLen p = 12" "drop 12 (rtp_bytes p) = d" by metis
    with s fin assms(1) True show ?thesis by (auto simp: packager_ready_def)
  qed
qed

theorem SendRawAudioData_pcm_witness:
  "packager_ready example_packager \<and> m_ulAudioPt example_packager \<noteq> PT_ACC \<and>
   SendRawAudioData (replicate 1489 0xd5) 20 example_packager = None"
proof -
  have a: "m_ulAudioPt example_packager \<noteq> PT_ACC"
    by (simp add: example_packager_def packager_Init_def PT_ACC_def)
  from SendRawAudioData_pcm [OF example_packager a, of "replicate 1489 0xd5" 20] a example_packager
  show ?thesis by (simp add: length_replicate)
qed

end
