(* ===== verification/Rtp2PsProcessor.thy ===== *)
theory Rtp2PsProcessor
  imports RtpFrameOrganizer PsRtpEncap H264Packager
begin

unbundle bit_operations_syntax

text \<open>
  \<open>CRtp2PsProcessor\<close> (\<open>svs_adapter_rtp_to_ps_Processor.cpp\<close>): RTP packets of a camera go through a
  frame organizer for video or audio; a complete frame is reassembled from its packets (FU-A
  fragments are joined) in a cache of one megabyte and sent on as RTP packets with a program stream.

  Cache and write pointer are the bytes written so far, as in the encoder.  The organizer's and the
  encapsulator's callbacks do not touch their callers, so their events are processed in order after
  the call.  Arguments stand for the clock, for the answer of the business manager in
  \<open>GetRecvVideoPT\<close> and for allocations from the block pool.  Reading behind the data of a packet is
  \<^const>\<open>None\<close>.
\<close>

definition RTP_FRAME_CACHE_SIZE :: nat where "RTP_FRAME_CACHE_SIZE = 1024 * 1024"
definition H264_NALU_TYPE_FU_A :: u8 where "H264_NALU_TYPE_FU_A = 28"

record CRtp2PsProcessor =
  m_VideoRtpFrameOrganizer :: CRtpFrameOrganizer
  m_AudioRtpFrameOrganizer :: CRtpFrameOrganizer
  m_PsRtpEncap :: CPsRtpEncap
  m_ucRecvVideoPT :: u8
  frame_cache :: "bytes option"
  m_pSendSession :: bool

text \<open>
  \<open>Init\<close> of the four parts, with the outcome of \<open>CStreamMediaProcessor::Init\<close> and of the allocations.
\<close>

definition rtp2ps_Init ::
  "bool \<Rightarrow> bool \<Rightarrow> (nat \<Rightarrow> bool) \<Rightarrow> bool \<Rightarrow> u16 \<Rightarrow> CRtp2PsProcessor \<Rightarrow> retcode \<times> CRtp2PsProcessor" where
  "rtp2ps_Init base_ok enc_alloc frame_alloc cache_alloc rnd x =
     (if \<not> base_ok then (RET_FAIL, x)
      else case ps_encap_init True enc_alloc rnd (m_PsRtpEncap x) of (r1, e) \<Rightarrow>
        let x1 = x\<lparr>m_PsRtpEncap := e\<rparr> in
        if r1 \<noteq> RET_OK then (RET_FAIL, x1)
        else case organizer_init True 3 frame_alloc (m_VideoRtpFrameOrganizer x1) of (r2, v) \<Rightarrow>
          let x2 = x1\<lparr>m_VideoRtpFrameOrganizer := v\<rparr> in
          if r2 \<noteq> RET_OK then (RET_FAIL, x2)
          else case organizer_init True 3 frame_alloc (m_AudioRtpFrameOrganizer x2) of (r3, a) \<Rightarrow>
            let x3 = x2\<lparr>m_AudioRtpFrameOrganizer := a\<rparr> in
            if r3 \<noteq> RET_OK then (RET_FAIL, x3)
            else (RET_OK, if frame_cache x3 = None \<and> cache_alloc then x3\<lparr>frame_cache := Some []\<rparr> else x3))"

text \<open>The data of a block after the packet object was set to it.\<close>

definition block_after_parse :: "bytes \<Rightarrow> CRtpPacket \<Rightarrow> bytes" where
  "block_after_parse b p = (if length b < RTP_FIXED_HEADER_SIZE then b else rtp_bytes p)"

definition h264_head :: "u8 \<Rightarrow> u8 \<Rightarrow> u8" where
  "h264_head fu nh = bf_set 0 5 (bf_get 0 5 nh) (bf_set 5 2 (bf_get 5 2 fu) (bf_set 7 1 (bf_get 7 1 fu) 0))"

text \<open>
  The loop of \<open>checkVideoRtpFrame\<close>: packet object, free cache, \<open>bRemoveHead\<close> and the cache.  A read
  pointer behind the write pointer makes the remaining length wrap to a huge value.
\<close>

definition append_cache :: "bytes \<Rightarrow> nat \<Rightarrow> bool \<Rightarrow> bytes \<Rightarrow> (nat \<times> bytes) option" where
  "append_cache rest unCacheSize past cache =
     (if \<not> past \<and> length rest \<le> unCacheSize then Some (unCacheSize - length rest, cache @ rest) else None)"

fun check_video :: "bytes list \<Rightarrow> CRtpPacket \<Rightarrow> nat \<Rightarrow> bool \<Rightarrow> bytes \<Rightarrow> (retcode \<times> bytes) option" where
  "check_video [] p unCacheSize bRemoveHead cache = Some (RET_OK, cache)"
| "check_video (b # bs) p unCacheSize bRemoveHead cache =
     (let p1 = snd (ParsePacket (Some b) p);
          rest = drop (GetHeadLen p1) (block_after_parse b p1)
      in if rest = [] then None
         else if bf_get 0 5 (rest ! 0) = H264_NALU_TYPE_FU_A
         then if bRemoveHead
              then if length rest < 2 \<or> RTP_FRAME_CACHE_SIZE \<le> length cache then None
                   else (case append_cache (drop 2 rest) ((unCacheSize + 2 ^ 32 - 1) mod 2 ^ 32) False
                              (cache @ [h264_head (rest ! 0) (rest ! 1)]) of
                           None \<Rightarrow> Some (RET_FAIL, [])
                         | Some (size', cache') \<Rightarrow> check_video bs p1 size' False cache')
              else (case append_cache (drop 2 rest) unCacheSize (length rest < 2) cache of
                      None \<Rightarrow> Some (RET_FAIL, [])
                    | Some (size', cache') \<Rightarrow> check_video bs p1 size' bRemoveHead cache')
         else (case append_cache rest unCacheSize False cache of
                 None \<Rightarrow> Some (RET_FAIL, [])
               | Some (size', cache') \<Rightarrow> check_video bs p1 size' bRemoveHead cache'))"

definition checkVideoRtpFrame :: "bytes list \<Rightarrow> bytes option \<Rightarrow> (retcode \<times> bytes option) option" where
  "checkVideoRtpFrame rtpFrameList cache =
     (case cache of None \<Rightarrow> Some (RET_FAIL, None)
      | Some c \<Rightarrow> map_option (\<lambda>(r, c'). (r, Some c'))
          (check_video rtpFrameList CRtpPacket_new (RTP_FRAME_CACHE_SIZE - 4) True c))"

fun check_audio :: "bytes list \<Rightarrow> CRtpPacket \<Rightarrow> nat \<Rightarrow> bytes \<Rightarrow> retcode \<times> bytes" where
  "check_audio [] p unCacheSize cache = (RET_OK, cache)"
| "check_audio (b # bs) p unCacheSize cache =
     (let p1 = snd (ParsePacket (Some b) p);
          b1 = block_after_parse b p1
      in case append_cache (drop (GetHeadLen p1) b1) unCacheSize (length b1 < GetHeadLen p1) cache of
           None \<Rightarrow> (RET_FAIL, [])
         | Some (size', cache') \<Rightarrow> check_audio bs p1 size' cache')"

text \<open>\<open>bCheckFrame\<close> is never set, so the completeness check at the end does nothing.\<close>

definition checkAudioRtpFrame :: "bytes list \<Rightarrow> bytes option \<Rightarrow> retcode \<times> bytes option" where
  "checkAudioRtpFrame rtpFrameList cache =
     (case cache of None \<Rightarrow> (RET_FAIL, None)
      | Some c \<Rightarrow> (case check_audio rtpFrameList CRtpPacket_new RTP_FRAME_CACHE_SIZE c of
                     (r, c') \<Rightarrow> (r, Some c')))"

definition first_timestamp :: "bytes list \<Rightarrow> u32" where
  "first_timestamp l = GetTimeStamp (snd (ParsePacket (Some (hd l)) CRtpPacket_new))"

definition HandleVideoRtpFrame ::
  "u32 \<Rightarrow> bytes list \<Rightarrow> CRtp2PsProcessor \<Rightarrow> (CRtp2PsProcessor \<times> bytes list) option" where
  "HandleVideoRtpFrame now l x =
     (case frame_cache x of None \<Rightarrow> Some (x, [])
      | Some c \<Rightarrow>
          (case checkVideoRtpFrame l (Some (c @ [0, 0, 0, 1])) of
             None \<Rightarrow> None
           | Some (r, cache) \<Rightarrow>
               let x1 = x\<lparr>frame_cache := cache\<rparr>
               in if r \<noteq> RET_OK then Some (x1, [])
                  else if \<not> m_pSendSession x1 then Some (x1, [])
                  else case insertVideoFrame cache (first_timestamp l) now (m_PsRtpEncap x1) of
                         None \<Rightarrow> None
                       | Some (ret, e, pkts) \<Rightarrow> Some (x1\<lparr>m_PsRtpEncap := e\<rparr>, pkts)))"

definition HandleAudioRtpFrame ::
  "u32 \<Rightarrow> bytes list \<Rightarrow> CRtp2PsProcessor \<Rightarrow> (CRtp2PsProcessor \<times> bytes list) option" where
  "HandleAudioRtpFrame now l x =
     (if frame_cache x = None then Some (x, [])
      else case checkAudioRtpFrame l (frame_cache x) of (r, cache) \<Rightarrow>
        let x1 = x\<lparr>frame_cache := cache\<rparr>
        in if r \<noteq> RET_OK then Some (x1, [])
           else if \<not> m_pSendSession x1 then Some (x1, [])
           else case insertAudioFrame cache (first_timestamp l) now (m_PsRtpEncap x1) of
                  None \<Rightarrow> None
                | Some (ret, e, pkts) \<Rightarrow> Some (x1\<lparr>m_PsRtpEncap := e\<rparr>, pkts))"

text \<open>\<open>GetRecvVideoPT\<close>; \<open>recv\<close> is the payload type of the receiving session, if it is found.\<close>

definition GetRecvVideoPT :: "u8 option \<Rightarrow> CRtp2PsProcessor \<Rightarrow> u8 \<times> CRtp2PsProcessor" where
  "GetRecvVideoPT recv x =
     (if m_ucRecvVideoPT x \<noteq> 0 then (m_ucRecvVideoPT x, x)
      else case recv of None \<Rightarrow> (m_ucRecvVideoPT x, x)
           | Some pt \<Rightarrow> (pt, x\<lparr>m_ucRecvVideoPT := pt\<rparr>))"

definition handleRtpFrame ::
  "u32 \<Rightarrow> u8 option \<Rightarrow> bytes list \<Rightarrow> CRtp2PsProcessor \<Rightarrow> (CRtp2PsProcessor \<times> bytes list) option" where
  "handleRtpFrame now recv l x =
     (if l = [] then Some (x, [])
      else if frame_cache x \<noteq> None \<and> frame_cache x \<noteq> Some [] then Some (x, [])
      else
        let ucPT = GetPayloadType (snd (ParsePacket (Some (hd l)) CRtpPacket_new))
        in case GetRecvVideoPT recv x of (vpt, x1) \<Rightarrow>
             (case (if ucPT = vpt then HandleVideoRtpFrame now l x1 else HandleAudioRtpFrame now l x1) of
                None \<Rightarrow> None
              | Some (x2, pkts) \<Rightarrow> Some (x2\<lparr>frame_cache := map_option (\<lambda>_. []) (frame_cache x2)\<rparr>, pkts)))"

text \<open>\<open>handlePsRtpPacket\<close>: copy into a pool block, if there is one, and send.\<close>

definition handlePsRtpPacket :: "bool \<Rightarrow> bytes \<Rightarrow> bytes list" where
  "handlePsRtpPacket alloc pkt =
     (if pkt = [] then [] else if \<not> alloc then []
      else [if length pkt \<le> STREAM_MSG_BLOCK_SIZE then pkt else []])"

fun send_out :: "(nat \<Rightarrow> bool) \<Rightarrow> nat \<Rightarrow> bytes list \<Rightarrow> bytes list" where
  "send_out alloc i [] = []"
| "send_out alloc i (p # ps) = handlePsRtpPacket (alloc i) p @ send_out alloc (Suc i) ps"

fun handle_org_events ::
  "u32 \<Rightarrow> u8 option \<Rightarrow> org_event list \<Rightarrow> CRtp2PsProcessor \<Rightarrow> (CRtp2PsProcessor \<times> bytes list) option" where
  "handle_org_events now recv [] x = Some (x, [])"
| "handle_org_events now recv (FreeBlock b # evs) x = handle_org_events now recv evs x"
| "handle_org_events now recv (Deliver bs # evs) x =
     (case handleRtpFrame now recv (map snd bs) x of None \<Rightarrow> None
      | Some (x1, pkts1) \<Rightarrow>
          (case handle_org_events now recv evs x1 of None \<Rightarrow> None
           | Some (x2, pkts2) \<Rightarrow> Some (x2, pkts1 @ pkts2)))"

text \<open>
  \<open>Send\<close> up to the callback: \<open>alloc_in\<close> says whether the pool has a block for the incoming packet, \<open>dup\<close> is the duplicate
  the organizer makes.  A packet that does not fit a block leaves the block empty.
\<close>

definition rtp2ps_receive ::
  "u32 \<Rightarrow> u8 option \<Rightarrow> bool \<Rightarrow> nat option \<Rightarrow> bytes option \<Rightarrow> CRtp2PsProcessor \<Rightarrow>
   (CRtp2PsProcessor \<times> bytes list) option" where
  "rtp2ps_receive now recv alloc_in dup pMb x =
     (case pMb of None \<Rightarrow> Some (x, [])
      | Some mb \<Rightarrow>
          if \<not> m_pSendSession x then Some (x, [])
          else if \<not> alloc_in then Some (x, [])
          else
            let blk = (if length mb \<le> STREAM_MSG_BLOCK_SIZE then mb else []);
                p = snd (ParsePacket (Some blk) CRtpPacket_new);
                blk1 = block_after_parse blk p;
                ucPT = GetPayloadType p
            in case GetRecvVideoPT recv x of (vpt, x1) \<Rightarrow>
                 if ucPT = vpt
                 then (case insertRtpPacket (Some blk1) dup (m_VideoRtpFrameOrganizer x1) of
                         None \<Rightarrow> None
                       | Some (r, v, evs) \<Rightarrow> handle_org_events now recv evs (x1\<lparr>m_VideoRtpFrameOrganizer := v\<rparr>))
                 else (case insertRtpPacket (Some blk1) dup (m_AudioRtpFrameOrganizer x1) of
                         None \<Rightarrow> None
                       | Some (r, a, evs) \<Rightarrow> handle_org_events now recv evs (x1\<lparr>m_AudioRtpFrameOrganizer := a\<rparr>)))"

text \<open>
  The whole of \<open>Send\<close>: every packet that the encapsulator makes on the way goes through
  \<open>handlePsRtpPacket\<close>, which sends it with \<open>CDirectProcessor::Send\<close>; \<open>alloc_out\<close> says for which of
  them the pool has a block.
\<close>

definition rtp2ps_Send ::
  "u32 \<Rightarrow> u8 option \<Rightarrow> bool \<Rightarrow> nat option \<Rightarrow> (nat \<Rightarrow> bool) \<Rightarrow> bytes option \<Rightarrow> CRtp2PsProcessor \<Rightarrow>
   (CRtp2PsProcessor \<times> bytes list) option" where
  "rtp2ps_Send now recv alloc_in dup alloc_out pMb x =
     map_option (\<lambda>(x', pkts). (x', send_out alloc_out 0 pkts)) (rtp2ps_receive now recv alloc_in dup pMb x)"

section \<open>Joining the packets of a NAL unit\<close>

lemma ParsePacket_simple_eq:
  fixes pt :: u8 and mk :: bool and sq :: u16 and ts ssrc :: u32 and payload :: bytes
  assumes "pt < 128"
  defines "b \<equiv> encode_packet (simple_header mk pt sq ts ssrc) payload"
  shows "\<exists>p. ParsePacket (Some b) q = (RET_OK, p) \<and> GetHeadLen p = 12 \<and> rtp_bytes p = b \<and>
    GetPayloadType p = pt \<and> GetTimeStamp p = ts \<and> GetSeqNum p = sq \<and> (GetMarker p \<longleftrightarrow> mk)"
proof -
  let ?h = "simple_header mk pt sq ts ssrc"
  have b: "b = encode_fixed ?h @ payload" by (simp add: b_def encode_packet_simple)
  note f = encode_fixed_fields [OF simple_header_valid [OF assms(1)], of mk sq ts ssrc payload, folded b]
  have c: "rh_csrcs ?h = []" "rh_ext ?h = None" "rh_padding ?h = 0" by (simp_all add: simple_header_def)
  have l: "12 \<le> length b" "1 < length b" using b by simp_all
  have "head_ok b 12" using f c l by (simp add: head_ok_def Let_def)
  from ParsePacket_head_ok [OF this, of q] obtain p where
    p: "ParsePacket (Some b) q = (RET_OK, p)" "parsed b 12 q p" by blast
  have "clear_padding b = b" using f(3) c by (simp add: clear_padding_def)
  with p parsed_getters [OF p(2) l(2)] f show ?thesis by auto
qed

lemma block_after_parse_simple:
  assumes "pt < 128" "b = encode_packet (simple_header mk pt sq ts ssrc) payload"
    "p1 = snd (ParsePacket (Some b) q)"
  shows "GetHeadLen p1 = 12" "block_after_parse b p1 = b" "drop 12 b = payload"
  using ParsePacket_simple_eq [OF assms(1), of mk sq ts ssrc payload q] assms(2,3)
  by (auto simp: block_after_parse_def encode_packet_simple)

lemma h264_head_fua: "h264_head (fua_indicator nal 0) (fua_header e s nal 0) = nal"
proof (rule bit_word_eqI)
  fix n :: nat assume "n < LENGTH(8)"
  then consider "n < 5" | "n = 5" | "n = 6" | "n = 7" by force
  then show "bit (h264_head (fua_indicator nal 0) (fua_header e s nal 0)) n = bit nal n"
    by cases (auto simp: h264_head_def fua_indicator_def fua_header_def bf_simps simp del: bf_get_set_same)
qed

lemma fua_indicator_type: "bf_get 0 5 (fua_indicator nal 0) = 28"
proof -
  have "bf_get 0 5 (fua_indicator nal 0) = take_bit 5 28"
    unfolding fua_indicator_def by (rule bf_get_set_same) simp
  then show ?thesis by (simp add: take_bit_eq_mod)
qed

text \<open>The fragments after the first one are appended.\<close>

lemma check_video_rest:
  assumes "pt < 128" "length (concat chunks) \<le> sz"
    "length frs = length chunks" "\<forall>i < length frs. \<exists>sq l f. frs ! i = fua_fragment pt sq ts l f nal (chunks ! i)"
  shows "check_video frs p sz False cache = Some (RET_OK, cache @ concat chunks)"
  using assms(2-4)
proof (induction frs arbitrary: chunks p sz cache)
  case Nil
  then show ?case by simp
next
  case (Cons b frs)
  obtain c cs where cs: "chunks = c # cs" using Cons.prems(2) by (cases chunks) auto
  obtain sq l f where b: "b = fua_fragment pt sq ts l f nal c" using Cons.prems(3) cs by (auto dest: spec [of _ 0])
  have r: "\<forall>i < length frs. \<exists>sq l f. frs ! i = fua_fragment pt sq ts l f nal (cs ! i)"
  proof (intro allI impI)
    fix i assume "i < length frs"
    then have "Suc i < length (b # frs)" by simp
    with Cons.prems(3) have "\<exists>sq l f. (b # frs) ! Suc i = fua_fragment pt sq ts l f nal (chunks ! Suc i)"
      by blast
    then show "\<exists>sq l f. frs ! i = fua_fragment pt sq ts l f nal (cs ! i)" by (simp add: cs)
  qed
  define p1 where "p1 = snd (ParsePacket (Some b) p)"
  note e = block_after_parse_simple [OF assms(1) b [unfolded fua_fragment_def] p1_def]
  have "check_video (b # frs) p sz False cache = check_video frs p1 (sz - length c) False (cache @ c)"
    unfolding check_video.simps p1_def [symmetric] Let_def e
    using Cons.prems(1) cs fua_indicator_type [of nal] by (simp add: H264_NALU_TYPE_FU_A_def append_cache_def)
  then show ?case using Cons.IH [of cs "sz - length c" p1 "cache @ c"] Cons.prems cs r by simp
qed

text \<open>What the packager sends for a NAL unit is put together to the NAL unit.\<close>

lemma check_video_nal:
  assumes "pt < 128" "nal \<noteq> []" "length nal \<le> sz" "sz < 2 ^ 32" "length cache + sz \<le> RTP_FRAME_CACHE_SIZE"
    "length nal \<le> 1401 \<Longrightarrow> bf_get 0 5 (hd nal) \<noteq> 28"
  shows "check_video (nal_packets pt sq ts nal) p sz True cache = Some (RET_OK, cache @ nal)"
proof (cases "length nal \<le> 1401")
  case True
  define b where "b = encode_packet (simple_header True pt sq ts (htonl RTP_SSRC)) nal"
  define p1 where "p1 = snd (ParsePacket (Some b) p)"
  note e = block_after_parse_simple [OF assms(1) b_def p1_def]
  have "nal ! 0 = hd nal" using assms(2) by (simp add: hd_conv_nth)
  then show ?thesis
    using True assms e by (simp add: nal_packets_def b_def [symmetric] p1_def [symmetric]
        H264_NALU_TYPE_FU_A_def append_cache_def del: drop_eq_Nil)
next
  case False
  let ?k = "(length nal - 2) div 1400"
  let ?fr = "\<lambda>j. fua_fragment pt (sq + of_nat j) ts (j = ?k) (j = 0) (nal ! 0) (fua_piece nal j)"
  have ps: "nal_packets pt sq ts nal = ?fr 0 # map ?fr [1..<Suc ?k]"
    using False by (simp add: nal_packets_def fua_packets_def upt_conv_Cons del: upt_Suc)
  define b where "b = ?fr 0"
  define p1 where "p1 = snd (ParsePacket (Some b) p)"
  note e = block_after_parse_simple [OF assms(1) b_def [unfolded fua_fragment_def] p1_def]
  have tl: "fua_piece nal 0 @ concat (map (fua_piece nal) [1..<Suc ?k]) = tl nal"
    using fua_packets_pieces [of nal] False by (simp add: upt_conv_Cons del: upt_Suc)
  have len: "length (fua_piece nal 0) + length (concat (map (fua_piece nal) [1..<Suc ?k])) = length nal - 1"
    using arg_cong [OF tl, of length] by simp
  have dec: "(sz + 2 ^ 32 - 1) mod 2 ^ 32 = sz - 1"
  proof -
    have "sz + 2 ^ 32 - 1 = (sz - 1) + 2 ^ 32" using assms(3) False by simp
    moreover have "(sz - 1) mod 2 ^ 32 = sz - 1" using assms(4) by (intro mod_less) simp
    ultimately show ?thesis by (simp only: mod_add_self2)
  qed
  have room: "length cache < RTP_FRAME_CACHE_SIZE" "length (fua_piece nal 0) \<le> sz - 1"
    using assms(3,5) False len by linarith+
  have "check_video (nal_packets pt sq ts nal) p sz True cache =
      check_video (map ?fr [1..<Suc ?k]) p1 (sz - 1 - length (fua_piece nal 0)) False
        ((cache @ [nal ! 0]) @ fua_piece nal 0)"
    unfolding ps b_def [symmetric] check_video.simps p1_def [symmetric] dec Let_def e
    using room fua_indicator_type [of "nal ! 0"]
    by (simp add: H264_NALU_TYPE_FU_A_def append_cache_def h264_head_fua del: upt_Suc)
  also have "\<dots> = Some (RET_OK, ((cache @ [nal ! 0]) @ fua_piece nal 0) @ concat (map (fua_piece nal) [1..<Suc ?k]))"
    using assms(1,3) len by (intro check_video_rest) (auto simp del: upt_Suc)
  also have "\<dots> = Some (RET_OK, cache @ nal)"
    using tl assms(2) by (cases nal) simp_all
  finally show ?thesis .
qed

text \<open>
  C15.  Fragmentation and reassembly agree: the packets that \<open>SendNaluVideoData\<close> sends for a NAL unit of
  any size up to the cache are put together by \<open>checkVideoRtpFrame\<close>, behind what is in the cache, to
  exactly this NAL unit.
\<close>

theorem fua_roundtrip:
  assumes "packager_ready x" "nal \<noteq> []" "length nal \<le> RTP_FRAME_CACHE_SIZE - 4"
    "bf_get 0 5 (hd nal) \<noteq> H264_NALU_TYPE_FU_A" "length c \<le> 4"
  shows "\<exists>x' pkts. SendNaluVideoData nal ts x = Some (x', pkts) \<and> packager_ready x' \<and>
    checkVideoRtpFrame pkts (Some c) = Some (RET_OK, Some (c @ nal))"
proof -
  have l: "length nal < 2 ^ 32" using assms(3) by (simp add: RTP_FRAME_CACHE_SIZE_def)
  let ?pt = "ucast (m_ulVideoPt x) :: u8"
  have pt: "?pt < 128" using assms(1) by (intro ucast_pt) (simp add: packager_ready_def)
  obtain x' where "SendNaluVideoData nal ts x = Some (x', nal_packets ?pt (m_VideoRTPSeq x)
      (ts * (m_ulVideoClockFreq x div 1000)) nal)" "packager_ready x'"
    using SendNaluVideoData_eq [OF assms(1,2) l, of ts] by blast
  moreover have "check_video (nal_packets ?pt (m_VideoRTPSeq x) (ts * (m_ulVideoClockFreq x div 1000)) nal)
      CRtpPacket_new (RTP_FRAME_CACHE_SIZE - 4) True c = Some (RET_OK, c @ nal)"
    using assms(2-5) by (intro check_video_nal [OF pt]) (simp_all add: RTP_FRAME_CACHE_SIZE_def H264_NALU_TYPE_FU_A_def)
  ultimately show ?thesis by (simp add: checkVideoRtpFrame_def)
qed

theorem fua_roundtrip_witness:
  "packager_ready example_packager \<and>
   (\<exists>x' pkts. SendNaluVideoData (0x65 # replicate 2999 7) 40 example_packager = Some (x', pkts) \<and>
      checkVideoRtpFrame pkts (Some [0, 0, 0, 1]) = Some (RET_OK, Some ([0, 0, 0, 1] @ 0x65 # replicate 2999 7)))"
proof -
  have t: "bf_get 0 5 (0x65 :: u8) = 5" by code_simp
  have "0x65 # replicate 2999 (7 :: u8) \<noteq> []" "length (0x65 # replicate 2999 (7 :: u8)) \<le> RTP_FRAME_CACHE_SIZE - 4"
    "bf_get 0 5 (hd (0x65 # replicate 2999 (7 :: u8))) \<noteq> H264_NALU_TYPE_FU_A" "length [0, 0, 0, 1 :: u8] \<le> 4"
    using t by (simp_all add: RTP_FRAME_CACHE_SIZE_def H264_NALU_TYPE_FU_A_def)
  from fua_roundtrip [OF example_packager this, of 40] example_packager show ?thesis by blast
qed

section \<open>The whole path\<close>

text \<open>A processor with a sending session, between two frames.\<close>

definition proc_ready :: "u8 \<Rightarrow> CRtp2PsProcessor \<Rightarrow> bool" where
  "proc_ready pt x \<longleftrightarrow> m_pSendSession x \<and> frame_cache x = Some [] \<and> m_ucRecvVideoPT x = pt \<and> pt \<noteq> 0 \<and>
     encap_ready (m_PsRtpEncap x) \<and> enc_idle (m_MpegPsEncap (m_PsRtpEncap x))"

lemma handleRtpFrame_nal:
  assumes "proc_ready pt x" "pt < 128" "nal \<noteq> []" "length nal \<le> RTP_FRAME_CACHE_SIZE - 4"
    "bf_get 0 5 (hd nal) \<noteq> H264_NALU_TYPE_FU_A"
  shows "\<exists>x' pkts. handleRtpFrame now recv (nal_packets pt sq ts nal) x = Some (x', pkts) \<and> proc_ready pt x' \<and>
    m_VideoRtpFrameOrganizer x' = m_VideoRtpFrameOrganizer x \<and>
    writePsStream True (Some (concat (map (drop 12) pkts))) ts' = Some (DecRet 0 [VideoEs ([0, 0, 0, 1] @ nal) ts']) \<and>
    (\<forall>pkt \<in> set pkts. pkt \<noteq> [] \<and> length pkt \<le> MAX_ENCAP_RTP_SIZE)"
proof -
  let ?l = "nal_packets pt sq ts nal"
  have ne: "?l \<noteq> []" by (simp add: nal_packets_def fua_packets_def)
  obtain payload where h: "hd ?l = encode_packet (simple_header (0 = length ?l - 1) pt sq ts (htonl RTP_SSRC)) payload"
    using nal_packets_nth [of 0 pt sq ts nal] ne by (auto simp: hd_conv_nth)
  have fst: "GetPayloadType (snd (ParsePacket (Some (hd ?l)) CRtpPacket_new)) = pt" "first_timestamp ?l = ts"
    using ParsePacket_simple_eq [OF assms(2), of "0 = length ?l - 1" sq ts "htonl RTP_SSRC" payload CRtpPacket_new]
    unfolding first_timestamp_def h by auto
  have chk: "checkVideoRtpFrame ?l (Some [0, 0, 0, 1]) = Some (RET_OK, Some ([0, 0, 0, 1] @ nal))"
    using assms(3-5) check_video_nal [OF assms(2,3), of "RTP_FRAME_CACHE_SIZE - 4" "[0, 0, 0, 1]" sq ts CRtpPacket_new]
    by (simp add: checkVideoRtpFrame_def RTP_FRAME_CACHE_SIZE_def H264_NALU_TYPE_FU_A_def)
  have x: "m_pSendSession x" "frame_cache x = Some []" "m_ucRecvVideoPT x = pt" "pt \<noteq> 0"
    "encap_ready (m_PsRtpEncap x)" "enc_idle (m_MpegPsEncap (m_PsRtpEncap x))"
    using assms(1) by (simp_all add: proc_ready_def)
  have "MIN_NALU_SIZE \<le> length ([0, 0, 0, 1] @ nal)" "length ([0, 0, 0, 1] @ nal) \<le> MAX_BUFFER_LEN"
    using assms(3,4) by (cases nal, simp_all add: MIN_NALU_SIZE_def MAX_BUFFER_LEN_def RTP_FRAME_CACHE_SIZE_def)
  from insertVideoFrame_decodes_aux [OF x(5,6) this, of ts now ts'] obtain e pkts where
    e: "insertVideoFrame (Some ([0, 0, 0, 1] @ nal)) ts now (m_PsRtpEncap x) = Some (RET_OK, e, pkts)"
    "encap_ready e" "enc_idle (m_MpegPsEncap e)"
    "writePsStream True (Some (concat (map (drop 12) pkts))) ts' = Some (DecRet 0 [VideoEs ([0, 0, 0, 1] @ nal) ts'])"
    "\<forall>pkt \<in> set pkts. pkt \<noteq> [] \<and> length pkt \<le> MAX_ENCAP_RTP_SIZE"
    by auto
  have "handleRtpFrame now recv ?l x =
      Some (x\<lparr>frame_cache := Some [], m_PsRtpEncap := e\<rparr>, pkts)"
    using ne x fst chk e(1) by (simp add: handleRtpFrame_def GetRecvVideoPT_def HandleVideoRtpFrame_def)
  with e x show ?thesis by (simp add: proc_ready_def)
qed

text \<open>
  A complete video frame becomes the same frame in a program stream: for the packets of a NAL unit
  \<open>handleRtpFrame\<close> sends RTP packets whose payloads form a program stream that decodes to a start code and
  this NAL unit, and the processor is ready for the next frame.
\<close>

theorem handleRtpFrame_transcodes:
  assumes "proc_ready pt x" "pt < 128" "nal \<noteq> []" "length nal \<le> RTP_FRAME_CACHE_SIZE - 4"
    "bf_get 0 5 (hd nal) \<noteq> H264_NALU_TYPE_FU_A"
  shows "\<exists>x' pkts. handleRtpFrame now recv (nal_packets pt sq ts nal) x = Some (x', pkts) \<and> proc_ready pt x' \<and>
    writePsStream True (Some (concat (map (drop RTP_FIXED_HEADER_SIZE) pkts))) ts'
      = Some (DecRet 0 [VideoEs ([0, 0, 0, 1] @ nal) ts'])"
  using handleRtpFrame_nal [OF assms, of now recv sq ts ts'] by auto

definition example_proc :: CRtp2PsProcessor where
  "example_proc = \<lparr>m_VideoRtpFrameOrganizer = example_org, m_AudioRtpFrameOrganizer = example_org,
     m_PsRtpEncap = encap_start 0, m_ucRecvVideoPT = 96, frame_cache = Some [], m_pSendSession = True\<rparr>"

lemma example_proc: "proc_ready 96 example_proc" "m_VideoRtpFrameOrganizer example_proc = example_org"
  by (simp_all add: example_proc_def proc_ready_def)

lemma example_type: "bf_get 0 5 (0x65 :: u8) \<noteq> H264_NALU_TYPE_FU_A"
  unfolding H264_NALU_TYPE_FU_A_def by code_simp

theorem handleRtpFrame_transcodes_witness:
  "proc_ready 96 example_proc \<and>
   (\<exists>x' pkts. handleRtpFrame 1 None (nal_packets 96 7 3600 (0x65 # replicate 1999 5)) example_proc = Some (x', pkts) \<and>
      writePsStream True (Some (concat (map (drop RTP_FIXED_HEADER_SIZE) pkts))) 3600
        = Some (DecRet 0 [VideoEs ([0, 0, 0, 1] @ 0x65 # replicate 1999 5) 3600]))"
proof -
  have "(96 :: u8) < 128" "0x65 # replicate 1999 (5 :: u8) \<noteq> []"
    "length (0x65 # replicate 1999 (5 :: u8)) \<le> RTP_FRAME_CACHE_SIZE - 4"
    "bf_get 0 5 (hd (0x65 # replicate 1999 (5 :: u8))) \<noteq> H264_NALU_TYPE_FU_A"
    using example_type by (simp_all add: RTP_FRAME_CACHE_SIZE_def)
  from handleRtpFrame_transcodes [OF example_proc(1) this, of 1 None 7 3600 3600] example_proc show ?thesis by blast
qed

text \<open>The events of an organizer matter to the processor only through the frames they deliver.\<close>

lemma handle_org_events_deliveries:
  "handle_org_events now recv evs x = handle_org_events now recv (map Deliver (deliveries evs)) x"
proof (induction evs arbitrary: x)
  case (Cons e evs)
  then show ?case
    by (cases e) (auto simp: deliveries_def cong: option.case_cong prod.case_cong)
qed (simp add: deliveries_def)

lemma handle_org_events_append:
  "handle_org_events now recv (xs @ ys) x =
     (case handle_org_events now recv xs x of None \<Rightarrow> None
      | Some (x1, p1) \<Rightarrow> (case handle_org_events now recv ys x1 of None \<Rightarrow> None
          | Some (x2, p2) \<Rightarrow> Some (x2, p1 @ p2)))"
proof (induction xs arbitrary: x)
  case Nil
  then show ?case by (simp split: option.splits)
next
  case (Cons e xs)
  then show ?case by (cases e) (auto split: option.splits)
qed

lemma HandleFrame_org:
  "HandleVideoRtpFrame now l (x\<lparr>m_VideoRtpFrameOrganizer := v\<rparr>) =
     map_option (\<lambda>(y, p). (y\<lparr>m_VideoRtpFrameOrganizer := v\<rparr>, p)) (HandleVideoRtpFrame now l x)"
  "HandleAudioRtpFrame now l (x\<lparr>m_VideoRtpFrameOrganizer := v\<rparr>) =
     map_option (\<lambda>(y, p). (y\<lparr>m_VideoRtpFrameOrganizer := v\<rparr>, p)) (HandleAudioRtpFrame now l x)"
  unfolding HandleVideoRtpFrame_def HandleAudioRtpFrame_def Let_def
  by (simp_all split: option.split prod.split)

lemma handleRtpFrame_org:
  "handleRtpFrame now recv l (x\<lparr>m_VideoRtpFrameOrganizer := v\<rparr>) =
     map_option (\<lambda>(y, p). (y\<lparr>m_VideoRtpFrameOrganizer := v\<rparr>, p)) (handleRtpFrame now recv l x)"
proof -
  obtain vpt x1 where g: "GetRecvVideoPT recv x = (vpt, x1)" by (rule prod.exhaust)
  then have g': "GetRecvVideoPT recv (x\<lparr>m_VideoRtpFrameOrganizer := v\<rparr>) = (vpt, x1\<lparr>m_VideoRtpFrameOrganizer := v\<rparr>)"
    by (auto simp: GetRecvVideoPT_def split: if_splits option.splits)
  show ?thesis
    unfolding handleRtpFrame_def Let_def g g' by (simp add: HandleFrame_org split: option.split)
qed

lemma handle_org_events_org:
  "handle_org_events now recv evs (x\<lparr>m_VideoRtpFrameOrganizer := v\<rparr>) =
     map_option (\<lambda>(y, p). (y\<lparr>m_VideoRtpFrameOrganizer := v\<rparr>, p)) (handle_org_events now recv evs x)"
proof (induction evs arbitrary: x)
  case (Cons e evs)
  show ?case
  proof (cases e)
    case (Deliver bs)
    then show ?thesis using Cons by (auto simp: handleRtpFrame_org split: option.splits)
  next
    case (FreeBlock b)
    then show ?thesis using Cons by simp
  qed
qed simp

lemma HandleFrame_keeps:
  "HandleVideoRtpFrame now l x = Some (y, p) \<Longrightarrow>
     m_ucRecvVideoPT y = m_ucRecvVideoPT x \<and> m_pSendSession y = m_pSendSession x"
  "HandleAudioRtpFrame now l x = Some (y, p) \<Longrightarrow>
     m_ucRecvVideoPT y = m_ucRecvVideoPT x \<and> m_pSendSession y = m_pSendSession x"
  unfolding HandleVideoRtpFrame_def HandleAudioRtpFrame_def Let_def
  by (auto split: option.split_asm prod.split_asm if_split_asm)

lemma handleRtpFrame_keeps:
  assumes "handleRtpFrame now recv l x = Some (y, p)" "m_ucRecvVideoPT x \<noteq> 0"
  shows "m_ucRecvVideoPT y = m_ucRecvVideoPT x \<and> m_pSendSession y = m_pSendSession x"
proof -
  let ?v = "GetPayloadType (snd (ParsePacket (Some (hd l)) CRtpPacket_new)) = m_ucRecvVideoPT x"
  have "y = x \<or> (\<exists>z q. (if ?v then HandleVideoRtpFrame now l x else HandleAudioRtpFrame now l x) = Some (z, q) \<and>
      y = z\<lparr>frame_cache := map_option (\<lambda>_. []) (frame_cache z)\<rparr>)"
    using assms by (auto simp: handleRtpFrame_def GetRecvVideoPT_def Let_def split: option.split_asm if_split_asm)
  then show ?thesis using HandleFrame_keeps by (auto split: if_split_asm)
qed

lemma handle_org_events_keeps:
  "handle_org_events now recv evs x = Some (y, p) \<Longrightarrow> m_ucRecvVideoPT x \<noteq> 0 \<Longrightarrow>
     m_ucRecvVideoPT y = m_ucRecvVideoPT x \<and> m_pSendSession y = m_pSendSession x"
proof (induction evs arbitrary: x y p)
  case (Cons e evs)
  show ?case
  proof (cases e)
    case (Deliver bs)
    then obtain x1 p1 where "handleRtpFrame now recv (map snd bs) x = Some (x1, p1)"
      "\<exists>p2. handle_org_events now recv evs x1 = Some (y, p2)"
      using Cons.prems(1) by (auto split: option.splits)
    with Cons handleRtpFrame_keeps show ?thesis by metis
  next
    case (FreeBlock b)
    with Cons show ?thesis by simp
  qed
qed simp

text \<open>
  Packets arriving one after the other, with blocks in the pool for every incoming and outgoing packet.
\<close>

lemma send_out_all:
  assumes "\<And>i. alloc i" "\<forall>pkt \<in> set pkts. pkt \<noteq> [] \<and> length pkt \<le> STREAM_MSG_BLOCK_SIZE"
  shows "send_out alloc i pkts = pkts"
  using assms(2) by (induction pkts arbitrary: i) (auto simp: handlePsRtpPacket_def assms(1))

fun send_all :: "u32 \<Rightarrow> u8 option \<Rightarrow> block list \<Rightarrow> CRtp2PsProcessor \<Rightarrow> (CRtp2PsProcessor \<times> bytes list) option" where
  "send_all now recv [] x = Some (x, [])"
| "send_all now recv ((ref, b) # bs) x =
     (case rtp2ps_Send now recv True (Some ref) (\<lambda>_. True) (Some b) x of None \<Rightarrow> None
      | Some (x1, p1) \<Rightarrow> (case send_all now recv bs x1 of None \<Rightarrow> None
          | Some (x2, p2) \<Rightarrow> Some (x2, p1 @ p2)))"

definition simple_block :: "u8 \<Rightarrow> block \<Rightarrow> bool" where
  "simple_block pt b \<longleftrightarrow> length (snd b) \<le> STREAM_MSG_BLOCK_SIZE \<and>
     (\<exists>mk sq ts ssrc payload. snd b = encode_packet (simple_header mk pt sq ts ssrc) payload)"

lemma rtp2ps_receive_simple:
  assumes "simple_block pt (ref, b)" "pt < 128" "m_ucRecvVideoPT x = pt" "pt \<noteq> 0" "m_pSendSession x"
  shows "rtp2ps_receive now recv True (Some ref) (Some b) x =
    (case insertRtpPacket (Some b) (Some ref) (m_VideoRtpFrameOrganizer x) of None \<Rightarrow> None
     | Some (r, v, evs) \<Rightarrow> handle_org_events now recv evs (x\<lparr>m_VideoRtpFrameOrganizer := v\<rparr>))"
proof -
  obtain mk sq ts ssrc payload where b: "b = encode_packet (simple_header mk pt sq ts ssrc) payload"
    and l: "length b \<le> STREAM_MSG_BLOCK_SIZE" using assms(1) by (auto simp: simple_block_def)
  obtain p where p: "ParsePacket (Some b) CRtpPacket_new = (RET_OK, p)" "rtp_bytes p = b" "GetPayloadType p = pt"
    using ParsePacket_simple_eq [OF assms(2), of mk sq ts ssrc payload CRtpPacket_new] b by auto
  have "12 \<le> length b" by (simp add: b encode_packet_simple)
  with p l assms(3-5) show ?thesis
    by (simp add: rtp2ps_receive_def GetRecvVideoPT_def block_after_parse_def)
qed

lemma send_all_eq:
  assumes "\<forall>b \<in> set arr. simple_block pt b" "pt < 128" "m_ucRecvVideoPT x = pt" "pt \<noteq> 0" "m_pSendSession x"
    "insert_all arr (m_VideoRtpFrameOrganizer x) = Some (s', evs)"
    "handle_org_events now recv evs x = Some (y, pkts)"
    "\<forall>pkt \<in> set pkts. pkt \<noteq> [] \<and> length pkt \<le> STREAM_MSG_BLOCK_SIZE"
  shows "send_all now recv arr x = Some (y\<lparr>m_VideoRtpFrameOrganizer := s'\<rparr>, pkts)"
  using assms(1,3,5-8)
proof (induction arr arbitrary: x y pkts evs)
  case (Cons a arr)
  obtain ref b where a: "a = (ref, b)" by (rule prod.exhaust)
  obtain r v ev1 ev2 where i: "insertRtpPacket (Some b) (Some ref) (m_VideoRtpFrameOrganizer x) = Some (r, v, ev1)"
    "insert_all arr v = Some (s', ev2)" "evs = ev1 @ ev2"
    using Cons.prems(4) a by (auto split: option.splits)
  obtain x1 p1 p2 where h: "handle_org_events now recv ev1 x = Some (x1, p1)"
    "handle_org_events now recv ev2 x1 = Some (y, p2)" "pkts = p1 @ p2"
    using Cons.prems(5) i(3) by (auto simp: handle_org_events_append split: option.splits)
  let ?x1 = "x1\<lparr>m_VideoRtpFrameOrganizer := v\<rparr>"
  have k: "m_ucRecvVideoPT x1 = pt" "m_pSendSession x1"
    using handle_org_events_keeps [OF h(1)] Cons.prems(2,3) assms(4) by auto
  have "rtp2ps_receive now recv True (Some ref) (Some b) x = Some (?x1, p1)"
    using rtp2ps_receive_simple [OF _ assms(2) Cons.prems(2) assms(4) Cons.prems(3), of ref b now recv]
      Cons.prems(1) a i(1) h(1) by (simp add: handle_org_events_org)
  then have s: "rtp2ps_Send now recv True (Some ref) (\<lambda>_. True) (Some b) x = Some (?x1, p1)"
    using Cons.prems(6) h(3) by (simp add: rtp2ps_Send_def send_out_all)
  have "send_all now recv arr ?x1 = Some (y\<lparr>m_VideoRtpFrameOrganizer := v\<rparr>\<lparr>m_VideoRtpFrameOrganizer := s'\<rparr>, p2)"
    using Cons.prems(1,6) k i(2) h(2,3) by (intro Cons.IH) (auto simp: handle_org_events_org)
  with s h(3) show ?case by (simp add: a)
qed simp

text \<open>The blocks in which the packets of a NAL unit arrive, numbered from \<open>r\<close>.\<close>

definition nal_blocks :: "nat \<Rightarrow> u8 \<Rightarrow> u16 \<Rightarrow> u32 \<Rightarrow> bytes \<Rightarrow> block list" where
  "nal_blocks r pt sq ts nal = (let l = nal_packets pt sq ts nal in zip [r..<r + length l] l)"

lemma nal_blocks_simps:
  "length (nal_blocks r pt sq ts nal) = length (nal_packets pt sq ts nal)"
  "map snd (nal_blocks r pt sq ts nal) = nal_packets pt sq ts nal"
  "k < length (nal_packets pt sq ts nal) \<Longrightarrow> nal_blocks r pt sq ts nal ! k = (r + k, nal_packets pt sq ts nal ! k)"
  by (simp_all add: nal_blocks_def Let_def)

lemma nal_blocks_rx:
  fixes r :: nat and pt :: u8 and sq :: u16 and ts :: u32 and nal :: bytes and k :: nat
  assumes "pt < 128" "k < length (nal_packets pt sq ts nal)"
  defines "b \<equiv> nal_blocks r pt sq ts nal ! k"
  shows "rx_ok b" "usSeq (rx_info b) = sq + of_nat k" "pk_unTimestamp (rx_info b) = ts"
    "pk_bMarker (rx_info b) \<longleftrightarrow> k = length (nal_packets pt sq ts nal) - 1" "pack_ok (rx_info b)"
    "pRtpMsgBlock (rx_info b) = b" "simple_block pt b"
proof -
  obtain payload where p: "nal_packets pt sq ts nal ! k = encode_packet (simple_header
      (k = length (nal_packets pt sq ts nal) - 1) pt (sq + of_nat k) ts (htonl RTP_SSRC)) payload"
    "length payload \<le> 1402" using nal_packets_nth [OF assms(2)] by blast
  have b: "b = (r + k, encode_packet (simple_header
      (k = length (nal_packets pt sq ts nal) - 1) pt (sq + of_nat k) ts (htonl RTP_SSRC)) payload)"
    using p assms(2) by (simp add: b_def nal_blocks_simps)
  show "rx_ok b" "usSeq (rx_info b) = sq + of_nat k" "pk_unTimestamp (rx_info b) = ts"
    "pk_bMarker (rx_info b) \<longleftrightarrow> k = length (nal_packets pt sq ts nal) - 1" "pack_ok (rx_info b)"
    unfolding b using rx_simple [OF assms(1)] by simp_all
  show "pRtpMsgBlock (rx_info b) = b"
    using ParsePacket_simple_eq [OF assms(1), of "k = length (nal_packets pt sq ts nal) - 1" "sq + of_nat k" ts
        "htonl RTP_SSRC" payload CRtpPacket_new]
    unfolding b by (auto simp: rx_info_def pack_info_def)
  have "length (snd b) \<le> STREAM_MSG_BLOCK_SIZE"
    using p(2) by (simp add: b encode_packet_simple STREAM_MSG_BLOCK_SIZE_def)
  then show "simple_block pt b" unfolding simple_block_def by (metis b snd_conv)
qed

lemma nal_blocks_frame:
  assumes "pt < 128" "unat sq + length (nal_packets pt sq ts nal) \<le> 2 ^ 16"
  shows "frame_packets ts (unat sq) (map rx_info (nal_blocks r pt sq ts nal))"
proof -
  let ?F = "nal_blocks r pt sq ts nal"
  have ne: "?F \<noteq> []" by (simp add: nal_blocks_def Let_def nal_packets_def fua_packets_def)
  have "unat (usSeq (rx_info (?F ! i))) = unat sq + i" if "i < length ?F" for i
  proof -
    have i: "i < length (nal_packets pt sq ts nal)" using that by (simp add: nal_blocks_simps)
    then have "unat sq + i < 2 ^ 16" using assms(2) by linarith
    then show ?thesis by (simp add: nal_blocks_rx(2) [OF assms(1) i] unat_word_ariths unat_of_nat)
  qed
  then show ?thesis
    using ne assms(2) nal_blocks_rx [OF assms(1), of _ sq ts nal r]
    by (auto simp: frame_packets_def nal_blocks_simps(1))
qed

text \<open>
  C16.  From camera to decoder.  The processor has a sending session, knows the video payload type and
  holds no frame; blocks are in the pool; the NAL unit is not empty, not itself of type FU-A, and fits the
  frame cache of one megabyte beside the start code; its packets (one packet or FU-A fragments) have
  sequence numbers that do not wrap.  They arrive at \<open>CRtp2PsProcessor::Send\<close> in any order in which the
  first comes before the last.  Then the RTP packets that \<open>handlePsRtpPacket\<close> sends carry a program
  stream that decodes to a four-byte start code followed by exactly this NAL unit, the organizer holds no
  frame, and the processor is ready for the next one.
\<close>

theorem rtp2ps_end_to_end:
  assumes "proc_ready pt x" "org_inv (m_VideoRtpFrameOrganizer x)" "m_RtpFrameMap (m_VideoRtpFrameOrganizer x) = []"
    "0 < m_unMaxCacheFrameNum (m_VideoRtpFrameOrganizer x)"
    "pt < 128" "nal \<noteq> []" "length nal \<le> RTP_FRAME_CACHE_SIZE - 4" "bf_get 0 5 (hd nal) \<noteq> H264_NALU_TYPE_FU_A"
    "unat sq + length (nal_packets pt sq ts nal) \<le> 2 ^ 16"
    "mset arr = mset (nal_blocks r pt sq ts nal)" "first_before_last (nal_blocks r pt sq ts nal) arr"
  shows "\<exists>x' pkts. send_all now recv arr x = Some (x', pkts) \<and> proc_ready pt x' \<and>
    org_inv (m_VideoRtpFrameOrganizer x') \<and> m_RtpFrameMap (m_VideoRtpFrameOrganizer x') = [] \<and>
    writePsStream True (Some (concat (map (drop RTP_FIXED_HEADER_SIZE) pkts))) ts'
      = Some (DecRet 0 [VideoEs ([0, 0, 0, 1] @ nal) ts'])"
proof -
  let ?F = "nal_blocks r pt sq ts nal"
  note rx = nal_blocks_rx [OF assms(5), of _ sq ts nal r]
  have F: "rx_ok b" "pRtpMsgBlock (rx_info b) = b" "simple_block pt b" if "b \<in> set ?F" for b
    using that rx(1,6,7) by (auto simp: in_set_conv_nth nal_blocks_simps(1))
  have fr: "frame_packets ts (unat sq) (map rx_info ?F)" by (rule nal_blocks_frame [OF assms(5,9)])
  then have ne: "?F \<noteq> []" by (auto simp: frame_packets_def)
  with assms(10) have arr: "arr \<noteq> []" by auto
  have sarr: "set arr = set ?F" using assms(10) by (metis set_mset_mset)
  have h: "holds_part ts (map rx_info []) (m_VideoRtpFrameOrganizer x)" using assms(2-4) by (simp add: holds_part_def)
  obtain s' evs where i: "insert_all arr (m_VideoRtpFrameOrganizer x) = Some (s', evs)" "holds_part ts [] s'"
    "deliveries evs = [map (pRtpMsgBlock \<circ> rx_info) ?F]"
    using insert_all_frame [OF fr F(1), of "[]" arr "m_VideoRtpFrameOrganizer x"] assms(10,11) arr h by auto
  have "map (pRtpMsgBlock \<circ> rx_info) ?F = ?F" by (rule map_idI) (simp add: F(2))
  then have d: "deliveries evs = [?F]" using i(3) by simp
  obtain y pkts where y: "handleRtpFrame now recv (nal_packets pt sq ts nal) x = Some (y, pkts)" "proc_ready pt y"
    "writePsStream True (Some (concat (map (drop 12) pkts))) ts' = Some (DecRet 0 [VideoEs ([0, 0, 0, 1] @ nal) ts'])"
    "\<forall>pkt \<in> set pkts. pkt \<noteq> [] \<and> length pkt \<le> STREAM_MSG_BLOCK_SIZE"
    using handleRtpFrame_nal [OF assms(1,5-8), of now recv sq ts ts']
    by (fastforce simp: MAX_ENCAP_RTP_SIZE_def STREAM_MSG_BLOCK_SIZE_def)
  have "handle_org_events now recv evs x = Some (y, pkts)"
    using y(1) by (subst handle_org_events_deliveries) (simp add: d nal_blocks_simps(2))
  with i(1) have "send_all now recv arr x = Some (y\<lparr>m_VideoRtpFrameOrganizer := s'\<rparr>, pkts)"
    using assms(1,5) F(3) sarr y(4) by (intro send_all_eq) (auto simp: proc_ready_def)
  moreover have "proc_ready pt (y\<lparr>m_VideoRtpFrameOrganizer := s'\<rparr>)" using y(2) by (simp add: proc_ready_def)
  ultimately show ?thesis using y(3) i(2) by (simp add: holds_part_def)
qed

theorem rtp2ps_end_to_end_witness:
  "\<exists>x' pkts. send_all 1 None (nal_blocks 0 96 7 3600 (0x65 # replicate 1999 5)) example_proc = Some (x', pkts) \<and>
     writePsStream True (Some (concat (map (drop RTP_FIXED_HEADER_SIZE) pkts))) 3600
       = Some (DecRet 0 [VideoEs ([0, 0, 0, 1] @ 0x65 # replicate 1999 5) 3600])"
proof -
  let ?nal = "0x65 # replicate 1999 (5 :: u8)"
  have l: "length (nal_packets 96 7 3600 ?nal) = 2" by (simp add: nal_packets_def fua_packets_def)
  then have "length (nal_blocks 0 96 7 3600 ?nal) = 2" by (simp add: nal_blocks_simps)
  then obtain a b where ab: "nal_blocks 0 96 7 3600 ?nal = [a, b]"
    by (auto simp: numeral_2_eq_2 length_Suc_conv)
  have o: "org_inv (m_VideoRtpFrameOrganizer example_proc)" "m_RtpFrameMap (m_VideoRtpFrameOrganizer example_proc) = []"
    "0 < m_unMaxCacheFrameNum (m_VideoRtpFrameOrganizer example_proc)"
    using example_org example_proc by simp_all
  have "(96 :: u8) < 128" "?nal \<noteq> []" "length ?nal \<le> RTP_FRAME_CACHE_SIZE - 4"
    "bf_get 0 5 (hd ?nal) \<noteq> H264_NALU_TYPE_FU_A" "unat (7 :: u16) + length (nal_packets 96 7 3600 ?nal) \<le> 2 ^ 16"
    using example_type l by (simp_all add: RTP_FRAME_CACHE_SIZE_def)
  moreover have "first_before_last (nal_blocks 0 96 7 3600 ?nal) (nal_blocks 0 96 7 3600 ?nal)"
    unfolding ab by (auto simp: first_before_last_def Cons_eq_append_conv)
  ultimately show ?thesis
    using rtp2ps_end_to_end [OF example_proc(1) o, of ?nal 7 3600 "nal_blocks 0 96 7 3600 ?nal" 0 1 None 3600]
    by blast
qed

end
