(* ===== verification/EsStartCode.thy ===== *)
theory EsStartCode
  imports SvsPrelude
begin

unbundle bit_operations_syntax

text \<open>
  The search for H.264 start codes in \<open>CEsRtpEncap\<close> (\<open>svs_es_rtp_encap.cpp\<close>).  The code scans
  four bytes at a time with a test for a zero byte in a 32-bit word; the theory shows that this is
  the plain search.

  Pointers are offsets (integers, since \<open>end\<close> may move in front of the data) into the bytes the
  pointer may read; \<open>align\<close> is the address of offset 0 modulo 4, which decides where the word loop
  begins.
\<close>

definition sc_byte :: "bytes \<Rightarrow> int \<Rightarrow> u8" where
  "sc_byte data p = data ! nat p"

definition is_sc :: "bytes \<Rightarrow> int \<Rightarrow> bool" where
  "is_sc data p \<longleftrightarrow> sc_byte data p = 0 \<and> sc_byte data (p + 1) = 0 \<and> sc_byte data (p + 2) = 1"

text \<open>The bytewise loop: up to \<open>stop\<close>, the position of a start code or where the loop stopped.\<close>

function sc_bytes :: "bytes \<Rightarrow> int \<Rightarrow> int \<Rightarrow> bool \<times> int" where
  "sc_bytes data p stop =
     (if p < stop then if is_sc data p then (True, p) else sc_bytes data (p + 1) stop
      else (False, p))"
  by pat_completeness auto
termination
  by (relation "measure (\<lambda>(data, p, stop). nat (stop - p))") auto

declare sc_bytes.simps [simp del]

definition has_zero_test :: "u32 \<Rightarrow> bool" where
  "has_zero_test x \<longleftrightarrow> (x - 0x01010101) AND NOT x AND 0x80808080 \<noteq> 0"

text \<open>One word: the four positions at which a start code can begin in it.\<close>

definition sc_word :: "bytes \<Rightarrow> int \<Rightarrow> int option" where
  "sc_word data p =
     (let b = sc_byte data in
      if has_zero_test (ld32 data (nat p))
      then if b (p + 1) = 0 \<and> b p = 0 \<and> b (p + 2) = 1 then Some p
           else if b (p + 1) = 0 \<and> b (p + 2) = 0 \<and> b (p + 3) = 1 then Some (p + 1)
           else if b (p + 3) = 0 \<and> b (p + 2) = 0 \<and> b (p + 4) = 1 then Some (p + 2)
           else if b (p + 3) = 0 \<and> b (p + 4) = 0 \<and> b (p + 5) = 1 then Some (p + 3)
           else None
      else None)"

function sc_words :: "bytes \<Rightarrow> int \<Rightarrow> int \<Rightarrow> bool \<times> int" where
  "sc_words data p stop =
     (if p < stop
      then case sc_word data p of Some q \<Rightarrow> (True, q) | None \<Rightarrow> sc_words data (p + 4) stop
      else (False, p))"
  by pat_completeness auto
termination
  by (relation "measure (\<lambda>(data, p, stop). nat (stop - p))") auto

declare sc_words.simps [simp del]

definition h264_find_startcode_internal :: "int \<Rightarrow> bytes \<Rightarrow> int \<Rightarrow> int \<Rightarrow> int" where
  "h264_find_startcode_internal align data p endp =
     (let a = p + 4 - (align + p) mod 4;
          end1 = endp - 3
      in case sc_bytes data p (min a end1) of
           (True, q) \<Rightarrow> q
         | (False, p1) \<Rightarrow>
             let end2 = end1 - 3
             in case sc_words data p1 end2 of
                  (True, q) \<Rightarrow> q
                | (False, p2) \<Rightarrow>
                    let end3 = end2 + 3
                    in case sc_bytes data p2 end3 of
                         (True, q) \<Rightarrow> q
                       | (False, p3) \<Rightarrow> end3 + 3)"

definition h264_find_startcode :: "int \<Rightarrow> bytes \<Rightarrow> int \<Rightarrow> int \<Rightarrow> int" where
  "h264_find_startcode align data p endp =
     (let out = h264_find_startcode_internal align data p endp
      in if p < out \<and> out < endp \<and> sc_byte data (out - 1) = 0 then out - 1 else out)"

section \<open>The zero-byte test\<close>

lemma bit_int_of_parts:
  assumes "z = 2 ^ Suc n * q + r" "2 ^ n \<le> r" "r < 2 ^ Suc n"
  shows "bit (z :: int) n"
proof -
  have "z = r + (2 * q) * 2 ^ n" using assms(1) by simp
  then have "z div 2 ^ n = 2 * q + r div 2 ^ n" by simp
  moreover have "r div 2 ^ n = 1"
    using assms(2,3) by (simp add: int_div_pos_eq [of r "2 ^ n" 1 "r - 2 ^ n"])
  ultimately show ?thesis by (simp add: bit_iff_odd)
qed

lemma bit_sub_ones:
  assumes "n < 32" "bit (uint x - 0x01010101) n"
  shows "bit (x - 0x01010101 :: u32) n"
proof -
  have "x - 0x01010101 = (word_of_int (uint x - 0x01010101) :: u32)"
    by (simp add: word_of_int_minus)
  then show ?thesis using assms by (simp only: bit_word_of_int_iff) simp
qed

text \<open>Subtracting one from every byte sets the top bit of the lowest zero byte.\<close>

lemma has_zero_at:
  assumes "n \<in> {7, 15, 23, 31}" "bit (uint x - 0x01010101) n" "\<not> bit x n"
  shows "has_zero_test x"
proof -
  have "bit (0x80808080 :: u32) n" using assms(1) by auto
  with assms have "bit ((x - 0x01010101) AND NOT x AND 0x80808080) n"
    by (auto simp: bit_and_iff bit_not_iff intro!: bit_sub_ones)
  then show ?thesis by (auto simp: has_zero_test_def)
qed

definition word_byte :: "u32 \<Rightarrow> nat \<Rightarrow> int" where
  "word_byte x k = uint x div 2 ^ (8 * k) mod 2 ^ 8"

lemma word_byte_bits: "word_byte x k = 0 \<Longrightarrow> j < 8 \<Longrightarrow> \<not> bit x (8 * k + j)"
proof -
  assume a: "word_byte x k = 0" "j < 8"
  have "word_byte x k = take_bit 8 (drop_bit (8 * k) (uint x))"
    by (simp add: word_byte_def take_bit_eq_mod drop_bit_eq_div)
  with a have "\<not> bit (take_bit 8 (drop_bit (8 * k) (uint x))) j" by simp
  with a(2) show ?thesis by (simp add: bit_simps)
qed

lemma word_bytes:
  "uint x = word_byte x 0 + 2 ^ 8 * word_byte x 1 + 2 ^ 16 * word_byte x 2 + 2 ^ 24 * word_byte x 3"
  "0 \<le> word_byte x k" "word_byte x k < 256"
proof -
  let ?X = "uint x"
  have X: "?X < 2 ^ 32" "0 \<le> ?X" using uint_lt2p [of x] by simp_all
  define A where "A = ?X div 2 ^ 8"
  define B where "B = A div 2 ^ 8"
  define C where "C = B div 2 ^ 8"
  have d: "?X div 2 ^ 16 = B" "?X div 2 ^ 24 = C"
    by (simp_all add: A_def B_def C_def zdiv_zmult2_eq [symmetric])
  have "C < 2 ^ 8" "0 \<le> C" using X by (simp_all add: d(2) [symmetric] pos_imp_zdiv_nonneg_iff)
  then have c: "C mod 2 ^ 8 = C" by simp
  have "?X = 2 ^ 8 * A + ?X mod 2 ^ 8" "A = 2 ^ 8 * B + A mod 2 ^ 8" "B = 2 ^ 8 * C + B mod 2 ^ 8"
    unfolding A_def B_def C_def by simp_all
  moreover have "word_byte x 0 = ?X mod 2 ^ 8" "word_byte x 1 = A mod 2 ^ 8"
    "word_byte x 2 = B mod 2 ^ 8" "word_byte x 3 = C"
    using d c by (simp_all add: word_byte_def A_def)
  ultimately show "?X = word_byte x 0 + 2 ^ 8 * word_byte x 1 + 2 ^ 16 * word_byte x 2 + 2 ^ 24 * word_byte x 3"
    by simp
qed (simp_all add: word_byte_def)

lemma has_zero_test_complete:
  assumes "k < 4" "word_byte x k = 0"
  shows "has_zero_test x"
proof -
  let ?b = "word_byte x"
  note w = word_bytes(1) [of x] word_bytes(2,3) [of x 0] word_bytes(2,3) [of x 1]
    word_bytes(2,3) [of x 2] word_bytes(2,3) [of x 3]
  consider (0) "?b 0 = 0" | (1) "?b 0 \<noteq> 0" "?b 1 = 0" | (2) "?b 0 \<noteq> 0" "?b 1 \<noteq> 0" "?b 2 = 0"
    | (3) "?b 0 \<noteq> 0" "?b 1 \<noteq> 0" "?b 2 \<noteq> 0" "?b 3 = 0"
    using assms by (auto simp: less_Suc_eq numeral_eq_Suc)
  then show ?thesis
  proof cases
    case 0
    have "bit (uint x - 0x01010101) 7"
      using w 0 by (intro bit_int_of_parts [of _ _ "?b 1 + 2 ^ 8 * ?b 2 + 2 ^ 16 * ?b 3 - 0x010102" 255]) simp_all
    then show ?thesis using word_byte_bits [OF 0, of 7] by (intro has_zero_at [of 7]) simp_all
  next
    case 1
    have "bit (uint x - 0x01010101) 15"
      using w 1 by (intro bit_int_of_parts [of _ _ "?b 2 + 2 ^ 8 * ?b 3 - 0x0102" "0xFEFF + ?b 0"]) simp_all
    then show ?thesis using word_byte_bits [OF 1(2), of 7] by (intro has_zero_at [of 15]) simp_all
  next
    case 2
    have "bit (uint x - 0x01010101) 23"
      using w 2 by (intro bit_int_of_parts [of _ _ "?b 3 - 2" "0xFEFEFF + ?b 0 + 2 ^ 8 * ?b 1"]) simp_all
    then show ?thesis using word_byte_bits [OF 2(3), of 7] by (intro has_zero_at [of 23]) simp_all
  next
    case 3
    have "bit (uint x - 0x01010101) 31"
      using w 3 by (intro bit_int_of_parts [of _ _ "-1" "0xFEFEFEFF + ?b 0 + 2 ^ 8 * ?b 1 + 2 ^ 16 * ?b 2"]) simp_all
    then show ?thesis using word_byte_bits [OF 3(4), of 7] by (intro has_zero_at [of 31]) simp_all
  qed
qed

lemma bit_ld32_byte:
  assumes "k < 4" "n < 8"
  shows "bit (ld32 b i) (8 * k + n) \<longleftrightarrow> bit (b ! (i + k)) n"
proof -
  have l: "8 \<le> m \<Longrightarrow> \<not> bit (b ! j) m" for m j by (auto dest: bit_imp_le_length)
  have "k = 0 \<or> k = 1 \<or> k = 2 \<or> k = 3" using assms(1) by auto
  then show ?thesis
    using assms(2) l by (elim disjE) (simp_all add: ld32_def bit_simps)
qed

lemma word_byte_ld32:
  assumes "k < 4"
  shows "word_byte (ld32 b i) k = uint (b ! (i + k))"
proof -
  have "take_bit 8 (drop_bit (8 * k) (ld32 b i)) = ucast (b ! (i + k))"
  proof (rule bit_word_eqI)
    fix n :: nat
    show "bit (take_bit 8 (drop_bit (8 * k) (ld32 b i))) n = bit (ucast (b ! (i + k)) :: u32) n"
      using bit_ld32_byte [OF assms, of n b i]
      by (cases "n < 8") (auto simp: bit_take_bit_iff bit_drop_bit_eq bit_ucast_iff dest: bit_imp_le_length)
  qed
  then have "uint (take_bit 8 (drop_bit (8 * k) (ld32 b i))) = uint (b ! (i + k))"
    by (simp add: uint_up_ucast is_up)
  moreover have "uint (take_bit 8 (drop_bit (8 * k) (ld32 b i))) =
      take_bit 8 (drop_bit (8 * k) (uint (ld32 b i)))"
    by (rule bit_eqI) (auto simp: bit_simps)
  ultimately show ?thesis
    by (simp only: word_byte_def take_bit_eq_mod drop_bit_eq_div)
qed

lemma no_zero:
  assumes "\<not> has_zero_test (ld32 data (nat p))" "0 \<le> p" "p \<le> q" "q < p + 4"
  shows "sc_byte data q \<noteq> 0"
proof
  assume z: "sc_byte data q = 0"
  define k where "k = nat (q - p)"
  have k: "k < 4" "nat p + k = nat q" using assms(2-4) by (auto simp: k_def)
  with z have "word_byte (ld32 data (nat p)) k = 0"
    by (simp add: word_byte_ld32 sc_byte_def)
  with has_zero_test_complete [OF k(1)] assms(1) show False by blast
qed

section \<open>The search is the plain search\<close>

text \<open>
  The plain bytewise search: the first position at which the three bytes 0, 0, 1 start and at least
  one byte follows them, or the end.
\<close>

definition find_sc :: "bytes \<Rightarrow> int \<Rightarrow> int \<Rightarrow> int" where
  "find_sc data p endp =
     (case List.find (is_sc data) [p..endp - 4] of Some q \<Rightarrow> q | None \<Rightarrow> endp)"

lemma find_append_case:
  "List.find P (xs @ ys) = (case List.find P xs of None \<Rightarrow> List.find P ys | Some x \<Rightarrow> Some x)"
  by (induction xs) auto

lemma sc_bytes_find:
  "sc_bytes data p stop =
     (case List.find (is_sc data) [p..stop - 1] of Some q \<Rightarrow> (True, q) | None \<Rightarrow> (False, max p stop))"
proof (induction data p stop rule: sc_bytes.induct)
  case (1 data p stop)
  then show ?case
    by (cases "p < stop") (auto simp: sc_bytes.simps [of data p stop] upto_rec1 max_def
        split: option.splits)
qed

lemma sc_word_find: "0 \<le> p \<Longrightarrow> sc_word data p = List.find (is_sc data) [p, p + 1, p + 2, p + 3]"
  using no_zero [of data p p] no_zero [of data p "p + 1"] no_zero [of data p "p + 2"]
    no_zero [of data p "p + 3"]
  by (auto simp: sc_word_def Let_def is_sc_def add.assoc)

lemma upto4: "[p..p + 3] = [p, p + 1, p + 2, p + 3 :: int]"
  by (simp add: upto_rec1 add.assoc)

lemma sc_words_find:
  assumes "0 \<le> p"
  shows "\<exists>p2. p \<le> p2 \<and> (p2 = p \<or> p2 < stop + 4) \<and> stop \<le> p2 \<and> sc_words data p stop =
     (case List.find (is_sc data) [p..p2 - 1] of Some q \<Rightarrow> (True, q) | None \<Rightarrow> (False, p2))"
  using assms
proof (induction data p stop rule: sc_words.induct)
  case (1 data p stop)
  show ?case
  proof (cases "p < stop")
    case False
    then show ?thesis by (intro exI [of _ p]) (simp add: sc_words.simps [of data p])
  next
    case True
    have split: "[p..p2 - 1] = [p..p + 3] @ [p + 4..p2 - 1]" if "p + 4 \<le> p2" for p2
      using that upto_split2 [of p "p + 3" "p2 - 1"] by (simp add: add.assoc)
    have word: "List.find (is_sc data) [p..p + 3] = sc_word data p"
      using sc_word_find [OF "1.prems"] by (simp only: upto4)
    show ?thesis
    proof (cases "sc_word data p")
      case None
      from "1.IH" [OF True None] "1.prems" obtain p2 where
        p2: "p + 4 \<le> p2" "p2 = p + 4 \<or> p2 < stop + 4" "stop \<le> p2"
          "sc_words data (p + 4) stop = (case List.find (is_sc data) [p + 4..p2 - 1] of
             Some q \<Rightarrow> (True, q) | None \<Rightarrow> (False, p2))"
        by auto
      have "List.find (is_sc data) [p..p2 - 1] = List.find (is_sc data) [p + 4..p2 - 1]"
        using None by (simp add: split [OF p2(1)] find_append_case word)
      then show ?thesis
        using True None p2 by (intro exI [of _ p2]) (auto simp: sc_words.simps [of data p])
    next
      case (Some q)
      obtain p2 where p2: "p2 = p + 4 + 4 * ((stop - p - 1) div 4)" by simp
      have b: "p + 4 \<le> p2" "p2 < stop + 4" "stop \<le> p2" using True p2 by presburger+
      have "List.find (is_sc data) [p..p2 - 1] = Some q"
        using Some by (simp add: split [OF b(1)] find_append_case word)
      then show ?thesis
        using True Some b by (intro exI [of _ p2]) (simp add: sc_words.simps [of data p])
    qed
  qed
qed

lemma upto_cut: "p \<le> q \<Longrightarrow> q \<le> r + 1 \<Longrightarrow> [p..r] = [p..q - 1] @ [q..r]"
  by (cases "q = r + 1") (simp_all add: upto_split1)

lemma find_sc_cases:
  obtains "find_sc data p endp = endp" "\<And>q. p \<le> q \<Longrightarrow> q \<le> endp - 4 \<Longrightarrow> \<not> is_sc data q"
  | "p \<le> find_sc data p endp" "find_sc data p endp \<le> endp - 4" "is_sc data (find_sc data p endp)"
    "\<And>q. p \<le> q \<Longrightarrow> q < find_sc data p endp \<Longrightarrow> \<not> is_sc data q"
proof (cases "List.find (is_sc data) [p..endp - 4]")
  case None
  then have "find_sc data p endp = endp" by (simp add: find_sc_def)
  moreover have "\<not> is_sc data q" if "p \<le> q" "q \<le> endp - 4" for q
    using None that by (auto simp: find_None_iff)
  ultimately show ?thesis by (rule that(1))
next
  case (Some r)
  then obtain i where i: "i < length [p..endp - 4]" "is_sc data ([p..endp - 4] ! i)" "r = [p..endp - 4] ! i"
    "\<forall>j<i. \<not> is_sc data ([p..endp - 4] ! j)"
    by (auto simp: find_Some_iff)
  then have r: "r = p + int i" "p + int i \<le> endp - 4" by auto
  have "\<not> is_sc data q" if "p \<le> q" "q < r" for q
  proof -
    have "nat (q - p) < i" "[p..endp - 4] ! nat (q - p) = q" using that r by auto
    with i(4) show ?thesis by metis
  qed
  with Some r i show ?thesis by (intro that(2)) (auto simp: find_sc_def)
qed

lemma find_sc_eq:
  assumes "is_sc data q" "p \<le> q" "q \<le> endp - 4" "\<And>r. p \<le> r \<Longrightarrow> r < q \<Longrightarrow> \<not> is_sc data r"
  shows "find_sc data p endp = q"
  by (cases rule: find_sc_cases [of data p endp]) (use assms in \<open>force simp: not_less [symmetric]\<close>)+

lemma find_startcode_internal_eq:
  assumes "0 \<le> p"
  shows "h264_find_startcode_internal align data p endp = find_sc data p endp"
proof -
  define a where "a = p + 4 - (align + p) mod 4"
  define p1 where "p1 = max p (min a (endp - 3))"
  have p1: "0 \<le> p1" "p \<le> p1" "p1 = p \<or> p1 \<le> endp - 3" using assms by (auto simp: p1_def)
  obtain p2 where p2: "p1 \<le> p2" "p2 = p1 \<or> p2 < endp - 2"
      "sc_words data p1 (endp - 6) =
        (case List.find (is_sc data) [p1..p2 - 1] of Some q \<Rightarrow> (True, q) | None \<Rightarrow> (False, p2))"
    using sc_words_find [OF p1(1), of "endp - 6" data] by auto
  have b1: "sc_bytes data p (min a (endp - 3)) =
      (case List.find (is_sc data) [p..p1 - 1] of Some q \<Rightarrow> (True, q) | None \<Rightarrow> (False, p1))"
  proof (cases "p \<le> min a (endp - 3)")
    case True
    then have "p1 = min a (endp - 3)" by (simp add: p1_def)
    with True show ?thesis by (simp only: sc_bytes_find max.absorb2)
  next
    case False
    then have "p1 = p" unfolding p1_def by linarith
    moreover from False have "[p..min a (endp - 3) - 1] = []" "max p (min a (endp - 3)) = p" by auto
    ultimately show ?thesis by (simp add: sc_bytes_find)
  qed
  have split: "List.find (is_sc data) [p..endp - 4] = (case List.find (is_sc data) [p..p1 - 1] of
      Some q \<Rightarrow> Some q | None \<Rightarrow> (case List.find (is_sc data) [p1..p2 - 1] of
        Some q \<Rightarrow> Some q | None \<Rightarrow> List.find (is_sc data) [p2..endp - 4]))"
  proof (cases "p \<le> endp - 3")
    case True
    with p1(3) p2(2) have "p1 \<le> endp - 3" "p2 \<le> endp - 3" by auto
    then have "[p..endp - 4] = [p..p1 - 1] @ [p1..p2 - 1] @ [p2..endp - 4]"
      using upto_cut [OF p1(2), of "endp - 4"] upto_cut [OF p2(1), of "endp - 4"] by simp
    then show ?thesis by (simp only: find_append_case)
  next
    case False
    then have "p1 = p" "p2 = p" using p1 p2 by auto
    with False show ?thesis by simp
  qed
  show ?thesis
    unfolding h264_find_startcode_internal_def find_sc_def Let_def a_def [symmetric] b1 split
    using p2(3) by (auto simp: sc_bytes_find split: option.splits)
qed

text \<open>
  The specification, on the bytes of the buffer: the first position, counted from \<open>p\<close>, at which the
  bytes 0, 0, 1 stand.
\<close>

definition first_sc :: "bytes \<Rightarrow> nat \<Rightarrow> nat option" where
  "first_sc b p = List.find (\<lambda>q. take 3 (drop q b) = [0, 0, 1]) [p..<length b]"

lemma take3_is_sc:
  assumes "n \<le> length data"
  shows "take 3 (drop q (take n data)) = [0, 0, 1] \<longleftrightarrow> q + 3 \<le> n \<and> is_sc data (int q)"
proof -
  have "nat (int q + 1) = q + 1" "nat (int q + 2) = q + 2" by auto
  then show ?thesis
    using assms by (auto simp: take_drop_3 is_sc_def sc_byte_def)
qed

lemma find_sc_first_sc:
  assumes "p \<le> endp" "endp \<le> length data"
  shows "find_sc data (int p) (int endp) =
    (case first_sc (take endp data) p of
       None \<Rightarrow> int endp | Some q \<Rightarrow> if q + 3 = endp then int endp else int q)"
proof -
  let ?P = "\<lambda>q. take 3 (drop q (take endp data)) = [0, 0, 1]"
  have P: "?P q \<longleftrightarrow> q + 3 \<le> endp \<and> is_sc data (int q)" for q by (rule take3_is_sc) fact
  have ln: "length (take endp data) = endp" using assms by simp
  show ?thesis
  proof (cases "first_sc (take endp data) p")
    case None
    then have n: "\<not> ?P q" if "p \<le> q" "q < endp" for q
      using that unfolding first_sc_def ln by (auto simp: find_None_iff)
    have "\<not> is_sc data q" if "int p \<le> q" "q \<le> int endp - 4" for q
      using n [of "nat q"] P [of "nat q"] that by auto
    then have "find_sc data (int p) (int endp) = int endp"
      by (cases rule: find_sc_cases [of data "int p" "int endp"]) auto
    with None show ?thesis by simp
  next
    case (Some q)
    then have q: "p \<le> q" "?P q" "\<And>r. p \<le> r \<Longrightarrow> r < q \<Longrightarrow> \<not> ?P r"
      unfolding first_sc_def by (auto simp: find_upt_Some)
    have le: "q + 3 \<le> endp" and sc: "is_sc data (int q)" using q(2) P by auto
    have before: "\<not> is_sc data r" if "int p \<le> r" "r < int q" for r
      using q(3) [of "nat r"] P [of "nat r"] le that by auto
    show ?thesis
    proof (cases "q + 3 = endp")
      case True
      have "find_sc data (int p) (int endp) = int endp"
      proof (cases rule: find_sc_cases [of data "int p" "int endp"])
        case 2
        with before [of "find_sc data (int p) (int endp)"] True show ?thesis by auto
      qed
      with Some True show ?thesis by simp
    next
      case False
      then have "find_sc data (int p) (int endp) = int q"
        using q(1) le sc before by (intro find_sc_eq) auto
      with Some False show ?thesis by simp
    qed
  qed
qed

text \<open>
  C9.  The search that looks at four bytes at a time, for every address of the buffer and every
  content: the result is the first position at which the bytes 0, 0, 1 stand in the buffer, except
  that the end is returned when there is none or when it is made of the last three bytes of the
  buffer (no byte of a NAL unit follows it).
\<close>

theorem h264_find_startcode_internal_eq:
  assumes "p \<le> endp" "endp \<le> length data"
  shows "h264_find_startcode_internal align data (int p) (int endp) =
    (case first_sc (take endp data) p of
       None \<Rightarrow> int endp | Some q \<Rightarrow> if q + 3 = endp then int endp else int q)"
  using assms by (simp only: find_startcode_internal_eq of_nat_0_le_iff find_sc_first_sc)

theorem h264_find_startcode_internal_eq_witness:
  "h264_find_startcode_internal 2 [9, 8, 7, 6, 5, 4, 0, 0, 1, 0x65, 3, 2, 1] 0 13 = 6 \<and>
   h264_find_startcode_internal 1 [9, 0, 0, 1] 0 4 = 4"
proof
  let ?d = "[9, 8, 7, 6, 5, 4, 0, 0, 1, 0x65, 3, 2, 1] :: bytes"
  have "first_sc (take 13 ?d) 0 = Some 6" by code_simp
  then show "h264_find_startcode_internal 2 ?d 0 13 = 6"
    using h264_find_startcode_internal_eq [of 0 13 ?d 2] by simp
  have "first_sc (take 4 [9, 0, 0, 1]) 0 = Some 1" by code_simp
  then show "h264_find_startcode_internal 1 [9, 0, 0, 1] 0 4 = 4"
    using h264_find_startcode_internal_eq [of 0 4 "[9, 0, 0, 1]" 1] by simp
qed

text \<open>The search never goes back, and finds a position only in front of a start code.\<close>

lemma h264_find_startcode_bounds:
  assumes "0 \<le> p" "h264_find_startcode align data p endp < endp"
  shows "p \<le> h264_find_startcode align data p endp"
proof (cases rule: find_sc_cases [of data p endp])
  case 1
  with assms show ?thesis
    by (auto simp: h264_find_startcode_def find_startcode_internal_eq Let_def split: if_splits)
next
  case 2
  with assms(1) show ?thesis by (auto simp: h264_find_startcode_def find_startcode_internal_eq Let_def)
qed

end
