(* ===== verification/EsRtpEncap.thy ===== *)
theory EsRtpEncap
  imports EsStartCode PsRtpEncap
begin

unbundle bit_operations_syntax

text \<open>
  \<open>CEsRtpEncap\<close> (\<open>svs_es_rtp_encap.cpp\<close>): the way back from a program stream to elementary-stream
  RTP packets.  It decodes a PS frame with its \<open>CMpegPsDec\<close> and, as the callback of the decoder,
  sends a NAL unit as one RTP packet or in FU-A fragments and G.711 audio in slices.

  \<open>pEsData\<close> is all the memory readable from the pointer (the decoder passes its one-megabyte
  array, of which \<open>unDataSize\<close> bytes are filled); a read behind it, or a call through the null
  handle, is \<^const>\<open>None\<close>.
\<close>

record CEsRtpEncap =
  m_pEsRtpHandle :: bool
  es_RtpBuffer :: bytes
  m_usVideoRtpSeq :: u16
  m_usAudioRtpSeq :: u16

text \<open>The constructor leaves the buffer as it finds it.\<close>

definition CEsRtpEncap_new :: "bytes \<Rightarrow> CEsRtpEncap" where
  "CEsRtpEncap_new buf = \<lparr>m_pEsRtpHandle = False, es_RtpBuffer = buf, m_usVideoRtpSeq = 0,
     m_usAudioRtpSeq = 0\<rparr>"

definition es_Init :: "bool \<Rightarrow> CEsRtpEncap \<Rightarrow> retcode \<times> CEsRtpEncap" where
  "es_Init handle x = (RET_OK, x\<lparr>m_pEsRtpHandle := handle\<rparr>)"

text \<open>\<open>while (!*(nal_start++));\<close>: the position behind the first non-zero byte.\<close>

fun skip_zeros :: "bytes \<Rightarrow> nat" where
  "skip_zeros [] = 0"
| "skip_zeros (b # bs) = (if b = 0 then Suc (skip_zeros bs) else 1)"

text \<open>The bit fields of \<open>PS_FU_INDICATOR\<close> and \<open>PS_FU_HEADER\<close> in a byte.\<close>

definition fu_indicator :: "u8 \<Rightarrow> u8 \<Rightarrow> u8" where
  "fu_indicator nal old =
     bf_set 7 1 (bf_get 7 1 nal) (bf_set 5 2 (bf_get 5 2 nal) (bf_set 0 5 28 old))"

definition fu_header_type :: "u8 \<Rightarrow> u8 \<Rightarrow> u8" where
  "fu_header_type nal old = bf_set 0 5 (bf_get 0 5 nal) old"

definition fu_set_S :: "u8 \<Rightarrow> u8" where "fu_set_S h = bf_set 7 1 1 h"
definition fu_set_E :: "u8 \<Rightarrow> u8" where "fu_set_E h = bf_set 6 1 1 h"

definition upd_buf :: "(bytes \<Rightarrow> bytes) \<Rightarrow> CRtpPacket \<Rightarrow> CRtpPacket" where
  "upd_buf g p = p\<lparr>m_pRtpData := map_option g (m_pRtpData p)\<rparr>"

text \<open>
  The fragment loop, from fragment \<open>i\<close> on: \<open>least\<close> is \<open>unLeastSize\<close>, \<open>pos\<close> the offset of \<open>pDataPos\<close>.
\<close>

function fu_loop ::
  "nat \<Rightarrow> u32 \<Rightarrow> bytes \<Rightarrow> nat \<Rightarrow> nat \<Rightarrow> nat \<Rightarrow> CRtpPacket \<Rightarrow> u16 \<Rightarrow> (bytes list \<times> CRtpPacket \<times> u16) option" where
  "fu_loop unCount ts pEsData i least pos p seq =
     (if i < unCount
      then
        let p1 = rtp_fill 99 seq ts 999999999 False p;
            maxSize = MAX_ENCAP_RTP_SIZE - (RTP_FIXED_HEADER_SIZE + 2);
            isLast = (least \<le> maxSize);
            p2 = (if isLast then snd (SetMarker True p1) else p1);
            unCopySize = (if isLast then least else maxSize);
            p3 = (if i = 0 then upd_buf (\<lambda>b. st8 13 (fu_set_S (b ! 13)) b) p2
                  else if i = unCount - 1 then upd_buf (\<lambda>b. st8 13 (fu_set_E (b ! 13)) b) p2
                  else p2)
        in if length pEsData < pos + unCopySize then None
           else
             let p4 = upd_buf (st_block 14 (take unCopySize (drop pos pEsData))) p3;
                 pkt = take (unCopySize + 14) (rtp_bytes p4)
             in case fu_loop unCount ts pEsData (i + 1) (least - unCopySize) (pos + unCopySize) p4 (seq + 1) of
                  None \<Rightarrow> None
                | Some (pkts, p5, seq5) \<Rightarrow> Some (pkt # pkts, p5, seq5)
      else Some ([], p, seq))"
  by pat_completeness auto
termination
  by (relation "measure (\<lambda>(n, ts, d, i, l, pos, p, seq). n - i)") auto

declare fu_loop.simps [simp del]

text \<open>
  The number of packets as the code computes it: the quotient by the payload size of an RTP packet,
  rounded up by the remainder of another divisor.
\<close>

definition fu_count :: "nat \<Rightarrow> nat" where
  "fu_count unLeastSize = unLeastSize div (MAX_ENCAP_RTP_SIZE - RTP_FIXED_HEADER_SIZE)
     + (if unLeastSize mod MAX_ENCAP_RTP_SIZE \<noteq> 0 then 1 else 0)"

text \<open>The packets of the NAL unit of \<open>least\<close> bytes at offset \<open>pos\<close>.\<close>

definition send_nal ::
  "bytes \<Rightarrow> nat \<Rightarrow> nat \<Rightarrow> u32 \<Rightarrow> CEsRtpEncap \<Rightarrow> (CEsRtpEncap \<times> bytes list) option" where
  "send_nal pEsData pos least ts x =
     (let p = snd (GeneratePacket (Some (es_RtpBuffer x)) CRtpPacket_new);
          unCount = fu_count least
      in if length pEsData < pos + least then None
         else if unCount > 1
         then if length pEsData \<le> pos then None
              else
                let nal = pEsData ! pos;
                    p1 = upd_buf (\<lambda>b. let b1 = st8 12 (fu_indicator nal (b ! 12)) b
                                       in st8 13 (fu_header_type nal (b1 ! 13)) b1) p
                in if \<not> m_pEsRtpHandle x then None
                   else case fu_loop unCount ts pEsData 0 least (pos + 1) p1 (m_usVideoRtpSeq x) of
                          None \<Rightarrow> None
                        | Some (pkts, p2, seq) \<Rightarrow>
                            Some (x\<lparr>es_RtpBuffer := rtp_bytes p2, m_usVideoRtpSeq := seq\<rparr>, pkts)
         else if \<not> m_pEsRtpHandle x then None
         else
           let p1 = rtp_fill 99 (m_usVideoRtpSeq x) ts 999999999 True p;
               p2 = upd_buf (st_block 12 (take least (drop pos pEsData))) p1
           in Some (x\<lparr>es_RtpBuffer := rtp_bytes p2, m_usVideoRtpSeq := m_usVideoRtpSeq x + 1\<rparr>,
                    [take (least + RTP_FIXED_HEADER_SIZE) (rtp_bytes p2)]))"

definition handleVideoEsStream ::
  "int \<Rightarrow> bytes option \<Rightarrow> nat \<Rightarrow> u32 \<Rightarrow> u8 \<Rightarrow> CEsRtpEncap \<Rightarrow> (CEsRtpEncap \<times> bytes list) option" where
  "handleVideoEsStream align pEsData unDataSize ts ucStreamType x =
     (case pEsData of None \<Rightarrow> Some (x, [])
      | Some d \<Rightarrow>
          if unDataSize = 0 then Some (x, [])
          else if VIDEO_STREAM_TYPE_H264 \<noteq> ucStreamType then Some (x, [])
          else
            let nal_start = h264_find_startcode align d 0 (int unDataSize)
            in if int unDataSize \<le> nal_start then Some (x, [])
               else
                 let pos = nat nal_start + skip_zeros (drop (nat nal_start) d)
                 in send_nal d pos (unDataSize - pos) ts x)"

text \<open>Split a buffer of several NAL units at the start codes and send each one.\<close>

function mul_nalu_loop ::
  "int \<Rightarrow> bytes \<Rightarrow> nat \<Rightarrow> nat \<Rightarrow> u32 \<Rightarrow> u8 \<Rightarrow> CEsRtpEncap \<Rightarrow> (CEsRtpEncap \<times> bytes list) option" where
  "mul_nalu_loop align d unDataSize start ts ucStreamType x =
     (let nxt = nat (h264_find_startcode align d (int start + 4) (int unDataSize))
      in if start < unDataSize \<and> nxt < unDataSize
         then case handleVideoEsStream (align + int start) (Some (drop start d)) (nxt - start) ts ucStreamType x of
                None \<Rightarrow> None
              | Some (x1, pkts1) \<Rightarrow>
                  (case mul_nalu_loop align d unDataSize nxt ts ucStreamType x1 of
                     None \<Rightarrow> None
                   | Some (x2, pkts2) \<Rightarrow> Some (x2, pkts1 @ pkts2))
         else handleVideoEsStream (align + int start) (Some (drop start d)) (unDataSize - start) ts ucStreamType x)"
  by pat_completeness auto
termination
proof (relation "measure (\<lambda>(a, d, n, start, ts, st, x). n - start)")
  fix align d unDataSize start ts st x nxt b x1 pkts1
  assume n: "nxt = nat (h264_find_startcode align d (int start + 4) (int unDataSize))"
    and c: "start < unDataSize \<and> nxt < unDataSize"
  then have "int start + 4 \<le> h264_find_startcode align d (int start + 4) (int unDataSize)"
    by (intro h264_find_startcode_bounds) auto
  with n c show "((align, d, unDataSize, nxt, ts, st, x1), align, d, unDataSize, start, ts, st, x)
      \<in> measure (\<lambda>(a, d, n, start, ts, st, x). n - start)"
    by auto
qed simp

definition handleVideoMulNaluStream ::
  "int \<Rightarrow> bytes \<Rightarrow> nat \<Rightarrow> u32 \<Rightarrow> u8 \<Rightarrow> CEsRtpEncap \<Rightarrow> (CEsRtpEncap \<times> bytes list) option" where
  "handleVideoMulNaluStream align d unDataSize ts ucStreamType x =
     (let start = h264_find_startcode align d 0 (int unDataSize)
      in if int unDataSize \<le> start then Some (x, [])
         else mul_nalu_loop align d unDataSize (nat start) ts ucStreamType x)"

text \<open>Audio is sliced like a program stream, but every call ends with the marker.\<close>

function audio_slices ::
  "u32 \<Rightarrow> bytes \<Rightarrow> CRtpPacket \<Rightarrow> u16 \<Rightarrow> bytes list \<times> CRtpPacket \<times> u16" where
  "audio_slices ts left p seq =
     (if left = [] then ([], p, seq)
      else
        let maxSize = MAX_ENCAP_RTP_SIZE - RTP_FIXED_HEADER_SIZE;
            isLast = (length left \<le> maxSize);
            unCopySize = (if isLast then length left else maxSize);
            p1 = slice_packet 0 seq ts 999999998 isLast (take unCopySize left) p;
            pkt = take (unCopySize + RTP_FIXED_HEADER_SIZE) (rtp_bytes p1)
        in case audio_slices ts (drop unCopySize left) p1 (seq + 1) of
             (pkts, p2, seq2) \<Rightarrow> (pkt # pkts, p2, seq2))"
  by pat_completeness auto
termination
  by (relation "measure (\<lambda>(ts, left, p, seq). length left)") (auto simp: MAX_ENCAP_RTP_SIZE_def)

declare audio_slices.simps [simp del]

text \<open>Without a handle the packets are built but go nowhere.\<close>

definition handleAudioEsStream :: "bytes \<Rightarrow> u32 \<Rightarrow> CEsRtpEncap \<Rightarrow> CEsRtpEncap \<times> bytes list" where
  "handleAudioEsStream d ts x =
     (case audio_slices ts d (snd (GeneratePacket (Some (es_RtpBuffer x)) CRtpPacket_new))
             (m_usAudioRtpSeq x) of
        (pkts, p, seq) \<Rightarrow>
          (x\<lparr>es_RtpBuffer := rtp_bytes p, m_usAudioRtpSeq := seq\<rparr>,
           if m_pEsRtpHandle x then pkts else []))"

text \<open>
  \<open>insertPSFrame\<close>: decode and hand on what the decoder delivers; the decoder passes its whole
  array, zero behind the filled part.  The return code is always \<open>RET_OK\<close>.  \<^const>\<open>None\<close> also stands
  for a decoder that does not return or leaves its memory.
\<close>

definition dec_array :: "bytes \<Rightarrow> bytes" where
  "dec_array d = d @ replicate (MAX_BUFFER_LEN - length d) 0"

definition insertPSFrame ::
  "int \<Rightarrow> bytes option \<Rightarrow> u32 \<Rightarrow> CEsRtpEncap \<Rightarrow> (retcode \<times> CEsRtpEncap \<times> bytes list) option" where
  "insertPSFrame align pData ts x =
     (case writePsStream True pData ts of
        Some (DecRet r [VideoEs d t]) \<Rightarrow>
          map_option (\<lambda>(x1, pkts). (RET_OK, x1, pkts))
            (handleVideoEsStream align (Some (dec_array d)) (length d) t VIDEO_STREAM_TYPE_H264 x)
      | Some (DecRet r [AudioEs d t]) \<Rightarrow>
          (case handleAudioEsStream d t x of (x1, pkts) \<Rightarrow> Some (RET_OK, x1, pkts))
      | Some (DecRet r evs) \<Rightarrow> Some (RET_OK, x, [])
      | _ \<Rightarrow> None)"

section \<open>Audio\<close>

definition es_ready :: "CEsRtpEncap \<Rightarrow> bool" where
  "es_ready x \<longleftrightarrow> m_pEsRtpHandle x \<and> length (es_RtpBuffer x) = STREAM_MSG_BLOCK_SIZE"

definition es_start :: "u16 \<Rightarrow> CEsRtpEncap" where
  "es_start s = (snd (es_Init True (CEsRtpEncap_new (replicate STREAM_MSG_BLOCK_SIZE 0))))
     \<lparr>m_usVideoRtpSeq := s, m_usAudioRtpSeq := s\<rparr>"

lemma es_start [simp]:
  "es_ready (es_start s)" "m_usAudioRtpSeq (es_start s) = s" "m_usVideoRtpSeq (es_start s) = s"
  by (simp_all add: es_start_def es_Init_def CEsRtpEncap_new_def es_ready_def)

function audio_packets :: "u32 \<Rightarrow> u16 \<Rightarrow> bytes \<Rightarrow> bytes list" where
  "audio_packets ts s d =
     (if d = [] then []
      else encode_packet (simple_header (length d \<le> 1406) 0 s ts 999999998) (take 1406 d)
        # audio_packets ts (s + 1) (drop 1406 d))"
  by pat_completeness auto
termination
  by (relation "measure (\<lambda>(ts, s, d). length d)") auto

declare audio_packets.simps [simp del]

lemma audio_slices_eq:
  assumes "packet_on STREAM_MSG_BLOCK_SIZE p"
  shows "\<exists>p'. audio_slices ts d p s = (audio_packets ts s d, p', s + of_nat (length (audio_packets ts s d)))
    \<and> packet_on STREAM_MSG_BLOCK_SIZE p'"
  using assms
proof (induction ts d p s rule: audio_slices.induct)
  case (1 ts d p s)
  show ?case
  proof (cases "d = []")
    case True
    with 1 show ?thesis by (simp add: audio_slices.simps [of ts "[]"] audio_packets.simps [of ts s "[]"])
  next
    case False
    let ?n = "if length d \<le> 1406 then length d else 1406"
    let ?p1 = "slice_packet 0 s ts 999999998 (length d \<le> 1406) (take ?n d) p"
    have m: "MAX_ENCAP_RTP_SIZE - RTP_FIXED_HEADER_SIZE = 1406" by (simp add: MAX_ENCAP_RTP_SIZE_def)
    have sl: "packet_on STREAM_MSG_BLOCK_SIZE ?p1"
      "take (?n + 12) (rtp_bytes ?p1) =
         encode_packet (simple_header (length d \<le> 1406) 0 s ts 999999998) (take 1406 d)"
      using slice_packet [OF "1.prems", of "take 1406 d" 0 s ts 999999998 "length d \<le> 1406"]
      by (cases "length d \<le> 1406"; simp add: STREAM_MSG_BLOCK_SIZE_def add.commute [of 12])+
    obtain p' where "audio_slices ts (drop ?n d) ?p1 (s + 1) =
        (audio_packets ts (s + 1) (drop ?n d), p', s + 1 + of_nat (length (audio_packets ts (s + 1) (drop ?n d))))"
      "packet_on STREAM_MSG_BLOCK_SIZE p'"
      using "1.IH" [OF False refl refl refl refl refl, unfolded m, OF sl(1)] by blast
    then show ?thesis
      using False sl(2)
      by (cases "length d \<le> 1406") (simp_all add: audio_slices.simps [of ts d]
          audio_packets.simps [of ts s d] Let_def MAX_ENCAP_RTP_SIZE_def)
  qed
qed

definition sent_audio :: "u32 \<Rightarrow> u16 \<Rightarrow> bytes \<Rightarrow> bytes list" where
  "sent_audio ts s d = snd (handleAudioEsStream d ts (es_start s))"

lemma handleAudioEsStream_eq:
  assumes "es_ready x"
  shows "\<exists>x'. handleAudioEsStream d ts x = (x', audio_packets ts (m_usAudioRtpSeq x) d) \<and> es_ready x' \<and>
    m_usVideoRtpSeq x' = m_usVideoRtpSeq x \<and>
    m_usAudioRtpSeq x' = m_usAudioRtpSeq x + of_nat (length (audio_packets ts (m_usAudioRtpSeq x) d))"
proof -
  have "packet_on STREAM_MSG_BLOCK_SIZE (snd (GeneratePacket (Some (es_RtpBuffer x)) CRtpPacket_new))"
    using packet_on_generate [of "es_RtpBuffer x" CRtpPacket_new] assms
    by (simp add: es_ready_def STREAM_MSG_BLOCK_SIZE_def)
  from audio_slices_eq [OF this, of ts d "m_usAudioRtpSeq x"] assms show ?thesis
    by (auto simp: handleAudioEsStream_def es_ready_def packet_on_def rtp_bytes_def)
qed

lemma sent_audio_eq: "sent_audio ts s d = audio_packets ts s d"
  using handleAudioEsStream_eq [OF es_start(1), of d ts s] by (auto simp: sent_audio_def)

interpretation esseg: rtp_segmenter "sent_audio ts" 1406 0 ts 999999998 True for ts
  by unfold_locales (simp_all add: sent_audio_eq audio_packets.simps)

text \<open>
  Audio loses nothing: the payloads of the packets of one call are the audio data, every packet
  parses as PCMU with the audio SSRC, the time stamp and the next sequence number, and the marker is
  on the last packet alone.
\<close>

theorem handleAudioEsStream_packets:
  assumes "es_ready x"
  shows "\<exists>x' pkts. handleAudioEsStream d ts x = (x', pkts) \<and> es_ready x' \<and>
    concat (map (drop RTP_FIXED_HEADER_SIZE) pkts) = d \<and>
    m_usAudioRtpSeq x' = m_usAudioRtpSeq x + of_nat (length pkts) \<and>
    (\<forall>k < length pkts. \<exists>p. ParsePacket (Some (pkts ! k)) CRtpPacket_new = (RET_OK, p) \<and>
       GetPayloadType p = 0 \<and> GetSeqNum p = m_usAudioRtpSeq x + of_nat k \<and> GetTimeStamp p = ts \<and>
       GetSSRC p = 999999998 \<and> (GetMarker p \<longleftrightarrow> k = length pkts - 1))"
proof -
  let ?pkts = "sent_audio ts (m_usAudioRtpSeq x) d"
  obtain x' where x': "handleAudioEsStream d ts x = (x', ?pkts)" "es_ready x'"
    "m_usAudioRtpSeq x' = m_usAudioRtpSeq x + of_nat (length ?pkts)"
    using handleAudioEsStream_eq [OF assms, of d ts] unfolding sent_audio_eq by blast
  show ?thesis
    using x' esseg.seg_payload [of ts "m_usAudioRtpSeq x" d]
      esseg.seg_parse [of _ ts "m_usAudioRtpSeq x" d]
    by (intro exI [of _ x'] exI [of _ ?pkts]) auto
qed

theorem handleAudioEsStream_packets_witness:
  "es_ready (es_start 0xFFFF) \<and>
   (\<exists>x' pkts. handleAudioEsStream [1, 2, 3] 160 (es_start 0xFFFF) = (x', pkts) \<and>
      concat (map (drop RTP_FIXED_HEADER_SIZE) pkts) = [1, 2, 3])"
  using handleAudioEsStream_packets [OF es_start(1), of "[1, 2, 3]" 160 "0xFFFF"] by auto

section \<open>Video\<close>

text \<open>A NAL unit behind its start code, with at least two zeros.\<close>

lemma skip_zeros_start: "skip_zeros (replicate k 0 @ 1 # rest) = Suc k"
  by (induction k) simp_all

lemma find_startcode_at_start:
  assumes "2 \<le> k" "rest \<noteq> []" "n \<le> length (replicate k 0 @ 1 # rest)" "k + 2 \<le> n"
  defines "d \<equiv> replicate k 0 @ 1 # rest"
  shows "0 \<le> h264_find_startcode align d 0 (int n)" "nat (h264_find_startcode align d 0 (int n)) \<le> k"
    "h264_find_startcode align d 0 (int n) < int n"
proof -
  have b: "sc_byte d (int i) = (if i < k then 0 else if i = k then 1 else rest ! (i - Suc k))"
    if "i < length d" for i
    using that by (auto simp: sc_byte_def d_def nth_append nth_Cons')
  have lenk: "k + 1 < length d" using assms by (simp add: d_def)
  have sc: "is_sc d (int k - 2)"
    using b [of "k - 2"] b [of "k - 1"] b [of k] assms(1) lenk
    by (simp add: is_sc_def of_nat_diff algebra_simps)
  have first: "\<not> is_sc d r" if "0 \<le> r" "r < int k - 2" for r
  proof -
    have "nat r + 2 < k" using that by linarith
    then have "sc_byte d (int (nat r + 2)) = 0" using b [of "nat r + 2"] lenk by simp
    with that show ?thesis by (simp add: is_sc_def add.commute)
  qed
  have "find_sc d 0 (int n) = int k - 2"
    using assms(1,4) sc first by (intro find_sc_eq) auto
  then have f: "h264_find_startcode_internal align d 0 (int n) = int k - 2"
    by (simp add: find_startcode_internal_eq)
  show "0 \<le> h264_find_startcode align d 0 (int n)" "nat (h264_find_startcode align d 0 (int n)) \<le> k"
    "h264_find_startcode align d 0 (int n) < int n"
    using assms(1,4) by (auto simp: h264_find_startcode_def f Let_def)
qed

lemma handleVideoEsStream_nal:
  assumes "2 \<le> k" "nal \<noteq> []" "d = replicate k 0 @ 1 # nal @ rest"
  shows "handleVideoEsStream align (Some d) (k + 1 + length nal) ts VIDEO_STREAM_TYPE_H264 x =
    send_nal d (k + 1) (length nal) ts x"
proof -
  let ?s = "h264_find_startcode align d 0 (int (k + 1 + length nal))"
  have "k + 2 \<le> k + 1 + length nal" using assms(2) by (cases nal) auto
  then have s: "0 \<le> ?s" "nat ?s \<le> k" "?s < int (k + 1 + length nal)"
    using find_startcode_at_start [OF assms(1), of "nal @ rest" "k + 1 + length nal" align] assms(2,3)
    by simp_all
  have "drop (nat ?s) d = replicate (k - nat ?s) 0 @ 1 # nal @ rest"
    using s(2) assms(3) by simp
  then have p: "nat ?s + skip_zeros (drop (nat ?s) d) = k + 1"
    using s(2) by (simp add: skip_zeros_start)
  have "\<not> int (k + 1 + length nal) \<le> ?s" using s(3) by simp
  then show ?thesis
    unfolding handleVideoEsStream_def using p by (simp add: Let_def)
qed

text \<open>One FU-A fragment: header, marker, FU header byte and data.\<close>

definition fu_on :: "u8 \<Rightarrow> u8 \<Rightarrow> CRtpPacket \<Rightarrow> bool" where
  "fu_on ind h p \<longleftrightarrow> packet_on STREAM_MSG_BLOCK_SIZE p \<and> rtp_bytes p ! 12 = ind \<and> rtp_bytes p ! 13 = h"

lemma fu_packet:
  fixes p :: CRtpPacket and chunk :: bytes and seq :: u16 and ts :: u32 and isLast :: bool
    and g :: "bytes \<Rightarrow> bytes"
  assumes "fu_on ind h p" "14 + length chunk \<le> STREAM_MSG_BLOCK_SIZE"
    "\<And>b. length b = STREAM_MSG_BLOCK_SIZE \<Longrightarrow> b ! 13 = h \<Longrightarrow> g b = st8 13 h' b"
  defines "p4 \<equiv> upd_buf (st_block 14 chunk) (upd_buf g
    (if isLast then snd (SetMarker True (rtp_fill 99 seq ts 999999999 False p))
     else rtp_fill 99 seq ts 999999999 False p))"
  shows "fu_on ind h' p4"
    "take (length chunk + 14) (rtp_bytes p4) =
       encode_packet (simple_header isLast 99 seq ts 999999999) (ind # h' # chunk)"
proof -
  obtain b where b: "m_pFixedHead p" "m_pRtpData p = Some b" "length b = 2048" "b ! 0 = 0x80"
    "b ! 12 = ind" "b ! 13 = h"
    using assms(1) by (auto simp: fu_on_def packet_on_def rtp_bytes_def STREAM_MSG_BLOCK_SIZE_def)
  let ?f = "fill_bytes 99 seq ts 999999999 isLast b"
  have l: "12 \<le> length b" using b(3) by simp
  have f: "drop 12 ?f = drop 12 b" "?f ! 0 = 0x80" "length ?f = 2048"
    using drop12_fill_bytes [OF l] nth0_fill_bytes [OF l] b(3,4) by simp_all
  have fn: "?f ! i = b ! i" if "12 \<le> i" "i < 2048" for i
    using arg_cong [OF f(1), of "\<lambda>xs. xs ! (i - 12)"] that b(3) f(3) by simp
  have g: "g ?f = st8 13 h' ?f"
    using assms(3) [of ?f] fn [of 13] b f(3) by (simp add: STREAM_MSG_BLOCK_SIZE_def)
  let ?b4 = "st_block 14 chunk (st8 13 h' ?f)"
  have p4: "p4 = p\<lparr>m_pRtpData := Some ?b4\<rparr>"
    using b g set_marker_fill [OF l, of 99 seq ts 999999999]
    by (cases isLast) (simp_all add: p4_def upd_buf_def rtp_fill_eq SetMarker_def write_fixed_head_def)
  show "fu_on ind h' p4"
    using b f fn [of 12] assms(2)
    by (simp add: p4 fu_on_def packet_on_def mem_simps STREAM_MSG_BLOCK_SIZE_def)
  have t: "take 14 (st8 13 h' ?f) = encode_fixed (simple_header isLast 99 seq ts 999999999) @ [ind, h']"
  proof -
    have "take 14 (st8 13 h' ?f) = take 12 (st8 13 h' ?f) @ [st8 13 h' ?f ! 12, st8 13 h' ?f ! 13]"
      using f(3) by (simp add: take_Suc_conv_app_nth numeral_eq_Suc)
    moreover have "take 12 (st8 13 h' ?f) = take 12 ?f" by (simp add: st8_def)
    ultimately show ?thesis
      using take12_fill_bytes [OF l b(4), of 99 seq ts 999999999 isLast] f(3) fn [of 12] b(5)
      by (simp add: mem_simps)
  qed
  show "take (length chunk + 14) (rtp_bytes p4) =
      encode_packet (simple_header isLast 99 seq ts 999999999) (ind # h' # chunk)"
    using t f(3) assms(2)
    by (simp add: p4 st_block_def encode_packet_simple STREAM_MSG_BLOCK_SIZE_def add.commute [of _ 14])
qed

text \<open>The FU header byte of fragment \<open>i\<close> of \<open>n\<close>: the start bit is never taken back.\<close>

definition fu_byte :: "nat \<Rightarrow> u8 \<Rightarrow> nat \<Rightarrow> u8" where
  "fu_byte n h i = (if i \<noteq> 0 \<and> i = n - 1 then fu_set_E (fu_set_S h) else fu_set_S h)"

text \<open>
  The fragments \<open>i\<close> to \<open>n - 1\<close> as values: 1404 bytes of data each, until the \<open>least\<close> bytes at \<open>pos\<close> are
  used up; the marker is on every fragment that reaches their end.
\<close>

definition fu_fragments ::
  "u8 \<Rightarrow> u8 \<Rightarrow> nat \<Rightarrow> u32 \<Rightarrow> bytes \<Rightarrow> nat \<Rightarrow> nat \<Rightarrow> nat \<Rightarrow> u16 \<Rightarrow> bytes list" where
  "fu_fragments ind h n ts d i least pos seq =
     map (\<lambda>k. encode_packet (simple_header (least \<le> 1404 * (k + 1)) 99 (seq + of_nat k) ts 999999999)
         (ind # fu_byte n h (i + k) # take (min 1404 (least - 1404 * k)) (drop (pos + 1404 * k) d)))
       [0..<n - i]"

lemma fu_fragments_step:
  assumes "i < n" "c = min least 1404"
  shows "fu_fragments ind h n ts d i least pos seq =
    encode_packet (simple_header (least \<le> 1404) 99 seq ts 999999999)
      (ind # fu_byte n h i # take c (drop pos d)) #
    fu_fragments ind h n ts d (i + 1) (least - c) (pos + c) (seq + 1)"
proof -
  have "n - i = Suc (n - (i + 1))" using assms(1) by simp
  moreover have "(least \<le> 1404 * (Suc k + 1)) = (least - c \<le> 1404 * (k + 1))" for k
    using assms(2) by auto
  moreover have "take (min 1404 (least - 1404 * Suc k)) (drop (pos + 1404 * Suc k) d) =
      take (min 1404 (least - c - 1404 * k)) (drop (pos + c + 1404 * k) d)" for k
  proof (cases "1404 \<le> least")
    case True
    then have "least - 1404 * Suc k = least - c - 1404 * k" "pos + 1404 * Suc k = pos + c + 1404 * k"
      using assms(2) by auto
    then show ?thesis by (simp only:)
  qed (use assms(2) in simp)
  ultimately show ?thesis
    using assms(2) by (simp add: fu_fragments_def map_upt_Suc add.assoc min.commute [of 1404 least]
        del: upt_Suc)
qed

lemma length_fu_fragments [simp]: "length (fu_fragments ind h n ts d i least pos seq) = n - i"
  by (simp add: fu_fragments_def)

lemma upd_buf_id [simp]: "upd_buf id p = p" "upd_buf (\<lambda>b. b) p = p"
  by (simp_all add: upd_buf_def option.map_ident option.map_id)

lemma take_min_split:
  assumes "c \<le> least" "c \<le> m" "c = least \<or> c = 1404" "m = 1404 * j + 1404" "c \<le> 1404"
  shows "take c xs @ take (min (least - c) (1404 * j)) (drop c xs) = take (min least m) xs"
proof -
  have "min least m = c + min (least - c) (1404 * j)" using assms by auto
  then show ?thesis by (simp add: take_add)
qed

lemma fu_loop_eq:
  assumes "fu_on ind hb p" "i < n \<Longrightarrow> hb = (if i = 0 then h else fu_set_S h)" "i \<le> n"
    "pos + least \<le> length d"
  shows "\<exists>pkts p'. fu_loop n ts d i least pos p seq = Some (pkts, p', seq + of_nat (n - i)) \<and>
    packet_on STREAM_MSG_BLOCK_SIZE p' \<and> length pkts = n - i \<and>
    concat (map (drop 14) pkts) = take (min least (1404 * (n - i))) (drop pos d) \<and>
    pkts = fu_fragments ind h n ts d i least pos seq"
  using assms
proof (induction n ts d i least pos p seq arbitrary: hb rule: fu_loop.induct)
  case (1 n ts d i least pos p seq)
  show ?case
  proof (cases "i < n")
    case False
    then have "fu_loop n ts d i least pos p seq = Some ([], p, seq)"
      by (simp add: fu_loop.simps [of n ts d i])
    with False "1.prems" show ?thesis by (auto simp: fu_on_def fu_fragments_def)
  next
    case True
    define isLast where "isLast \<longleftrightarrow> least \<le> 1404"
    define c where "c = (if isLast then least else 1404)"
    define chunk where "chunk = take c (drop pos d)"
    define g where "g = (if i = 0 then (\<lambda>b. st8 13 (fu_set_S (b ! 13)) b)
      else if i = n - 1 then (\<lambda>b. st8 13 (fu_set_E (b ! 13)) b) else (\<lambda>b. b))"
    define p4 where "p4 = upd_buf (st_block 14 chunk) (upd_buf g
      (if isLast then snd (SetMarker True (rtp_fill 99 seq ts 999999999 False p))
       else rtp_fill 99 seq ts 999999999 False p))"
    have c: "c \<le> 1404" "c \<le> least" "length chunk = c" "pos + c \<le> length d" "c = least \<or> c = 1404"
      using "1.prems"(4) by (auto simp: c_def isLast_def chunk_def)
    have on: "fu_on ind (if i = 0 then h else fu_set_S h) p" using "1.prems"(1,2) True by simp
    have g: "g b = st8 13 (fu_byte n h i) b"
      if "length b = STREAM_MSG_BLOCK_SIZE" "b ! 13 = (if i = 0 then h else fu_set_S h)" for b
    proof -
      have "b[13 := b ! 13] = b" by (rule list_update_id)
      with that show ?thesis by (auto simp: g_def fu_byte_def st8_def)
    qed
    have "14 + length chunk \<le> STREAM_MSG_BLOCK_SIZE" using c by (simp add: STREAM_MSG_BLOCK_SIZE_def)
    from fu_packet [OF on this g, of isLast seq ts, folded p4_def, unfolded c(3)]
    have q: "fu_on ind (fu_byte n h i) p4" and pkt: "take (c + 14) (rtp_bytes p4) =
         encode_packet (simple_header isLast 99 seq ts 999999999) (ind # fu_byte n h i # chunk)"
      by blast+
    have m: "MAX_ENCAP_RTP_SIZE - (RTP_FIXED_HEADER_SIZE + 2) = 1404" by (simp add: MAX_ENCAP_RTP_SIZE_def)
    have p4: "p4 = upd_buf (st_block 14 (take c (drop pos d)))
       (if i = 0 then upd_buf (\<lambda>b. st8 13 (fu_set_S (b ! 13)) b)
            (if isLast then snd (SetMarker True (rtp_fill 99 seq ts 999999999 False p))
             else rtp_fill 99 seq ts 999999999 False p)
        else if i = n - 1 then upd_buf (\<lambda>b. st8 13 (fu_set_E (b ! 13)) b)
            (if isLast then snd (SetMarker True (rtp_fill 99 seq ts 999999999 False p))
             else rtp_fill 99 seq ts 999999999 False p)
        else (if isLast then snd (SetMarker True (rtp_fill 99 seq ts 999999999 False p))
             else rtp_fill 99 seq ts 999999999 False p))"
      by (simp add: p4_def g_def chunk_def)
    have loop: "fu_loop n ts d i least pos p seq =
        (case fu_loop n ts d (i + 1) (least - c) (pos + c) p4 (seq + 1) of
           None \<Rightarrow> None | Some (pkts, p5, seq5) \<Rightarrow> Some (take (c + 14) (rtp_bytes p4) # pkts, p5, seq5))"
      using c(4) unfolding p4 c_def isLast_def
      by (subst fu_loop.simps) (simp only: Let_def m True if_True not_less [symmetric] if_False)
    have nf: "\<not> length d < pos + c" using c(4) by simp
    have "\<exists>pkts p'. fu_loop n ts d (i + 1) (least - c) (pos + c) p4 (seq + 1) =
        Some (pkts, p', seq + 1 + of_nat (n - (i + 1))) \<and>
      packet_on STREAM_MSG_BLOCK_SIZE p' \<and> length pkts = n - (i + 1) \<and>
      concat (map (drop 14) pkts) = take (min (least - c) (1404 * (n - (i + 1)))) (drop (pos + c) d) \<and>
      pkts = fu_fragments ind h n ts d (i + 1) (least - c) (pos + c) (seq + 1)"
      using c(2,4) "1.prems"(4) True
      by (intro "1.IH" [OF True refl refl refl refl refl refl, unfolded m, folded isLast_def, folded c_def,
          folded p4, OF nf refl refl q]) (auto simp: fu_byte_def)
    then obtain pkts p' where ih: "fu_loop n ts d (i + 1) (least - c) (pos + c) p4 (seq + 1) =
        Some (pkts, p', seq + 1 + of_nat (n - (i + 1)))"
      "packet_on STREAM_MSG_BLOCK_SIZE p'" "length pkts = n - (i + 1)"
      "concat (map (drop 14) pkts) = take (min (least - c) (1404 * (n - (i + 1)))) (drop (pos + c) d)"
      "pkts = fu_fragments ind h n ts d (i + 1) (least - c) (pos + c) (seq + 1)"
      by blast
    let ?pkts = "take (c + 14) (rtp_bytes p4) # pkts"
    have ni: "n - i = Suc (n - (i + 1))" using True by simp
    have "fu_loop n ts d i least pos p seq = Some (?pkts, p', seq + of_nat (n - i))"
      unfolding loop ih(1) ni by simp
    moreover have "drop 14 (take (c + 14) (rtp_bytes p4)) = take c (drop pos d)"
      unfolding pkt by (simp add: encode_packet_simple chunk_def)
    then have "concat (map (drop 14) ?pkts) = take (min least (1404 * (n - i))) (drop pos d)"
      using ih(4) take_min_split [of c least "1404 * (n - i)" "n - (i + 1)" "drop pos d"] c ni
      by (simp add: drop_drop add.commute)
    moreover have "?pkts = fu_fragments ind h n ts d i least pos seq"
      unfolding pkt chunk_def isLast_def
      by (subst fu_fragments_step [OF True, of c]) (auto simp: ih(5) c_def isLast_def)
    ultimately show ?thesis using ih(2,3) ni by (intro exI [of _ ?pkts] exI [of _ p']) simp
  qed
qed

lemma packet_on_es:
  "es_ready x \<Longrightarrow> packet_on STREAM_MSG_BLOCK_SIZE (snd (GeneratePacket (Some (es_RtpBuffer x)) CRtpPacket_new))"
  using packet_on_generate [of "es_RtpBuffer x" CRtpPacket_new]
  by (simp add: es_ready_def STREAM_MSG_BLOCK_SIZE_def)

lemma send_nal_single:
  assumes "es_ready x" "fu_count least \<le> 1" "pos + least \<le> length d" "least \<le> 1418"
  shows "\<exists>x'. send_nal d pos least ts x = Some (x',
      [encode_packet (simple_header True 99 (m_usVideoRtpSeq x) ts 999999999) (take least (drop pos d))]) \<and>
    es_ready x' \<and> m_usVideoRtpSeq x' = m_usVideoRtpSeq x + 1"
proof -
  let ?p = "snd (GeneratePacket (Some (es_RtpBuffer x)) CRtpPacket_new)"
  let ?chunk = "take least (drop pos d)"
  obtain b where b: "m_pFixedHead ?p" "m_pRtpData ?p = Some b" "length b = 2048" "b ! 0 = 0x80"
    using packet_on_es [OF assms(1)] by (auto simp: packet_on_def STREAM_MSG_BLOCK_SIZE_def)
  let ?f = "fill_bytes 99 (m_usVideoRtpSeq x) ts 999999999 True b"
  have l: "12 \<le> length b" "length ?chunk = least" using b assms(3) by simp_all
  have bytes: "rtp_bytes (upd_buf (st_block 12 ?chunk) (rtp_fill 99 (m_usVideoRtpSeq x) ts 999999999 True ?p))
      = st_block 12 ?chunk ?f"
    using b by (simp add: rtp_fill_eq upd_buf_def)
  have "take (least + 12) (st_block 12 ?chunk ?f) =
      encode_packet (simple_header True 99 (m_usVideoRtpSeq x) ts 999999999) ?chunk"
    using take12_fill_bytes [OF l(1) b(4), of 99 "m_usVideoRtpSeq x" ts 999999999 True] l(2) b(3) assms(4)
    by (simp add: st_block_def encode_packet_simple add.commute [of least])
  moreover have "length (st_block 12 ?chunk ?f) = 2048" using b(3) l(2) assms(4) by simp
  ultimately show ?thesis
    using assms bytes by (simp add: send_nal_def Let_def es_ready_def STREAM_MSG_BLOCK_SIZE_def)
qed

lemma fu_count_small: "n \<le> 1405 \<Longrightarrow> fu_count n \<le> 1"
  by (simp add: fu_count_def MAX_ENCAP_RTP_SIZE_def)

text \<open>
  A NAL unit of up to 1405 bytes behind a start code of two or more zeros goes out as one RTP
  packet: the start code is cut off, the payload is the NAL unit, marker, payload type 99, sequence
  number and time stamp are set, whatever the alignment of the buffer and whatever follows the data.
\<close>

theorem handleVideoEsStream_single:
  assumes "es_ready x" "2 \<le> k" "nal \<noteq> []" "length nal \<le> 1405" "d = replicate k 0 @ 1 # nal @ rest"
  shows "\<exists>x' pkt p. handleVideoEsStream align (Some d) (k + 1 + length nal) ts VIDEO_STREAM_TYPE_H264 x
      = Some (x', [pkt]) \<and> es_ready x' \<and> m_usVideoRtpSeq x' = m_usVideoRtpSeq x + 1 \<and>
    ParsePacket (Some pkt) CRtpPacket_new = (RET_OK, p) \<and> GetMarker p \<and> GetPayloadType p = 99 \<and>
    GetSeqNum p = m_usVideoRtpSeq x \<and> GetTimeStamp p = ts \<and> drop (GetHeadLen p) (rtp_bytes p) = nal"
proof -
  have "take (length nal) (drop (k + 1) d) = nal" "k + 1 + length nal \<le> length d"
    using assms(5) by simp_all
  then obtain x' where "send_nal d (k + 1) (length nal) ts x = Some (x',
      [encode_packet (simple_header True 99 (m_usVideoRtpSeq x) ts 999999999) nal])"
    "es_ready x'" "m_usVideoRtpSeq x' = m_usVideoRtpSeq x + 1"
    using send_nal_single [OF assms(1) fu_count_small [OF assms(4)], of "k + 1" d ts] assms(4) by auto
  moreover obtain p where
    "ParsePacket (Some (encode_packet (simple_header True 99 (m_usVideoRtpSeq x) ts 999999999) nal))
       CRtpPacket_new = (RET_OK, p)"
    "GetMarker p = True" "GetPayloadType p = 99" "GetSeqNum p = m_usVideoRtpSeq x" "GetTimeStamp p = ts"
    "GetHeadLen p = 12" "drop 12 (rtp_bytes p) = nal"
    using ParsePacket_simple [of 99 True "m_usVideoRtpSeq x" ts 999999999 nal] by auto
  ultimately show ?thesis
    using handleVideoEsStream_nal [OF assms(2,3,5), of align ts x] by auto
qed

theorem handleVideoEsStream_single_witness:
  "\<exists>x' pkt p. handleVideoEsStream 1 (Some [0, 0, 0, 1, 0x65, 9, 9]) 7 90 VIDEO_STREAM_TYPE_H264 (es_start 4)
      = Some (x', [pkt]) \<and> ParsePacket (Some pkt) CRtpPacket_new = (RET_OK, p) \<and>
    drop (GetHeadLen p) (rtp_bytes p) = [0x65, 9, 9]"
proof -
  have d: "[0, 0, 0, 1, 0x65, 9, 9 :: u8] = replicate 3 0 @ 1 # [0x65, 9, 9] @ []"
    by (simp add: numeral_eq_Suc)
  have "(2 :: nat) \<le> 3" "[0x65, 9, 9 :: u8] \<noteq> []" "length [0x65, 9, 9 :: u8] \<le> 1405" by simp_all
  from handleVideoEsStream_single [OF es_start(1) this d, of 1 90 4] show ?thesis by auto
qed

lemma fu_count_big: "1406 \<le> n \<Longrightarrow> n \<noteq> 1418 \<Longrightarrow> 1 < fu_count n"
proof -
  assume n: "1406 \<le> n" "n \<noteq> 1418"
  show ?thesis
  proof (cases "n < 2812")
    case True
    have "n div 1406 = 1" using n True by (intro div_nat_eqI) simp_all
    moreover have "n mod 1418 \<noteq> 0"
    proof (cases "n < 1418")
      case False
      then have "n mod 1418 = n - 1418" using True by (simp add: le_mod_geq)
      with False n(2) show ?thesis by simp
    qed (use n in simp)
    ultimately show ?thesis by (simp add: fu_count_def MAX_ENCAP_RTP_SIZE_def)
  next
    case False
    then have "2812 div 1406 \<le> n div 1406" by (intro div_le_mono) simp
    then show ?thesis by (simp add: fu_count_def MAX_ENCAP_RTP_SIZE_def)
  qed
qed

text \<open>The two FU bytes as the bytes they are.\<close>

lemma fu_bytes:
  fixes nal :: u8
  shows "fu_indicator nal 0 = (nal AND 0xE0) OR 28"
    "fu_byte n (fu_header_type nal 0) i =
       (nal AND 0x1F) OR 0x80 OR (if i \<noteq> 0 \<and> i = n - 1 then 0x40 else 0)"
proof -
  have bits: "n = 0 \<or> n = 1 \<or> n = 2 \<or> n = 3 \<or> n = 4 \<or> n = 5 \<or> n = 6 \<or> n = 7"
    if "n < LENGTH(8)" for n :: nat
    using that by auto
  show "fu_indicator nal 0 = (nal AND 0xE0) OR 28"
    by (rule bit_word_eqI, drule bits) (auto simp: fu_indicator_def bf_simps bit_and_iff bit_or_iff)
  show "fu_byte n (fu_header_type nal 0) i =
      (nal AND 0x1F) OR 0x80 OR (if i \<noteq> 0 \<and> i = n - 1 then 0x40 else 0)"
    by (rule bit_word_eqI, drule bits)
      (auto simp: fu_byte_def fu_set_E_def fu_set_S_def fu_header_type_def bf_simps bit_and_iff bit_or_iff)
qed

lemma send_nal_fu:
  assumes "es_ready x" "1 < fu_count least" "pos + least < length d" "0 < least"
  shows "\<exists>x' pkts. send_nal d pos least ts x = Some (x', pkts) \<and> es_ready x' \<and>
    m_usVideoRtpSeq x' = m_usVideoRtpSeq x + of_nat (length pkts) \<and> length pkts = fu_count least \<and>
    concat (map (drop 14) pkts) = take (min least (1404 * fu_count least)) (drop (pos + 1) d) \<and>
    pkts = fu_fragments (fu_indicator (d ! pos) 0) (fu_header_type (d ! pos) 0) (fu_count least) ts d 0
      least (pos + 1) (m_usVideoRtpSeq x)"
proof -
  let ?p = "snd (GeneratePacket (Some (es_RtpBuffer x)) CRtpPacket_new)"
  let ?ind = "fu_indicator (d ! pos) 0" and ?h = "fu_header_type (d ! pos) 0"
  let ?p1 = "upd_buf (\<lambda>b. let b1 = st8 12 (fu_indicator (d ! pos) (b ! 12)) b
                      in st8 13 (fu_header_type (d ! pos) (b1 ! 13)) b1) ?p"
  have len: "length (es_RtpBuffer x) = 2048" using assms(1) by (simp add: es_ready_def STREAM_MSG_BLOCK_SIZE_def)
  then obtain b where b: "m_pFixedHead ?p" "m_pRtpData ?p = Some b" "length b = 2048" "b ! 0 = 0x80"
    "drop 12 b = replicate 2036 0"
    using GeneratePacket_bytes [of "es_RtpBuffer x" CRtpPacket_new] by auto
  have z: "b ! 12 = 0" "b ! 13 = 0"
    using arg_cong [OF b(5), of "\<lambda>xs. xs ! 0"] arg_cong [OF b(5), of "\<lambda>xs. xs ! 1"] b(3) by simp_all
  have "fu_on ?ind ?h ?p1"
    using b(1-4) z by (simp add: fu_on_def packet_on_def upd_buf_def rtp_bytes_def Let_def mem_simps
        STREAM_MSG_BLOCK_SIZE_def)
  from fu_loop_eq [OF this, of 0 "fu_count least" ?h "pos + 1" least d ts "m_usVideoRtpSeq x"] assms(3)
  obtain pkts p' where "fu_loop (fu_count least) ts d 0 least (pos + 1) ?p1 (m_usVideoRtpSeq x)
      = Some (pkts, p', m_usVideoRtpSeq x + of_nat (fu_count least))"
    "packet_on STREAM_MSG_BLOCK_SIZE p'" "length pkts = fu_count least"
    "concat (map (drop 14) pkts) = take (min least (1404 * fu_count least)) (drop (pos + 1) d)"
    "pkts = fu_fragments ?ind ?h (fu_count least) ts d 0 least (pos + 1) (m_usVideoRtpSeq x)"
    by auto
  moreover from this(2) have "length (rtp_bytes p') = STREAM_MSG_BLOCK_SIZE"
    by (auto simp: packet_on_def rtp_bytes_def)
  ultimately show ?thesis
    using assms by (simp add: send_nal_def Let_def es_ready_def)
qed

text \<open>
  C10.  A NAL unit of at least 1406 bytes, but not of 1418 (the count of fragments is one for that
  length, and the unit goes out whole), behind a start code and in front of at least one more byte:
  the exact packets.  There are \<open>fu_count\<close> of them, with consecutive sequence numbers.  Each has the
  FU indicator (type 28, the upper three bits of the NAL header), an FU header with the type of the NAL
  unit, the start bit (on every fragment, not only the first) and the end bit on the last one, and 1404
  bytes of data.  The data is what follows the NAL header, one byte of what lies behind the unit
  included; the marker is on a fragment that reaches the end of the data, so there is none when
  \<open>1404 * fu_count\<close> bytes are not enough and the rest is not sent.
\<close>

theorem handleVideoEsStream_fu:
  assumes "es_ready x" "2 \<le> k" "1406 \<le> length nal" "length nal \<noteq> 1418"
    "d = replicate k 0 @ 1 # nal @ rest" "rest \<noteq> []"
  shows "\<exists>x' pkts. handleVideoEsStream align (Some d) (k + 1 + length nal) ts VIDEO_STREAM_TYPE_H264 x
      = Some (x', pkts) \<and> es_ready x' \<and> m_usVideoRtpSeq x' = m_usVideoRtpSeq x + of_nat (length pkts) \<and>
    pkts = map (\<lambda>j. encode_packet
         (simple_header (length nal \<le> 1404 * (j + 1)) 99 (m_usVideoRtpSeq x + of_nat j) ts 999999999)
         (((hd nal AND 0xE0) OR 28) #
          ((hd nal AND 0x1F) OR 0x80 OR (if j = fu_count (length nal) - 1 then 0x40 else 0)) #
          take 1404 (drop (1404 * j) (take (length nal) (tl nal @ rest)))))
       [0..<fu_count (length nal)]"
proof -
  have n: "nal \<noteq> []" using assms(3) by auto
  have cnt: "1 < fu_count (length nal)" using fu_count_big [OF assms(3,4)] .
  have hd: "d ! (k + 1) = hd nal" "drop (k + 1 + 1) d = tl nal @ rest"
    using assms(5) n by (cases nal; simp add: nth_append)+
  have "k + 1 + length nal < length d" "0 < length nal" using assms(5,6) n by auto
  from send_nal_fu [OF assms(1) cnt this, of ts] obtain x' pkts where
    s: "send_nal d (k + 1) (length nal) ts x = Some (x', pkts)" "es_ready x'"
      "m_usVideoRtpSeq x' = m_usVideoRtpSeq x + of_nat (length pkts)"
      "pkts = fu_fragments (fu_indicator (d ! (k + 1)) 0) (fu_header_type (d ! (k + 1)) 0)
         (fu_count (length nal)) ts d 0 (length nal) (k + 1 + 1) (m_usVideoRtpSeq x)"
    by blast
  have "take (min 1404 (length nal - 1404 * j)) (drop (k + 1 + 1 + 1404 * j) d) =
      take 1404 (drop (1404 * j) (take (length nal) (tl nal @ rest)))" for j
  proof -
    have "drop (k + 1 + 1 + 1404 * j) d = drop (1404 * j) (tl nal @ rest)"
      by (simp only: hd(2) [symmetric] drop_drop add.commute [of "1404 * j"])
    then show ?thesis by (simp only: drop_take take_take)
  qed
  moreover have "(j \<noteq> 0 \<and> j = fu_count (length nal) - 1) = (j = fu_count (length nal) - 1)" for j
    using cnt by auto
  ultimately have "pkts = map (\<lambda>j. encode_packet
         (simple_header (length nal \<le> 1404 * (j + 1)) 99 (m_usVideoRtpSeq x + of_nat j) ts 999999999)
         (((hd nal AND 0xE0) OR 28) #
          ((hd nal AND 0x1F) OR 0x80 OR (if j = fu_count (length nal) - 1 then 0x40 else 0)) #
          take 1404 (drop (1404 * j) (take (length nal) (tl nal @ rest)))))
       [0..<fu_count (length nal)]"
    unfolding s(4) fu_fragments_def hd(1) fu_bytes by (simp only: add_0 diff_zero)
  with s(1-3) show ?thesis
    using handleVideoEsStream_nal [OF assms(2) n assms(5), of align ts x]
    by (intro exI [of _ x'] exI [of _ pkts]) simp
qed

theorem handleVideoEsStream_fu_witness:
  "\<exists>x' pkts. handleVideoEsStream 0 (Some (replicate 3 0 @ 1 # (0x65 # replicate 2810 7) @ [0])) 2815 90
      VIDEO_STREAM_TYPE_H264 (es_start 0) = Some (x', pkts) \<and> length pkts = 2 \<and>
    pkts ! 1 = encode_packet (simple_header False 99 1 90 999999999) (0x7C # 0xC5 # replicate 1404 7)"
proof -
  define nal :: bytes where "nal = 0x65 # replicate 2810 7"
  have n: "length nal = 2811" "hd nal = 0x65" "tl nal = replicate 2810 7" by (simp_all add: nal_def)
  have c: "fu_count 2811 = 2" by (simp add: fu_count_def MAX_ENCAP_RTP_SIZE_def)
  have b: "(0x65 AND 0xE0) OR 28 = (0x7C :: u8)" "(0x65 AND 0x1F) OR 0x80 OR 0x40 = (0xC5 :: u8)"
    by code_simp+
  have t: "take 1404 (drop 1404 (take 2811 (tl nal @ [0]))) = replicate 1404 7"
    unfolding n(3) by simp
  have h: "(2 :: nat) \<le> 3" "1406 \<le> length nal" "length nal \<noteq> 1418" "[0 :: u8] \<noteq> []"
    unfolding n(1) by simp_all
  let ?f = "\<lambda>j. encode_packet
         (simple_header (2811 \<le> 1404 * (j + 1)) 99 (0 + of_nat j) 90 999999999)
         (((0x65 AND 0xE0) OR 28) #
          ((0x65 AND 0x1F) OR 0x80 OR (if j = 2 - 1 then 0x40 else 0)) #
          take 1404 (drop (1404 * j) (take 2811 (tl nal @ [0]))))"
  from handleVideoEsStream_fu [OF es_start(1) h(1-3) refl h(4), of 0 90 0, unfolded n(1,2) c es_start(3)]
  obtain x' pkts where
    p: "handleVideoEsStream 0 (Some (replicate 3 0 @ 1 # nal @ [0])) (3 + 1 + 2811) 90
      VIDEO_STREAM_TYPE_H264 (es_start 0) = Some (x', pkts)" "pkts = map ?f [0..<2]"
    by blast
  have "[0..<2] = [0, 1 :: nat]" by (simp add: upt_rec)
  then have "pkts = [?f 0, ?f 1]" unfolding p(2) by (simp only: list.map)
  moreover have "?f 1 = encode_packet (simple_header False 99 1 90 999999999) (0x7C # 0xC5 # replicate 1404 7)"
    using b t by simp
  ultimately have "length pkts = 2"
    "pkts ! 1 = encode_packet (simple_header False 99 1 90 999999999) (0x7C # 0xC5 # replicate 1404 7)"
    by simp_all
  moreover have "replicate 3 0 @ 1 # nal @ [0] = replicate 3 0 @ 1 # (0x65 # replicate 2810 7) @ [0]"
    unfolding nal_def ..
  ultimately show ?thesis using p(1) by auto
qed

end
