(* ===== verification/MediaDataQueue.thy ===== *)
theory MediaDataQueue
  imports SvsPrelude "HOL-Library.Multiset"
begin

text \<open>
  The lock-free queue of media blocks, \<open>svs_adapter_media_data_queue.cpp\<close>, with the atomic operations of
  \<open>svs_adapter_atomic.h\<close>.  Every access to a shared variable is one step of a thread, so that the steps of
  any number of producers and consumers interleave freely.  The queue is a ring of \<open>m_unMaxQueueSize + 1\<close>
  slots; a producer claims a slot by moving \<open>m_WriteIndex\<close> with a tagged compare-and-swap and fills it
  afterwards, a consumer claims a slot by moving \<open>m_ReadIndex\<close> and empties it afterwards.
\<close>

section \<open>The queue\<close>

type_synonym mb = nat

record CMediaDataQueue =
  m_WriteIndex :: u32
  m_WriteTag :: u32
  m_ReadIndex :: u32
  m_ReadTag :: u32
  m_ActiveFlag :: bool
  m_unMaxQueueSize :: u32
  m_unArraySize :: u32
  m_QueueSize :: u32
  m_pDataArray :: "mb option list option"

definition CMediaDataQueue_new :: CMediaDataQueue where
  "CMediaDataQueue_new = \<lparr>m_WriteIndex = 0, m_WriteTag = 0, m_ReadIndex = 0, m_ReadTag = 0, m_ActiveFlag = True,
     m_unMaxQueueSize = 0, m_unArraySize = 0, m_QueueSize = 0, m_pDataArray = None\<rparr>"

text \<open>\<open>mem\<close> tells whether \<open>new\<close> finds memory for the array.\<close>

definition queue_init :: "bool \<Rightarrow> u32 \<Rightarrow> CMediaDataQueue \<Rightarrow> retcode \<times> CMediaDataQueue" where
  "queue_init mem unQueueSize q =
     (let q1 = q\<lparr>m_ActiveFlag := True, m_unMaxQueueSize := unQueueSize, m_unArraySize := unQueueSize + 1,
                 m_QueueSize := 0, m_pDataArray := None, m_WriteIndex := 0, m_WriteTag := 0,
                 m_ReadIndex := 0, m_ReadTag := 0\<rparr>
      in if \<not> mem then (RET_ERR_SYS_NEW, q1)
         else (RET_OK, q1\<lparr>m_pDataArray := Some (replicate (unat (m_unArraySize q1)) None)\<rparr>))"

definition queue_close :: "CMediaDataQueue \<Rightarrow> CMediaDataQueue" where
  "queue_close q = q\<lparr>m_ActiveFlag := False\<rparr>"

definition message_count :: "CMediaDataQueue \<Rightarrow> u32" where
  "message_count q = m_QueueSize q"

definition queue_empty :: "CMediaDataQueue \<Rightarrow> bool" where
  "queue_empty q \<longleftrightarrow> m_QueueSize q = 0"

definition queue_full :: "CMediaDataQueue \<Rightarrow> bool" where
  "queue_full q \<longleftrightarrow> m_unMaxQueueSize q \<le> m_QueueSize q"

section \<open>Atomic operations\<close>

definition atomic_inc :: "u32 \<Rightarrow> u32" where
  "atomic_inc v = v + 1"

definition atomic_dec :: "u32 \<Rightarrow> u32" where
  "atomic_dec v = v - 1"

text \<open>
  \<open>cmpxchg8b\<close> on two adjacent words: the index and the tag behind it.  The result is whether they were
  swapped, and their new values.
\<close>

definition compare_and_swap2 :: "u32 \<times> u32 \<Rightarrow> u32 \<Rightarrow> u32 \<Rightarrow> u32 \<Rightarrow> u32 \<Rightarrow> bool \<times> u32 \<times> u32" where
  "compare_and_swap2 dest oldValue oldTag newValue newTag =
     (if dest = (oldValue, oldTag) then (True, newValue, newTag) else (False, fst dest, snd dest))"

text \<open>A slot of the array; \<^const>\<open>None\<close> is an access outside the array or through a null pointer.\<close>

definition get_slot :: "u32 \<Rightarrow> CMediaDataQueue \<Rightarrow> mb option option" where
  "get_slot h q = (case m_pDataArray q of None \<Rightarrow> None
     | Some a \<Rightarrow> if unat h < length a then Some (a ! unat h) else None)"

definition set_slot :: "u32 \<Rightarrow> mb option \<Rightarrow> CMediaDataQueue \<Rightarrow> CMediaDataQueue option" where
  "set_slot h v q = (case m_pDataArray q of None \<Rightarrow> None
     | Some a \<Rightarrow> if unat h < length a then Some (q\<lparr>m_pDataArray := Some (a[unat h := v])\<rparr>) else None)"

section \<open>Threads\<close>

text \<open>
  Where a thread is in the loop of \<open>enqueue_tail\<close> and \<open>dequeue_head\<close>, with its local variables (the index
  and the tag it read).  \<open>EHead\<close> is the test of the active flag and of the time, \<open>EIndex\<close> and \<open>ETag\<close> read the
  position, \<open>ERoom\<close> looks at the other end, \<open>ESlot\<close> at the slot, \<open>ECas\<close> is the compare-and-swap; then the
  slot is written and the counter moved.
\<close>

datatype eq_pc = EHead | EIndex | ETag u32 | ERoom u32 u32 | ESlot u32 u32 | ECas u32 u32 | EStore u32 | EInc

datatype dq_pc = DHead | DIndex | DTag u32 | DRoom u32 u32 | DSlot u32 u32 | DCas u32 u32
  | DLoad u32 | DClear u32 "mb option" | DDec "mb option"

datatype pc = Idle | Enq mb bool eq_pc | Deq bool dq_pc | Ret retcode "mb option"

text \<open>
  One step of a thread.  \<open>late\<close> is the comparison of the clock with the time-out, \<open>bTimeOut\<close> whether there
  is a time-out.  \<^const>\<open>None\<close> is an access outside the array.
\<close>

fun enqueue_step :: "bool \<Rightarrow> mb \<Rightarrow> bool \<Rightarrow> eq_pc \<Rightarrow> CMediaDataQueue \<Rightarrow> (pc \<times> CMediaDataQueue) option" where
  "enqueue_step late b bTimeOut EHead q =
     Some (if \<not> m_ActiveFlag q then (Ret RET_FAIL None, q)
           else if bTimeOut \<and> late then (Ret RET_ERR_TIMEOUT None, q)
           else (Enq b bTimeOut EIndex, q))"
| "enqueue_step late b bTimeOut EIndex q = Some (Enq b bTimeOut (ETag (m_WriteIndex q)), q)"
| "enqueue_step late b bTimeOut (ETag h) q = Some (Enq b bTimeOut (ERoom h (m_WriteTag q)), q)"
| "enqueue_step late b bTimeOut (ERoom h t) q =
     Some (if (h + 1) mod m_unArraySize q = m_ReadIndex q then (Enq b bTimeOut EHead, q)
           else (Enq b bTimeOut (ESlot h t), q))"
| "enqueue_step late b bTimeOut (ESlot h t) q =
     (case get_slot h q of None \<Rightarrow> None
      | Some v \<Rightarrow> Some (Enq b bTimeOut (if v \<noteq> None then EHead else ECas h t), q))"
| "enqueue_step late b bTimeOut (ECas h t) q =
     (case compare_and_swap2 (m_WriteIndex q, m_WriteTag q) h t ((h + 1) mod m_unArraySize q) (t + 1) of
        (ok, wi, wt) \<Rightarrow>
          Some (Enq b bTimeOut (if ok then EStore h else EHead), q\<lparr>m_WriteIndex := wi, m_WriteTag := wt\<rparr>))"
| "enqueue_step late b bTimeOut (EStore h) q =
     map_option (\<lambda>q'. (Enq b bTimeOut EInc, q')) (set_slot h (Some b) q)"
| "enqueue_step late b bTimeOut EInc q = Some (Ret RET_OK None, q\<lparr>m_QueueSize := atomic_inc (m_QueueSize q)\<rparr>)"

fun dequeue_step :: "bool \<Rightarrow> bool \<Rightarrow> dq_pc \<Rightarrow> CMediaDataQueue \<Rightarrow> (pc \<times> CMediaDataQueue) option" where
  "dequeue_step late bTimeOut DHead q =
     Some (if \<not> m_ActiveFlag q then (Ret RET_FAIL None, q)
           else if bTimeOut \<and> late then (Ret RET_ERR_TIMEOUT None, q)
           else (Deq bTimeOut DIndex, q))"
| "dequeue_step late bTimeOut DIndex q = Some (Deq bTimeOut (DTag (m_ReadIndex q)), q)"
| "dequeue_step late bTimeOut (DTag h) q = Some (Deq bTimeOut (DRoom h (m_ReadTag q)), q)"
| "dequeue_step late bTimeOut (DRoom h t) q =
     Some (if h = m_WriteIndex q then (Deq bTimeOut DHead, q) else (Deq bTimeOut (DSlot h t), q))"
| "dequeue_step late bTimeOut (DSlot h t) q =
     (case get_slot h q of None \<Rightarrow> None
      | Some v \<Rightarrow> Some (Deq bTimeOut (if v = None then DHead else DCas h t), q))"
| "dequeue_step late bTimeOut (DCas h t) q =
     (case compare_and_swap2 (m_ReadIndex q, m_ReadTag q) h t ((h + 1) mod m_unArraySize q) (t + 1) of
        (ok, ri, rt) \<Rightarrow>
          Some (Deq bTimeOut (if ok then DLoad h else DHead), q\<lparr>m_ReadIndex := ri, m_ReadTag := rt\<rparr>))"
| "dequeue_step late bTimeOut (DLoad h) q =
     map_option (\<lambda>v. (Deq bTimeOut (DClear h v), q)) (get_slot h q)"
| "dequeue_step late bTimeOut (DClear h v) q =
     map_option (\<lambda>q'. (Deq bTimeOut (DDec v), q')) (set_slot h None q)"
| "dequeue_step late bTimeOut (DDec v) q = Some (Ret RET_OK v, q\<lparr>m_QueueSize := atomic_dec (m_QueueSize q)\<rparr>)"

text \<open>The tests before the loops.\<close>

definition enqueue_begin :: "mb option \<Rightarrow> bool \<Rightarrow> CMediaDataQueue \<Rightarrow> pc" where
  "enqueue_begin b bTimeOut q =
     (case b of None \<Rightarrow> Ret RET_FAIL None
      | Some b' \<Rightarrow> if m_pDataArray q = None \<or> m_unArraySize q = 0 then Ret RET_FAIL None
                  else Enq b' bTimeOut EHead)"

definition dequeue_begin :: "bool \<Rightarrow> CMediaDataQueue \<Rightarrow> pc" where
  "dequeue_begin bTimeOut q =
     (if m_pDataArray q = None \<or> m_unArraySize q = 0 then Ret RET_FAIL None else Deq bTimeOut DHead)"

definition pc_step :: "bool \<Rightarrow> pc \<Rightarrow> CMediaDataQueue \<Rightarrow> (pc \<times> CMediaDataQueue) option" where
  "pc_step late p q =
     (case p of Enq b bTimeOut e \<Rightarrow> enqueue_step late b bTimeOut e q
      | Deq bTimeOut d \<Rightarrow> dequeue_step late bTimeOut d q
      | _ \<Rightarrow> Some (p, q))"

text \<open>
  A call with no other thread at work; \<open>clk n\<close> is what the \<open>n\<close>th look at the clock says.  The loop need not
  end: an enqueue without time-out on a full queue waits for ever.
\<close>

partial_function (option) run_alone ::
  "(nat \<Rightarrow> bool) \<Rightarrow> nat \<Rightarrow> pc \<Rightarrow> CMediaDataQueue \<Rightarrow> ((retcode \<times> mb option) \<times> CMediaDataQueue) option" where
  "run_alone clk n p q =
     (case p of Ret r v \<Rightarrow> Some ((r, v), q)
      | _ \<Rightarrow> (case pc_step (clk n) p q of None \<Rightarrow> None
              | Some (p', q') \<Rightarrow> run_alone clk (Suc n) p' q'))"

definition enqueue_tail ::
  "mb option \<Rightarrow> bool \<Rightarrow> (nat \<Rightarrow> bool) \<Rightarrow> CMediaDataQueue \<Rightarrow> (retcode \<times> CMediaDataQueue) option" where
  "enqueue_tail b bTimeOut clk q =
     map_option (\<lambda>((r, v), q'). (r, q')) (run_alone clk 0 (enqueue_begin b bTimeOut q) q)"

definition dequeue_head ::
  "bool \<Rightarrow> (nat \<Rightarrow> bool) \<Rightarrow> CMediaDataQueue \<Rightarrow> ((retcode \<times> mb option) \<times> CMediaDataQueue) option" where
  "dequeue_head bTimeOut clk q = run_alone clk 0 (dequeue_begin bTimeOut q) q"

section \<open>The ring as a window of tickets\<close>

text \<open>
  The \<open>k\<close>th successful claim of a producer is ticket \<open>k\<close>; it stands for slot \<open>k mod n\<close>.  \<open>W\<close> tickets are
  claimed by producers, \<open>R\<close> by consumers.  \<open>E\<close> are the tickets whose producer has not yet filled the slot,
  \<open>H\<close> the tickets whose consumer has not yet emptied it.
\<close>

definition ring_inv :: "nat \<Rightarrow> nat \<Rightarrow> nat \<Rightarrow> nat set \<Rightarrow> nat set \<Rightarrow> mb option list \<Rightarrow> mb list \<Rightarrow> bool" where
  "ring_inv n W R E H a log \<longleftrightarrow>
     R \<le> W \<and> W < R + n \<and> length a = n \<and> length log = W \<and> E \<subseteq> {R..<W} \<and> (\<forall>k\<in>H. k < R \<and> W \<le> k + n) \<and>
     (\<forall>k\<in>{R..<W} \<union> H. a ! (k mod n) = (if k \<in> E then None else Some (log ! k))) \<and>
     (\<forall>j<n. (\<forall>k\<in>{R..<W} \<union> H. k mod n \<noteq> j) \<longrightarrow> a ! j = None)"

lemma window_mod_eq:
  fixes k k' n W :: nat
  assumes "k mod n = k' mod n" "k < W" "k' < W" "W \<le> k + n" "W \<le> k' + n"
  shows "k = k'"
proof (rule ccontr)
  assume "k \<noteq> k'"
  then consider "k < k'" | "k' < k" by linarith
  then show False
  proof cases
    case 1
    then have "n dvd k' - k" using assms(1) by (metis less_imp_le mod_eq_dvd_iff_nat)
    then show False using 1 assms by (auto dest!: dvd_imp_le)
  next
    case 2
    then have "n dvd k - k'" using assms(1) by (metis less_imp_le mod_eq_dvd_iff_nat)
    then show False using 2 assms by (auto dest!: dvd_imp_le)
  qed
qed

lemma ring_held_window:
  assumes "ring_inv n W R E H a log" "k \<in> {R..<W} \<union> H"
  shows "k < W" "W \<le> k + n" "0 < n"
  using assms by (auto simp: ring_inv_def)

lemma ring_slot:
  assumes "ring_inv n W R E H a log" "k \<in> {R..<W} \<union> H"
  shows "a ! (k mod n) = (if k \<in> E then None else Some (log ! k))"
  using assms by (auto simp: ring_inv_def)

lemma ring_load:
  assumes "ring_inv n W R E H a log" "k \<in> H"
  shows "a ! (k mod n) = Some (log ! k)"
proof -
  have "k \<notin> E" using assms unfolding ring_inv_def by (metis atLeastLessThan_iff not_le subsetD)
  then show ?thesis using ring_slot [OF assms(1), of k] assms(2) by simp
qed

lemma ring_claim_write:
  assumes r: "ring_inv n W R E H a log" and room: "W + 1 < R + n" and free: "a ! (W mod n) = None"
  shows "ring_inv n (W + 1) R (insert W E) H a (log @ [b])"
proof -
  have H: "W + 1 \<le> k + n" if "k \<in> H" for k
  proof (rule ccontr)
    assume "\<not> W + 1 \<le> k + n"
    then have "W = k + n" using r that by (auto simp: ring_inv_def)
    then show False using ring_load [OF r that] free by simp
  qed
  have W: "{R..<W + 1} \<union> H = insert W ({R..<W} \<union> H)" using r by (auto simp: ring_inv_def)
  have E: "W \<notin> E" using r by (auto simp: ring_inv_def)
  have slot: "a ! (k mod n) = (if k \<in> insert W E then None else Some ((log @ [b]) ! k))"
    if "k \<in> insert W ({R..<W} \<union> H)" for k
    using that free ring_slot [OF r, of k] ring_held_window(1) [OF r, of k] r
    by (auto simp: nth_append ring_inv_def)
  have "E \<subseteq> {R..<W + 1}" "W \<in> {R..<W + 1}" using r by (auto simp: ring_inv_def)
  then show ?thesis
    using r room H slot unfolding ring_inv_def W by auto
qed

lemma ring_store:
  assumes r: "ring_inv n W R E H a log" and k: "k \<in> E"
  shows "ring_inv n W R (E - {k}) H (a[k mod n := Some (log ! k)]) log"
proof -
  have kW: "k \<in> {R..<W} \<union> H" "k mod n < length a" using r k by (auto simp: ring_inv_def)
  have upd: "a[k mod n := v] ! (l mod n) = (if l = k then v else a ! (l mod n))" if "l \<in> {R..<W} \<union> H" for l v
    using window_mod_eq [of l n k W] ring_held_window [OF r that] ring_held_window [OF r kW(1)] kW(2)
    by (auto simp: nth_list_update)
  have "a[k mod n := Some (log ! k)] ! j = None" if "j < n" "\<forall>l\<in>{R..<W} \<union> H. l mod n \<noteq> j" for j
    using r that kW(1) by (auto simp: ring_inv_def)
  then show ?thesis
    using r upd ring_slot [OF r] unfolding ring_inv_def by auto
qed

lemma ring_claim_read:
  assumes r: "ring_inv n W R E H a log" and ne: "R < W" and full: "a ! (R mod n) \<noteq> None"
  shows "ring_inv n W (R + 1) E (insert R H) a log"
proof -
  have R: "R \<in> {R..<W} \<union> H" using ne by simp
  then have E: "R \<notin> E" using ring_slot [OF r R] full by auto
  have eq: "{R + 1..<W} \<union> insert R H = {R..<W} \<union> H" using ne by auto
  have "E \<subseteq> {R + 1..<W}" using r E by (auto simp: ring_inv_def subset_iff le_less Suc_le_eq)
  then show ?thesis
    using r ne unfolding ring_inv_def eq by auto
qed

lemma ring_clear:
  assumes r: "ring_inv n W R E H a log" and k: "k \<in> H"
  shows "ring_inv n W R E (H - {k}) (a[k mod n := None]) log"
proof -
  have kW: "k \<in> {R..<W} \<union> H" "k mod n < length a" "k \<notin> {R..<W}" using r k by (auto simp: ring_inv_def)
  have upd: "a[k mod n := v] ! (l mod n) = (if l = k then v else a ! (l mod n))" if "l \<in> {R..<W} \<union> H" for l v
    using window_mod_eq [of l n k W] ring_held_window [OF r that] ring_held_window [OF r kW(1)] kW(2)
    by (auto simp: nth_list_update)
  have empty: "a[k mod n := None] ! j = None" if "j < n" "\<forall>l\<in>{R..<W} \<union> (H - {k}). l mod n \<noteq> j" for j
    using r that by (cases "j = k mod n") (auto simp: ring_inv_def)
  have "a[k mod n := None] ! (l mod n) = (if l \<in> E then None else Some (log ! l))"
    if "l \<in> {R..<W} \<union> (H - {k})" for l
    using upd [of l] ring_slot [OF r, of l] that kW(3) by auto
  then show ?thesis
    using r empty unfolding ring_inv_def by auto
qed

text \<open>With no claim pending the ring holds exactly the unread part of the log.\<close>

lemma ring_quiet:
  assumes "ring_inv n W R {} {} a log"
  shows "map (\<lambda>k. a ! (k mod n)) [R..<W] = map Some (drop R log)"
  using assms by (auto simp: ring_inv_def intro!: nth_equalityI)

section \<open>Producers and consumers\<close>

text \<open>
  Any number of threads at one queue.  Beside the queue and the place of each thread the state has a
  history that no thread reads: the blocks in the order in which producers claimed their slots (\<open>enqs\<close>), the
  number of claims of consumers (\<open>ndeq\<close>), the ticket of the claim of each thread (\<open>tick\<close>), and which block
  the consumer of a ticket found (\<open>got\<close>).
\<close>

record qsys =
  que :: CMediaDataQueue
  pcs :: "nat \<Rightarrow> pc"
  tick :: "nat \<Rightarrow> nat"
  enqs :: "mb list"
  ndeq :: nat
  got :: "(nat \<times> mb) list"

definition log_claim :: "nat \<Rightarrow> pc \<Rightarrow> pc \<Rightarrow> qsys \<Rightarrow> qsys" where
  "log_claim i p p' s =
     (case (p, p') of
        (Enq b _ (ECas _ _), Enq _ _ (EStore _)) \<Rightarrow> s\<lparr>tick := (tick s)(i := length (enqs s)), enqs := enqs s @ [b]\<rparr>
      | (Deq _ (DCas _ _), Deq _ (DLoad _)) \<Rightarrow> s\<lparr>tick := (tick s)(i := ndeq s), ndeq := ndeq s + 1\<rparr>
      | (Deq _ (DLoad _), Deq _ (DClear _ (Some b))) \<Rightarrow> s\<lparr>got := got s @ [(tick s i, b)]\<rparr>
      | _ \<Rightarrow> s)"

definition move :: "bool \<Rightarrow> nat \<Rightarrow> qsys \<Rightarrow> qsys option" where
  "move late i s =
     map_option (\<lambda>(p', q'). (log_claim i (pcs s i) p' s)\<lparr>que := q', pcs := (pcs s)(i := p')\<rparr>)
       (pc_step late (pcs s i) (que s))"

definition set_pc :: "nat \<Rightarrow> pc \<Rightarrow> qsys \<Rightarrow> qsys" where
  "set_pc i p s = s\<lparr>pcs := (pcs s)(i := p)\<rparr>"

text \<open>What can happen next, with \<open>N\<close> threads: a thread begins a call, moves, or has read its result; the
  queue is closed.\<close>

inductive qstep :: "nat \<Rightarrow> qsys \<Rightarrow> qsys \<Rightarrow> bool" for N where
  begin_enqueue: "i < N \<Longrightarrow> pcs s i = Idle \<Longrightarrow> qstep N s (set_pc i (enqueue_begin b bTimeOut (que s)) s)"
| begin_dequeue: "i < N \<Longrightarrow> pcs s i = Idle \<Longrightarrow> qstep N s (set_pc i (dequeue_begin bTimeOut (que s)) s)"
| move: "i < N \<Longrightarrow> move late i s = Some s' \<Longrightarrow> qstep N s s'"
| finish: "i < N \<Longrightarrow> pcs s i = Ret r v \<Longrightarrow> qstep N s (set_pc i Idle s)"
| close: "qstep N s (s\<lparr>que := queue_close (que s)\<rparr>)"

definition qstart :: "u32 \<Rightarrow> qsys" where
  "qstart unQueueSize = \<lparr>que = snd (queue_init True unQueueSize CMediaDataQueue_new), pcs = (\<lambda>_. Idle),
     tick = (\<lambda>_. 0), enqs = [], ndeq = 0, got = []\<rparr>"

inductive qreach :: "nat \<Rightarrow> u32 \<Rightarrow> qsys \<Rightarrow> bool" for N unQueueSize where
  start: "qreach N unQueueSize (qstart unQueueSize)"
| step: "qreach N unQueueSize s \<Longrightarrow> qstep N s s' \<Longrightarrow> qreach N unQueueSize s'"

fun storing :: "pc \<Rightarrow> bool" where
  "storing (Enq _ _ (EStore _)) = True"
| "storing _ = False"

fun loading :: "pc \<Rightarrow> bool" where
  "loading (Deq _ (DLoad _)) = True"
| "loading _ = False"

fun holding :: "pc \<Rightarrow> bool" where
  "holding (Deq _ (DLoad _)) = True"
| "holding (Deq _ (DClear _ _)) = True"
| "holding _ = False"

text \<open>What the thread still owes to the counter \<open>m_QueueSize\<close>.\<close>

fun debt :: "pc \<Rightarrow> u32" where
  "debt (Enq _ _ (EStore _)) = 1"
| "debt (Enq _ _ EInc) = 1"
| "debt (Deq _ (DLoad _)) = - 1"
| "debt (Deq _ (DClear _ _)) = - 1"
| "debt (Deq _ (DDec _)) = - 1"
| "debt _ = 0"

definition pend :: "(pc \<Rightarrow> bool) \<Rightarrow> (nat \<Rightarrow> nat) \<Rightarrow> (nat \<Rightarrow> pc) \<Rightarrow> nat set" where
  "pend P t c = {t i | i. P (c i)}"

definition uniq :: "(pc \<Rightarrow> bool) \<Rightarrow> (nat \<Rightarrow> nat) \<Rightarrow> (nat \<Rightarrow> pc) \<Rightarrow> bool" where
  "uniq P t c \<longleftrightarrow> (\<forall>i j. P (c i) \<and> P (c j) \<and> t i = t j \<longrightarrow> i = j)"

text \<open>
  What a thread knows: what it read is only worth something while the tag it read is the current one.
\<close>

fun thread_ok :: "nat \<Rightarrow> nat \<Rightarrow> nat \<Rightarrow> mb option list \<Rightarrow> mb list \<Rightarrow> nat \<Rightarrow> pc \<Rightarrow> bool" where
  "thread_ok n W R a log k (Enq b _ (ETag h)) \<longleftrightarrow> unat h < n"
| "thread_ok n W R a log k (Enq b _ (ERoom h t)) \<longleftrightarrow> unat h < n \<and> unat t \<le> W"
| "thread_ok n W R a log k (Enq b _ (ESlot h t)) \<longleftrightarrow> unat h < n \<and> unat t \<le> W \<and>
     (unat t = W \<and> unat h = W mod n \<longrightarrow> W + 1 < R + n)"
| "thread_ok n W R a log k (Enq b _ (ECas h t)) \<longleftrightarrow> unat h < n \<and> unat t \<le> W \<and>
     (unat t = W \<and> unat h = W mod n \<longrightarrow> W + 1 < R + n \<and> a ! (W mod n) = None)"
| "thread_ok n W R a log k (Enq b _ (EStore h)) \<longleftrightarrow> unat h = k mod n \<and> k < W \<and> log ! k = b"
| "thread_ok n W R a log k (Deq _ (DTag h)) \<longleftrightarrow> unat h < n"
| "thread_ok n W R a log k (Deq _ (DRoom h t)) \<longleftrightarrow> unat h < n \<and> unat t \<le> R"
| "thread_ok n W R a log k (Deq _ (DSlot h t)) \<longleftrightarrow> unat h < n \<and> unat t \<le> R \<and>
     (unat t = R \<and> unat h = R mod n \<longrightarrow> R < W)"
| "thread_ok n W R a log k (Deq _ (DCas h t)) \<longleftrightarrow> unat h < n \<and> unat t \<le> R \<and>
     (unat t = R \<and> unat h = R mod n \<longrightarrow> R < W \<and> a ! (R mod n) \<noteq> None)"
| "thread_ok n W R a log k (Deq _ (DLoad h)) \<longleftrightarrow> unat h = k mod n"
| "thread_ok n W R a log k (Deq _ (DClear h v)) \<longleftrightarrow> unat h = k mod n"
| "thread_ok n W R a log k _ \<longleftrightarrow> True"

lemma thread_ok_claim_write:
  assumes "thread_ok n (length log) R a log k p"
  shows "thread_ok n (length log + 1) R a (log @ [b]) k p"
  using assms by (cases "(n, length log, R, a, log, k, p)" rule: thread_ok.cases) (auto simp: nth_append)

lemma thread_ok_claim_read:
  assumes "thread_ok n W R a log k p"
  shows "thread_ok n W (R + 1) a log k p"
  using assms by (cases "(n, W, R, a, log, k, p)" rule: thread_ok.cases) auto

lemma thread_ok_store:
  assumes "thread_ok n W R a log k p" "l \<in> {R..<W}" "W < R + n" "length a = n"
  shows "thread_ok n W R (a[l mod n := Some b]) log k p"
proof -
  have "l mod n \<noteq> W mod n" if "W + 1 < R + n"
    using window_mod_eq [of l n W "W + 1"] that assms(2,3) by auto
  then show ?thesis
    using assms by (cases "(n, W, R, a, log, k, p)" rule: thread_ok.cases) (auto simp: nth_list_update)
qed

lemma thread_ok_clear:
  assumes "thread_ok n W R a log k p" "l < R" "W \<le> l + n" "W < R + n" "length a = n"
  shows "thread_ok n W R (a[l mod n := None]) log k p"
proof -
  have "l mod n \<noteq> R mod n" if "R < W"
    using window_mod_eq [of l n R W] that assms(2-4) by auto
  then show ?thesis
    using assms by (cases "(n, W, R, a, log, k, p)" rule: thread_ok.cases) (auto simp: nth_list_update)
qed

lemma pend_upd:
  assumes "\<not> P (c i)"
  shows "\<not> P p \<Longrightarrow> pend P t (c(i := p)) = pend P t c" "pend P (t(i := k)) c = pend P t c"
    "P p \<Longrightarrow> pend P (t(i := k)) (c(i := p)) = insert k (pend P t c)"
  using assms by (auto simp: pend_def)

lemma pend_drop:
  assumes "uniq P t c" "P (c i)" "\<not> P p"
  shows "pend P t (c(i := p)) = pend P t c - {t i}"
  using assms by (auto simp: pend_def uniq_def)

lemma pend_keep:
  assumes "P (c i)" "P p"
  shows "pend P t (c(i := p)) = pend P t c"
  using assms by (auto simp: pend_def)

lemma pend_member: "P (c i) \<Longrightarrow> t i \<in> pend P t c"
  by (auto simp: pend_def)

lemma pend_idle: "(\<And>i. \<not> P (c i)) \<Longrightarrow> pend P t c = {}"
  by (simp add: pend_def)

lemma uniq_upd:
  assumes "uniq P t c" "P p \<Longrightarrow> P (c i)"
  shows "uniq P t (c(i := p))"
  using assms unfolding uniq_def by (metis fun_upd_apply)

lemma uniq_claim:
  assumes "uniq P t c" "P p \<Longrightarrow> k \<notin> pend P t c"
  shows "uniq P (t(i := k)) (c(i := p))"
  using assms unfolding uniq_def pend_def by (smt (verit) fun_upd_apply mem_Collect_eq)

lemma debt_sum_upd:
  fixes N :: nat
  assumes "i < N"
  shows "(\<Sum>j<N. debt (if j = i then p else c j)) = (\<Sum>j<N. debt (c j)) - debt (c i) + debt p"
proof -
  have i: "finite {..<N}" "i \<in> {..<N}" using assms by auto
  have "(\<Sum>j\<in>{..<N} - {i}. debt (if j = i then p else c j)) = (\<Sum>j\<in>{..<N} - {i}. debt (c j))"
    by (rule sum.cong) auto
  then show ?thesis
    unfolding sum.remove [OF i, of "\<lambda>j. debt (if j = i then p else c j)"] sum.remove [OF i, of "\<lambda>j. debt (c j)"]
    by simp
qed

lemma not_holding_loading: "\<not> holding p \<Longrightarrow> \<not> loading p"
  by (cases p rule: loading.cases) auto

section \<open>The invariant\<close>

definition index_ok :: "nat \<Rightarrow> qsys \<Rightarrow> bool" where
  "index_ok n s \<longleftrightarrow> unat (m_unArraySize (que s)) = n \<and>
     unat (m_WriteIndex (que s)) = length (enqs s) mod n \<and> unat (m_WriteTag (que s)) = length (enqs s) \<and>
     unat (m_ReadIndex (que s)) = ndeq s mod n \<and> unat (m_ReadTag (que s)) = ndeq s"

definition slots_ok :: "nat \<Rightarrow> qsys \<Rightarrow> bool" where
  "slots_ok n s \<longleftrightarrow> (case m_pDataArray (que s) of None \<Rightarrow> False
     | Some a \<Rightarrow> ring_inv n (length (enqs s)) (ndeq s) (pend storing (tick s) (pcs s)) (pend holding (tick s) (pcs s))
                  a (enqs s) \<and>
                (\<forall>i. thread_ok n (length (enqs s)) (ndeq s) a (enqs s) (tick s i) (pcs s i)))"

text \<open>Each of the first \<open>R\<close> tickets is with a consumer that has yet to load it (\<open>L\<close>) or was delivered once.\<close>

definition got_rel :: "nat \<Rightarrow> nat set \<Rightarrow> mb list \<Rightarrow> (nat \<times> mb) list \<Rightarrow> bool" where
  "got_rel R L log g \<longleftrightarrow> distinct (map fst g) \<and> (\<forall>x\<in>set g. log ! fst x = snd x) \<and>
     fst ` set g \<union> L = {..<R} \<and> fst ` set g \<inter> L = {}"

lemma got_rel_extend:
  assumes "got_rel R L log g" "R \<le> length log"
  shows "got_rel R L (log @ [b]) g"
proof -
  have "(log @ [b]) ! fst x = log ! fst x" if "x \<in> set g" for x
  proof -
    have "fst x \<in> {..<R}" using assms(1) that unfolding got_rel_def by blast
    then show ?thesis using assms(2) by (simp add: nth_append)
  qed
  then show ?thesis using assms(1) by (simp add: got_rel_def)
qed

lemma got_rel_claim:
  assumes "got_rel R L log g"
  shows "got_rel (R + 1) (insert R L) log g"
proof -
  have "R \<notin> fst ` set g" using assms unfolding got_rel_def by blast
  then show ?thesis using assms by (auto simp: got_rel_def lessThan_Suc)
qed

lemma got_rel_take:
  assumes "got_rel R L log g" "k \<in> L"
  shows "got_rel R (L - {k}) log (g @ [(k, log ! k)])"
proof -
  have "k \<notin> fst ` set g" "insert k (L - {k}) = L" using assms unfolding got_rel_def by blast+
  then show ?thesis using assms by (auto simp: got_rel_def)
qed

definition got_ok :: "qsys \<Rightarrow> bool" where
  "got_ok s \<longleftrightarrow> got_rel (ndeq s) (pend loading (tick s) (pcs s)) (enqs s) (got s)"

definition size_ok :: "nat \<Rightarrow> qsys \<Rightarrow> bool" where
  "size_ok N s \<longleftrightarrow> m_QueueSize (que s) + (\<Sum>i<N. debt (pcs s i)) = of_nat (length (enqs s)) - of_nat (ndeq s)"

definition qinv :: "nat \<Rightarrow> nat \<Rightarrow> qsys \<Rightarrow> bool" where
  "qinv N n s \<longleftrightarrow> index_ok n s \<and> slots_ok n s \<and> got_ok s \<and> size_ok N s \<and>
     uniq storing (tick s) (pcs s) \<and> uniq holding (tick s) (pcs s)"

lemmas qinv_parts = qinv_def index_ok_def slots_ok_def got_ok_def size_ok_def

lemma slots_okE:
  assumes "slots_ok n s"
  obtains a where "m_pDataArray (que s) = Some a"
    "ring_inv n (length (enqs s)) (ndeq s) (pend storing (tick s) (pcs s)) (pend holding (tick s) (pcs s)) a (enqs s)"
    "\<And>i. thread_ok n (length (enqs s)) (ndeq s) a (enqs s) (tick s i) (pcs s i)"
  using assms by (auto simp: slots_ok_def split: option.splits)

text \<open>A thread that moves without touching the queue and without a claim.\<close>

lemma qinv_local:
  assumes "qinv N n s" "i < N" "\<not> storing (pcs s i)" "\<not> storing p" "\<not> holding (pcs s i)" "\<not> holding p"
    "debt p = debt (pcs s i)"
    "\<And>a. m_pDataArray (que s) = Some a \<Longrightarrow> thread_ok n (length (enqs s)) (ndeq s) a (enqs s) (tick s i) p"
  shows "qinv N n (set_pc i p s)"
proof -
  have ld: "\<not> loading (pcs s i)" "\<not> loading p" using assms(5,6) by (auto dest: not_holding_loading)
  have "uniq storing (tick s) ((pcs s)(i := p))" "uniq holding (tick s) ((pcs s)(i := p))"
    using assms(1,4,6) by (auto simp: qinv_def intro: uniq_upd)
  then show ?thesis
    using assms ld by (simp add: qinv_parts set_pc_def pend_upd debt_sum_upd split: option.splits)
qed

lemma index_succ:
  fixes h m :: u32
  assumes "unat h = k mod n" "unat m = n" "0 < n"
  shows "unat ((h + 1) mod m) = (k + 1) mod n"
proof -
  have "unat h < n" using assms by simp
  then have "unat h + 1 < 2 ^ 32" using assms(2) unsigned_less [of m, where 'a = nat] by simp
  then have "unat (h + 1) = unat h + 1" by (simp add: unat_word_ariths)
  then show ?thesis using assms by (simp add: unat_mod mod_Suc_eq)
qed

lemma qinv_bounds:
  assumes "qinv N n s"
  shows "0 < n" "ndeq s \<le> length (enqs s)" "length (enqs s) < ndeq s + n"
  using assms by (auto simp: qinv_def ring_inv_def elim!: slots_okE)

lemma get_slot_ok:
  assumes "slots_ok n s" "unat h < n"
  obtains a where "m_pDataArray (que s) = Some a" "get_slot h (que s) = Some (a ! unat h)"
  using assms by (auto simp: get_slot_def ring_inv_def elim!: slots_okE)

text \<open>The claim of a producer.\<close>

lemma qinv_claim_write:
  assumes inv: "qinv N n s" and i: "i < N" "pcs s i = Enq b tm (ECas h t)"
    and cas: "m_WriteIndex (que s) = h" "m_WriteTag (que s) = t" and W: "length (enqs s) + 1 < 2 ^ 32"
  shows "qinv N n (s\<lparr>tick := (tick s)(i := length (enqs s)), enqs := enqs s @ [b],
    que := (que s)\<lparr>m_WriteIndex := (h + 1) mod m_unArraySize (que s), m_WriteTag := t + 1\<rparr>,
    pcs := (pcs s)(i := Enq b tm (EStore h))\<rparr>)" (is "qinv N n ?s")
proof -
  let ?p = "Enq b tm (EStore h)" and ?W = "length (enqs s)"
  obtain a where a: "m_pDataArray (que s) = Some a"
    "ring_inv n ?W (ndeq s) (pend storing (tick s) (pcs s)) (pend holding (tick s) (pcs s)) a (enqs s)"
    "\<And>i. thread_ok n ?W (ndeq s) a (enqs s) (tick s i) (pcs s i)"
    using inv by (auto simp: qinv_def elim: slots_okE)
  have idx: "unat h = ?W mod n" "unat t = ?W" "unat (m_unArraySize (que s)) = n"
    using inv cas by (auto simp: qinv_def index_ok_def)
  then have room: "?W + 1 < ndeq s + n" "a ! (?W mod n) = None" using a(3) [of i] i(2) by auto
  have pe: "pend storing ((tick s)(i := ?W)) ((pcs s)(i := ?p)) = insert ?W (pend storing (tick s) (pcs s))"
    "pend holding ((tick s)(i := ?W)) ((pcs s)(i := ?p)) = pend holding (tick s) (pcs s)"
    "pend loading ((tick s)(i := ?W)) ((pcs s)(i := ?p)) = pend loading (tick s) (pcs s)"
    using i(2) by (simp_all add: pend_upd)
  have "?W \<notin> pend storing (tick s) (pcs s)" using a(2) by (auto simp: ring_inv_def)
  then have u: "uniq storing ((tick s)(i := ?W)) ((pcs s)(i := ?p))" "uniq holding ((tick s)(i := ?W)) ((pcs s)(i := ?p))"
    using inv by (auto simp: qinv_def intro: uniq_claim)
  have "index_ok n ?s"
    using inv idx W index_succ [OF idx(1,3)] qinv_bounds(1) [OF inv]
    by (simp add: qinv_def index_ok_def unat_word_ariths)
  moreover have "slots_ok n ?s"
    using a(1) ring_claim_write [OF a(2) room, of b] thread_ok_claim_write [OF a(3), where b = b] idx(1)
    by (simp add: slots_ok_def pe nth_append)
  moreover have "got_ok ?s"
    using inv qinv_bounds(2) [OF inv] by (simp add: qinv_def got_ok_def pe got_rel_extend)
  moreover have "size_ok N ?s"
    using inv i by (simp add: qinv_def size_ok_def debt_sum_upd algebra_simps)
  ultimately show ?thesis using u by (simp add: qinv_def)
qed

text \<open>The producer fills the slot and counts the block.\<close>

lemma qinv_store:
  assumes inv: "qinv N n s" and i: "i < N" "pcs s i = Enq b tm (EStore h)"
    and q: "set_slot h (Some b) (que s) = Some q'"
  shows "qinv N n (s\<lparr>que := q', pcs := (pcs s)(i := Enq b tm EInc)\<rparr>)" (is "qinv N n ?s")
proof -
  let ?p = "Enq b tm EInc" and ?W = "length (enqs s)" and ?k = "tick s i"
  obtain a where a: "m_pDataArray (que s) = Some a"
    "ring_inv n ?W (ndeq s) (pend storing (tick s) (pcs s)) (pend holding (tick s) (pcs s)) a (enqs s)"
    "\<And>i. thread_ok n ?W (ndeq s) a (enqs s) (tick s i) (pcs s i)"
    using inv by (auto simp: qinv_def elim: slots_okE)
  have k: "unat h = ?k mod n" "enqs s ! ?k = b" "?k \<in> pend storing (tick s) (pcs s)"
    using a(3) [of i] i(2) by (auto intro: pend_member [where c = "pcs s"])
  then have kw: "?k \<in> {ndeq s..<?W}" "?W < ndeq s + n" "length a = n" using a(2) by (auto simp: ring_inv_def)
  have q': "q' = (que s)\<lparr>m_pDataArray := Some (a[?k mod n := Some b])\<rparr>"
    using q a(1) k(1) by (auto simp: set_slot_def split: if_splits)
  have pe: "pend storing (tick s) ((pcs s)(i := ?p)) = pend storing (tick s) (pcs s) - {?k}"
    "pend holding (tick s) ((pcs s)(i := ?p)) = pend holding (tick s) (pcs s)"
    "pend loading (tick s) ((pcs s)(i := ?p)) = pend loading (tick s) (pcs s)"
    using i(2) inv by (simp_all add: pend_upd pend_drop qinv_def)
  have u: "uniq storing (tick s) ((pcs s)(i := ?p))" "uniq holding (tick s) ((pcs s)(i := ?p))"
    using inv by (auto simp: qinv_def intro: uniq_upd)
  have "slots_ok n ?s"
    using ring_store [OF a(2) k(3)] thread_ok_store [OF a(3) kw] k(2) by (simp add: slots_ok_def q' pe)
  moreover have "index_ok n ?s" "got_ok ?s" "size_ok N ?s"
    using inv i by (auto simp: qinv_def index_ok_def got_ok_def size_ok_def debt_sum_upd q' pe)
  ultimately show ?thesis using u by (simp add: qinv_def)
qed

text \<open>The counter: a thread pays its debt.\<close>

lemma qinv_count:
  assumes inv: "qinv N n s" and i: "i < N" "\<not> storing (pcs s i)" "\<not> holding (pcs s i)"
  shows "qinv N n (s\<lparr>que := (que s)\<lparr>m_QueueSize := m_QueueSize (que s) + debt (pcs s i)\<rparr>,
    pcs := (pcs s)(i := Ret r v)\<rparr>)" (is "qinv N n ?s")
proof -
  let ?p = "Ret r v"
  have ld: "\<not> loading (pcs s i)" using i(3) by (rule not_holding_loading)
  have "uniq storing (tick s) ((pcs s)(i := ?p))" "uniq holding (tick s) ((pcs s)(i := ?p))"
    using inv by (auto simp: qinv_def intro: uniq_upd)
  then show ?thesis
    using inv i ld by (simp add: qinv_parts pend_upd debt_sum_upd algebra_simps split: option.splits)
qed

text \<open>The claim of a consumer.\<close>

lemma qinv_claim_read:
  assumes inv: "qinv N n s" and i: "i < N" "pcs s i = Deq tm (DCas h t)"
    and cas: "m_ReadIndex (que s) = h" "m_ReadTag (que s) = t" and W: "length (enqs s) < 2 ^ 32"
  shows "qinv N n (s\<lparr>tick := (tick s)(i := ndeq s), ndeq := ndeq s + 1,
    que := (que s)\<lparr>m_ReadIndex := (h + 1) mod m_unArraySize (que s), m_ReadTag := t + 1\<rparr>,
    pcs := (pcs s)(i := Deq tm (DLoad h))\<rparr>)" (is "qinv N n ?s")
proof -
  let ?p = "Deq tm (DLoad h)" and ?W = "length (enqs s)" and ?R = "ndeq s"
  obtain a where a: "m_pDataArray (que s) = Some a"
    "ring_inv n ?W ?R (pend storing (tick s) (pcs s)) (pend holding (tick s) (pcs s)) a (enqs s)"
    "\<And>i. thread_ok n ?W ?R a (enqs s) (tick s i) (pcs s i)"
    using inv by (auto simp: qinv_def elim: slots_okE)
  have idx: "unat h = ?R mod n" "unat t = ?R" "unat (m_unArraySize (que s)) = n"
    using inv cas by (auto simp: qinv_def index_ok_def)
  then have data: "?R < ?W" "a ! (?R mod n) \<noteq> None" using a(3) [of i] i(2) by auto
  have pe: "pend storing ((tick s)(i := ?R)) ((pcs s)(i := ?p)) = pend storing (tick s) (pcs s)"
    "pend holding ((tick s)(i := ?R)) ((pcs s)(i := ?p)) = insert ?R (pend holding (tick s) (pcs s))"
    "pend loading ((tick s)(i := ?R)) ((pcs s)(i := ?p)) = insert ?R (pend loading (tick s) (pcs s))"
    using i(2) by (simp_all add: pend_upd)
  have new: "?R \<notin> pend holding (tick s) (pcs s)" using a(2) by (auto simp: ring_inv_def)
  then have u: "uniq storing ((tick s)(i := ?R)) ((pcs s)(i := ?p))" "uniq holding ((tick s)(i := ?R)) ((pcs s)(i := ?p))"
    using inv by (auto simp: qinv_def intro: uniq_claim)
  have "index_ok n ?s"
    using inv idx W data index_succ [OF idx(1,3)] qinv_bounds(1) [OF inv]
    by (simp add: qinv_def index_ok_def unat_word_ariths)
  moreover have "slots_ok n ?s"
    using a(1) ring_claim_read [OF a(2) data] thread_ok_claim_read [OF a(3)] idx(1)
    by (simp add: slots_ok_def pe)
  moreover have "got_ok ?s"
    using inv got_rel_claim by (fastforce simp: qinv_def got_ok_def pe)
  moreover have "size_ok N ?s"
    using inv i by (simp add: qinv_def size_ok_def debt_sum_upd algebra_simps)
  ultimately show ?thesis using u by (simp add: qinv_def)
qed

text \<open>The consumer takes the block out and empties the slot.\<close>

lemma qinv_load:
  assumes inv: "qinv N n s" and i: "i < N" "pcs s i = Deq tm (DLoad h)"
    and v: "get_slot h (que s) = Some v"
  shows "v = Some (enqs s ! tick s i)"
    "qinv N n (s\<lparr>got := got s @ [(tick s i, enqs s ! tick s i)], pcs := (pcs s)(i := Deq tm (DClear h v))\<rparr>)"
    (is "qinv N n ?s")
proof -
  let ?p = "Deq tm (DClear h v)" and ?W = "length (enqs s)" and ?k = "tick s i"
  obtain a where a: "m_pDataArray (que s) = Some a"
    "ring_inv n ?W (ndeq s) (pend storing (tick s) (pcs s)) (pend holding (tick s) (pcs s)) a (enqs s)"
    "\<And>i. thread_ok n ?W (ndeq s) a (enqs s) (tick s i) (pcs s i)"
    using inv by (auto simp: qinv_def elim: slots_okE)
  have k: "unat h = ?k mod n" "?k \<in> pend holding (tick s) (pcs s)" "?k \<in> pend loading (tick s) (pcs s)"
    using a(3) [of i] i(2) by (auto intro: pend_member [where c = "pcs s"])
  show "v = Some (enqs s ! ?k)"
    using v a(1) k(1) ring_load [OF a(2) k(2)] by (auto simp: get_slot_def split: if_splits)
  have ul: "uniq loading (tick s) (pcs s)"
  proof -
    have "loading p \<Longrightarrow> holding p" for p by (cases p rule: loading.cases) auto
    then show ?thesis using inv unfolding qinv_def uniq_def by blast
  qed
  have pe: "pend storing (tick s) ((pcs s)(i := ?p)) = pend storing (tick s) (pcs s)"
    "pend holding (tick s) ((pcs s)(i := ?p)) = pend holding (tick s) (pcs s)"
    "pend loading (tick s) ((pcs s)(i := ?p)) = pend loading (tick s) (pcs s) - {?k}"
    using i(2) ul by (simp_all add: pend_upd pend_keep pend_drop)
  have u: "uniq storing (tick s) ((pcs s)(i := ?p))" "uniq holding (tick s) ((pcs s)(i := ?p))"
    using inv i(2) by (auto simp: qinv_def intro: uniq_upd)
  have "slots_ok n ?s" using a k(1) by (simp add: slots_ok_def pe)
  moreover have "got_ok ?s"
    using inv k(3) by (simp add: qinv_def got_ok_def pe got_rel_take)
  moreover have "index_ok n ?s" "size_ok N ?s"
    using inv i by (auto simp: qinv_def index_ok_def size_ok_def debt_sum_upd)
  ultimately show "qinv N n ?s" using u by (simp add: qinv_def)
qed

lemma qinv_clear:
  assumes inv: "qinv N n s" and i: "i < N" "pcs s i = Deq tm (DClear h v)"
    and q: "set_slot h None (que s) = Some q'"
  shows "qinv N n (s\<lparr>que := q', pcs := (pcs s)(i := Deq tm (DDec v))\<rparr>)" (is "qinv N n ?s")
proof -
  let ?p = "Deq tm (DDec v)" and ?W = "length (enqs s)" and ?k = "tick s i"
  obtain a where a: "m_pDataArray (que s) = Some a"
    "ring_inv n ?W (ndeq s) (pend storing (tick s) (pcs s)) (pend holding (tick s) (pcs s)) a (enqs s)"
    "\<And>i. thread_ok n ?W (ndeq s) a (enqs s) (tick s i) (pcs s i)"
    using inv by (auto simp: qinv_def elim: slots_okE)
  have k: "unat h = ?k mod n" "?k \<in> pend holding (tick s) (pcs s)"
    using a(3) [of i] i(2) by (auto intro: pend_member [where c = "pcs s"])
  then have kw: "?k < ndeq s" "?W \<le> ?k + n" "?W < ndeq s + n" "length a = n" using a(2) by (auto simp: ring_inv_def)
  have q': "q' = (que s)\<lparr>m_pDataArray := Some (a[?k mod n := None])\<rparr>"
    using q a(1) k(1) by (auto simp: set_slot_def split: if_splits)
  have pe: "pend storing (tick s) ((pcs s)(i := ?p)) = pend storing (tick s) (pcs s)"
    "pend holding (tick s) ((pcs s)(i := ?p)) = pend holding (tick s) (pcs s) - {?k}"
    "pend loading (tick s) ((pcs s)(i := ?p)) = pend loading (tick s) (pcs s)"
    using i(2) inv by (simp_all add: pend_upd pend_drop qinv_def)
  have u: "uniq storing (tick s) ((pcs s)(i := ?p))" "uniq holding (tick s) ((pcs s)(i := ?p))"
    using inv by (auto simp: qinv_def intro: uniq_upd)
  have "slots_ok n ?s"
    using ring_clear [OF a(2) k(2)] thread_ok_clear [OF a(3) kw] by (simp add: slots_ok_def q' pe)
  moreover have "index_ok n ?s" "got_ok ?s" "size_ok N ?s"
    using inv i by (auto simp: qinv_def index_ok_def got_ok_def size_ok_def debt_sum_upd q' pe)
  ultimately show ?thesis using u by (simp add: qinv_def)
qed

section \<open>Every step keeps the invariant\<close>

lemma move_set_pc:
  assumes "pc_step late (pcs s i) (que s) = Some (p, que s)" "log_claim i (pcs s i) p s = s"
  shows "move late i s = Some (set_pc i p s)"
  using assms by (simp add: move_def set_pc_def)

lemma qinv_enqueue_step:
  assumes inv: "qinv N n s" and i: "i < N" "pcs s i = Enq b tm e"
    and m: "move late i s = Some s'" and W: "length (enqs s') < 2 ^ 32"
  shows "qinv N n s'"
proof -
  note p = i(2) and n = qinv_bounds [OF inv]
  obtain a where a: "m_pDataArray (que s) = Some a" "\<And>i. thread_ok n (length (enqs s)) (ndeq s) a (enqs s) (tick s i) (pcs s i)"
    "length a = n"
    using inv by (auto simp: qinv_def ring_inv_def elim: slots_okE)
  note ok = a(2) [of i]
  have idx: "unat (m_unArraySize (que s)) = n" "unat (m_WriteIndex (que s)) = length (enqs s) mod n"
    "unat (m_WriteTag (que s)) = length (enqs s)" "unat (m_ReadIndex (que s)) = ndeq s mod n"
    using inv by (auto simp: qinv_def index_ok_def)
  note st = m [unfolded move_def pc_step_def p]
  have loc: "qinv N n (set_pc i q s)" if "\<not> storing q" "\<not> holding q" "debt q = 0" "\<not> storing (Enq b tm e)"
      "debt (Enq b tm e) = 0" "thread_ok n (length (enqs s)) (ndeq s) a (enqs s) (tick s i) q" for q
    using qinv_local [OF inv i(1), of q] that p a(1) by simp
  show ?thesis
  proof (cases e)
    case EHead
    then show ?thesis using st loc by (auto simp: log_claim_def set_pc_def split: if_splits)
  next
    case EIndex
    then show ?thesis using st loc n(1) idx by (auto simp: log_claim_def set_pc_def)
  next
    case (ETag h)
    then show ?thesis using st loc ok p idx by (auto simp: log_claim_def set_pc_def)
  next
    case (ERoom h t)
    have "length (enqs s) + 1 < ndeq s + n"
      if "(h + 1) mod m_unArraySize (que s) \<noteq> m_ReadIndex (que s)" "unat h = length (enqs s) mod n"
    proof (rule ccontr)
      assume "\<not> length (enqs s) + 1 < ndeq s + n"
      then have "length (enqs s) + 1 = ndeq s + n" using n by linarith
      then have "unat ((h + 1) mod m_unArraySize (que s)) = unat (m_ReadIndex (que s))"
        using index_succ [OF that(2) idx(1) n(1)] idx(4) by simp
      with that(1) show False by (simp add: word_unat_eq_iff)
    qed
    then show ?thesis using ERoom st loc ok p by (auto simp: log_claim_def set_pc_def split: if_splits)
  next
    case (ESlot h t)
    have "thread_ok n (length (enqs s)) (ndeq s) a (enqs s) (tick s i) (Enq b tm (ECas h t))" if "a ! unat h = None"
      using ok p ESlot that by auto
    then show ?thesis
      using ESlot st loc [of "Enq b tm EHead"] loc [of "Enq b tm (ECas h t)"] a(1)
      by (auto simp: log_claim_def set_pc_def get_slot_def split: if_splits)
  next
    case (ECas h t)
    show ?thesis
    proof (cases "m_WriteIndex (que s) = h \<and> m_WriteTag (que s) = t")
      case True
      then have s': "s' = s\<lparr>tick := (tick s)(i := length (enqs s)), enqs := enqs s @ [b],
        que := (que s)\<lparr>m_WriteIndex := (h + 1) mod m_unArraySize (que s), m_WriteTag := t + 1\<rparr>,
        pcs := (pcs s)(i := Enq b tm (EStore h))\<rparr>"
        using st ECas by (simp add: compare_and_swap2_def log_claim_def)
      then show ?thesis
        using qinv_claim_write [OF inv i(1), of b tm h t] p ECas True W by simp
    next
      case False
      then show ?thesis using st ECas loc by (auto simp: compare_and_swap2_def log_claim_def set_pc_def)
    qed
  next
    case (EStore h)
    then show ?thesis using st qinv_store [OF inv i(1)] p by (auto simp: log_claim_def)
  next
    case EInc
    then show ?thesis using st qinv_count [OF inv i(1), of RET_OK None] p by (auto simp: log_claim_def atomic_inc_def)
  qed
qed

lemma qinv_dequeue_step:
  assumes inv: "qinv N n s" and i: "i < N" "pcs s i = Deq tm d"
    and m: "move late i s = Some s'" and W: "length (enqs s) < 2 ^ 32"
  shows "qinv N n s'"
proof -
  note p = i(2) and n = qinv_bounds [OF inv]
  obtain a where a: "m_pDataArray (que s) = Some a" "\<And>i. thread_ok n (length (enqs s)) (ndeq s) a (enqs s) (tick s i) (pcs s i)"
    "length a = n"
    using inv by (auto simp: qinv_def ring_inv_def elim: slots_okE)
  note ok = a(2) [of i]
  have idx: "unat (m_unArraySize (que s)) = n" "unat (m_WriteIndex (que s)) = length (enqs s) mod n"
    "unat (m_ReadIndex (que s)) = ndeq s mod n" "unat (m_ReadTag (que s)) = ndeq s"
    using inv by (auto simp: qinv_def index_ok_def)
  note st = m [unfolded move_def pc_step_def p]
  have loc: "qinv N n (set_pc i q s)" if "\<not> storing q" "\<not> holding q" "debt q = 0" "\<not> holding (Deq tm d)"
      "debt (Deq tm d) = 0" "thread_ok n (length (enqs s)) (ndeq s) a (enqs s) (tick s i) q" for q
    using qinv_local [OF inv i(1), of q] that p a(1) by simp
  show ?thesis
  proof (cases d)
    case DHead
    then show ?thesis using st loc by (auto simp: log_claim_def set_pc_def split: if_splits)
  next
    case DIndex
    then show ?thesis using st loc n(1) idx by (auto simp: log_claim_def set_pc_def)
  next
    case (DTag h)
    then show ?thesis using st loc ok p idx by (auto simp: log_claim_def set_pc_def)
  next
    case (DRoom h t)
    have "ndeq s < length (enqs s)" if "h \<noteq> m_WriteIndex (que s)" "unat h = ndeq s mod n"
      using that n(2) idx(2) by (auto simp: le_less word_unat_eq_iff)
    then show ?thesis using DRoom st loc ok p by (auto simp: log_claim_def set_pc_def split: if_splits)
  next
    case (DSlot h t)
    have "thread_ok n (length (enqs s)) (ndeq s) a (enqs s) (tick s i) (Deq tm (DCas h t))" if "a ! unat h \<noteq> None"
      using ok p DSlot that by auto
    then show ?thesis
      using DSlot st loc [of "Deq tm DHead"] loc [of "Deq tm (DCas h t)"] a(1)
      by (auto simp: log_claim_def set_pc_def get_slot_def split: if_splits)
  next
    case (DCas h t)
    show ?thesis
    proof (cases "m_ReadIndex (que s) = h \<and> m_ReadTag (que s) = t")
      case True
      then have s': "s' = s\<lparr>tick := (tick s)(i := ndeq s), ndeq := ndeq s + 1,
        que := (que s)\<lparr>m_ReadIndex := (h + 1) mod m_unArraySize (que s), m_ReadTag := t + 1\<rparr>,
        pcs := (pcs s)(i := Deq tm (DLoad h))\<rparr>"
        using st DCas by (simp add: compare_and_swap2_def log_claim_def)
      then show ?thesis
        using qinv_claim_read [OF inv i(1), of tm h t] p DCas True W by simp
    next
      case False
      then show ?thesis using st DCas loc by (auto simp: compare_and_swap2_def log_claim_def set_pc_def)
    qed
  next
    case (DLoad h)
    then obtain v where v: "get_slot h (que s) = Some v" using st by auto
    note l = qinv_load [OF inv i(1) p [unfolded DLoad] v]
    then have "s' = s\<lparr>got := got s @ [(tick s i, enqs s ! tick s i)], pcs := (pcs s)(i := Deq tm (DClear h v))\<rparr>"
      using st DLoad v by (simp add: log_claim_def)
    then show ?thesis using l(2) by simp
  next
    case (DClear h v)
    then show ?thesis using st qinv_clear [OF inv i(1)] p by (auto simp: log_claim_def)
  next
    case (DDec v)
    then show ?thesis using st qinv_count [OF inv i(1), of RET_OK v] p by (auto simp: log_claim_def atomic_dec_def)
  qed
qed

lemma log_claim_mono: "length (enqs s) \<le> length (enqs (log_claim i p p' s))"
  by (simp add: log_claim_def split: pc.split eq_pc.split dq_pc.split option.split)

lemma qinv_move:
  assumes "qinv N n s" "i < N" "move late i s = Some s'" "length (enqs s') < 2 ^ 32"
  shows "qinv N n s'"
proof -
  have len: "length (enqs s) \<le> length (enqs s')"
    using assms(3) log_claim_mono by (auto simp: move_def)
  show ?thesis
  proof (cases "pcs s i")
    case (Enq b tm e)
    then show ?thesis using qinv_enqueue_step assms by blast
  next
    case (Deq tm d)
    then show ?thesis using qinv_dequeue_step [OF assms(1,2) Deq assms(3)] len assms(4) by linarith
  next
    case Idle
    have "(pcs s)(i := Idle) = pcs s" using Idle by (metis fun_upd_triv)
    then have "s' = s" using assms(3) Idle by (simp add: move_def pc_step_def log_claim_def)
    then show ?thesis using assms(1) by simp
  next
    case (Ret r v)
    have "(pcs s)(i := Ret r v) = pcs s" using Ret by (metis fun_upd_triv)
    then have "s' = s" using assms(3) Ret by (simp add: move_def pc_step_def log_claim_def)
    then show ?thesis using assms(1) by simp
  qed
qed

lemma pc_step_defined:
  assumes "thread_ok n W R a log k p" "m_pDataArray q = Some a" "length a = n" "0 < n"
  shows "pc_step late p q \<noteq> None"
proof (cases p)
  case (Enq b tm e)
  then show ?thesis
    using assms by (cases e) (simp_all add: pc_step_def get_slot_def set_slot_def split_beta)
next
  case (Deq tm d)
  then show ?thesis
    using assms by (cases d) (simp_all add: pc_step_def get_slot_def set_slot_def split_beta)
qed (simp_all add: pc_step_def)

lemma qinv_start:
  assumes "unQueueSize + 1 \<noteq> 0"
  shows "qinv N (unat unQueueSize + 1) (qstart unQueueSize)"
proof -
  have n: "unat (unQueueSize + 1) = unat unQueueSize + 1" using unatSuc [of unQueueSize] assms by (simp add: add.commute)
  have "pend P t (\<lambda>_. Idle) = {}" if "\<not> P Idle" for P t using that by (simp add: pend_def)
  then show ?thesis
    by (simp add: qinv_parts qstart_def queue_init_def CMediaDataQueue_new_def n ring_inv_def got_rel_def uniq_def
        del: replicate_Suc)
qed

lemma qinv_begin:
  assumes "qinv N n s" "i < N" "pcs s i = Idle"
  shows "qinv N n (set_pc i (enqueue_begin b tm (que s)) s)" "qinv N n (set_pc i (dequeue_begin tm (que s)) s)"
  using qinv_local [OF assms(1,2)] assms(3)
  by (auto simp: enqueue_begin_def dequeue_begin_def split: option.split)

lemma enqs_step_mono:
  assumes "qstep N s s'"
  shows "length (enqs s) \<le> length (enqs s')"
  using assms by cases (auto simp: set_pc_def move_def intro: log_claim_mono)

lemma qinv_qstep:
  assumes "qstep N s s'" "qinv N n s" "length (enqs s') < 2 ^ 32"
  shows "qinv N n s'"
  using assms(1)
proof cases
  case (finish i r v)
  then show ?thesis using qinv_local [OF assms(2), of i Idle] by simp
next
  case close
  then show ?thesis using assms(2) by (simp add: qinv_parts queue_close_def split: option.splits)
qed (use assms in \<open>auto intro: qinv_begin qinv_move\<close>)

lemma qreach_inv:
  assumes "qreach N unQueueSize s" "unQueueSize + 1 \<noteq> 0" "length (enqs s) < 2 ^ 32"
  shows "qinv N (unat unQueueSize + 1) s"
  using assms(1,3)
proof induction
  case start
  show ?case by (rule qinv_start [OF assms(2)])
next
  case (step s s')
  then show ?case using enqs_step_mono [OF step.hyps(2)] by (auto intro: qinv_qstep)
qed

text \<open>
  A run for examples: a list of commands that says which thread begins a call and which thread moves.
\<close>

datatype command = BeginEnq nat mb | BeginDeq nat | Move nat | Finish nat

fun play :: "command list \<Rightarrow> qsys \<Rightarrow> qsys option" where
  "play [] s = Some s"
| "play (BeginEnq i b # cs) s =
     (if pcs s i = Idle then play cs (set_pc i (enqueue_begin (Some b) False (que s)) s) else None)"
| "play (BeginDeq i # cs) s =
     (if pcs s i = Idle then play cs (set_pc i (dequeue_begin False (que s)) s) else None)"
| "play (Move i # cs) s = (case move False i s of None \<Rightarrow> None | Some s' \<Rightarrow> play cs s')"
| "play (Finish i # cs) s = (case pcs s i of Ret r v \<Rightarrow> play cs (set_pc i Idle s) | _ \<Rightarrow> None)"

fun thread_of :: "command \<Rightarrow> nat" where
  "thread_of (BeginEnq i b) = i"
| "thread_of (BeginDeq i) = i"
| "thread_of (Move i) = i"
| "thread_of (Finish i) = i"

lemma play_reach:
  assumes "play cs s = Some s'" "qreach N z s" "\<forall>c\<in>set cs. thread_of c < N"
  shows "qreach N z s'"
  using assms
  by (induction cs s rule: play.induct)
    (auto split: if_splits option.splits pc.splits intro: qreach.step qstep.intros)

text \<open>Two producers and two consumers, interleaved, on a queue of two blocks.\<close>

definition example_run :: qsys where
  "example_run = the (play
     ([BeginEnq 0 7, BeginEnq 1 8, BeginDeq 2, BeginDeq 3] @ map Move [0, 1, 0, 1, 0, 1, 0, 1, 0, 1, 0, 1, 2, 2, 1, 1, 1, 1, 1] @
      map Move [0, 2, 2, 2, 2, 2, 1, 1, 3, 3, 3, 3, 3, 2, 3, 2, 3, 2, 3, 3, 0])
     (qstart 2))"

text \<open>
  C17.  First in, first out, for any number of threads and any interleaving: as long as fewer than \<open>2 ^ 32\<close>
  blocks have been enqueued (so that no tag comes back), the consumer with ticket \<open>k\<close> gets the block of the
  producer with ticket \<open>k\<close>, no ticket is served twice, no consumer is ahead of the producers, and never
  more than \<open>m_unMaxQueueSize\<close> blocks are in the queue.
\<close>

theorem queue_fifo:
  assumes "qreach N unQueueSize s" "unQueueSize + 1 \<noteq> 0" "length (enqs s) < 2 ^ 32"
  shows "(\<forall>(k, b)\<in>set (got s). k < ndeq s \<and> b = enqs s ! k) \<and> distinct (map fst (got s)) \<and>
    ndeq s \<le> length (enqs s) \<and> length (enqs s) \<le> ndeq s + unat unQueueSize"
proof -
  note inv = qreach_inv [OF assms]
  have g: "got_rel (ndeq s) (pend loading (tick s) (pcs s)) (enqs s) (got s)"
    using inv by (simp add: qinv_def got_ok_def)
  then have "k < ndeq s \<and> b = enqs s ! k" if "(k, b) \<in> set (got s)" for k b
    using that unfolding got_rel_def by (metis UnCI fst_conv image_eqI lessThan_iff snd_conv)
  then show ?thesis using g qinv_bounds [OF inv] by (auto simp: got_rel_def)
qed

lemma example_run_reach: "qreach 4 2 example_run"
proof -
  let ?cs = "[BeginEnq 0 7, BeginEnq 1 8, BeginDeq 2, BeginDeq 3] @
    map Move [0, 1, 0, 1, 0, 1, 0, 1, 0, 1, 0, 1, 2, 2, 1, 1, 1, 1, 1] @
    map Move [0, 2, 2, 2, 2, 2, 1, 1, 3, 3, 3, 3, 3, 2, 3, 2, 3, 2, 3, 3, 0]"
  have "play ?cs (qstart 2) \<noteq> None" by code_simp
  then obtain s where s: "play ?cs (qstart 2) = Some s" by blast
  then have "example_run = s" by (simp only: example_run_def s option.sel)
  then show ?thesis using play_reach [OF s qreach.start] by simp
qed

lemma example_run_data: "got example_run = [(0, 7), (1, 8)]" "enqs example_run = [7, 8]"
  by code_simp+

theorem queue_fifo_witness:
  "(1, 8) \<in> set (got example_run) \<and> 8 = enqs example_run ! 1 \<and> 1 < ndeq example_run \<and>
   length (enqs example_run) \<le> ndeq example_run + 2"
  using queue_fifo [OF example_run_reach] by (simp add: example_run_data)

text \<open>
  Memory safety does not rest on the tags: an index that a thread holds was read from the queue, and the
  indices of the queue are always remainders modulo the size of the array.
\<close>

fun idx_ok :: "u32 \<Rightarrow> pc \<Rightarrow> bool" where
  "idx_ok n (Enq _ _ e) \<longleftrightarrow> n \<noteq> 0 \<and>
     (case e of ETag h \<Rightarrow> h < n | ERoom h t \<Rightarrow> h < n | ESlot h t \<Rightarrow> h < n | ECas h t \<Rightarrow> h < n
      | EStore h \<Rightarrow> h < n | _ \<Rightarrow> True)"
| "idx_ok n (Deq _ d) \<longleftrightarrow> n \<noteq> 0 \<and>
     (case d of DTag h \<Rightarrow> h < n | DRoom h t \<Rightarrow> h < n | DSlot h t \<Rightarrow> h < n | DCas h t \<Rightarrow> h < n
      | DLoad h \<Rightarrow> h < n | DClear h v \<Rightarrow> h < n | _ \<Rightarrow> True)"
| "idx_ok n _ \<longleftrightarrow> True"

definition mem_ok :: "u32 \<Rightarrow> CMediaDataQueue \<Rightarrow> bool" where
  "mem_ok n q \<longleftrightarrow> m_unArraySize q = n \<and> (n \<noteq> 0 \<longrightarrow> m_WriteIndex q < n \<and> m_ReadIndex q < n) \<and>
     (\<exists>a. m_pDataArray q = Some a \<and> length a = unat n)"

lemma mem_ok_slot:
  assumes "mem_ok n q" "h < n"
  shows "\<exists>v. get_slot h q = Some v" "\<exists>q'. set_slot h v q = Some q' \<and> mem_ok n q'"
proof -
  obtain a where a: "m_pDataArray q = Some a" "length a = unat n" using assms(1) by (auto simp: mem_ok_def)
  have "unat h < length a" using a(2) assms(2) by (simp add: word_less_nat_alt)
  then show "\<exists>v. get_slot h q = Some v" "\<exists>q'. set_slot h v q = Some q' \<and> mem_ok n q'"
    using assms(1) a by (auto simp: get_slot_def set_slot_def mem_ok_def)
qed

lemma mod_below: "n \<noteq> 0 \<Longrightarrow> (x :: u32) mod n < n"
  by (rule word_mod_less_divisor) (simp add: word_neq_0_conv)

lemma pc_step_mem:
  assumes "mem_ok n q" "idx_ok n p"
  shows "\<exists>p' q'. pc_step late p q = Some (p', q') \<and> mem_ok n q' \<and> idx_ok n p'"
proof (cases p)
  case (Enq b tm e)
  then show ?thesis
  proof (cases e)
    case (ESlot h t)
    then show ?thesis using Enq assms mem_ok_slot(1) [OF assms(1), of h] by (auto simp: pc_step_def)
  next
    case (EStore h)
    then show ?thesis using Enq assms mem_ok_slot(2) [OF assms(1), of h "Some b"] by (auto simp: pc_step_def)
  qed (use Enq assms in \<open>auto simp: pc_step_def mem_ok_def compare_and_swap2_def mod_below\<close>)
next
  case (Deq tm d)
  then show ?thesis
  proof (cases d)
    case (DSlot h t)
    then show ?thesis using Deq assms mem_ok_slot(1) [OF assms(1), of h] by (auto simp: pc_step_def)
  next
    case (DLoad h)
    then show ?thesis using Deq assms mem_ok_slot(1) [OF assms(1), of h] by (auto simp: pc_step_def)
  next
    case (DClear h v)
    then show ?thesis using Deq assms mem_ok_slot(2) [OF assms(1), of h None] by (auto simp: pc_step_def)
  qed (use Deq assms in \<open>auto simp: pc_step_def mem_ok_def compare_and_swap2_def mod_below\<close>)
qed (use assms in \<open>simp_all add: pc_step_def\<close>)

lemma log_claim_pcs [simp]: "pcs (log_claim i p p' s) = pcs s"
  by (auto simp: log_claim_def split: pc.splits eq_pc.splits dq_pc.splits option.splits)

lemma qstep_mem:
  assumes "qstep N s s'" "mem_ok n (que s)" "\<forall>i. idx_ok n (pcs s i)"
  shows "mem_ok n (que s') \<and> (\<forall>i. idx_ok n (pcs s' i))"
  using assms(1)
proof cases
  case (begin_enqueue i b bTimeOut)
  then show ?thesis
    using assms(2,3) by (auto simp: set_pc_def enqueue_begin_def mem_ok_def split: option.splits)
next
  case (begin_dequeue i bTimeOut)
  then show ?thesis using assms(2,3) by (auto simp: set_pc_def dequeue_begin_def mem_ok_def)
next
  case (move i late)
  then obtain p' q' where m: "pc_step late (pcs s i) (que s) = Some (p', q')"
    "s' = (log_claim i (pcs s i) p' s)\<lparr>que := q', pcs := (pcs s)(i := p')\<rparr>"
    by (auto simp: move_def)
  from pc_step_mem [OF assms(2), of "pcs s i" late] assms(3) m(1) have "mem_ok n q'" "idx_ok n p'" by auto
  with m(2) assms(3) show ?thesis by auto
qed (use assms(2,3) in \<open>auto simp: set_pc_def queue_close_def mem_ok_def\<close>)

lemma qreach_mem:
  assumes "qreach N unQueueSize s"
  shows "mem_ok (unQueueSize + 1) (que s) \<and> (\<forall>i. idx_ok (unQueueSize + 1) (pcs s i))"
  using assms
proof induction
  case start
  then show ?case
    by (simp add: qstart_def queue_init_def mem_ok_def word_neq_0_conv del: replicate_Suc)
next
  case (step s s')
  then show ?case using qstep_mem by blast
qed

text \<open>
  C18.  Memory safety: in every state that any number of threads can reach after an \<open>init\<close> that found memory,
  for every queue size and however many blocks have gone through the queue (tags that have come back
  included), no thread reads or writes outside the array of slots, whatever step it takes next.
\<close>

theorem queue_no_fault:
  assumes "qreach N unQueueSize s"
  shows "\<exists>s'. move late i s = Some s'"
proof -
  note inv = qreach_mem [OF assms]
  obtain p' q' where "pc_step late (pcs s i) (que s) = Some (p', q')"
    using pc_step_mem [of "unQueueSize + 1" "que s" "pcs s i" late] inv by blast
  then show ?thesis by (simp add: move_def)
qed

theorem queue_no_fault_witness: "\<exists>s'. move False 1 example_run = Some s'"
  by (rule queue_no_fault [OF example_run_reach])

text \<open>
  When no call is under way nothing is lost: every enqueued block was delivered to exactly one
  consumer or is in the ring, in order, and the counter is the number of blocks in the ring.
\<close>

theorem queue_quiet:
  assumes "qreach N unQueueSize s" "unQueueSize + 1 \<noteq> 0" "length (enqs s) < 2 ^ 32"
    "\<And>i. pcs s i = Idle"
  shows "unat (message_count (que s)) = length (enqs s) - ndeq s \<and>
    mset (map snd (got s)) = mset (take (ndeq s) (enqs s)) \<and>
    (\<exists>a. m_pDataArray (que s) = Some a \<and>
      map (\<lambda>k. a ! (k mod length a)) [ndeq s..<length (enqs s)] = map Some (drop (ndeq s) (enqs s)))"
proof -
  note inv = qreach_inv [OF assms(1-3)]
  have idle: "pend P (tick s) (pcs s) = {}" if "\<not> P Idle" for P using that assms(4) by (simp add: pend_def)
  obtain a where a: "m_pDataArray (que s) = Some a"
    "ring_inv (unat unQueueSize + 1) (length (enqs s)) (ndeq s) {} {} a (enqs s)"
    using inv by (auto simp: qinv_def idle elim: slots_okE)
  have le: "ndeq s \<le> length (enqs s)" using qinv_bounds [OF inv] by simp
  have "m_QueueSize (que s) = of_nat (length (enqs s) - ndeq s)"
    using inv assms(4) le by (simp add: qinv_def size_ok_def of_nat_diff)
  then have m: "unat (message_count (que s)) = length (enqs s) - ndeq s"
    using assms(3) by (simp add: message_count_def unat_of_nat)
  have g: "got_rel (ndeq s) {} (enqs s) (got s)" using inv by (simp add: qinv_def got_ok_def idle)
  have "map snd (got s) = map ((!) (enqs s)) (map fst (got s))" using g by (simp add: got_rel_def)
  then have "mset (map snd (got s)) = mset (map ((!) (enqs s)) (map fst (got s)))" by (rule arg_cong)
  also have "\<dots> = image_mset ((!) (enqs s)) (mset (map fst (got s)))" by (simp only: mset_map)
  also have "mset (map fst (got s)) = mset [0..<ndeq s]"
    using g by (subst set_eq_iff_mset_eq_distinct [symmetric]) (auto simp: got_rel_def)
  also have "image_mset ((!) (enqs s)) \<dots> = mset (map ((!) (enqs s)) [0..<ndeq s])" by (simp only: mset_map)
  also have "map ((!) (enqs s)) [0..<ndeq s] = take (ndeq s) (enqs s)" using le by (intro nth_equalityI) simp_all
  finally show ?thesis using m a ring_quiet [OF a(2)] by (auto simp: ring_inv_def)
qed

text \<open>Two blocks go in, one comes out, all calls have ended.\<close>

definition example_quiet_cmds :: "command list" where
  "example_quiet_cmds = [BeginEnq 0 7] @ replicate 8 (Move 0) @ [Finish 0, BeginEnq 0 8] @ replicate 8 (Move 0) @
     [Finish 0, BeginDeq 1] @ replicate 9 (Move 1) @ [Finish 1]"

definition example_quiet :: qsys where
  "example_quiet = the (play example_quiet_cmds (qstart 2))"

lemma example_quiet_reach: "qreach 2 2 example_quiet"
proof -
  have "play example_quiet_cmds (qstart 2) \<noteq> None" by code_simp
  then obtain s where s: "play example_quiet_cmds (qstart 2) = Some s" by blast
  then have "example_quiet = s" by (simp only: example_quiet_def s option.sel)
  then show ?thesis using play_reach [OF s qreach.start] by (simp add: example_quiet_cmds_def)
qed

lemma play_other_threads:
  assumes "play cs s = Some s'" "\<forall>c\<in>set cs. thread_of c < N" "N \<le> i"
  shows "pcs s' i = pcs s i"
  using assms
proof (induction cs s rule: play.induct)
  case (4 j cs s)
  have "pcs (log_claim j p p' s) = pcs s" for p p'
    by (simp add: log_claim_def split: pc.split eq_pc.split dq_pc.split option.split)
  then show ?case using 4 by (auto simp: move_def split: option.splits)
qed (auto simp: set_pc_def split: if_splits pc.splits)

lemma example_quiet_idle: "pcs example_quiet i = Idle"
proof -
  have "play example_quiet_cmds (qstart 2) \<noteq> None" by code_simp
  then obtain s where s: "play example_quiet_cmds (qstart 2) = Some s" by blast
  then have e: "example_quiet = s" by (simp only: example_quiet_def s option.sel)
  have "pcs example_quiet 0 = Idle" "pcs example_quiet 1 = Idle" by code_simp+
  moreover have "pcs s i = Idle" if "2 \<le> i"
    using play_other_threads [OF s, of 2 i] that by (simp add: example_quiet_cmds_def qstart_def)
  ultimately show ?thesis using e by (cases "2 \<le> i") (auto simp: not_le less_Suc_eq numeral_2_eq_2)
qed

theorem queue_quiet_witness:
  "unat (message_count (que example_quiet)) = 1 \<and> mset (map snd (got example_quiet)) = {#7#}"
proof -
  have d: "enqs example_quiet = [7, 8]" "ndeq example_quiet = 1" by code_simp+
  show ?thesis using queue_quiet [OF example_quiet_reach _ _ example_quiet_idle] by (simp add: d)
qed

end
