(* ===== verification/MediaQueueSeq.thy ===== *)
theory MediaQueueSeq
  imports MediaDataQueue
begin

text \<open>
  The queue of media blocks as its users see it when calls do not overlap: \<open>enqueue_tail\<close> and \<open>dequeue_head\<close>
  of a well-formed queue implement a bounded list.  The interface \<open>fifo_queue\<close> states that contract; the
  block pool rests on it.
\<close>

section \<open>One thread at a time\<close>

text \<open>The queue when no call is under way, and the blocks in it.\<close>

definition queue_wf :: "CMediaDataQueue \<Rightarrow> bool" where
  "queue_wf q \<longleftrightarrow> (case m_pDataArray q of None \<Rightarrow> False
     | Some a \<Rightarrow> length a = unat (m_unArraySize q) \<and> length a = unat (m_unMaxQueueSize q) + 1 \<and>
         unat (m_ReadIndex q) < length a \<and> unat (m_QueueSize q) < length a \<and>
         unat (m_WriteIndex q) = (unat (m_ReadIndex q) + unat (m_QueueSize q)) mod length a \<and>
         (\<forall>j<length a. a ! ((unat (m_ReadIndex q) + j) mod length a) \<noteq> None \<longleftrightarrow> j < unat (m_QueueSize q)))"

definition queue_view :: "CMediaDataQueue \<Rightarrow> mb list" where
  "queue_view q = (case m_pDataArray q of None \<Rightarrow> []
     | Some a \<Rightarrow> map (\<lambda>j. the (a ! ((unat (m_ReadIndex q) + j) mod length a))) [0..<unat (m_QueueSize q)])"

lemma queue_wfE:
  assumes "queue_wf q"
  obtains a where "m_pDataArray q = Some a" "length a = unat (m_unArraySize q)"
    "length a = unat (m_unMaxQueueSize q) + 1" "unat (m_ReadIndex q) < length a" "unat (m_QueueSize q) < length a"
    "unat (m_WriteIndex q) = (unat (m_ReadIndex q) + unat (m_QueueSize q)) mod length a"
    "\<And>j. j < length a \<Longrightarrow> a ! ((unat (m_ReadIndex q) + j) mod length a) \<noteq> None \<longleftrightarrow> j < unat (m_QueueSize q)"
    "queue_view q = map (\<lambda>j. the (a ! ((unat (m_ReadIndex q) + j) mod length a))) [0..<unat (m_QueueSize q)]"
  using assms by (auto simp: queue_wf_def queue_view_def split: option.splits)

lemma length_queue_view: "queue_wf q \<Longrightarrow> length (queue_view q) = unat (m_QueueSize q)"
  by (erule queue_wfE) simp

lemma ring_offset_inj:
  fixes r i j n :: nat
  assumes "(r + i) mod n = (r + j) mod n" "i < n" "j < n"
  shows "i = j"
  using window_mod_eq [of "r + i" n "r + j" "r + n"] assms by simp

lemma run_alone_Ret [simp]: "run_alone clk n (Ret r v) q = Some ((r, v), q)"
  by (subst run_alone.simps) simp

lemma run_alone_Enq:
  "run_alone clk n (Enq b tm e) q =
     (case enqueue_step (clk n) b tm e q of None \<Rightarrow> None | Some (p', q') \<Rightarrow> run_alone clk (Suc n) p' q')"
  by (subst run_alone.simps) (simp add: pc_step_def)

lemma run_alone_Deq:
  "run_alone clk n (Deq tm d) q =
     (case dequeue_step (clk n) tm d q of None \<Rightarrow> None | Some (p', q') \<Rightarrow> run_alone clk (Suc n) p' q')"
  by (subst run_alone.simps) (simp add: pc_step_def)

lemma enqueue_alone:
  assumes wf: "queue_wf q" "m_ActiveFlag q" and room: "length (queue_view q) < unat (m_unMaxQueueSize q)"
    and tm: "\<not> (tm \<and> clk 0)"
  shows "\<exists>q'. enqueue_tail (Some b) tm clk q = Some (RET_OK, q') \<and> queue_wf q' \<and> m_ActiveFlag q' \<and>
    m_unMaxQueueSize q' = m_unMaxQueueSize q \<and> queue_view q' = queue_view q @ [b]"
proof -
  obtain a where a: "m_pDataArray q = Some a" "length a = unat (m_unArraySize q)"
    "length a = unat (m_unMaxQueueSize q) + 1" "unat (m_ReadIndex q) < length a" "unat (m_QueueSize q) < length a"
    "unat (m_WriteIndex q) = (unat (m_ReadIndex q) + unat (m_QueueSize q)) mod length a"
    "\<And>j. j < length a \<Longrightarrow> a ! ((unat (m_ReadIndex q) + j) mod length a) \<noteq> None \<longleftrightarrow> j < unat (m_QueueSize q)"
    "queue_view q = map (\<lambda>j. the (a ! ((unat (m_ReadIndex q) + j) mod length a))) [0..<unat (m_QueueSize q)]"
    using wf(1) by (rule queue_wfE) (rule that)
  let ?n = "length a" and ?r = "unat (m_ReadIndex q)" and ?c = "unat (m_QueueSize q)" and ?w = "unat (m_WriteIndex q)"
  let ?wi = "(m_WriteIndex q + 1) mod m_unArraySize q"
  have c: "?c + 1 < ?n" using room a(3) length_queue_view [OF wf(1)] by simp
  have n0: "0 < ?n" using a(4) by linarith
  have w: "?w < ?n" using n0 a(6) by simp
  have wi: "unat ?wi = (?r + (?c + 1)) mod ?n"
    using index_succ [OF a(6) a(2) [symmetric] n0] by (simp add: add.assoc)
  have ne: "?wi \<noteq> m_ReadIndex q"
  proof
    assume "?wi = m_ReadIndex q"
    then have "(?r + (?c + 1)) mod ?n = (?r + 0) mod ?n" using wi a(4) by simp
    then have "?c + 1 = 0" by (rule ring_offset_inj) (use c n0 in simp_all)
    then show False by simp
  qed
  have free: "a ! ?w = None" using a(6) a(7) [of ?c] a(5) by auto
  let ?q = "q\<lparr>m_WriteIndex := ?wi, m_WriteTag := m_WriteTag q + 1, m_pDataArray := Some (a[?w := Some b]),
      m_QueueSize := m_QueueSize q + 1\<rparr>"
  have sz: "m_unArraySize q \<noteq> 0" using n0 a(2) by auto
  have run: "enqueue_tail (Some b) tm clk q = Some (RET_OK, ?q)"
    using wf(2) tm ne free w a(1) sz
    by (auto simp: enqueue_tail_def enqueue_begin_def run_alone_Enq get_slot_def set_slot_def compare_and_swap2_def
        atomic_inc_def)
  have c32: "?c + 1 < 2 ^ 32" using c a(2) unsigned_less [of "m_unArraySize q", where 'a = nat] by simp
  then have qs: "unat (m_QueueSize q + 1) = ?c + 1" by (simp add: unat_word_ariths)
  have slot: "a[?w := Some b] ! ((?r + j) mod ?n) = (if j = ?c then Some b else a ! ((?r + j) mod ?n))" if "j < ?n" for j
    using ring_offset_inj [of ?r j ?n ?c] that a(5,6) w by (auto simp: nth_list_update)
  have "queue_wf ?q" using a c wi qs slot by (auto simp: queue_wf_def)
  moreover have "queue_view ?q = queue_view q @ [b]"
    using a(5,8) slot by (auto simp: queue_view_def qs)
  ultimately show ?thesis using run wf(2) by auto
qed

lemma dequeue_alone:
  assumes wf: "queue_wf q" "m_ActiveFlag q" and ne: "queue_view q = b # bs" and tm: "\<not> (tm \<and> clk 0)"
  shows "\<exists>q'. dequeue_head tm clk q = Some ((RET_OK, Some b), q') \<and> queue_wf q' \<and> m_ActiveFlag q' \<and>
    m_unMaxQueueSize q' = m_unMaxQueueSize q \<and> queue_view q' = bs"
proof -
  obtain a where a: "m_pDataArray q = Some a" "length a = unat (m_unArraySize q)"
    "length a = unat (m_unMaxQueueSize q) + 1" "unat (m_ReadIndex q) < length a" "unat (m_QueueSize q) < length a"
    "unat (m_WriteIndex q) = (unat (m_ReadIndex q) + unat (m_QueueSize q)) mod length a"
    "\<And>j. j < length a \<Longrightarrow> a ! ((unat (m_ReadIndex q) + j) mod length a) \<noteq> None \<longleftrightarrow> j < unat (m_QueueSize q)"
    "queue_view q = map (\<lambda>j. the (a ! ((unat (m_ReadIndex q) + j) mod length a))) [0..<unat (m_QueueSize q)]"
    using wf(1) by (rule queue_wfE) (rule that)
  let ?n = "length a" and ?r = "unat (m_ReadIndex q)" and ?c = "unat (m_QueueSize q)"
  let ?ri = "(m_ReadIndex q + 1) mod m_unArraySize q"
  have c: "0 < ?c" using ne length_queue_view [OF wf(1)] by auto
  have n0: "0 < ?n" using a(4) by linarith
  have up: "[0..<?c] = 0 # map Suc [0..<?c - 1]" using c by (simp add: upt_conv_Cons map_Suc_upt)
  have full: "a ! ?r = Some b" using a(7) [OF n0] a(4) c ne unfolding a(8) up by auto
  have ri: "unat ?ri = (?r + 1) mod ?n" using index_succ [OF _ a(2) [symmetric] n0, of "m_ReadIndex q" ?r] a(4) by simp
  have nw: "m_ReadIndex q \<noteq> m_WriteIndex q"
  proof
    assume "m_ReadIndex q = m_WriteIndex q"
    then have "(?r + ?c) mod ?n = ?r" using a(6) by presburger
    then have "(?r + ?c) mod ?n = (?r + 0) mod ?n" by (metis a(4) add_0_right mod_less)
    then have "?c = 0" by (rule ring_offset_inj) (use a(5) n0 in simp_all)
    then show False using c by simp
  qed
  let ?q = "q\<lparr>m_ReadIndex := ?ri, m_ReadTag := m_ReadTag q + 1, m_pDataArray := Some (a[?r := None]),
      m_QueueSize := m_QueueSize q - 1\<rparr>"
  have sz: "m_unArraySize q \<noteq> 0" using n0 a(2) by auto
  have run: "dequeue_head tm clk q = Some ((RET_OK, Some b), ?q)"
    using wf(2) tm nw full a(1,4) sz
    by (auto simp: dequeue_head_def dequeue_begin_def run_alone_Deq get_slot_def set_slot_def compare_and_swap2_def
        atomic_dec_def)
  have qs: "unat (m_QueueSize q - 1) = ?c - 1" using c by (simp add: unat_minus_one unat_gt_0)
  have sh: "((?r + 1) mod ?n + j) mod ?n = (?r + (j + 1)) mod ?n" for j
    using mod_add_left_eq [of "?r + 1" ?n j] by (simp add: ac_simps)
  have slot: "a[?r := None] ! ((?r + j) mod ?n) = (if j = 0 then None else a ! ((?r + j) mod ?n))" if "j < ?n" for j
    using ring_offset_inj [of ?r j ?n 0] that a(4) n0 by (auto simp: nth_list_update simp del: length_greater_0_conv)
  have slot': "a[?r := None] ! ((?r + (j + 1)) mod ?n) = (if j + 1 < ?n then a ! ((?r + (j + 1)) mod ?n) else None)"
    if "j < ?n" for j
  proof (cases "j + 1 < ?n")
    case False
    then have "j + 1 = ?n" using that by simp
    then show ?thesis using a(4) False by simp
  qed (use slot [of "j + 1"] in simp)
  have "queue_wf ?q"
  proof -
    have "a[?r := None] ! (((?r + 1) mod ?n + j) mod ?n) \<noteq> None \<longleftrightarrow> j < ?c - 1" if "j < ?n" for j
      unfolding sh using slot' [OF that] a(7) [of "j + 1"] a(5) that by auto
    moreover have "unat (m_WriteIndex q) = ((?r + 1) mod ?n + (?c - 1)) mod ?n" using a(6) sh [of "?c - 1"] c by simp
    moreover have "(?r + 1) mod ?n < ?n" "?c - 1 < ?n" using n0 a(5) by auto
    ultimately show ?thesis using a(1-3) by (simp add: queue_wf_def ri qs)
  qed
  moreover have "queue_view ?q = bs"
  proof -
    have "bs = map (\<lambda>j. the (a ! ((?r + (j + 1)) mod ?n))) [0..<?c - 1]" using ne unfolding a(8) up by (simp add: comp_def)
    moreover have "queue_view ?q = map (\<lambda>j. the (a[?r := None] ! ((?r + (j + 1)) mod ?n))) [0..<?c - 1]"
      unfolding sh [symmetric] by (simp add: queue_view_def ri qs)
    ultimately show ?thesis using slot' a(5) by auto
  qed
  ultimately show ?thesis using run wf(2) by auto
qed

section \<open>The interface of a bounded queue\<close>

text \<open>What the users of the queue rely on: it is a list of at most \<open>cap\<close> blocks, filled at the end and read at
  the front, and a call that has room, or a block, comes back with success.\<close>

locale fifo_queue =
  fixes wf :: "'q \<Rightarrow> bool" and view :: "'q \<Rightarrow> mb list" and cap :: "'q \<Rightarrow> nat"
    and enq :: "mb \<Rightarrow> 'q \<Rightarrow> (retcode \<times> 'q) option" and deq :: "'q \<Rightarrow> ((retcode \<times> mb option) \<times> 'q) option"
  assumes enq_ok: "wf q \<Longrightarrow> length (view q) < cap q \<Longrightarrow>
      \<exists>q'. enq b q = Some (RET_OK, q') \<and> wf q' \<and> view q' = view q @ [b] \<and> cap q' = cap q"
    and deq_ok: "wf q \<Longrightarrow> view q = b # bs \<Longrightarrow>
      \<exists>q'. deq q = Some ((RET_OK, Some b), q') \<and> wf q' \<and> view q' = bs \<and> cap q' = cap q"
    and view_cap: "wf q \<Longrightarrow> length (view q) \<le> cap q"
begin

text \<open>Filling with several blocks, one call after the other.\<close>

primrec enq_all :: "mb list \<Rightarrow> 'q \<Rightarrow> (retcode \<times> 'q) option" where
  "enq_all [] q = Some (RET_OK, q)"
| "enq_all (b # bs) q =
     (case enq b q of None \<Rightarrow> None | Some (r, q') \<Rightarrow> if r \<noteq> RET_OK then Some (RET_FAIL, q') else enq_all bs q')"

lemma enq_all_ok:
  assumes "wf q" "length (view q) + length bs \<le> cap q"
  shows "\<exists>q'. enq_all bs q = Some (RET_OK, q') \<and> wf q' \<and> view q' = view q @ bs \<and> cap q' = cap q"
  using assms
proof (induction bs arbitrary: q)
  case (Cons b bs)
  then obtain q' where "enq b q = Some (RET_OK, q')" "wf q'" "view q' = view q @ [b]" "cap q' = cap q"
    using enq_ok [of q b] by auto
  then show ?case using Cons.IH [of q'] Cons.prems(2) by auto
qed simp

text \<open>Handing one block round keeps the blocks of the queue and the order of the others.\<close>

lemma deq_enq_ok:
  assumes "wf q" "view q = b # bs" "deq q = Some (x, q')"
  shows "\<exists>q''. enq c q' = Some (RET_OK, q'') \<and> wf q'' \<and> view q'' = bs @ [c] \<and> cap q'' = cap q"
proof -
  have q': "wf q'" "view q' = bs" "cap q' = cap q" using deq_ok [OF assms(1,2)] assms(3) by auto
  have "length bs < cap q" using view_cap [OF assms(1)] assms(2) by simp
  then show ?thesis using enq_ok [OF q'(1), of c] q' by auto
qed

end

definition queue_ready :: "CMediaDataQueue \<Rightarrow> bool" where
  "queue_ready q \<longleftrightarrow> queue_wf q \<and> m_ActiveFlag q"

lemma queue_ready_cap: "queue_ready q \<Longrightarrow> length (queue_view q) \<le> unat (m_unMaxQueueSize q)"
  by (auto simp: queue_ready_def length_queue_view elim: queue_wfE)

interpretation mq: fifo_queue queue_ready queue_view "\<lambda>q. unat (m_unMaxQueueSize q)"
  "\<lambda>b. enqueue_tail (Some b) False (\<lambda>_. False)" "dequeue_head True (\<lambda>_. False)"
proof unfold_locales
  show "\<exists>q'. enqueue_tail (Some b) False (\<lambda>_. False) q = Some (RET_OK, q') \<and> queue_ready q' \<and>
      queue_view q' = queue_view q @ [b] \<and> unat (m_unMaxQueueSize q') = unat (m_unMaxQueueSize q)"
    if "queue_ready q" "length (queue_view q) < unat (m_unMaxQueueSize q)" for q b
    using enqueue_alone [of q False "\<lambda>_. False" b] that by (auto simp: queue_ready_def)
  show "\<exists>q'. dequeue_head True (\<lambda>_. False) q = Some ((RET_OK, Some b), q') \<and> queue_ready q' \<and>
      queue_view q' = bs \<and> unat (m_unMaxQueueSize q') = unat (m_unMaxQueueSize q)"
    if "queue_ready q" "queue_view q = b # bs" for q b bs
    using dequeue_alone [of q b bs True "\<lambda>_. False"] that by (auto simp: queue_ready_def)
qed (rule queue_ready_cap)

lemma queue_init_ready:
  assumes "unQueueSize + 1 \<noteq> 0"
  shows "queue_ready (snd (queue_init True unQueueSize q))" "queue_view (snd (queue_init True unQueueSize q)) = []"
    "m_unMaxQueueSize (snd (queue_init True unQueueSize q)) = unQueueSize"
proof -
  have n: "unat (unQueueSize + 1) = unat unQueueSize + 1"
    using unatSuc [of unQueueSize] assms by (simp add: add.commute)
  show "queue_ready (snd (queue_init True unQueueSize q))" "queue_view (snd (queue_init True unQueueSize q)) = []"
    "m_unMaxQueueSize (snd (queue_init True unQueueSize q)) = unQueueSize"
    by (auto simp: queue_init_def queue_ready_def queue_wf_def queue_view_def n simp del: replicate_Suc)
qed

end
