(* ===== verification/MediaBlockBuffer.thy ===== *)
theory MediaBlockBuffer
  imports MediaQueueSeq
begin

text \<open>
  The pool of media blocks, \<open>CMediaBlockBuffer\<close> in \<open>svs_adapter_media_block_buffer.cpp\<close>: all blocks are made
  at the start and kept in a queue from which they are taken and to which they return.  The blocks
  (\<open>ACE_Message_Block\<close>) are references; what the library does for the pool, making a block and counting its
  references, is an argument of the operations.
\<close>

record CMediaBlockBuffer =
  m_pMediaQueue :: "CMediaDataQueue option"
  m_unSize :: u32
  m_unCount :: u32
  m_FailureTimes :: u32

definition CMediaBlockBuffer_new :: CMediaBlockBuffer where
  "CMediaBlockBuffer_new = \<lparr>m_pMediaQueue = None, m_unSize = 0, m_unCount = 0, m_FailureTimes = 0\<rparr>"

text \<open>\<open>made\<close> is the block that \<open>new\<close> returns (\<^const>\<open>None\<close> when it throws), \<open>base\<close> whether it has memory.\<close>

definition createMediaBlock :: "mb option \<Rightarrow> bool \<Rightarrow> mb option" where
  "createMediaBlock made base =
     (case made of None \<Rightarrow> None | Some b \<Rightarrow> if \<not> base then None else Some b)"

text \<open>The loop of \<open>init\<close>; \<open>made\<close> and \<open>base\<close> tell what becomes of the \<open>i\<close>th block.\<close>

fun init_loop :: "(nat \<Rightarrow> mb option) \<Rightarrow> (nat \<Rightarrow> bool) \<Rightarrow> nat list \<Rightarrow> CMediaDataQueue \<Rightarrow>
    (retcode \<times> CMediaDataQueue) option" where
  "init_loop made base [] q = Some (RET_OK, q)"
| "init_loop made base (i # is) q =
     (case createMediaBlock (made i) (base i) of None \<Rightarrow> Some (RET_FAIL, q)
      | Some pMb \<Rightarrow>
          (case enqueue_tail (Some pMb) False (\<lambda>_. False) q of None \<Rightarrow> None
           | Some (lRet, q') \<Rightarrow> if lRet \<noteq> RET_OK then Some (RET_FAIL, q') else init_loop made base is q'))"

text \<open>\<open>memq\<close> and \<open>mema\<close>: there is memory for the queue object and for its array.\<close>

definition buffer_init :: "bool \<Rightarrow> bool \<Rightarrow> (nat \<Rightarrow> mb option) \<Rightarrow> (nat \<Rightarrow> bool) \<Rightarrow> u32 \<Rightarrow> u32 \<Rightarrow>
    CMediaBlockBuffer \<Rightarrow> (retcode \<times> CMediaBlockBuffer) option" where
  "buffer_init memq mema made base unBlockSize unBlockCount p =
     (if \<not> memq then Some (RET_FAIL, p)
      else case queue_init mema unBlockCount CMediaDataQueue_new of
        (lRet, q) \<Rightarrow>
          if lRet \<noteq> RET_OK then Some (RET_FAIL, p\<lparr>m_pMediaQueue := Some q\<rparr>)
          else (case init_loop made base [0..<unat unBlockCount] q of None \<Rightarrow> None
                | Some (lRet', q') \<Rightarrow>
                    if lRet' \<noteq> RET_OK then Some (RET_FAIL, p\<lparr>m_pMediaQueue := Some q'\<rparr>)
                    else Some (RET_OK, p\<lparr>m_pMediaQueue := Some q', m_unSize := unBlockSize,
                                         m_unCount := unBlockCount\<rparr>)))"

text \<open>The loop of \<open>close\<close>, with the blocks it deletes; \<open>pMb\<close> keeps its value when \<open>dequeue_head\<close> fails,
  but then it is null.\<close>

partial_function (option) close_loop :: "mb list \<Rightarrow> CMediaDataQueue \<Rightarrow> (mb list \<times> CMediaDataQueue) option" where
  "close_loop del q =
     (if queue_empty q then Some (del, q)
      else (case dequeue_head False (\<lambda>_. False) q of None \<Rightarrow> None
            | Some ((r, pMb), q') \<Rightarrow> close_loop (case pMb of None \<Rightarrow> del | Some b \<Rightarrow> del @ [b]) q'))"

definition buffer_close :: "CMediaBlockBuffer \<Rightarrow> (mb list \<times> CMediaBlockBuffer) option" where
  "buffer_close p =
     (case m_pMediaQueue p of None \<Rightarrow> Some ([], p)
      | Some q \<Rightarrow> map_option (\<lambda>(del, q'). (del, p\<lparr>m_pMediaQueue := None\<rparr>)) (close_loop [] q))"

definition allocMediaBlock :: "(nat \<Rightarrow> bool) \<Rightarrow> CMediaBlockBuffer \<Rightarrow> (mb option \<times> CMediaBlockBuffer) option" where
  "allocMediaBlock clk p =
     (case m_pMediaQueue p of None \<Rightarrow> Some (None, p)
      | Some q \<Rightarrow>
          if queue_empty q then Some (None, p\<lparr>m_FailureTimes := m_FailureTimes p + 1\<rparr>)
          else (case dequeue_head True clk q of None \<Rightarrow> None
                | Some ((lRet, pMb), q') \<Rightarrow>
                    if lRet \<noteq> RET_OK
                    then Some (None, p\<lparr>m_pMediaQueue := Some q', m_FailureTimes := m_FailureTimes p + 1\<rparr>)
                    else Some (pMb, p\<lparr>m_pMediaQueue := Some q'\<rparr>)))"

text \<open>What becomes of a block that is freed; \<open>refs\<close> is its reference count.\<close>

datatype freed_block = NoBlock | Released mb | Queued mb | Deleted mb

definition freeMediaBlock :: "nat \<Rightarrow> mb option \<Rightarrow> CMediaBlockBuffer \<Rightarrow> (freed_block \<times> CMediaBlockBuffer) option" where
  "freeMediaBlock refs pMb p =
     (case pMb of None \<Rightarrow> Some (NoBlock, p)
      | Some b \<Rightarrow>
          if refs > 1 then Some (Released b, p)
          else (case m_pMediaQueue p of None \<Rightarrow> Some (Deleted b, p)
                | Some q \<Rightarrow>
                    (case enqueue_tail (Some b) False (\<lambda>_. False) q of None \<Rightarrow> None
                     | Some (lRet, q') \<Rightarrow>
                         Some (if lRet \<noteq> RET_OK then Deleted b else Queued b, p\<lparr>m_pMediaQueue := Some q'\<rparr>))))"

definition getMaxBlockNum :: "CMediaBlockBuffer \<Rightarrow> u32" where
  "getMaxBlockNum p = m_unCount p"

definition getRemainBlockNum :: "CMediaBlockBuffer \<Rightarrow> u32" where
  "getRemainBlockNum p = (case m_pMediaQueue p of None \<Rightarrow> 0 | Some q \<Rightarrow> message_count q)"

definition getFailureTimes :: "CMediaBlockBuffer \<Rightarrow> u32" where
  "getFailureTimes p = m_FailureTimes p"

definition getBlockSize :: "CMediaBlockBuffer \<Rightarrow> u32" where
  "getBlockSize p = m_unSize p"

section \<open>The pool neither loses nor doubles a block\<close>

definition pool_ready :: "nat \<Rightarrow> CMediaBlockBuffer \<Rightarrow> bool" where
  "pool_ready n p \<longleftrightarrow> (case m_pMediaQueue p of None \<Rightarrow> False
     | Some q \<Rightarrow> queue_ready q \<and> unat (m_unMaxQueueSize q) = n)"

definition pool_view :: "CMediaBlockBuffer \<Rightarrow> mb list" where
  "pool_view p = (case m_pMediaQueue p of None \<Rightarrow> [] | Some q \<Rightarrow> queue_view q)"

lemma queue_empty_view: "queue_ready q \<Longrightarrow> queue_empty q \<longleftrightarrow> queue_view q = []"
  using length_queue_view [of q] by (auto simp: queue_ready_def queue_empty_def unat_eq_zero)

lemma getRemainBlockNum_view: "pool_ready n p \<Longrightarrow> unat (getRemainBlockNum p) = length (pool_view p)"
  by (auto simp: pool_ready_def getRemainBlockNum_def pool_view_def message_count_def queue_ready_def
      length_queue_view split: option.splits)

lemma alloc_block:
  assumes "pool_ready n p" "pool_view p = b # bs"
  shows "\<exists>p'. allocMediaBlock (\<lambda>_. False) p = Some (Some b, p') \<and> pool_ready n p' \<and> pool_view p' = bs"
proof -
  obtain q where q: "m_pMediaQueue p = Some q" "queue_ready q" "unat (m_unMaxQueueSize q) = n" "queue_view q = b # bs"
    using assms by (auto simp: pool_ready_def pool_view_def split: option.splits)
  obtain q' where "dequeue_head True (\<lambda>_. False) q = Some ((RET_OK, Some b), q')" "queue_ready q'" "queue_view q' = bs"
      "unat (m_unMaxQueueSize q') = n"
    using mq.deq_ok [OF q(2,4)] q(3) by auto
  then show ?thesis
    using q queue_empty_view [OF q(2)] by (auto simp: allocMediaBlock_def pool_ready_def pool_view_def)
qed

lemma alloc_empty:
  assumes "pool_ready n p" "pool_view p = []"
  shows "allocMediaBlock clk p = Some (None, p\<lparr>m_FailureTimes := m_FailureTimes p + 1\<rparr>)"
  using assms queue_empty_view by (auto simp: pool_ready_def pool_view_def allocMediaBlock_def split: option.splits)

lemma free_block:
  assumes "pool_ready n p" "length (pool_view p) < n" "refs \<le> 1"
  shows "\<exists>p'. freeMediaBlock refs (Some b) p = Some (Queued b, p') \<and> pool_ready n p' \<and>
    pool_view p' = pool_view p @ [b]"
proof -
  obtain q where q: "m_pMediaQueue p = Some q" "queue_ready q" "unat (m_unMaxQueueSize q) = n" "pool_view p = queue_view q"
    using assms by (auto simp: pool_ready_def pool_view_def split: option.splits)
  then show ?thesis
    using mq.enq_ok [OF q(2), of b] assms(2,3) by (auto simp: freeMediaBlock_def pool_ready_def pool_view_def)
qed

lemma init_loop_ok:
  assumes "queue_ready q" "length (queue_view q) + length is \<le> unat (m_unMaxQueueSize q)"
    "\<And>i. i \<in> set is \<Longrightarrow> made i = Some (blk i) \<and> base i"
  shows "\<exists>q'. init_loop made base is q = Some (RET_OK, q') \<and> queue_ready q' \<and>
    queue_view q' = queue_view q @ map blk is \<and> m_unMaxQueueSize q' = m_unMaxQueueSize q"
proof -
  have "init_loop made base is q = mq.enq_all (map blk is) q"
    using assms(3) by (induction "is" arbitrary: q) (auto simp: createMediaBlock_def split: option.split)
  moreover obtain q' where "mq.enq_all (map blk is) q = Some (RET_OK, q')" "queue_ready q'"
      "queue_view q' = queue_view q @ map blk is" "unat (m_unMaxQueueSize q') = unat (m_unMaxQueueSize q)"
    using mq.enq_all_ok [OF assms(1), of "map blk is"] assms(2) by auto
  ultimately show ?thesis by (auto simp: word_unat_eq_iff)
qed

lemma buffer_init_ok:
  assumes "unBlockCount + 1 \<noteq> 0" "\<And>i. i < unat unBlockCount \<Longrightarrow> made i = Some (blk i) \<and> base i"
  shows "\<exists>p. buffer_init True True made base unBlockSize unBlockCount CMediaBlockBuffer_new = Some (RET_OK, p) \<and>
    pool_ready (unat unBlockCount) p \<and> pool_view p = map blk [0..<unat unBlockCount]"
proof -
  obtain q where q: "queue_init True unBlockCount CMediaDataQueue_new = (RET_OK, q)" "queue_ready q" "queue_view q = []"
    "m_unMaxQueueSize q = unBlockCount"
    using queue_init_ready [OF assms(1), of CMediaDataQueue_new] by (simp add: queue_init_def Let_def)
  have "length (queue_view q) + length [0..<unat unBlockCount] \<le> unat (m_unMaxQueueSize q)" by (simp add: q)
  then obtain q' where "init_loop made base [0..<unat unBlockCount] q = Some (RET_OK, q')" "queue_ready q'"
      "queue_view q' = map blk [0..<unat unBlockCount]" "m_unMaxQueueSize q' = unBlockCount"
    using init_loop_ok [OF q(2), of "[0..<unat unBlockCount]" made blk base] assms(2) q(3,4) by auto
  then show ?thesis by (simp add: buffer_init_def q(1) pool_ready_def pool_view_def)
qed

text \<open>The users of the pool: they take blocks, and return blocks they hold.\<close>

datatype pool_op = OpAlloc | OpFree mb

fun pool_run :: "pool_op list \<Rightarrow> CMediaBlockBuffer \<Rightarrow> mb list \<Rightarrow> (CMediaBlockBuffer \<times> mb list) option" where
  "pool_run [] p out = Some (p, out)"
| "pool_run (OpAlloc # ops) p out =
     (case allocMediaBlock (\<lambda>_. False) p of None \<Rightarrow> None
      | Some (None, p') \<Rightarrow> pool_run ops p' out
      | Some (Some b, p') \<Rightarrow> pool_run ops p' (b # out))"
| "pool_run (OpFree b # ops) p out =
     (if b \<notin> set out then pool_run ops p out
      else case freeMediaBlock 1 (Some b) p of None \<Rightarrow> None
           | Some (r, p') \<Rightarrow> pool_run ops p' (remove1 b out))"

lemma pool_run_conserves:
  assumes "pool_ready n p" "mset (pool_view p) + mset out = M" "size M = n"
  shows "\<exists>p' out'. pool_run ops p out = Some (p', out') \<and> pool_ready n p' \<and> mset (pool_view p') + mset out' = M"
  using assms
proof (induction ops p out rule: pool_run.induct)
  case (2 ops p out)
  show ?case
  proof (cases "pool_view p")
    case Nil
    then show ?thesis using 2 by (simp add: alloc_empty pool_ready_def pool_view_def)
  next
    case (Cons b bs)
    then obtain p' where "allocMediaBlock (\<lambda>_. False) p = Some (Some b, p')" "pool_ready n p'" "pool_view p' = bs"
      using alloc_block [OF 2(3)] by blast
    then show ?thesis using 2 Cons by simp
  qed
next
  case (3 b ops p out)
  show ?case
  proof (cases "b \<in> set out")
    case True
    then have "0 < length out" by (cases out) auto
    then have "length (pool_view p) < n" using 3(4,5) by auto
    then obtain p' where "freeMediaBlock 1 (Some b) p = Some (Queued b, p')" "pool_ready n p'"
        "pool_view p' = pool_view p @ [b]"
      using free_block [OF 3(3), of 1 b] by auto
    then show ?thesis using 3 True by simp
  qed (use 3 in simp)
qed auto

text \<open>
  C19.  After \<open>init\<close> with \<open>n\<close> different blocks, any sequence of calls that take blocks and return held
  blocks comes to an end, and at its end every block is either in the pool or held by exactly one user.
\<close>

theorem pool_conserves_blocks:
  assumes "unBlockCount + 1 \<noteq> 0" "\<And>i. i < unat unBlockCount \<Longrightarrow> made i = Some (blk i) \<and> base i"
    "inj_on blk {..<unat unBlockCount}"
  shows "\<exists>p p' out. buffer_init True True made base unBlockSize unBlockCount CMediaBlockBuffer_new = Some (RET_OK, p) \<and>
    pool_run ops p [] = Some (p', out) \<and> distinct (pool_view p' @ out) \<and>
    set (pool_view p' @ out) = blk ` {..<unat unBlockCount}"
proof -
  let ?n = "unat unBlockCount"
  obtain p where p: "buffer_init True True made base unBlockSize unBlockCount CMediaBlockBuffer_new = Some (RET_OK, p)"
    "pool_ready ?n p" "pool_view p = map blk [0..<?n]"
    using buffer_init_ok [of unBlockCount made blk base unBlockSize] assms(1,2) by blast
  have "\<exists>p' out. pool_run ops p [] = Some (p', out) \<and> pool_ready ?n p' \<and>
      mset (pool_view p') + mset out = mset (map blk [0..<?n])"
    by (rule pool_run_conserves [OF p(2)]) (simp_all add: p(3))
  then obtain p' out where r: "pool_run ops p [] = Some (p', out)"
    "mset (pool_view p' @ out) = mset (map blk [0..<?n])" by auto
  have "distinct (map blk [0..<?n])" using assms(3) by (simp add: distinct_map atLeast0LessThan)
  then have "distinct (pool_view p' @ out)" using mset_eq_imp_distinct_iff [OF r(2)] by simp
  moreover have "set (pool_view p' @ out) = blk ` {..<?n}"
    using mset_eq_setD [OF r(2)] by (simp add: atLeast0LessThan)
  ultimately show ?thesis using p(1) r(1) by blast
qed

theorem pool_conserves_blocks_witness:
  "\<exists>p p' out. buffer_init True True Some (\<lambda>_. True) 2048 3 CMediaBlockBuffer_new = Some (RET_OK, p) \<and>
    pool_run [OpAlloc, OpAlloc, OpFree 0, OpAlloc, OpAlloc] p [] = Some (p', out) \<and> distinct (pool_view p' @ out) \<and>
    set (pool_view p' @ out) = {0, 1, 2}"
proof -
  have i: "(\<lambda>i :: nat. i) ` {..<unat (3 :: u32)} = {0, 1, 2}" by auto
  show ?thesis
    by (rule pool_conserves_blocks [of 3 Some "\<lambda>i. i" "\<lambda>_. True" 2048, unfolded i]) simp_all
qed

lemma close_loop_ok:
  assumes "queue_ready q" "queue_view q = bs"
  shows "\<exists>q'. close_loop del q = Some (del @ bs, q')"
  using assms
proof (induction bs arbitrary: del q)
  case Nil
  then show ?case by (subst close_loop.simps) (simp add: queue_empty_view)
next
  case (Cons b bs)
  then obtain q' where "dequeue_head False (\<lambda>_. False) q = Some ((RET_OK, Some b), q')" "queue_ready q'"
      "queue_view q' = bs"
    using dequeue_alone [of q b bs False "\<lambda>_. False"] by (auto simp: queue_ready_def)
  then show ?case
    using Cons.prems Cons.IH [of q' "del @ [b]"] by (subst close_loop.simps) (simp add: queue_empty_view)
qed

text \<open>
  \<open>close\<close> ends, and deletes exactly the blocks that are in the pool.
\<close>

theorem buffer_close_deletes:
  assumes "pool_ready n p"
  shows "buffer_close p = Some (pool_view p, p\<lparr>m_pMediaQueue := None\<rparr>)"
proof -
  obtain q where q: "m_pMediaQueue p = Some q" "queue_ready q"
    using assms by (auto simp: pool_ready_def split: option.splits)
  then show ?thesis using close_loop_ok [OF q(2) refl, of "[]"] by (auto simp: buffer_close_def pool_view_def)
qed

theorem buffer_close_deletes_witness:
  "\<exists>p. buffer_init True True Some (\<lambda>_. True) 2048 3 CMediaBlockBuffer_new = Some (RET_OK, p) \<and>
    map_option fst (buffer_close p) = Some [0, 1, 2]"
proof -
  obtain p where "buffer_init True True Some (\<lambda>_. True) 2048 3 CMediaBlockBuffer_new = Some (RET_OK, p)"
    "pool_ready 3 p" "pool_view p = [0, 1, 2]"
    using buffer_init_ok [of 3 Some "\<lambda>i. i" "\<lambda>_. True" 2048] by (auto simp: upt_rec)
  then show ?thesis using buffer_close_deletes [of 3 p] by auto
qed

end
