(* ===== verification/Base64.thy ===== *)
theory Base64
  imports SvsPrelude
begin

text \<open>
  Base64 of \<open>svs_common/base64\<close>: \<open>SVSBase64\<close> and the byte container \<open>Binary\<close>.  Text is a list of byte
  values (ASCII).  A null \<open>char*\<close> turned into a \<open>std::string\<close>, which throws, and writes outside the
  decoder's buffer are error values.
\<close>

section \<open>Binary\<close>

record Binary =
  m_nLen :: nat
  m_pDataBuf :: "bytes option"

definition Binary_new :: Binary where
  "Binary_new = \<lparr>m_nLen = 0, m_pDataBuf = None\<rparr>"

definition getBase :: "Binary \<Rightarrow> bytes option" where
  "getBase b = m_pDataBuf b"

definition getLength :: "Binary \<Rightarrow> nat" where
  "getLength b = m_nLen b"

text \<open>\<open>copy (len, bytes)\<close>; \<open>mem\<close> tells whether \<open>new\<close> succeeds.  The copy has a zero byte behind its end.\<close>

definition Binary_copy :: "bool \<Rightarrow> nat \<Rightarrow> bytes option \<Rightarrow> Binary \<Rightarrow> int \<times> Binary" where
  "Binary_copy mem len src b =
     (case src of
        None \<Rightarrow> if len = 0 then (- 1, b\<lparr>m_pDataBuf := None\<rparr>) else (- 1, b)
      | Some d \<Rightarrow> if \<not> mem then (- 1, b\<lparr>m_nLen := len, m_pDataBuf := None\<rparr>)
                  else (0, b\<lparr>m_nLen := len, m_pDataBuf := Some (take len d @ [0])\<rparr>))"

definition Binary_copy_bin :: "bool \<Rightarrow> Binary \<Rightarrow> Binary \<Rightarrow> int \<times> Binary" where
  "Binary_copy_bin mem bin b =
     (if getBase bin = None \<and> getLength bin = 0 then (0, b\<lparr>m_pDataBuf := None, m_nLen := 0\<rparr>)
      else if getBase bin = None \<or> getLength bin = 0 then (- 1, b)
      else if \<not> mem then (- 1, b\<lparr>m_nLen := getLength bin, m_pDataBuf := None\<rparr>)
      else (0, b\<lparr>m_nLen := getLength bin, m_pDataBuf := Some (take (getLength bin) (the (getBase bin)) @ [0])\<rparr>))"

section \<open>Encoding\<close>

definition encode_char :: "u8 \<Rightarrow> u8" where
  "encode_char v =
     (if v \<le> 25 then v + 65 else if 26 \<le> v \<and> v \<le> 51 then (v - 26) + 97
      else if 52 \<le> v \<and> v \<le> 61 then (v - 52) + 48 else if v = 62 then 43 else if v = 63 then 47 else v)"

definition encodeBuf2 :: "u8 \<Rightarrow> u8 \<Rightarrow> u8 \<Rightarrow> nat \<Rightarrow> bytes" where
  "encodeBuf2 x y z pad =
     (let buf2 = map encode_char
            [drop_bit 2 x, push_bit 4 (x AND 3) OR drop_bit 4 y, push_bit 2 (y AND 15) OR drop_bit 6 z, z AND 63]
      in take (4 - pad) buf2 @ replicate pad 61)"

text \<open>The loop of \<open>encode\<close>, on the bytes that are left; \<open>pad\<close> is declared outside the loop.\<close>

function encode_loop :: "nat \<Rightarrow> bytes \<Rightarrow> bytes" where
  "encode_loop pad bs =
     (if bs = [] then []
      else
        let len = (if 3 < length bs then 3 else length bs);
            buf = take len bs;
            pad' = (if len < 3 then 3 - len else pad);
            buf3 = buf @ replicate (3 - len) 0
        in encodeBuf2 (buf3 ! 0) (buf3 ! 1) (buf3 ! 2) pad' @ encode_loop pad' (drop len bs))"
  by pat_completeness auto
termination
  by (relation "measure (\<lambda>(pad, bs). length bs)") auto

declare encode_loop.simps [simp del]

definition encode_bin :: "Binary option \<Rightarrow> bytes option" where
  "encode_bin pContent =
     (case pContent of None \<Rightarrow> None
      | Some b \<Rightarrow> (case getBase b of None \<Rightarrow> None
                  | Some d \<Rightarrow> if getLength b = 0 then None else Some (encode_loop 0 (take (getLength b) d))))"

definition encode :: "bool \<Rightarrow> nat \<Rightarrow> bytes option \<Rightarrow> bytes option" where
  "encode mem len pContent =
     (if len = 0 \<or> pContent = None then None
      else encode_bin (Some (snd (Binary_copy mem len pContent Binary_new))))"

section \<open>Decoding\<close>

definition MAX_DEC_BUF_LEN :: nat where "MAX_DEC_BUF_LEN = 1024 * 1024"

definition decode_char :: "u8 \<Rightarrow> u8 option" where
  "decode_char c =
     (if 65 \<le> c \<and> c \<le> 90 then Some (c - 65) else if 97 \<le> c \<and> c \<le> 122 then Some ((c - 97) + 26)
      else if 48 \<le> c \<and> c \<le> 57 then Some ((c - 48) + 52) else if c = 43 then Some 62
      else if c = 47 then Some 63 else None)"

text \<open>\<open>decodeBuf\<close>: the values of four characters.  At the first \<open>=\<close> the rest becomes zero and \<open>pad\<close> is set;
  without one \<open>pad\<close> keeps its value.\<close>

fun decodeBuf :: "nat \<Rightarrow> bytes \<Rightarrow> nat \<Rightarrow> (bytes \<times> nat) option" where
  "decodeBuf i [] pad = Some ([], pad)"
| "decodeBuf i (c # cs) pad =
     (case decode_char c of
        Some v \<Rightarrow> map_option (\<lambda>(vs, p). (v # vs, p)) (decodeBuf (i + 1) cs pad)
      | None \<Rightarrow> if c = 61 then Some (replicate (length (c # cs)) 0, 4 - i) else None)"

text \<open>Up to \<open>n\<close> characters that are neither carriage return nor line feed.\<close>

fun read_quad :: "nat \<Rightarrow> bytes \<Rightarrow> bytes \<times> bytes" where
  "read_quad 0 src = ([], src)"
| "read_quad (Suc n) [] = ([], [])"
| "read_quad (Suc n) (c # cs) =
     (if c \<noteq> 13 \<and> c \<noteq> 10 then (case read_quad n cs of (q, r) \<Rightarrow> (c # q, r)) else read_quad (Suc n) cs)"

lemma read_quad_length: "length (snd (read_quad n src)) \<le> length src"
  by (induction n src rule: read_quad.induct) (auto split: prod.splits)

lemma read_quad_shorter: "src \<noteq> [] \<Longrightarrow> 0 < n \<Longrightarrow> length (snd (read_quad n src)) < length src"
proof (induction n src rule: read_quad.induct)
  case (3 n c cs)
  then show ?case
    using read_quad_length [of n cs] by (cases cs) (auto split: prod.splits)
qed auto

text \<open>
  The decoder's result: a null pointer, the bytes, or a write outside \<open>decBuf\<close>.  The write position is the
  number of bytes decoded so far; it goes \<^emph>\<open>back\<close> when \<open>pad\<close> is 4.
\<close>

datatype decoded = DecNull | DecBytes bytes | DecFault

definition decode_three :: "bytes \<Rightarrow> bytes" where
  "decode_three buf = [push_bit 2 (buf ! 0) OR drop_bit 4 (buf ! 1), push_bit 4 (buf ! 1) OR drop_bit 2 (buf ! 2),
     push_bit 6 (buf ! 2) OR buf ! 3]"

function decode_loop :: "bytes \<Rightarrow> nat \<Rightarrow> bytes \<Rightarrow> decoded" where
  "decode_loop src pad out =
     (if src = [] then DecBytes out
      else case read_quad 4 src of (buf, rest) \<Rightarrow>
        if length buf = 0 then DecBytes out
        else if length buf \<noteq> 4 then DecNull
        else (case decodeBuf 0 buf pad of None \<Rightarrow> DecNull
              | Some (v, pad') \<Rightarrow>
                  if MAX_DEC_BUF_LEN < length out + 3 then DecFault
                  else if pad' \<le> 3 then decode_loop rest pad' (out @ take (3 - pad') (decode_three v))
                  else if out = [] then DecFault
                  else decode_loop rest pad' (butlast out)))"
  by pat_completeness auto
termination
proof (relation "measure (\<lambda>(src, pad, out). length src)", goal_cases)
  case (2 src pad out x buf rest)
  then show ?case using read_quad_shorter [of src 4] by (metis in_measure prod.sel zero_less_numeral case_prod_conv)
next
  case (3 src pad out x buf rest)
  then show ?case using read_quad_shorter [of src 4] by (metis in_measure prod.sel zero_less_numeral case_prod_conv)
qed simp

declare decode_loop.simps [simp del]

definition decode :: "bytes \<Rightarrow> decoded" where
  "decode content = (if content = [] then DecNull else decode_loop content 0 [])"

text \<open>The overload that returns the length and a copy; \<open>mem\<close> tells whether \<open>malloc\<close> succeeds.\<close>

definition decode_to :: "bool \<Rightarrow> bytes \<Rightarrow> (int \<times> bytes option) option" where
  "decode_to mem content =
     (case decode content of DecFault \<Rightarrow> None | DecNull \<Rightarrow> Some (- 1, None)
      | DecBytes d \<Rightarrow> if mem then Some (int (length d), Some d) else Some (- 1, None))"

section \<open>Decoding undoes encoding\<close>

lemma six_bits:
  fixes v :: u8
  assumes "v < 64"
  obtains k where "k \<in> set [0..<64]" "v = of_nat k"
proof
  show "unat v \<in> set [0..<64]" using assms by (simp add: word_less_nat_alt)
qed simp

lemma decode_encode_char:
  assumes "v < 64"
  shows "decode_char (encode_char v) = Some v" "encode_char v \<noteq> 13" "encode_char v \<noteq> 10"
proof -
  have all: "\<forall>k\<in>set [0..<64]. decode_char (encode_char (of_nat k)) = Some (of_nat k) \<and>
      encode_char (of_nat k) \<noteq> 13 \<and> encode_char (of_nat k) \<noteq> 10" by code_simp
  obtain k where "k \<in> set [0..<64]" "v = of_nat k" using assms by (rule six_bits)
  then show "decode_char (encode_char v) = Some v" "encode_char v \<noteq> 13" "encode_char v \<noteq> 10" using all by auto
qed

lemma sextets_less:
  fixes x y z :: u8
  shows "drop_bit 2 x < 64" "push_bit 4 (x AND 3) OR drop_bit 4 y < 64" "push_bit 2 (y AND 15) OR drop_bit 6 z < 64"
    "z AND 63 < 64"
proof -
  have less: "v < 64" if "\<And>n. 6 \<le> n \<Longrightarrow> \<not> bit v n" for v :: u8
  proof -
    have "take_bit 6 v = v" using that by (intro bit_eqI) (metis bit_take_bit_iff not_le)
    then have "unat v = take_bit 6 (unat v)" by (metis unsigned_take_bit_eq)
    then have "unat v < 2 ^ 6" by (metis take_bit_nat_less_exp)
    then show ?thesis by (simp add: word_less_nat_alt)
  qed
  have m: "(3 :: u8) = mask 2" "(15 :: u8) = mask 4" "(63 :: u8) = mask 6" by (simp_all add: mask_eq_exp_minus_1)
  show "drop_bit 2 x < 64" "push_bit 4 (x AND 3) OR drop_bit 4 y < 64" "push_bit 2 (y AND 15) OR drop_bit 6 z < 64"
    "z AND 63 < 64"
    unfolding m by (rule less, auto simp: bit_simps dest: bit_imp_le_length)+
qed

lemma byte_eqI:
  fixes v w :: u8
  assumes "\<And>n. n \<in> {0, 1, 2, 3, 4, 5, 6, 7} \<Longrightarrow> bit v n \<longleftrightarrow> bit w n"
  shows "v = w"
proof (rule bit_eqI)
  fix n
  assume "possible_bit TYPE(8 word) n"
  then have "n < 8" by simp
  then have "n \<in> {0, 1, 2, 3, 4, 5, 6, 7}" by auto
  then show "bit v n \<longleftrightarrow> bit w n" by (rule assms)
qed

lemma sextets_join:
  fixes x y z :: u8
  shows "push_bit 2 (drop_bit 2 x) OR drop_bit 4 (push_bit 4 (x AND 3) OR drop_bit 4 y) = x"
    "push_bit 4 (push_bit 4 (x AND 3) OR drop_bit 4 y) OR drop_bit 2 (push_bit 2 (y AND 15) OR drop_bit 6 z) = y"
    "push_bit 6 (push_bit 2 (y AND 15) OR drop_bit 6 z) OR (z AND 63) = z"
proof -
  have m: "(3 :: u8) = mask 2" "(15 :: u8) = mask 4" "(63 :: u8) = mask 6" by (simp_all add: mask_eq_exp_minus_1)
  show "push_bit 2 (drop_bit 2 x) OR drop_bit 4 (push_bit 4 (x AND 3) OR drop_bit 4 y) = x"
    unfolding m by (rule byte_eqI) (auto simp: bit_simps, simp_all add: numeral_2_eq_2 numeral_3_eq_3)
  show "push_bit 4 (push_bit 4 (x AND 3) OR drop_bit 4 y) OR drop_bit 2 (push_bit 2 (y AND 15) OR drop_bit 6 z) = y"
    unfolding m by (rule byte_eqI) (auto simp: bit_simps)
  show "push_bit 6 (push_bit 2 (y AND 15) OR drop_bit 6 z) OR (z AND 63) = z"
    unfolding m by (rule byte_eqI) (auto simp: bit_simps)
qed

lemma read_quad_clean:
  assumes "\<And>c. c \<in> set q \<Longrightarrow> c \<noteq> 13 \<and> c \<noteq> 10"
  shows "read_quad (length q) (q @ rest) = (q, rest)"
  using assms by (induction q) auto

lemma encodeBuf2_clean:
  assumes "c \<in> set (encodeBuf2 x y z pad)"
  shows "c \<noteq> 13 \<and> c \<noteq> 10"
  using assms decode_encode_char(2,3) sextets_less
  by (auto simp: encodeBuf2_def Let_def dest!: in_set_takeD)

lemma length_encodeBuf2: "pad \<le> 4 \<Longrightarrow> length (encodeBuf2 x y z pad) = 4"
  by (simp add: encodeBuf2_def)

lemma decodeBuf_encodeBuf2:
  fixes x y z :: u8
  defines "a \<equiv> drop_bit 2 x" and "b \<equiv> push_bit 4 (x AND 3) OR drop_bit 4 y"
    and "c \<equiv> push_bit 2 (y AND 15) OR drop_bit 6 z" and "d \<equiv> z AND 63"
  shows "decodeBuf 0 (encodeBuf2 x y z 0) p = Some ([a, b, c, d], p)"
    "decodeBuf 0 (encodeBuf2 x y z 1) p = Some ([a, b, c, 0], 1)"
    "decodeBuf 0 (encodeBuf2 x y z 2) p = Some ([a, b, 0, 0], 2)"
proof -
  have dc: "decode_char (encode_char a) = Some a" "decode_char (encode_char b) = Some b"
    "decode_char (encode_char c) = Some c" "decode_char (encode_char d) = Some d"
    unfolding a_def b_def c_def d_def by (intro decode_encode_char(1) sextets_less)+
  have eq: "decode_char 61 = None" by (simp add: decode_char_def)
  have e: "encodeBuf2 x y z 0 = [encode_char a, encode_char b, encode_char c, encode_char d]"
    "encodeBuf2 x y z 1 = [encode_char a, encode_char b, encode_char c, 61]"
    "encodeBuf2 x y z 2 = [encode_char a, encode_char b, 61, 61]"
    by (simp_all add: encodeBuf2_def a_def b_def c_def d_def Let_def numeral_2_eq_2)
  show "decodeBuf 0 (encodeBuf2 x y z 0) p = Some ([a, b, c, d], p)"
    "decodeBuf 0 (encodeBuf2 x y z 1) p = Some ([a, b, c, 0], 1)"
    "decodeBuf 0 (encodeBuf2 x y z 2) p = Some ([a, b, 0, 0], 2)"
    unfolding e by (simp_all add: dc eq numeral_2_eq_2)
qed

text \<open>One group of the encoder, decoded.\<close>

lemma decode_loop_group:
  assumes "length out + 3 \<le> MAX_DEC_BUF_LEN"
  shows "decode_loop (encodeBuf2 x y z 0 @ rest) 0 out = decode_loop rest 0 (out @ [x, y, z])"
    "decode_loop (encodeBuf2 x y 0 1 @ rest) 0 out = decode_loop rest 1 (out @ [x, y])"
    "decode_loop (encodeBuf2 x 0 0 2 @ rest) 0 out = decode_loop rest 2 (out @ [x])"
proof -
  have rq: "read_quad 4 (encodeBuf2 x y z p @ rest) = (encodeBuf2 x y z p, rest)" if "p \<le> 4" for x y z p
    using read_quad_clean [of "encodeBuf2 x y z p" rest] encodeBuf2_clean length_encodeBuf2 [OF that] by auto
  have ne: "encodeBuf2 x y z p @ rest \<noteq> []" if "p \<le> 4" for x y z p
    using length_encodeBuf2 [OF that, of x y z] by auto
  have three: "decode_three [a, b, c, d] =
    [push_bit 2 a OR drop_bit 4 b, push_bit 4 b OR drop_bit 2 c, push_bit 6 c OR d]" for a b c d
    by (simp add: decode_three_def)
  have step: "decode_loop (encodeBuf2 x y z p @ rest) 0 out = decode_loop rest p (out @ take (3 - p) (decode_three v))"
    if "p \<le> 3" "decodeBuf 0 (encodeBuf2 x y z p) 0 = Some (v, p)" for x y z p v
  proof -
    have "p \<le> 4" using that(1) by simp
    from decode_loop.simps [of "encodeBuf2 x y z p @ rest" 0 out, unfolded rq [OF this] prod.case length_encodeBuf2 [OF this] that(2)]
    show ?thesis using ne [OF \<open>p \<le> 4\<close>] that(1) assms by auto
  qed
  show "decode_loop (encodeBuf2 x y z 0 @ rest) 0 out = decode_loop rest 0 (out @ [x, y, z])"
    by (subst step [OF _ decodeBuf_encodeBuf2(1)]) (simp, simp only: three sextets_join, simp)
  show "decode_loop (encodeBuf2 x y 0 1 @ rest) 0 out = decode_loop rest 1 (out @ [x, y])"
    using sextets_join(1) [of x y] sextets_join(2) [of x y 0]
    by (subst step [OF _ decodeBuf_encodeBuf2(2)]) (simp_all add: three del: push_bit_or drop_bit_or)
  show "decode_loop (encodeBuf2 x 0 0 2 @ rest) 0 out = decode_loop rest 2 (out @ [x])"
    using sextets_join(1) [of x 0]
    by (subst step [OF _ decodeBuf_encodeBuf2(3)]) (simp_all add: three del: push_bit_or drop_bit_or)
qed

lemma decode_loop_encode_loop:
  assumes "length out + length bs + 2 \<le> MAX_DEC_BUF_LEN"
  shows "decode_loop (encode_loop 0 bs) 0 out = DecBytes (out @ bs)"
  using assms
proof (induction bs arbitrary: out rule: length_induct)
  case (1 bs)
  have nil: "decode_loop [] p o1 = DecBytes o1" for p o1 by (subst decode_loop.simps) simp
  consider "bs = []" | x where "bs = [x]" | x y where "bs = [x, y]" | x y z rest where "bs = x # y # z # rest"
    by (metis list.exhaust)
  then show ?case
  proof cases
    case (4 x y z rest)
    have "encode_loop 0 bs = encodeBuf2 x y z 0 @ encode_loop 0 rest"
      unfolding 4 by (subst encode_loop.simps) (simp add: Let_def)
    then show ?thesis using 1 4 decode_loop_group(1) [of out x y z "encode_loop 0 rest"] by simp
  next
    case (2 x)
    have "encode_loop 0 bs = encodeBuf2 x 0 0 2 @ []"
      unfolding 2 by (subst encode_loop.simps) (simp add: Let_def encode_loop.simps [of _ "[]"] numeral_2_eq_2)
    then show ?thesis using 1 2 decode_loop_group(3) [of out x "[]"] by (simp add: nil)
  next
    case (3 x y)
    have "encode_loop 0 bs = encodeBuf2 x y 0 1 @ []"
      unfolding 3 by (subst encode_loop.simps) (simp add: Let_def encode_loop.simps [of _ "[]"])
    then show ?thesis using 1 3 decode_loop_group(2) [of out x y "[]"] by (simp add: nil)
  qed (simp add: encode_loop.simps nil)
qed

text \<open>
  C28.  Round trip: every byte string of up to \<open>MAX_DEC_BUF_LEN - 2\<close> bytes is encoded, and decoding the text
  gives it back.
\<close>

theorem base64_roundtrip:
  assumes "bs \<noteq> []" "length bs + 2 \<le> MAX_DEC_BUF_LEN"
  shows "\<exists>t. encode True (length bs) (Some bs) = Some t \<and> decode t = DecBytes bs"
proof -
  have e: "encode True (length bs) (Some bs) = Some (encode_loop 0 bs)"
    using assms(1) by (simp add: encode_def encode_bin_def Binary_copy_def Binary_new_def getBase_def getLength_def)
  have "encode_loop 0 bs \<noteq> []"
  proof
    assume "encode_loop 0 bs = []"
    then have "decode_loop [] 0 [] = DecBytes ([] @ bs)" using decode_loop_encode_loop [of "[]" bs] assms(2) by simp
    then show False using assms(1) by (simp add: decode_loop.simps)
  qed
  then show ?thesis using e decode_loop_encode_loop [of "[]" bs] assms(2) by (simp add: decode_def)
qed

theorem base64_roundtrip_witness:
  "\<exists>t. encode True 5 (Some [104, 101, 108, 108, 111]) = Some t \<and> decode t = DecBytes [104, 101, 108, 108, 111]"
proof -
  have l: "length [104, 101, 108, 108, 111 :: u8] = 5" by simp
  show ?thesis using base64_roundtrip [of "[104, 101, 108, 108, 111]"] unfolding l by (simp add: MAX_DEC_BUF_LEN_def)
qed

text \<open>
  A text that begins with four \<open>=\<close> sets \<open>pad\<close> to 4: the length becomes \<open>2 ^ 32 - 1\<close> and the write position
  leaves the buffer.
\<close>

lemma decode_fault: "decode ([61, 61, 61, 61] @ rest) = DecFault"
proof -
  have l: "length [61, 61, 61, 61 :: u8] = 4" by simp
  have "read_quad 4 ([61, 61, 61, 61] @ rest) = ([61, 61, 61, 61], rest)"
    using read_quad_clean [of "[61, 61, 61, 61]" rest] unfolding l by simp
  moreover have "decodeBuf 0 [61, 61, 61, 61] 0 = Some ([0, 0, 0, 0], 4)" by (simp add: decode_char_def)
  ultimately show ?thesis
    unfolding decode_def decode_loop.simps [of "[61, 61, 61, 61] @ rest"] by (simp add: MAX_DEC_BUF_LEN_def)
qed

end
