(* ===== verification/StdMap.thy ===== *)
theory StdMap
  imports SvsPrelude
begin

text \<open>
  \<open>std::map\<close> as a list of pairs in the order of the keys, with the operations the sources use: \<open>insert\<close>, which
  keeps an entry that is there, \<open>operator[]\<close> as the target of an assignment, \<open>erase\<close>, and \<open>find\<close>
  (\<^const>\<open>map_of\<close>).  The interface \<open>assoc_store\<close> states the laws its users rely on.
\<close>

type_synonym ('k, 'v) stdmap = "('k \<times> 'v) list"

fun sm_insert :: "'k::linorder \<Rightarrow> 'v \<Rightarrow> ('k, 'v) stdmap \<Rightarrow> ('k, 'v) stdmap" where
  "sm_insert k v [] = [(k, v)]"
| "sm_insert k v ((l, w) # m) =
     (if k < l then (k, v) # (l, w) # m else if k = l then (l, w) # m else (l, w) # sm_insert k v m)"

fun sm_assign :: "'k::linorder \<Rightarrow> 'v \<Rightarrow> ('k, 'v) stdmap \<Rightarrow> ('k, 'v) stdmap" where
  "sm_assign k v [] = [(k, v)]"
| "sm_assign k v ((l, w) # m) =
     (if k < l then (k, v) # (l, w) # m else if k = l then (l, v) # m else (l, w) # sm_assign k v m)"

definition sm_erase :: "'k \<Rightarrow> ('k, 'v) stdmap \<Rightarrow> ('k, 'v) stdmap" where
  "sm_erase k m = filter (\<lambda>e. fst e \<noteq> k) m"

definition sm_inv :: "('k::linorder, 'v) stdmap \<Rightarrow> bool" where
  "sm_inv m \<longleftrightarrow> sorted_wrt (<) (map fst m)"

lemma sm_inv_simps [simp]:
  "sm_inv []" "sm_inv ((k, v) # m) \<longleftrightarrow> sm_inv m \<and> fst ` set m \<subseteq> {k<..}"
  by (auto simp: sm_inv_def)

lemma sm_inv_distinct: "sm_inv m \<Longrightarrow> distinct (map fst m)"
  by (simp add: sm_inv_def strict_sorted_iff)

lemma sm_insert_keys: "fst ` set (sm_insert k v m) = insert k (fst ` set m)"
  by (induction k v m rule: sm_insert.induct) (simp_all add: insert_commute)

lemma sm_assign_keys: "fst ` set (sm_assign k v m) = insert k (fst ` set m)"
  by (induction k v m rule: sm_assign.induct) (simp_all add: insert_commute)

lemma sm_inv_insert: "sm_inv m \<Longrightarrow> sm_inv (sm_insert k v m)"
  by (induction k v m rule: sm_insert.induct) (auto simp: sm_insert_keys)

lemma sm_inv_assign: "sm_inv m \<Longrightarrow> sm_inv (sm_assign k v m)"
  by (induction k v m rule: sm_assign.induct) (auto simp: sm_assign_keys)

lemma sm_inv_erase: "sm_inv m \<Longrightarrow> sm_inv (sm_erase k m)"
  by (induction m) (force simp: sm_erase_def)+

lemma map_of_sm_erase: "map_of (sm_erase k m) = (map_of m)(k := None)"
  by (induction m) (auto simp: sm_erase_def fun_eq_iff)

lemma map_of_smaller: "fst ` set m \<subseteq> {l<..} \<Longrightarrow> k \<le> l \<Longrightarrow> map_of m (k::'k::linorder) = None"
  by (induction m) auto

lemma map_of_sm_insert:
  "sm_inv m \<Longrightarrow> map_of (sm_insert k v m) = (if map_of m k = None then (map_of m)(k \<mapsto> v) else map_of m)"
proof (induction m)
  case (Cons e m)
  obtain l w where e: "e = (l, w)" by (cases e)
  show ?case
  proof (cases k l rule: linorder_cases)
    case less
    then have "map_of m k = None" using Cons.prems e by (intro map_of_smaller [of m l k]) auto
    then show ?thesis using less e by (auto simp: fun_eq_iff)
  qed (use Cons e in \<open>auto simp: fun_eq_iff\<close>)
qed simp

lemma map_of_sm_assign: "sm_inv m \<Longrightarrow> map_of (sm_assign k v m) = (map_of m)(k \<mapsto> v)"
proof (induction m)
  case (Cons e m)
  then show ?case by (cases e) (auto simp: fun_eq_iff)
qed simp

lemma sm_erase_Cons: "sm_erase a ((b, s) # h) = (if b = a then sm_erase a h else (b, s) # sm_erase a h)"
  by (simp add: sm_erase_def)

lemma length_sm_erase_less: "map_of h a = Some v \<Longrightarrow> length (sm_erase a h) < length h"
  by (induction h) (auto simp: sm_erase_def less_Suc_eq_le)

lemma sm_erase_assign: "sm_erase a (sm_assign a s h) = sm_erase a h"
  by (induction a s h rule: sm_assign.induct) (auto simp: sm_erase_def)

lemma length_sm_assign: "sm_inv h \<Longrightarrow> map_of h a = Some t \<Longrightarrow> length (sm_assign a s h) = length h"
proof (induction a s h rule: sm_assign.induct)
  case (2 k v l w m)
  then show ?case using map_of_smaller [of m l k] by auto
qed simp

lemma sm_erase_absent: "map_of h a = None \<Longrightarrow> sm_erase a h = h"
  by (induction h) (auto simp: sm_erase_def split: if_splits)

lemma sm_eqI:
  assumes "sm_inv h" "sm_inv h'" "map_of h = map_of h'" shows "h = h'"
  using assms
proof (induction h arbitrary: h')
  case Nil
  then show ?case by (metis map_of.simps(1) map_of_eq_empty_iff)
next
  case (Cons e h)
  obtain a s where e: "e = (a, s)" by (cases e)
  have "map_of h' a = Some s" using Cons.prems(3) e by (metis fun_upd_same map_of_Cons_code(2))
  then obtain b t k where h': "h' = (b, t) # k" by (cases h') auto
  have "a = b"
  proof (rule ccontr)
    assume "a \<noteq> b"
    then have "map_of k a = Some s" "map_of h b = Some t"
      using \<open>map_of h' a = Some s\<close> h' Cons.prems(3) e by (simp, metis fun_upd_other fun_upd_same map_of.simps(2) prod.sel)
    then have "b < a" "a < b" using Cons.prems(1,2) e h' map_of_SomeD by fastforce+
    then show False by simp
  qed
  moreover have "s = t" using calculation \<open>map_of h' a = Some s\<close> h' by simp
  moreover have "map_of h = map_of k"
  proof
    fix x show "map_of h x = map_of k x"
    proof (cases "x = a")
      case True
      then show ?thesis using map_of_smaller [of h a x] map_of_smaller [of k b x] Cons.prems(1,2) e h' calculation by simp
    next
      case False
      then show ?thesis using fun_cong [OF Cons.prems(3), of x] e h' calculation by simp
    qed
  qed
  ultimately show ?case using Cons.IH [of k] Cons.prems(1,2) e h' by simp
qed

section \<open>The interface\<close>

locale assoc_store =
  fixes inv :: "'m \<Rightarrow> bool" and look :: "'m \<Rightarrow> 'k \<Rightarrow> 'v option"
    and ins :: "'k \<Rightarrow> 'v \<Rightarrow> 'm \<Rightarrow> 'm" and del :: "'k \<Rightarrow> 'm \<Rightarrow> 'm"
  assumes inv_ins: "inv m \<Longrightarrow> inv (ins k v m)" and inv_del: "inv m \<Longrightarrow> inv (del k m)"
    and look_ins: "inv m \<Longrightarrow> look (ins k v m) = (if look m k = None then (look m)(k \<mapsto> v) else look m)"
    and look_del: "inv m \<Longrightarrow> look (del k m) = (look m)(k := None)"
begin

text \<open>Two stores that own a set of entries between them: an entry that moves from one to the other is
  neither lost nor doubled.\<close>

definition split_of :: "('k \<rightharpoonup> 'v) \<Rightarrow> 'm \<Rightarrow> 'm \<Rightarrow> bool" where
  "split_of all a b \<longleftrightarrow> inv a \<and> inv b \<and> dom (look a) \<inter> dom (look b) = {} \<and> look a ++ look b = all"

lemma split_of_commute: "split_of all a b \<Longrightarrow> split_of all b a"
  by (simp add: split_of_def Int_commute map_add_comm)

lemma split_of_move:
  assumes "split_of all a b" "look a k = Some v"
  shows "split_of all (del k a) (ins k v b)"
proof -
  have b: "look b k = None" using assms by (force simp: split_of_def)
  have a: "inv a" "inv b" "dom (look a) \<inter> dom (look b) = {}" "look a ++ look b = all"
    using assms(1) by (auto simp: split_of_def)
  have "(look a)(k := None) ++ (look b)(k \<mapsto> v) = look a ++ look b"
    using assms(2) b by (auto simp: fun_eq_iff map_add_def split: option.split)
  then show ?thesis
    using a b by (auto simp: split_of_def look_ins look_del inv_ins inv_del split: if_splits)
qed

lemma split_of_exclusive:
  assumes "split_of all a b"
  shows "look a k = Some v \<Longrightarrow> look b k = None" "look a k = Some v \<Longrightarrow> all k = Some v"
    "look b k = Some v \<Longrightarrow> all k = Some v"
  using assms by (force simp: split_of_def, force simp: split_of_def map_add_def split: option.split,
      auto simp: split_of_def map_add_def)

end

interpretation sm: assoc_store sm_inv map_of sm_insert sm_erase
  by unfold_locales (simp_all add: sm_inv_insert sm_inv_erase map_of_sm_insert map_of_sm_erase)

end
