(* ===== verification/MediaPort.thy ===== *)
theory MediaPort
  imports StdMap
begin

text \<open>
  The media ports of a network interface, \<open>CStreamMediaPort\<close> in \<open>svs_adapter_media_port.cpp\<close>, and their
  manager, \<open>CStreamPortManager\<close> in \<open>svs_adapter_port_manager.cpp\<close>.  A handle is known by its kind and the
  port it is opened on.  What the operating system and the EHome library decide (whether memory is there,
  a socket opens, how many streams a handle has) are arguments.
\<close>

section \<open>Data\<close>

datatype handle = RtpUdpHandle u16 | RtcpUdpHandle u16 | RtpTcpHandle u16 | EhomeHandle u16

fun local_port :: "handle \<Rightarrow> u16" where
  "local_port (RtpUdpHandle p) = p"
| "local_port (RtcpUdpHandle p) = p"
| "local_port (RtpTcpHandle p) = p"
| "local_port (EhomeHandle p) = p"

record RTP_UDP_PORT_INFO =
  pRtpHandle :: handle
  pRtcpHandle :: handle

record CStreamMediaPort =
  m_InterfaceAddr :: u32
  m_unPortNum :: u32
  m_UnUsedUdpPortMap :: "(u16, RTP_UDP_PORT_INFO) stdmap"
  m_AllocUdpPortMap :: "(u16, RTP_UDP_PORT_INFO) stdmap"
  m_usEnableEhome :: u16
  m_unEhomePortNum :: u32
  m_EhomePortMap :: "(u16, handle) stdmap"
  m_pTcpMediaHandle :: "handle option"

definition CStreamMediaPort_new :: CStreamMediaPort where
  "CStreamMediaPort_new = \<lparr>m_InterfaceAddr = 0, m_unPortNum = 0, m_UnUsedUdpPortMap = [], m_AllocUdpPortMap = [],
     m_usEnableEhome = 0, m_unEhomePortNum = 0, m_EhomePortMap = [], m_pTcpMediaHandle = None\<rparr>"

section \<open>Creating the ports\<close>

text \<open>
  The ports of one range: \<open>for (p = start; p <= end && p >= start; p++)\<close> on 16-bit numbers.  The loop does
  not end for the range from 0 to 65535.
\<close>

partial_function (option) range_loop :: "u16 \<Rightarrow> u16 \<Rightarrow> u16 \<Rightarrow> u16 list \<Rightarrow> u16 list option" where
  "range_loop usStart usEnd p ps =
     (if p \<le> usEnd \<and> usStart \<le> p then range_loop usStart usEnd (p + 1) (ps @ [p]) else Some ps)"

text \<open>A configuration is the list of its ranges.\<close>

fun config_ports :: "(u16 \<times> u16) list \<Rightarrow> u16 list \<Rightarrow> u16 list option" where
  "config_ports [] ps = Some ps"
| "config_ports ((s, e) # rs) ps =
     (case range_loop s e s ps of None \<Rightarrow> None | Some ps' \<Rightarrow> config_ports rs ps')"

text \<open>
  \<open>createRtpUdpPort\<close>: a pair for every even port whose successor is configured too.  \<open>mem\<close> and \<open>opens\<close> tell
  for every turn of the loop whether there is memory and which handle can be opened.
\<close>

fun create_udp_loop :: "(nat \<Rightarrow> bool) \<Rightarrow> (nat \<Rightarrow> handle \<Rightarrow> bool) \<Rightarrow> u16 list \<Rightarrow> nat \<Rightarrow> u16 list \<Rightarrow>
    CStreamMediaPort \<Rightarrow> retcode \<times> CStreamMediaPort" where
  "create_udp_loop mem opens all n [] s = (RET_OK, s)"
| "create_udp_loop mem opens all n (usRtpPort # ps) s =
     (if usRtpPort mod 2 \<noteq> 0 then create_udp_loop mem opens all (n + 1) ps s
      else
        let usRtcpPort = usRtpPort + 1;
            rtp = RtpUdpHandle usRtpPort;
            rtcp = RtcpUdpHandle usRtcpPort
        in if usRtcpPort \<notin> set all then create_udp_loop mem opens all (n + 1) ps s
           else if \<not> mem n then (RET_ERR_SYS_NEW, s)
           else if \<not> opens n rtp then create_udp_loop mem opens all (n + 1) ps s
           else if \<not> opens n rtcp then create_udp_loop mem opens all (n + 1) ps s
           else create_udp_loop mem opens all (n + 1) ps
             (s\<lparr>m_UnUsedUdpPortMap := sm_insert usRtpPort \<lparr>pRtpHandle = rtp, pRtcpHandle = rtcp\<rparr> (m_UnUsedUdpPortMap s),
                m_unPortNum := m_unPortNum s + 1\<rparr>))"

definition createRtpUdpPort :: "(nat \<Rightarrow> bool) \<Rightarrow> (nat \<Rightarrow> handle \<Rightarrow> bool) \<Rightarrow> u16 list \<Rightarrow>
    CStreamMediaPort \<Rightarrow> retcode \<times> CStreamMediaPort" where
  "createRtpUdpPort mem opens ps s = create_udp_loop mem opens ps 0 ps s"

text \<open>When the listening socket does not open, the handle is deleted but the pointer to it stays.\<close>

definition createRtpTcpPort :: "bool \<Rightarrow> bool \<Rightarrow> u16 \<Rightarrow> CStreamMediaPort \<Rightarrow> retcode \<times> CStreamMediaPort" where
  "createRtpTcpPort mem opened usTcpMediaPort s =
     (if \<not> mem then (RET_ERR_SYS_NEW, s)
      else
        let s1 = s\<lparr>m_pTcpMediaHandle := Some (RtpTcpHandle usTcpMediaPort)\<rparr>
        in if \<not> opened then (RET_FAIL, s1) else (RET_OK, s1))"

fun create_ehome_loop :: "(nat \<Rightarrow> bool) \<Rightarrow> (nat \<Rightarrow> handle \<Rightarrow> bool) \<Rightarrow> nat \<Rightarrow> u16 list \<Rightarrow>
    CStreamMediaPort \<Rightarrow> retcode \<times> CStreamMediaPort" where
  "create_ehome_loop mem opens n [] s = (RET_OK, s)"
| "create_ehome_loop mem opens n (usEhomePort # ps) s =
     (if \<not> mem n then (RET_ERR_SYS_NEW, s)
      else if \<not> opens n (EhomeHandle usEhomePort) then create_ehome_loop mem opens (n + 1) ps s
      else create_ehome_loop mem opens (n + 1) ps
        (s\<lparr>m_EhomePortMap := sm_insert usEhomePort (EhomeHandle usEhomePort) (m_EhomePortMap s),
           m_unEhomePortNum := m_unEhomePortNum s + 1\<rparr>))"

definition createEhomePort :: "(nat \<Rightarrow> bool) \<Rightarrow> (nat \<Rightarrow> handle \<Rightarrow> bool) \<Rightarrow> u16 list \<Rightarrow>
    CStreamMediaPort \<Rightarrow> retcode \<times> CStreamMediaPort" where
  "createEhomePort mem opens ps s = create_ehome_loop mem opens 0 ps s"

text \<open>What the environment decides during \<open>init\<close>.\<close>

record port_env =
  env_mem :: "nat \<Rightarrow> bool"
  env_open :: "nat \<Rightarrow> handle \<Rightarrow> bool"
  env_tcp_mem :: bool
  env_tcp_open :: bool
  env_ehome_init :: bool
  env_ehome_mem :: "nat \<Rightarrow> bool"
  env_ehome_open :: "nat \<Rightarrow> handle \<Rightarrow> bool"

definition port_init :: "port_env \<Rightarrow> u32 \<Rightarrow> u16 \<Rightarrow> (u16 \<times> u16) list option \<Rightarrow> u16 \<Rightarrow> (u16 \<times> u16) list \<Rightarrow>
    CStreamMediaPort \<Rightarrow> (retcode \<times> CStreamMediaPort) option" where
  "port_init env unIp usTcpMediaPort pUdpConfig usEnableEhome ehomeConfig s =
     (if unIp = 0 \<or> pUdpConfig = None then Some (RET_ERR_PARAM, s)
      else case config_ports (the pUdpConfig) [] of None \<Rightarrow> None
        | Some ps \<Rightarrow>
            let s1 = snd (createRtpUdpPort (env_mem env) (env_open env) ps (s\<lparr>m_InterfaceAddr := unIp\<rparr>))
            in case createRtpTcpPort (env_tcp_mem env) (env_tcp_open env) usTcpMediaPort s1 of
                 (r, s2) \<Rightarrow>
                   if r \<noteq> RET_OK then Some (RET_FAIL, s2)
                   else
                     let s3 = s2\<lparr>m_usEnableEhome := usEnableEhome\<rparr>
                     in if usEnableEhome = 0 then Some (RET_OK, s3)
                        else if \<not> env_ehome_init env then Some (RET_FAIL, s3)
                        else (case config_ports ehomeConfig [] of None \<Rightarrow> None
                              | Some eps \<Rightarrow>
                                  Some (RET_OK, snd (createEhomePort (env_ehome_mem env) (env_ehome_open env) eps s3))))"

section \<open>Using the ports\<close>

text \<open>\<open>close\<close>, with the handles it deletes.\<close>

definition port_close :: "CStreamMediaPort \<Rightarrow> CStreamMediaPort \<times> handle list" where
  "port_close s =
     (let pairs = (\<lambda>m. concat (map (\<lambda>(k, i). [pRtpHandle i, pRtcpHandle i]) m));
          tcp = (case m_pTcpMediaHandle s of None \<Rightarrow> [] | Some h \<Rightarrow> [h]);
          s1 = s\<lparr>m_AllocUdpPortMap := [], m_UnUsedUdpPortMap := [], m_unPortNum := 0\<rparr>;
          udp = pairs (m_AllocUdpPortMap s) @ pairs (m_UnUsedUdpPortMap s)
      in if m_usEnableEhome s \<noteq> 0
         then (s1\<lparr>m_EhomePortMap := []\<rparr>, tcp @ udp @ map snd (m_EhomePortMap s))
         else (s1, tcp @ udp))"

definition getAllPortNum :: "CStreamMediaPort \<Rightarrow> u32" where
  "getAllPortNum s = m_unPortNum s"

definition getTcpMediaHandle :: "CStreamMediaPort \<Rightarrow> handle option" where
  "getTcpMediaHandle s = m_pTcpMediaHandle s"

definition allocRtpUdpPort :: "CStreamMediaPort \<Rightarrow> (retcode \<times> (handle \<times> handle) option) \<times> CStreamMediaPort" where
  "allocRtpUdpPort s =
     (case m_UnUsedUdpPortMap s of [] \<Rightarrow> ((RET_FAIL, None), s)
      | (k, udpInfo) # _ \<Rightarrow>
          ((RET_OK, Some (pRtpHandle udpInfo, pRtcpHandle udpInfo)),
           s\<lparr>m_AllocUdpPortMap := sm_insert k udpInfo (m_AllocUdpPortMap s),
             m_UnUsedUdpPortMap := sm_erase k (m_UnUsedUdpPortMap s)\<rparr>))"

text \<open>The EHome handle with the fewest streams; \<open>streams\<close> is \<open>getStreamCount\<close>.\<close>

fun ehome_best :: "(handle \<Rightarrow> u16) \<Rightarrow> (u16, handle) stdmap \<Rightarrow> u16 \<Rightarrow> handle option \<Rightarrow> handle option" where
  "ehome_best streams [] minCount best = best"
| "ehome_best streams ((k, h) # m) minCount best =
     (if minCount > streams h then ehome_best streams m (streams h) (Some h) else ehome_best streams m minCount best)"

definition allocEhomeMediaPort :: "(handle \<Rightarrow> u16) \<Rightarrow> CStreamMediaPort \<Rightarrow> retcode \<times> handle option" where
  "allocEhomeMediaPort streams s =
     (case ehome_best streams (m_EhomePortMap s) 0xFFFF None of None \<Rightarrow> (RET_FAIL, None) | Some h \<Rightarrow> (RET_OK, Some h))"

text \<open>The release operations clear the caller's pointers when they succeed.\<close>

definition port_releaseRtpTcpPort :: "handle option \<Rightarrow> retcode \<times> handle option" where
  "port_releaseRtpTcpPort pHandle = (if pHandle = None then (RET_FAIL, None) else (RET_OK, None))"

definition releaseRtpUdpPort :: "handle option \<Rightarrow> handle option \<Rightarrow> CStreamMediaPort \<Rightarrow>
    (retcode \<times> handle option \<times> handle option) \<times> CStreamMediaPort" where
  "releaseRtpUdpPort rtp rtcp s =
     (if rtp = None \<or> rtcp = None then ((RET_FAIL, rtp, rtcp), s)
      else
        let usRtpPort = local_port (the rtp)
        in case map_of (m_AllocUdpPortMap s) usRtpPort of None \<Rightarrow> ((RET_FAIL, rtp, rtcp), s)
           | Some udpInfo \<Rightarrow>
               ((RET_OK, None, None),
                s\<lparr>m_UnUsedUdpPortMap := sm_insert usRtpPort udpInfo (m_UnUsedUdpPortMap s),
                  m_AllocUdpPortMap := sm_erase usRtpPort (m_AllocUdpPortMap s)\<rparr>))"

definition port_releaseEhomeMediaPort :: "handle option \<Rightarrow> retcode" where
  "port_releaseEhomeMediaPort h = RET_OK"

section \<open>The port manager\<close>

record CStreamPortManager =
  m_MediaInterfaceMap :: "(u32, CStreamMediaPort) stdmap"
  m_pSvsFrameHandle :: "handle option"

definition CStreamPortManager_new :: CStreamPortManager where
  "CStreamPortManager_new = \<lparr>m_MediaInterfaceMap = [], m_pSvsFrameHandle = None\<rparr>"

text \<open>The loop of \<open>initManager\<close> over the addresses; \<open>new_ok\<close> is whether \<open>new\<close> succeeds for an address.\<close>

fun init_ports :: "(u32 \<Rightarrow> bool) \<Rightarrow> (u32 \<Rightarrow> port_env) \<Rightarrow> u16 \<Rightarrow> (u16 \<times> u16) list option \<Rightarrow> u16 \<Rightarrow> (u16 \<times> u16) list \<Rightarrow>
    u32 list \<Rightarrow> CStreamPortManager \<Rightarrow> (retcode \<times> CStreamPortManager) option" where
  "init_ports new_ok env tcp udp en eh [] m = Some (RET_OK, m)"
| "init_ports new_ok env tcp udp en eh (ip # ips) m =
     (if \<not> new_ok ip then Some (RET_FAIL, m)
      else case port_init (env ip) ip tcp udp en eh CStreamMediaPort_new of None \<Rightarrow> None
        | Some (nRet, p) \<Rightarrow>
            if nRet \<noteq> RET_OK then Some (RET_FAIL, m)
            else init_ports new_ok env tcp udp en eh ips
              (m\<lparr>m_MediaInterfaceMap := sm_assign ip p (m_MediaInterfaceMap m)\<rparr>))"

definition initManager :: "(u32 \<Rightarrow> bool) \<Rightarrow> (u32 \<Rightarrow> port_env) \<Rightarrow> u32 \<Rightarrow> u32 list \<Rightarrow> u16 \<Rightarrow> (u16 \<times> u16) list option \<Rightarrow> u16 \<Rightarrow>
    (u16 \<times> u16) list \<Rightarrow> CStreamPortManager \<Rightarrow> (retcode \<times> CStreamPortManager) option" where
  "initManager new_ok env internalIp externalIps tcp udp en eh m =
     init_ports new_ok env tcp udp en eh (internalIp # externalIps) m"

definition closeManager :: "CStreamPortManager \<Rightarrow> CStreamPortManager" where
  "closeManager m = m\<lparr>m_pSvsFrameHandle := None, m_MediaInterfaceMap := []\<rparr>"

definition getMediaPort :: "u32 \<Rightarrow> CStreamPortManager \<Rightarrow> CStreamMediaPort option" where
  "getMediaPort unSpecifyIp m = map_of (m_MediaInterfaceMap m) unSpecifyIp"

text \<open>An operation on the port object of an address, through the pointer in the map.\<close>

definition with_port :: "u32 \<Rightarrow> (CStreamMediaPort \<Rightarrow> 'r \<times> CStreamMediaPort) \<Rightarrow> 'r \<Rightarrow> CStreamPortManager \<Rightarrow>
    'r \<times> CStreamPortManager" where
  "with_port ip f fail m =
     (case getMediaPort ip m of None \<Rightarrow> (fail, m)
      | Some p \<Rightarrow> (case f p of (r, p') \<Rightarrow> (r, m\<lparr>m_MediaInterfaceMap := sm_assign ip p' (m_MediaInterfaceMap m)\<rparr>)))"

definition mgr_allocRtpTcpPort :: "u32 \<Rightarrow> CStreamPortManager \<Rightarrow> retcode \<times> handle option" where
  "mgr_allocRtpTcpPort ip m =
     (case getMediaPort ip m of None \<Rightarrow> (RET_FAIL, None) | Some p \<Rightarrow> (RET_OK, getTcpMediaHandle p))"

definition mgr_allocRtpUdpPort :: "u32 \<Rightarrow> CStreamPortManager \<Rightarrow>
    (retcode \<times> (handle \<times> handle) option) \<times> CStreamPortManager" where
  "mgr_allocRtpUdpPort ip m = with_port ip allocRtpUdpPort (RET_FAIL, None) m"

definition mgr_allocEhomePort :: "(handle \<Rightarrow> u16) \<Rightarrow> u32 \<Rightarrow> CStreamPortManager \<Rightarrow> retcode \<times> handle option" where
  "mgr_allocEhomePort streams ip m =
     (case getMediaPort ip m of None \<Rightarrow> (RET_FAIL, None) | Some p \<Rightarrow> allocEhomeMediaPort streams p)"

definition mgr_releaseRtpTcpPort :: "u32 \<Rightarrow> handle option \<Rightarrow> CStreamPortManager \<Rightarrow> retcode \<times> handle option" where
  "mgr_releaseRtpTcpPort ip h m =
     (case getMediaPort ip m of None \<Rightarrow> (RET_FAIL, h) | Some p \<Rightarrow> port_releaseRtpTcpPort h)"

definition mgr_releaseRtpUdpPort :: "u32 \<Rightarrow> handle option \<Rightarrow> handle option \<Rightarrow> CStreamPortManager \<Rightarrow>
    (retcode \<times> handle option \<times> handle option) \<times> CStreamPortManager" where
  "mgr_releaseRtpUdpPort ip rtp rtcp m = with_port ip (releaseRtpUdpPort rtp rtcp) (RET_FAIL, rtp, rtcp) m"

definition allocMruSvsPort :: "u32 \<Rightarrow> CStreamPortManager \<Rightarrow> retcode \<times> handle option" where
  "allocMruSvsPort ip m = (RET_OK, m_pSvsFrameHandle m)"

definition releaseMruSvsPort :: "u32 \<Rightarrow> handle option \<Rightarrow> retcode \<times> handle option" where
  "releaseMruSvsPort ip h = (RET_OK, None)"

definition mgr_releaseEhomePort :: "u32 \<Rightarrow> handle option \<Rightarrow> CStreamPortManager \<Rightarrow> retcode" where
  "mgr_releaseEhomePort ip h m =
     (case getMediaPort ip m of None \<Rightarrow> RET_FAIL | Some p \<Rightarrow> port_releaseEhomeMediaPort h)"

section \<open>Which ports a configuration has\<close>

lemma range_loop_steps:
  assumes "unat usStart \<le> unat p" "unat p + k = unat usEnd + 1" "\<not> (usStart = 0 \<and> usEnd = 0xFFFF)"
  shows "range_loop usStart usEnd p ps = Some (ps @ map of_nat [unat p..<unat usEnd + 1])"
  using assms(1,2)
proof (induction k arbitrary: p ps)
  case 0
  then have "\<not> p \<le> usEnd" by (simp add: word_le_nat_alt)
  then show ?case using 0 by (subst range_loop.simps) simp
next
  case (Suc k)
  have le: "p \<le> usEnd" "usStart \<le> p" using Suc.prems by (simp_all add: word_le_nat_alt)
  have up: "[unat p..<unat usEnd + 1] = unat p # [Suc (unat p)..<unat usEnd + 1]" using Suc.prems by (simp add: upt_rec)
  show ?case
  proof (cases "p = 0xFFFF")
    case False
    have "unat p < 2 ^ 16" using unsigned_less [of p, where 'a = nat] by simp
    moreover have "unat p \<noteq> 2 ^ 16 - 1" using False by (auto simp: word_unat_eq_iff)
    ultimately have p1: "unat (p + 1) = unat p + 1" by (simp add: unat_word_ariths)
    then show ?thesis
      using Suc.IH [of "p + 1" "ps @ [p]"] Suc.prems le up by (subst range_loop.simps) simp
  next
    case True
    then have "unat p = 65535" by simp
    then have e: "usEnd = 0xFFFF" using Suc.prems(2) unsigned_less [of usEnd, where 'a = nat] by (simp add: word_unat_eq_iff)
    then have "\<not> usStart \<le> 0" using assms(3) by (simp add: word_le_nat_alt unat_eq_zero)
    moreover have z: "p + 1 = 0" unfolding True by code_simp
    ultimately have "range_loop usStart usEnd 0 (ps @ [p]) = Some (ps @ [p])" by (subst range_loop.simps) simp
    moreover have "[unat p..<unat usEnd + 1] = [unat p]" using True e by simp
    ultimately show ?thesis using le z by (subst range_loop.simps) simp
  qed
qed

lemma range_loop_ports:
  assumes "\<not> (usStart = 0 \<and> usEnd = 0xFFFF)"
  shows "range_loop usStart usEnd usStart ps = Some (ps @ map of_nat [unat usStart..<unat usEnd + 1])"
proof (cases "unat usStart \<le> unat usEnd + 1")
  case True
  then obtain k where "unat usStart + k = unat usEnd + 1" using le_Suc_ex by metis
  then show ?thesis using range_loop_steps [OF _ _ assms] by blast
next
  case False
  then show ?thesis by (subst range_loop.simps) (simp add: word_le_nat_alt)
qed

lemma range_loop_hangs: "range_loop 0 0xFFFF p ps = None"
proof -
  have "usStart = 0 \<longrightarrow> usEnd = 0xFFFF \<longrightarrow> False" if "range_loop usStart usEnd p ps = Some r" for usStart usEnd r
  proof (rule range_loop.raw_induct [OF _ that])
    fix f :: "u16 \<Rightarrow> u16 \<Rightarrow> u16 \<Rightarrow> u16 list \<Rightarrow> u16 list option" and usStart usEnd p ps r
    assume IH: "\<And>usStart usEnd p ps r. f usStart usEnd p ps = Some r \<Longrightarrow> usStart = 0 \<longrightarrow> usEnd = 0xFFFF \<longrightarrow> False"
      and st: "(if p \<le> usEnd \<and> usStart \<le> p then f usStart usEnd (p + 1) (ps @ [p]) else Some ps) = Some r"
    have "p \<le> 0xFFFF" using unsigned_less [of p, where 'a = nat] by (simp add: word_le_nat_alt)
    then have "f usStart usEnd (p + 1) (ps @ [p]) = Some r" if "usStart = 0" "usEnd = 0xFFFF" using st that by simp
    then show "usStart = 0 \<longrightarrow> usEnd = 0xFFFF \<longrightarrow> False" using IH by blast
  qed
  then show ?thesis by (cases "range_loop 0 0xFFFF p ps") auto
qed

section \<open>No port belongs to two sessions\<close>

definition pair_ok :: "u16 list \<Rightarrow> u16 \<Rightarrow> RTP_UDP_PORT_INFO \<Rightarrow> bool" where
  "pair_ok ps p i \<longleftrightarrow> p mod 2 = 0 \<and> p \<in> set ps \<and> p + 1 \<in> set ps \<and>
     i = \<lparr>pRtpHandle = RtpUdpHandle p, pRtcpHandle = RtcpUdpHandle (p + 1)\<rparr>"

definition unused_ok :: "u16 list \<Rightarrow> CStreamMediaPort \<Rightarrow> bool" where
  "unused_ok ps s \<longleftrightarrow> sm_inv (m_UnUsedUdpPortMap s) \<and> (\<forall>p i. map_of (m_UnUsedUdpPortMap s) p = Some i \<longrightarrow> pair_ok ps p i)"

lemma unused_ok_insert:
  assumes "unused_ok ps s" "pair_ok ps p i"
  shows "unused_ok ps (s\<lparr>m_UnUsedUdpPortMap := sm_insert p i (m_UnUsedUdpPortMap s), m_unPortNum := n\<rparr>)"
  using assms by (auto simp: unused_ok_def sm_inv_insert map_of_sm_insert split: if_splits)

lemma create_udp_loop_ok:
  assumes "set qs \<subseteq> set ps" "unused_ok ps s"
  shows "unused_ok ps (snd (create_udp_loop mem opens ps n qs s)) \<and>
    m_AllocUdpPortMap (snd (create_udp_loop mem opens ps n qs s)) = m_AllocUdpPortMap s"
  using assms
proof (induction qs arbitrary: n s)
  case (Cons p qs)
  let ?i = "\<lparr>pRtpHandle = RtpUdpHandle p, pRtcpHandle = RtcpUdpHandle (p + 1)\<rparr>"
  let ?s = "s\<lparr>m_UnUsedUdpPortMap := sm_insert p ?i (m_UnUsedUdpPortMap s), m_unPortNum := m_unPortNum s + 1\<rparr>"
  have "unused_ok ps ?s" if "p mod 2 = 0" "p + 1 \<in> set ps"
    using Cons.prems that by (intro unused_ok_insert) (simp_all add: pair_ok_def)
  then show ?case
    using Cons.IH [of s "n + 1"] Cons.IH [of ?s "n + 1"] Cons.prems by (simp add: Let_def)
qed simp

text \<open>The owner of a state: the free and the used entries split the created pairs.\<close>

definition ports_split :: "(u16 \<rightharpoonup> RTP_UDP_PORT_INFO) \<Rightarrow> CStreamMediaPort \<Rightarrow> bool" where
  "ports_split all s \<longleftrightarrow> sm.split_of all (m_UnUsedUdpPortMap s) (m_AllocUdpPortMap s)"

lemma alloc_split:
  assumes "ports_split all s" "allocRtpUdpPort s = ((r, Some (a, b)), s')"
  shows "\<exists>k i. all k = Some i \<and> a = pRtpHandle i \<and> b = pRtcpHandle i \<and> ports_split all s' \<and>
    map_of (m_AllocUdpPortMap s) k = None \<and> map_of (m_AllocUdpPortMap s') = (map_of (m_AllocUdpPortMap s))(k \<mapsto> i)"
proof -
  obtain k i rest where m: "m_UnUsedUdpPortMap s = (k, i) # rest"
    using assms(2) by (auto simp: allocRtpUdpPort_def split: list.splits)
  then have look: "map_of (m_UnUsedUdpPortMap s) k = Some i" by simp
  note sp = assms(1) [unfolded ports_split_def]
  have none: "map_of (m_AllocUdpPortMap s) k = None" by (rule sm.split_of_exclusive(1) [OF sp look])
  have "sm_inv (m_AllocUdpPortMap s)" using sp by (simp add: sm.split_of_def)
  then show ?thesis
    using sm.split_of_move [OF sp look] sm.split_of_exclusive(2) [OF sp look] none m assms(2)
    by (intro exI [of _ k] exI [of _ i]) (auto simp: allocRtpUdpPort_def ports_split_def map_of_sm_insert)
qed

lemma release_split:
  assumes "ports_split all s" "map_of (m_AllocUdpPortMap s) (local_port a) = Some i"
  shows "\<exists>s'. releaseRtpUdpPort (Some a) (Some b) s = ((RET_OK, None, None), s') \<and> ports_split all s' \<and>
    map_of (m_AllocUdpPortMap s') = (map_of (m_AllocUdpPortMap s))(local_port a := None)"
proof -
  note sp = sm.split_of_commute [OF assms(1) [unfolded ports_split_def]]
  show ?thesis
    using sm.split_of_commute [OF sm.split_of_move [OF sp assms(2)]] assms(2)
    by (simp add: releaseRtpUdpPort_def ports_split_def map_of_sm_erase Let_def)
qed

text \<open>The sessions: they take pairs of handles and return pairs they hold.\<close>

datatype port_op = PAlloc | PRelease "handle \<times> handle"

fun port_run :: "port_op list \<Rightarrow> CStreamMediaPort \<Rightarrow> (handle \<times> handle) list \<Rightarrow>
    CStreamMediaPort \<times> (handle \<times> handle) list" where
  "port_run [] s held = (s, held)"
| "port_run (PAlloc # ops) s held =
     (case allocRtpUdpPort s of ((r, None), s') \<Rightarrow> port_run ops s' held
      | ((r, Some h), s') \<Rightarrow> port_run ops s' (h # held))"
| "port_run (PRelease h # ops) s held =
     (if h \<notin> set held then port_run ops s held
      else case releaseRtpUdpPort (Some (fst h)) (Some (snd h)) s of
             (_, s') \<Rightarrow> port_run ops s' (remove1 h held))"

definition pair_of :: "RTP_UDP_PORT_INFO \<Rightarrow> handle \<times> handle" where
  "pair_of i = (pRtpHandle i, pRtcpHandle i)"

definition held_ok :: "CStreamMediaPort \<Rightarrow> (handle \<times> handle) list \<Rightarrow> bool" where
  "held_ok s held \<longleftrightarrow> distinct held \<and> set held = pair_of ` ran (map_of (m_AllocUdpPortMap s))"

lemma ran_drop:
  assumes "m k = Some i" "\<And>k' i'. m k' = Some i' \<Longrightarrow> pair_of i' = pair_of i \<Longrightarrow> k' = k"
  shows "pair_of ` ran (m(k := None)) = pair_of ` ran m - {pair_of i}"
proof (intro equalityI subsetI)
  fix x
  assume "x \<in> pair_of ` ran (m(k := None))"
  then obtain k' i' where "x = pair_of i'" "m k' = Some i'" "k' \<noteq> k" by (auto simp: ran_def split: if_splits)
  then show "x \<in> pair_of ` ran m - {pair_of i}" using assms(2) by (auto simp: ran_def)
next
  fix x
  assume "x \<in> pair_of ` ran m - {pair_of i}"
  then obtain k' i' where "x = pair_of i'" "m k' = Some i'" "x \<noteq> pair_of i" by (auto simp: ran_def)
  then have "i' \<in> ran (m(k := None))" using assms(1) by (intro ranI [of _ k']) auto
  then show "x \<in> pair_of ` ran (m(k := None))" using \<open>x = pair_of i'\<close> by simp
qed

lemma port_run_split:
  assumes "ports_split all s" "\<And>k i. all k = Some i \<Longrightarrow> pair_ok ps k i" "held_ok s held"
    "port_run ops s held = (s', held')"
  shows "ports_split all s' \<and> held_ok s' held'"
  using assms
proof (induction ops s held rule: port_run.induct)
  case (2 ops s held)
  show ?case
  proof (cases "snd (fst (allocRtpUdpPort s))")
    case None
    then have "m_UnUsedUdpPortMap s = []" by (auto simp: allocRtpUdpPort_def split: list.splits)
    then have "allocRtpUdpPort s = ((RET_FAIL, None), s)" by (simp add: allocRtpUdpPort_def)
    then show ?thesis using 2 by simp
  next
    case (Some h)
    then obtain r a b s1 where al: "allocRtpUdpPort s = ((r, Some (a, b)), s1)" "h = (a, b)"
      by (metis prod.collapse)
    obtain k i where k: "all k = Some i" "a = pRtpHandle i" "b = pRtcpHandle i" "ports_split all s1"
      "map_of (m_AllocUdpPortMap s) k = None" "map_of (m_AllocUdpPortMap s1) = (map_of (m_AllocUdpPortMap s))(k \<mapsto> i)"
      using alloc_split [OF 2(3) al(1)] by blast
    have new: "h \<notin> set held"
    proof
      assume "h \<in> set held"
      then obtain k' i' where "map_of (m_AllocUdpPortMap s) k' = Some i'" "a = pRtpHandle i'"
        using 2(5) al(2) by (auto simp: held_ok_def pair_of_def ran_def)
      moreover from this have "all k' = Some i'"
        using sm.split_of_exclusive(3) [OF 2(3) [unfolded ports_split_def]] by blast
      moreover have "pair_ok ps k' i'" "pair_ok ps k i" using calculation(3) k(1) 2(4) by blast+
      ultimately show False using k(2,5) by (simp add: pair_ok_def)
    qed
    have "held_ok s1 (h # held)"
      using 2(5) new k(5) al(2) by (simp add: held_ok_def k(2,3,6) pair_of_def)
    then show ?thesis using 2(2) [OF al(1) [symmetric] refl refl] 2(4,6) k(4) al by auto
  qed
next
  case (3 h ops s held)
  show ?case
  proof (cases "h \<in> set held")
    case True
    then obtain k i where k: "map_of (m_AllocUdpPortMap s) k = Some i" "h = (pRtpHandle i, pRtcpHandle i)"
      using 3(5) by (auto simp: held_ok_def pair_of_def ran_def)
    then have all: "all k = Some i" using sm.split_of_exclusive(3) [OF 3(3) [unfolded ports_split_def]] by blast
    then have "pair_ok ps k i" using 3(4) by blast
    then have lp: "local_port (fst h) = k" using k(2) by (simp add: pair_ok_def)
    obtain s1 where s1: "releaseRtpUdpPort (Some (fst h)) (Some (snd h)) s = ((RET_OK, None, None), s1)"
      "ports_split all s1" "map_of (m_AllocUdpPortMap s1) = (map_of (m_AllocUdpPortMap s))(k := None)"
      using release_split [OF 3(3), of "fst h" i "snd h"] k(1) lp by auto
    have other: "k' = k" if "map_of (m_AllocUdpPortMap s) k' = Some i'" "pRtpHandle i' = pRtpHandle i" for k' i'
    proof -
      have "pair_ok ps k' i'" "pair_ok ps k i"
        using sm.split_of_exclusive(3) [OF 3(3) [unfolded ports_split_def] that(1)] all 3(4) by blast+
      then show ?thesis using that(2) by (simp add: pair_ok_def)
    qed
    have "held_ok s1 (remove1 h held)"
    proof -
      have "pair_of ` ran ((map_of (m_AllocUdpPortMap s))(k := None))
          = pair_of ` ran (map_of (m_AllocUdpPortMap s)) - {pair_of i}"
        by (rule ran_drop [where m = "map_of (m_AllocUdpPortMap s)", OF k(1)]) (use other in \<open>auto simp: pair_of_def\<close>)
      moreover have "h = pair_of i" using k(2) by (simp add: pair_of_def)
      ultimately show ?thesis using 3(5) by (simp add: held_ok_def s1(3))
    qed
    then show ?thesis using 3(2) [OF _ s1(1) [symmetric]] 3(4,6) s1 True by auto
  qed (use 3 in auto)
qed auto

text \<open>
  C29.  No port is given away twice: start with the pairs that \<open>createRtpUdpPort\<close> made from a list of ports,
  and let sessions take and return pairs in any order.  Then no pair is held twice, every held pair is an
  even port with its successor, both configured, and the held and the free ports together are exactly
  the ports that were made.
\<close>

theorem udp_ports_exclusive:
  assumes "createRtpUdpPort mem opens ps CStreamMediaPort_new = (r, s)" "port_run ops s [] = (s', held)"
  shows "distinct held \<and> set held \<subseteq> {(RtpUdpHandle p, RtcpUdpHandle (p + 1)) | p. p mod 2 = 0 \<and> {p, p + 1} \<subseteq> set ps} \<and>
    local_port ` fst ` set held \<inter> fst ` set (m_UnUsedUdpPortMap s') = {} \<and>
    local_port ` fst ` set held \<union> fst ` set (m_UnUsedUdpPortMap s') = fst ` set (m_UnUsedUdpPortMap s)"
proof -
  let ?all = "map_of (m_UnUsedUdpPortMap s)"
  have "unused_ok ps CStreamMediaPort_new" by (simp add: unused_ok_def CStreamMediaPort_new_def)
  then have s: "unused_ok ps s" "m_AllocUdpPortMap s = []"
    using create_udp_loop_ok [of ps ps CStreamMediaPort_new mem opens 0] assms(1)
    by (simp_all add: createRtpUdpPort_def CStreamMediaPort_new_def)
  have ok: "pair_ok ps k i" if "?all k = Some i" for k i using s(1) that by (auto simp: unused_ok_def)
  have "ports_split ?all s" "held_ok s []"
    using s by (simp_all add: ports_split_def sm.split_of_def unused_ok_def held_ok_def)
  then have sp: "ports_split ?all s'" "held_ok s' held" using port_run_split [OF _ ok _ assms(2)] by blast+
  note ex = sm.split_of_exclusive(3) [OF sp(1) [unfolded ports_split_def]]
  have h: "\<exists>p i. x = (RtpUdpHandle p, RtcpUdpHandle (p + 1)) \<and> map_of (m_AllocUdpPortMap s') p = Some i \<and> pair_ok ps p i"
    if "x \<in> set held" for x
  proof -
    have "x \<in> pair_of ` ran (map_of (m_AllocUdpPortMap s'))" using sp(2) that by (simp add: held_ok_def)
    then obtain p i where i: "x = pair_of i" "map_of (m_AllocUdpPortMap s') p = Some i" by (auto simp: ran_def)
    moreover have "pair_ok ps p i" by (rule ok [OF ex [OF i(2)]])
    ultimately show ?thesis by (intro exI [of _ p] exI [of _ i]) (simp add: pair_ok_def pair_of_def)
  qed
  have ports: "local_port ` fst ` set held = dom (map_of (m_AllocUdpPortMap s'))"
  proof (intro equalityI subsetI)
    fix p
    assume "p \<in> dom (map_of (m_AllocUdpPortMap s'))"
    then obtain i where i: "map_of (m_AllocUdpPortMap s') p = Some i" by blast
    then have "pair_of i \<in> set held" using sp(2) by (auto simp: held_ok_def ran_def)
    moreover have "local_port (fst (pair_of i)) = p" using ok [OF ex [OF i]] by (simp add: pair_ok_def pair_of_def)
    ultimately show "p \<in> local_port ` fst ` set held" by (metis image_eqI)
  qed (use h in force)
  have "dom (map_of (m_UnUsedUdpPortMap s')) \<inter> dom (map_of (m_AllocUdpPortMap s')) = {}"
    "map_of (m_UnUsedUdpPortMap s') ++ map_of (m_AllocUdpPortMap s') = ?all"
    using sp(1) by (simp_all add: ports_split_def sm.split_of_def)
  then have "dom (map_of (m_AllocUdpPortMap s')) \<inter> dom (map_of (m_UnUsedUdpPortMap s')) = {}"
    "dom (map_of (m_AllocUdpPortMap s')) \<union> dom (map_of (m_UnUsedUdpPortMap s')) = dom ?all"
    by (blast, metis dom_map_add)
  moreover have "set held \<subseteq> {(RtpUdpHandle p, RtcpUdpHandle (p + 1)) | p. p mod 2 = 0 \<and> {p, p + 1} \<subseteq> set ps}"
    using h by (fastforce simp: pair_ok_def)
  ultimately show ?thesis
    using sp(2) unfolding ports dom_map_of_conv_image_fst held_ok_def by blast
qed

text \<open>Four ports are configured, two pairs made, taken and one returned.\<close>

definition example_ports :: CStreamMediaPort where
  "example_ports = snd (createRtpUdpPort (\<lambda>_. True) (\<lambda>_ _. True) [5000, 5001, 5002, 5003] CStreamMediaPort_new)"

theorem udp_ports_exclusive_witness:
  "\<exists>s' held. port_run [PAlloc, PAlloc, PRelease (RtpUdpHandle 5000, RtcpUdpHandle 5001)] example_ports [] = (s', held) \<and>
     distinct held \<and> held = [(RtpUdpHandle 5002, RtcpUdpHandle 5003)] \<and>
     local_port ` fst ` set held \<union> fst ` set (m_UnUsedUdpPortMap s') = {5000, 5002}"
proof -
  let ?ops = "[PAlloc, PAlloc, PRelease (RtpUdpHandle 5000, RtcpUdpHandle 5001)]"
  obtain s' held where r: "port_run ?ops example_ports [] = (s', held)" by fastforce
  have c: "createRtpUdpPort (\<lambda>_. True) (\<lambda>_ _. True) [5000, 5001, 5002, 5003] CStreamMediaPort_new = (RET_OK, example_ports)"
    by code_simp
  have "snd (port_run ?ops example_ports []) = [(RtpUdpHandle 5002, RtcpUdpHandle 5003)]" by code_simp
  then have h: "held = [(RtpUdpHandle 5002, RtcpUdpHandle 5003)]" by (simp only: r snd_conv)
  have f: "map fst (m_UnUsedUdpPortMap example_ports) = [5000, 5002]" by code_simp
  have "fst ` set (m_UnUsedUdpPortMap example_ports) = {5000, 5002}"
    using arg_cong [OF f, of set] by simp
  then have "distinct held" "local_port ` fst ` set held \<union> fst ` set (m_UnUsedUdpPortMap s') = {5000, 5002}"
    using udp_ports_exclusive [OF c r] by simp_all
  then show ?thesis using r h by blast
qed

end
