(* ===== verification/StreamSession.thy ===== *)
theory StreamSession
  imports SvsPrelude
begin

text \<open>
  \<open>svs_adapter_session.cpp\<close>: the base class of every media session of the stream unit.  A session has a status
  that its own operations, the two NAT handlers, the periodic check and the operations of the derived classes move;
  every writer goes through \<open>setStatus\<close>, which locks the object, refuses to leave \<open>ABNORMAL\<close> except for
  \<open>RELEASED\<close>, and refuses to leave \<open>RELEASED\<close> at all.

  The pure virtual operations (\<open>allocMediaPort\<close>, \<open>startMediaPort\<close>, \<open>stopMediaPort\<close>, \<open>setRemoteAddress\<close>,
  \<open>sendStartRequest\<close>, \<open>checkMediaChannelStatus\<close>) belong to the derived classes and act on sockets.  What the base
  class sees of such a call is the value it returns and the calls of \<open>setStatus\<close> it makes, so that is what a call is here: a return code and a list
  of statuses.  \<open>sendStartRequest\<close> is written out for each class; whether the RTP session could send its PLAY request is an argument.  \<open>sendNatResponse\<close> is the function from the message to its return code, and the messages it is called
  with are an output.  \<open>SVS_GetSecondTime\<close> is the argument \<open>now\<close>.
\<close>

section \<open>Data\<close>

datatype STREAM_SESSION_STATUS =
    STREAM_SESSION_STATUS_INIT
  | STREAM_SESSION_STATUS_WAIT_START
  | STREAM_SESSION_STATUS_WAIT_CHANNEL_REDAY
  | STREAM_SESSION_STATUS_RECVED_NAT_REQ
  | STREAM_SESSION_STATUS_DISPATCHING
  | STREAM_SESSION_STATUS_RELEASED
  | STREAM_SESSION_STATUS_ABNORMAL

text \<open>The sources compare statuses by the order of the enumeration.\<close>

primrec status_num :: "STREAM_SESSION_STATUS \<Rightarrow> nat" where
  "status_num STREAM_SESSION_STATUS_INIT = 0"
| "status_num STREAM_SESSION_STATUS_WAIT_START = 1"
| "status_num STREAM_SESSION_STATUS_WAIT_CHANNEL_REDAY = 2"
| "status_num STREAM_SESSION_STATUS_RECVED_NAT_REQ = 3"
| "status_num STREAM_SESSION_STATUS_DISPATCHING = 4"
| "status_num STREAM_SESSION_STATUS_RELEASED = 5"
| "status_num STREAM_SESSION_STATUS_ABNORMAL = 6"

lemma status_num_inj: "status_num a = status_num b \<Longrightarrow> a = b"
  by (cases a; cases b) simp_all

instantiation STREAM_SESSION_STATUS :: linorder
begin

definition less_eq_STREAM_SESSION_STATUS :: "STREAM_SESSION_STATUS \<Rightarrow> STREAM_SESSION_STATUS \<Rightarrow> bool" where
  "a \<le> b \<longleftrightarrow> status_num a \<le> status_num b"

definition less_STREAM_SESSION_STATUS :: "STREAM_SESSION_STATUS \<Rightarrow> STREAM_SESSION_STATUS \<Rightarrow> bool" where
  "a < b \<longleftrightarrow> status_num a < status_num b"

instance
  by standard (auto simp: less_eq_STREAM_SESSION_STATUS_def less_STREAM_SESSION_STATUS_def intro: status_num_inj)

end

lemmas status_ord = less_eq_STREAM_SESSION_STATUS_def less_STREAM_SESSION_STATUS_def

datatype PLAY_TYPE = PLAY_TYPE_LIVE | PLAY_TYPE_PLAT_RECORD | PLAY_TYPE_FRONT_RECORD | PLAY_TYPE_MAX

datatype PEER_TYPE = PEER_TYPE_PU | PEER_TYPE_CU | PEER_TYPE_RECORD | PEER_TYPE_STREAM | PEER_TYPE_MAX

datatype TRANS_DIRECTION =
  TRANS_DIRECTION_RECVONLY | TRANS_DIRECTION_SENDONLY | TRANS_DIRECTION_SENDRECV | TRANS_DIRECTION_MAX

datatype MEDIA_TRANS_TYPE =
    MEDIA_TRANS_TYPE_TCP | MEDIA_TRANS_TYPE_UDP | MEDIA_TRANS_TYPE_SVS | MEDIA_TRANS_TYPE_RTP
  | MEDIA_TRANS_TYPE_PS | MEDIA_TRANS_TYPE_HLS | MEDIA_TRANS_TYPE_RTMP | MEDIA_TRANS_TYPE_MAX

datatype SESSION_TYPE =
  RTP_SESSION | RTSP_SESSION | RTMP_SESSION | HLS_SESSION | EHOME_SESSION | SESSION_TYPE_MAX

datatype TRANS_PROTOCAL = TRANS_PROTOCAL_TCP | TRANS_PROTOCAL_UDP

record SESSION_INFO =
  StreamID :: u64
  PeerType :: PEER_TYPE
  TransProtocol :: TRANS_PROTOCAL
  TransDirection :: TRANS_DIRECTION
  RecvStreamID :: u64
  MediaTransType :: MEDIA_TRANS_TYPE
  SessionType :: SESSION_TYPE
  SpecifyIp :: u32

text \<open>A pointer is the address of an object, or no address.\<close>

type_synonym ptr = "nat option"

record CStreamNatMessage =
  m_pNatPeerSession :: ptr
  m_pRecvHandle :: ptr
  m_szSaftyInfo :: bytes
  m_unMsgSeq :: u32
  m_unLocalIp :: u32
  m_usLocalPort :: u16
  m_unNatIp :: u32
  m_usNatPort :: u16

text \<open>
  The derived class of a session, with the members of it the modelled operations read: the peer an RTP session keeps
  a reference to and the range of its playback.
\<close>

datatype session_class =
    CStreamRtpSession ptr u32 u32 u32
  | CStreamStdRtpSession
  | CStreamRtmpSession
  | CStreamEhomeSession

record CStreamSession =
  m_lReferenceCnt :: int
  m_enSessionStatus :: STREAM_SESSION_STATUS
  m_ulStatusBeginTime :: u32
  m_enPlayType :: PLAY_TYPE
  m_stSessionInfo :: SESSION_INFO
  m_SdpInfo :: string
  m_ulVideoCodeType :: u32
  m_unVedioPT :: u16
  m_unAudioCodecType :: u32
  m_unAudioPT :: u16
  m_unVideoInterleaveNum :: u32
  m_unAudioInterleaveNum :: u32
  m_ullConnStreamID :: u64
  m_strRtspUrl :: string
  m_szContentId :: string
  m_NatMsgList :: "CStreamNatMessage list"
  m_bStartPlayFlag :: bool
  m_class :: session_class

abbreviation (input) CONTENT_ID_LEN :: nat where "CONTENT_ID_LEN \<equiv> 256"
abbreviation (input) STREAM_STATUS_CHECK_INTERVAL :: u32 where "STREAM_STATUS_CHECK_INTERVAL \<equiv> 5"
abbreviation (input) STREAM_STATUS_TIMEOUT_INTERVAL :: u32 where "STREAM_STATUS_TIMEOUT_INTERVAL \<equiv> 30"
abbreviation (input) STREAM_STATUS_ABNORMAL_INTERVAL :: u32 where "STREAM_STATUS_ABNORMAL_INTERVAL \<equiv> 10"

text \<open>
  The constructor.  Members it leaves unset (the play type, the session information) are the arguments \<open>info\<close>
  and \<open>play\<close>: whatever the memory held.
\<close>

definition CStreamSession_new :: "session_class \<Rightarrow> SESSION_INFO \<Rightarrow> PLAY_TYPE \<Rightarrow> u32 \<Rightarrow> CStreamSession" where
  "CStreamSession_new cls info play now =
     \<lparr> m_lReferenceCnt = 1, m_enSessionStatus = STREAM_SESSION_STATUS_INIT, m_ulStatusBeginTime = now,
       m_enPlayType = play, m_stSessionInfo = info, m_SdpInfo = [], m_ulVideoCodeType = 0, m_unVedioPT = 0,
       m_unAudioCodecType = 0, m_unAudioPT = 0, m_unVideoInterleaveNum = 0, m_unAudioInterleaveNum = 2,
       m_ullConnStreamID = 0, m_strRtspUrl = [], m_szContentId = [], m_NatMsgList = [],
       m_bStartPlayFlag = False, m_class = cls \<rparr>"

section \<open>The names of the enumerations\<close>

primrec play_num :: "PLAY_TYPE \<Rightarrow> nat" where
  "play_num PLAY_TYPE_LIVE = 0"
| "play_num PLAY_TYPE_PLAT_RECORD = 1"
| "play_num PLAY_TYPE_FRONT_RECORD = 2"
| "play_num PLAY_TYPE_MAX = 3"

primrec peer_num :: "PEER_TYPE \<Rightarrow> nat" where
  "peer_num PEER_TYPE_PU = 1"
| "peer_num PEER_TYPE_CU = 2"
| "peer_num PEER_TYPE_RECORD = 3"
| "peer_num PEER_TYPE_STREAM = 4"
| "peer_num PEER_TYPE_MAX = 5"

definition name_of :: "string list \<Rightarrow> nat \<Rightarrow> nat \<Rightarrow> string" where
  "name_of tbl dflt k = (if k \<ge> length tbl then tbl ! dflt else tbl ! k)"

definition info_getPlayType :: "nat \<Rightarrow> string" where
  "info_getPlayType =
     name_of [''realtime video'', ''platform playback'', ''front playback'', ''''] (play_num PLAY_TYPE_MAX)"

definition info_getPeerType :: "nat \<Rightarrow> string" where
  "info_getPeerType = name_of [''unkonw'', ''PU'', ''CU'', ''RECORD'', ''STREAM'', ''''] (peer_num PEER_TYPE_MAX)"

definition info_getTransProtocol :: "nat \<Rightarrow> string" where
  "info_getTransProtocol = name_of ['''', ''TCP'', ''UDP''] 0"

text \<open>No table is read out of range, whatever number is asked for.\<close>

lemma name_of_in_table: "dflt < length tbl \<Longrightarrow> name_of tbl dflt k \<in> set tbl"
  by (simp add: name_of_def)

lemma info_names:
  "info_getPlayType k \<in> {''realtime video'', ''platform playback'', ''front playback'', ''''}"
  "info_getPeerType k \<in> {''unkonw'', ''PU'', ''CU'', ''RECORD'', ''STREAM'', ''''}"
  "info_getTransProtocol k \<in> {'''', ''TCP'', ''UDP''}"
  using name_of_in_table [of 3 "[''realtime video'', ''platform playback'', ''front playback'', '''']" k]
    name_of_in_table [of 5 "[''unkonw'', ''PU'', ''CU'', ''RECORD'', ''STREAM'', '''']" k]
    name_of_in_table [of 0 "['''', ''TCP'', ''UDP'']" k]
  by (simp_all add: info_getPlayType_def info_getPeerType_def info_getTransProtocol_def)

section \<open>Status and plain accessors\<close>

definition getStatus :: "CStreamSession \<Rightarrow> STREAM_SESSION_STATUS" where
  "getStatus s = m_enSessionStatus s"

definition setStatus :: "u32 \<Rightarrow> STREAM_SESSION_STATUS \<Rightarrow> CStreamSession \<Rightarrow> CStreamSession" where
  "setStatus now enStatus s =
     (if m_enSessionStatus s = STREAM_SESSION_STATUS_ABNORMAL \<and> enStatus \<noteq> STREAM_SESSION_STATUS_RELEASED then s
      else if m_enSessionStatus s = STREAM_SESSION_STATUS_RELEASED then s
      else s\<lparr>m_enSessionStatus := enStatus, m_ulStatusBeginTime := now\<rparr>)"

definition setSessionId :: "u64 \<Rightarrow> CStreamSession \<Rightarrow> CStreamSession" where
  "setSessionId ullSessionId s = s\<lparr>m_stSessionInfo := (m_stSessionInfo s)\<lparr>StreamID := ullSessionId\<rparr>\<rparr>"

definition getStreamId :: "CStreamSession \<Rightarrow> u64" where
  "getStreamId s = StreamID (m_stSessionInfo s)"

definition getContentID :: "CStreamSession \<Rightarrow> string" where
  "getContentID s = m_szContentId s"

definition setContentID :: "string \<Rightarrow> CStreamSession \<Rightarrow> CStreamSession" where
  "setContentID strContentID s = s\<lparr>m_szContentId := take CONTENT_ID_LEN strContentID\<rparr>"

definition getVideoPayload :: "CStreamSession \<Rightarrow> u8" where
  "getVideoPayload s = ucast (m_unVedioPT s)"

definition getAudioPayload :: "CStreamSession \<Rightarrow> u8" where
  "getAudioPayload s = ucast (m_unAudioPT s)"

definition getPlayType :: "CStreamSession \<Rightarrow> PLAY_TYPE" where
  "getPlayType s = m_enPlayType s"

definition getPeerType :: "CStreamSession \<Rightarrow> PEER_TYPE" where
  "getPeerType s = PeerType (m_stSessionInfo s)"

definition getTransDirection :: "CStreamSession \<Rightarrow> TRANS_DIRECTION" where
  "getTransDirection s = TransDirection (m_stSessionInfo s)"

definition getMediaTransType :: "CStreamSession \<Rightarrow> MEDIA_TRANS_TYPE" where
  "getMediaTransType s = MediaTransType (m_stSessionInfo s)"

text \<open>The counter is an \<open>int32_t\<close>: raising it past the largest value is undefined, here no result.\<close>

definition session_addReference :: "CStreamSession \<Rightarrow> CStreamSession option" where
  "session_addReference s =
     (if m_lReferenceCnt s = 2 ^ 31 - 1 then None else Some (s\<lparr>m_lReferenceCnt := m_lReferenceCnt s + 1\<rparr>))"

definition session_decReference :: "CStreamSession \<Rightarrow> CStreamSession" where
  "session_decReference s = s\<lparr>m_lReferenceCnt := m_lReferenceCnt s - 1\<rparr>"

section \<open>Operations\<close>

type_synonym vcall = "retcode \<times> STREAM_SESSION_STATUS list"

definition run_vcall :: "u32 \<Rightarrow> 'r \<times> STREAM_SESSION_STATUS list \<Rightarrow> CStreamSession \<Rightarrow> 'r \<times> CStreamSession" where
  "run_vcall now v s = (fst v, fold (setStatus now) (snd v) s)"

definition session_init :: "u32 \<Rightarrow> vcall \<Rightarrow> string \<Rightarrow> PLAY_TYPE \<Rightarrow> CStreamSession \<Rightarrow> retcode \<times> CStreamSession" where
  "session_init now allocMediaPort pszContent enPlayType s =
     (if getStatus s \<noteq> STREAM_SESSION_STATUS_INIT then (RET_ERR_STATUS_ABNORMAL, s)
      else let s1 = s\<lparr>m_szContentId := take CONTENT_ID_LEN pszContent, m_enPlayType := enPlayType\<rparr>;
               (r, s2) = run_vcall now allocMediaPort s1
           in if r \<noteq> RET_OK then (RET_FAIL, s2)
              else (RET_OK, setStatus now STREAM_SESSION_STATUS_WAIT_START s2))"

definition session_close :: "u32 \<Rightarrow> vcall \<Rightarrow> CStreamSession \<Rightarrow> CStreamSession" where
  "session_close now stopMediaPort s =
     (if getStatus s = STREAM_SESSION_STATUS_RELEASED then s
      else snd (run_vcall now stopMediaPort (setStatus now STREAM_SESSION_STATUS_RELEASED s)))"

text \<open>
  \<open>initSessionBySdp\<close>: \<open>decodeSdp\<close> is \<open>CMediaSdp::decodeSdp\<close> with the transport direction and the \<open>rtpmap\<close> of
  each video description it found.
\<close>

definition initSessionBySdp ::
    "(string \<Rightarrow> (TRANS_DIRECTION \<times> string list) option) \<Rightarrow> CStreamSession \<Rightarrow> retcode \<times> CStreamSession" where
  "initSessionBySdp decodeSdp s =
     (if length (m_SdpInfo s) = 0 then (RET_OK, s)
      else case decodeSdp (m_SdpInfo s) of
          None \<Rightarrow> (RET_FAIL, s)
        | Some (enTranDirect, vInfoList) \<Rightarrow>
            let s1 = (if enTranDirect \<noteq> TRANS_DIRECTION_MAX
                      then s\<lparr>m_stSessionInfo := (m_stSessionInfo s)\<lparr>TransDirection := enTranDirect\<rparr>\<rparr> else s)
            in (case vInfoList of
                [strRtpmap] \<Rightarrow>
                  let t = (if strRtpmap = ''PS/90000'' then MEDIA_TRANS_TYPE_PS
                           else if strRtpmap = ''H264/90000'' then MEDIA_TRANS_TYPE_RTP
                           else if strRtpmap = ''H265/90000'' then MEDIA_TRANS_TYPE_RTP
                           else MEDIA_TRANS_TYPE_MAX)
                  in (RET_OK, s1\<lparr>m_stSessionInfo := (m_stSessionInfo s1)\<lparr>MediaTransType := t\<rparr>\<rparr>)
              | _ \<Rightarrow> (RET_FAIL, s1)))"

definition session_start ::
    "u32 \<Rightarrow> (string \<Rightarrow> (TRANS_DIRECTION \<times> string list) option) \<Rightarrow> vcall \<Rightarrow> vcall \<Rightarrow> string \<Rightarrow>
     CStreamSession \<Rightarrow> retcode \<times> CStreamSession" where
  "session_start now decodeSdp setRemoteAddress startMediaPort strSdp s =
     (if STREAM_SESSION_STATUS_WAIT_CHANNEL_REDAY \<le> getStatus s then (RET_OK, s)
      else if getStatus s \<noteq> STREAM_SESSION_STATUS_WAIT_START then (RET_ERR_STATUS_ABNORMAL, s)
      else let (r1, s1) = initSessionBySdp decodeSdp (s\<lparr>m_SdpInfo := strSdp\<rparr>)
           in if r1 \<noteq> RET_OK then (RET_FAIL, s1)
              else let (r2, s2) = run_vcall now setRemoteAddress s1
                   in if r2 \<noteq> RET_OK then (RET_FAIL, s2)
                      else let (r3, s3) = run_vcall now startMediaPort s2
                           in if r3 \<noteq> RET_OK then (RET_FAIL, s3)
                              else (RET_OK, setStatus now STREAM_SESSION_STATUS_RECVED_NAT_REQ s3))"

text \<open>The branch of an abnormal session only logs: the release it announces is a TODO of the source.\<close>

definition checkSessionStatus ::
    "u32 \<Rightarrow> bool \<times> STREAM_SESSION_STATUS list \<Rightarrow> CStreamSession \<Rightarrow> CStreamSession" where
  "checkSessionStatus now checkMediaChannelStatus s =
     (let unCostTime = now - m_ulStatusBeginTime s
      in if getStatus s < STREAM_SESSION_STATUS_DISPATCHING
         then (if STREAM_STATUS_TIMEOUT_INTERVAL \<le> unCostTime then setStatus now STREAM_SESSION_STATUS_ABNORMAL s else s)
         else if getStatus s = STREAM_SESSION_STATUS_ABNORMAL then s
         else let (ok, s1) = run_vcall now checkMediaChannelStatus s
              in if \<not> ok then setStatus now STREAM_SESSION_STATUS_ABNORMAL s1 else s1)"

section \<open>NAT requests\<close>

text \<open>
  The messages that wait in the list are answered from the front; \<open>answer_until_fail\<close> is the loop that returns at the
  first answer that fails, with what is left, the messages it tried and whether it got through.
\<close>

fun answer_until_fail ::
    "(CStreamNatMessage \<Rightarrow> retcode) \<Rightarrow> CStreamNatMessage list \<Rightarrow> bool \<times> CStreamNatMessage list \<times> CStreamNatMessage list" where
  "answer_until_fail resp [] = (True, [], [])"
| "answer_until_fail resp (m # ms) =
     (if resp m \<noteq> RET_OK then (False, m # ms, [m])
      else case answer_until_fail resp ms of (ok, rest, tried) \<Rightarrow> (ok, rest, m # tried))"

text \<open>
  \<open>sendStartRequest\<close> of the derived classes: the sessions towards a standard RTSP client and an RTMP client start at once, the
  RTP session sends a PLAY request or nothing, with return code \<open>play\<close>, and the Ehome session does nothing.
\<close>

definition sendStartRequest :: "retcode \<Rightarrow> CStreamSession \<Rightarrow> vcall" where
  "sendStartRequest play s =
     (case m_class s of
        CStreamRtpSession p t a b \<Rightarrow> (play, [])
      | CStreamStdRtpSession \<Rightarrow> (RET_OK, [STREAM_SESSION_STATUS_DISPATCHING])
      | CStreamRtmpSession \<Rightarrow> (RET_OK, [STREAM_SESSION_STATUS_DISPATCHING])
      | CStreamEhomeSession \<Rightarrow> (RET_OK, []))"

definition handleRecvedNatRequest ::
    "u32 \<Rightarrow> retcode \<Rightarrow> (CStreamNatMessage \<Rightarrow> retcode) \<Rightarrow> CStreamSession \<Rightarrow>
     retcode \<times> CStreamSession \<times> CStreamNatMessage list" where
  "handleRecvedNatRequest now play resp s =
     (if STREAM_SESSION_STATUS_DISPATCHING \<le> getStatus s then (RET_OK, s, [])
      else let s1 = snd (run_vcall now (sendStartRequest play s) s)
           in if getStatus s1 \<noteq> STREAM_SESSION_STATUS_RECVED_NAT_REQ then (RET_FAIL, s1, [])
              else case answer_until_fail resp (m_NatMsgList s1) of
                  (ok, rest, tried) \<Rightarrow>
                    if \<not> ok then (RET_FAIL, s1\<lparr>m_NatMsgList := rest\<rparr>, tried)
                    else (RET_OK, setStatus now STREAM_SESSION_STATUS_DISPATCHING (s1\<lparr>m_NatMsgList := rest\<rparr>), tried))"

definition simulateNatReq :: "u32 \<Rightarrow> CStreamSession \<Rightarrow> CStreamSession" where
  "simulateNatReq now s =
     (if getStatus s = STREAM_SESSION_STATUS_RECVED_NAT_REQ
      then setStatus now STREAM_SESSION_STATUS_DISPATCHING s else s)"

text \<open>
  Whom \<open>sendStartStreamRequest\<close> makes send the PLAY request, with the range of the playback: the session itself, its
  peer, or nobody.
\<close>

datatype vcr_request = NoVcr | VcrThis u32 u32 u32 | VcrPeer u32 u32 u32

definition sendStartStreamRequest :: "CStreamSession \<Rightarrow> CStreamSession \<Rightarrow> vcr_request" where
  "sendStartStreamRequest s peer =
     (if getPlayType s = PLAY_TYPE_PLAT_RECORD then NoVcr
      else if getPlayType s = PLAY_TYPE_FRONT_RECORD
      then (if getPeerType s = PEER_TYPE_PU
            then (case m_class s of CStreamRtpSession p t a b \<Rightarrow> VcrThis t a b | _ \<Rightarrow> NoVcr)
            else (case m_class peer of CStreamRtpSession p t a b \<Rightarrow> VcrPeer t a b | _ \<Rightarrow> NoVcr))
      else NoVcr)"

text \<open>
  \<open>handleNatMessage\<close> of session \<open>s\<close> for a message whose \<open>m_pPeerSession\<close> is \<open>peer\<close>.  \<open>mem\<close> is whether the copy
  of the message could be allocated; \<open>peerStart\<close> is the return code of the peer's PLAY request and \<open>peerResp\<close> its
  \<open>sendNatResponse\<close>.  The outputs are the return code, both sessions, the messages answered by the session, those
  answered by the peer, and the PLAY request.
\<close>

record nat_outcome =
  nat_ret :: retcode
  nat_this :: CStreamSession
  nat_peer :: "CStreamSession option"
  nat_sent :: "CStreamNatMessage list"
  nat_peer_sent :: "CStreamNatMessage list"
  nat_vcr :: vcr_request

definition handleNatMessage ::
    "u32 \<Rightarrow> bool \<Rightarrow> retcode \<Rightarrow> (CStreamNatMessage \<Rightarrow> retcode) \<Rightarrow> (CStreamNatMessage \<Rightarrow> retcode) \<Rightarrow> CStreamNatMessage \<Rightarrow>
     CStreamSession \<Rightarrow> CStreamSession option \<Rightarrow> nat_outcome" where
  "handleNatMessage now mem peerStart peerResp resp natMsg s peer =
     (if getStatus s < STREAM_SESSION_STATUS_WAIT_CHANNEL_REDAY
      then \<lparr> nat_ret = RET_FAIL, nat_this = s, nat_peer = peer, nat_sent = [], nat_peer_sent = [], nat_vcr = NoVcr \<rparr>
      else case peer of
        None \<Rightarrow> \<lparr> nat_ret = RET_FAIL, nat_this = s, nat_peer = None, nat_sent = [], nat_peer_sent = [], nat_vcr = NoVcr \<rparr>
      | Some p \<Rightarrow>
          if getStatus s \<noteq> STREAM_SESSION_STATUS_DISPATCHING \<and> getStatus p < STREAM_SESSION_STATUS_RECVED_NAT_REQ
          then (if \<not> mem
                then \<lparr> nat_ret = RET_FAIL, nat_this = s, nat_peer = Some p, nat_sent = [], nat_peer_sent = [],
                       nat_vcr = NoVcr \<rparr>
                else \<lparr> nat_ret = RET_OK,
                       nat_this = setStatus now STREAM_SESSION_STATUS_RECVED_NAT_REQ
                                    (s\<lparr>m_NatMsgList := m_NatMsgList s @ [natMsg]\<rparr>),
                       nat_peer = Some p, nat_sent = [], nat_peer_sent = [], nat_vcr = NoVcr \<rparr>)
          else let (p1, psent) = (if getStatus s \<noteq> STREAM_SESSION_STATUS_DISPATCHING
                                  then snd (handleRecvedNatRequest now peerStart peerResp p) else (p, []))
               in if resp natMsg \<noteq> RET_OK
                  then \<lparr> nat_ret = RET_FAIL, nat_this = s, nat_peer = Some p1, nat_sent = [natMsg],
                         nat_peer_sent = psent, nat_vcr = NoVcr \<rparr>
                  else let s1 = s\<lparr>m_NatMsgList := []\<rparr>; sent = natMsg # m_NatMsgList s
                       in if getStatus s1 \<noteq> STREAM_SESSION_STATUS_DISPATCHING
                          then \<lparr> nat_ret = RET_OK, nat_this = setStatus now STREAM_SESSION_STATUS_DISPATCHING s1,
                                 nat_peer = Some p1, nat_sent = sent, nat_peer_sent = psent,
                                 nat_vcr = sendStartStreamRequest s1 p1 \<rparr>
                          else \<lparr> nat_ret = RET_OK, nat_this = s1, nat_peer = Some p1, nat_sent = sent,
                                 nat_peer_sent = psent, nat_vcr = NoVcr \<rparr>)"

definition handleAudioBroadcastNatMsg ::
    "u32 \<Rightarrow> retcode \<Rightarrow> (CStreamNatMessage \<Rightarrow> retcode) \<Rightarrow> (CStreamNatMessage \<Rightarrow> retcode) \<Rightarrow> CStreamNatMessage \<Rightarrow>
     CStreamSession \<Rightarrow> CStreamSession \<Rightarrow> retcode \<times> CStreamSession \<times> CStreamSession" where
  "handleAudioBroadcastNatMsg now peerStart peerResp resp natMsg s peer =
     (if resp natMsg \<noteq> RET_OK then (RET_FAIL, s, peer)
      else let s1 = setStatus now STREAM_SESSION_STATUS_DISPATCHING s
           in (RET_OK, s1,
               if getPeerType s1 = PEER_TYPE_PU
               then fst (snd (handleRecvedNatRequest now peerStart peerResp peer)) else peer))"

section \<open>The status machine\<close>

text \<open>
  Where the status may go from a given one: nowhere from \<open>RELEASED\<close>, only to \<open>RELEASED\<close> from \<open>ABNORMAL\<close>.
\<close>

definition status_next :: "STREAM_SESSION_STATUS \<Rightarrow> STREAM_SESSION_STATUS \<Rightarrow> bool" where
  "status_next a b \<longleftrightarrow>
     b = a \<or> a \<noteq> STREAM_SESSION_STATUS_RELEASED \<and> (a = STREAM_SESSION_STATUS_ABNORMAL \<longrightarrow> b = STREAM_SESSION_STATUS_RELEASED)"

lemma status_next_refl [simp]: "status_next a a"
  by (simp add: status_next_def)

lemma status_next_trans [trans]: "status_next a b \<Longrightarrow> status_next b c \<Longrightarrow> status_next a c"
  by (auto simp: status_next_def)

lemma status_next_from:
  "status_next STREAM_SESSION_STATUS_RELEASED b \<longleftrightarrow> b = STREAM_SESSION_STATUS_RELEASED"
  "status_next STREAM_SESSION_STATUS_ABNORMAL b \<longleftrightarrow>
     b = STREAM_SESSION_STATUS_ABNORMAL \<or> b = STREAM_SESSION_STATUS_RELEASED"
  by (auto simp: status_next_def)

lemma getStatus_update [simp]:
  "getStatus (s\<lparr>m_enSessionStatus := e\<rparr>) = e" "getStatus (s\<lparr>m_ulStatusBeginTime := now\<rparr>) = getStatus s"
  "getStatus (s\<lparr>m_NatMsgList := ms\<rparr>) = getStatus s" "getStatus (s\<lparr>m_SdpInfo := x\<rparr>) = getStatus s"
  "getStatus (s\<lparr>m_szContentId := x\<rparr>) = getStatus s" "getStatus (s\<lparr>m_enPlayType := y\<rparr>) = getStatus s"
  "getStatus (s\<lparr>m_stSessionInfo := i\<rparr>) = getStatus s" "getStatus (s\<lparr>m_lReferenceCnt := n\<rparr>) = getStatus s"
  by (simp_all add: getStatus_def)

named_theorems status_moves "every operation moves the status along status_next"

lemma setStatus_next [status_moves]: "status_next (getStatus s) (getStatus (setStatus now e s))"
  by (auto simp: setStatus_def status_next_def getStatus_def)

lemma fold_setStatus_next [status_moves]: "status_next (getStatus s) (getStatus (fold (setStatus now) es s))"
proof (induction es arbitrary: s)
  case (Cons e es)
  show ?case using status_next_trans [OF setStatus_next Cons.IH] by simp
qed simp

lemma run_vcall_next [status_moves]: "run_vcall now v s = (r, t) \<Longrightarrow> status_next (getStatus s) (getStatus t)"
  using fold_setStatus_next by (auto simp: run_vcall_def)

lemma session_init_next [status_moves]: "status_next (getStatus s) (getStatus (snd (session_init now v c p s)))"
proof -
  define s1 where "s1 = s\<lparr>m_szContentId := take CONTENT_ID_LEN c, m_enPlayType := p\<rparr>"
  obtain r s2 where v: "run_vcall now v s1 = (r, s2)" by fastforce
  have "status_next (getStatus s) (getStatus s2)" using run_vcall_next [OF v] by (simp add: s1_def)
  then show ?thesis
    using v status_next_trans [OF _ setStatus_next] by (auto simp: session_init_def s1_def Let_def)
qed

lemma session_close_released: "getStatus (session_close now v s) = STREAM_SESSION_STATUS_RELEASED"
proof -
  have "getStatus (setStatus now STREAM_SESSION_STATUS_RELEASED s) = STREAM_SESSION_STATUS_RELEASED"
    by (simp add: setStatus_def getStatus_def)
  then show ?thesis
    using fold_setStatus_next [of "setStatus now STREAM_SESSION_STATUS_RELEASED s" now "snd v"]
    by (simp add: session_close_def run_vcall_def status_next_from)
qed

lemma session_close_next [status_moves]: "status_next (getStatus s) (getStatus (session_close now v s))"
  unfolding session_close_released status_next_def by auto

lemma initSessionBySdp_status: "initSessionBySdp d s = (r, t) \<Longrightarrow> getStatus t = getStatus s"
  by (auto simp: initSessionBySdp_def Let_def split: if_splits option.splits list.splits)

lemma session_start_next [status_moves]: "status_next (getStatus s) (getStatus (snd (session_start now d a b x s)))"
proof -
  obtain r1 s1 where 1: "initSessionBySdp d (s\<lparr>m_SdpInfo := x\<rparr>) = (r1, s1)" by fastforce
  obtain r2 s2 where 2: "run_vcall now a s1 = (r2, s2)" by fastforce
  obtain r3 s3 where 3: "run_vcall now b s2 = (r3, s3)" by fastforce
  have s1: "status_next (getStatus s) (getStatus s1)" using initSessionBySdp_status [OF 1] by simp
  moreover have s2: "status_next (getStatus s) (getStatus s2)" using s1 run_vcall_next [OF 2] status_next_trans by blast
  moreover have s3: "status_next (getStatus s) (getStatus s3)" using s2 run_vcall_next [OF 3] status_next_trans by blast
  moreover have "status_next (getStatus s) (getStatus (setStatus now STREAM_SESSION_STATUS_RECVED_NAT_REQ s3))"
    using status_next_trans [OF s3 setStatus_next] .
  ultimately show ?thesis using 1 2 3 by (auto simp: session_start_def)
qed

lemma checkSessionStatus_next [status_moves]: "status_next (getStatus s) (getStatus (checkSessionStatus now v s))"
proof -
  obtain ok s1 where v: "run_vcall now v s = (ok, s1)" by fastforce
  show ?thesis
    using v run_vcall_next [OF v] status_next_trans [OF _ setStatus_next] setStatus_next
    by (simp add: checkSessionStatus_def Let_def)
qed

lemma handleRecvedNatRequest_next [status_moves]:
  "status_next (getStatus s) (getStatus (fst (snd (handleRecvedNatRequest now v resp s))))"
proof -
  obtain r s1 where v: "run_vcall now (sendStartRequest v s) s = (r, s1)" by fastforce
  obtain ok rest tried where a: "answer_until_fail resp (m_NatMsgList s1) = (ok, rest, tried)"
    using prod_cases3 by blast
  have "status_next (getStatus s1) (getStatus (setStatus now STREAM_SESSION_STATUS_DISPATCHING (s1\<lparr>m_NatMsgList := rest\<rparr>)))"
    using setStatus_next [of "s1\<lparr>m_NatMsgList := rest\<rparr>"] by simp
  then show ?thesis
    using v a run_vcall_next [OF v] status_next_trans by (auto simp: handleRecvedNatRequest_def Let_def)
qed

lemma simulateNatReq_next [status_moves]: "status_next (getStatus s) (getStatus (simulateNatReq now s))"
  using setStatus_next [of s now STREAM_SESSION_STATUS_DISPATCHING] by (auto simp: simulateNatReq_def)

lemma handleNatMessage_next [status_moves]:
  "status_next (getStatus s) (getStatus (nat_this (handleNatMessage now mem ps pr resp m s peer)))"
  "nat_peer (handleNatMessage now mem ps pr resp m s (Some p)) = Some p' \<Longrightarrow> status_next (getStatus p) (getStatus p')"
proof -
  have set: "status_next (getStatus s) (getStatus (setStatus now e (s\<lparr>m_NatMsgList := ms\<rparr>)))" for e ms
    using setStatus_next [of "s\<lparr>m_NatMsgList := ms\<rparr>"] by simp
  then show "status_next (getStatus s) (getStatus (nat_this (handleNatMessage now mem ps pr resp m s peer)))"
    by (auto simp: handleNatMessage_def Let_def split: option.splits prod.splits)
  show "status_next (getStatus p) (getStatus p')"
    if "nat_peer (handleNatMessage now mem ps pr resp m s (Some p)) = Some p'"
    using that handleRecvedNatRequest_next [of p now ps pr]
    by (auto simp: handleNatMessage_def Let_def split: if_splits prod.splits)
qed

lemma handleAudioBroadcastNatMsg_next [status_moves]:
  assumes "handleAudioBroadcastNatMsg now ps pr resp m s p = (r, s', p')"
  shows "status_next (getStatus s) (getStatus s')" "status_next (getStatus p) (getStatus p')"
  using assms setStatus_next [of s] handleRecvedNatRequest_next [of p now ps pr]
  by (auto simp: handleAudioBroadcastNatMsg_def Let_def split: if_splits)

text \<open>
  Everything that may happen to a session: its operations, the same operations as the peer of another session, and a
  \<open>setStatus\<close> from a derived class.
\<close>

inductive session_step :: "CStreamSession \<Rightarrow> CStreamSession \<Rightarrow> bool" where
  init: "session_step s (snd (session_init now v c play s))"
| close: "session_step s (session_close now v s)"
| start: "session_step s (snd (session_start now d v v' sdp s))"
| check: "session_step s (checkSessionStatus now w s)"
| recved: "session_step s (fst (snd (handleRecvedNatRequest now v resp s)))"
| simulate: "session_step s (simulateNatReq now s)"
| nat_own: "session_step s (nat_this (handleNatMessage now mem v presp resp m s peer))"
| nat_as_peer: "nat_peer (handleNatMessage now mem v presp resp m q (Some s)) = Some s' \<Longrightarrow> session_step s s'"
| audio_own: "handleAudioBroadcastNatMsg now v presp resp m s p = (r, s', p') \<Longrightarrow> session_step s s'"
| audio_as_peer: "handleAudioBroadcastNatMsg now v presp resp m q s = (r, q', s') \<Longrightarrow> session_step s s'"
| derived: "session_step s (setStatus now e s)"

lemma session_step_next: "session_step s t \<Longrightarrow> status_next (getStatus s) (getStatus t)"
  by (induction rule: session_step.induct) (simp_all add: status_moves)

lemma session_steps_next: "session_step\<^sup>*\<^sup>* s t \<Longrightarrow> status_next (getStatus s) (getStatus t)"
  by (induction rule: rtranclp_induct) (blast intro: session_step_next status_next_trans status_next_refl)+

text \<open>
  C30. A closed session is finished: after \<open>close\<close>, no sequence of operations on it, as itself or as the peer of another
  session, and no status change of a derived class, moves it out of \<open>RELEASED\<close>.  A session that has become
  \<open>ABNORMAL\<close> never works again: the only status it can still get is \<open>RELEASED\<close>.
\<close>

theorem session_status_final:
  "(session_step\<^sup>*\<^sup>* (session_close now v s) t \<longrightarrow> getStatus t = STREAM_SESSION_STATUS_RELEASED) \<and>
   (getStatus a = STREAM_SESSION_STATUS_ABNORMAL \<longrightarrow> session_step\<^sup>*\<^sup>* a b \<longrightarrow>
      getStatus b = STREAM_SESSION_STATUS_ABNORMAL \<or> getStatus b = STREAM_SESSION_STATUS_RELEASED)"
  using session_steps_next [of "session_close now v s" t] session_steps_next [of a b]
  by (auto simp: session_close_released status_next_from)

definition session_a :: CStreamSession where
  "session_a = CStreamSession_new CStreamStdRtpSession
     \<lparr> StreamID = 7, PeerType = PEER_TYPE_CU, TransProtocol = TRANS_PROTOCAL_TCP, TransDirection = TRANS_DIRECTION_SENDONLY,
       RecvStreamID = 3, MediaTransType = MEDIA_TRANS_TYPE_RTP, SessionType = RTSP_SESSION, SpecifyIp = 0 \<rparr>
     PLAY_TYPE_LIVE 1000"

theorem session_status_final_witness:
  "getStatus (setStatus 5 STREAM_SESSION_STATUS_DISPATCHING (session_close 4 (RET_OK, []) session_a))
     = STREAM_SESSION_STATUS_RELEASED \<and>
   (let b = setStatus 6 STREAM_SESSION_STATUS_DISPATCHING (setStatus 5 STREAM_SESSION_STATUS_ABNORMAL session_a)
    in getStatus b = STREAM_SESSION_STATUS_ABNORMAL \<or> getStatus b = STREAM_SESSION_STATUS_RELEASED)"
proof -
  have steps: "session_step\<^sup>*\<^sup>* s (setStatus now e s)" for s now e by (simp add: session_step.derived r_into_rtranclp)
  have abn: "getStatus (setStatus 5 STREAM_SESSION_STATUS_ABNORMAL session_a) = STREAM_SESSION_STATUS_ABNORMAL"
    by (simp add: session_a_def CStreamSession_new_def setStatus_def getStatus_def)
  show ?thesis
    unfolding Let_def using session_status_final steps abn by blast
qed

section \<open>Timeouts\<close>

lemma check_stalled:
  assumes "getStatus s < STREAM_SESSION_STATUS_DISPATCHING"
  shows "checkSessionStatus now w s =
    (if 30 \<le> now - m_ulStatusBeginTime s
     then s\<lparr>m_enSessionStatus := STREAM_SESSION_STATUS_ABNORMAL, m_ulStatusBeginTime := now\<rparr> else s)"
  using assms by (cases "m_enSessionStatus s")
    (auto simp: checkSessionStatus_def setStatus_def getStatus_def status_ord)

lemma checks_abnormal:
  "getStatus s = STREAM_SESSION_STATUS_ABNORMAL \<Longrightarrow> fold (\<lambda>(t, w). checkSessionStatus t w) cs s = s"
  by (induction cs) (auto simp: checkSessionStatus_def status_ord)

text \<open>
  C31. A session that gets stuck on its way to \<open>DISPATCHING\<close> is found out by the periodic checks.  Let the
  checks run at any times \<open>t\<close> while nothing else happens to it.  If one of them runs at least 30 seconds after the
  status began (as the 32-bit clock counts, wrap-around included) the session ends up \<open>ABNORMAL\<close>; if none does, the
  checks change nothing of it.  The check of the media channel is never asked for.
\<close>

theorem stalled_session_times_out:
  assumes "getStatus s < STREAM_SESSION_STATUS_DISPATCHING"
  shows "if \<exists>c \<in> set cs. 30 \<le> fst c - m_ulStatusBeginTime s
    then getStatus (fold (\<lambda>(t, w). checkSessionStatus t w) cs s) = STREAM_SESSION_STATUS_ABNORMAL
    else fold (\<lambda>(t, w). checkSessionStatus t w) cs s = s"
  using assms by (induction cs) (force simp: check_stalled checks_abnormal)+

theorem stalled_session_times_out_witness:
  "getStatus (fold (\<lambda>(t, w). checkSessionStatus t w) [(1005, (True, [])), (1029, (True, [])), (1030, (True, []))] session_a)
     = STREAM_SESSION_STATUS_ABNORMAL \<and>
   fold (\<lambda>(t, w). checkSessionStatus t w) [(1005, (True, [])), (1029, (True, []))] session_a = session_a"
  using stalled_session_times_out [of session_a "[(1005, (True, [])), (1029, (True, [])), (1030, (True, []))]"]
    stalled_session_times_out [of session_a "[(1005, (True, [])), (1029, (True, []))]"]
  by (simp add: session_a_def CStreamSession_new_def getStatus_def status_ord)

section \<open>The NAT handshake\<close>

lemma answer_all: "(\<And>m. m \<in> set ms \<Longrightarrow> resp m = RET_OK) \<Longrightarrow> answer_until_fail resp ms = (True, [], ms)"
  by (induction ms) auto

text \<open>A request that finds its peer not ready waits in the list.\<close>

lemma nat_waits:
  assumes "getStatus s = STREAM_SESSION_STATUS_RECVED_NAT_REQ" and "getStatus p < STREAM_SESSION_STATUS_RECVED_NAT_REQ"
  shows "nat_this (handleNatMessage now True v presp resp m s (Some p)) =
    s\<lparr>m_NatMsgList := m_NatMsgList s @ [m], m_enSessionStatus := STREAM_SESSION_STATUS_RECVED_NAT_REQ, m_ulStatusBeginTime := now\<rparr>"
    and "nat_sent (handleNatMessage now True v presp resp m s (Some p)) = []"
    and "nat_peer (handleNatMessage now True v presp resp m s (Some p)) = Some p"
  using assms by (auto simp: handleNatMessage_def setStatus_def getStatus_def status_ord)

lemma nat_all_wait:
  assumes "getStatus p < STREAM_SESSION_STATUS_RECVED_NAT_REQ" and "getStatus s = STREAM_SESSION_STATUS_RECVED_NAT_REQ"
  shows "\<exists>t0. fold (\<lambda>(t, m) s. nat_this (handleNatMessage t True v presp resp m s (Some p))) ms s =
    s\<lparr>m_NatMsgList := m_NatMsgList s @ map snd ms, m_ulStatusBeginTime := t0\<rparr>"
  using assms(2)
proof (induction ms arbitrary: s)
  case Nil
  then show ?case by (intro exI [of _ "m_ulStatusBeginTime s"]) simp
next
  case (Cons x ms)
  obtain t m where x: "x = (t, m)" by fastforce
  have "nat_this (handleNatMessage t True v presp resp m s (Some p)) = s\<lparr>m_NatMsgList := m_NatMsgList s @ [m], m_ulStatusBeginTime := t\<rparr>"
    using nat_waits(1) [OF Cons.prems assms(1)] Cons.prems by (simp add: getStatus_def)
  then show ?case
    using Cons.IH [of "nat_this (handleNatMessage t True v presp resp m s (Some p))"] Cons.prems unfolding x by simp
qed

lemma sdp_class:
  "initSessionBySdp d s = (r, t) \<Longrightarrow> m_class t = m_class s \<and> m_NatMsgList t = m_NatMsgList s \<and> m_enSessionStatus t = m_enSessionStatus s"
  by (auto simp: initSessionBySdp_def Let_def split: if_splits option.splits list.splits)

lemma started_rtp:
  assumes "getStatus s = STREAM_SESSION_STATUS_WAIT_START" and "session_start now d (r, []) (r', []) sdp s = (RET_OK, t)"
  shows "getStatus t = STREAM_SESSION_STATUS_RECVED_NAT_REQ \<and> m_class t = m_class s \<and> m_NatMsgList t = m_NatMsgList s"
  using assms sdp_class [of d "s\<lparr>m_SdpInfo := sdp\<rparr>"]
  by (auto simp: session_start_def run_vcall_def setStatus_def getStatus_def status_ord split: prod.splits if_splits)

text \<open>
  C32. The handshake of two RTP sessions, the class whose messages come to \<open>handleNatMessage\<close>.  Both wait for their start, and
  their virtual calls set no status.  Session \<open>s\<close> is started and gets NAT requests \<open>ms\<close>, each at its time, while its peer
  \<open>p\<close> is not started: there is memory for them, so all wait in order and the session stays where its start left it.  Then the peer is
  started and gets a request \<open>q\<close> of its own, with nothing else in between: it makes \<open>s\<close> answer all of \<open>ms\<close>, in the order they came, answers \<open>q\<close>, and both sessions are
  \<open>DISPATCHING\<close> with no request left waiting.  The answers are assumed to be sent; whether \<open>s\<close> can send its PLAY request does not matter.
\<close>

theorem nat_handshake:
  fixes mem :: bool and play play' :: retcode and tq :: u32
  assumes "m_class s0 = CStreamRtpSession a b c d" and "getStatus s0 = STREAM_SESSION_STATUS_WAIT_START" and "m_NatMsgList s0 = []"
    and "m_class p0 = CStreamRtpSession a' b' c' d'" and "getStatus p0 = STREAM_SESSION_STATUS_WAIT_START" and "m_NatMsgList p0 = []"
    and "session_start t1 dec (RET_OK, []) (RET_OK, []) sdp s0 = (RET_OK, s)"
    and "session_start t2 dec (RET_OK, []) (RET_OK, []) sdp' p0 = (RET_OK, p)"
    and "\<And>m. m \<in> snd ` set ms \<Longrightarrow> resp m = RET_OK" and "presp q = RET_OK"
  defines "s1 \<equiv> fold (\<lambda>(t, m) s. nat_this (handleNatMessage t True play' presp resp m s (Some p0))) ms s"
  defines "out \<equiv> handleNatMessage tq mem play resp presp q p (Some s1)"
  shows "getStatus s1 = STREAM_SESSION_STATUS_RECVED_NAT_REQ \<and> m_NatMsgList s1 = map snd ms \<and>
    nat_ret out = RET_OK \<and> nat_peer_sent out = map snd ms \<and> nat_sent out = [q] \<and>
    getStatus (nat_this out) = STREAM_SESSION_STATUS_DISPATCHING \<and> m_NatMsgList (nat_this out) = [] \<and>
    (\<exists>s2. nat_peer out = Some s2 \<and> getStatus s2 = STREAM_SESSION_STATUS_DISPATCHING \<and> m_NatMsgList s2 = [])"
proof -
  have s: "getStatus s = STREAM_SESSION_STATUS_RECVED_NAT_REQ" "m_class s = CStreamRtpSession a b c d" "m_NatMsgList s = []"
    and p: "getStatus p = STREAM_SESSION_STATUS_RECVED_NAT_REQ" "m_NatMsgList p = []"
    using started_rtp [OF assms(2,7)] started_rtp [OF assms(5,8)] assms(1,3,6) by simp_all
  obtain t0 where s1: "s1 = s\<lparr>m_NatMsgList := map snd ms, m_ulStatusBeginTime := t0\<rparr>"
    using nat_all_wait [of p0 s play' presp resp ms] s assms(5) unfolding s1_def by (auto simp: status_ord)
  have "handleRecvedNatRequest tq play resp s1 =
      (RET_OK, s1\<lparr>m_NatMsgList := [], m_enSessionStatus := STREAM_SESSION_STATUS_DISPATCHING, m_ulStatusBeginTime := tq\<rparr>, map snd ms)"
    using answer_all [of "map snd ms" resp] assms(9) s
    by (simp add: s1 handleRecvedNatRequest_def sendStartRequest_def run_vcall_def setStatus_def getStatus_def status_ord)
  then have out: "nat_ret out = RET_OK \<and> nat_sent out = [q] \<and> nat_peer_sent out = map snd ms \<and>
      nat_this out = p\<lparr>m_NatMsgList := [], m_enSessionStatus := STREAM_SESSION_STATUS_DISPATCHING, m_ulStatusBeginTime := tq\<rparr> \<and>
      nat_peer out = Some (s1\<lparr>m_NatMsgList := [], m_enSessionStatus := STREAM_SESSION_STATUS_DISPATCHING, m_ulStatusBeginTime := tq\<rparr>)"
    using p s(1) assms(10)
    by (simp add: out_def handleNatMessage_def setStatus_def getStatus_def status_ord s1 Let_def split: prod.splits)
  show ?thesis
    using s(1) by (simp add: out s1)
qed

definition nat_msg :: "u32 \<Rightarrow> CStreamNatMessage" where
  "nat_msg n = \<lparr> m_pNatPeerSession = None, m_pRecvHandle = None, m_szSaftyInfo = [], m_unMsgSeq = n, m_unLocalIp = 0,
     m_usLocalPort = 0, m_unNatIp = 0, m_usNatPort = 0 \<rparr>"

definition session_r :: CStreamSession where
  "session_r = snd (session_init 1000 (RET_OK, []) ''cam'' PLAY_TYPE_LIVE (session_a\<lparr>m_class := CStreamRtpSession None 0 0 0\<rparr>))"

lemma session_r_start:
  "m_class session_r = CStreamRtpSession None 0 0 0" "getStatus session_r = STREAM_SESSION_STATUS_WAIT_START" "m_NatMsgList session_r = []"
  "\<exists>s. session_start t dec (RET_OK, []) (RET_OK, []) [] session_r = (RET_OK, s)"
  by (simp_all add: session_r_def session_a_def CStreamSession_new_def session_init_def session_start_def initSessionBySdp_def run_vcall_def
      setStatus_def getStatus_def status_ord)

theorem nat_handshake_witness:
  "let s = snd (session_start 1001 (\<lambda>_. None) (RET_OK, []) (RET_OK, []) [] session_r);
       p = snd (session_start 1005 (\<lambda>_. None) (RET_OK, []) (RET_OK, []) [] session_r);
       s1 = fold (\<lambda>(t, m) s'. nat_this (handleNatMessage t True RET_OK (\<lambda>_. RET_OK) (\<lambda>_. RET_OK) m s' (Some session_r)))
              [(1002, nat_msg 1), (1003, nat_msg 2)] s;
       out = handleNatMessage 1006 True RET_FAIL (\<lambda>_. RET_OK) (\<lambda>_. RET_OK) (nat_msg 3) p (Some s1)
   in nat_peer_sent out = [nat_msg 1, nat_msg 2] \<and> nat_sent out = [nat_msg 3] \<and>
      getStatus (nat_this out) = STREAM_SESSION_STATUS_DISPATCHING"
proof -
  obtain s p where sp: "session_start 1001 (\<lambda>_. None) (RET_OK, []) (RET_OK, []) [] session_r = (RET_OK, s)"
      "session_start 1005 (\<lambda>_. None) (RET_OK, []) (RET_OK, []) [] session_r = (RET_OK, p)"
    using session_r_start(4) by blast
  show ?thesis
    using nat_handshake [OF session_r_start(1-3) session_r_start(1-3) sp, where ms = "[(1002, nat_msg 1), (1003, nat_msg 2)]"
        and resp = "\<lambda>_. RET_OK" and presp = "\<lambda>_. RET_OK" and q = "nat_msg 3" and play' = RET_OK and play = RET_FAIL and tq = 1006 and mem = True]
    by (simp add: Let_def sp)
qed

end
