(* ===== verification/RefStore.thy ===== *)
theory RefStore
  imports StdMap "HOL-Library.Multiset"
begin

text \<open>
  The contract of a table of reference-counted objects, as the session factory and the business manager have it: a
  lookup that finds an object gives its caller a reference, and a reference is given back once.  The state of a table
  is consistent relative to the multiset of references its clients hold.  The counters are \<open>int32_t\<close>, so a lookup
  promises a result only below the limit; \<open>load\<close> bounds the references the objects of the table hold themselves.
  The clients' lemmas below are proved once for both tables.
\<close>

definition opt_mset :: "'p option \<Rightarrow> 'p multiset" where
  "opt_mset r = (case r of None \<Rightarrow> {#} | Some p \<Rightarrow> {#p#})"

lemma opt_mset_simps [simp]: "opt_mset None = {#}" "opt_mset (Some p) = {#p#}"
  by (simp_all add: opt_mset_def)

text \<open>The references the objects of a heap hold: \<open>g\<close> gives those of one object.\<close>

definition heap_refs :: "('v \<Rightarrow> 'p multiset) \<Rightarrow> ('k, 'v) stdmap \<Rightarrow> 'p multiset" where
  "heap_refs g h = sum_list (map (\<lambda>e. g (snd e)) h)"

lemma heap_refs_simps: "heap_refs g [] = {#}" "heap_refs g (e # h) = g (snd e) + heap_refs g h"
  by (simp_all add: heap_refs_def)

lemma heap_refs_erase:
  assumes "sm_inv h" "map_of h a = Some s"
  shows "heap_refs g h = g s + heap_refs g (sm_erase a h)"
  using assms
proof (induction h)
  case (Cons e h)
  obtain b t where e: "e = (b, t)" by (cases e)
  show ?case
  proof (cases "b = a")
    case True
    then have "map_of h a = None" using Cons.prems e by (intro map_of_smaller [of h b a]) auto
    then show ?thesis using True Cons.prems e by (simp add: sm_erase_Cons sm_erase_absent heap_refs_simps)
  next
    case False
    then show ?thesis using Cons e by (simp add: sm_erase_Cons heap_refs_simps)
  qed
qed simp

lemma heap_refs_assign:
  assumes "sm_inv h" shows "heap_refs g (sm_assign a s h) = g s + heap_refs g (sm_erase a h)"
  using heap_refs_erase [of "sm_assign a s h" a s] assms
  by (simp add: sm_inv_assign map_of_sm_assign sm_erase_assign)

lemma heap_refs_insert:
  assumes "sm_inv h" "map_of h a = None" shows "heap_refs g (sm_insert a s h) = g s + heap_refs g h"
proof -
  have "sm_erase a (sm_insert a s h) = sm_erase a h"
    using assms(2) by (induction a s h rule: sm_insert.induct) (auto simp: sm_erase_def split: if_splits)
  then show ?thesis
    using heap_refs_erase [of "sm_insert a s h" a s] assms
    by (simp add: sm_inv_insert map_of_sm_insert sm_erase_absent)
qed

lemma heap_refs_same:
  assumes "sm_inv h" "map_of h a = Some s" "g s' = g s"
  shows "heap_refs g (sm_assign a s' h) = heap_refs g h"
  using assms by (simp add: heap_refs_assign heap_refs_erase [of h a s g])

lemma size_heap_refs: "(\<And>x. size (g x) \<le> n) \<Longrightarrow> size (heap_refs g h) \<le> n * length h"
proof (induction h)
  case (Cons e h)
  then show ?case using add_mono [OF Cons.prems [of "snd e"] Cons.IH] by (simp add: heap_refs_simps)
qed (simp add: heap_refs_simps)

section \<open>The contract\<close>

locale ref_store =
  fixes inv :: "'s \<Rightarrow> 'p multiset \<Rightarrow> bool" and load :: "'s \<Rightarrow> nat"
    and acquire :: "'k \<Rightarrow> 's \<Rightarrow> ('p option \<times> 's) option" and release :: "'p \<Rightarrow> 's \<Rightarrow> 's option"
  assumes acquire_ok: "inv s R \<Longrightarrow> size R + load s < 2 ^ 31 - 1 \<Longrightarrow>
      \<exists>r s'. acquire k s = Some (r, s') \<and> inv s' (R + opt_mset r) \<and> load s' = load s"
    and release_ok: "inv s (add_mset p R) \<Longrightarrow> \<exists>s'. release p s = Some s' \<and> inv s' R \<and> load s' \<le> load s"
begin

fun release_all :: "'p list \<Rightarrow> 's \<Rightarrow> 's option" where
  "release_all [] s = Some s"
| "release_all (p # ps) s = (case release p s of None \<Rightarrow> None | Some s' \<Rightarrow> release_all ps s')"

lemma release_all_ok:
  "inv s (R + mset ps) \<Longrightarrow> \<exists>s'. release_all ps s = Some s' \<and> inv s' R \<and> load s' \<le> load s"
proof (induction ps arbitrary: s)
  case (Cons p ps)
  obtain s1 where s1: "release p s = Some s1" "inv s1 (R + mset ps)" "load s1 \<le> load s"
    using release_ok [of s p "R + mset ps"] Cons.prems by auto
  obtain s2 where "release_all ps s1 = Some s2" "inv s2 R" "load s2 \<le> load s1" using Cons.IH [OF s1(2)] by blast
  then show ?case using s1 by auto
qed simp

text \<open>A lookup whose reference is given back at once leaves the clients' references as they were.\<close>

lemma acquire_release:
  assumes "inv s R" "size R + load s < 2 ^ 31 - 1" "acquire k s = Some (Some p, s1)"
  shows "\<exists>s2. release p s1 = Some s2 \<and> inv s2 R"
proof -
  have "inv s1 (add_mset p R)" using acquire_ok [OF assms(1,2), of k] assms(3) by auto
  then show ?thesis using release_ok by blast
qed

text \<open>Two lookups in a row, as a business does for its two sessions.\<close>

lemma acquire2_ok:
  assumes "inv s R" "size R + load s < 2 ^ 31 - 2"
  shows "\<exists>r1 s1. acquire k s = Some (r1, s1) \<and> inv s1 (R + opt_mset r1) \<and> load s1 = load s \<and>
    (\<exists>r2 s2. acquire k' s1 = Some (r2, s2) \<and> inv s2 (R + opt_mset r1 + opt_mset r2) \<and> load s2 = load s)"
proof -
  obtain r1 s1 where s1: "acquire k s = Some (r1, s1)" "inv s1 (R + opt_mset r1)" "load s1 = load s"
    using acquire_ok [OF assms(1), of k] assms(2) by auto
  have "size (opt_mset r1) \<le> 1" by (cases r1) simp_all
  then obtain r2 s2 where "acquire k' s1 = Some (r2, s2)" "inv s2 (R + opt_mset r1 + opt_mset r2)" "load s2 = load s1"
    using acquire_ok [OF s1(2), of k'] assms(2) s1(3) by auto
  then show ?thesis using s1 by simp
qed

end

end
