(* ===== verification/SessionFactory.thy ===== *)
theory SessionFactory
  imports StreamSession StdMap RefStore "HOL-Library.Multiset" "HOL-Library.List_Lexorder" "HOL-Library.Char_ord"
begin

text \<open>
  \<open>svs_adapter_session_factory.cpp\<close>: the table of the media sessions, and the reference counts that decide when a
  session is deleted.  Every operation of the factory runs under \<open>m_SessionMapMutex\<close>, so the operations of the threads
  of the server are a sequence.

  The sessions live in an explicit heap, from addresses to objects.  An operation that reads or writes a session at an
  address with no object, or raises a counter past the largest \<open>int32_t\<close>, has no result: that is undefined behaviour
  of the program, and the theorems show that it does not occur.  \<open>new\<close> returns the address given as an argument; the
  allocator only promises that no object is there.  A session that is deleted is recorded in \<open>deleted\<close> with its last
  state.  \<open>stop\<close> stands for the \<open>stopMediaPort\<close> of each session.
\<close>

section \<open>Multimaps\<close>

text \<open>
  \<open>std::multimap\<close> as a list of pairs in the order of the keys: \<open>insert\<close> puts a pair behind the ones with the same
  key, \<open>find\<close> is the iterator at the first of them, that is the rest of the list from there.
\<close>

type_synonym ('k, 'v) stdmultimap = "('k \<times> 'v) list"

fun mm_insert :: "'k::linorder \<Rightarrow> 'v \<Rightarrow> ('k, 'v) stdmultimap \<Rightarrow> ('k, 'v) stdmultimap" where
  "mm_insert k v [] = [(k, v)]"
| "mm_insert k v ((l, w) # m) = (if k < l then (k, v) # (l, w) # m else (l, w) # mm_insert k v m)"

definition mm_find :: "'k \<Rightarrow> ('k, 'v) stdmultimap \<Rightarrow> ('k, 'v) stdmultimap" where
  "mm_find k m = dropWhile (\<lambda>e. fst e \<noteq> k) m"

definition mm_before :: "'k \<Rightarrow> ('k, 'v) stdmultimap \<Rightarrow> ('k, 'v) stdmultimap" where
  "mm_before k m = takeWhile (\<lambda>e. fst e \<noteq> k) m"

text \<open>The pair that is erased by a loop from an iterator on: the first one that satisfies the test.\<close>

fun erase_first :: "('a \<Rightarrow> bool) \<Rightarrow> 'a list \<Rightarrow> 'a list" where
  "erase_first P [] = []"
| "erase_first P (x # xs) = (if P x then xs else x # erase_first P xs)"

lemma mset_mm_insert: "mset (mm_insert k v m) = add_mset (k, v) (mset m)"
  by (induction k v m rule: mm_insert.induct) simp_all

lemma sorted_mm_insert: "sorted (map fst m) \<Longrightarrow> sorted (map fst (mm_insert k v m))"
proof (induction k v m rule: mm_insert.induct)
  case (2 k v l w m)
  have "set (mm_insert k v m) = insert (k, v) (set m)" by (metis mset_mm_insert set_mset_add_mset_insert set_mset_mset)
  then show ?case using 2 by auto
qed simp

lemma mm_find_hit:
  assumes "mm_find k m = e # it" shows "fst e = k" "e \<in> set m"
proof -
  have "dropWhile (\<lambda>x. fst x \<noteq> k) m = e # it" using assms by (simp add: mm_find_def)
  then have m: "m = takeWhile (\<lambda>x. fst x \<noteq> k) m @ e # it" and e: "\<not> fst e \<noteq> k"
    using takeWhile_dropWhile_id [of "\<lambda>x. fst x \<noteq> k" m] hd_dropWhile [of "\<lambda>x. fst x \<noteq> k" m] by simp_all
  show "fst e = k" using e by simp
  show "e \<in> set m" by (subst m) simp
qed

lemma mset_erase_first:
  assumes "x \<in> set xs" "P x" "\<And>y. y \<in> set xs \<Longrightarrow> P y \<Longrightarrow> y = x"
  shows "mset xs = add_mset x (mset (erase_first P xs))"
  using assms
proof (induction xs)
  case (Cons y ys)
  show ?case
  proof (cases "P y")
    case True
    then show ?thesis using Cons.prems(3) [of y] by simp
  next
    case False
    then have "x \<in> set ys" using Cons.prems(1,2) by auto
    then have ys: "mset ys = add_mset x (mset (erase_first P ys))"
      by (rule Cons.IH [OF _ Cons.prems(2) Cons.prems(3) [OF list.set_intros(2)]])
    have "mset (y # ys) = add_mset x (add_mset y (mset (erase_first P ys)))"
      by (simp only: mset.simps ys add_mset_commute [of y x])
    then show ?thesis using False by simp
  qed
qed simp

lemma set_erase_first: "set (erase_first P xs) \<subseteq> set xs"
  by (induction xs) auto

lemma sorted_erase_first: "sorted (map f xs) \<Longrightarrow> sorted (map f (erase_first P xs))"
  using set_erase_first by (induction xs) fastforce+

lemma sorted_erase_middle: "sorted (map f (x @ y @ z)) \<Longrightarrow> sorted (map f (x @ erase_first P y @ z))"
  using sorted_erase_first [of f y P] set_erase_first [of P y] by (auto simp: sorted_append)

section \<open>The factory\<close>

record CStreamSessionFactory =
  m_SessionMap :: "(u64, nat) stdmap"
  m_ContentMap :: "(string, u64) stdmultimap"
  m_SessionIndex :: u64
  m_pStatusTimer :: bool
  sessions :: "(nat, CStreamSession) stdmap"
  deleted :: "CStreamSession list"

definition CStreamSessionFactory_new :: CStreamSessionFactory where
  "CStreamSessionFactory_new =
     \<lparr> m_SessionMap = [], m_ContentMap = [], m_SessionIndex = 1, m_pStatusTimer = False, sessions = [], deleted = [] \<rparr>"

definition factory_init :: "CStreamSessionFactory \<Rightarrow> retcode \<times> CStreamSessionFactory" where
  "factory_init f = (RET_OK, f\<lparr>m_SessionMap := []\<rparr>)"

text \<open>\<open>reactor\<close>: whether the service task has a timer reactor; \<open>mem\<close>: whether the timer could be allocated.\<close>

definition startStatusCheckTimer :: "bool \<Rightarrow> bool \<Rightarrow> CStreamSessionFactory \<Rightarrow> CStreamSessionFactory" where
  "startStatusCheckTimer reactor mem f = (if \<not> reactor \<or> \<not> mem then f else f\<lparr>m_pStatusTimer := True\<rparr>)"

definition stopStatusCheckTimer :: "bool \<Rightarrow> CStreamSessionFactory \<Rightarrow> CStreamSessionFactory" where
  "stopStatusCheckTimer reactor f = (if \<not> m_pStatusTimer f \<or> \<not> reactor then f else f\<lparr>m_pStatusTimer := False\<rparr>)"

definition factory_close :: "bool \<Rightarrow> CStreamSessionFactory \<Rightarrow> CStreamSessionFactory" where
  "factory_close reactor f = (if length (m_SessionMap f) > 0 then f else stopStatusCheckTimer reactor f)"

subsection \<open>Creating sessions\<close>

text \<open>
  The values a new session takes from outside: the time, what the memory of the members without initialiser holds, and
  the configuration.
\<close>

record new_env =
  ne_now :: u32
  ne_raw :: SESSION_INFO
  ne_play :: PLAY_TYPE
  ne_media_ip :: u32
  ne_ehome_type :: MEDIA_TRANS_TYPE

abbreviation (input) RELATIVE_TIME :: u32 where "RELATIVE_TIME \<equiv> 1"

text \<open>The four overrides of \<open>initSesssion\<close>.\<close>

definition rtp_initSesssion :: "new_env \<Rightarrow> PEER_TYPE \<Rightarrow> SESSION_INFO \<Rightarrow> SESSION_INFO" where
  "rtp_initSesssion e unPeerType i = i\<lparr>SessionType := RTP_SESSION, PeerType := unPeerType,
     TransDirection := TRANS_DIRECTION_RECVONLY, MediaTransType := MEDIA_TRANS_TYPE_RTP,
     TransProtocol := TRANS_PROTOCAL_UDP, SpecifyIp := ne_media_ip e\<rparr>"

definition ehome_initSesssion :: "new_env \<Rightarrow> PEER_TYPE \<Rightarrow> SESSION_INFO \<Rightarrow> SESSION_INFO" where
  "ehome_initSesssion e unPeerType i = i\<lparr>SessionType := RTP_SESSION, PeerType := unPeerType,
     TransDirection := TRANS_DIRECTION_RECVONLY, MediaTransType := ne_ehome_type e,
     TransProtocol := TRANS_PROTOCAL_UDP, SpecifyIp := ne_media_ip e\<rparr>"

definition std_initSesssion :: "PEER_TYPE \<Rightarrow> SESSION_INFO \<Rightarrow> SESSION_INFO" where
  "std_initSesssion unPeerType i = i\<lparr>SessionType := RTSP_SESSION, PeerType := unPeerType,
     TransDirection := TRANS_DIRECTION_SENDONLY, MediaTransType := MEDIA_TRANS_TYPE_RTP,
     TransProtocol := TRANS_PROTOCAL_TCP\<rparr>"

definition rtmp_initSesssion :: "PEER_TYPE \<Rightarrow> SESSION_INFO \<Rightarrow> SESSION_INFO" where
  "rtmp_initSesssion unPeerType i = i\<lparr>SessionType := RTMP_SESSION, PeerType := unPeerType,
     TransDirection := TRANS_DIRECTION_SENDONLY, MediaTransType := MEDIA_TRANS_TYPE_RTMP,
     TransProtocol := TRANS_PROTOCAL_TCP\<rparr>"

definition createConcreteSession :: "new_env \<Rightarrow> PEER_TYPE \<Rightarrow> SESSION_TYPE \<Rightarrow> bool \<Rightarrow> CStreamSession option" where
  "createConcreteSession e unPeerType unSessionType bLocalFlag =
     (let new = (\<lambda>cls i. CStreamSession_new cls i (ne_play e) (ne_now e))
      in if bLocalFlag
         then (if unSessionType = RTSP_SESSION
               then Some (new CStreamStdRtpSession (std_initSesssion unPeerType (ne_raw e)))
               else if unSessionType = RTMP_SESSION
               then Some (new CStreamRtmpSession (rtmp_initSesssion unPeerType (ne_raw e)))
               else None)
         else if unSessionType = EHOME_SESSION
         then Some (new CStreamEhomeSession (ehome_initSesssion e unPeerType (ne_raw e)))
         else Some (new (CStreamRtpSession None RELATIVE_TIME 0 0) (rtp_initSesssion e unPeerType (ne_raw e))))"

text \<open>\<open>addReference\<close> on the object at an address.\<close>

definition add_ref :: "nat \<Rightarrow> CStreamSessionFactory \<Rightarrow> CStreamSessionFactory option" where
  "add_ref a f =
     (case map_of (sessions f) a of
        None \<Rightarrow> None
      | Some s \<Rightarrow> map_option (\<lambda>s'. f\<lparr>sessions := sm_assign a s' (sessions f)\<rparr>) (session_addReference s))"

definition createSession ::
    "bool \<Rightarrow> bool \<Rightarrow> new_env \<Rightarrow> nat \<Rightarrow> PEER_TYPE \<Rightarrow> SESSION_TYPE \<Rightarrow> bool \<Rightarrow> CStreamSessionFactory \<Rightarrow>
     (ptr \<times> CStreamSessionFactory) option" where
  "createSession reactor mem e addr unPeerType unSessionType bLocalFlag f0 =
     (let f1 = (if \<not> m_pStatusTimer f0 then startStatusCheckTimer reactor mem f0 else f0);
          sessionIndx = m_SessionIndex f1;
          f = f1\<lparr>m_SessionIndex := sessionIndx + 1\<rparr>
      in case map_of (m_SessionMap f) sessionIndx of
          Some a \<Rightarrow> map_option (\<lambda>f'. (Some a, f')) (add_ref a f)
        | None \<Rightarrow>
            (case createConcreteSession e unPeerType unSessionType bLocalFlag of
               None \<Rightarrow> Some (None, f)
             | Some s \<Rightarrow> Some (Some addr, f\<lparr>sessions := sm_insert addr (setSessionId sessionIndx s) (sessions f),
                                          m_SessionMap := sm_insert sessionIndx addr (m_SessionMap f)\<rparr>)))"

definition createSourceSession ::
    "bool \<Rightarrow> bool \<Rightarrow> new_env \<Rightarrow> nat \<Rightarrow> string \<Rightarrow> PEER_TYPE \<Rightarrow> SESSION_TYPE \<Rightarrow> bool \<Rightarrow> CStreamSessionFactory \<Rightarrow>
     (ptr \<times> CStreamSessionFactory) option" where
  "createSourceSession reactor mem e addr strContent unPeerType unSessionType bLocalFlag f0 =
     (let f1 = (if \<not> m_pStatusTimer f0 then startStatusCheckTimer reactor mem f0 else f0);
          sessionIndx = m_SessionIndex f1;
          f = f1\<lparr>m_SessionIndex := sessionIndx + 1\<rparr>
      in case map_of (m_SessionMap f) sessionIndx of
          Some a \<Rightarrow> map_option (\<lambda>f'. (Some a, f')) (add_ref a f)
        | None \<Rightarrow>
            (case createConcreteSession e unPeerType unSessionType bLocalFlag of
               None \<Rightarrow> Some (None, f)
             | Some s \<Rightarrow> Some (Some addr, f\<lparr>sessions := sm_insert addr (setSessionId sessionIndx s) (sessions f),
                                          m_SessionMap := sm_insert sessionIndx addr (m_SessionMap f),
                                          m_ContentMap := mm_insert strContent sessionIndx (m_ContentMap f)\<rparr>)))"

subsection \<open>Finding sessions\<close>

definition findSession :: "u64 \<Rightarrow> CStreamSessionFactory \<Rightarrow> (ptr \<times> CStreamSessionFactory) option" where
  "findSession streamID f =
     (case map_of (m_SessionMap f) streamID of
        None \<Rightarrow> Some (None, f)
      | Some a \<Rightarrow> map_option (\<lambda>f'. (Some a, f')) (add_ref a f))"

definition findSession_content :: "string \<Rightarrow> CStreamSessionFactory \<Rightarrow> (ptr \<times> CStreamSessionFactory) option" where
  "findSession_content strContent f =
     (case mm_find strContent (m_ContentMap f) of
        [] \<Rightarrow> Some (None, f)
      | (_, sessionIndx) # _ \<Rightarrow>
          (case map_of (m_SessionMap f) sessionIndx of
             None \<Rightarrow> Some (None, f)
           | Some a \<Rightarrow> map_option (\<lambda>f'. (Some a, f')) (add_ref a f)))"

definition findSessionNotAddRef :: "u64 \<Rightarrow> CStreamSessionFactory \<Rightarrow> ptr" where
  "findSessionNotAddRef streamID f = map_of (m_SessionMap f) streamID"

fun add_refs :: "nat list \<Rightarrow> CStreamSessionFactory \<Rightarrow> CStreamSessionFactory option" where
  "add_refs [] f = Some f"
| "add_refs (a # as) f = (case add_ref a f of None \<Rightarrow> None | Some f' \<Rightarrow> add_refs as f')"

definition getAllSession :: "CStreamSessionFactory \<Rightarrow> (nat list \<times> CStreamSessionFactory) option" where
  "getAllSession f = (let l = map snd (m_SessionMap f) in map_option (\<lambda>f'. (l, f')) (add_refs l f))"

subsection \<open>Releasing sessions\<close>

text \<open>The reference an RTP session holds on its peer; its destructor gives it back.\<close>

definition peer_of :: "CStreamSession \<Rightarrow> ptr" where
  "peer_of s = (case m_class s of CStreamRtpSession p _ _ _ \<Rightarrow> p | _ \<Rightarrow> None)"

text \<open>
  What follows once the last reference is gone: the session leaves both tables, is closed and deleted.  The loop over
  the content table starts at the first entry of the session's content and runs to the end of the table.
\<close>

definition unlink_session ::
    "u32 \<Rightarrow> (CStreamSession \<Rightarrow> vcall) \<Rightarrow> u64 \<Rightarrow> nat \<Rightarrow> CStreamSession \<Rightarrow> CStreamSessionFactory \<Rightarrow>
     CStreamSessionFactory" where
  "unlink_session now stop key a s f =
     (let c = m_ContentMap f; strContentID = getContentID s
      in f\<lparr>m_SessionMap := sm_erase key (m_SessionMap f),
           m_ContentMap := mm_before strContentID c @ erase_first (\<lambda>e. snd e = getStreamId s) (mm_find strContentID c),
           sessions := sm_erase a (sessions f),
           deleted := deleted f @ [session_close now (stop s) s]\<rparr>)"

text \<open>
  \<open>releaseSession\<close> of a non-null pointer.  The destructor of an RTP session calls it again for the peer; the object is
  gone from the heap by then, so the recursion ends.
\<close>

function release_at ::
    "u32 \<Rightarrow> (CStreamSession \<Rightarrow> vcall) \<Rightarrow> nat \<Rightarrow> CStreamSessionFactory \<Rightarrow> CStreamSessionFactory option" where
  "release_at now stop a f =
     (case map_of (sessions f) a of
        None \<Rightarrow> None
      | Some s0 \<Rightarrow>
          let s = session_decReference s0; f1 = f\<lparr>sessions := sm_assign a s (sessions f)\<rparr>
          in if m_lReferenceCnt s > 0 then Some f1
             else (case map_of (m_SessionMap f1) (getStreamId s) of
                     None \<Rightarrow> Some f1
                   | Some _ \<Rightarrow>
                       (case peer_of s of
                          None \<Rightarrow> Some (unlink_session now stop (getStreamId s) a s f1)
                        | Some q \<Rightarrow> release_at now stop q (unlink_session now stop (getStreamId s) a s f1))))"
  by pat_completeness auto
termination
  by (relation "measure (\<lambda>(now, stop, a, f). length (sessions f))")
    (auto simp: unlink_session_def length_sm_erase_less sm_erase_assign Let_def)

declare release_at.simps [simp del]

definition releaseSession ::
    "u32 \<Rightarrow> (CStreamSession \<Rightarrow> vcall) \<Rightarrow> ptr \<Rightarrow> CStreamSessionFactory \<Rightarrow> CStreamSessionFactory option" where
  "releaseSession now stop pStreamSession f =
     (case pStreamSession of None \<Rightarrow> Some f | Some a \<Rightarrow> release_at now stop a f)"

text \<open>\<open>releaseSession\<close> of a stream id: the same on the object the table has for it.\<close>

definition releaseSession_id ::
    "u32 \<Rightarrow> (CStreamSession \<Rightarrow> vcall) \<Rightarrow> u64 \<Rightarrow> CStreamSessionFactory \<Rightarrow> CStreamSessionFactory option" where
  "releaseSession_id now stop streamID f =
     (case map_of (m_SessionMap f) streamID of
        None \<Rightarrow> Some f
      | Some a \<Rightarrow>
          (case map_of (sessions f) a of
             None \<Rightarrow> None
           | Some s0 \<Rightarrow>
               let s = session_decReference s0; f1 = f\<lparr>sessions := sm_assign a s (sessions f)\<rparr>
               in if m_lReferenceCnt s > 0 then Some f1
                  else (case peer_of s of
                          None \<Rightarrow> Some (unlink_session now stop streamID a s f1)
                        | Some q \<Rightarrow> release_at now stop q (unlink_session now stop streamID a s f1))))"

subsection \<open>Counting and checking\<close>

text \<open>The loop of \<open>getSessionCount\<close>: the input, output and bidirectional sessions, counted in \<open>uint32_t\<close>.\<close>

fun count_loop :: "(nat, CStreamSession) stdmap \<Rightarrow> nat list \<Rightarrow> u32 \<Rightarrow> u32 \<Rightarrow> u32 \<Rightarrow> (u32 \<times> u32 \<times> u32) option" where
  "count_loop h [] i o' b = Some (i, o', b)"
| "count_loop h (a # as) i o' b =
     (case map_of h a of
        None \<Rightarrow> None
      | Some s \<Rightarrow>
          (case getTransDirection s of
             TRANS_DIRECTION_RECVONLY \<Rightarrow> count_loop h as (i + 1) o' b
           | TRANS_DIRECTION_SENDONLY \<Rightarrow> count_loop h as i (o' + 1) b
           | TRANS_DIRECTION_SENDRECV \<Rightarrow> count_loop h as i o' (b + 1)
           | TRANS_DIRECTION_MAX \<Rightarrow> count_loop h as i o' b))"

definition getSessionCount :: "CStreamSessionFactory \<Rightarrow> (u32 \<times> u32 \<times> u32 \<times> u32) option" where
  "getSessionCount f =
     map_option (\<lambda>(i, o', b). (i, o', b, of_nat (length (m_SessionMap f))))
       (count_loop (sessions f) (map snd (m_SessionMap f)) 0 0 0)"

text \<open>\<open>chk\<close> is the \<open>checkMediaChannelStatus\<close> of each session.\<close>

fun check_loop ::
    "u32 \<Rightarrow> (CStreamSession \<Rightarrow> bool \<times> STREAM_SESSION_STATUS list) \<Rightarrow> nat list \<Rightarrow> (nat, CStreamSession) stdmap \<Rightarrow>
     (nat, CStreamSession) stdmap option" where
  "check_loop now chk [] h = Some h"
| "check_loop now chk (a # as) h =
     (case map_of h a of
        None \<Rightarrow> None
      | Some s \<Rightarrow> check_loop now chk as (sm_assign a (checkSessionStatus now (chk s) s) h))"

definition factory_checkSessionStatus ::
    "u32 \<Rightarrow> (CStreamSession \<Rightarrow> bool \<times> STREAM_SESSION_STATUS list) \<Rightarrow> CStreamSessionFactory \<Rightarrow> CStreamSessionFactory option" where
  "factory_checkSessionStatus now chk f =
     map_option (\<lambda>h. f\<lparr>sessions := h\<rparr>) (check_loop now chk (map snd (m_SessionMap f)) (sessions f))"

subsection \<open>The peer of an RTP session\<close>

text \<open>
  \<open>CStreamRtpSession::resetRtpPt\<close>: the session at \<open>a\<close> looks its peer up once and keeps the reference; a packet with the
  peer's video payload type gets the session's own.
\<close>

definition resetRtpPt :: "nat \<Rightarrow> u8 \<Rightarrow> CStreamSessionFactory \<Rightarrow> (u8 \<times> CStreamSessionFactory) option" where
  "resetRtpPt a cPt f =
     (case map_of (sessions f) a of
        None \<Rightarrow> None
      | Some s \<Rightarrow>
          (case m_class s of
             CStreamRtpSession p t b e \<Rightarrow>
               (case (if p \<noteq> None \<or> RecvStreamID (m_stSessionInfo s) = 0 then Some (p, f)
                      else (case findSession (RecvStreamID (m_stSessionInfo s)) f of
                              None \<Rightarrow> None
                            | Some (q, f') \<Rightarrow>
                                (case map_of (sessions f') a of
                                   None \<Rightarrow> None
                                 | Some s' \<Rightarrow>
                                     Some (q, f'\<lparr>sessions := sm_assign a (s'\<lparr>m_class := CStreamRtpSession q t b e\<rparr>)
                                                              (sessions f')\<rparr>)))) of
                  None \<Rightarrow> None
                | Some (None, f1) \<Rightarrow> Some (cPt, f1)
                | Some (Some q, f1) \<Rightarrow>
                    (case map_of (sessions f1) q of
                       None \<Rightarrow> None
                     | Some peer \<Rightarrow>
                         Some (if getVideoPayload peer \<noteq> getVideoPayload s \<and> cPt = getVideoPayload peer
                               then getVideoPayload s else cPt, f1)))
           | _ \<Rightarrow> None))"

section \<open>Reference counts\<close>

text \<open>
  The references the sessions themselves hold, as a multiset of addresses.  \<open>fac_inv f R\<close>, with \<open>R\<close> the references
  everybody else holds: the table has exactly the live sessions, under their ids; every reference points to a live
  session; and the counter of a live session is the number of references to it, at least one.
\<close>

definition peer_mset :: "CStreamSession \<Rightarrow> nat multiset" where
  "peer_mset s = (case peer_of s of None \<Rightarrow> {#} | Some q \<Rightarrow> {#q#})"

abbreviation peer_refs :: "(nat, CStreamSession) stdmap \<Rightarrow> nat multiset" where
  "peer_refs \<equiv> heap_refs peer_mset"

definition fac_inv :: "CStreamSessionFactory \<Rightarrow> nat multiset \<Rightarrow> bool" where
  "fac_inv f R \<longleftrightarrow>
     sm_inv (sessions f) \<and> sm_inv (m_SessionMap f) \<and>
     (\<forall>i a. map_of (m_SessionMap f) i = Some a \<longleftrightarrow> (\<exists>s. map_of (sessions f) a = Some s \<and> getStreamId s = i)) \<and>
     (\<forall>a s. map_of (sessions f) a = Some s \<longrightarrow> m_lReferenceCnt s = int (count (R + peer_refs (sessions f)) a)) \<and>
     set_mset (R + peer_refs (sessions f)) = dom (map_of (sessions f))"

lemmas peer_refs_Cons [simp] = heap_refs_simps [where g = peer_mset]
lemmas peer_refs_erase = heap_refs_erase [where g = peer_mset]
lemmas peer_refs_assign = heap_refs_assign [where g = peer_mset]
lemmas peer_refs_insert = heap_refs_insert [where g = peer_mset]
lemmas peer_refs_same = heap_refs_same [where g = peer_mset]

lemma fac_invD:
  assumes "fac_inv f R"
  shows "sm_inv (sessions f)" "sm_inv (m_SessionMap f)"
    and "map_of (m_SessionMap f) i = Some a \<longleftrightarrow> (\<exists>s. map_of (sessions f) a = Some s \<and> getStreamId s = i)"
    and "map_of (sessions f) a = Some s \<Longrightarrow> m_lReferenceCnt s = int (count (R + peer_refs (sessions f)) a)"
    and "map_of (sessions f) a = Some s \<Longrightarrow> 0 < m_lReferenceCnt s"
    and "a \<in># R + peer_refs (sessions f) \<Longrightarrow> \<exists>s. map_of (sessions f) a = Some s"
proof -
  note inv = assms [unfolded fac_inv_def]
  show "sm_inv (sessions f)" "sm_inv (m_SessionMap f)"
    "map_of (m_SessionMap f) i = Some a \<longleftrightarrow> (\<exists>s. map_of (sessions f) a = Some s \<and> getStreamId s = i)"
    "map_of (sessions f) a = Some s \<Longrightarrow> m_lReferenceCnt s = int (count (R + peer_refs (sessions f)) a)"
    "a \<in># R + peer_refs (sessions f) \<Longrightarrow> \<exists>s. map_of (sessions f) a = Some s"
    using inv by blast+
  have "a \<in># R + peer_refs (sessions f)" if "map_of (sessions f) a = Some s" using inv that by blast
  then show "map_of (sessions f) a = Some s \<Longrightarrow> 0 < m_lReferenceCnt s"
    using inv by (metis count_greater_zero_iff of_nat_0_less_iff)
qed

lemma fac_invI:
  assumes "sm_inv h" "sm_inv m" "sessions f = h" "m_SessionMap f = m"
    and "\<And>i a. map_of m i = Some a \<longleftrightarrow> (\<exists>s. map_of h a = Some s \<and> getStreamId s = i)"
    and "\<And>a s. map_of h a = Some s \<Longrightarrow> m_lReferenceCnt s = int (count (R + peer_refs h) a) \<and> 0 < m_lReferenceCnt s"
    and "\<And>a. a \<in># R + peer_refs h \<Longrightarrow> map_of h a \<noteq> None"
  shows "fac_inv f R"
proof -
  have "a \<in># R + peer_refs h" if "map_of h a = Some s" for a s
    using assms(6) [OF that] by (metis count_greater_zero_iff of_nat_0_less_iff)
  then have "set_mset (R + peer_refs h) = dom (map_of h)" using assms(7) by blast
  then show ?thesis unfolding fac_inv_def using assms by blast
qed

text \<open>An update that keeps the id, the counter and the peer of a session keeps the invariant.\<close>

lemma fac_inv_update:
  assumes inv: "fac_inv f R" and s: "map_of (sessions f) a = Some s"
    and id: "getStreamId s' = getStreamId s"
    and T: "\<And>b. count (R' + peer_refs (sm_assign a s' (sessions f))) b =
              (if b = a then nat (m_lReferenceCnt s') else count (R + peer_refs (sessions f)) b)"
    and pos: "0 < m_lReferenceCnt s'"
  shows "fac_inv (f\<lparr>sessions := sm_assign a s' (sessions f)\<rparr>) R'"
proof -
  let ?h = "sm_assign a s' (sessions f)"
  have h: "sm_inv (sessions f)" "map_of ?h = (map_of (sessions f))(a \<mapsto> s')" "sm_inv ?h"
    using inv by (simp_all add: fac_inv_def map_of_sm_assign sm_inv_assign)
  have "m_lReferenceCnt t = int (count (R' + peer_refs ?h) b) \<and> 0 < m_lReferenceCnt t" if "map_of ?h b = Some t" for b t
  proof (cases "b = a")
    case True
    then show ?thesis using that pos unfolding T by (simp add: h(2))
  next
    case False
    then have "map_of (sessions f) b = Some t" using that by (simp add: h(2))
    then show ?thesis using fac_invD(4,5) [OF inv] False unfolding T by auto
  qed
  moreover have "map_of ?h b \<noteq> None" if "b \<in># R' + peer_refs ?h" for b
  proof (cases "b = a")
    case False
    then have "b \<in># R + peer_refs (sessions f)" using that T [of b] by (metis count_eq_zero_iff)
    then show ?thesis using fac_invD(6) [OF inv] False by (auto simp: h(2))
  qed (simp add: h(2))
  moreover have "map_of (m_SessionMap f) i = Some b \<longleftrightarrow> (\<exists>t. map_of ?h b = Some t \<and> getStreamId t = i)" for i b
    using fac_invD(3) [OF inv, of i b] s id by (cases "b = a") (auto simp: h(2))
  ultimately show ?thesis using fac_invD(2) [OF inv] h(3) by (intro fac_invI [of ?h "m_SessionMap f"]) (blast | simp)+
qed

lemma ref_ops [simp]:
  "getStreamId (s\<lparr>m_lReferenceCnt := n\<rparr>) = getStreamId s" "peer_mset (s\<lparr>m_lReferenceCnt := n\<rparr>) = peer_mset s"
  "peer_of (s\<lparr>m_lReferenceCnt := n\<rparr>) = peer_of s" "getStreamId (setSessionId i s) = i"
  "peer_mset (setSessionId i s) = peer_mset s" "m_lReferenceCnt (setSessionId i s) = m_lReferenceCnt s"
  by (simp_all add: getStreamId_def peer_mset_def peer_of_def setSessionId_def)

text \<open>
  Taking a reference.  The only way to fail is the largest \<open>int32_t\<close>, and there are at most as many references as
  the others hold and sessions there are.
\<close>

lemma size_peer_refs: "size (peer_refs h) \<le> length h"
proof -
  have "size (peer_mset s) \<le> 1" for s by (cases "peer_of s") (simp_all add: peer_mset_def)
  then show ?thesis using size_heap_refs [of peer_mset 1 h] by simp
qed

lemma add_ref_ok:
  assumes inv: "fac_inv f R" and s: "map_of (sessions f) a = Some s" and room: "size R + length (sessions f) < 2 ^ 31 - 1"
  shows "\<exists>f'. add_ref a f = Some f' \<and> fac_inv f' (add_mset a R) \<and> length (sessions f') = length (sessions f)"
proof -
  let ?s = "s\<lparr>m_lReferenceCnt := m_lReferenceCnt s + 1\<rparr>"
  let ?T = "R + peer_refs (sessions f)"
  have ref: "m_lReferenceCnt s = int (count ?T a)" "0 < m_lReferenceCnt s" using fac_invD(4,5) [OF inv s] by simp_all
  have "count ?T a \<le> size ?T" by (rule count_le_size)
  also have "\<dots> \<le> size R + length (sessions f)" using size_peer_refs by simp
  finally have "m_lReferenceCnt s < 2 ^ 31 - 1" using room ref by simp
  then have "add_ref a f = Some (f\<lparr>sessions := sm_assign a ?s (sessions f)\<rparr>)"
    using s by (simp add: add_ref_def session_addReference_def)
  moreover have "fac_inv (f\<lparr>sessions := sm_assign a ?s (sessions f)\<rparr>) (add_mset a R)"
  proof (rule fac_inv_update [OF inv s])
    show "count (add_mset a R + peer_refs (sm_assign a ?s (sessions f))) b =
        (if b = a then nat (m_lReferenceCnt ?s) else count ?T b)" for b
      using ref by (simp add: peer_refs_same [OF fac_invD(1) [OF inv] s] nat_add_distrib)
  qed (use ref in simp_all)
  moreover have "length (sm_assign a ?s (sessions f)) = length (sessions f)"
    using s fac_invD(1) [OF inv] by (simp add: length_sm_assign)
  ultimately show ?thesis by simp
qed

text \<open>Giving one back while others are left, and giving back the last one.\<close>

lemma dec_ref_ok:
  assumes inv: "fac_inv f (add_mset a R)" and s: "map_of (sessions f) a = Some s"
    and more: "0 < m_lReferenceCnt (session_decReference s)"
  shows "fac_inv (f\<lparr>sessions := sm_assign a (session_decReference s) (sessions f)\<rparr>) R"
proof (rule fac_inv_update [OF inv s])
  show "count (R + peer_refs (sm_assign a (session_decReference s) (sessions f))) b =
      (if b = a then nat (m_lReferenceCnt (session_decReference s)) else count (add_mset a R + peer_refs (sessions f)) b)"
    for b
    using fac_invD(4) [OF inv s]
    by (auto simp: session_decReference_def peer_refs_same [OF fac_invD(1) [OF inv] s] nat_add_distrib)
qed (use more in \<open>simp_all add: session_decReference_def\<close>)

lemma unlink_ok:
  assumes inv: "fac_inv f (add_mset a R)" and s: "map_of (sessions f) a = Some s"
    and last: "\<not> 0 < m_lReferenceCnt (session_decReference s)"
  defines "f1 \<equiv> f\<lparr>sessions := sm_assign a (session_decReference s) (sessions f)\<rparr>"
  shows "fac_inv (unlink_session now stop (getStreamId s) a (session_decReference s) f1) (R + peer_mset s)"
proof -
  let ?h = "sm_erase a (sessions f)" and ?m = "sm_erase (getStreamId s) (m_SessionMap f)"
  have h: "sm_inv ?h" "map_of ?h = (map_of (sessions f))(a := None)"
    and m: "sm_inv ?m" "map_of ?m = (map_of (m_SessionMap f))(getStreamId s := None)"
    using fac_invD(1,2) [OF inv] by (simp_all add: sm_inv_erase map_of_sm_erase)
  have T: "add_mset a R + peer_refs (sessions f) = add_mset a (R + peer_mset s + peer_refs ?h)"
    using peer_refs_erase [OF fac_invD(1) [OF inv] s] by simp
  have none: "count (R + peer_mset s + peer_refs ?h) a = 0"
    using fac_invD(4) [OF inv s] last unfolding T by (simp add: session_decReference_def)
  have other: "count (add_mset a R + peer_refs (sessions f)) b = count (R + peer_mset s + peer_refs ?h) b" if "b \<noteq> a" for b
    using that unfolding T by simp
  have "map_of ?m i = Some b \<longleftrightarrow> (\<exists>t. map_of ?h b = Some t \<and> getStreamId t = i)" for i b
    using fac_invD(3) [OF inv, of i b] fac_invD(3) [OF inv, of "getStreamId s" a] s by (auto simp: h(2) m(2))
  moreover have "m_lReferenceCnt t = int (count (R + peer_mset s + peer_refs ?h) b) \<and> 0 < m_lReferenceCnt t"
    if "map_of ?h b = Some t" for b t
  proof -
    have b: "b \<noteq> a" "map_of (sessions f) b = Some t" using that by (auto simp: h(2) split: if_splits)
    show ?thesis using fac_invD(4,5) [OF inv b(2)] unfolding other [OF b(1)] by simp
  qed
  moreover have "map_of ?h b \<noteq> None" if "b \<in># R + peer_mset s + peer_refs ?h" for b
  proof -
    have "b \<noteq> a" using that none by (auto simp flip: count_greater_zero_iff)
    moreover have "b \<in># add_mset a R + peer_refs (sessions f)" unfolding T using that by simp
    ultimately show ?thesis using fac_invD(6) [OF inv] by (auto simp: h(2))
  qed
  ultimately show ?thesis
    using h(1) m(1)
    by (intro fac_invI [of ?h ?m]) (blast | simp add: unlink_session_def Let_def f1_def sm_erase_assign)+
qed

lemma release_at_ok:
  assumes "fac_inv f (add_mset a R)"
  shows "\<exists>f'. release_at now stop a f = Some f' \<and> fac_inv f' R \<and> length (sessions f') \<le> length (sessions f)"
  using assms
proof (induction "length (sessions f)" arbitrary: f a rule: less_induct)
  case less
  obtain s where s: "map_of (sessions f) a = Some s" using fac_invD(6) [OF less.prems, of a] by auto
  let ?s = "session_decReference s"
  let ?f1 = "f\<lparr>sessions := sm_assign a ?s (sessions f)\<rparr>"
  let ?f2 = "unlink_session now stop (getStreamId s) a ?s ?f1"
  have id: "getStreamId ?s = getStreamId s" "peer_of ?s = peer_of s" by (simp_all add: session_decReference_def)
  have m: "map_of (m_SessionMap f) (getStreamId s) = Some a" using fac_invD(3) [OF less.prems] s by blast
  show ?case
  proof (cases "0 < m_lReferenceCnt ?s")
    case True
    then have "release_at now stop a f = Some ?f1" using s by (simp add: release_at.simps [of now stop a f])
    moreover have "length (sm_assign a ?s (sessions f)) = length (sessions f)"
      by (rule length_sm_assign [OF fac_invD(1) [OF less.prems] s])
    ultimately show ?thesis using dec_ref_ok [OF less.prems s True] by simp
  next
    case False
    have rel: "release_at now stop a f = (case peer_of s of None \<Rightarrow> Some ?f2 | Some q \<Rightarrow> release_at now stop q ?f2)"
      using s False m by (simp add: release_at.simps [of now stop a f] id Let_def split: option.split)
    have len: "length (sessions ?f2) < length (sessions f)"
      using s by (simp add: unlink_session_def Let_def sm_erase_assign length_sm_erase_less)
    have inv: "fac_inv ?f2 (R + peer_mset s)" by (rule unlink_ok [OF less.prems s False])
    show ?thesis
    proof (cases "peer_of s")
      case None
      then show ?thesis using rel inv len by (simp add: peer_mset_def)
    next
      case (Some q)
      then have "fac_inv ?f2 (add_mset q R)" using inv by (simp add: peer_mset_def)
      then obtain f' where "release_at now stop q ?f2 = Some f'" "fac_inv f' R" "length (sessions f') \<le> length (sessions ?f2)"
        using less.hyps [OF len] by blast
      then show ?thesis using rel Some len by auto
    qed
  qed
qed

lemma findSession_ok:
  assumes inv: "fac_inv f R" and room: "size R + length (sessions f) < 2 ^ 31 - 1"
  shows "\<exists>r f'. findSession i f = Some (r, f') \<and> fac_inv f' (R + opt_mset r) \<and> length (sessions f') = length (sessions f)"
proof (cases "map_of (m_SessionMap f) i")
  case (Some a)
  then obtain s where "map_of (sessions f) a = Some s" using fac_invD(3) [OF inv] by blast
  then show ?thesis using add_ref_ok [OF inv _ room] Some by (auto simp: findSession_def)
qed (use inv in \<open>auto simp: findSession_def\<close>)

interpretation sf: ref_store fac_inv "\<lambda>f. length (sessions f)" findSession "release_at now stop" for now stop
  by unfold_locales (use findSession_ok release_at_ok in blast)+

lemma findSession_content_ok:
  assumes inv: "fac_inv f R" and room: "size R + length (sessions f) < 2 ^ 31 - 1"
  shows "\<exists>r f'. findSession_content c f = Some (r, f') \<and> fac_inv f' (R + opt_mset r)"
proof (cases "mm_find c (m_ContentMap f)")
  case (Cons e rest)
  then have "findSession_content c f = findSession (snd e) f"
    by (cases e) (simp add: findSession_content_def findSession_def)
  then show ?thesis using findSession_ok [OF inv room] by metis
qed (use inv in \<open>auto simp: findSession_content_def\<close>)

text \<open>A new session starts with the one reference its creator gets.\<close>

lemma createConcreteSession_new:
  "createConcreteSession e p t l = Some s \<Longrightarrow> m_lReferenceCnt s = 1 \<and> peer_mset s = {#} \<and> getStatus s = STREAM_SESSION_STATUS_INIT"
  by (auto simp: createConcreteSession_def CStreamSession_new_def peer_mset_def peer_of_def getStatus_def Let_def
      split: if_splits)

lemma insert_session_ok:
  assumes inv: "fac_inv f R" and fresh: "map_of (sessions f) a = None" and i: "map_of (m_SessionMap f) i = None"
    and s: "getStreamId s = i" "m_lReferenceCnt s = 1" "peer_mset s = {#}"
    and f': "sessions f' = sm_insert a s (sessions f)" "m_SessionMap f' = sm_insert i a (m_SessionMap f)"
  shows "fac_inv f' (add_mset a R)"
proof (rule fac_invI [OF _ _ f'])
  let ?h = "sm_insert a s (sessions f)"
  have h: "map_of ?h = (map_of (sessions f))(a \<mapsto> s)" "peer_refs ?h = peer_refs (sessions f)"
    using fac_invD(1) [OF inv] fresh s(3) by (simp_all add: map_of_sm_insert peer_refs_insert)
  have a: "count (R + peer_refs (sessions f)) a = 0"
    using fac_invD(6) [OF inv, of a] fresh by (metis count_eq_zero_iff option.distinct(1))
  show "sm_inv ?h" "sm_inv (sm_insert i a (m_SessionMap f))" using fac_invD(1,2) [OF inv] by (simp_all add: sm_inv_insert)
  show "map_of (sm_insert i a (m_SessionMap f)) j = Some b \<longleftrightarrow> (\<exists>t. map_of ?h b = Some t \<and> getStreamId t = j)" for j b
    using fac_invD(3) [OF inv, of j b] fac_invD(2) [OF inv] fresh i s(1)
    by (cases "b = a"; cases "j = i") (auto simp: map_of_sm_insert h(1))
  show "m_lReferenceCnt t = int (count (add_mset a R + peer_refs ?h) b) \<and> 0 < m_lReferenceCnt t"
    if "map_of ?h b = Some t" for b t
  proof (cases "b = a")
    case True
    then show ?thesis using that a s(2) unfolding h(2) by (simp add: h(1))
  next
    case False
    then have "map_of (sessions f) b = Some t" using that by (simp add: h(1))
    then show ?thesis using fac_invD(4,5) [OF inv] False unfolding h(2) by auto
  qed
  show "map_of ?h b \<noteq> None" if "b \<in># add_mset a R + peer_refs ?h" for b
    using that fac_invD(6) [OF inv, of b] unfolding h(2) by (auto simp: h(1))
qed

lemma fac_inv_cong: "sessions f' = sessions f \<Longrightarrow> m_SessionMap f' = m_SessionMap f \<Longrightarrow> fac_inv f' R = fac_inv f R"
  by (simp add: fac_inv_def)

lemma timer_frame [simp]:
  "sessions (startStatusCheckTimer r m f) = sessions f" "m_SessionMap (startStatusCheckTimer r m f) = m_SessionMap f"
  "deleted (startStatusCheckTimer r m f) = deleted f" "m_SessionIndex (startStatusCheckTimer r m f) = m_SessionIndex f"
  "m_ContentMap (startStatusCheckTimer r m f) = m_ContentMap f"
  by (simp_all add: startStatusCheckTimer_def)

lemma createSession_ok:
  assumes inv: "fac_inv f R" and room: "size R + length (sessions f) < 2 ^ 31 - 1" and fresh: "map_of (sessions f) addr = None"
  shows "\<exists>r f'. createSession rc mem e addr p t l f = Some (r, f') \<and> fac_inv f' (R + opt_mset r)"
    and "\<exists>r f'. createSourceSession rc mem e addr c p t l f = Some (r, f') \<and> fac_inv f' (R + opt_mset r)"
proof -
  define g where "g = (if \<not> m_pStatusTimer f then startStatusCheckTimer rc mem f else f)
    \<lparr>m_SessionIndex := m_SessionIndex f + 1\<rparr>"
  have g: "sessions g = sessions f" "m_SessionMap g = m_SessionMap f" by (simp_all add: g_def)
  have inv': "fac_inv g R" using inv fac_inv_cong [OF g] by simp
  have idx: "m_SessionIndex (if \<not> m_pStatusTimer f then startStatusCheckTimer rc mem f else f) = m_SessionIndex f" by simp
  let ?i = "m_SessionIndex f"
  have "(\<exists>r f'. createSession rc mem e addr p t l f = Some (r, f') \<and> fac_inv f' (R + opt_mset r)) \<and>
    (\<exists>r f'. createSourceSession rc mem e addr c p t l f = Some (r, f') \<and> fac_inv f' (R + opt_mset r))"
  proof (cases "map_of (m_SessionMap g) ?i")
    case (Some a)
    then obtain s where "map_of (sessions g) a = Some s" using fac_invD(3) [OF inv'] by blast
    then obtain f' where "add_ref a g = Some f'" "fac_inv f' (add_mset a R)"
      using add_ref_ok [OF inv'] room g(1) by auto
    then show ?thesis
      using Some unfolding createSession_def createSourceSession_def Let_def idx g_def by simp
  next
    case None
    show ?thesis
    proof (cases "createConcreteSession e p t l")
      case None': None
      then show ?thesis
        using None inv' unfolding createSession_def createSourceSession_def Let_def idx g_def by simp
    next
      case (Some s)
      note new = insert_session_ok [OF inv' _ None, of addr "setSessionId ?i s"]
      have "fac_inv (g\<lparr>sessions := sm_insert addr (setSessionId ?i s) (sessions g),
          m_SessionMap := sm_insert ?i addr (m_SessionMap g)\<rparr>) (add_mset addr R)"
        "fac_inv (g\<lparr>sessions := sm_insert addr (setSessionId ?i s) (sessions g),
          m_SessionMap := sm_insert ?i addr (m_SessionMap g), m_ContentMap := mm_insert c ?i (m_ContentMap g)\<rparr>) (add_mset addr R)"
        using createConcreteSession_new [OF Some] fresh by (auto intro!: new simp: g)
      then show ?thesis
        using None Some unfolding createSession_def createSourceSession_def Let_def idx g_def by simp
    qed
  qed
  then show "\<exists>r f'. createSession rc mem e addr p t l f = Some (r, f') \<and> fac_inv f' (R + opt_mset r)"
    "\<exists>r f'. createSourceSession rc mem e addr c p t l f = Some (r, f') \<and> fac_inv f' (R + opt_mset r)" by blast+
qed

lemma releaseSession_id_eq:
  assumes "fac_inv f R" "map_of (m_SessionMap f) i = Some a"
  shows "releaseSession_id now stop i f = release_at now stop a f"
proof -
  obtain s where s: "map_of (sessions f) a = Some s" "getStreamId s = i" using fac_invD(3) [OF assms(1)] assms(2) by blast
  have "getStreamId (session_decReference s) = i" using s(2) by (simp add: session_decReference_def)
  then show ?thesis
    using assms(2) s(1) by (simp add: releaseSession_id_def release_at.simps [of now stop a f] Let_def split: option.split)
qed

lemma add_ref_frame: "add_ref a f = Some f' \<Longrightarrow> m_SessionMap f' = m_SessionMap f \<and> deleted f' = deleted f"
  by (auto simp: add_ref_def split: option.splits)

lemma add_refs_ok:
  assumes "fac_inv f R" "size R + length as + length (sessions f) < 2 ^ 31 - 1"
    and "\<And>a. a \<in> set as \<Longrightarrow> \<exists>i. map_of (m_SessionMap f) i = Some a"
  shows "\<exists>f'. add_refs as f = Some f' \<and> fac_inv f' (R + mset as) \<and> deleted f' = deleted f"
  using assms
proof (induction as arbitrary: f R)
  case (Cons a as)
  obtain s where s: "map_of (sessions f) a = Some s" using Cons.prems(3) fac_invD(3) [OF Cons.prems(1)] by force
  obtain f1 where f1: "add_ref a f = Some f1" "fac_inv f1 (add_mset a R)" "length (sessions f1) = length (sessions f)"
    using add_ref_ok [OF Cons.prems(1) s] Cons.prems(2) by auto
  then obtain f2 where "add_refs as f1 = Some f2" "fac_inv f2 (add_mset a R + mset as)" "deleted f2 = deleted f1"
    using Cons.IH [OF f1(2)] Cons.prems(2,3) add_ref_frame [OF f1(1)] by auto
  then show ?case using f1 add_ref_frame [OF f1(1)] by simp
qed simp

lemma table_live:
  assumes "fac_inv f R" "a \<in> set (map snd (m_SessionMap f))"
  shows "\<exists>i. map_of (m_SessionMap f) i = Some a" "map_of (sessions f) a \<noteq> None"
proof -
  obtain i where "(i, a) \<in> set (m_SessionMap f)" using assms(2) by auto
  then have i: "map_of (m_SessionMap f) i = Some a" using sm_inv_distinct [OF fac_invD(2) [OF assms(1)]] by simp
  then show "\<exists>i. map_of (m_SessionMap f) i = Some a" by blast
  show "map_of (sessions f) a \<noteq> None" using i fac_invD(3) [OF assms(1)] by force
qed

lemma getAllSession_ok:
  assumes inv: "fac_inv f R" and room: "size R + length (m_SessionMap f) + length (sessions f) < 2 ^ 31 - 1"
  shows "\<exists>l f'. getAllSession f = Some (l, f') \<and> fac_inv f' (R + mset l) \<and> deleted f' = deleted f"
proof -
  let ?l = "map snd (m_SessionMap f)"
  obtain f' where "add_refs ?l f = Some f'" "fac_inv f' (R + mset ?l)" "deleted f' = deleted f"
    using add_refs_ok [OF inv, of ?l] table_live(1) [OF inv] room by auto
  then show ?thesis by (simp add: getAllSession_def)
qed

text \<open>What the operations of a session leave alone: its id, its counter and its class with the peer.\<close>

definition same_object :: "CStreamSession \<Rightarrow> CStreamSession \<Rightarrow> bool" where
  "same_object s t \<longleftrightarrow> StreamID (m_stSessionInfo t) = StreamID (m_stSessionInfo s) \<and>
     m_lReferenceCnt t = m_lReferenceCnt s \<and> m_class t = m_class s"

lemma same_object_refl [simp]: "same_object s s"
  by (simp add: same_object_def)

lemma same_object_trans: "same_object s t \<Longrightarrow> same_object t u \<Longrightarrow> same_object s u"
  by (simp add: same_object_def)

lemma same_object_setStatus [simp]: "same_object s (setStatus now e t) = same_object s t"
  by (simp add: same_object_def setStatus_def)

lemma same_object_fold [simp]: "same_object s (fold (setStatus now) es t) = same_object s t"
  by (induction es arbitrary: t) simp_all

lemma same_object_fields [simp]:
  "same_object s (t\<lparr>m_NatMsgList := ms\<rparr>) = same_object s t" "same_object s (t\<lparr>m_SdpInfo := x\<rparr>) = same_object s t"
  "same_object s (t\<lparr>m_szContentId := x\<rparr>) = same_object s t" "same_object s (t\<lparr>m_enPlayType := y\<rparr>) = same_object s t"
  "same_object s (t\<lparr>m_stSessionInfo := (m_stSessionInfo t)\<lparr>TransDirection := d\<rparr>\<rparr>) = same_object s t"
  "same_object s (t\<lparr>m_stSessionInfo := (m_stSessionInfo t)\<lparr>MediaTransType := m\<rparr>\<rparr>) = same_object s t"
  "same_object s (t\<lparr>m_stSessionInfo := (m_stSessionInfo t)\<lparr>TransDirection := d, MediaTransType := m\<rparr>\<rparr>) = same_object s t"
  by (simp_all add: same_object_def)

lemma same_object_sdp: "initSessionBySdp d t = (r, u) \<Longrightarrow> same_object s u = same_object s t"
  by (auto simp: initSessionBySdp_def Let_def split: if_splits option.splits list.splits)

lemma same_object_recved [simp]: "same_object s (fst (snd (handleRecvedNatRequest now v resp t))) = same_object s t"
  by (simp add: handleRecvedNatRequest_def run_vcall_def Let_def split: prod.split)

lemma same_object_start: "same_object s (snd (session_start now d v v' sdp s))"
  using same_object_sdp [of d "s\<lparr>m_SdpInfo := sdp\<rparr>" _ _ s]
  by (simp add: session_start_def run_vcall_def split: prod.split)

lemma same_object_nat:
  "same_object s (nat_this (handleNatMessage now mem v presp resp m s peer))"
  "nat_peer (handleNatMessage now mem v presp resp m q (Some s)) = Some s' \<Longrightarrow> same_object s s'"
proof -
  have recved: "same_object s u" if "snd (handleRecvedNatRequest now v presp s) = (u, x)" for u x
    using same_object_recved [of s now v presp s] that by (simp only: fst_conv same_object_refl)
  show "same_object s (nat_this (handleNatMessage now mem v presp resp m s peer))"
    by (auto simp: handleNatMessage_def Let_def split: option.split prod.split)
  show "same_object s s'" if "nat_peer (handleNatMessage now mem v presp resp m q (Some s)) = Some s'"
    using that by (auto simp: handleNatMessage_def Let_def split: prod.splits if_splits dest: recved)
qed

lemma same_object_audio:
  assumes "handleAudioBroadcastNatMsg now v presp resp m s p = (r, s', p')"
  shows "same_object s s'" "same_object p p'"
  using assms by (auto simp: handleAudioBroadcastNatMsg_def Let_def split: if_splits)

lemma session_step_same: "session_step s t \<Longrightarrow> same_object s t"
  by (induction rule: session_step.induct)
    (simp_all add: session_init_def session_close_def checkSessionStatus_def simulateNatReq_def run_vcall_def Let_def
      same_object_start same_object_nat same_object_audio)

lemma fac_inv_same:
  assumes "fac_inv f R" "map_of (sessions f) a = Some s" "same_object s t"
  shows "fac_inv (f\<lparr>sessions := sm_assign a t (sessions f)\<rparr>) R"
proof (rule fac_inv_update [OF assms(1,2)])
  have "peer_mset t = peer_mset s" "m_lReferenceCnt t = m_lReferenceCnt s"
    using assms(3) by (simp_all add: same_object_def peer_mset_def peer_of_def)
  then show "count (R + peer_refs (sm_assign a t (sessions f))) b =
      (if b = a then nat (m_lReferenceCnt t) else count (R + peer_refs (sessions f)) b)" for b
    using fac_invD(4) [OF assms(1,2)] by (simp add: peer_refs_same [OF fac_invD(1) [OF assms(1)] assms(2)] nat_add_distrib)
  show "0 < m_lReferenceCnt t" "getStreamId t = getStreamId s"
    using assms(3) fac_invD(5) [OF assms(1,2)] by (simp_all add: same_object_def getStreamId_def)
qed

lemma check_loop_ok:
  assumes "fac_inv f R" "\<And>a. a \<in> set as \<Longrightarrow> map_of (sessions f) a \<noteq> None"
  shows "\<exists>h. check_loop now chk as (sessions f) = Some h \<and> fac_inv (f\<lparr>sessions := h\<rparr>) R"
  using assms
proof (induction as arbitrary: f)
  case (Cons a as)
  obtain s where s: "map_of (sessions f) a = Some s" using Cons.prems(2) [of a] by auto
  let ?t = "checkSessionStatus now (chk s) s"
  let ?f = "f\<lparr>sessions := sm_assign a ?t (sessions f)\<rparr>"
  have inv: "fac_inv ?f R"
    by (rule fac_inv_same [OF Cons.prems(1) s session_step_same [OF session_step.check]])
  have "map_of (sessions ?f) b \<noteq> None" if "b \<in> set as" for b
    using Cons.prems(2) [of b] that fac_invD(1) [OF Cons.prems(1)] by (simp add: map_of_sm_assign)
  then show ?case using Cons.IH [OF inv] s by auto
qed simp

lemma factory_check_ok:
  assumes inv: "fac_inv f R"
  shows "\<exists>f'. factory_checkSessionStatus now chk f = Some f' \<and> fac_inv f' R \<and> deleted f' = deleted f"
proof -
  obtain h where "check_loop now chk (map snd (m_SessionMap f)) (sessions f) = Some h" "fac_inv (f\<lparr>sessions := h\<rparr>) R"
    using check_loop_ok [OF inv] table_live(2) [OF inv] by blast
  then show ?thesis by (simp add: factory_checkSessionStatus_def)
qed

lemma findSession_frame:
  "findSession i f = Some (r, f') \<Longrightarrow> deleted f' = deleted f \<and> m_SessionMap f' = m_SessionMap f"
  by (auto simp: findSession_def split: option.splits dest: add_ref_frame)

lemma findSession_self:
  assumes "fac_inv f R" "findSession i f = Some (r, f')" "map_of (sessions f) a = Some s"
  shows "\<exists>s'. map_of (sessions f') a = Some s' \<and> m_class s' = m_class s \<and> getStreamId s' = getStreamId s"
  using assms fac_invD(1) [OF assms(1)]
  by (auto simp: findSession_def add_ref_def session_addReference_def map_of_sm_assign split: option.splits if_splits)

lemma resetRtpPt_ok:
  assumes inv: "fac_inv f R" and s: "map_of (sessions f) a = Some s" and c: "m_class s = CStreamRtpSession p t b e"
    and room: "size R + length (sessions f) < 2 ^ 31 - 1"
  shows "\<exists>pt f'. resetRtpPt a cPt f = Some (pt, f') \<and> fac_inv f' R \<and> deleted f' = deleted f"
proof (cases "p \<noteq> None \<or> RecvStreamID (m_stSessionInfo s) = 0")
  case True
  have "map_of (sessions f) q \<noteq> None" if "p = Some q" for q
    using peer_refs_erase [OF fac_invD(1) [OF inv] s] fac_invD(6) [OF inv, of q] c that
    by (auto simp: peer_mset_def peer_of_def)
  then show ?thesis using True s c inv by (cases p) (auto simp: resetRtpPt_def)
next
  case False
  obtain q f1 where f1: "findSession (RecvStreamID (m_stSessionInfo s)) f = Some (q, f1)" "fac_inv f1 (R + opt_mset q)"
    using findSession_ok [OF inv room] by blast
  obtain s1 where s1: "map_of (sessions f1) a = Some s1" "m_class s1 = m_class s"
    using findSession_self [OF inv f1(1) s] by blast
  let ?s = "s1\<lparr>m_class := CStreamRtpSession q t b e\<rparr>"
  let ?f2 = "f1\<lparr>sessions := sm_assign a ?s (sessions f1)\<rparr>"
  have peers: "peer_mset ?s = opt_mset q" "peer_mset s1 = {#}"
    using False c s1(2) by (simp_all add: peer_mset_def peer_of_def opt_mset_def)
  have inv2: "fac_inv ?f2 R"
  proof (rule fac_inv_update [OF f1(2) s1(1)])
    show "count (R + peer_refs (sm_assign a ?s (sessions f1))) x =
        (if x = a then nat (m_lReferenceCnt ?s) else count (R + opt_mset q + peer_refs (sessions f1)) x)" for x
      using fac_invD(4) [OF f1(2) s1(1)] fac_invD(1) [OF f1(2)] peers
      by (simp add: peer_refs_assign peer_refs_erase [OF _ s1(1)] nat_add_distrib)
    show "0 < m_lReferenceCnt ?s" using fac_invD(5) [OF f1(2) s1(1)] by simp
  qed (simp add: getStreamId_def)
  have "map_of (sessions ?f2) x \<noteq> None" if "q = Some x" for x
  proof -
    have "x \<in># R + peer_refs (sessions ?f2)"
      using that peers fac_invD(1) [OF f1(2)] by (simp add: peer_refs_assign)
    then show ?thesis using fac_invD(6) [OF inv2] by fastforce
  qed
  then show ?thesis
    using False s c f1(1) s1 inv2 findSession_frame [OF f1(1)] by (cases q) (auto simp: resetRtpPt_def)
qed

section \<open>Runs of the factory\<close>

text \<open>
  The states the factory can get into, with the references its clients hold.  A client gives back a reference it holds,
  by pointer or by the id of the session, and works on a session it holds a reference to; everything else may happen at
  any time.  \<open>room\<close>: there are fewer references than an \<open>int32_t\<close> can count.
\<close>

abbreviation room :: "CStreamSessionFactory \<Rightarrow> nat multiset \<Rightarrow> nat \<Rightarrow> bool" where
  "room f R n \<equiv> size R + n + length (sessions f) < 2 ^ 31 - 1"

inductive factory_step ::
    "CStreamSessionFactory \<Rightarrow> nat multiset \<Rightarrow> CStreamSessionFactory \<Rightarrow> nat multiset \<Rightarrow> bool" where
  create: "room f R 0 \<Longrightarrow> map_of (sessions f) addr = None \<Longrightarrow>
    createSession rc mem e addr p t l f = Some (r, f') \<Longrightarrow> factory_step f R f' (R + opt_mset r)"
| create_source: "room f R 0 \<Longrightarrow> map_of (sessions f) addr = None \<Longrightarrow>
    createSourceSession rc mem e addr c p t l f = Some (r, f') \<Longrightarrow> factory_step f R f' (R + opt_mset r)"
| find: "room f R 0 \<Longrightarrow> findSession i f = Some (r, f') \<Longrightarrow> factory_step f R f' (R + opt_mset r)"
| find_content: "room f R 0 \<Longrightarrow> findSession_content c f = Some (r, f') \<Longrightarrow> factory_step f R f' (R + opt_mset r)"
| get_all: "room f R (length (m_SessionMap f)) \<Longrightarrow> getAllSession f = Some (l, f') \<Longrightarrow> factory_step f R f' (R + mset l)"
| release: "releaseSession now stop (Some a) f = Some f' \<Longrightarrow> factory_step f (add_mset a R) f' R"
| release_id: "map_of (m_SessionMap f) i = Some a \<Longrightarrow> releaseSession_id now stop i f = Some f' \<Longrightarrow>
    factory_step f (add_mset a R) f' R"
| check: "factory_checkSessionStatus now chk f = Some f' \<Longrightarrow> factory_step f R f' R"
| reset_pt: "room f R 0 \<Longrightarrow> map_of (sessions f) a = Some s \<Longrightarrow> m_class s = CStreamRtpSession p t b e \<Longrightarrow>
    resetRtpPt a cPt f = Some (pt, f') \<Longrightarrow> factory_step f R f' R"
| work: "a \<in># R \<Longrightarrow> map_of (sessions f) a = Some s \<Longrightarrow> session_step s s' \<Longrightarrow>
    factory_step f R (f\<lparr>sessions := sm_assign a s' (sessions f)\<rparr>) R"
| content: "a \<in># R \<Longrightarrow> map_of (sessions f) a = Some s \<Longrightarrow>
    factory_step f R (f\<lparr>sessions := sm_assign a (setContentID c s) (sessions f)\<rparr>) R"

inductive factory_run :: "CStreamSessionFactory \<Rightarrow> nat multiset \<Rightarrow> bool" where
  start: "factory_run CStreamSessionFactory_new {#}"
| step: "factory_run f R \<Longrightarrow> factory_step f R f' R' \<Longrightarrow> factory_run f' R'"

lemma release_at_deleted:
  "release_at now stop a f = Some f' \<Longrightarrow> list_all (\<lambda>s. getStatus s = STREAM_SESSION_STATUS_RELEASED) (deleted f) \<Longrightarrow>
   list_all (\<lambda>s. getStatus s = STREAM_SESSION_STATUS_RELEASED) (deleted f')"
proof (induction "length (sessions f)" arbitrary: f a rule: less_induct)
  case less
  obtain s0 where s0: "map_of (sessions f) a = Some s0"
    using less.prems(1) by (auto simp: release_at.simps [of now stop a f] split: option.splits)
  let ?s = "session_decReference s0"
  let ?f2 = "unlink_session now stop (getStreamId ?s) a ?s (f\<lparr>sessions := sm_assign a ?s (sessions f)\<rparr>)"
  have len: "length (sessions ?f2) < length (sessions f)"
    using s0 by (simp add: unlink_session_def Let_def sm_erase_assign length_sm_erase_less)
  have "list_all (\<lambda>s. getStatus s = STREAM_SESSION_STATUS_RELEASED) (deleted ?f2)"
    using less.prems(2) by (simp add: unlink_session_def Let_def session_close_released)
  then show ?case
    using less.prems s0 less.hyps [OF len]
    by (auto simp: release_at.simps [of now stop a f] Let_def split: if_splits option.splits)
qed

lemma create_deleted:
  "createSession rc mem e addr p t l f = Some (r, f') \<Longrightarrow> deleted f' = deleted f"
  "createSourceSession rc mem e addr c p t l f = Some (r, f') \<Longrightarrow> deleted f' = deleted f"
  by (auto simp: createSession_def createSourceSession_def Let_def split: option.splits dest!: add_ref_frame)

lemma findSession_content_frame: "findSession_content c f = Some (r, f') \<Longrightarrow> deleted f' = deleted f"
  by (auto simp: findSession_content_def split: option.splits list.splits dest!: add_ref_frame)

abbreviation all_released :: "CStreamSession list \<Rightarrow> bool" where
  "all_released l \<equiv> list_all (\<lambda>s. getStatus s = STREAM_SESSION_STATUS_RELEASED) l"

lemma factory_step_inv:
  assumes "factory_step f R f' R'" "fac_inv f R"
  shows "fac_inv f' R' \<and> (all_released (deleted f) \<longrightarrow> all_released (deleted f'))"
  using assms
proof (induction rule: factory_step.induct)
  case (create f R addr rc mem e p t l r f')
  then show ?case using createSession_ok(1) [of f R addr rc mem e p t l] create_deleted(1) by fastforce
next
  case (create_source f R addr rc mem e c p t l r f')
  then show ?case using createSession_ok(2) [of f R addr rc mem e c p t l] create_deleted(2) by fastforce
next
  case (find f R i r f')
  then show ?case using findSession_ok [of f R i] findSession_frame [OF find(2)] by auto
next
  case (find_content f R c r f')
  then show ?case using findSession_content_ok [of f R c] findSession_content_frame [OF find_content(2)] by auto
next
  case (get_all f R l f')
  then show ?case using getAllSession_ok [of f R] by auto
next
  case (release now stop a f f' R)
  then have "release_at now stop a f = Some f'" by (simp add: releaseSession_def)
  then show ?case using release_at_ok [of f a R now stop] release_at_deleted release.prems by auto
next
  case (release_id f i a now stop f' R)
  then have "release_at now stop a f = Some f'" using releaseSession_id_eq by metis
  then show ?case using release_at_ok [of f a R now stop] release_at_deleted release_id.prems by auto
next
  case (check now chk f f' R)
  then show ?case using factory_check_ok [of f R now chk] by auto
next
  case (reset_pt f R a s p t b e cPt pt f')
  then show ?case using resetRtpPt_ok [of f R a s p t b e cPt] by auto
next
  case (work a R f s s')
  then show ?case using fac_inv_same session_step_same by auto
next
  case (content a R f s c)
  have "same_object s (setContentID c s)" by (simp add: setContentID_def)
  then show ?case using content fac_inv_same by auto
qed

lemma factory_run_inv: "factory_run f R \<Longrightarrow> fac_inv f R \<and> all_released (deleted f)"
proof (induction rule: factory_run.induct)
  case start
  show ?case by (simp add: fac_inv_def CStreamSessionFactory_new_def heap_refs_simps)
qed (use factory_step_inv in blast)

lemma count_loop_ok:
  "(\<And>a. a \<in> set as \<Longrightarrow> map_of h a \<noteq> None) \<Longrightarrow> count_loop h as i o' b \<noteq> None"
proof (induction as arbitrary: i o' b)
  case (Cons a as)
  obtain s where "map_of h a = Some s" using Cons.prems [of a] by auto
  then show ?case using Cons by (cases "getTransDirection s") simp_all
qed simp

lemma factory_run_facts:
  assumes run: "factory_run f R"
  shows "a \<in># R \<Longrightarrow> \<exists>s. map_of (sessions f) a = Some s"
    and "map_of (sessions f) a = Some s \<Longrightarrow>
      m_lReferenceCnt s = int (count R a) + int (count (peer_refs (sessions f)) a) \<and> 0 < m_lReferenceCnt s \<and>
      findSessionNotAddRef (getStreamId s) f = Some a"
    and "R = {#} \<Longrightarrow> peer_refs (sessions f) = {#} \<Longrightarrow> sessions f = []"
    and "all_released (deleted f)"
    and "a \<in># R \<Longrightarrow> releaseSession now stop (Some a) f \<noteq> None"
    and "room f R 0 \<Longrightarrow> findSession i f \<noteq> None \<and> findSession_content c f \<noteq> None"
    and "room f R (length (m_SessionMap f)) \<Longrightarrow> getAllSession f \<noteq> None"
    and "factory_checkSessionStatus now chk f \<noteq> None" and "getSessionCount f \<noteq> None"
proof -
  have inv: "fac_inv f R" and del: "all_released (deleted f)"
    using factory_run_inv [OF run] by blast+
  show "\<exists>s. map_of (sessions f) a = Some s" if "a \<in># R" using fac_invD(6) [OF inv] that by simp
  show "m_lReferenceCnt s = int (count R a) + int (count (peer_refs (sessions f)) a) \<and> 0 < m_lReferenceCnt s \<and>
      findSessionNotAddRef (getStreamId s) f = Some a" if s: "map_of (sessions f) a = Some s"
    using fac_invD(4,5) [OF inv s] fac_invD(3) [OF inv, of "getStreamId s" a] s by (simp add: findSessionNotAddRef_def)
  show "sessions f = []" if "R = {#}" "peer_refs (sessions f) = {#}"
  proof (rule ccontr)
    assume "sessions f \<noteq> []"
    then obtain b s h where "sessions f = (b, s) # h" by (cases "sessions f") auto
    then have "map_of (sessions f) b = Some s" by simp
    then show False using fac_invD(4,5) [OF inv] that by fastforce
  qed
  show "releaseSession now stop (Some a) f \<noteq> None" if "a \<in># R"
  proof -
    have "fac_inv f (add_mset a (R - {#a#}))" using inv that by simp
    then show ?thesis using release_at_ok by (fastforce simp: releaseSession_def)
  qed
  show "findSession i f \<noteq> None \<and> findSession_content c f \<noteq> None" if "room f R 0"
    using findSession_ok [OF inv] findSession_content_ok [OF inv] that by fastforce
  show "getAllSession f \<noteq> None" if "room f R (length (m_SessionMap f))" using getAllSession_ok [OF inv] that by fastforce
  show "factory_checkSessionStatus now chk f \<noteq> None" using factory_check_ok [OF inv, of now chk] by auto
  show "getSessionCount f \<noteq> None"
    using count_loop_ok [OF table_live(2) [OF inv], of "map snd (m_SessionMap f)"] by (simp add: getSessionCount_def)
qed (rule conjunct2 [OF factory_run_inv [OF run]])

text \<open>
  C33. The factory never touches a deleted session.  In every state its clients can bring it to: a
  reference a client holds points to a live session; every live session is in the session table \<open>m_SessionMap\<close> under its id, and its counter is exactly the
  number of references to it, the clients' and those RTP sessions keep to their peers, and at least one; when the clients hold no reference and
  no live RTP session keeps a peer, no session is left; every deleted session was closed first; and as long as the counters
  cannot overflow, every operation of the factory is free of undefined behaviour, the release of a last reference and
  the releases it causes included.  Two things are not claimed: RTP sessions that keep each other as peers are live through each other
  after the clients let them go, which is what the condition on the peers leaves out, and the content table may keep the id of a deleted session, which a
  lookup then does not find.
\<close>

theorem session_refs_exact:
  assumes run: "factory_run f R"
  shows "(\<forall>a. a \<in># R \<longrightarrow> (\<exists>s. map_of (sessions f) a = Some s) \<and> releaseSession now stop (Some a) f \<noteq> None) \<and>
    (\<forall>a s. map_of (sessions f) a = Some s \<longrightarrow>
      m_lReferenceCnt s = int (count R a) + int (count (peer_refs (sessions f)) a) \<and> 0 < m_lReferenceCnt s \<and>
      findSessionNotAddRef (getStreamId s) f = Some a) \<and>
    (R = {#} \<and> peer_refs (sessions f) = {#} \<longrightarrow> sessions f = []) \<and>
    all_released (deleted f) \<and>
    (room f R 0 \<longrightarrow> findSession i f \<noteq> None \<and> findSession_content c f \<noteq> None) \<and>
    (room f R (length (m_SessionMap f)) \<longrightarrow> getAllSession f \<noteq> None) \<and>
    factory_checkSessionStatus now' chk f \<noteq> None \<and> getSessionCount f \<noteq> None"
  by (intro conjI allI impI) (use factory_run_facts [OF run] in blast)+

definition env_a :: new_env where
  "env_a = \<lparr> ne_now = 100, ne_raw = m_stSessionInfo session_a, ne_play = PLAY_TYPE_LIVE, ne_media_ip = 5,
     ne_ehome_type = MEDIA_TRANS_TYPE_PS \<rparr>"

definition factory_a :: CStreamSessionFactory where
  "factory_a = snd (the (createSession True True env_a 40 PEER_TYPE_PU RTP_SESSION False CStreamSessionFactory_new))"

lemma factory_a_run: "factory_run factory_a {#40#}"
proof -
  have "createSession True True env_a 40 PEER_TYPE_PU RTP_SESSION False CStreamSessionFactory_new = Some (Some 40, factory_a)"
    by (simp add: factory_a_def createSession_def CStreamSessionFactory_new_def createConcreteSession_def Let_def)
  then show ?thesis
    using factory_run.step [OF factory_run.start factory_step.create, of 40 True True env_a PEER_TYPE_PU RTP_SESSION False
        "Some 40" factory_a]
    by (simp add: CStreamSessionFactory_new_def)
qed

lemma factory_a_sessions: "map fst (sessions factory_a) = [40]" "m_SessionMap factory_a = [(1, 40)]"
  by (simp_all add: factory_a_def createSession_def CStreamSessionFactory_new_def createConcreteSession_def Let_def)

theorem session_refs_exact_witness:
  "(\<exists>s. map_of (sessions factory_a) 40 = Some s) \<and> findSession 1 factory_a \<noteq> None \<and>
   releaseSession 7 (\<lambda>_. (RET_OK, [])) (Some 40) factory_a \<noteq> None"
proof -
  have "length (sessions factory_a) = 1" using factory_a_sessions(1) by (metis length_map list.size(3,4) One_nat_def add_0)
  then show ?thesis
    using session_refs_exact [OF factory_a_run, of 7 "\<lambda>_. (RET_OK, [])" 1]
    by simp
qed

text \<open>
  What the operations of the factory never do to the sessions that are still there afterwards: give one another id.
\<close>

definition ids_kept :: "CStreamSessionFactory \<Rightarrow> CStreamSessionFactory \<Rightarrow> bool" where
  "ids_kept f f' \<longleftrightarrow>
     (\<forall>a s'. map_of (sessions f') a = Some s' \<longrightarrow> (\<exists>s. map_of (sessions f) a = Some s \<and> getStreamId s' = getStreamId s))"

lemma ids_kept_refl [simp]: "ids_kept f f"
  by (simp add: ids_kept_def)

lemma ids_kept_trans [trans]: "ids_kept f g \<Longrightarrow> ids_kept g h \<Longrightarrow> ids_kept f h"
  unfolding ids_kept_def by metis

lemma ids_kept_assign:
  assumes "sm_inv (sessions f)" "map_of (sessions f) a = Some s" "getStreamId s' = getStreamId s"
  shows "ids_kept f (f\<lparr>sessions := sm_assign a s' (sessions f)\<rparr>)"
  using assms by (simp add: ids_kept_def map_of_sm_assign)

lemma findSession_ids: "sm_inv (sessions f) \<Longrightarrow> findSession i f = Some (r, f') \<Longrightarrow> ids_kept f f'"
  by (auto simp: findSession_def add_ref_def session_addReference_def intro!: ids_kept_assign split: option.splits if_splits)

lemma release_at_ids: "release_at now stop a f = Some f' \<Longrightarrow> sm_inv (sessions f) \<Longrightarrow> ids_kept f f'"
proof (induction "length (sessions f)" arbitrary: f a rule: less_induct)
  case less
  obtain s0 where s0: "map_of (sessions f) a = Some s0"
    using less.prems(1) by (auto simp: release_at.simps [of now stop a f] split: option.splits)
  let ?s = "session_decReference s0"
  let ?f1 = "f\<lparr>sessions := sm_assign a ?s (sessions f)\<rparr>"
  let ?f2 = "unlink_session now stop (getStreamId ?s) a ?s ?f1"
  have h: "sessions ?f2 = sm_erase a (sessions f)" by (simp add: unlink_session_def Let_def sm_erase_assign)
  have len: "length (sessions ?f2) < length (sessions f)" using s0 unfolding h by (rule length_sm_erase_less)
  have f2: "ids_kept f ?f2" "sm_inv (sessions ?f2)"
    unfolding ids_kept_def h using less.prems(2) by (auto simp: map_of_sm_erase sm_inv_erase split: if_splits)
  have f1: "ids_kept f ?f1" using ids_kept_assign [OF less.prems(2) s0, of ?s] by (simp add: session_decReference_def)
  have "ids_kept ?f2 f'" if "release_at now stop q ?f2 = Some f'" for q using less.hyps [OF len that f2(2)] .
  then show ?case
    using less.prems(1) s0 f1 f2(1) ids_kept_trans
    by (auto simp: release_at.simps [of now stop a f] Let_def split: if_splits option.splits)
qed

lemma add_ref_ids: "sm_inv (sessions f) \<Longrightarrow> add_ref a f = Some f' \<Longrightarrow> ids_kept f f' \<and> sm_inv (sessions f')"
  by (auto simp: add_ref_def session_addReference_def sm_inv_assign intro!: ids_kept_assign split: option.splits if_splits)

lemma add_refs_ids: "add_refs as f = Some f' \<Longrightarrow> sm_inv (sessions f) \<Longrightarrow> ids_kept f f'"
proof (induction as arbitrary: f)
  case (Cons a as)
  then obtain f1 where f1: "add_ref a f = Some f1" "add_refs as f1 = Some f'" by (auto split: option.splits)
  then show ?case using add_ref_ids [OF Cons.prems(2) f1(1)] Cons.IH [OF f1(2)] ids_kept_trans by blast
qed simp

lemma check_loop_ids: "check_loop now chk as (sessions f) = Some h \<Longrightarrow> sm_inv (sessions f) \<Longrightarrow> ids_kept f (f\<lparr>sessions := h\<rparr>)"
proof (induction as arbitrary: f)
  case (Cons a as)
  then obtain s where s: "map_of (sessions f) a = Some s" by (auto split: option.splits)
  let ?f = "f\<lparr>sessions := sm_assign a (checkSessionStatus now (chk s) s) (sessions f)\<rparr>"
  have "same_object s (checkSessionStatus now (chk s) s)" by (rule session_step_same [OF session_step.check])
  then have "ids_kept f ?f" by (intro ids_kept_assign [OF Cons.prems(2) s]) (simp add: same_object_def getStreamId_def)
  moreover have "ids_kept ?f (?f\<lparr>sessions := h\<rparr>)"
    using Cons.IH [of ?f] Cons.prems s by (simp add: sm_inv_assign)
  ultimately show ?case using ids_kept_trans by fastforce
qed (simp add: ids_kept_def)

text \<open>A step of the factory never changes the id of a session that was there before and is there after.\<close>

definition ids_agree :: "CStreamSessionFactory \<Rightarrow> CStreamSessionFactory \<Rightarrow> bool" where
  "ids_agree f f' \<longleftrightarrow> (\<forall>a s s'. map_of (sessions f) a = Some s \<longrightarrow> map_of (sessions f') a = Some s' \<longrightarrow> getStreamId s' = getStreamId s)"

lemma ids_kept_agree: "ids_kept f f' \<Longrightarrow> ids_agree f f'"
  unfolding ids_kept_def ids_agree_def by fastforce

lemma create_cases:
  assumes "createSession rc mem e addr p t l f = Some (r, f') \<or> createSourceSession rc mem e addr c p t l f = Some (r, f')"
  obtains a g where "sessions g = sessions f" "add_ref a g = Some f'" | "sessions f' = sessions f"
    | s where "sessions f' = sm_insert addr s (sessions f)"
proof -
  let ?f = "(if \<not> m_pStatusTimer f then startStatusCheckTimer rc mem f else f)\<lparr>m_SessionIndex := m_SessionIndex f + 1\<rparr>"
  have g: "sessions ?f = sessions f" by simp
  have "(\<exists>a. add_ref a ?f = Some f') \<or> sessions f' = sessions f \<or> (\<exists>s. sessions f' = sm_insert addr s (sessions f))"
    using assms by (auto simp: createSession_def createSourceSession_def Let_def split: option.splits if_splits)
  then show thesis using that g by blast
qed

lemma create_ids:
  assumes "sm_inv (sessions f)" "map_of (sessions f) addr = None"
  shows "createSession rc mem e addr p t l f = Some (r, f') \<Longrightarrow> ids_agree f f'"
    and "createSourceSession rc mem e addr c p t l f = Some (r, f') \<Longrightarrow> ids_agree f f'"
proof -
  have ref: "ids_agree f f'" if "add_ref a g = Some f'" "sessions g = sessions f" for a g
    using ids_kept_agree [OF conjunct1 [OF add_ref_ids [OF _ that(1)]]] assms(1) that(2) by (simp add: ids_agree_def)
  have new: "ids_agree f g" if "sessions g = sm_insert addr s (sessions f) \<or> sessions g = sessions f" for g s
    using that assms by (auto simp: ids_agree_def map_of_sm_insert split: if_splits)
  show "createSession rc mem e addr p t l f = Some (r, f') \<Longrightarrow> ids_agree f f'"
    "createSourceSession rc mem e addr c p t l f = Some (r, f') \<Longrightarrow> ids_agree f f'"
    by (metis create_cases ref new)+
qed

lemma resetRtpPt_ids:
  assumes "sm_inv (sessions f)" "resetRtpPt a cPt f = Some (pt, f')" shows "ids_agree f f'"
proof -
  have "ids_agree f (g\<lparr>sessions := sm_assign a (s\<lparr>m_class := c\<rparr>) (sessions g)\<rparr>)"
    if g: "findSession i f = Some (q, g)" and s: "map_of (sessions g) a = Some s" for i q g s c
  proof -
    have "ids_kept f g" "sm_inv (sessions g)"
      using findSession_ids [OF assms(1) g] assms(1) g
      by (auto simp: findSession_def dest: add_ref_ids split: option.splits)
    moreover have "ids_kept g (g\<lparr>sessions := sm_assign a (s\<lparr>m_class := c\<rparr>) (sessions g)\<rparr>)"
      using calculation(2) by (intro ids_kept_assign [OF _ s]) (simp_all add: getStreamId_def)
    ultimately show ?thesis using ids_kept_trans ids_kept_agree by blast
  qed
  then show ?thesis
    using assms(2) ids_kept_agree [OF ids_kept_refl]
    by (auto simp: resetRtpPt_def split: option.splits session_class.splits if_splits)
qed

lemma factory_step_ids: "factory_step f R f' R' \<Longrightarrow> fac_inv f R \<Longrightarrow> ids_agree f f'"
proof (induction rule: factory_step.induct)
  case (find_content f R c r f')
  have "(\<exists>a. add_ref a f = Some f') \<or> f' = f"
    using find_content(2) by (auto simp: findSession_content_def split: list.splits option.splits)
  then show ?case using add_ref_ids [OF fac_invD(1) [OF find_content.prems]] ids_kept_agree ids_kept_refl by blast
next
  case (get_all f R l f')
  then show ?case
    using add_refs_ids [OF _ fac_invD(1) [OF get_all.prems]] ids_kept_agree by (auto simp: getAllSession_def Let_def)
next
  case (release now stop a f f' R)
  then show ?case
    using release_at_ids [OF _ fac_invD(1) [OF release.prems]] ids_kept_agree by (auto simp: releaseSession_def)
next
  case (release_id f i a now stop f' R)
  then show ?case
    using release_at_ids [OF _ fac_invD(1) [OF release_id.prems]] ids_kept_agree releaseSession_id_eq by metis
next
  case (check now chk f f' R)
  then show ?case
    using check_loop_ids [OF _ fac_invD(1) [OF check.prems]] ids_kept_agree by (auto simp: factory_checkSessionStatus_def)
next
  case (work a R f s s')
  have "getStreamId s' = getStreamId s"
    using session_step_same [OF work(3)] by (simp add: same_object_def getStreamId_def)
  then show ?case using ids_kept_agree [OF ids_kept_assign [OF fac_invD(1) [OF work.prems] work(2)]] by blast
next
  case (content a R f s c)
  have "getStreamId (setContentID c s) = getStreamId s" by (simp add: setContentID_def getStreamId_def)
  then show ?case using ids_kept_agree [OF ids_kept_assign [OF fac_invD(1) [OF content.prems] content(2)]] by blast
next
  case (create f R addr rc mem e p t l r f')
  then show ?case using create_ids(1) [OF fac_invD(1) [OF create.prems]] by blast
next
  case (create_source f R addr rc mem e c p t l r f')
  then show ?case using create_ids(2) [OF fac_invD(1) [OF create_source.prems]] by blast
next
  case (find f R i r f')
  then show ?case using ids_kept_agree [OF findSession_ids [OF fac_invD(1) [OF find.prems]]] by blast
next
  case (reset_pt f R a s p t b e cPt pt f')
  then show ?case using resetRtpPt_ids [OF fac_invD(1) [OF reset_pt.prems]] by blast
qed

end
