(* ===== verification/StreamBusiness.thy ===== *)
theory StreamBusiness
  imports SessionFactory
begin

text \<open>
  \<open>svs_adapter_business.cpp\<close>, with the constructor, \<open>Init\<close> and destructor of \<open>CStreamMediaProcessor\<close>: a business
  joins the session that receives a stream and the session that sends it on.  It holds a reference to both, and when
  both are ready it makes a processor that holds another reference to the sender and hands it to the media exchange.

  A business is a value here; the manager keeps the live ones in its own heap.  What it acts on is a \<open>stream_world\<close>:
  the session factory, the heap of processors and the messages that were put into the queues of the media exchange, in
  order.  \<open>enq\<close> says whether \<open>addMediaProcessor\<close> or \<open>delMediaProcessor\<close> got its message into the queue.  As for the
  factory, an operation that uses a deleted object has no result.
\<close>

section \<open>Data\<close>

record CStreamMediaProcessor =
  m_SendSessionId :: u64
  mp_pSendSession :: ptr

datatype exchange_msg =
    AddSession u64 nat MEDIA_TRANS_TYPE MEDIA_TRANS_TYPE
  | DelSession u64 nat MEDIA_TRANS_TYPE

record stream_world =
  factory :: CStreamSessionFactory
  processors :: "(nat, CStreamMediaProcessor) stdmap"
  posted :: "exchange_msg list"

record CStreamBusiness =
  m_nRefCount :: int
  m_szContentID :: string
  m_pRecvSession :: ptr
  m_pSendSession :: ptr
  mb_enPlayType :: PLAY_TYPE
  m_pRecvProcessor :: ptr
  m_pSendProcessor :: ptr
  mb_OutputRate :: u32
  m_ullFluxSize :: u64
  m_unStartTime :: u32
  m_unEndTime :: u32

definition CStreamBusiness_new :: CStreamBusiness where
  "CStreamBusiness_new =
     \<lparr> m_nRefCount = 1, m_szContentID = [], m_pRecvSession = None, m_pSendSession = None, mb_enPlayType = PLAY_TYPE_MAX,
       m_pRecvProcessor = None, m_pSendProcessor = None, mb_OutputRate = 0, m_ullFluxSize = 0, m_unStartTime = 0,
       m_unEndTime = 0 \<rparr>"

text \<open>A session through a pointer of the business.\<close>

definition session_at :: "nat \<Rightarrow> stream_world \<Rightarrow> CStreamSession option" where
  "session_at a w = map_of (sessions (factory w)) a"

text \<open>\<open>releaseSession\<close> on the factory of the world.\<close>

definition world_release :: "u32 \<Rightarrow> (CStreamSession \<Rightarrow> vcall) \<Rightarrow> ptr \<Rightarrow> stream_world \<Rightarrow> stream_world option" where
  "world_release now stop p w = map_option (\<lambda>f. w\<lparr>factory := f\<rparr>) (releaseSession now stop p (factory w))"

section \<open>Processors\<close>

definition CStreamMediaProcessor_new :: CStreamMediaProcessor where
  "CStreamMediaProcessor_new = \<lparr> m_SendSessionId = 0, mp_pSendSession = None \<rparr>"

text \<open>\<open>CStreamMediaProcessor::Init\<close> of the processor at \<open>p\<close>.\<close>

definition processor_Init :: "u64 \<Rightarrow> nat \<Rightarrow> stream_world \<Rightarrow> (retcode \<times> stream_world) option" where
  "processor_Init ullSendSessionID p w =
     (case map_of (processors w) p of
        None \<Rightarrow> None
      | Some pr \<Rightarrow>
          if mp_pSendSession pr \<noteq> None then Some (RET_FAIL, w)
          else (case findSession ullSendSessionID (factory w) of
                  None \<Rightarrow> None
                | Some (None, f) \<Rightarrow> Some (RET_ERR_PARAM, w\<lparr>factory := f\<rparr>)
                | Some (Some a, f) \<Rightarrow>
                    Some (RET_OK, w\<lparr>factory := f, processors :=
                      sm_assign p (pr\<lparr>mp_pSendSession := Some a, m_SendSessionId := ullSendSessionID\<rparr>) (processors w)\<rparr>)))"

text \<open>\<open>delete\<close> of a processor pointer: the destructor gives the reference to the send session back.\<close>

definition delete_processor ::
    "u32 \<Rightarrow> (CStreamSession \<Rightarrow> vcall) \<Rightarrow> ptr \<Rightarrow> stream_world \<Rightarrow> stream_world option" where
  "delete_processor now stop q w =
     (case q of
        None \<Rightarrow> Some w
      | Some p \<Rightarrow>
          (case map_of (processors w) p of
             None \<Rightarrow> None
           | Some pr \<Rightarrow> world_release now stop (mp_pSendSession pr) (w\<lparr>processors := sm_erase p (processors w)\<rparr>)))"

section \<open>The business\<close>

definition business_init ::
    "u64 \<Rightarrow> u64 \<Rightarrow> PLAY_TYPE \<Rightarrow> CStreamBusiness \<Rightarrow> stream_world \<Rightarrow> (retcode \<times> CStreamBusiness \<times> stream_world) option" where
  "business_init recvSessionId sendSessionId enPlayType b w =
     (case findSession recvSessionId (factory w) of
        None \<Rightarrow> None
      | Some (None, f1) \<Rightarrow> Some (RET_FAIL, b\<lparr>m_pRecvSession := None\<rparr>, w\<lparr>factory := f1\<rparr>)
      | Some (Some r, f1) \<Rightarrow>
          (case findSession sendSessionId f1 of
             None \<Rightarrow> None
           | Some (None, f2) \<Rightarrow>
               Some (RET_FAIL, b\<lparr>m_pRecvSession := Some r, m_pSendSession := None\<rparr>, w\<lparr>factory := f2\<rparr>)
           | Some (Some s, f2) \<Rightarrow>
               (case map_of (sessions f2) r of
                  None \<Rightarrow> None
                | Some rs \<Rightarrow>
                    Some (RET_OK, b\<lparr>m_pRecvSession := Some r, m_pSendSession := Some s,
                                     m_szContentID := take CONTENT_ID_LEN (getContentID rs), mb_enPlayType := enPlayType\<rparr>,
                          w\<lparr>factory := f2\<rparr>))))"

definition stream_id_of :: "ptr \<Rightarrow> stream_world \<Rightarrow> u64 option" where
  "stream_id_of p w = (case p of None \<Rightarrow> Some 0 | Some a \<Rightarrow> map_option getStreamId (session_at a w))"

definition getRecvStreamID :: "CStreamBusiness \<Rightarrow> stream_world \<Rightarrow> u64 option" where
  "getRecvStreamID b w = stream_id_of (m_pRecvSession b) w"

definition getSendStreamID :: "CStreamBusiness \<Rightarrow> stream_world \<Rightarrow> u64 option" where
  "getSendStreamID b w = stream_id_of (m_pSendSession b) w"

definition business_getSession :: "u64 \<Rightarrow> CStreamBusiness \<Rightarrow> stream_world \<Rightarrow> ptr option" where
  "business_getSession unStreamID b w =
     (case (getRecvStreamID b w, getSendStreamID b w) of
        (Some i, Some j) \<Rightarrow>
          Some (if unStreamID = i then m_pRecvSession b else if unStreamID = j then m_pSendSession b else None)
      | _ \<Rightarrow> None)"

text \<open>
  \<open>handleInnerMsg\<close> passes a message on to one session, with the other as its peer; the result is that pair, or nothing
  when the message is dropped.
\<close>

definition handleInnerMsg :: "u64 \<Rightarrow> CStreamBusiness \<Rightarrow> stream_world \<Rightarrow> (nat \<times> nat) option option" where
  "handleInnerMsg ullStreamID b w =
     (case (m_pRecvSession b, m_pSendSession b) of
        (Some r, Some s) \<Rightarrow>
          (case (getRecvStreamID b w, getSendStreamID b w) of
             (Some i, Some j) \<Rightarrow>
               Some (if i = ullStreamID then Some (r, s) else if j = ullStreamID then Some (s, r) else None)
           | _ \<Rightarrow> None)
      | _ \<Rightarrow> Some None)"

text \<open>
  \<open>statFluxInfo\<close>: \<open>flux\<close> is what \<open>getFlux\<close> of the receiving processor returns with its two times.  The products are
  \<open>uint32_t\<close>; a divisor that wraps to zero is undefined.
\<close>

definition statFluxInfo :: "(nat \<Rightarrow> u32 \<times> u32 \<times> u32) \<Rightarrow> CStreamBusiness \<Rightarrow> CStreamBusiness option" where
  "statFluxInfo flux b =
     (case m_pRecvProcessor b of
        None \<Rightarrow> Some b
      | Some p \<Rightarrow>
          let (n, st, en) = flux p;
              b1 = b\<lparr>m_ullFluxSize := ucast n, m_unStartTime := st, m_unEndTime := en\<rparr>
          in if en > st
             then (if 1024 * (en - st) = 0 then None
                   else Some (b1\<lparr>mb_OutputRate := ((ucast (m_ullFluxSize b1) :: u32) * 8) div (1024 * (en - st))\<rparr>))
             else Some b1)"

definition business_getInputRate :: "(nat \<Rightarrow> u32) \<Rightarrow> CStreamBusiness \<Rightarrow> u32" where
  "business_getInputRate rate b = (case m_pRecvProcessor b of None \<Rightarrow> 0 | Some p \<Rightarrow> rate p)"

definition business_addReference :: "CStreamBusiness \<Rightarrow> CStreamBusiness option" where
  "business_addReference b = (if m_nRefCount b = 2 ^ 31 - 1 then None else Some (b\<lparr>m_nRefCount := m_nRefCount b + 1\<rparr>))"

definition business_decReference :: "CStreamBusiness \<Rightarrow> CStreamBusiness" where
  "business_decReference b = b\<lparr>m_nRefCount := m_nRefCount b - 1\<rparr>"

subsection \<open>Starting\<close>

definition createDirectProcessor :: "nat \<Rightarrow> CStreamBusiness \<Rightarrow> stream_world \<Rightarrow> CStreamBusiness \<times> stream_world" where
  "createDirectProcessor paddr b w =
     (if m_pSendSession b = None \<or> m_pRecvSession b = None then (b, w)
      else (b\<lparr>m_pRecvProcessor := Some paddr\<rparr>,
            w\<lparr>processors := sm_insert paddr CStreamMediaProcessor_new (processors w)\<rparr>))"

definition registMediaProcessor :: "bool \<Rightarrow> CStreamBusiness \<Rightarrow> stream_world \<Rightarrow> (retcode \<times> stream_world) option" where
  "registMediaProcessor enq b w =
     (case (getRecvStreamID b w, getSendStreamID b w) of
        (Some recvStreamId, Some sendStreamId) \<Rightarrow>
          (case m_pRecvProcessor b of
             None \<Rightarrow> Some (RET_FAIL, w)
           | Some p \<Rightarrow>
               (case (m_pSendSession b, m_pRecvSession b) of
                  (Some s, Some r) \<Rightarrow>
                    (case (session_at r w, session_at s w) of
                       (Some rs, Some ss) \<Rightarrow>
                         (case processor_Init sendStreamId p w of
                            None \<Rightarrow> None
                          | Some (ret, w1) \<Rightarrow>
                              if ret \<noteq> RET_OK then Some (RET_FAIL, w1)
                              else if \<not> enq then Some (RET_FAIL, w1)
                              else Some (RET_OK, w1\<lparr>posted := posted w1 @
                                     [AddSession recvStreamId p (getMediaTransType rs) (getMediaTransType ss)]\<rparr>))
                     | _ \<Rightarrow> None)
                | _ \<Rightarrow> Some (RET_FAIL, w)))
      | _ \<Rightarrow> None)"

definition createMediaProcessor ::
    "u32 \<Rightarrow> (CStreamSession \<Rightarrow> vcall) \<Rightarrow> bool \<Rightarrow> nat \<Rightarrow> CStreamBusiness \<Rightarrow> stream_world \<Rightarrow>
     (retcode \<times> CStreamBusiness \<times> stream_world) option" where
  "createMediaProcessor now stop enq paddr b w =
     (case m_pSendSession b of
        None \<Rightarrow> Some (RET_FAIL, b, w)
      | Some s \<Rightarrow>
          (case session_at s w of
             None \<Rightarrow> None
           | Some ss \<Rightarrow>
               (case delete_processor now stop (m_pRecvProcessor b) w of
                  None \<Rightarrow> None
                | Some w1 \<Rightarrow>
                    let b1 = b\<lparr>m_pRecvProcessor := None\<rparr>
                    in if getPlayType ss = PLAY_TYPE_LIVE \<or> getPlayType ss = PLAY_TYPE_FRONT_RECORD
                       then let (b2, w2) = createDirectProcessor paddr b1 w1
                            in (case registMediaProcessor enq b2 w2 of
                                  None \<Rightarrow> None
                                | Some (ret, w3) \<Rightarrow>
                                    if ret \<noteq> RET_OK
                                    then (case delete_processor now stop (m_pRecvProcessor b2) w3 of
                                            None \<Rightarrow> None
                                          | Some w4 \<Rightarrow>
                                              (case delete_processor now stop (m_pSendProcessor b2) w4 of
                                                 None \<Rightarrow> None
                                               | Some w5 \<Rightarrow>
                                                   Some (RET_FAIL, b2\<lparr>m_pRecvProcessor := None, m_pSendProcessor := None\<rparr>, w5)))
                                    else Some (RET_OK, b2, w3))
                       else Some (RET_FAIL, b1, w1))))"

definition business_start ::
    "u32 \<Rightarrow> (CStreamSession \<Rightarrow> vcall) \<Rightarrow> bool \<Rightarrow> nat \<Rightarrow> CStreamBusiness \<Rightarrow> stream_world \<Rightarrow>
     (retcode \<times> CStreamBusiness \<times> stream_world) option" where
  "business_start now stop enq paddr b w =
     (case (m_pRecvSession b, m_pSendSession b) of
        (Some r, Some s) \<Rightarrow>
          (case (session_at r w, session_at s w) of
             (Some rs, Some ss) \<Rightarrow>
               if STREAM_SESSION_STATUS_WAIT_CHANNEL_REDAY \<le> getStatus rs \<and> STREAM_SESSION_STATUS_WAIT_CHANNEL_REDAY \<le> getStatus ss
               then (case createMediaProcessor now stop enq paddr b w of
                       None \<Rightarrow> None
                     | Some (ret, b1, w1) \<Rightarrow> if ret \<noteq> RET_OK then Some (RET_FAIL, b1, w1) else Some (RET_OK, b1, w1))
               else Some (RET_OK, b, w)
           | _ \<Rightarrow> None)
      | _ \<Rightarrow> Some (RET_FAIL, b, w))"

subsection \<open>Stopping\<close>

definition post_del :: "bool \<Rightarrow> u64 \<Rightarrow> ptr \<Rightarrow> MEDIA_TRANS_TYPE \<Rightarrow> stream_world \<Rightarrow> stream_world" where
  "post_del enq i q t w =
     (case q of None \<Rightarrow> w | Some p \<Rightarrow> if enq then w\<lparr>posted := posted w @ [DelSession i p t]\<rparr> else w)"

definition destroyMediaProcessor :: "bool \<Rightarrow> CStreamBusiness \<Rightarrow> stream_world \<Rightarrow> (CStreamBusiness \<times> stream_world) option" where
  "destroyMediaProcessor enq b w =
     (case m_pRecvSession b of
        None \<Rightarrow> Some (b, w)
      | Some r \<Rightarrow>
          (case session_at r w of
             None \<Rightarrow> None
           | Some rs \<Rightarrow>
               let unTransType = getMediaTransType rs;
                   w1 = post_del enq (getStreamId rs) (m_pRecvProcessor b) unTransType w
               in (case m_pSendProcessor b of
                     None \<Rightarrow> Some (b\<lparr>m_pRecvProcessor := None\<rparr>, w1)
                   | Some p \<Rightarrow>
                       (case getSendStreamID b w1 of
                          None \<Rightarrow> None
                        | Some j \<Rightarrow> Some (b\<lparr>m_pRecvProcessor := None, m_pSendProcessor := None\<rparr>,
                                          post_del enq j (Some p) unTransType w1)))))"

definition business_stop ::
    "u32 \<Rightarrow> (CStreamSession \<Rightarrow> vcall) \<Rightarrow> bool \<Rightarrow> CStreamBusiness \<Rightarrow> stream_world \<Rightarrow> (CStreamBusiness \<times> stream_world) option" where
  "business_stop now stop enq b w =
     (case destroyMediaProcessor enq b w of
        None \<Rightarrow> None
      | Some (b1, w1) \<Rightarrow>
          (case world_release now stop (m_pRecvSession b1) w1 of
             None \<Rightarrow> None
           | Some w2 \<Rightarrow>
               (case world_release now stop (m_pSendSession b1) w2 of
                  None \<Rightarrow> None
                | Some w3 \<Rightarrow> Some (b1\<lparr>m_pRecvSession := None, m_pSendSession := None\<rparr>, w3))))"

text \<open>\<open>delete\<close> of a business: the destructor stops it.\<close>

definition delete_business ::
    "u32 \<Rightarrow> (CStreamSession \<Rightarrow> vcall) \<Rightarrow> bool \<Rightarrow> CStreamBusiness \<Rightarrow> stream_world \<Rightarrow> stream_world option" where
  "delete_business now stop enq b w = map_option snd (business_stop now stop enq b w)"

section \<open>References of a world\<close>

text \<open>
  \<open>world_inv w R\<close>: the factory is consistent with the references \<open>R\<close> and those the processors hold.
\<close>

definition proc_mset :: "CStreamMediaProcessor \<Rightarrow> nat multiset" where
  "proc_mset pr = opt_mset (mp_pSendSession pr)"

definition biz_mset :: "CStreamBusiness \<Rightarrow> nat multiset" where
  "biz_mset b = opt_mset (m_pRecvSession b) + opt_mset (m_pSendSession b)"

definition world_refs :: "stream_world \<Rightarrow> nat multiset \<Rightarrow> nat multiset" where
  "world_refs w R = R + heap_refs proc_mset (processors w)"

definition world_inv :: "stream_world \<Rightarrow> nat multiset \<Rightarrow> bool" where
  "world_inv w R \<longleftrightarrow> fac_inv (factory w) (world_refs w R) \<and> sm_inv (processors w)"

definition world_room :: "stream_world \<Rightarrow> nat multiset \<Rightarrow> nat \<Rightarrow> bool" where
  "world_room w R n \<longleftrightarrow> size (world_refs w R) + n + length (sessions (factory w)) < 2 ^ 31 - 1"

lemma world_session: "world_inv w R \<Longrightarrow> a \<in># R \<Longrightarrow> \<exists>s. session_at a w = Some s"
  using fac_invD(6) [of "factory w" "world_refs w R" a] by (auto simp: world_inv_def world_refs_def session_at_def)

lemma world_session_id:
  assumes "world_inv w R" "session_at a w = Some s" "ids_kept (factory w) (factory w')" "world_inv w' R'" "a \<in># R'"
  shows "\<exists>s'. session_at a w' = Some s' \<and> getStreamId s' = getStreamId s"
  using world_session [OF assms(4,5)] assms(2,3) by (force simp: ids_kept_def session_at_def)

lemma world_release_ok:
  assumes "world_inv w (R + opt_mset p)"
  shows "\<exists>w'. world_release now stop p w = Some w' \<and> world_inv w' R \<and> processors w' = processors w \<and>
    posted w' = posted w \<and> ids_kept (factory w) (factory w') \<and> length (sessions (factory w')) \<le> length (sessions (factory w))"
proof (cases p)
  case None
  then show ?thesis using assms by (simp add: world_release_def releaseSession_def)
next
  case (Some a)
  then have inv: "fac_inv (factory w) (add_mset a (world_refs w R))" using assms by (simp add: world_inv_def world_refs_def)
  obtain f where f: "release_at now stop a (factory w) = Some f" "fac_inv f (world_refs w R)"
    "length (sessions f) \<le> length (sessions (factory w))"
    using release_at_ok [OF inv] by blast
  have "ids_kept (factory w) f" by (rule release_at_ids [OF f(1) fac_invD(1) [OF inv]])
  then show ?thesis using Some f assms by (simp add: world_release_def releaseSession_def world_inv_def world_refs_def)
qed

text \<open>The factory's lookup with the references of the processors set aside.\<close>

lemma world_find_ok:
  assumes "world_inv w R" "world_room w R 0"
  shows "\<exists>r f. findSession i (factory w) = Some (r, f) \<and> world_inv (w\<lparr>factory := f\<rparr>) (R + opt_mset r) \<and>
    ids_kept (factory w) f \<and> length (sessions f) = length (sessions (factory w)) \<and>
    (\<forall>a. r = Some a \<longrightarrow> stream_id_of r (w\<lparr>factory := f\<rparr>) = Some i)"
proof -
  have inv: "fac_inv (factory w) (world_refs w R)" using assms(1) by (simp add: world_inv_def)
  obtain r f where f: "findSession i (factory w) = Some (r, f)" "fac_inv f (world_refs w R + opt_mset r)"
    "length (sessions f) = length (sessions (factory w))"
    using findSession_ok [OF inv, of i] assms(2) by (auto simp: world_room_def)
  have "stream_id_of r (w\<lparr>factory := f\<rparr>) = Some i" if "r = Some a" for a
  proof -
    have "map_of (m_SessionMap (factory w)) i = Some a" using f(1) that by (auto simp: findSession_def split: option.splits)
    then show ?thesis
      using fac_invD(3) [OF f(2), of i a] findSession_frame [OF f(1)] that by (auto simp: stream_id_of_def session_at_def)
  qed
  then show ?thesis
    using f findSession_ids [OF fac_invD(1) [OF inv] f(1)] assms(1) by (auto simp: world_inv_def world_refs_def ac_simps)
qed

text \<open>A business that is being set up takes one reference for each session it found.\<close>

lemma business_init_ok:
  assumes inv: "world_inv w R" and room: "world_room w R 1" and b: "m_pRecvSession b = None" "m_pSendSession b = None"
  shows "\<exists>ret b' w'. business_init i j play b w = Some (ret, b', w') \<and> world_inv w' (R + biz_mset b') \<and>
    ids_kept (factory w) (factory w') \<and> processors w' = processors w \<and> posted w' = posted w \<and>
    m_nRefCount b' = m_nRefCount b \<and> m_pRecvProcessor b' = m_pRecvProcessor b \<and> m_pSendProcessor b' = m_pSendProcessor b \<and>
    (ret = RET_OK \<longrightarrow> m_pRecvSession b' \<noteq> None \<and> m_pSendSession b' \<noteq> None \<and>
       getRecvStreamID b' w' = Some i \<and> getSendStreamID b' w' = Some j)"
proof -
  obtain r f1 where 1: "findSession i (factory w) = Some (r, f1)" "world_inv (w\<lparr>factory := f1\<rparr>) (R + opt_mset r)"
      "ids_kept (factory w) f1" "length (sessions f1) = length (sessions (factory w))"
      "\<forall>a. r = Some a \<longrightarrow> stream_id_of r (w\<lparr>factory := f1\<rparr>) = Some i"
    using world_find_ok [OF inv, of i] room by (auto simp: world_room_def)
  show ?thesis
  proof (cases r)
    case None
    then show ?thesis using 1 b by (simp add: business_init_def biz_mset_def)
  next
    case (Some a)
    let ?w1 = "w\<lparr>factory := f1\<rparr>"
    have "world_room ?w1 (R + opt_mset r) 0" using room 1(4) Some by (simp add: world_room_def world_refs_def)
    then obtain s f2 where 2: "findSession j f1 = Some (s, f2)" "world_inv (w\<lparr>factory := f2\<rparr>) (R + opt_mset r + opt_mset s)"
        "ids_kept f1 f2" "\<forall>c. s = Some c \<longrightarrow> stream_id_of s (w\<lparr>factory := f2\<rparr>) = Some j"
      using world_find_ok [OF 1(2), of j] by auto
    obtain rs1 where rs1: "session_at a ?w1 = Some rs1" "getStreamId rs1 = i"
      using 1(5) Some by (auto simp: stream_id_of_def)
    then obtain rs where rs: "session_at a (w\<lparr>factory := f2\<rparr>) = Some rs" "getStreamId rs = i"
      using world_session_id [OF 1(2) rs1(1), of "w\<lparr>factory := f2\<rparr>" "R + opt_mset r + opt_mset s"] 2(2,3) Some by auto
    have kept: "ids_kept (factory w) f2" by (rule ids_kept_trans [OF 1(3) 2(3)])
    show ?thesis
    proof (cases s)
      case None
      then show ?thesis using 1(1) 2(1,2) Some kept by (simp add: business_init_def biz_mset_def)
    next
      case (Some c)
      have "map_of (sessions f2) a = Some rs" using rs(1) by (simp add: session_at_def)
      then show ?thesis
        using 1(1) 2(1,2) \<open>r = Some a\<close> Some kept rs 2(4)
        by (simp add: business_init_def biz_mset_def getRecvStreamID_def getSendStreamID_def stream_id_of_def add_mset_commute)
    qed
  qed
qed

text \<open>Stopping a business gives both references back.\<close>

lemma destroyMediaProcessor_ok:
  assumes "world_inv w (R + biz_mset b)" "m_pSendProcessor b = None"
  shows "\<exists>b' w'. destroyMediaProcessor enq b w = Some (b', w') \<and> factory w' = factory w \<and> processors w' = processors w \<and>
    m_pRecvSession b' = m_pRecvSession b \<and> m_pSendSession b' = m_pSendSession b \<and> m_pSendProcessor b' = None"
proof (cases "m_pRecvSession b")
  case (Some r)
  then obtain rs where "session_at r w = Some rs" using world_session [OF assms(1), of r] by (auto simp: biz_mset_def)
  then show ?thesis
    using Some assms(2) by (auto simp: destroyMediaProcessor_def post_del_def Let_def split: option.split)
qed (use assms in \<open>simp add: destroyMediaProcessor_def\<close>)

lemma business_stop_ok:
  assumes inv: "world_inv w (R + biz_mset b)" and p: "m_pSendProcessor b = None"
  shows "\<exists>b' w'. business_stop now stop enq b w = Some (b', w') \<and> world_inv w' R \<and> processors w' = processors w \<and>
    biz_mset b' = {#} \<and> m_pSendProcessor b' = None \<and> ids_kept (factory w) (factory w')"
proof -
  obtain b1 w1 where 1: "destroyMediaProcessor enq b w = Some (b1, w1)" "factory w1 = factory w" "processors w1 = processors w"
      "m_pRecvSession b1 = m_pRecvSession b" "m_pSendSession b1 = m_pSendSession b" "m_pSendProcessor b1 = None"
    using destroyMediaProcessor_ok [OF inv p] by blast
  have "world_inv w1 (R + opt_mset (m_pSendSession b1) + opt_mset (m_pRecvSession b1))"
    using inv 1(2-5) by (simp add: world_inv_def world_refs_def biz_mset_def ac_simps)
  then obtain w2 where 2: "world_release now stop (m_pRecvSession b1) w1 = Some w2"
      "world_inv w2 (R + opt_mset (m_pSendSession b1))" "processors w2 = processors w1" "ids_kept (factory w1) (factory w2)"
    using world_release_ok by blast
  obtain w3 where 3: "world_release now stop (m_pSendSession b1) w2 = Some w3" "world_inv w3 R" "processors w3 = processors w2"
      "ids_kept (factory w2) (factory w3)"
    using world_release_ok [OF 2(2)] by blast
  have "ids_kept (factory w) (factory w3)" using ids_kept_trans [OF 2(4) 3(4)] 1(2) by simp
  then show ?thesis using 1 2 3 by (simp add: business_stop_def biz_mset_def)
qed

text \<open>Deleting a processor gives its reference back.\<close>

definition without_proc :: "ptr \<Rightarrow> (nat, CStreamMediaProcessor) stdmap \<Rightarrow> (nat, CStreamMediaProcessor) stdmap" where
  "without_proc q h = (case q of None \<Rightarrow> h | Some p \<Rightarrow> sm_erase p h)"

lemma map_of_without_proc: "map_of (without_proc q h) p = (if q = Some p then None else map_of h p)"
  by (cases q) (auto simp: without_proc_def map_of_sm_erase)

lemma delete_processor_ok:
  assumes inv: "world_inv w R" and live: "\<And>p. q = Some p \<Longrightarrow> map_of (processors w) p \<noteq> None"
  shows "\<exists>w'. delete_processor now stop q w = Some w' \<and> world_inv w' R \<and> processors w' = without_proc q (processors w) \<and>
    posted w' = posted w \<and> ids_kept (factory w) (factory w') \<and> (world_room w R n \<longrightarrow> world_room w' R n)"
proof (cases q)
  case None
  then show ?thesis using inv by (simp add: delete_processor_def without_proc_def)
next
  case (Some p)
  then obtain pr where pr: "map_of (processors w) p = Some pr" using live by blast
  have sm: "sm_inv (processors w)" using inv by (simp add: world_inv_def)
  let ?w1 = "w\<lparr>processors := sm_erase p (processors w)\<rparr>"
  have refs: "heap_refs proc_mset (processors w) = proc_mset pr + heap_refs proc_mset (sm_erase p (processors w))"
    by (rule heap_refs_erase [OF sm pr])
  then have w1: "world_inv ?w1 (R + opt_mset (mp_pSendSession pr))"
    using inv sm_inv_erase [OF sm] by (simp add: world_inv_def world_refs_def proc_mset_def ac_simps)
  obtain w' where w': "world_release now stop (mp_pSendSession pr) ?w1 = Some w'" "world_inv w' R"
      "processors w' = sm_erase p (processors w)" "posted w' = posted w" "ids_kept (factory w) (factory w')"
      "length (sessions (factory w')) \<le> length (sessions (factory w))"
    using world_release_ok [OF w1, of now stop] by auto
  have "size (world_refs w' R) \<le> size (world_refs w R)" by (simp add: world_refs_def w'(3) refs)
  then have "world_room w R n \<longrightarrow> world_room w' R n" using w'(6) by (simp add: world_room_def)
  then show ?thesis using w' Some pr by (simp add: delete_processor_def without_proc_def)
qed

lemma processor_Init_ok:
  assumes inv: "world_inv w R" and room: "world_room w R 0" and p: "map_of (processors w) p = Some CStreamMediaProcessor_new"
  shows "\<exists>ret w'. processor_Init i p w = Some (ret, w') \<and> world_inv w' R \<and> ids_kept (factory w) (factory w') \<and>
    posted w' = posted w \<and> (\<forall>x. map_of (processors w') x = None \<longleftrightarrow> map_of (processors w) x = None)"
proof -
  obtain r f where f: "findSession i (factory w) = Some (r, f)" "world_inv (w\<lparr>factory := f\<rparr>) (R + opt_mset r)"
      "ids_kept (factory w) f"
    using world_find_ok [OF inv room] by blast
  have sm: "sm_inv (processors w)" using inv by (simp add: world_inv_def)
  show ?thesis
  proof (cases r)
    case None
    then show ?thesis using f p by (simp add: processor_Init_def CStreamMediaProcessor_new_def)
  next
    case (Some a)
    let ?pr = "CStreamMediaProcessor_new\<lparr>mp_pSendSession := Some a, m_SendSessionId := i\<rparr>"
    have "heap_refs proc_mset (processors w) = heap_refs proc_mset (sm_erase p (processors w))"
      using heap_refs_erase [OF sm p, of proc_mset] by (simp add: proc_mset_def CStreamMediaProcessor_new_def)
    then have "heap_refs proc_mset (sm_assign p ?pr (processors w)) = add_mset a (heap_refs proc_mset (processors w))"
      using heap_refs_assign [OF sm, of proc_mset p ?pr] by (simp add: proc_mset_def)
    then have "world_inv (w\<lparr>factory := f, processors := sm_assign p ?pr (processors w)\<rparr>) R"
      using f(2) Some sm_inv_assign [OF sm] by (simp add: world_inv_def world_refs_def)
    then show ?thesis
      using f Some p by (simp add: processor_Init_def CStreamMediaProcessor_new_def map_of_sm_assign [OF sm])
  qed
qed

text \<open>
  What starting a business does to the world and to the business: the references stay accounted for, its old processor
  is gone, and if it has one afterwards it is the new one.
\<close>

definition started :: "CStreamBusiness \<Rightarrow> stream_world \<Rightarrow> nat \<Rightarrow> CStreamBusiness \<Rightarrow> stream_world \<Rightarrow> bool" where
  "started b w paddr b' w' \<longleftrightarrow>
     ids_kept (factory w) (factory w') \<and> m_nRefCount b' = m_nRefCount b \<and> m_pRecvSession b' = m_pRecvSession b \<and>
     m_pSendSession b' = m_pSendSession b \<and> m_pSendProcessor b' = m_pSendProcessor b \<and>
     (\<forall>p. m_pRecvProcessor b' = Some p \<longrightarrow> map_of (processors w') p \<noteq> None \<and> (p = paddr \<or> m_pRecvProcessor b = Some p)) \<and>
     (\<forall>p. map_of (processors w) p \<noteq> None \<longrightarrow> m_pRecvProcessor b \<noteq> Some p \<longrightarrow> map_of (processors w') p \<noteq> None)"

lemma createMediaProcessor_ok:
  assumes inv: "world_inv w R" and room: "world_room w R 0"
    and rs: "m_pRecvSession b = Some r" "m_pSendSession b = Some s" "r \<in># R" "s \<in># R" "m_pSendProcessor b = None"
    and live: "\<And>p. m_pRecvProcessor b = Some p \<Longrightarrow> map_of (processors w) p \<noteq> None"
    and fresh: "map_of (without_proc (m_pRecvProcessor b) (processors w)) paddr = None"
  shows "\<exists>ret b' w'. createMediaProcessor now stop enq paddr b w = Some (ret, b', w') \<and> world_inv w' R \<and> started b w paddr b' w'"
proof -
  obtain ss where ss: "session_at s w = Some ss" using world_session [OF inv rs(4)] by blast
  obtain w1 where w1: "delete_processor now stop (m_pRecvProcessor b) w = Some w1" "world_inv w1 R"
      "processors w1 = without_proc (m_pRecvProcessor b) (processors w)" "ids_kept (factory w) (factory w1)" "world_room w1 R 0"
    using delete_processor_ok [OF inv live, where n = 0] room by blast
  let ?b1 = "b\<lparr>m_pRecvProcessor := None\<rparr>"
  show ?thesis
  proof (cases "getPlayType ss = PLAY_TYPE_LIVE \<or> getPlayType ss = PLAY_TYPE_FRONT_RECORD")
    case False
    then show ?thesis
      using rs ss w1 by (auto simp: createMediaProcessor_def started_def map_of_without_proc)
  next
    case True
    let ?b2 = "b\<lparr>m_pRecvProcessor := Some paddr\<rparr>"
    let ?h2 = "sm_insert paddr CStreamMediaProcessor_new (processors w1)"
    let ?w2 = "w1\<lparr>processors := ?h2\<rparr>"
    have sm1: "sm_inv (processors w1)" using w1(2) by (simp add: world_inv_def)
    have h2: "map_of ?h2 = (map_of (processors w1))(paddr \<mapsto> CStreamMediaProcessor_new)"
      using fresh sm1 by (simp add: map_of_sm_insert w1(3))
    have "heap_refs proc_mset ?h2 = heap_refs proc_mset (processors w1)"
      using heap_refs_insert [OF sm1, of paddr proc_mset] fresh by (simp add: proc_mset_def CStreamMediaProcessor_new_def w1(3))
    then have w2: "world_inv ?w2 R" "world_room ?w2 R 0"
      using w1(2,5) sm_inv_insert [OF sm1] by (simp_all add: world_inv_def world_refs_def world_room_def)
    obtain rs2 ss2 where s2: "session_at r ?w2 = Some rs2" "session_at s ?w2 = Some ss2"
      using world_session [OF w2(1)] rs(3,4) by blast
    obtain ret w3 where w3: "processor_Init (getStreamId ss2) paddr ?w2 = Some (ret, w3)" "world_inv w3 R"
        "ids_kept (factory w1) (factory w3)" "\<forall>x. map_of (processors w3) x = None \<longleftrightarrow> map_of ?h2 x = None"
      using processor_Init_ok [OF w2, of paddr "getStreamId ss2"] h2 by auto
    have reg: "registMediaProcessor enq ?b2 ?w2 =
        Some (if ret \<noteq> RET_OK \<or> \<not> enq then (RET_FAIL, w3)
              else (RET_OK, w3\<lparr>posted := posted w3 @ [AddSession (getStreamId rs2) paddr (getMediaTransType rs2) (getMediaTransType ss2)]\<rparr>))"
      using rs s2 w3(1) by (simp add: registMediaProcessor_def getRecvStreamID_def getSendStreamID_def stream_id_of_def)
    have dir: "createDirectProcessor paddr ?b1 w1 = (?b2, ?w2)" using rs by (simp add: createDirectProcessor_def)
    have kept: "ids_kept (factory w) (factory w3)" by (rule ids_kept_trans [OF w1(4) w3(3)])
    have p3: "map_of (processors w3) x \<noteq> None \<longleftrightarrow> x = paddr \<or> map_of (processors w) x \<noteq> None \<and> m_pRecvProcessor b \<noteq> Some x" for x
      using w3(4) h2 by (auto simp: w1(3) map_of_without_proc split: if_splits)
    show ?thesis
    proof (cases "ret \<noteq> RET_OK \<or> \<not> enq")
      case fail: True
      have "map_of (processors w3) paddr \<noteq> None" using p3 by blast
      then obtain w4 where w4: "delete_processor now stop (Some paddr) w3 = Some w4" "world_inv w4 R"
          "processors w4 = without_proc (Some paddr) (processors w3)" "ids_kept (factory w3) (factory w4)"
        using delete_processor_ok [OF w3(2), of "Some paddr"] by blast
      have "started b w paddr (b\<lparr>m_pRecvProcessor := None, m_pSendProcessor := None\<rparr>) w4"
        using ids_kept_trans [OF kept w4(4)] rs(5) p3 fresh
        by (auto simp: started_def w4(3) map_of_without_proc split: if_splits)
      then show ?thesis
        using fail rs ss w1(1) True dir reg w4(1,2)
        by (simp add: createMediaProcessor_def delete_processor_def [of now stop None])
    next
      case ok: False
      have "started b w paddr ?b2 (w3\<lparr>posted := x\<rparr>)" for x using kept p3 by (auto simp: started_def)
      moreover have "world_inv (w3\<lparr>posted := x\<rparr>) R" for x using w3(2) by (simp add: world_inv_def world_refs_def)
      ultimately show ?thesis using ok rs ss w1(1) True dir reg by (simp add: createMediaProcessor_def)
    qed
  qed
qed

lemma business_start_ok:
  assumes inv: "world_inv w R" and room: "world_room w R 0"
    and rs: "m_pRecvSession b = Some r" "m_pSendSession b = Some s" "r \<in># R" "s \<in># R" "m_pSendProcessor b = None"
    and live: "\<And>p. m_pRecvProcessor b = Some p \<Longrightarrow> map_of (processors w) p \<noteq> None"
    and fresh: "map_of (without_proc (m_pRecvProcessor b) (processors w)) paddr = None"
  shows "\<exists>ret b' w'. business_start now stop enq paddr b w = Some (ret, b', w') \<and> world_inv w' R \<and> started b w paddr b' w'"
proof -
  obtain rss ss where s: "session_at r w = Some rss" "session_at s w = Some ss" using world_session [OF inv] rs(3,4) by blast
  obtain ret b' w' where c: "createMediaProcessor now stop enq paddr b w = Some (ret, b', w')" "world_inv w' R"
      "started b w paddr b' w'"
    using createMediaProcessor_ok [OF inv room rs live fresh] by blast
  have "started b w paddr b w" using live by (simp add: started_def)
  then show ?thesis using c s rs(1,2) inv by (simp add: business_start_def)
qed

end
