(* ===== verification/BusinessManager.thy ===== *)
theory BusinessManager
  imports StreamBusiness
begin

text \<open>
  \<open>svs_adapter_business_manager.cpp\<close>: the table of the businesses, by the ids of both their sessions, with the
  reference counts that decide when a business is deleted and the number of businesses the configuration allows.  The
  operations run under \<open>m_BusinessMapMutex\<close>; the part of \<open>createBusiness\<close> before the lock works on an object only it
  knows.  The live businesses are in the heap \<open>businesses\<close>.
\<close>

record CStreamBusinessManager =
  m_BusinessMap :: "(u64, nat) stdmultimap"
  m_unMaxBusinessNum :: u32
  m_pFluxTimer :: bool
  m_InputRate :: u32
  m_OutputRate :: u32
  businesses :: "(nat, CStreamBusiness) stdmap"
  world :: stream_world

definition CStreamBusinessManager_new :: "stream_world \<Rightarrow> CStreamBusinessManager" where
  "CStreamBusinessManager_new w =
     \<lparr> m_BusinessMap = [], m_unMaxBusinessNum = 0, m_pFluxTimer = False, m_InputRate = 0, m_OutputRate = 0,
       businesses = [], world = w \<rparr>"

definition startFluxTimer :: "bool \<Rightarrow> bool \<Rightarrow> CStreamBusinessManager \<Rightarrow> CStreamBusinessManager" where
  "startFluxTimer reactor mem m = (if \<not> reactor \<or> \<not> mem then m else m\<lparr>m_pFluxTimer := True\<rparr>)"

definition stopFluxTimer :: "bool \<Rightarrow> CStreamBusinessManager \<Rightarrow> CStreamBusinessManager" where
  "stopFluxTimer reactor m = (if \<not> m_pFluxTimer m \<or> \<not> reactor then m else m\<lparr>m_pFluxTimer := False\<rparr>)"

definition bm_initManager :: "CStreamBusinessManager \<Rightarrow> retcode \<times> CStreamBusinessManager" where
  "bm_initManager m = (RET_OK, m\<lparr>m_BusinessMap := []\<rparr>)"

definition bm_closeManager :: "bool \<Rightarrow> CStreamBusinessManager \<Rightarrow> CStreamBusinessManager" where
  "bm_closeManager reactor m = (stopFluxTimer reactor m)\<lparr>m_BusinessMap := []\<rparr>"

text \<open>
  What the calls of the manager need from outside: the clock and the ports for sessions that are closed, whether the
  media exchange took a message, the timer, and the capacity of the configuration.
\<close>

record bm_env =
  be_now :: u32
  be_stop :: "CStreamSession \<Rightarrow> vcall"
  be_enq :: bool
  be_reactor :: bool
  be_mem :: bool
  be_capacity :: u32

definition createBusiness ::
    "bm_env \<Rightarrow> nat \<Rightarrow> u64 \<Rightarrow> u64 \<Rightarrow> PLAY_TYPE \<Rightarrow> CStreamBusinessManager \<Rightarrow> (ptr \<times> CStreamBusinessManager) option" where
  "createBusiness e addr recvSessionId sendSessionId enPlayType m =
     (case business_init recvSessionId sendSessionId enPlayType CStreamBusiness_new (world m) of
        None \<Rightarrow> None
      | Some (ret, b, w) \<Rightarrow>
          if ret \<noteq> RET_OK
          then map_option (\<lambda>w'. (None, m\<lparr>world := w'\<rparr>)) (delete_business (be_now e) (be_stop e) (be_enq e) b w)
          else let m1 = (if \<not> m_pFluxTimer m then startFluxTimer (be_reactor e) (be_mem e) m else m)\<lparr>world := w\<rparr>
               in if m_unMaxBusinessNum m1 \<ge> be_capacity e
                  then (case business_stop (be_now e) (be_stop e) (be_enq e) b w of
                          None \<Rightarrow> None
                        | Some (b', w') \<Rightarrow>
                            map_option (\<lambda>w''. (None, m1\<lparr>world := w''\<rparr>))
                              (delete_business (be_now e) (be_stop e) (be_enq e) b' w'))
                  else Some (Some addr,
                         m1\<lparr>businesses := sm_insert addr b (businesses m1),
                            m_BusinessMap := mm_insert sendSessionId addr (mm_insert recvSessionId addr (m_BusinessMap m1)),
                            m_unMaxBusinessNum := m_unMaxBusinessNum m1 + 1\<rparr>))"

definition add_business_ref :: "nat \<Rightarrow> CStreamBusinessManager \<Rightarrow> CStreamBusinessManager option" where
  "add_business_ref a m =
     (case map_of (businesses m) a of
        None \<Rightarrow> None
      | Some b \<Rightarrow> map_option (\<lambda>b'. m\<lparr>businesses := sm_assign a b' (businesses m)\<rparr>) (business_addReference b))"

definition findBusiness :: "u64 \<Rightarrow> CStreamBusinessManager \<Rightarrow> (ptr \<times> CStreamBusinessManager) option" where
  "findBusiness streamID m =
     (case mm_find streamID (m_BusinessMap m) of
        [] \<Rightarrow> Some (None, m)
      | (_, a) # _ \<Rightarrow> map_option (\<lambda>m'. (Some a, m')) (add_business_ref a m))"

definition getAttachedBusinessCount :: "u64 \<Rightarrow> CStreamBusinessManager \<Rightarrow> u32" where
  "getAttachedBusinessCount streamID m = of_nat (length (filter (\<lambda>e. fst e = streamID) (m_BusinessMap m)))"

text \<open>The loop from an iterator up to the first other key, raising the counters on the way.\<close>

fun find_loop ::
    "u64 \<Rightarrow> (u64, nat) stdmultimap \<Rightarrow> nat list \<Rightarrow> CStreamBusinessManager \<Rightarrow> (nat list \<times> CStreamBusinessManager) option" where
  "find_loop streamID [] acc m = Some (acc, m)"
| "find_loop streamID ((i, a) # it) acc m =
     (if streamID \<noteq> i then Some (acc, m)
      else case add_business_ref a m of None \<Rightarrow> None | Some m' \<Rightarrow> find_loop streamID it (acc @ [a]) m')"

definition findBusiness_list :: "u64 \<Rightarrow> CStreamBusinessManager \<Rightarrow> (nat list \<times> CStreamBusinessManager) option" where
  "findBusiness_list streamID m = find_loop streamID (mm_find streamID (m_BusinessMap m)) [] m"

fun isBusinessInList :: "nat \<Rightarrow> nat list \<Rightarrow> bool" where
  "isBusinessInList p [] = False"
| "isBusinessInList p (q # l) = (if p = q then True else isBusinessInList p l)"

fun get_all_loop ::
    "(u64, nat) stdmultimap \<Rightarrow> nat list \<Rightarrow> CStreamBusinessManager \<Rightarrow> (nat list \<times> CStreamBusinessManager) option" where
  "get_all_loop [] acc m = Some (acc, m)"
| "get_all_loop ((i, a) # it) acc m =
     (if isBusinessInList a acc then get_all_loop it acc m
      else case add_business_ref a m of None \<Rightarrow> None | Some m' \<Rightarrow> get_all_loop it (acc @ [a]) m')"

definition getAllBusiness :: "CStreamBusinessManager \<Rightarrow> (nat list \<times> CStreamBusinessManager) option" where
  "getAllBusiness m = get_all_loop (m_BusinessMap m) [] m"

definition getBusinessCount :: "CStreamBusinessManager \<Rightarrow> u32" where
  "getBusinessCount m = of_nat (length (m_BusinessMap m))"

definition getBusinessCount_id :: "u64 \<Rightarrow> CStreamBusinessManager \<Rightarrow> u32" where
  "getBusinessCount_id ullStreamId m =
     of_nat (length (takeWhile (\<lambda>e. fst e = ullStreamId) (mm_find ullStreamId (m_BusinessMap m))))"

text \<open>
  \<open>statFlux\<close>: \<open>rate\<close> is the input rate of a processor.  The loop runs over the entries, so every business is
  counted for both its sessions.
\<close>

fun flux_loop ::
    "(nat \<Rightarrow> u32) \<Rightarrow> (nat, CStreamBusiness) stdmap \<Rightarrow> (u64, nat) stdmultimap \<Rightarrow> u32 \<Rightarrow> u32 \<Rightarrow> (u32 \<times> u32) option" where
  "flux_loop rate h [] i o' = Some (i, o')"
| "flux_loop rate h ((k, a) # it) i o' =
     (case map_of h a of None \<Rightarrow> None | Some b \<Rightarrow> flux_loop rate h it (i + business_getInputRate rate b) (o' + mb_OutputRate b))"

definition statFlux :: "(nat \<Rightarrow> u32) \<Rightarrow> CStreamBusinessManager \<Rightarrow> CStreamBusinessManager option" where
  "statFlux rate m =
     map_option (\<lambda>(i, o'). m\<lparr>m_InputRate := i div 1024, m_OutputRate := o' div 1024\<rparr>)
       (flux_loop rate (businesses m) (m_BusinessMap m) 0 0)"

text \<open>
  The loop of \<open>destroyBusiness\<close> for one key: from the first entry of the key on, as long as the key lasts, the first
  entry of the business is erased.
\<close>

definition erase_entry :: "u64 \<Rightarrow> nat \<Rightarrow> (u64, nat) stdmultimap \<Rightarrow> (u64, nat) stdmultimap" where
  "erase_entry k a m =
     (let it = mm_find k m
      in mm_before k m @ erase_first (\<lambda>e. snd e = a) (takeWhile (\<lambda>e. fst e = k) it) @ dropWhile (\<lambda>e. fst e = k) it)"

definition destroyBusiness :: "bm_env \<Rightarrow> nat \<Rightarrow> CStreamBusinessManager \<Rightarrow> CStreamBusinessManager option" where
  "destroyBusiness e a m =
     (case map_of (businesses m) a of
        None \<Rightarrow> None
      | Some b \<Rightarrow>
          (case (getRecvStreamID b (world m), getSendStreamID b (world m)) of
             (Some recvStream, Some sendStream) \<Rightarrow>
               (case delete_business (be_now e) (be_stop e) (be_enq e) b (world m) of
                  None \<Rightarrow> None
                | Some w \<Rightarrow>
                    Some (m\<lparr>m_BusinessMap := erase_entry sendStream a (erase_entry recvStream a (m_BusinessMap m)),
                            businesses := sm_erase a (businesses m), world := w\<rparr>))
           | _ \<Rightarrow> None))"

definition releaseBusiness :: "bm_env \<Rightarrow> ptr \<Rightarrow> CStreamBusinessManager \<Rightarrow> CStreamBusinessManager option" where
  "releaseBusiness e pBusiness m =
     (case pBusiness of
        None \<Rightarrow> Some m
      | Some a \<Rightarrow>
          (case map_of (businesses m) a of
             None \<Rightarrow> None
           | Some b \<Rightarrow>
               let b' = business_decReference b; m1 = m\<lparr>businesses := sm_assign a b' (businesses m)\<rparr>
               in if m_nRefCount b' \<le> 0
                  then map_option (\<lambda>m2. m2\<lparr>m_unMaxBusinessNum := m_unMaxBusinessNum m2 - 1\<rparr>) (destroyBusiness e a m1)
                  else Some m1))"

fun releaseBusiness_list :: "bm_env \<Rightarrow> nat list \<Rightarrow> CStreamBusinessManager \<Rightarrow> CStreamBusinessManager option" where
  "releaseBusiness_list e [] m = Some m"
| "releaseBusiness_list e (a # l) m =
     (case releaseBusiness e (Some a) m of None \<Rightarrow> None | Some m' \<Rightarrow> releaseBusiness_list e l m')"

text \<open>\<open>CStreamBusiness::start\<close> by a client of the business at \<open>a\<close>; \<open>paddr\<close> is where the processor is allocated.\<close>

definition start_business ::
    "bm_env \<Rightarrow> nat \<Rightarrow> nat \<Rightarrow> CStreamBusinessManager \<Rightarrow> (retcode \<times> CStreamBusinessManager) option" where
  "start_business e paddr a m =
     (case map_of (businesses m) a of
        None \<Rightarrow> None
      | Some b \<Rightarrow>
          map_option (\<lambda>(ret, b', w'). (ret, m\<lparr>businesses := sm_assign a b' (businesses m), world := w'\<rparr>))
            (business_start (be_now e) (be_stop e) (be_enq e) paddr b (world m)))"

section \<open>The table\<close>

lemma erase_entry_split:
  "m = mm_before k m @ takeWhile (\<lambda>e. fst e = k) (mm_find k m) @ dropWhile (\<lambda>e. fst e = k) (mm_find k m)"
  by (simp add: mm_before_def mm_find_def)

lemma erase_entry_ok:
  assumes sorted: "sorted (map fst m)" and mem: "(k, a) \<in> set m"
  shows "mset m = add_mset (k, a) (mset (erase_entry k a m))" "sorted (map fst (erase_entry k a m))"
proof -
  let ?x = "mm_before k m" and ?y = "takeWhile (\<lambda>e. fst e = k) (mm_find k m)" and ?z = "dropWhile (\<lambda>e. fst e = k) (mm_find k m)"
  have m: "m = ?x @ ?y @ ?z" by (rule erase_entry_split)
  have "(k, a) \<notin> set ?x" unfolding mm_before_def using set_takeWhileD by fastforce
  moreover have "(k, a) \<notin> set ?z"
  proof
    assume z: "(k, a) \<in> set ?z"
    then have "?z \<noteq> []" by (metis empty_iff list.set(1))
    then obtain e z' where e1: "?z = e # z'" using list.exhaust by blast
    then have "fst e \<noteq> k" using hd_dropWhile [of "\<lambda>e. fst e = k" "mm_find k m"] by simp
    note e = e1 this
    have "\<exists>f y'. ?y = f # y' \<and> fst f = k"
    proof (cases "mm_find k m")
      case Nil
      then show ?thesis using z by simp
    next
      case (Cons f it)
      then show ?thesis using mm_find_hit(1) [OF Cons] by simp
    qed
    then obtain f y' where f: "?y = f # y'" "fst f = k" by blast
    have "sorted (map fst (f # y' @ e # z'))"
      using sorted by (subst (asm) m) (simp add: f(1) e(1) sorted_append)
    then have "k \<le> fst e" "\<forall>w \<in> set z'. fst e \<le> fst w" using f(2) by (simp_all add: sorted_append)
    then have "(k, a) \<notin> set (e # z')" using e(2) by fastforce
    then show False using z e(1) by simp
  qed
  ultimately have y: "(k, a) \<in> set ?y" using mem arg_cong [OF m, of set, unfolded set_append] by blast
  have "mset ?y = add_mset (k, a) (mset (erase_first (\<lambda>e. snd e = a) ?y))"
    by (rule mset_erase_first [OF y]) (use set_takeWhileD in fastforce)+
  then show "mset m = add_mset (k, a) (mset (erase_entry k a m))"
    using arg_cong [OF m, of mset] by (simp only: erase_entry_def Let_def mset_append) simp
  have s: "sorted (map fst (?x @ ?y @ ?z))" using sorted m by simp
  then show "sorted (map fst (erase_entry k a m))" unfolding erase_entry_def Let_def by (rule sorted_erase_middle)
qed

section \<open>Consistency\<close>

text \<open>
  The businesses of a heap \<open>h\<close>: \<open>RB\<close> are the references the clients hold to them and \<open>RS\<close> the references others hold
  to sessions.  The counter of a live business is the number of references to it; its sessions are there; its
  processor, if it has one, is there and its own.
\<close>

definition biz_ok :: "CStreamBusiness \<Rightarrow> stream_world \<Rightarrow> bool" where
  "biz_ok b w \<longleftrightarrow> m_pRecvSession b \<noteq> None \<and> m_pSendSession b \<noteq> None \<and> m_pSendProcessor b = None \<and>
     (\<forall>p. m_pRecvProcessor b = Some p \<longrightarrow> map_of (processors w) p \<noteq> None)"

definition biz_heap :: "(nat, CStreamBusiness) stdmap \<Rightarrow> stream_world \<Rightarrow> nat multiset \<Rightarrow> nat multiset \<Rightarrow> bool" where
  "biz_heap h w RB RS \<longleftrightarrow>
     world_inv w (RS + heap_refs biz_mset h) \<and> sm_inv h \<and> set_mset RB = dom (map_of h) \<and>
     (\<forall>a b. map_of h a = Some b \<longrightarrow> m_nRefCount b = int (count RB a) \<and> biz_ok b w) \<and>
     (\<forall>a b a' b' p. map_of h a = Some b \<longrightarrow> map_of h a' = Some b' \<longrightarrow> m_pRecvProcessor b = Some p \<longrightarrow>
        m_pRecvProcessor b' = Some p \<longrightarrow> a = a')"

text \<open>The table has one entry for each of the two sessions of each business, under the session's id, and no other.\<close>

definition entry_count :: "u64 \<Rightarrow> CStreamBusiness \<Rightarrow> stream_world \<Rightarrow> nat" where
  "entry_count k b w =
     (if getRecvStreamID b w = Some k then 1 else 0) + (if getSendStreamID b w = Some k then 1 else 0)"

definition biz_table :: "(nat, CStreamBusiness) stdmap \<Rightarrow> stream_world \<Rightarrow> (u64, nat) stdmultimap \<Rightarrow> bool" where
  "biz_table h w t \<longleftrightarrow> sorted (map fst t) \<and> length t = 2 * length h \<and>
     (\<forall>k a. count (mset t) (k, a) = (case map_of h a of None \<Rightarrow> 0 | Some b \<Rightarrow> entry_count k b w))"

definition bm_inv :: "nat multiset \<Rightarrow> CStreamBusinessManager \<Rightarrow> nat multiset \<Rightarrow> bool" where
  "bm_inv RS m RB \<longleftrightarrow> biz_heap (businesses m) (world m) RB RS \<and> biz_table (businesses m) (world m) (m_BusinessMap m) \<and>
     unat (m_unMaxBusinessNum m) = length (businesses m)"

lemma biz_heapD:
  assumes "biz_heap h w RB RS"
  shows "world_inv w (RS + heap_refs biz_mset h)" "sm_inv h" "a \<in># RB \<longleftrightarrow> map_of h a \<noteq> None"
    and "map_of h a = Some b \<Longrightarrow> m_nRefCount b = int (count RB a)" "map_of h a = Some b \<Longrightarrow> biz_ok b w"
    and "map_of h a = Some b \<Longrightarrow> 0 < m_nRefCount b"
    and "map_of h a = Some b \<Longrightarrow> map_of h a' = Some b' \<Longrightarrow> m_pRecvProcessor b = Some p \<Longrightarrow> m_pRecvProcessor b' = Some p \<Longrightarrow> a = a'"
proof -
  show "world_inv w (RS + heap_refs biz_mset h)" "sm_inv h" "a \<in># RB \<longleftrightarrow> map_of h a \<noteq> None"
    "map_of h a = Some b \<Longrightarrow> m_nRefCount b = int (count RB a)" "map_of h a = Some b \<Longrightarrow> biz_ok b w"
    "map_of h a = Some b \<Longrightarrow> map_of h a' = Some b' \<Longrightarrow> m_pRecvProcessor b = Some p \<Longrightarrow> m_pRecvProcessor b' = Some p \<Longrightarrow> a = a'"
    using assms unfolding biz_heap_def by blast+
  show "0 < m_nRefCount b" if b: "map_of h a = Some b"
  proof -
    have "a \<in># RB" "m_nRefCount b = int (count RB a)" using assms b unfolding biz_heap_def by blast+
    then show ?thesis by (simp add: count_greater_zero_iff)
  qed
qed

lemma biz_heap_sessions:
  assumes "biz_heap h w RB RS" "map_of h a = Some b"
  obtains r s where "m_pRecvSession b = Some r" "m_pSendSession b = Some s"
    "r \<in># RS + heap_refs biz_mset h" "s \<in># RS + heap_refs biz_mset h"
proof -
  obtain r s where "m_pRecvSession b = Some r" "m_pSendSession b = Some s"
    using biz_heapD(5) [OF assms] by (auto simp: biz_ok_def)
  moreover have "heap_refs biz_mset h = biz_mset b + heap_refs biz_mset (sm_erase a h)"
    by (rule heap_refs_erase [OF biz_heapD(2) [OF assms(1)] assms(2)])
  ultimately show thesis using that by (simp add: biz_mset_def)
qed

text \<open>The ids of the sessions of a business stay what they are while the world changes.\<close>

lemma stream_id_kept:
  assumes "ids_kept (factory w) (factory w')" "world_inv w' R'" "a \<in># R'"
  shows "stream_id_of (Some a) w' = stream_id_of (Some a) w"
proof -
  obtain s' where "session_at a w' = Some s'" using world_session [OF assms(2,3)] by blast
  then show ?thesis using assms(1) by (fastforce simp: stream_id_of_def session_at_def ids_kept_def)
qed

lemma entry_count_same:
  assumes "\<And>a. a \<in># biz_mset b \<Longrightarrow> stream_id_of (Some a) w' = stream_id_of (Some a) w"
    and "m_pRecvSession b \<noteq> None" "m_pSendSession b \<noteq> None"
  shows "entry_count k b w' = entry_count k b w"
proof -
  obtain r s where rs: "m_pRecvSession b = Some r" "m_pSendSession b = Some s" using assms(2,3) by blast
  then have "r \<in># biz_mset b" "s \<in># biz_mset b" by (simp_all add: biz_mset_def)
  then show ?thesis using assms(1) rs by (simp add: entry_count_def getRecvStreamID_def getSendStreamID_def)
qed

lemma entry_count_kept:
  assumes "ids_kept (factory w) (factory w')" "world_inv w' R'" "biz_mset b \<subseteq># R'"
    and "m_pRecvSession b \<noteq> None" "m_pSendSession b \<noteq> None"
  shows "entry_count k b w' = entry_count k b w"
  using entry_count_same [OF stream_id_kept [OF assms(1,2) mset_subset_eqD [OF assms(3)]] assms(4,5)] .

lemma biz_mset_in_refs:
  assumes "sm_inv h" "map_of h a = Some b" shows "biz_mset b \<subseteq># RS + heap_refs biz_mset h"
  unfolding heap_refs_erase [OF assms, of biz_mset] by (simp add: subset_mset.add_increasing)

lemma bm_world_ids:
  assumes H: "biz_heap h w RB RS" and T: "biz_table h w t" and w': "world_inv w' (RS' + heap_refs biz_mset h)"
    and ids: "\<And>a. a \<in># heap_refs biz_mset h \<Longrightarrow> stream_id_of (Some a) w' = stream_id_of (Some a) w"
    and procs: "\<And>a b p. map_of h a = Some b \<Longrightarrow> m_pRecvProcessor b = Some p \<Longrightarrow> map_of (processors w') p \<noteq> None"
  shows "biz_heap h w' RB RS'" "biz_table h w' t"
proof -
  have ok: "biz_ok b w'" if "map_of h a = Some b" for a b
    using biz_heapD(5) [OF H that] procs [OF that] by (simp add: biz_ok_def)
  show "biz_heap h w' RB RS'"
    unfolding biz_heap_def using w' biz_heapD(2,3,4,7) [OF H] ok by (auto simp: domIff)
  have "entry_count k b w' = entry_count k b w" if b: "map_of h a = Some b" for a b k
  proof (rule entry_count_same)
    show "stream_id_of (Some c) w' = stream_id_of (Some c) w" if "c \<in># biz_mset b" for c
      using ids [of c] mset_subset_eqD [OF biz_mset_in_refs [OF biz_heapD(2) [OF H] b, of "{#}"] that] by simp
  qed (use biz_heapD(5) [OF H b] in \<open>auto simp: biz_ok_def\<close>)
  then show "biz_table h w' t" using T by (simp add: biz_table_def split: option.split)
qed

lemma bm_world:
  assumes H: "biz_heap h w RB RS" and T: "biz_table h w t"
    and w': "world_inv w' (RS' + heap_refs biz_mset h)" "ids_kept (factory w) (factory w')"
    and procs: "\<And>a b p. map_of h a = Some b \<Longrightarrow> m_pRecvProcessor b = Some p \<Longrightarrow> map_of (processors w') p \<noteq> None"
  shows "biz_heap h w' RB RS'" "biz_table h w' t"
  using bm_world_ids [OF H T w'(1) stream_id_kept [OF w'(2,1)] procs] by auto

section \<open>Counting references to businesses\<close>

text \<open>A business whose counter changes together with the references to it.\<close>

lemma biz_recount:
  assumes H: "biz_heap h w RB RS" and T: "biz_table h w t" and b: "map_of h a = Some b"
    and n: "0 < n" "int (count RB' a) = n" "\<And>x. x \<noteq> a \<Longrightarrow> count RB' x = count RB x"
  shows "biz_heap (sm_assign a (b\<lparr>m_nRefCount := n\<rparr>) h) w RB' RS" "biz_table (sm_assign a (b\<lparr>m_nRefCount := n\<rparr>) h) w t"
proof -
  let ?b = "b\<lparr>m_nRefCount := n\<rparr>"
  have sm: "sm_inv h" by (rule biz_heapD(2) [OF H])
  have h: "map_of (sm_assign a ?b h) = (map_of h)(a \<mapsto> ?b)" by (rule map_of_sm_assign [OF sm])
  have refs: "heap_refs biz_mset (sm_assign a ?b h) = heap_refs biz_mset h"
    by (rule heap_refs_same [OF sm b]) (simp add: biz_mset_def)
  have ok: "biz_ok ?b w" using biz_heapD(5) [OF H b] by (simp add: biz_ok_def)
  have mem: "x \<in># RB' \<longleftrightarrow> map_of (sm_assign a ?b h) x \<noteq> None" for x
  proof (cases "x = a")
    case True
    then show ?thesis using n(1,2) by (simp add: h flip: count_greater_zero_iff)
  next
    case False
    then show ?thesis using biz_heapD(3) [OF H, of x] n(3) by (simp add: h flip: count_greater_zero_iff)
  qed
  have own: "x = x'" if "map_of (sm_assign a ?b h) x = Some c" "map_of (sm_assign a ?b h) x' = Some c'"
      "m_pRecvProcessor c = Some p" "m_pRecvProcessor c' = Some p" for x x' c c' p
  proof -
    have "\<exists>d. map_of h y = Some d \<and> m_pRecvProcessor d = Some p"
      if "map_of (sm_assign a ?b h) y = Some e" "m_pRecvProcessor e = Some p" for y e
      using that b by (auto simp: h split: if_splits)
    then show ?thesis using that biz_heapD(7) [OF H] by metis
  qed
  show "biz_heap (sm_assign a ?b h) w RB' RS"
    unfolding biz_heap_def refs
  proof (intro conjI allI impI)
    show "set_mset RB' = dom (map_of (sm_assign a ?b h))" using mem by blast
    fix x c assume c: "map_of (sm_assign a ?b h) x = Some c"
    show "m_nRefCount c = int (count RB' x)" "biz_ok c w"
      using c n(2,3) ok biz_heapD(4,5) [OF H] by (auto simp: h split: if_splits)
  qed (use biz_heapD(1) [OF H] sm_inv_assign [OF sm] own in blast)+
  have "entry_count k ?b w = entry_count k b w" for k
    by (simp add: entry_count_def getRecvStreamID_def getSendStreamID_def)
  then show "biz_table (sm_assign a ?b h) w t"
    using T b by (auto simp: biz_table_def h length_sm_assign [OF sm b])
qed

lemma table_hit:
  assumes "biz_table h w t" "(k, a) \<in> set t"
  shows "\<exists>b. map_of h a = Some b"
  using assms by (metis biz_table_def count_eq_zero_iff option.exhaust option.simps(4) set_mset_mset)

lemma add_business_ref_ok:
  assumes inv: "bm_inv RS m RB" and b: "map_of (businesses m) a = Some b" and room: "size RB < 2 ^ 31 - 1"
  shows "\<exists>m'. add_business_ref a m = Some m' \<and> bm_inv RS m' (add_mset a RB) \<and> m_BusinessMap m' = m_BusinessMap m \<and>
    world m' = world m \<and> length (businesses m') = length (businesses m)"
proof -
  have H: "biz_heap (businesses m) (world m) RB RS" and T: "biz_table (businesses m) (world m) (m_BusinessMap m)"
    using inv by (simp_all add: bm_inv_def)
  let ?b = "b\<lparr>m_nRefCount := m_nRefCount b + 1\<rparr>"
  have n: "m_nRefCount b = int (count RB a)" by (rule biz_heapD(4) [OF H b])
  have len: "length (sm_assign a ?b (businesses m)) = length (businesses m)"
    by (rule length_sm_assign [OF biz_heapD(2) [OF H] b])
  have "m_nRefCount b \<noteq> 2 ^ 31 - 1" using n count_le_size [of RB a] room by simp
  then have "add_business_ref a m = Some (m\<lparr>businesses := sm_assign a ?b (businesses m)\<rparr>)"
    using b by (simp add: add_business_ref_def business_addReference_def)
  moreover have "bm_inv RS (m\<lparr>businesses := sm_assign a ?b (businesses m)\<rparr>) (add_mset a RB)"
    using biz_recount [OF H T b, of "m_nRefCount b + 1" "add_mset a RB"] n inv len by (simp add: bm_inv_def)
  ultimately show ?thesis using len by simp
qed

lemma findBusiness_ok:
  assumes inv: "bm_inv RS m RB" and room: "size RB < 2 ^ 31 - 1"
  shows "\<exists>r m'. findBusiness i m = Some (r, m') \<and> bm_inv RS m' (RB + opt_mset r) \<and>
    length (businesses m') = length (businesses m)"
proof (cases "mm_find i (m_BusinessMap m)")
  case (Cons e it)
  then have "e \<in> set (m_BusinessMap m)" by (rule mm_find_hit(2))
  then obtain b where "map_of (businesses m) (snd e) = Some b"
    using inv table_hit [of "businesses m" "world m" "m_BusinessMap m" "fst e" "snd e"] by (auto simp: bm_inv_def)
  then obtain m' where "add_business_ref (snd e) m = Some m'" "bm_inv RS m' (add_mset (snd e) RB)"
      "length (businesses m') = length (businesses m)"
    using add_business_ref_ok [OF inv _ room] by blast
  then show ?thesis using Cons by (cases e) (simp add: findBusiness_def)
qed (use inv in \<open>simp add: findBusiness_def\<close>)

text \<open>The last reference to a business: its two entries leave the table and its sessions are released.\<close>

lemma biz_erase:
  assumes H: "biz_heap h w (add_mset a RB) RS" and T: "biz_table h w t" and b: "map_of h a = Some b" and last: "a \<notin># RB"
    and i: "getRecvStreamID b w = Some i" "getSendStreamID b w = Some j"
    and w': "world_inv w' (RS + heap_refs biz_mset (sm_erase a h))" "ids_kept (factory w) (factory w')" "processors w' = processors w"
  shows "biz_heap (sm_erase a h) w' RB RS" "biz_table (sm_erase a h) w' (erase_entry j a (erase_entry i a t))"
    "length h = Suc (length (sm_erase a h))"
proof -
  have sm: "sm_inv h" by (rule biz_heapD(2) [OF H])
  have h: "map_of (sm_erase a h) = (map_of h)(a := None)" by (rule map_of_sm_erase)
  have entries: "entry_count k c w' = entry_count k c w" if "map_of (sm_erase a h) x = Some c" for k x c
  proof -
    have "map_of h x = Some c" using that by (auto simp: h split: if_splits)
    then have "m_pRecvSession c \<noteq> None" "m_pSendSession c \<noteq> None" using biz_heapD(5) [OF H] by (auto simp: biz_ok_def)
    then show ?thesis using entry_count_kept [OF w'(2,1) biz_mset_in_refs [OF sm_inv_erase [OF sm] that]] by blast
  qed
  show "biz_heap (sm_erase a h) w' RB RS"
    unfolding biz_heap_def
  proof (intro conjI allI impI)
    have "x \<in># RB \<longleftrightarrow> map_of (sm_erase a h) x \<noteq> None" for x
      using biz_heapD(3) [OF H, of x] last by (cases "x = a") (simp_all add: h)
    then show "set_mset RB = dom (map_of (sm_erase a h))" by blast
    fix x c assume "map_of (sm_erase a h) x = Some c"
    then have c: "x \<noteq> a" "map_of h x = Some c" by (auto simp: h split: if_splits)
    show "m_nRefCount c = int (count RB x)" using biz_heapD(4) [OF H c(2)] c(1) by simp
    show "biz_ok c w'" using biz_heapD(5) [OF H c(2)] by (simp add: biz_ok_def w'(3))
  next
    fix x c x' c' p
    assume "map_of (sm_erase a h) x = Some c" "map_of (sm_erase a h) x' = Some c'"
    then have "map_of h x = Some c" "map_of h x' = Some c'" by (auto simp: h split: if_splits)
    then show "m_pRecvProcessor c = Some p \<Longrightarrow> m_pRecvProcessor c' = Some p \<Longrightarrow> x = x'" using biz_heapD(7) [OF H] by blast
  qed (use w'(1) sm_inv_erase [OF sm] in blast)+
  have cnt: "count (mset t) (k, x) = (case map_of h x of None \<Rightarrow> 0 | Some c \<Rightarrow> entry_count k c w)" for k x
    using T by (simp add: biz_table_def)
  have "count (mset t) (i, a) > 0" using b i by (simp add: cnt entry_count_def)
  then have 1: "mset t = add_mset (i, a) (mset (erase_entry i a t))" "sorted (map fst (erase_entry i a t))"
    using erase_entry_ok [of t i a] T by (simp_all add: biz_table_def)
  have "count (mset (erase_entry i a t)) (j, a) = 1"
    using cnt [of j a] b i unfolding 1(1) by (auto simp: entry_count_def split: if_splits)
  then have "(j, a) \<in> set (erase_entry i a t)" by (metis count_eq_zero_iff set_mset_mset zero_neq_one)
  then have 2: "mset (erase_entry i a t) = add_mset (j, a) (mset (erase_entry j a (erase_entry i a t)))"
      "sorted (map fst (erase_entry j a (erase_entry i a t)))"
    using erase_entry_ok [of "erase_entry i a t" j a] 1(2) by simp_all
  let ?t = "erase_entry j a (erase_entry i a t)"
  have t: "mset t = add_mset (i, a) (add_mset (j, a) (mset ?t))" using 1(1) 2(1) by simp
  have "length (sm_erase a h) + 1 = length h"
    using sm b
  proof (induction h)
    case (Cons e h)
    obtain x c where e: "e = (x, c)" by (cases e)
    then show ?case
      using Cons map_of_smaller [of h x a] by (cases "x = a") (auto simp: sm_erase_Cons sm_erase_absent)
  qed simp
  then show len: "length h = Suc (length (sm_erase a h))" by simp
  have "size (mset t) = Suc (Suc (size (mset ?t)))" unfolding t by simp
  then have "length t = Suc (Suc (length ?t))" by simp
  moreover have "count (mset ?t) (k, x) = (case map_of (sm_erase a h) x of None \<Rightarrow> 0 | Some c \<Rightarrow> entry_count k c w')" for k x
  proof (cases "x = a")
    case True
    have "count (mset t) (k, a) = entry_count k b w" using cnt b by simp
    then show ?thesis using True i unfolding t by (auto simp: entry_count_def h split: if_splits)
  next
    case False
    then have "count (mset ?t) (k, x) = count (mset t) (k, x)" unfolding t by simp
    then show ?thesis using False cnt entries [of x _ k] by (cases "map_of h x") (simp_all add: h)
  qed
  ultimately show "biz_table (sm_erase a h) w' ?t" using T 2(2) len by (simp add: biz_table_def)
qed

lemma releaseBusiness_ok:
  assumes inv: "bm_inv RS m (add_mset a RB)"
  shows "\<exists>m'. releaseBusiness e (Some a) m = Some m' \<and> bm_inv RS m' RB \<and> length (businesses m') \<le> length (businesses m)"
proof -
  let ?h = "businesses m" and ?w = "world m"
  have H: "biz_heap ?h ?w (add_mset a RB) RS" and T: "biz_table ?h ?w (m_BusinessMap m)"
    and num: "unat (m_unMaxBusinessNum m) = length ?h"
    using inv by (simp_all add: bm_inv_def)
  obtain b where b: "map_of ?h a = Some b" using biz_heapD(3) [OF H, of a] by auto
  have n: "m_nRefCount b = 1 + int (count RB a)" using biz_heapD(4) [OF H b] by simp
  let ?b = "business_decReference b"
  let ?h1 = "sm_assign a ?b ?h"
  have sm: "sm_inv ?h" by (rule biz_heapD(2) [OF H])
  have b': "?b = b\<lparr>m_nRefCount := int (count RB a)\<rparr>" using n by (simp add: business_decReference_def)
  show ?thesis
  proof (cases "a \<in># RB")
    case True
    then have pos: "0 < int (count RB a)" by simp
    have "bm_inv RS (m\<lparr>businesses := ?h1\<rparr>) RB"
      using biz_recount [OF H T b pos, of RB] num length_sm_assign [OF sm b] by (simp add: bm_inv_def b')
    then show ?thesis
      using b True length_sm_assign [OF sm b, of ?b] by (simp add: releaseBusiness_def b' Let_def count_eq_zero_iff)
  next
    case False
    obtain r s where rs: "m_pRecvSession b = Some r" "m_pSendSession b = Some s"
        "r \<in># RS + heap_refs biz_mset ?h" "s \<in># RS + heap_refs biz_mset ?h"
      using biz_heap_sessions [OF H b] .
    obtain i j where ij: "getRecvStreamID b ?w = Some i" "getSendStreamID b ?w = Some j"
      using world_session [OF biz_heapD(1) [OF H]] rs by (force simp: getRecvStreamID_def getSendStreamID_def stream_id_of_def)
    have w: "world_inv ?w (RS + heap_refs biz_mset (sm_erase a ?h) + biz_mset ?b)"
      using biz_heapD(1) [OF H] heap_refs_erase [OF sm b, of biz_mset] by (simp add: b' biz_mset_def ac_simps)
    have p: "m_pSendProcessor ?b = None" using biz_heapD(5) [OF H b] by (simp add: biz_ok_def b')
    obtain b1 w1 where w1: "business_stop (be_now e) (be_stop e) (be_enq e) ?b ?w = Some (b1, w1)"
        "world_inv w1 (RS + heap_refs biz_mset (sm_erase a ?h))" "processors w1 = processors ?w" "ids_kept (factory ?w) (factory w1)"
      using business_stop_ok [OF w p] by blast
    note gone = biz_erase [OF H T b False ij w1(2,4,3)]
    have h1: "map_of ?h1 a = Some ?b" using map_of_sm_assign [OF sm] by simp
    have ij': "getRecvStreamID ?b ?w = Some i" "getSendStreamID ?b ?w = Some j"
      using ij by (simp_all add: b' getRecvStreamID_def getSendStreamID_def)
    have "m_unMaxBusinessNum m \<noteq> 0" using num gone(3) by auto
    then have "unat (m_unMaxBusinessNum m - 1) = length (sm_erase a ?h)" using num gone(3) by (simp add: unat_minus_one)
    moreover have "m_nRefCount ?b \<le> 0" using False by (simp add: b' not_in_iff)
    ultimately show ?thesis
      using b h1 ij' w1(1) gone
      by (simp add: releaseBusiness_def destroyBusiness_def delete_business_def bm_inv_def sm_erase_assign Let_def)
  qed
qed

text \<open>The manager keeps the contract of a table of reference-counted objects too.\<close>

interpretation bm: ref_store "bm_inv RS" "\<lambda>m. length (businesses m)" findBusiness "\<lambda>a. releaseBusiness e (Some a)" for RS e
  by unfold_locales (use findBusiness_ok releaseBusiness_ok in fastforce)+

lemma releaseBusiness_list_eq: "releaseBusiness_list e l m = bm.release_all e l m"
  by (induction l arbitrary: m) (simp_all split: option.split)

lemma find_loop_ok:
  assumes "bm_inv RS m RB" "size RB + length it < 2 ^ 31" "set it \<subseteq> set (m_BusinessMap m)"
  shows "\<exists>l m'. find_loop i it acc m = Some (acc @ l, m') \<and> bm_inv RS m' (RB + mset l) \<and>
    length (businesses m') = length (businesses m)"
  using assms
proof (induction it arbitrary: acc m RB)
  case (Cons e it)
  obtain k a where e: "e = (k, a)" by (cases e)
  show ?case
  proof (cases "i = k")
    case True
    obtain b where "map_of (businesses m) a = Some b"
      using table_hit [of "businesses m" "world m" "m_BusinessMap m" k a] Cons.prems(1,3) e by (auto simp: bm_inv_def)
    then obtain m1 where m1: "add_business_ref a m = Some m1" "bm_inv RS m1 (add_mset a RB)" "m_BusinessMap m1 = m_BusinessMap m"
        "length (businesses m1) = length (businesses m)"
      using add_business_ref_ok [OF Cons.prems(1)] Cons.prems(2) by auto
    then obtain l m' where "find_loop i it (acc @ [a]) m1 = Some ((acc @ [a]) @ l, m')" "bm_inv RS m' (add_mset a RB + mset l)"
        "length (businesses m') = length (businesses m1)"
      using Cons.IH [OF m1(2), of "acc @ [a]"] Cons.prems(2,3) m1(3) by auto
    then show ?thesis using True e m1(1,4) by (intro exI [of _ "a # l"]) simp
  qed (use Cons.prems(1) e in \<open>auto intro!: exI [of _ "[]"]\<close>)
qed (auto intro!: exI [of _ "[]"])

lemma isBusinessInList_iff: "isBusinessInList p l \<longleftrightarrow> p \<in> set l"
  by (induction l) auto

lemma get_all_loop_ok:
  assumes "bm_inv RS m RB" "size RB + length it < 2 ^ 31" "set it \<subseteq> set (m_BusinessMap m)"
  shows "\<exists>l m'. get_all_loop it acc m = Some (acc @ l, m') \<and> bm_inv RS m' (RB + mset l) \<and>
    length (businesses m') = length (businesses m)"
  using assms
proof (induction it arbitrary: acc m RB)
  case (Cons e it)
  obtain k a where e: "e = (k, a)" by (cases e)
  show ?case
  proof (cases "isBusinessInList a acc")
    case False
    obtain b where "map_of (businesses m) a = Some b"
      using table_hit [of "businesses m" "world m" "m_BusinessMap m" k a] Cons.prems(1,3) e by (auto simp: bm_inv_def)
    then obtain m1 where m1: "add_business_ref a m = Some m1" "bm_inv RS m1 (add_mset a RB)" "m_BusinessMap m1 = m_BusinessMap m"
        "length (businesses m1) = length (businesses m)"
      using add_business_ref_ok [OF Cons.prems(1)] Cons.prems(2) by auto
    then obtain l m' where "get_all_loop it (acc @ [a]) m1 = Some ((acc @ [a]) @ l, m')" "bm_inv RS m' (add_mset a RB + mset l)"
        "length (businesses m') = length (businesses m1)"
      using Cons.IH [OF m1(2), of "acc @ [a]"] Cons.prems(2,3) m1(3) by auto
    then show ?thesis using False e m1(1,4) by (intro exI [of _ "a # l"]) simp
  qed (use Cons e in simp)
qed (auto intro!: exI [of _ "[]"])

section \<open>Creating and starting\<close>

lemma biz_insert:
  assumes H: "biz_heap h w RB RS" and T: "biz_table h w t" and fresh: "map_of h a = None"
    and w': "world_inv w' (RS + heap_refs biz_mset h + biz_mset b)" "ids_kept (factory w) (factory w')" "processors w' = processors w"
    and b: "m_nRefCount b = 1" "m_pRecvSession b \<noteq> None" "m_pSendSession b \<noteq> None" "m_pRecvProcessor b = None" "m_pSendProcessor b = None"
    and ij: "getRecvStreamID b w' = Some i" "getSendStreamID b w' = Some j"
  shows "biz_heap (sm_insert a b h) w' (add_mset a RB) RS" "biz_table (sm_insert a b h) w' (mm_insert j a (mm_insert i a t))"
    "length (sm_insert a b h) = Suc (length h)"
proof -
  let ?h = "sm_insert a b h"
  have "world_inv w' (RS + biz_mset b + heap_refs biz_mset h)" using w'(1) by (simp add: ac_simps)
  moreover have "map_of (processors w') p \<noteq> None" if "map_of h x = Some c" "m_pRecvProcessor c = Some p" for x c p
    using biz_heapD(5) [OF H that(1)] that(2) by (simp add: biz_ok_def w'(3))
  ultimately have H': "biz_heap h w' RB (RS + biz_mset b)" and T': "biz_table h w' t"
    using bm_world [OF H T _ w'(2)] by blast+
  have sm: "sm_inv h" by (rule biz_heapD(2) [OF H])
  have h: "map_of ?h = (map_of h)(a \<mapsto> b)" using fresh by (simp add: map_of_sm_insert [OF sm])
  have refs: "RS + heap_refs biz_mset ?h = RS + biz_mset b + heap_refs biz_mset h"
    using heap_refs_insert [OF sm fresh, of biz_mset b] by simp
  have nin: "count RB a = 0" using biz_heapD(3) [OF H, of a] fresh by (simp add: count_eq_zero_iff)
  show "biz_heap ?h w' (add_mset a RB) RS"
    unfolding biz_heap_def refs
  proof (intro conjI allI impI)
    have "x \<in># add_mset a RB \<longleftrightarrow> map_of ?h x \<noteq> None" for x using biz_heapD(3) [OF H, of x] by (simp add: h)
    then show "set_mset (add_mset a RB) = dom (map_of ?h)" by blast
    fix x c assume c: "map_of ?h x = Some c"
    show "m_nRefCount c = int (count (add_mset a RB) x)" "biz_ok c w'"
      using c nin b biz_heapD(4,5) [OF H'] by (auto simp: h biz_ok_def split: if_splits)
  next
    fix x c x' c' p
    assume "map_of ?h x = Some c" "map_of ?h x' = Some c'" "m_pRecvProcessor c = Some p" "m_pRecvProcessor c' = Some p"
    moreover from this have "map_of h x = Some c" "map_of h x' = Some c'" using b(4) by (auto simp: h split: if_splits)
    ultimately show "x = x'" using biz_heapD(7) [OF H'] by blast
  qed (use biz_heapD(1) [OF H'] sm_inv_insert [OF sm] in blast)+
  show len: "length ?h = Suc (length h)"
    using fresh by (induction a b h rule: sm_insert.induct) (auto split: if_splits)
  have "count (mset t) (k, x) = (case map_of h x of None \<Rightarrow> 0 | Some c \<Rightarrow> entry_count k c w')" for k x
    using T' by (simp add: biz_table_def)
  then have "count (mset (mm_insert j a (mm_insert i a t))) (k, x) =
      (case map_of ?h x of None \<Rightarrow> 0 | Some c \<Rightarrow> entry_count k c w')" for k x
    using fresh ij by (cases "x = a") (auto simp: mset_mm_insert h entry_count_def)
  moreover have "length (mm_insert j a (mm_insert i a t)) = Suc (Suc (length t))"
    using arg_cong [OF mset_mm_insert, of size] by (simp flip: size_mset add: mset_mm_insert)
  ultimately show "biz_table ?h w' (mm_insert j a (mm_insert i a t))"
    using T' len by (simp add: biz_table_def sorted_mm_insert)
qed

text \<open>
  Room for one more business: the counters of the sessions and businesses cannot overflow.
\<close>

definition bm_room :: "nat multiset \<Rightarrow> CStreamBusinessManager \<Rightarrow> nat multiset \<Rightarrow> bool" where
  "bm_room RS m RB \<longleftrightarrow> world_room (world m) (RS + heap_refs biz_mset (businesses m)) 1 \<and>
     size RB + length (m_BusinessMap m) < 2 ^ 31 - 1"

lemma bm_inv_world:
  assumes "bm_inv RS m RB" "world_inv w' (RS' + heap_refs biz_mset (businesses m))" "ids_kept (factory (world m)) (factory w')"
    and "\<And>p. map_of (processors (world m)) p \<noteq> None \<Longrightarrow> map_of (processors w') p \<noteq> None"
    and "businesses m' = businesses m" "m_BusinessMap m' = m_BusinessMap m" "m_unMaxBusinessNum m' = m_unMaxBusinessNum m"
      "world m' = w'"
  shows "bm_inv RS' m' RB"
proof -
  have H: "biz_heap (businesses m) (world m) RB RS" "biz_table (businesses m) (world m) (m_BusinessMap m)"
    using assms(1) by (simp_all add: bm_inv_def)
  have "map_of (processors w') p \<noteq> None" if "map_of (businesses m) a = Some b" "m_pRecvProcessor b = Some p" for a b p
    using biz_heapD(5) [OF H(1) that(1)] that(2) assms(4) by (simp add: biz_ok_def)
  then show ?thesis using bm_world [OF H assms(2,3)] assms(1,5-8) by (simp add: bm_inv_def)
qed

lemma createBusiness_ok:
  assumes inv: "bm_inv RS m RB" and room: "bm_room RS m RB" and fresh: "map_of (businesses m) addr = None"
    and cap: "length (businesses m) \<le> unat (be_capacity e)"
  shows "\<exists>r m'. createBusiness e addr i j play m = Some (r, m') \<and> bm_inv RS m' (RB + opt_mset r) \<and>
    length (businesses m') \<le> unat (be_capacity e)"
proof -
  let ?R = "RS + heap_refs biz_mset (businesses m)"
  have H: "biz_heap (businesses m) (world m) RB RS" and T: "biz_table (businesses m) (world m) (m_BusinessMap m)"
    and num: "unat (m_unMaxBusinessNum m) = length (businesses m)"
    using inv by (simp_all add: bm_inv_def)
  obtain ret b w where 1: "business_init i j play CStreamBusiness_new (world m) = Some (ret, b, w)" "world_inv w (?R + biz_mset b)"
      "ids_kept (factory (world m)) (factory w)" "processors w = processors (world m)" "m_nRefCount b = 1"
      "m_pRecvProcessor b = None" "m_pSendProcessor b = None"
      "ret = RET_OK \<longrightarrow> m_pRecvSession b \<noteq> None \<and> m_pSendSession b \<noteq> None \<and> getRecvStreamID b w = Some i \<and> getSendStreamID b w = Some j"
    using business_init_ok [OF biz_heapD(1) [OF H], of CStreamBusiness_new i j play] room
    by (auto simp: bm_room_def CStreamBusiness_new_def)
  obtain b1 w1 where 2: "business_stop (be_now e) (be_stop e) (be_enq e) b w = Some (b1, w1)" "world_inv w1 ?R"
      "processors w1 = processors w" "biz_mset b1 = {#}" "m_pSendProcessor b1 = None" "ids_kept (factory w) (factory w1)"
    using business_stop_ok [OF 1(2,7)] by blast
  have kept1: "ids_kept (factory (world m)) (factory w1)" by (rule ids_kept_trans [OF 1(3) 2(6)])
  obtain b2 w2 where 3: "business_stop (be_now e) (be_stop e) (be_enq e) b1 w1 = Some (b2, w2)" "world_inv w2 ?R"
      "processors w2 = processors w1" "ids_kept (factory w1) (factory w2)"
    using business_stop_ok [of w1 ?R b1 "be_now e" "be_stop e" "be_enq e"] 2(2,4,5) by auto
  have kept2: "ids_kept (factory (world m)) (factory w2)" by (rule ids_kept_trans [OF kept1 3(4)])
  let ?m1 = "(if \<not> m_pFluxTimer m then startFluxTimer (be_reactor e) (be_mem e) m else m)\<lparr>world := w\<rparr>"
  have m1: "businesses ?m1 = businesses m" "m_BusinessMap ?m1 = m_BusinessMap m" "m_unMaxBusinessNum ?m1 = m_unMaxBusinessNum m"
    by (simp_all add: startFluxTimer_def)
  show ?thesis
  proof (cases "ret = RET_OK")
    case False
    then have "createBusiness e addr i j play m = Some (None, m\<lparr>world := w1\<rparr>)"
      using 1(1) 2(1) by (simp add: createBusiness_def delete_business_def)
    moreover have "bm_inv RS (m\<lparr>world := w1\<rparr>) RB" by (rule bm_inv_world [OF inv 2(2) kept1]) (simp_all add: 2(3) 1(4))
    ultimately show ?thesis using cap by simp
  next
    case ok: True
    show ?thesis
    proof (cases "m_unMaxBusinessNum m \<ge> be_capacity e")
      case True
      then have "createBusiness e addr i j play m = Some (None, ?m1\<lparr>world := w2\<rparr>)"
        using 1(1) 2(1) 3(1) ok m1(3) by (simp add: createBusiness_def delete_business_def Let_def)
      moreover have "bm_inv RS (?m1\<lparr>world := w2\<rparr>) RB"
        by (rule bm_inv_world [OF inv 3(2) kept2]) (simp_all add: 3(3) 2(3) 1(4) startFluxTimer_def)
      ultimately show ?thesis using cap m1(1) by simp
    next
      case False
      let ?m = "?m1\<lparr>businesses := sm_insert addr b (businesses ?m1),
          m_BusinessMap := mm_insert j addr (mm_insert i addr (m_BusinessMap ?m1)),
          m_unMaxBusinessNum := m_unMaxBusinessNum ?m1 + 1\<rparr>"
      have c: "createBusiness e addr i j play m = Some (Some addr, ?m)"
        using 1(1) ok m1(3) False by (simp add: createBusiness_def Let_def)
      note new = biz_insert [OF H T fresh 1(2,3,4) 1(5)]
      have less: "unat (m_unMaxBusinessNum m) < unat (be_capacity e)" using False by (simp add: word_less_nat_alt not_le)
      moreover have "unat (be_capacity e) < 4294967296" using unsigned_less [of "be_capacity e"] by simp
      ultimately have "unat (m_unMaxBusinessNum m + 1) = Suc (length (businesses m))" using num by (simp add: unat_word_ariths)
      then have "bm_inv RS ?m (add_mset addr RB)" "length (businesses ?m) \<le> unat (be_capacity e)"
        using new 1(6-8) ok m1 less num by (simp_all add: bm_inv_def)
      then show ?thesis using c by simp
    qed
  qed
qed

lemma start_business_ok:
  assumes inv: "bm_inv RS m RB" and room: "bm_room RS m RB" and b: "map_of (businesses m) a = Some b"
    and fresh: "map_of (without_proc (m_pRecvProcessor b) (processors (world m))) paddr = None"
  shows "\<exists>ret m'. start_business e paddr a m = Some (ret, m') \<and> bm_inv RS m' RB \<and>
    length (businesses m') = length (businesses m)"
proof -
  let ?h = "businesses m" and ?w = "world m"
  let ?R = "RS + heap_refs biz_mset ?h"
  have H: "biz_heap ?h ?w RB RS" and T: "biz_table ?h ?w (m_BusinessMap m)"
    and num: "unat (m_unMaxBusinessNum m) = length ?h"
    using inv by (simp_all add: bm_inv_def)
  have sm: "sm_inv ?h" by (rule biz_heapD(2) [OF H])
  have ok: "m_pSendProcessor b = None" "\<And>p. m_pRecvProcessor b = Some p \<Longrightarrow> map_of (processors ?w) p \<noteq> None"
    using biz_heapD(5) [OF H b] by (auto simp: biz_ok_def)
  obtain r s where rs: "m_pRecvSession b = Some r" "m_pSendSession b = Some s" "r \<in># ?R" "s \<in># ?R"
    using biz_heap_sessions [OF H b] .
  have "world_room ?w ?R 0" using room by (simp add: bm_room_def world_room_def)
  then obtain ret b' w' where st: "business_start (be_now e) (be_stop e) (be_enq e) paddr b ?w = Some (ret, b', w')"
      "world_inv w' ?R" "started b ?w paddr b' w'"
    using business_start_ok [OF biz_heapD(1) [OF H] _ rs ok fresh] by blast
  let ?h' = "sm_assign a b' ?h"
  have h: "map_of ?h' = (map_of ?h)(a \<mapsto> b')" by (rule map_of_sm_assign [OF sm])
  have same: "m_nRefCount b' = m_nRefCount b" "m_pRecvSession b' = m_pRecvSession b" "m_pSendSession b' = m_pSendSession b"
      "m_pSendProcessor b' = None" and kept: "ids_kept (factory ?w) (factory w')"
    using st(3) ok(1) by (auto simp: started_def)
  have refs: "heap_refs biz_mset ?h' = heap_refs biz_mset ?h"
    by (rule heap_refs_same [OF sm b]) (simp add: biz_mset_def same)
  have old: "map_of (processors w') p \<noteq> None"
    if "map_of ?h x = Some c" "m_pRecvProcessor c = Some p" "x \<noteq> a" for x c p
  proof -
    have "m_pRecvProcessor b \<noteq> Some p" using biz_heapD(7) [OF H that(1) b that(2)] that(3) by blast
    moreover have "map_of (processors ?w) p \<noteq> None" using biz_heapD(5) [OF H that(1)] that(2) by (simp add: biz_ok_def)
    ultimately show ?thesis using st(3) by (simp add: started_def)
  qed
  have foreign: "m_pRecvProcessor c \<noteq> Some p"
    if "map_of ?h x = Some c" "x \<noteq> a" "m_pRecvProcessor b' = Some p" for x c p
  proof
    assume p: "m_pRecvProcessor c = Some p"
    have "map_of (processors ?w) p \<noteq> None" using biz_heapD(5) [OF H that(1)] p by (simp add: biz_ok_def)
    moreover have nb: "m_pRecvProcessor b \<noteq> Some p" using biz_heapD(7) [OF H that(1) b p] that(2) by blast
    ultimately have "p \<noteq> paddr" using fresh by (auto simp: map_of_without_proc)
    then show False using st(3) that(3) nb by (simp add: started_def)
  qed
  have H': "biz_heap ?h' w' RB RS"
    unfolding biz_heap_def refs
  proof (intro conjI allI impI)
    have "x \<in># RB \<longleftrightarrow> map_of ?h' x \<noteq> None" for x using biz_heapD(3) [OF H, of x] b by (simp add: h)
    then show "set_mset RB = dom (map_of ?h')" by blast
    fix x c assume c: "map_of ?h' x = Some c"
    show "m_nRefCount c = int (count RB x)" using c same(1) biz_heapD(4) [OF H] b by (auto simp: h split: if_splits)
    show "biz_ok c w'"
    proof (cases "x = a")
      case True
      then show ?thesis using c same rs st(3) by (simp add: h biz_ok_def started_def)
    next
      case False
      then have "map_of ?h x = Some c" using c by (simp add: h)
      then show ?thesis using biz_heapD(5) [OF H] old [OF _ _ False] by (simp add: biz_ok_def)
    qed
  next
    fix x c x' c' p
    assume "map_of ?h' x = Some c" "map_of ?h' x' = Some c'" and p: "m_pRecvProcessor c = Some p" "m_pRecvProcessor c' = Some p"
    then have "((map_of ?h)(a \<mapsto> b')) x = Some c" "((map_of ?h)(a \<mapsto> b')) x' = Some c'" by (simp_all only: h)
    then show "x = x'"
      using p foreign biz_heapD(7) [OF H] by (cases "x = a"; cases "x' = a") auto
  qed (use st(2) sm_inv_assign [OF sm] in blast)+
  have ec: "entry_count k c w' = entry_count k c ?w" if "map_of ?h x = Some c" for x c k
    using entry_count_kept [OF kept st(2) biz_mset_in_refs [OF sm that]] biz_heapD(5) [OF H that] by (simp add: biz_ok_def)
  have "entry_count k b' w' = entry_count k b w'" for k
    using same by (simp add: entry_count_def getRecvStreamID_def getSendStreamID_def)
  then have "biz_table ?h' w' (m_BusinessMap m)"
    using T b ec by (auto simp: biz_table_def h length_sm_assign [OF sm b] split: option.split)
  then show ?thesis
    using st(1) b H' num length_sm_assign [OF sm b, of b'] by (simp add: start_business_def bm_inv_def)
qed

section \<open>Runs of the manager\<close>

text \<open>
  The states of the manager, with the references \<open>RS\<close> its clients hold to sessions and \<open>RB\<close> to businesses.  Besides
  the operations of the manager, the clients use the session factory directly, with the references of the businesses
  and processors left alone, and the media exchange deletes a processor no business has any more.  The capacity of the
  configuration is \<open>cap\<close>.
\<close>

definition inner_refs :: "CStreamBusinessManager \<Rightarrow> nat multiset" where
  "inner_refs m = heap_refs biz_mset (businesses m) + heap_refs proc_mset (processors (world m))"

inductive bm_run :: "u32 \<Rightarrow> nat multiset \<Rightarrow> CStreamBusinessManager \<Rightarrow> nat multiset \<Rightarrow> bool" for cap where
  start: "bm_run cap {#}
    (CStreamBusinessManager_new \<lparr> factory = CStreamSessionFactory_new, processors = [], posted = [] \<rparr>) {#}"
| clients: "bm_run cap RS m RB \<Longrightarrow> factory_step (factory (world m)) (RS + inner_refs m) f' (RS' + inner_refs m) \<Longrightarrow>
    bm_run cap RS' (m\<lparr>world := (world m)\<lparr>factory := f'\<rparr>\<rparr>) RB"
| create: "bm_run cap RS m RB \<Longrightarrow> bm_room RS m RB \<Longrightarrow> map_of (businesses m) addr = None \<Longrightarrow> be_capacity e = cap \<Longrightarrow>
    createBusiness e addr i j play m = Some (r, m') \<Longrightarrow> bm_run cap RS m' (RB + opt_mset r)"
| find: "bm_run cap RS m RB \<Longrightarrow> bm_room RS m RB \<Longrightarrow> findBusiness i m = Some (r, m') \<Longrightarrow> bm_run cap RS m' (RB + opt_mset r)"
| find_list: "bm_run cap RS m RB \<Longrightarrow> bm_room RS m RB \<Longrightarrow> findBusiness_list i m = Some (l, m') \<Longrightarrow>
    bm_run cap RS m' (RB + mset l)"
| get_all: "bm_run cap RS m RB \<Longrightarrow> bm_room RS m RB \<Longrightarrow> getAllBusiness m = Some (l, m') \<Longrightarrow> bm_run cap RS m' (RB + mset l)"
| release: "bm_run cap RS m (add_mset a RB) \<Longrightarrow> releaseBusiness e (Some a) m = Some m' \<Longrightarrow> bm_run cap RS m' RB"
| release_list: "bm_run cap RS m (RB + mset l) \<Longrightarrow> releaseBusiness_list e l m = Some m' \<Longrightarrow> bm_run cap RS m' RB"
| start_business: "bm_run cap RS m RB \<Longrightarrow> bm_room RS m RB \<Longrightarrow> map_of (businesses m) a = Some b \<Longrightarrow>
    map_of (without_proc (m_pRecvProcessor b) (processors (world m))) paddr = None \<Longrightarrow>
    start_business e paddr a m = Some (ret, m') \<Longrightarrow> bm_run cap RS m' RB"
| exchange: "bm_run cap RS m RB \<Longrightarrow> map_of (processors (world m)) p \<noteq> None \<Longrightarrow>
    (\<And>a b. map_of (businesses m) a = Some b \<Longrightarrow> m_pRecvProcessor b \<noteq> Some p) \<Longrightarrow>
    delete_processor now stop (Some p) (world m) = Some w' \<Longrightarrow> bm_run cap RS (m\<lparr>world := w'\<rparr>) RB"

lemma clients_ok:
  assumes inv: "bm_inv RS m RB"
    and st: "factory_step (factory (world m)) (RS + inner_refs m) f' (RS' + inner_refs m)"
  shows "bm_inv RS' (m\<lparr>world := (world m)\<lparr>factory := f'\<rparr>\<rparr>) RB"
proof -
  let ?h = "businesses m" and ?w = "world m" and ?w' = "(world m)\<lparr>factory := f'\<rparr>"
  have H: "biz_heap ?h ?w RB RS" and T: "biz_table ?h ?w (m_BusinessMap m)" using inv by (simp_all add: bm_inv_def)
  have f: "fac_inv (factory ?w) (RS + inner_refs m)" and sm: "sm_inv (processors ?w)"
    using biz_heapD(1) [OF H] by (simp_all add: world_inv_def world_refs_def inner_refs_def ac_simps)
  have f': "fac_inv f' (RS' + inner_refs m)" using factory_step_inv [OF st f] by blast
  then have w': "world_inv ?w' (RS' + heap_refs biz_mset ?h)"
    using sm by (simp add: world_inv_def world_refs_def inner_refs_def ac_simps)
  have ids: "stream_id_of (Some a) ?w' = stream_id_of (Some a) ?w" if a: "a \<in># heap_refs biz_mset ?h" for a
  proof -
    obtain s s' where "map_of (sessions (factory ?w)) a = Some s" "map_of (sessions f') a = Some s'"
      using fac_invD(6) [OF f, of a] fac_invD(6) [OF f', of a] a by (auto simp: inner_refs_def)
    then show ?thesis
      using factory_step_ids [OF st f] by (auto simp: stream_id_of_def session_at_def ids_agree_def)
  qed
  have "map_of (processors ?w') p \<noteq> None" if "map_of ?h a = Some b" "m_pRecvProcessor b = Some p" for a b p
    using biz_heapD(5) [OF H that(1)] that(2) by (simp add: biz_ok_def)
  then show ?thesis using bm_world_ids [OF H T w' ids] inv by (simp add: bm_inv_def)
qed

lemma exchange_ok:
  assumes inv: "bm_inv RS m RB" and p: "map_of (processors (world m)) p \<noteq> None"
    and free: "\<And>a b. map_of (businesses m) a = Some b \<Longrightarrow> m_pRecvProcessor b \<noteq> Some p"
  shows "\<exists>w'. delete_processor now stop (Some p) (world m) = Some w' \<and> bm_inv RS (m\<lparr>world := w'\<rparr>) RB"
proof -
  let ?h = "businesses m" and ?w = "world m"
  have H: "biz_heap ?h ?w RB RS" and T: "biz_table ?h ?w (m_BusinessMap m)" using inv by (simp_all add: bm_inv_def)
  obtain w' where w': "delete_processor now stop (Some p) ?w = Some w'" "world_inv w' (RS + heap_refs biz_mset ?h)"
      "processors w' = without_proc (Some p) (processors ?w)" "ids_kept (factory ?w) (factory w')"
    using delete_processor_ok [OF biz_heapD(1) [OF H], of "Some p"] p by blast
  have "map_of (processors w') q \<noteq> None" if "map_of ?h a = Some b" "m_pRecvProcessor b = Some q" for a b q
    using biz_heapD(5) [OF H that(1)] free [OF that(1)] that(2) by (auto simp: biz_ok_def w'(3) map_of_without_proc)
  then have "bm_inv RS (m\<lparr>world := w'\<rparr>) RB" using bm_world [OF H T w'(2,4)] inv by (simp add: bm_inv_def)
  then show ?thesis using w'(1) by blast
qed

lemma bm_run_inv: "bm_run cap RS m RB \<Longrightarrow> bm_inv RS m RB \<and> length (businesses m) \<le> unat cap"
proof (induction rule: bm_run.induct)
  case start
  show ?case
    by (simp add: bm_inv_def biz_heap_def biz_table_def world_inv_def world_refs_def fac_inv_def CStreamBusinessManager_new_def
        CStreamSessionFactory_new_def heap_refs_simps)
next
  case (clients RS m RB f' RS')
  then show ?case using clients_ok [of RS m RB f' RS'] by simp
next
  case (create RS m RB addr e i j play r m')
  then show ?case using createBusiness_ok [of RS m RB addr e i j play] by auto
next
  case (find RS m RB i r m')
  then show ?case using findBusiness_ok [of RS m RB i] by (auto simp: bm_room_def)
next
  case (find_list RS m RB i l m')
  have it: "set (mm_find i (m_BusinessMap m)) \<subseteq> set (m_BusinessMap m)" "length (mm_find i (m_BusinessMap m)) \<le> length (m_BusinessMap m)"
    by (auto simp: mm_find_def length_dropWhile_le dest: set_dropWhileD)
  show ?case
    using find_list it find_loop_ok [of RS m RB "mm_find i (m_BusinessMap m)" i "[]"]
    by (auto simp: findBusiness_list_def bm_room_def)
next
  case (get_all RS m RB l m')
  then show ?case using get_all_loop_ok [of RS m RB "m_BusinessMap m" "[]"] by (auto simp: getAllBusiness_def bm_room_def)
next
  case (release RS m a RB e m')
  then show ?case using releaseBusiness_ok [of RS m a RB e] by auto
next
  case (release_list RS m RB l e m')
  then show ?case using bm.release_all_ok [of RS m RB l e] by (auto simp: releaseBusiness_list_eq)
next
  case (start_business RS m RB a b paddr e ret m')
  then show ?case using start_business_ok [of RS m RB a b paddr e] by auto
next
  case (exchange RS m RB p now stop w')
  then show ?case using exchange_ok [of RS m RB p now stop] by auto
qed

lemma bm_run_facts:
  assumes run: "bm_run cap RS m RB"
  shows "a \<in># RB \<Longrightarrow> \<exists>b. map_of (businesses m) a = Some b"
    and "map_of (businesses m) a = Some b \<Longrightarrow> m_nRefCount b = int (count RB a) \<and> 0 < m_nRefCount b \<and>
      (\<exists>i j. getRecvStreamID b (world m) = Some i \<and> getSendStreamID b (world m) = Some j \<and>
         (\<forall>k. count (mset (m_BusinessMap m)) (k, a) = (if k = i then 1 else 0) + (if k = j then 1 else 0)))"
    and "(k, a) \<in> set (m_BusinessMap m) \<Longrightarrow> \<exists>b. map_of (businesses m) a = Some b"
    and "session_at c (world m) = Some s \<Longrightarrow>
      m_lReferenceCnt s = int (count (RS + inner_refs m + peer_refs (sessions (factory (world m)))) c)"
    and "unat (m_unMaxBusinessNum m) = length (businesses m) \<and> length (businesses m) \<le> unat cap"
    and "getBusinessCount m = 2 * m_unMaxBusinessNum m"
    and "a \<in># RB \<Longrightarrow> releaseBusiness e (Some a) m \<noteq> None"
    and "bm_room RS m RB \<Longrightarrow> findBusiness k m \<noteq> None"
    and "bm_room RS m RB \<Longrightarrow> map_of (businesses m) addr = None \<Longrightarrow> be_capacity e = cap \<Longrightarrow>
      createBusiness e addr k k' play m \<noteq> None"
proof -
  let ?h = "businesses m" and ?w = "world m"
  have inv: "bm_inv RS m RB" and cap: "length ?h \<le> unat cap" using bm_run_inv [OF run] by blast+
  then have H: "biz_heap ?h ?w RB RS" and T: "biz_table ?h ?w (m_BusinessMap m)" and num: "unat (m_unMaxBusinessNum m) = length ?h"
    by (simp_all add: bm_inv_def)
  show "\<exists>b. map_of ?h a = Some b" if "a \<in># RB" using biz_heapD(3) [OF H, of a] that by auto
  show "\<exists>b. map_of ?h a = Some b" if "(k, a) \<in> set (m_BusinessMap m)" using table_hit [OF T that] .
  show "m_nRefCount b = int (count RB a) \<and> 0 < m_nRefCount b \<and>
      (\<exists>i j. getRecvStreamID b ?w = Some i \<and> getSendStreamID b ?w = Some j \<and>
         (\<forall>k. count (mset (m_BusinessMap m)) (k, a) = (if k = i then 1 else 0) + (if k = j then 1 else 0)))"
    if b: "map_of ?h a = Some b"
  proof -
    obtain r s where rs: "m_pRecvSession b = Some r" "m_pSendSession b = Some s"
        "r \<in># RS + heap_refs biz_mset ?h" "s \<in># RS + heap_refs biz_mset ?h"
      using biz_heap_sessions [OF H b] .
    then obtain i j where ij: "getRecvStreamID b ?w = Some i" "getSendStreamID b ?w = Some j"
      using world_session [OF biz_heapD(1) [OF H]] by (force simp: getRecvStreamID_def getSendStreamID_def stream_id_of_def)
    then have "count (mset (m_BusinessMap m)) (k, a) = (if k = i then 1 else 0) + (if k = j then 1 else 0)" for k
      using T b by (auto simp: biz_table_def entry_count_def)
    then show ?thesis using ij biz_heapD(4,6) [OF H b] by blast
  qed
  show "m_lReferenceCnt s = int (count (RS + inner_refs m + peer_refs (sessions (factory ?w))) c)"
    if s: "session_at c ?w = Some s"
  proof -
    have "fac_inv (factory ?w) (RS + inner_refs m)"
      using biz_heapD(1) [OF H] by (simp add: world_inv_def world_refs_def inner_refs_def ac_simps)
    then show ?thesis using fac_invD(4) s unfolding session_at_def by blast
  qed
  show "unat (m_unMaxBusinessNum m) = length ?h \<and> length ?h \<le> unat cap" using num cap by simp
  have "length (m_BusinessMap m) = 2 * unat (m_unMaxBusinessNum m)" using T num by (simp add: biz_table_def)
  then show "getBusinessCount m = 2 * m_unMaxBusinessNum m" by (simp add: getBusinessCount_def)
  show "releaseBusiness e (Some a) m \<noteq> None" if "a \<in># RB"
    using releaseBusiness_ok [of RS m a "RB - {#a#}" e] inv that by auto
  show "findBusiness k m \<noteq> None" if "bm_room RS m RB" using findBusiness_ok [OF inv, of k] that by (auto simp: bm_room_def)
  show "createBusiness e addr k k' play m \<noteq> None"
    if "bm_room RS m RB" "map_of ?h addr = None" "be_capacity e = cap"
    using createBusiness_ok [OF inv that(1,2), of e k k' play] cap that(3) by auto
qed

text \<open>
  C34. The business manager never touches a deleted business or session and never exceeds its capacity.  In every state
  it can get into: a reference a client holds points to a live business, whose counter is exactly the number of
  references to it; the table has exactly the entries of the live businesses, one under the id of each of their two
  sessions; the sessions a business uses are alive and their counters are exactly the references of the clients, the
  businesses, the processors and the peers; the number of businesses is the counter that is compared with the capacity
  and does not exceed it, and \<open>getBusinessCount\<close> is twice that number; and as long as the counters have room, lookups,
  releases and creations are free of undefined behaviour.  One assumption is built into the runs: the media exchange, which is not
  part of the model, deletes only processors that no business holds.  (The source can break it: after a second start of a business the
  exchange may remove a processor the business still holds.)
\<close>

theorem business_refs_exact:
  assumes run: "bm_run cap RS m RB"
  shows "(\<forall>a. a \<in># RB \<longrightarrow> (\<exists>b. map_of (businesses m) a = Some b) \<and> releaseBusiness e (Some a) m \<noteq> None) \<and>
    (\<forall>a b. map_of (businesses m) a = Some b \<longrightarrow> m_nRefCount b = int (count RB a) \<and> 0 < m_nRefCount b \<and>
      (\<exists>i j. getRecvStreamID b (world m) = Some i \<and> getSendStreamID b (world m) = Some j \<and>
         (\<forall>k. count (mset (m_BusinessMap m)) (k, a) = (if k = i then 1 else 0) + (if k = j then 1 else 0)))) \<and>
    (\<forall>k a. (k, a) \<in> set (m_BusinessMap m) \<longrightarrow> (\<exists>b. map_of (businesses m) a = Some b)) \<and>
    (\<forall>c s. session_at c (world m) = Some s \<longrightarrow>
      m_lReferenceCnt s = int (count (RS + inner_refs m + peer_refs (sessions (factory (world m)))) c)) \<and>
    unat (m_unMaxBusinessNum m) = length (businesses m) \<and> length (businesses m) \<le> unat cap \<and>
    getBusinessCount m = 2 * m_unMaxBusinessNum m \<and>
    (bm_room RS m RB \<longrightarrow> findBusiness k m \<noteq> None \<and>
       (map_of (businesses m) addr = None \<and> be_capacity e = cap \<longrightarrow> createBusiness e addr i j play m \<noteq> None))"
  by (intro conjI allI impI) (use bm_run_facts [OF run] in blast)+

definition benv_a :: bm_env where
  "benv_a = \<lparr> be_now = 7, be_stop = (\<lambda>_. (RET_OK, [])), be_enq = True, be_reactor = True, be_mem = True, be_capacity = 3 \<rparr>"

definition manager_0 :: CStreamBusinessManager where
  "manager_0 = CStreamBusinessManager_new \<lparr> factory = factory_a, processors = [], posted = [] \<rparr>"

definition manager_a :: CStreamBusinessManager where
  "manager_a = snd (the (createBusiness benv_a 60 1 1 PLAY_TYPE_LIVE manager_0))"

lemma manager_a_run: "bm_run 3 {#40#} manager_a {#60#}"
proof -
  let ?m = "CStreamBusinessManager_new \<lparr> factory = CStreamSessionFactory_new, processors = [], posted = [] \<rparr>"
  have "createSession True True env_a 40 PEER_TYPE_PU RTP_SESSION False CStreamSessionFactory_new = Some (Some 40, factory_a)"
    by (simp add: factory_a_def createSession_def CStreamSessionFactory_new_def createConcreteSession_def Let_def)
  then have "factory_step CStreamSessionFactory_new {#} factory_a ({#} + opt_mset (Some 40))"
    by (rule factory_step.create [rotated 2]) (simp_all add: CStreamSessionFactory_new_def)
  then have run: "bm_run 3 {#40#} manager_0 {#}"
    using bm_run.clients [OF bm_run.start, of factory_a "{#40#}" 3]
    by (simp add: manager_0_def CStreamBusinessManager_new_def inner_refs_def heap_refs_simps)
  have len: "length (sessions factory_a) = 1" using factory_a_sessions(1) by (metis length_map list.size(3,4) One_nat_def add_0)
  have room: "bm_room {#40#} manager_0 {#}"
    using len by (simp add: bm_room_def world_room_def world_refs_def manager_0_def CStreamBusinessManager_new_def heap_refs_simps)
  have "map_option fst (createBusiness benv_a 60 1 1 PLAY_TYPE_LIVE manager_0) = Some (Some 60)" by code_simp
  then have "createBusiness benv_a 60 1 1 PLAY_TYPE_LIVE manager_0 = Some (Some 60, manager_a)" by (auto simp: manager_a_def)
  from bm_run.create [OF run room _ _ this] show ?thesis
    by (simp add: benv_a_def manager_0_def CStreamBusinessManager_new_def)
qed

theorem business_refs_exact_witness:
  "(\<exists>b. map_of (businesses manager_a) 60 = Some b) \<and> length (businesses manager_a) \<le> unat (3 :: u32) \<and>
   getBusinessCount manager_a = 2 * m_unMaxBusinessNum manager_a \<and>
   releaseBusiness benv_a (Some 60) manager_a \<noteq> None"
  using business_refs_exact [OF manager_a_run, of benv_a]
  by simp

end
