(* ===== verification/RtmpAmf.thy ===== *)
theory RtmpAmf
  imports StdMap "HOL-Library.List_Lexorder"
begin

text \<open>
  \<open>rtmpserver/svs_rtmp_amf.cpp\<close> and the loads of \<open>rtmpserver/svs_rtmp_utils.cpp\<close>: the values of RTMP commands as
  AMF bytes.  A \<open>std::string\<close> is a list of bytes, an object is a \<open>std::map\<close> from such strings to values, and a
  \<open>double\<close> is its 64 bits, which the code only copies; where it converts between \<open>double\<close> and \<open>int\<close>, the conversion is
  written out on the bits.  A thrown \<open>std::runtime_error\<close> and a failed \<open>assert\<close> are values of \<open>amf_error\<close>.  Positions
  are natural numbers: they are at most the size of a string plus a length below \<open>2 ^ 32\<close>, so a \<open>size_t\<close> of 64 bits
  does not wrap.
\<close>

section \<open>Values\<close>

datatype AMFValue =
    AMF_NUMBER u64
  | AMF_INTEGER u32
  | AMF_BOOLEAN bool
  | AMF_STRING bytes
  | AMF_OBJECT "(bytes \<times> AMFValue) list"
  | AMF_NULL
  | AMF_UNDEFINED
  | AMF_ECMA_ARRAY "(bytes \<times> AMFValue) list"

type_synonym amf_object_t = "(bytes, AMFValue) stdmap"

datatype amf_error =
    NotEnoughData
  | ExpectedString
  | ExpectedBoolean
  | ExpectedObject
  | ExpectedEcma
  | ExpectedObjectEnd
  | NoIntegers
  | UnsupportedAmf0 u8
  | UnsupportedAmf3 u8
  | AssertFailed
  | ConversionUndefined

abbreviation (input) AMF0_NUMBER :: u8 where "AMF0_NUMBER \<equiv> 0"
abbreviation (input) AMF0_BOOLEAN :: u8 where "AMF0_BOOLEAN \<equiv> 1"
abbreviation (input) AMF0_STRING :: u8 where "AMF0_STRING \<equiv> 2"
abbreviation (input) AMF0_OBJECT :: u8 where "AMF0_OBJECT \<equiv> 3"
abbreviation (input) AMF0_NULL :: u8 where "AMF0_NULL \<equiv> 5"
abbreviation (input) AMF0_UNDEFINED :: u8 where "AMF0_UNDEFINED \<equiv> 6"
abbreviation (input) AMF0_ECMA_ARRAY :: u8 where "AMF0_ECMA_ARRAY \<equiv> 8"
abbreviation (input) AMF0_OBJECT_END :: u8 where "AMF0_OBJECT_END \<equiv> 9"
abbreviation (input) AMF0_SWITCH_AMF3 :: u8 where "AMF0_SWITCH_AMF3 \<equiv> 17"
abbreviation (input) AMF3_UNDEFINED :: u8 where "AMF3_UNDEFINED \<equiv> 0"
abbreviation (input) AMF3_NULL :: u8 where "AMF3_NULL \<equiv> 1"
abbreviation (input) AMF3_FALSE :: u8 where "AMF3_FALSE \<equiv> 2"
abbreviation (input) AMF3_TRUE :: u8 where "AMF3_TRUE \<equiv> 3"
abbreviation (input) AMF3_INTEGER :: u8 where "AMF3_INTEGER \<equiv> 4"
abbreviation (input) AMF3_NUMBER :: u8 where "AMF3_NUMBER \<equiv> 5"
abbreviation (input) AMF3_STRING :: u8 where "AMF3_STRING \<equiv> 6"
abbreviation (input) AMF3_ARRAY :: u8 where "AMF3_ARRAY \<equiv> 9"
abbreviation (input) AMF3_OBJECT :: u8 where "AMF3_OBJECT \<equiv> 10"

text \<open>
  The conversions between \<open>int\<close> and the bits of a \<open>double\<close>: every \<open>int\<close> is representable; a \<open>double\<close> is truncated
  towards zero, and the conversion is undefined if the result does not fit.
\<close>

fun log2 :: "nat \<Rightarrow> nat" where
  "log2 n = (if n < 2 then 0 else Suc (log2 (n div 2)))"

declare log2.simps [simp del]

definition double_of_int :: "u32 \<Rightarrow> u64" where
  "double_of_int i =
     (let n = nat \<bar>sint i\<bar>; e = log2 n
      in if n = 0 then 0
         else of_nat ((if sint i < 0 then 2 ^ 63 else 0) + (1023 + e) * 2 ^ 52 + (n - 2 ^ e) * 2 ^ (52 - e)))"

definition int_of_double :: "u64 \<Rightarrow> u32 option" where
  "int_of_double d =
     (let e = unat d div 2 ^ 52 mod 2048; m = 2 ^ 52 + unat d mod 2 ^ 52; neg = 2 ^ 63 \<le> unat d
      in if e < 1023 then Some 0
         else if e \<le> 1054
         then let t = m div 2 ^ (1075 - e)
              in if t < 2 ^ 31 \<or> neg \<and> t = 2 ^ 31 then Some (if neg then - of_nat t else of_nat t) else None
         else None)"

definition as_string :: "AMFValue \<Rightarrow> amf_error + bytes" where
  "as_string v = (case v of AMF_STRING s \<Rightarrow> Inr s | _ \<Rightarrow> Inl AssertFailed)"

definition as_number :: "AMFValue \<Rightarrow> amf_error + u64" where
  "as_number v = (case v of AMF_NUMBER n \<Rightarrow> Inr n | _ \<Rightarrow> Inl AssertFailed)"

definition as_integer :: "AMFValue \<Rightarrow> amf_error + u64" where
  "as_integer v = (case v of AMF_INTEGER i \<Rightarrow> Inr (double_of_int i) | _ \<Rightarrow> Inl AssertFailed)"

definition as_boolean :: "AMFValue \<Rightarrow> amf_error + bool" where
  "as_boolean v = (case v of AMF_BOOLEAN b \<Rightarrow> Inr b | _ \<Rightarrow> Inl AssertFailed)"

definition as_object :: "AMFValue \<Rightarrow> amf_error + amf_object_t" where
  "as_object v = (case v of AMF_OBJECT m \<Rightarrow> Inr m | _ \<Rightarrow> Inl AssertFailed)"

definition amf_get :: "bytes \<Rightarrow> AMFValue \<Rightarrow> amf_error + AMFValue" where
  "amf_get s v =
     (case v of AMF_OBJECT m \<Rightarrow> Inr (case map_of m s of None \<Rightarrow> AMF_NULL | Some w \<Rightarrow> w) | _ \<Rightarrow> Inl AssertFailed)"

definition amf_set :: "bytes \<Rightarrow> AMFValue \<Rightarrow> AMFValue \<Rightarrow> amf_error + AMFValue" where
  "amf_set s w v = (case v of AMF_OBJECT m \<Rightarrow> Inr (AMF_OBJECT (sm_insert s w m)) | _ \<Rightarrow> Inl AssertFailed)"

section \<open>Writing\<close>

definition amf_write_string :: "bytes \<Rightarrow> bytes \<Rightarrow> bytes" where
  "amf_write_string s enc = enc @ [AMF0_STRING] @ le16 (ntohs (of_nat (length s))) @ s"

definition amf_write_int :: "u32 \<Rightarrow> bytes \<Rightarrow> amf_error + bytes" where
  "amf_write_int i enc = Inl NoIntegers"

definition amf_write_double :: "u64 \<Rightarrow> bytes \<Rightarrow> bytes" where
  "amf_write_double n enc = enc @ [AMF0_NUMBER] @ le32 (ntohl (ucast (drop_bit 32 n))) @ le32 (ntohl (ucast n))"

definition amf_write_bool :: "bool \<Rightarrow> bytes \<Rightarrow> bytes" where
  "amf_write_bool b enc = enc @ [AMF0_BOOLEAN] @ [of_bool b]"

definition amf_write_key :: "bytes \<Rightarrow> bytes \<Rightarrow> bytes" where
  "amf_write_key s enc = enc @ le16 (ntohs (of_nat (length s))) @ s"

definition amf_write_null :: "bytes \<Rightarrow> bytes" where
  "amf_write_null enc = enc @ [AMF0_NULL]"

fun amf_write :: "AMFValue \<Rightarrow> bytes \<Rightarrow> amf_error + bytes"
  and amf_write_object :: "amf_object_t \<Rightarrow> bytes \<Rightarrow> amf_error + bytes"
  and amf_write_pairs :: "amf_object_t \<Rightarrow> bytes \<Rightarrow> amf_error + bytes" where
  "amf_write (AMF_STRING s) enc = Inr (amf_write_string s enc)"
| "amf_write (AMF_NUMBER n) enc = Inr (amf_write_double n enc)"
| "amf_write (AMF_INTEGER i) enc = Inr (amf_write_double (double_of_int i) enc)"
| "amf_write (AMF_BOOLEAN b) enc = Inr (amf_write_bool b enc)"
| "amf_write (AMF_OBJECT m) enc = amf_write_object m enc"
| "amf_write (AMF_ECMA_ARRAY m) enc = Inl AssertFailed"
| "amf_write AMF_NULL enc = Inr (amf_write_null enc)"
| "amf_write AMF_UNDEFINED enc = Inr enc"
| "amf_write_object m enc = amf_write_pairs m (enc @ [AMF0_OBJECT])"
| "amf_write_pairs [] enc = Inr (amf_write_key [] enc @ [AMF0_OBJECT_END])"
| "amf_write_pairs ((k, v) # m) enc =
     (case amf_write v (amf_write_key k enc) of Inl e \<Rightarrow> Inl e | Inr enc' \<Rightarrow> amf_write_pairs m enc')"

definition amf_write_ecma :: "amf_object_t \<Rightarrow> bytes \<Rightarrow> amf_error + bytes" where
  "amf_write_ecma m enc = amf_write_pairs m (enc @ [AMF0_ECMA_ARRAY] @ [0, 0, 0, 0])"

section \<open>Loading\<close>

record Decoder =
  dec_buf :: bytes
  dec_pos :: nat
  dec_version :: int

text \<open>
  A load returns a value and the decoder behind it, or what was thrown.  \<open>amf_bind\<close> is the sequence of two loads, of
  which the second one runs only if the first one has not thrown.
\<close>

type_synonym 'a load = "amf_error + 'a \<times> Decoder"

definition amf_bind :: "'a load \<Rightarrow> ('a \<Rightarrow> Decoder \<Rightarrow> 'b load) \<Rightarrow> 'b load" where
  "amf_bind m k = (case m of Inl e \<Rightarrow> Inl e | Inr (v, d) \<Rightarrow> k v d)"

lemma amf_bind_cong [fundef_cong]:
  "m = m' \<Longrightarrow> (\<And>v d. m' = Inr (v, d) \<Longrightarrow> k v d = k' v d) \<Longrightarrow> amf_bind m k = amf_bind m' k'"
  by (auto simp: amf_bind_def split: sum.split)

lemma amf_bind_simps [simp]: "amf_bind (Inl e) k = Inl e" "amf_bind (Inr (v, d)) k = k v d"
  by (simp_all add: amf_bind_def)

lemma amf_bind_Inr: "amf_bind m k = Inr r \<longleftrightarrow> (\<exists>v d. m = Inr (v, d) \<and> k v d = Inr r)"
  by (auto simp: amf_bind_def split: sum.splits)

definition load_be16 :: "bytes \<Rightarrow> nat \<Rightarrow> u16" where
  "load_be16 b p = ntohs (ld16 b p)"

definition load_be32 :: "bytes \<Rightarrow> nat \<Rightarrow> u32" where
  "load_be32 b p = ntohl (ld32 b p)"

definition peek :: "Decoder \<Rightarrow> u8 load" where
  "peek d = (if length (dec_buf d) \<le> dec_pos d then Inl NotEnoughData else Inr (dec_buf d ! dec_pos d, d))"

definition get_byte :: "Decoder \<Rightarrow> u8 load" where
  "get_byte d =
     amf_bind (if dec_version d = 0
               then amf_bind (peek d) (\<lambda>b d. Inr ((),
                 if b = AMF0_SWITCH_AMF3 then d\<lparr>dec_pos := dec_pos d + 1, dec_version := 3\<rparr> else d))
               else Inr ((), d))
       (\<lambda>_ d. if length (dec_buf d) \<le> dec_pos d then Inl NotEnoughData
              else Inr (dec_buf d ! dec_pos d, d\<lparr>dec_pos := dec_pos d + 1\<rparr>))"

text \<open>The loop of \<open>load_amf3_integer\<close>, from its counter \<open>i\<close> on.\<close>

function amf3_loop :: "nat \<Rightarrow> u32 \<Rightarrow> Decoder \<Rightarrow> u32 load" where
  "amf3_loop i value d =
     (if i < 4
      then amf_bind (get_byte d) (\<lambda>b d.
             if i = 3 then Inr (push_bit 8 value OR ucast b, d)
             else let v = push_bit 7 value OR ucast (b AND 127)
                  in if b AND 128 = 0 then Inr (v, d) else amf3_loop (i + 1) v d)
      else Inr (value, d))"
  by auto
termination by (relation "measure (\<lambda>(i, _, _). 4 - i)") auto

declare amf3_loop.simps [simp del]

definition load_amf3_integer :: "Decoder \<Rightarrow> u32 load" where
  "load_amf3_integer d = amf3_loop 0 0 d"

text \<open>\<open>std::string s (dec->buf, dec->pos, str_len)\<close> behind the test that the bytes are there.\<close>

definition take_string :: "nat \<Rightarrow> Decoder \<Rightarrow> bytes load" where
  "take_string n d =
     (if length (dec_buf d) < dec_pos d + n then Inl NotEnoughData
      else Inr (take n (drop (dec_pos d) (dec_buf d)), d\<lparr>dec_pos := dec_pos d + n\<rparr>))"

definition take_be16 :: "Decoder \<Rightarrow> nat load" where
  "take_be16 d =
     (if length (dec_buf d) < dec_pos d + 2 then Inl NotEnoughData
      else Inr (unat (load_be16 (dec_buf d) (dec_pos d)), d\<lparr>dec_pos := dec_pos d + 2\<rparr>))"

definition amf_load_string :: "Decoder \<Rightarrow> bytes load" where
  "amf_load_string d =
     amf_bind (get_byte d) (\<lambda>type d.
       if dec_version d = 3
       then if type \<noteq> AMF3_STRING then Inl ExpectedString
            else amf_bind (load_amf3_integer d) (\<lambda>n. take_string (unat n div 2))
       else if type \<noteq> AMF0_STRING then Inl ExpectedString
            else amf_bind (take_be16 d) take_string)"

definition amf_load_number :: "Decoder \<Rightarrow> u64 load" where
  "amf_load_number d =
     amf_bind (get_byte d) (\<lambda>type d.
       if type \<noteq> AMF0_NUMBER then Inl ExpectedString
       else if length (dec_buf d) < dec_pos d + 8 then Inl NotEnoughData
       else Inr (push_bit 32 (ucast (load_be32 (dec_buf d) (dec_pos d))) OR ucast (load_be32 (dec_buf d) (dec_pos d + 4)),
                 d\<lparr>dec_pos := dec_pos d + 8\<rparr>))"

definition amf_load_integer :: "Decoder \<Rightarrow> u32 load" where
  "amf_load_integer d =
     (if dec_version d = 3 then load_amf3_integer d
      else amf_bind (amf_load_number d) (\<lambda>n d.
        case int_of_double n of None \<Rightarrow> Inl ConversionUndefined | Some i \<Rightarrow> Inr (i, d)))"

definition amf_load_boolean :: "Decoder \<Rightarrow> bool load" where
  "amf_load_boolean d =
     amf_bind (get_byte d) (\<lambda>type d.
       if type \<noteq> AMF0_BOOLEAN then Inl ExpectedBoolean
       else amf_bind (get_byte d) (\<lambda>b d. Inr (b \<noteq> 0, d)))"

definition amf_load_key :: "Decoder \<Rightarrow> bytes load" where
  "amf_load_key d = amf_bind (take_be16 d) take_string"

text \<open>\<open>dec->pos++\<close> for the values that are only their type byte.\<close>

definition skip_type :: "AMFValue \<Rightarrow> Decoder \<Rightarrow> AMFValue load" where
  "skip_type v d = Inr (v, d\<lparr>dec_pos := dec_pos d + 1\<rparr>)"

text \<open>\<open>AMFValue (x)\<close> around the result of a load.\<close>

definition amf_map :: "('a \<Rightarrow> 'b) \<Rightarrow> 'a load \<Rightarrow> 'b load" where
  "amf_map f m = amf_bind m (\<lambda>v d. Inr (f v, d))"

lemma amf_map_cong [fundef_cong]: "m = m' \<Longrightarrow> f = f' \<Longrightarrow> amf_map f m = amf_map f' m'"
  by simp

text \<open>
  \<open>amf_load\<close> and the objects it loads; \<open>amf_load_pairs\<close> is the loop over the keys with the test of the end byte
  behind it, which \<open>amf_load_object\<close> and \<open>amf_load_ecma\<close> have in common.
\<close>

function amf_load :: "Decoder \<Rightarrow> AMFValue load"
  and amf_load_object :: "Decoder \<Rightarrow> amf_object_t load"
  and amf_load_ecma :: "Decoder \<Rightarrow> amf_object_t load"
  and amf_load_pairs :: "amf_object_t \<Rightarrow> Decoder \<Rightarrow> amf_object_t load" where
  "amf_load d =
     amf_bind (peek d) (\<lambda>type _.
       if dec_version d = 3
       then if type = AMF3_STRING then amf_map AMF_STRING (amf_load_string d)
            else if type = AMF3_NUMBER then amf_map AMF_NUMBER (amf_load_number d)
            else if type = AMF3_INTEGER then amf_map AMF_INTEGER (amf_load_integer d)
            else if type = AMF3_FALSE then skip_type (AMF_BOOLEAN False) d
            else if type = AMF3_TRUE then skip_type (AMF_BOOLEAN True) d
            else if type = AMF3_OBJECT then amf_map AMF_OBJECT (amf_load_object d)
            else if type = AMF3_ARRAY then amf_map AMF_OBJECT (amf_load_ecma d)
            else if type = AMF3_NULL then skip_type AMF_NULL d
            else if type = AMF3_UNDEFINED then skip_type AMF_UNDEFINED d
            else Inl (UnsupportedAmf3 type)
       else if type = AMF0_STRING then amf_map AMF_STRING (amf_load_string d)
            else if type = AMF0_NUMBER then amf_map AMF_NUMBER (amf_load_number d)
            else if type = AMF0_BOOLEAN then amf_map AMF_BOOLEAN (amf_load_boolean d)
            else if type = AMF0_OBJECT then amf_map AMF_OBJECT (amf_load_object d)
            else if type = AMF0_ECMA_ARRAY then amf_map AMF_OBJECT (amf_load_ecma d)
            else if type = AMF0_NULL then skip_type AMF_NULL d
            else if type = AMF0_UNDEFINED then skip_type AMF_UNDEFINED d
            else Inl (UnsupportedAmf0 type))"
| "amf_load_object d =
     amf_bind (get_byte d) (\<lambda>b d'. if b \<noteq> AMF0_OBJECT then Inl ExpectedObject else amf_load_pairs [] d')"
| "amf_load_ecma d =
     amf_bind (get_byte d) (\<lambda>b d'.
       if b \<noteq> AMF0_ECMA_ARRAY then Inl ExpectedEcma
       else if length (dec_buf d') < dec_pos d' + 4 then Inl NotEnoughData
       else amf_load_pairs [] (d'\<lparr>dec_pos := dec_pos d' + 4\<rparr>))"
| "amf_load_pairs m d =
     amf_bind (amf_load_key d) (\<lambda>key d1.
       if key = []
       then amf_bind (get_byte d1) (\<lambda>b d2. if b \<noteq> AMF0_OBJECT_END then Inl ExpectedObjectEnd else Inr (m, d2))
       else amf_bind (amf_load d1) (\<lambda>v d2. amf_load_pairs (sm_insert key v m) d2))"
  by pat_completeness auto

text \<open>
  Every load stays in the buffer and moves forward, so the recursion ends.  \<open>forward True\<close> is for loads that consume at
  least one byte.
\<close>

definition moves :: "Decoder \<Rightarrow> Decoder \<Rightarrow> bool" where
  "moves d d' \<longleftrightarrow> dec_buf d' = dec_buf d \<and> dec_pos d < dec_pos d' \<and> dec_pos d' \<le> length (dec_buf d)"

definition forward :: "bool \<Rightarrow> Decoder \<Rightarrow> 'a load \<Rightarrow> bool" where
  "forward strict d r \<longleftrightarrow> (\<forall>v d'. r = Inr (v, d') \<longrightarrow> moves d d' \<or> \<not> strict \<and> d' = d)"

named_theorems forward "loads that move forward"

lemma moves_trans [trans]: "moves d d' \<Longrightarrow> moves d' d'' \<Longrightarrow> moves d d''"
  by (simp add: moves_def)

lemma forwardD: "forward True d r \<Longrightarrow> r = Inr (v, d') \<Longrightarrow> moves d d'"
  by (simp add: forward_def)

lemma forward_Inl [simp]: "forward b d (Inl e)"
  by (simp add: forward_def)

lemma forward_Inr [simp]: "forward False d (Inr (v, d))"
  by (simp add: forward_def)

lemma forward_bind: "forward b d m \<Longrightarrow> (\<And>v d'. m = Inr (v, d') \<Longrightarrow> forward False d' (k v d')) \<Longrightarrow> forward b d (amf_bind m k)"
  unfolding forward_def amf_bind_Inr by (blast intro: moves_trans)

lemma forward_weak: "forward True d r \<Longrightarrow> forward False d r"
  by (simp add: forward_def)

lemma forward_from: "forward b d' r \<Longrightarrow> moves d d' \<Longrightarrow> forward True d r"
  unfolding forward_def by (blast intro: moves_trans)

lemma forward_map: "forward b d (amf_map f m) = forward b d m"
  by (fastforce simp: amf_map_def forward_def amf_bind_Inr)

lemma peek_Inr: "peek d = Inr (b, d') \<longleftrightarrow> dec_pos d < length (dec_buf d) \<and> b = dec_buf d ! dec_pos d \<and> d' = d"
  by (auto simp: peek_def)

lemma forward_get_byte [forward]: "forward True d (get_byte d)"
  by (auto simp: forward_def get_byte_def amf_bind_Inr peek_Inr moves_def split: if_splits)

lemma forward_be16 [forward]: "forward True d (take_be16 d)"
  by (auto simp: forward_def take_be16_def moves_def split: if_splits)

lemma forward_take_string [forward]: "forward False d (take_string n d)"
  by (cases "n = 0") (auto simp: forward_def take_string_def moves_def split: if_splits)

lemma forward_amf3 [forward]: "i < 4 \<Longrightarrow> forward True d (amf3_loop i v d)"
proof (induction i v d rule: amf3_loop.induct)
  case (1 i v d)
  have "forward False d' (amf3_loop (i + 1) (push_bit 7 v OR ucast (b AND 127)) d')"
    if "get_byte d = Inr (b, d')" "i \<noteq> 3" "b AND 128 \<noteq> 0" for b d'
    by (rule forward_weak, rule 1(1) [OF 1(2) that(1,2) refl that(3)]) (use 1(2) that(2) in simp)
  then show ?case
    by (subst amf3_loop.simps) (simp add: 1(2) Let_def forward_bind [OF forward_get_byte])
qed

lemma forward_loads [forward]:
  "forward True d (amf_load_key d)" "forward True d (amf_load_string d)" "forward True d (amf_load_number d)"
  "forward True d (amf_load_boolean d)" "forward True d (amf_load_integer d)"
proof -
  show "forward True d (amf_load_key d)" by (auto simp: amf_load_key_def intro!: forward_bind forward)
  show "forward True d (amf_load_string d)"
    by (auto simp: amf_load_string_def load_amf3_integer_def intro!: forward_bind forward forward_weak [OF forward_amf3]
        forward_weak [OF forward_be16])
  show num: "forward True d (amf_load_number d)" for d
    unfolding amf_load_number_def by (rule forward_bind [OF forward_get_byte]) (auto simp: forward_def moves_def split: if_splits)
  show "forward True d (amf_load_boolean d)"
    by (auto simp: amf_load_boolean_def intro!: forward_bind forward forward_weak [OF forward_get_byte])
  show "forward True d (amf_load_integer d)"
    by (auto simp: amf_load_integer_def load_amf3_integer_def intro!: forward_bind forward num split: option.split)
qed

lemma forward_skip_type: "peek d = Inr (b, d) \<Longrightarrow> forward True d (skip_type v d)"
  by (simp add: forward_def skip_type_def moves_def peek_Inr)

lemma amf_load_forward_partial:
  "amf_load_amf_load_object_amf_load_ecma_amf_load_pairs_dom (Inl (Inl d)) \<Longrightarrow> forward True d (amf_load d)"
  "amf_load_amf_load_object_amf_load_ecma_amf_load_pairs_dom (Inl (Inr d)) \<Longrightarrow> forward True d (amf_load_object d)"
  "amf_load_amf_load_object_amf_load_ecma_amf_load_pairs_dom (Inr (Inl d)) \<Longrightarrow> forward True d (amf_load_ecma d)"
  "amf_load_amf_load_object_amf_load_ecma_amf_load_pairs_dom (Inr (Inr (m, d))) \<Longrightarrow> forward True d (amf_load_pairs m d)"
proof (induction rule: amf_load_amf_load_object_amf_load_ecma_amf_load_pairs.pinduct)
  case (1 d)
  show ?case
  proof (cases "peek d")
    case (Inr r)
    then have "peek d = Inr (fst r, d)" by (auto simp: peek_def split: if_splits)
    then show ?thesis
      using 1 by (simp add: amf_load.psimps forward_map forward forward_skip_type)
  qed (simp add: amf_load.psimps 1(1))
next
  case (2 d)
  then show ?case
    by (auto simp: amf_load_object.psimps intro!: forward_bind forward forward_weak)
next
  case (3 d)
  have "forward False d' (amf_load_pairs [] (d'\<lparr>dec_pos := dec_pos d' + 4\<rparr>))"
    if "get_byte d = Inr (b, d')" "b = AMF0_ECMA_ARRAY" "\<not> length (dec_buf d') < dec_pos d' + 4" for b d'
  proof -
    have "forward True (d'\<lparr>dec_pos := dec_pos d' + 4\<rparr>) (amf_load_pairs [] (d'\<lparr>dec_pos := dec_pos d' + 4\<rparr>))"
      using 3(2) [OF that(1)] that(2,3) by blast
    moreover have "moves d' (d'\<lparr>dec_pos := dec_pos d' + 4\<rparr>)" using that(3) by (simp add: moves_def)
    ultimately show ?thesis by (blast intro: forward_weak forward_from)
  qed
  then show ?case
    unfolding amf_load_ecma.psimps [OF 3(1)] by (intro forward_bind [OF forward_get_byte]) simp
next
  case (4 m d)
  then have "forward False d1 (amf_bind (amf_load d1) (\<lambda>v d2. amf_load_pairs (sm_insert key v m) d2))"
    if "amf_load_key d = Inr (key, d1)" "key \<noteq> []" for key d1
    using that by (intro forward_bind forward_weak) simp_all
  moreover have "forward False d1 (amf_bind (get_byte d1) (\<lambda>b d2. if b \<noteq> AMF0_OBJECT_END then Inl ExpectedObjectEnd else Inr (m, d2)))"
    for d1
    by (rule forward_bind [OF forward_weak [OF forward_get_byte]]) simp
  ultimately show ?case
    unfolding amf_load_pairs.psimps [OF 4(1)] by (intro forward_bind [OF forward_loads(1)]) simp
qed

lemma amf_loads_total: "All amf_load_amf_load_object_amf_load_ecma_amf_load_pairs_dom"
proof (rule "amf_load_amf_load_object_amf_load_ecma_amf_load_pairs.termination"
    [where R = "measures [\<lambda>x. case x of Inl (Inl d) \<Rightarrow> length (dec_buf d) - dec_pos d
      | Inl (Inr d) \<Rightarrow> length (dec_buf d) - dec_pos d | Inr (Inl d) \<Rightarrow> length (dec_buf d) - dec_pos d
      | Inr (Inr (m, d)) \<Rightarrow> length (dec_buf d) - dec_pos d,
    \<lambda>x. case x of Inl (Inl d) \<Rightarrow> 1 | _ \<Rightarrow> 0]"], goal_cases)
  case 1
  show ?case by simp
qed (auto simp: peek_Inr moves_def dest!: forwardD [OF forward_get_byte] forwardD [OF forward_loads(1)]
    forwardD [OF amf_load_forward_partial(1)])

termination amf_load by (rule amf_loads_total)

declare amf_load.simps [simp del] amf_load_object.simps [simp del] amf_load_ecma.simps [simp del] amf_load_pairs.simps [simp del]

lemma amf_load_forward:
  "forward True d (amf_load d)" "forward True d (amf_load_object d)" "forward True d (amf_load_ecma d)"
  "forward True d (amf_load_pairs m d)"
  by (rule amf_load_forward_partial, rule amf_loads_total [rule_format])+

section \<open>More data never changes an answer\<close>

definition ext :: "bytes \<Rightarrow> Decoder \<Rightarrow> Decoder" where
  "ext x d = d\<lparr>dec_buf := dec_buf d @ x\<rparr>"

definition grow :: "bytes \<Rightarrow> 'a load \<Rightarrow> 'a load" where
  "grow x r = (case r of Inl e \<Rightarrow> Inl e | Inr (v, d) \<Rightarrow> Inr (v, ext x d))"

definition agrees :: "bytes \<Rightarrow> 'a load \<Rightarrow> 'a load \<Rightarrow> bool" where
  "agrees x r r' \<longleftrightarrow> r = Inl NotEnoughData \<or> r' = grow x r"

named_theorems agrees "loads that agree on a longer buffer"

lemma ext_simps [simp]:
  "dec_buf (ext x d) = dec_buf d @ x" "dec_pos (ext x d) = dec_pos d" "dec_version (ext x d) = dec_version d"
  by (simp_all add: ext_def)

lemma ext_update: "(ext x d)\<lparr>dec_pos := p\<rparr> = ext x (d\<lparr>dec_pos := p\<rparr>)" "(ext x d)\<lparr>dec_version := v\<rparr> = ext x (d\<lparr>dec_version := v\<rparr>)"
  by (simp_all add: ext_def)

lemma agrees_simps [simp]:
  "agrees x (Inl NotEnoughData) r" "agrees x (Inl e) (Inl e)" "agrees x (Inr (v, d)) (Inr (v, ext x d))"
  by (simp_all add: agrees_def grow_def)

lemma agrees_bind:
  "agrees x m m' \<Longrightarrow> (\<And>v d. m = Inr (v, d) \<Longrightarrow> agrees x (k v d) (k' v (ext x d))) \<Longrightarrow> agrees x (amf_bind m k) (amf_bind m' k')"
  by (cases m) (auto simp: agrees_def grow_def)

lemma agrees_map: "agrees x m m' \<Longrightarrow> agrees x (amf_map f m) (amf_map f m')"
  unfolding amf_map_def by (rule agrees_bind) simp_all

lemma agrees_peek [agrees]: "agrees x (peek d) (peek (ext x d))"
  by (simp add: peek_def nth_append)

lemma agrees_get_byte [agrees]: "agrees x (get_byte d) (get_byte (ext x d))"
  unfolding get_byte_def by (auto simp: ext_update nth_append intro!: agrees_bind agrees_peek)

lemma agrees_take [agrees]:
  "agrees x (take_string n d) (take_string n (ext x d))" "agrees x (take_be16 d) (take_be16 (ext x d))"
proof -
  have "ld16 (b @ x) p = ld16 b p" if "p + 2 \<le> length b" for b p
    using that by (intro ld16_cong) (simp_all add: nth_append)
  then show "agrees x (take_be16 d) (take_be16 (ext x d))" by (simp add: take_be16_def load_be16_def ext_update)
  show "agrees x (take_string n d) (take_string n (ext x d))" by (simp add: take_string_def ext_update)
qed

lemma agrees_amf3: "agrees x (amf3_loop i v d) (amf3_loop i v (ext x d))"
proof (induction i v d rule: amf3_loop.induct)
  case (1 i v d)
  then show ?case
    by (subst (1 2) amf3_loop.simps) (auto simp: Let_def intro!: agrees_bind agrees)
qed

lemma agrees_loads [agrees]:
  "agrees x (amf_load_key d) (amf_load_key (ext x d))" "agrees x (amf_load_string d) (amf_load_string (ext x d))"
  "agrees x (amf_load_number d) (amf_load_number (ext x d))" "agrees x (amf_load_boolean d) (amf_load_boolean (ext x d))"
  "agrees x (amf_load_integer d) (amf_load_integer (ext x d))"
proof -
  show "agrees x (amf_load_key d) (amf_load_key (ext x d))" by (simp add: amf_load_key_def agrees_bind agrees)
  show "agrees x (amf_load_string d) (amf_load_string (ext x d))"
    unfolding amf_load_string_def load_amf3_integer_def by (auto intro!: agrees_bind agrees agrees_amf3)
  have "ld32 (b @ x) p = ld32 b p" if "p + 4 \<le> length b" for b p
    using that by (intro ld32_cong) (simp_all add: nth_append)
  then show num: "agrees x (amf_load_number d) (amf_load_number (ext x d))"
    unfolding amf_load_number_def by (auto simp: load_be32_def ext_update intro!: agrees_bind agrees)
  show "agrees x (amf_load_boolean d) (amf_load_boolean (ext x d))"
    unfolding amf_load_boolean_def by (auto intro!: agrees_bind agrees)
  show "agrees x (amf_load_integer d) (amf_load_integer (ext x d))"
    unfolding amf_load_integer_def load_amf3_integer_def
    by (auto intro!: agrees_bind agrees_amf3 num split: option.split)
qed

lemma amf_load_agrees:
  "agrees x (amf_load d) (amf_load (ext x d))" "agrees x (amf_load_object d) (amf_load_object (ext x d))"
  "agrees x (amf_load_ecma d) (amf_load_ecma (ext x d))" "agrees x (amf_load_pairs m d) (amf_load_pairs m (ext x d))"
proof (induction d and d and d and m d rule: amf_load_amf_load_object_amf_load_ecma_amf_load_pairs.induct)
  case (1 d)
  have skip: "agrees x (skip_type v d) (skip_type v (ext x d))" for v by (simp add: skip_type_def ext_update)
  show ?case
    unfolding amf_load.simps [of d] amf_load.simps [of "ext x d"]
    by (rule agrees_bind [OF agrees_peek]) (simp add: 1 agrees skip agrees_map)
next
  case (2 d)
  then show ?case
    unfolding amf_load_object.simps [of d] amf_load_object.simps [of "ext x d"]
    by (intro agrees_bind [OF agrees_get_byte]) simp
next
  case (3 d)
  then show ?case
    unfolding amf_load_ecma.simps [of d] amf_load_ecma.simps [of "ext x d"]
    by (intro agrees_bind [OF agrees_get_byte]) (simp add: ext_update)
next
  case (4 m d)
  then show ?case
    unfolding amf_load_pairs.simps [of m d] amf_load_pairs.simps [of m "ext x d"]
    by (intro agrees_bind [OF agrees_loads(1)]) (auto intro!: agrees_bind agrees_get_byte)
qed

section \<open>Loading what was written\<close>

text \<open>The values that can be written and read back, and what they come back as.\<close>

fun amf0_ok :: "AMFValue \<Rightarrow> bool" and pairs_ok :: "amf_object_t \<Rightarrow> bool" where
  "amf0_ok (AMF_NUMBER n) = True"
| "amf0_ok (AMF_INTEGER i) = True"
| "amf0_ok (AMF_BOOLEAN b) = True"
| "amf0_ok (AMF_STRING s) = (length s < 2 ^ 16)"
| "amf0_ok (AMF_OBJECT m) = (sm_inv m \<and> pairs_ok m)"
| "amf0_ok AMF_NULL = True"
| "amf0_ok AMF_UNDEFINED = False"
| "amf0_ok (AMF_ECMA_ARRAY m) = False"
| "pairs_ok [] = True"
| "pairs_ok ((k, v) # m) = (k \<noteq> [] \<and> length k < 2 ^ 16 \<and> amf0_ok v \<and> pairs_ok m)"

fun loaded :: "AMFValue \<Rightarrow> AMFValue" and loaded_pairs :: "amf_object_t \<Rightarrow> amf_object_t" where
  "loaded (AMF_INTEGER i) = AMF_NUMBER (double_of_int i)"
| "loaded (AMF_OBJECT m) = AMF_OBJECT (loaded_pairs m)"
| "loaded v = v"
| "loaded_pairs [] = []"
| "loaded_pairs ((k, v) # m) = (k, loaded v) # loaded_pairs m"

definition at_pos :: "bytes \<Rightarrow> bytes \<Rightarrow> Decoder" where
  "at_pos pre rest = \<lparr> dec_buf = pre @ rest, dec_pos = length pre, dec_version = 0 \<rparr>"

definition reads :: "(Decoder \<Rightarrow> 'a load) \<Rightarrow> bytes \<Rightarrow> 'a \<Rightarrow> bool" where
  "reads f bs v \<longleftrightarrow> (\<forall>pre rest. f (at_pos pre (bs @ rest)) = Inr (v, at_pos (pre @ bs) rest))"

lemma reads_bind:
  assumes "reads f bs v" "reads (g v) cs w"
  shows "reads (\<lambda>d. amf_bind (f d) g) (bs @ cs) w"
  using assms by (simp add: reads_def)

lemma reads_if: "reads f bs v \<Longrightarrow> \<not> c \<Longrightarrow> reads (\<lambda>d. if c then g d else f d) bs v"
  by simp

lemma at_pos_simps [simp]:
  "dec_buf (at_pos pre rest) = pre @ rest" "dec_pos (at_pos pre rest) = length pre" "dec_version (at_pos pre rest) = 0"
  by (simp_all add: at_pos_def)

lemma at_pos_advance [simp]: "n = length bs \<Longrightarrow> (at_pos pre (bs @ rest))\<lparr>dec_pos := length pre + n\<rparr> = at_pos (pre @ bs) rest"
  by (simp add: at_pos_def)

lemma peek_at [simp]: "peek (at_pos pre (b # rest)) = Inr (b, at_pos pre (b # rest))"
  by (simp add: peek_def)

lemma reads_byte: "b \<noteq> AMF0_SWITCH_AMF3 \<Longrightarrow> reads get_byte [b] b"
  using at_pos_advance [of 1 "[b]"] by (simp add: reads_def get_byte_def)

lemma reads_be16: "n < 2 ^ 16 \<Longrightarrow> reads take_be16 (le16 (htons (of_nat n))) n"
  using at_pos_advance [of 2 "le16 (htons (of_nat n))"] ld16_append [of _ _ 0]
  by (simp add: reads_def take_be16_def load_be16_def mem_simps unat_of_nat)

lemma reads_string: "reads (take_string (length s)) s s"
  by (simp add: reads_def take_string_def)

lemma reads_key: "length s < 2 ^ 16 \<Longrightarrow> reads amf_load_key (le16 (htons (of_nat (length s))) @ s) s"
  unfolding amf_load_key_def [abs_def] by (rule reads_bind [where g = take_string, OF reads_be16 reads_string])

lemma ld32_append: "ld32 (xs @ ys) (length xs + i) = ld32 ys i"
  by (simp add: ld32_def nth_append)

lemma join_halves: "push_bit 32 (ucast (ucast (drop_bit 32 n) :: u32)) OR ucast (ucast n :: u32) = (n :: u64)"
  by (rule bit_word_eqI) (auto simp: bit_simps not_less)

lemma reads_load_string: "length s < 2 ^ 16 \<Longrightarrow> reads amf_load_string (amf_write_string s []) s"
  using reads_byte [of AMF0_STRING] reads_key [of s]
  by (simp add: reads_def amf_load_string_def amf_load_key_def amf_write_string_def)

lemma reads_load_number: "reads amf_load_number (amf_write_double n []) n"
proof -
  let ?h = "le32 (htonl (ucast (drop_bit 32 n)))" and ?l = "le32 (htonl (ucast n))"
  have ld: "load_be32 (pre @ ?h @ ?l @ rest) (length pre) = ucast (drop_bit 32 n)"
      "load_be32 (pre @ ?h @ ?l @ rest) (length pre + 4) = ucast n" for pre rest
    using ld32_append [of pre "?h @ ?l @ rest" 0] ld32_append [of "pre @ ?h" "?l @ rest" 0]
    by (simp_all add: load_be32_def mem_simps)
  show ?thesis
    using reads_byte [of AMF0_NUMBER] at_pos_advance [of 8 "?h @ ?l" "pre @ [AMF0_NUMBER]" for pre] join_halves [of n]
      ld(1) [of "pre @ [AMF0_NUMBER]" for pre] ld(2) [of "pre @ [AMF0_NUMBER]" for pre]
    by (simp add: reads_def amf_load_number_def amf_write_double_def)
qed

lemma reads_load_boolean: "reads amf_load_boolean (amf_write_bool b []) b"
  using reads_byte [of AMF0_BOOLEAN] reads_byte [of "of_bool b"]
  by (simp add: reads_def amf_load_boolean_def amf_write_bool_def)

lemma sm_insert_last: "fst ` set m \<subseteq> {..<k} \<Longrightarrow> sm_insert k v m = m @ [(k, v)]"
  by (induction m) auto

lemma reads_load_type:
  assumes "reads f (b # bs) x" "b \<noteq> AMF0_SWITCH_AMF3"
    "\<And>d. peek d = Inr (b, d) \<Longrightarrow> dec_version d = 0 \<Longrightarrow> amf_load d = amf_map c (f d)"
  shows "reads amf_load (b # bs) (c x)"
  using assms by (simp add: reads_def amf_map_def)

lemma reads_object:
  assumes "reads (amf_load_pairs []) bs m"
  shows "reads amf_load_object (AMF0_OBJECT # bs) m" "reads amf_load_ecma (AMF0_ECMA_ARRAY # 0 # 0 # 0 # 0 # bs) m"
proof -
  show "reads amf_load_object (AMF0_OBJECT # bs) m"
    using assms reads_byte [of AMF0_OBJECT] by (simp add: reads_def amf_load_object.simps)
  show "reads amf_load_ecma (AMF0_ECMA_ARRAY # 0 # 0 # 0 # 0 # bs) m"
  proof -
    have skip: "(at_pos (pre @ [8]) (0 # 0 # 0 # 0 # r))\<lparr>dec_pos := 5 + length pre\<rparr> = at_pos (pre @ [8, 0, 0, 0, 0]) r" for pre r
      by (simp add: at_pos_def)
    show ?thesis using assms reads_byte [of AMF0_ECMA_ARRAY] by (simp add: reads_def amf_load_ecma.simps skip)
  qed
qed

lemma amf_load_types:
  assumes "peek d = Inr (b, d)" "dec_version d = 0"
  shows "b = AMF0_NUMBER \<Longrightarrow> amf_load d = amf_map AMF_NUMBER (amf_load_number d)"
    and "b = AMF0_BOOLEAN \<Longrightarrow> amf_load d = amf_map AMF_BOOLEAN (amf_load_boolean d)"
    and "b = AMF0_STRING \<Longrightarrow> amf_load d = amf_map AMF_STRING (amf_load_string d)"
    and "b = AMF0_OBJECT \<Longrightarrow> amf_load d = amf_map AMF_OBJECT (amf_load_object d)"
    and "b = AMF0_NULL \<Longrightarrow> amf_load d = skip_type AMF_NULL d"
  using assms by (simp_all add: amf_load.simps)

lemma amf_write_reads:
  "amf0_ok v \<Longrightarrow> \<exists>bs. (\<forall>enc. amf_write v enc = Inr (enc @ bs)) \<and> reads amf_load bs (loaded v)"
  "pairs_ok m \<Longrightarrow> \<exists>bs. (\<forall>enc. amf_write_pairs m enc = Inr (enc @ bs)) \<and>
    (\<forall>m0. sm_inv (m0 @ m) \<longrightarrow> reads (amf_load_pairs m0) bs (m0 @ loaded_pairs m))"
proof (induction v and m rule: amf0_ok_pairs_ok.induct)
  case (1 n)
  show ?case
    using reads_load_type [OF reads_load_number [of n, unfolded amf_write_double_def, simplified], of AMF_NUMBER]
    by (simp add: amf_write_double_def amf_load_types)
next
  case (2 i)
  show ?case
    using reads_load_type [OF reads_load_number [of "double_of_int i", unfolded amf_write_double_def, simplified], of AMF_NUMBER]
    by (simp add: amf_write_double_def amf_load_types)
next
  case (3 b)
  show ?case
    using reads_load_type [OF reads_load_boolean [of b, unfolded amf_write_bool_def, simplified], of AMF_BOOLEAN]
    by (simp add: amf_write_bool_def amf_load_types)
next
  case (4 s)
  then show ?case
    using reads_load_type [OF reads_load_string [of s, unfolded amf_write_string_def, simplified], of AMF_STRING]
    by (simp add: amf_write_string_def amf_load_types)
next
  case (5 m)
  then obtain bs where bs: "\<forall>enc. amf_write_pairs m enc = Inr (enc @ bs)" "reads (amf_load_pairs []) bs (loaded_pairs m)"
    by (metis amf0_ok.simps(5) append_Nil)
  show ?case
    using reads_load_type [OF reads_object(1) [OF bs(2)], of AMF_OBJECT] bs(1)
    by (intro exI [of _ "AMF0_OBJECT # bs"]) (simp add: amf_load_types)
next
  case 6
  have "reads amf_load [AMF0_NULL] AMF_NULL"
    using at_pos_advance [of 1 "[AMF0_NULL]"] by (simp add: reads_def amf_load_types skip_type_def)
  then show ?case by (auto simp: amf_write_null_def)
next
  case 9
  have "reads (amf_load_pairs m0) (le16 (htons 0) @ [AMF0_OBJECT_END]) m0" for m0
    using reads_key [of "[]"] reads_byte [of AMF0_OBJECT_END] by (simp add: reads_def amf_load_pairs.simps)
  then show ?case by (auto simp: amf_write_key_def)
next
  case (10 k v m)
  obtain bs where bs: "\<forall>enc. amf_write v enc = Inr (enc @ bs)" "reads amf_load bs (loaded v)"
    using 10(1,3) by auto
  obtain cs where cs: "\<forall>enc. amf_write_pairs m enc = Inr (enc @ cs)"
      "\<forall>m0. sm_inv (m0 @ m) \<longrightarrow> reads (amf_load_pairs m0) cs (m0 @ loaded_pairs m)"
    using 10(2,3) by auto
  let ?k = "le16 (htons (of_nat (length k))) @ k"
  have "reads (amf_load_pairs m0) (?k @ bs @ cs) (m0 @ loaded_pairs ((k, v) # m))" if m: "sm_inv (m0 @ (k, v) # m)" for m0
  proof -
    have "sm_insert k (loaded v) m0 = m0 @ [(k, loaded v)]"
      using m by (intro sm_insert_last) (auto simp: sm_inv_def sorted_wrt_append)
    moreover have "sm_inv ((m0 @ [(k, loaded v)]) @ m)" using m by (simp add: sm_inv_def)
    ultimately show ?thesis
      using cs(2) [rule_format, of "m0 @ [(k, loaded v)]"] bs(2) reads_key [of k] 10(3)
      by (simp add: reads_def amf_load_pairs.simps [of m0])
  qed
  then show ?case using bs(1) cs(1) by (intro exI [of _ "?k @ bs @ cs"]) (simp add: amf_write_key_def)
qed simp_all

text \<open>
  C39. Round trip: what \<open>amf_write\<close> appends for a value is read back by \<open>amf_load\<close> as this value, wherever it stands
  in a buffer and whatever comes behind it, and the decoder ends exactly behind it.  This holds for every value built
  of numbers, integers, booleans, null, strings of less than \<open>2 ^ 16\<close> bytes and objects with non-empty keys of less
  than \<open>2 ^ 16\<close> bytes; integers, which AMF0 does not have, come back as the numbers they are equal to.  The same holds
  for the ECMA arrays of \<open>amf_write_ecma\<close> and \<open>amf_load_ecma\<close>.
\<close>

theorem amf_roundtrip:
  assumes "amf0_ok v" "pairs_ok m" "sm_inv m"
  shows "\<exists>bs cs. amf_write v enc = Inr (enc @ bs) \<and> amf_write_ecma m enc = Inr (enc @ cs) \<and>
    amf_load (at_pos pre (bs @ rest)) = Inr (loaded v, at_pos (pre @ bs) rest) \<and>
    amf_load_ecma (at_pos pre (cs @ rest)) = Inr (loaded_pairs m, at_pos (pre @ cs) rest)"
proof -
  obtain bs where bs: "\<forall>enc. amf_write v enc = Inr (enc @ bs)" "reads amf_load bs (loaded v)"
    using amf_write_reads(1) [OF assms(1)] by blast
  obtain cs where cs: "\<forall>enc. amf_write_pairs m enc = Inr (enc @ cs)" "reads (amf_load_pairs []) cs (loaded_pairs m)"
    using amf_write_reads(2) [OF assms(2)] assms(3) by (metis append_Nil)
  show ?thesis
    using bs cs(1) reads_object(2) [OF cs(2)]
    by (intro exI [of _ bs] exI [of _ "AMF0_ECMA_ARRAY # 0 # 0 # 0 # 0 # cs"]) (simp add: reads_def amf_write_ecma_def)
qed

definition amf_a :: AMFValue where
  "amf_a = AMF_OBJECT [([97], AMF_NUMBER 5), ([98, 99], AMF_OBJECT [([97], AMF_STRING [7, 8])]), ([99], AMF_NULL)]"

theorem amf_roundtrip_witness:
  "\<exists>bs. amf_write amf_a [] = Inr bs \<and> amf_load (at_pos [1] (bs @ [2])) = Inr (amf_a, at_pos (1 # bs) [2])"
proof -
  have "amf0_ok amf_a" "loaded amf_a = amf_a" by (simp_all add: amf_a_def)
  then show ?thesis using amf_roundtrip [of amf_a "[]" "[]" "[1]" "[2]"] by force
qed

text \<open>
  C40. A command that has not arrived completely is refused as such: if \<open>amf_load\<close> is given only a proper beginning of
  what \<open>amf_write\<close> wrote, it throws "Not enough data", and nothing else.
\<close>

theorem amf_truncated:
  assumes "amf0_ok v" "amf_write v [] = Inr bs" "n < length bs"
  shows "amf_load (at_pos pre (take n bs)) = Inl NotEnoughData"
proof -
  have "reads amf_load bs (loaded v)" using amf_write_reads(1) [OF assms(1)] assms(2) by auto
  then have full: "amf_load (at_pos pre bs) = Inr (loaded v, at_pos (pre @ bs) [])"
    unfolding reads_def by (metis append_Nil2)
  have "ext (drop n bs) (at_pos pre (take n bs)) = at_pos pre bs" by (simp add: ext_def at_pos_def)
  then have ag: "agrees (drop n bs) (amf_load (at_pos pre (take n bs))) (amf_load (at_pos pre bs))"
    using amf_load_agrees(1) by metis
  show ?thesis
  proof (rule ccontr)
    assume "\<not> ?thesis"
    then obtain v' d where d: "amf_load (at_pos pre (take n bs)) = Inr (v', d)" "ext (drop n bs) d = at_pos (pre @ bs) []"
      using ag full by (auto simp: agrees_def grow_def split: sum.splits)
    then have "moves (at_pos pre (take n bs)) d" "dec_pos d = length pre + length bs"
      using forwardD [OF amf_load_forward(1)] by (blast, metis ext_simps(2) at_pos_simps(2) length_append)
    then show False using assms(3) by (simp add: moves_def)
  qed
qed

theorem amf_truncated_witness:
  "amf_load (at_pos [] [3, 0, 1, 97, 0, 0, 0, 0]) = Inl NotEnoughData"
proof -
  have "amf_write (AMF_OBJECT [([97], AMF_NUMBER 5)]) [] = Inr [3, 0, 1, 97, 0, 0, 0, 0, 0, 0, 0, 0, 5, 0, 0, 9]"
    by code_simp
  from amf_truncated [OF _ this, of 8 "[]"] show ?thesis by simp
qed

text \<open>The bits an \<open>int\<close> is written as are those of a \<open>double\<close> that converts back to it.\<close>

lemma log2_bounds: "0 < n \<Longrightarrow> 2 ^ log2 n \<le> n \<and> n < 2 ^ Suc (log2 n)"
proof (induction n rule: log2.induct)
  case (1 n)
  show ?case
  proof (cases "n < 2")
    case False
    then have "2 ^ log2 (n div 2) \<le> n div 2" "n div 2 < 2 ^ Suc (log2 (n div 2))" using 1 by simp_all
    then show ?thesis using False by (subst (1 2) log2.simps) auto
  qed (use 1(2) in \<open>auto simp: log2.simps [of n]\<close>)
qed

lemma int_of_double_of_int: "int_of_double (double_of_int i) = Some i"
proof (cases "sint i = 0")
  case True
  have "(of_int (sint i) :: u32) = i" by simp
  then have "i = 0" unfolding True by simp
  then show ?thesis by (simp add: double_of_int_def int_of_double_def)
next
  case nz: False
  define n where "n = nat \<bar>sint i\<bar>"
  define e where "e = log2 n"
  define S :: nat where "S = (if sint i < 0 then 1 else 0)"
  define r where "r = (n - 2 ^ e) * 2 ^ (52 - e)"
  have n: "0 < n" "n \<le> 2 ^ 31" "sint i < 0 \<or> n < 2 ^ 31"
    using nz sint_ge [of i] sint_lt [of i] by (auto simp: n_def)
  have e: "2 ^ e \<le> n" "n < 2 ^ Suc e" using log2_bounds [OF n(1)] by (simp_all add: e_def)
  have "(2 :: nat) ^ e \<le> 2 ^ 31" by (rule order_trans [OF e(1) n(2)])
  then have e31: "e \<le> 31" by (rule power_le_imp_le_exp [rotated]) simp
  have p: "(2 :: nat) ^ e * 2 ^ (52 - e) = 2 ^ 52" using e31 by (simp flip: power_add)
  have "r < 2 ^ e * 2 ^ (52 - e)" unfolding r_def using e by (intro mult_strict_right_mono) auto
  then have r: "r < 2 ^ 52" using p by simp
  have m: "2 ^ 52 + r = n * 2 ^ (52 - e)"
    using mult_le_mono1 [OF e(1), of "2 ^ (52 - e)"] p by (simp add: r_def diff_mult_distrib)
  define w where "w = S * 2 ^ 63 + (1023 + e) * 2 ^ 52 + r"
  have "double_of_int i = of_nat w"
    using n(1) by (simp add: double_of_int_def Let_def S_def r_def w_def n_def [symmetric] e_def [symmetric])
  moreover have "w < 2 ^ 64" using r e31 by (simp add: S_def w_def)
  ultimately have w: "unat (double_of_int i) = w" by (simp add: unat_of_nat)
  have q: "w = (S * 2048 + 1023 + e) * 2 ^ 52 + r" by (simp add: w_def)
  have "(a * b + c) div b = a" "(a * b + c) mod b = c" if "c < b" for a b c :: nat using that by simp_all
  then have dm: "w div 2 ^ 52 = S * 2048 + 1023 + e" "w mod 2 ^ 52 = r" unfolding q using r by blast+
  have E: "unat (double_of_int i) div 2 ^ 52 mod 2048 = 1023 + e"
    unfolding w dm using e31 mod_mult_self3 [of S 2048 "1023 + e"] by (simp add: add.assoc)
  have N: "2 ^ 63 \<le> unat (double_of_int i) \<longleftrightarrow> sint i < 0" unfolding w using r e31 by (simp add: S_def w_def)
  have "n * 2 ^ (52 - e) div 2 ^ (1075 - (1023 + e)) = n" using e31 by simp
  then have T: "(2 ^ 52 + unat (double_of_int i) mod 2 ^ 52) div 2 ^ (1075 - (1023 + e)) = n"
    unfolding w dm m .
  have "int_of_double (double_of_int i) = Some (if sint i < 0 then - of_nat n else of_nat n)"
    unfolding int_of_double_def Let_def E N T using e31 n(2,3) by auto
  moreover have "(if sint i < 0 then - of_nat n else of_nat n) = i"
  proof -
    have "(if sint i < 0 then - of_nat n else of_nat n) = (of_int (sint i) :: u32)"
      by (simp add: n_def of_nat_nat)
    then show ?thesis by simp
  qed
  ultimately show ?thesis by simp
qed

text \<open>
  After the switch to AMF3 only strings, booleans, null and undefined can be loaded: an integer is read from its type
  byte and is always 4, and numbers, objects and arrays are compared with the AMF0 type bytes and refused.
\<close>

lemma amf3_types:
  assumes "peek d = Inr (b, d)" "dec_version d = 3"
  shows "b = AMF3_INTEGER \<Longrightarrow> amf_load d = Inr (AMF_INTEGER 4, d\<lparr>dec_pos := dec_pos d + 1\<rparr>)"
    and "b = AMF3_NUMBER \<Longrightarrow> amf_load d = Inl ExpectedString"
    and "b = AMF3_OBJECT \<Longrightarrow> amf_load d = Inl ExpectedObject"
    and "b = AMF3_ARRAY \<Longrightarrow> amf_load d = Inl ExpectedEcma"
proof -
  have b: "get_byte d = Inr (b, d\<lparr>dec_pos := dec_pos d + 1\<rparr>)"
    using assms by (auto simp: get_byte_def peek_Inr)
  show "amf_load d = Inr (AMF_INTEGER 4, d\<lparr>dec_pos := dec_pos d + 1\<rparr>)" if "b = AMF3_INTEGER"
    using assms that b by (simp add: amf_load.simps amf_map_def amf_load_integer_def load_amf3_integer_def amf3_loop.simps)
  show "amf_load d = Inl ExpectedString" if "b = AMF3_NUMBER"
    using assms that b by (simp add: amf_load.simps amf_map_def amf_load_number_def)
  show "amf_load d = Inl ExpectedObject" if "b = AMF3_OBJECT"
    using assms that b by (simp add: amf_load.simps amf_map_def amf_load_object.simps)
  show "amf_load d = Inl ExpectedEcma" if "b = AMF3_ARRAY"
    using assms that b by (simp add: amf_load.simps amf_map_def amf_load_ecma.simps)
qed

end
