(* ===== verification/CStr.thy ===== *)
theory CStr
  imports SvsPrelude
begin

text \<open>
  What the text protocols use of the C and C++ string library.  A \<open>std::string\<close> is a list of characters; a C string
  is the part of it before the first NUL.  Searches return a position or nothing (\<open>npos\<close>).  The conversions between
  numbers and text are those of glibc on a 64-bit machine: \<open>atoi\<close> is \<open>strtol\<close> cut to 32 bits, \<open>strtol\<close> and \<open>strtoull\<close>
  saturate, base 0 takes octal and hexadecimal prefixes, and a minus sign negates an unsigned result.  The lemmas say
  when reading what was printed gives it back; \<open>text_simps\<close> collects them.
\<close>

named_theorems text_simps "searching and converting printed text"

abbreviation (input) NUL :: char where "NUL \<equiv> CHR 0x00"
abbreviation (input) CR :: char where "CR \<equiv> CHR 0x0D"
abbreviation (input) LF :: char where "LF \<equiv> CHR 0x0A"

section \<open>Searching\<close>

definition c_str :: "string \<Rightarrow> string" where
  "c_str s = takeWhile (\<lambda>c. c \<noteq> NUL) s"

definition starts_with :: "string \<Rightarrow> string \<Rightarrow> bool" where
  "starts_with p s \<longleftrightarrow> take (length p) s = p"

fun str_find :: "string \<Rightarrow> string \<Rightarrow> nat option" where
  "str_find p [] = (if p = [] then Some 0 else None)"
| "str_find p (c # s) = (if starts_with p (c # s) then Some 0 else map_option Suc (str_find p s))"

definition trimString :: "string \<Rightarrow> string" where
  "trimString s = dropWhile (\<lambda>c. c = CHR '' '') (rev (dropWhile (\<lambda>c. c = CHR '' '') (rev s)))"

text \<open>\<open>strncmp (a, b, n) == 0\<close> and \<open>strncasecmp (a, b, n) == 0\<close>.\<close>

definition strncmp_eq :: "string \<Rightarrow> string \<Rightarrow> nat \<Rightarrow> bool" where
  "strncmp_eq a b n \<longleftrightarrow> take n (c_str a) = take n (c_str b)"

definition c_tolower :: "char \<Rightarrow> char" where
  "c_tolower c = (if (65 :: nat) \<le> of_char c \<and> of_char c \<le> (90 :: nat) then char_of (of_char c + (32 :: nat)) else c)"

definition strncasecmp_eq :: "string \<Rightarrow> string \<Rightarrow> nat \<Rightarrow> bool" where
  "strncasecmp_eq a b n \<longleftrightarrow> map c_tolower (take n (c_str a)) = map c_tolower (take n (c_str b))"

lemma char_of_eq: "char_of n = c \<longleftrightarrow> n mod 256 = of_char c" "c = char_of n \<longleftrightarrow> n mod 256 = of_char c" for n :: nat
  by (metis char_of_char of_char_of)+

lemma starts_with_append [text_simps]: "starts_with p (p @ s)"
  by (simp add: starts_with_def)

lemma str_find_append: "str_find p (p @ s) = Some 0"
proof (cases "p @ s")
  case (Cons c t)
  then have "starts_with p (c # t)" using starts_with_append by metis
  then show ?thesis using Cons by simp
qed simp

text \<open>A pattern is found where it was put if its first character does not occur before.\<close>

lemma str_find_at [text_simps]:
  "c \<notin> set a \<Longrightarrow> str_find (c # p) (a @ c # p @ s) = Some (length a)"
proof (induction a)
  case Nil
  show ?case using str_find_append [of "c # p" s] by simp
qed (auto simp: starts_with_def)

lemma str_find_absent [text_simps]: "c \<notin> set s \<Longrightarrow> str_find (c # p) s = None"
  by (induction s) (auto simp: starts_with_def)

text \<open>The search gives the first position where the pattern stands, and nothing when there is none.\<close>

lemma str_find_None: "p \<noteq> [] \<Longrightarrow> str_find p s = None \<longleftrightarrow> (\<forall>k < length s. \<not> starts_with p (drop k s))"
proof (induction s)
  case (Cons c s)
  then show ?case
    using All_less_Suc2 [of "length s" "\<lambda>k. \<not> starts_with p (drop k (c # s))"] by auto
qed simp

lemma str_find_first:
  assumes "starts_with p (drop n s)" and "n \<le> length s" and "\<forall>k < n. \<not> starts_with p (drop k s)"
  shows "str_find p s = Some n"
  using assms
proof (induction s arbitrary: n)
  case Nil
  then show ?case by (simp add: starts_with_def)
next
  case (Cons c s)
  show ?case
  proof (cases n)
    case 0
    then show ?thesis using Cons.prems(1) by simp
  next
    case (Suc m)
    have "\<forall>k < m. \<not> starts_with p (drop k s)"
      using Cons.prems(3) Suc by auto
    moreover have "\<not> starts_with p (c # s)"
      using Cons.prems(3) Suc by fastforce
    ultimately show ?thesis
      using Cons.IH [of m] Cons.prems(1,2) Suc by simp
  qed
qed

lemma str_find_before: "str_find p s = Some n \<Longrightarrow> k < n \<Longrightarrow> \<not> starts_with p (drop k s)"
proof (induction s arbitrary: n k)
  case (Cons c s)
  then show ?case
    by (cases k) (auto split: if_splits)
qed (simp split: if_splits)

lemma str_find_bound: "str_find p s = Some n \<Longrightarrow> n + length p \<le> length s"
proof (induction s arbitrary: n)
  case (Cons c s)
  then show ?case by (auto simp: starts_with_def split: if_splits) (metis length_take min.cobounded1 length_Cons)
qed (auto split: if_splits)

lemma c_str_id [text_simps]: "NUL \<notin> set s \<Longrightarrow> c_str s = s"
  by (auto simp: c_str_def takeWhile_eq_all_conv)

lemma c_str_append [text_simps]: "NUL \<notin> set a \<Longrightarrow> c_str (a @ b) = a @ c_str b"
  by (auto simp: c_str_def takeWhile_append)

lemma dropWhile_hd: "s = [] \<or> \<not> P (hd s) \<Longrightarrow> dropWhile P s = s"
  by (cases s) auto

lemma trimString_id [text_simps]:
  "s = [] \<or> hd s \<noteq> CHR '' '' \<and> last s \<noteq> CHR '' '' \<Longrightarrow> trimString s = s"
  by (cases "s = []") (simp_all add: trimString_def dropWhile_hd hd_rev)

lemma trimString_space [text_simps]: "trimString (s @ '' '') = trimString s"
  by (simp add: trimString_def)

section \<open>Numbers\<close>

fun dec :: "nat \<Rightarrow> string" where
  "dec n = (if n < 10 then [char_of (n + 48)] else dec (n div 10) @ [char_of (n mod 10 + 48)])"

declare dec.simps [simp del]

definition digit_val :: "char \<Rightarrow> nat option" where
  "digit_val c =
     (let n = of_char c
      in if 48 \<le> n \<and> n \<le> 57 then Some (n - 48)
         else if 97 \<le> n \<and> n \<le> 102 then Some (n - 87)
         else if 65 \<le> n \<and> n \<le> 70 then Some (n - 55)
         else None)"

definition is_digit :: "nat \<Rightarrow> char \<Rightarrow> bool" where
  "is_digit base c \<longleftrightarrow> (case digit_val c of None \<Rightarrow> False | Some d \<Rightarrow> d < base)"

text \<open>The value of the leading digits and what is behind them.\<close>

fun number :: "nat \<Rightarrow> nat \<Rightarrow> string \<Rightarrow> nat \<times> string" where
  "number base acc [] = (acc, [])"
| "number base acc (c # s) =
     (if is_digit base c then number base (acc * base + the (digit_val c)) s else (acc, c # s))"

definition c_isspace :: "char \<Rightarrow> bool" where
  "c_isspace c \<longleftrightarrow> c = CHR '' '' \<or> (9 :: nat) \<le> of_char c \<and> of_char c \<le> (13 :: nat)"

definition take_sign :: "string \<Rightarrow> bool \<times> string" where
  "take_sign s = (case s of [] \<Rightarrow> (False, [])
     | c # t \<Rightarrow> if c = CHR ''-'' then (True, t) else if c = CHR ''+'' then (False, t) else (False, s))"

definition atoi :: "string \<Rightarrow> u32" where
  "atoi s =
     (case take_sign (dropWhile c_isspace (c_str s)) of (neg, t) \<Rightarrow>
        let n = int (fst (number 10 0 t))
        in of_int (if neg then max (- n) (- (2 ^ 63)) else min n (2 ^ 63 - 1)))"

text \<open>The digits of a number with base 0: a prefix decides the base.\<close>

definition number0 :: "string \<Rightarrow> nat \<times> string" where
  "number0 s =
     (case s of c # d # e # t \<Rightarrow>
          if c = CHR ''0'' \<and> (d = CHR ''x'' \<or> d = CHR ''X'') \<and> is_digit 16 e then number 16 0 (e # t)
          else if c = CHR ''0'' then number 8 0 s else number 10 0 s
      | c # _ \<Rightarrow> if c = CHR ''0'' then number 8 0 s else number 10 0 s
      | [] \<Rightarrow> (0, []))"

definition strtoull0 :: "string \<Rightarrow> u64" where
  "strtoull0 s =
     (case take_sign (dropWhile c_isspace (c_str s)) of (neg, t) \<Rightarrow>
        let n = fst (number0 t)
        in if 2 ^ 64 \<le> n then - 1 else if neg then - of_nat n else of_nat n)"

lemma of_char_digit [simp]: "d < 10 \<Longrightarrow> of_char (char_of (d + 48 :: nat)) = (d + 48 :: nat)"
  by (simp add: of_char_of)

lemma digit_val_digit: "d < 10 \<Longrightarrow> digit_val (char_of (d + 48)) = Some d"
  by (simp add: digit_val_def Let_def)

lemma dec_digits: "c \<in> set (dec n) \<Longrightarrow> \<exists>d < 10. c = char_of (d + 48 :: nat)"
proof (induction n rule: dec.induct)
  case (1 n)
  show ?case
  proof (cases "n < 10")
    case True
    then show ?thesis using 1(2) by (auto simp only: dec.simps [of n] list.set if_True)
  next
    case False
    then have "c \<in> set (dec (n div 10)) \<or> c = char_of (n mod 10 + 48)" using 1(2) by (auto simp: dec.simps [of n])
    moreover have "n mod 10 < 10" by simp
    ultimately show ?thesis using 1(1) False by blast
  qed
qed

lemma dec_ne [simp]: "dec n \<noteq> []"
  by (subst dec.simps) simp

lemma number_append: "number 10 acc (a @ b) = (case number 10 acc a of (v, []) \<Rightarrow> number 10 v b | (v, r) \<Rightarrow> (v, r @ b))"
  by (induction "10 :: nat" acc a rule: number.induct) (auto split: prod.splits list.splits)

lemma number_dec: "number 10 0 (dec n) = (n, [])"
proof (induction n rule: dec.induct)
  case (1 n)
  show ?case
    using 1 by (subst dec.simps) (auto simp: is_digit_def digit_val_digit number_append)
qed

text \<open>A printed number has nothing but digits, so neither spaces nor separators.\<close>

lemma dec_char: "c \<in> set (dec n) \<Longrightarrow> (48 :: nat) \<le> of_char c \<and> of_char c \<le> (57 :: nat)"
  by (auto dest!: dec_digits)

lemma dec_hd_last: "hd (dec n) \<in> set (dec n)" "last (dec n) \<in> set (dec n)"
  by simp_all

lemma dec_not_special [text_simps]:
  "of_char c < (48 :: nat) \<or> 57 < (of_char c :: nat) \<Longrightarrow> c \<notin> set (dec n)"
  using dec_char [of c n] by auto

lemma dec_hd: "(48 :: nat) \<le> of_char (hd (dec n)) \<and> of_char (hd (dec n)) \<le> (57 :: nat)"
  "(48 :: nat) \<le> of_char (last (dec n)) \<and> of_char (last (dec n)) \<le> (57 :: nat)"
  using dec_char [OF dec_hd_last(1)] dec_char [OF dec_hd_last(2)] by blast+

lemma dec_skip: "dropWhile c_isspace (dec n @ s) = dec n @ s" "take_sign (dec n @ s) = (False, dec n @ s)"
proof -
  obtain c t where c: "dec n = c # t" "(48 :: nat) \<le> of_char c" "of_char c \<le> (57 :: nat)"
    using dec_hd(1) [of n] by (cases "dec n") auto
  then have "\<not> c_isspace c" "c \<noteq> CHR ''-''" "c \<noteq> CHR ''+''" by (auto simp: c_isspace_def)
  then show "dropWhile c_isspace (dec n @ s) = dec n @ s" "take_sign (dec n @ s) = (False, dec n @ s)"
    by (simp_all add: c(1) take_sign_def)
qed

lemma number_dec_append: "s = [] \<or> \<not> is_digit 10 (hd s) \<Longrightarrow> number 10 0 (dec n @ s) = (n, s)"
  by (cases s) (auto simp: number_append number_dec)

lemma atoi_dec [text_simps]:
  assumes "n < 2 ^ 32" "s = [] \<or> \<not> is_digit 10 (hd s)"
  shows "atoi (dec n @ s) = of_nat n"
proof -
  have "c_str (dec n @ s) = dec n @ c_str s" by (rule c_str_append) (simp add: dec_not_special)
  moreover have "c_str s = [] \<or> \<not> is_digit 10 (hd (c_str s))"
    using assms(2) by (cases s) (auto simp: c_str_def)
  ultimately have "number 10 0 (dec n @ c_str s) = (n, c_str s)" by (rule_tac number_dec_append)
  then show ?thesis
    using assms(1) \<open>c_str (dec n @ s) = _\<close> by (simp add: atoi_def dec_skip)
qed

lemma dec_zero: "hd (dec n) = CHR ''0'' \<Longrightarrow> n = 0"
proof (induction n rule: dec.induct)
  case (1 n)
  show ?case
  proof (cases "n < 10")
    case True
    then have "char_of (n + 48) = CHR ''0''" using 1(2) by (simp add: dec.simps [of n])
    then have "of_char (char_of (n + 48)) = (of_char CHR ''0'' :: nat)" by simp
    then show ?thesis using True by simp
  next
    case False
    then have "n div 10 = 0" using 1 by (simp add: dec.simps [of n])
    then show ?thesis using False by simp
  qed
qed

lemma number0_dec: "number0 (dec n) = (n, [])"
proof (cases "hd (dec n) = CHR ''0''")
  case True
  then have "n = 0" by (rule dec_zero)
  then show ?thesis by (simp add: dec.simps number0_def is_digit_def digit_val_def)
next
  case False
  then have "number0 (dec n) = number 10 0 (dec n)"
    by (cases "dec n") (auto simp: number0_def split: list.split)
  then show ?thesis by (simp add: number_dec)
qed

lemma strtoull0_dec [text_simps]: "n < 2 ^ 64 \<Longrightarrow> strtoull0 (dec n) = of_nat n"
  using dec_skip [of n "[]"] by (simp add: strtoull0_def c_str_id dec_not_special number0_dec)

lemma strtoull0_neg [text_simps]: "n < 2 ^ 64 \<Longrightarrow> strtoull0 (CHR ''-'' # dec n) = - of_nat n"
proof -
  assume n: "n < 2 ^ 64"
  have "c_str (CHR ''-'' # dec n) = CHR ''-'' # dec n" by (rule c_str_id) (simp add: dec_not_special)
  then show ?thesis using n by (simp add: strtoull0_def c_isspace_def take_sign_def number0_dec)
qed

section \<open>Internet addresses\<close>

text \<open>
  \<open>inet_addr\<close> and \<open>inet_ntoa\<close>, on addresses in host byte order as the sources use them (\<open>ntohl\<close> behind the one and
  \<open>htonl\<close> before the other): an address has up to four numbers of any base, of which the last one fills the bytes that
  are left; anything else is \<open>INADDR_NONE\<close>, all ones.
\<close>

fun split_on :: "char \<Rightarrow> string \<Rightarrow> string list" where
  "split_on c [] = [[]]"
| "split_on c (x # s) = (if x = c then [] # split_on c s else (x # hd (split_on c s)) # tl (split_on c s))"

definition inet_number :: "string \<Rightarrow> nat option" where
  "inet_number s =
     (if s \<noteq> [] \<and> is_digit 10 (hd s) \<and> snd (number0 s) = [] then Some (fst (number0 s)) else None)"

definition inet_value :: "nat option list \<Rightarrow> nat option" where
  "inet_value ps =
     (case ps of
        [Some a] \<Rightarrow> if a < 2 ^ 32 then Some a else None
      | [Some a, Some b] \<Rightarrow> if a < 256 \<and> b < 2 ^ 24 then Some (a * 2 ^ 24 + b) else None
      | [Some a, Some b, Some c] \<Rightarrow>
          if a < 256 \<and> b < 256 \<and> c < 2 ^ 16 then Some (a * 2 ^ 24 + b * 2 ^ 16 + c) else None
      | [Some a, Some b, Some c, Some d] \<Rightarrow>
          if a < 256 \<and> b < 256 \<and> c < 256 \<and> d < 256 then Some (a * 2 ^ 24 + b * 2 ^ 16 + c * 2 ^ 8 + d) else None
      | _ \<Rightarrow> None)"

definition inet_addr :: "string \<Rightarrow> u32" where
  "inet_addr s = (case inet_value (map inet_number (split_on (CHR ''.'') (c_str s))) of None \<Rightarrow> - 1 | Some v \<Rightarrow> of_nat v)"

definition inet_ntoa :: "u32 \<Rightarrow> string" where
  "inet_ntoa ip =
     dec (unat ip div 2 ^ 24) @ ''.'' @ dec (unat ip div 2 ^ 16 mod 256) @ ''.'' @
     dec (unat ip div 2 ^ 8 mod 256) @ ''.'' @ dec (unat ip mod 256)"

lemma split_on_append: "c \<notin> set a \<Longrightarrow> split_on c (a @ c # s) = a # split_on c s"
  by (induction a) auto

lemma split_on_last: "c \<notin> set a \<Longrightarrow> split_on c a = [a]"
  by (induction a) auto

lemma inet_number_dec: "inet_number (dec n) = Some n"
proof -
  have "is_digit 10 (hd (dec n))" using dec_digits [OF dec_hd_last(1), of n] by (auto simp: is_digit_def digit_val_digit)
  then show ?thesis by (simp add: inet_number_def number0_dec)
qed

lemma dec_no_dot [simp]: "CHR ''.'' \<notin> set (dec n)" "NUL \<notin> set (dec n)"
  by (simp_all add: dec_not_special)

lemma inet_ntoa_chars: "c \<in> set (inet_ntoa ip) \<Longrightarrow> c = CHR ''.'' \<or> (48 :: nat) \<le> of_char c \<and> of_char c \<le> (57 :: nat)"
  by (auto simp: inet_ntoa_def dest: dec_char)

lemma four_bytes:
  "n div 2 ^ 24 * 2 ^ 24 + n div 2 ^ 16 mod 256 * 2 ^ 16 + n div 2 ^ 8 mod 256 * 2 ^ 8 + n mod 256 = (n :: nat)"
proof -
  have "n div 2 ^ 16 = n div 256 div 256" "n div 2 ^ 24 = n div 256 div 256 div 256"
    by (simp_all flip: div_mult2_eq)
  moreover have join: "q3 * 2 ^ 24 + r2 * 2 ^ 16 + r1 * 2 ^ 8 + r0 = m"
    if "q1 * 256 + r0 = m" "q2 * 256 + r1 = q1" "q3 * 256 + r2 = q2" for q1 q2 q3 r0 r1 r2 m :: nat
    using that by simp
  have "n div 256 div 256 div 256 * 2 ^ 24 + n div 256 div 256 mod 256 * 2 ^ 16 + n div 256 mod 256 * 2 ^ 8 + n mod 256 = n"
    by (rule join) simp_all
  ultimately show ?thesis by simp
qed

lemma inet_addr_ntoa [text_simps]: "inet_addr (inet_ntoa ip) = ip"
proof -
  let ?n = "unat ip"
  have n: "?n < 2 ^ 32" using unsigned_less [of ip] by simp
  have "NUL \<notin> set (inet_ntoa ip)" using inet_ntoa_chars by fastforce
  then have "split_on (CHR ''.'') (c_str (inet_ntoa ip)) =
      [dec (?n div 2 ^ 24), dec (?n div 2 ^ 16 mod 256), dec (?n div 2 ^ 8 mod 256), dec (?n mod 256)]"
    by (simp add: c_str_id inet_ntoa_def split_on_append split_on_last)
  moreover have "?n div 2 ^ 24 < 256" using n by simp
  moreover have "?n div 2 ^ 24 * 2 ^ 24 + ?n div 2 ^ 16 mod 256 * 2 ^ 16 + ?n div 2 ^ 8 mod 256 * 2 ^ 8 + ?n mod 256 = ?n"
    by (rule four_bytes)
  ultimately show ?thesis by (simp add: inet_addr_def inet_number_dec inet_value_def)
qed

end
