(* ===== verification/RtspPacket.thy ===== *)
theory RtspPacket
  imports CStr
begin

text \<open>
  \<open>svs_adapter_rtsp_packet.cpp\<close>: RTSP requests and responses as text.  A message in memory is the list of the
  characters from \<open>pszRtsp\<close> on; the code reads it as a C string (up to the first NUL) and by its size.  \<open>RtspUrl\<close> is
  the array of 512 characters it is in the code, so that a URL that fills it has no terminator.  A \<open>double\<close> is its 64
  bits; printing one with \<open>%6.6f\<close> and \<open>atof\<close>, and the calendar functions (\<open>strptime\<close> with \<open>mktime\<close>, \<open>localtime_r\<close> with
  the printing of a date), which depend on the time zone, are arguments.
\<close>

section \<open>Data\<close>

definition RTSP_VERSION :: string where "RTSP_VERSION = ''RTSP/1.0''"
definition RTSP_END_LINE :: string where "RTSP_END_LINE = [CR, LF]"
definition RTSP_END_MSG :: string where "RTSP_END_MSG = [CR, LF, CR, LF]"
definition RTSP_USER_AGENT :: string where "RTSP_USER_AGENT = ''AllCam adapter/v1.0.0.0''"
definition RTSP_URL_PROTOCOL :: string where "RTSP_URL_PROTOCOL = ''rtsp://''"

definition m_strRtspMethods :: "string list" where
  "m_strRtspMethods =
     [''DESCRIBE'', ''SETUP'', ''TEARDOWN'', ''PLAY'', ''PAUSE'', ''OPTIONS'', ''ANNOUNCE'', ''GET_PARAMETER'',
      ''SET_PARAMETER'', ''REDIRECT'', ''RECORD'', RTSP_VERSION]"

definition m_strRtspHeaders :: "string list" where
  "m_strRtspHeaders =
     [''CSeq'', ''User-Agent'', ''Session'', ''Range'', ''Scale'', ''Speed'', ''Content-Length'', ''Transport'',
      ''Content-Type'', ''RTP-Info'', ''x-NAT-Info'', ''X-PLAYINFO'', ''X-PLAYCTRL'']"

definition m_strRtspStatusCode :: "string list" where
  "m_strRtspStatusCode =
     [''200 OK'', ''300 Multiple Choices'', ''400 Bad Request'', ''401 Unauthorized'', ''404 Not Found'',
      ''406 Not Acceptable'', ''500 Internal Server Error'', ''Unknown'']"

text \<open>The enumerations that index the tables.\<close>

abbreviation (input) RtspSetParameterMethod :: nat where "RtspSetParameterMethod \<equiv> 8"
abbreviation (input) RtspResponseMethod :: nat where "RtspResponseMethod \<equiv> 11"
abbreviation (input) RtspIllegalMethod :: nat where "RtspIllegalMethod \<equiv> 12"
abbreviation (input) RtspCseqHeader :: nat where "RtspCseqHeader \<equiv> 0"
abbreviation (input) RtspUserAgentHeader :: nat where "RtspUserAgentHeader \<equiv> 1"
abbreviation (input) RtspSessionHeader :: nat where "RtspSessionHeader \<equiv> 2"
abbreviation (input) RtspRangeHeader :: nat where "RtspRangeHeader \<equiv> 3"
abbreviation (input) RtspScaleHeader :: nat where "RtspScaleHeader \<equiv> 4"
abbreviation (input) RtspSpeedHeader :: nat where "RtspSpeedHeader \<equiv> 5"
abbreviation (input) RtspContentLengthHeader :: nat where "RtspContentLengthHeader \<equiv> 6"
abbreviation (input) RtspTransPortHeader :: nat where "RtspTransPortHeader \<equiv> 7"
abbreviation (input) RtspRtpInfoHeader :: nat where "RtspRtpInfoHeader \<equiv> 8"
abbreviation (input) RtspContentType :: nat where "RtspContentType \<equiv> 9"
abbreviation (input) RtspXNatInfoHeader :: nat where "RtspXNatInfoHeader \<equiv> 10"
abbreviation (input) RtspXPlayInfoHeader :: nat where "RtspXPlayInfoHeader \<equiv> 11"
abbreviation (input) RtspXPlayCtrl :: nat where "RtspXPlayCtrl \<equiv> 12"
abbreviation (input) RtspNotAcceptedHeader :: nat where "RtspNotAcceptedHeader \<equiv> 13"
abbreviation (input) RtspNotAcceptedStatus :: nat where "RtspNotAcceptedStatus \<equiv> 7"
abbreviation (input) RTSP_MSG_LENGTH :: nat where "RTSP_MSG_LENGTH \<equiv> 2048"
abbreviation (input) RTSP_MAX_URL_LENGTH :: nat where "RTSP_MAX_URL_LENGTH \<equiv> 512"
abbreviation (input) RTSP_MAX_DEVID_LENGTH :: nat where "RTSP_MAX_DEVID_LENGTH \<equiv> 33"
abbreviation (input) RTSP_STATUS_CODE_LENGTH :: nat where "RTSP_STATUS_CODE_LENGTH \<equiv> 3"

datatype RTSP_NAT_TYPE = RTSP_NAT_TYPE_RTP | RTSP_NAT_TYPE_RTCP | RTSP_INVALID_NAT_TYPE

datatype RTSP_XPLAYINFO_TYPE =
    RTSP_XPLAYINFO_TYPE_EOS
  | RTSP_XPLAYINFO_TYPE_BOS
  | RTSP_XPLAYINFO_TYPE_CLOSE
  | RTSP_XPLAYINFO_INVALID_TYPE

record RTSP_URL_INFO =
  url_Ip :: u32
  url_Port :: u16
  url_ContentId :: string

record RTSP_COMMON_INFO =
  MethodIndex :: u32
  RtspUrl :: string
  SessionID :: u64
  Cseq :: u32
  StatusCodeIndex :: u32

record RTSP_NAT_INFO =
  NatType :: RTSP_NAT_TYPE
  LocalIp :: u32
  LocalPort :: u16
  SrcIp :: u32
  SrcPort :: u16

record CRtspPacket =
  m_RtspCommonInfo :: RTSP_COMMON_INFO
  m_ulContenLength :: u32
  m_strContentType :: string
  m_strContent :: string
  m_strRange :: string
  m_dSpeed :: u64
  m_dScale :: u64
  m_strXPlayCtrl :: string
  m_strXPlayInfo :: string
  m_RtspNatInfo :: RTSP_NAT_INFO
  m_strRtpInfo :: string
  m_strTransPort :: string

definition CRtspPacket_new :: CRtspPacket where
  "CRtspPacket_new =
     \<lparr> m_RtspCommonInfo = \<lparr> MethodIndex = of_nat RtspIllegalMethod, RtspUrl = replicate 512 NUL, SessionID = 0, Cseq = 0,
         StatusCodeIndex = of_nat RtspNotAcceptedStatus \<rparr>,
       m_ulContenLength = 0, m_strContentType = [], m_strContent = [], m_strRange = [], m_dSpeed = 0, m_dScale = 0,
       m_strXPlayCtrl = [], m_strXPlayInfo = [],
       m_RtspNatInfo = \<lparr> NatType = RTSP_INVALID_NAT_TYPE, LocalIp = 0, LocalPort = 0, SrcIp = 0, SrcPort = 0 \<rparr>,
       m_strRtpInfo = [], m_strTransPort = [] \<rparr>"

text \<open>The loops over the tables: the index of the first entry with a property, or the number of entries.\<close>

definition first_index :: "(string \<Rightarrow> bool) \<Rightarrow> string list \<Rightarrow> nat" where
  "first_index P xs = length (takeWhile (\<lambda>x. \<not> P x) xs)"

definition method_index :: "string \<Rightarrow> nat" where
  "method_index s = first_index (\<lambda>m. strncmp_eq s m (length m)) m_strRtspMethods"

section \<open>Framing\<close>

text \<open>
  \<open>checkRtsp\<close>: the return value, the length of the message as it is left in \<open>unMsgLen\<close>, and the buffer, in which
  \<open>Content-length\<close> is corrected.
\<close>

definition checkRtsp :: "string \<Rightarrow> nat \<Rightarrow> u32 \<Rightarrow> int \<times> u32 \<times> string" where
  "checkRtsp pszRtsp unRtspSize unMsgLen =
     (if RtspIllegalMethod \<le> method_index pszRtsp then (- 1, unMsgLen, pszRtsp)
      else
        let strRtspMsg = take unRtspSize pszRtsp
        in case str_find RTSP_END_MSG strRtspMsg of
             None \<Rightarrow> if RTSP_MSG_LENGTH \<le> unRtspSize then (- 1, unMsgLen, pszRtsp) else (0, 0, pszRtsp)
           | Some endPos \<Rightarrow>
               let len = of_nat (endPos + length RTSP_END_MSG);
                   content = (\<lambda>pos mem.
                     case str_find RTSP_END_LINE strRtspMsg of
                       None \<Rightarrow> (- 1, len, mem)
                     | Some endLine \<Rightarrow>
                         (0, len + atoi (trimString (take endLine (drop (pos + length ''Content-Length:'') strRtspMsg))), mem))
               in case str_find ''Content-Length:'' strRtspMsg of
                    Some pos \<Rightarrow> content pos pszRtsp
                  | None \<Rightarrow>
                      (case str_find ''Content-length:'' strRtspMsg of
                         None \<Rightarrow> (0, len, pszRtsp)
                       | Some pos \<Rightarrow> content pos (pszRtsp[pos + length ''Content-'' := CHR ''L''])))"

text \<open>\<open>getRtspCseqNo\<close>: the number and the next value of the counter of the class.\<close>

definition getRtspCseqNo :: "u32 \<Rightarrow> u32 \<times> u32" where
  "getRtspCseqNo m_unRtspCseq = (m_unRtspCseq, m_unRtspCseq + 1)"

section \<open>Parsing\<close>

definition readRtspLine :: "string \<Rightarrow> (string \<times> nat) option" where
  "readRtspLine pszMsg =
     (case str_find RTSP_END_LINE (c_str pszMsg) of
        None \<Rightarrow> None
      | Some n \<Rightarrow> Some (take n pszMsg, n + length RTSP_END_LINE))"

text \<open>\<open>memcpy (RtspUrl, s, size)\<close>: what was behind stays.\<close>

definition copy_url :: "string \<Rightarrow> string \<Rightarrow> string" where
  "copy_url s old = s @ drop (length s) old"

definition set_common :: "(RTSP_COMMON_INFO \<Rightarrow> RTSP_COMMON_INFO) \<Rightarrow> CRtspPacket \<Rightarrow> CRtspPacket" where
  "set_common f p = p\<lparr>m_RtspCommonInfo := f (m_RtspCommonInfo p)\<rparr>"

definition parseRtspMethodLine :: "string \<Rightarrow> CRtspPacket \<Rightarrow> int \<times> CRtspPacket" where
  "parseRtspMethodLine strLine p =
     (let i = method_index strLine;
          p1 = set_common (\<lambda>c. c\<lparr>MethodIndex := of_nat i\<rparr>) p
      in if i = RtspIllegalMethod then (- 1, p1)
         else if length strLine \<le> length (m_strRtspMethods ! i) + 1 then (- 1, p1)
         else
           let strLeast = trimString (drop (length (m_strRtspMethods ! i) + 1) strLine)
           in if i = RtspResponseMethod
              then let unStatus = first_index (\<lambda>s. strncmp_eq strLeast s RTSP_STATUS_CODE_LENGTH)
                         (take RtspNotAcceptedStatus m_strRtspStatusCode)
                   in (0, set_common (\<lambda>c. c\<lparr>StatusCodeIndex := of_nat unStatus\<rparr>) p1)
              else case str_find RTSP_VERSION strLeast of
                     None \<Rightarrow> (- 1, p1)
                   | Some nPos \<Rightarrow>
                       let strUrl = trimString (take nPos strLeast)
                       in if RTSP_MAX_URL_LENGTH < length strUrl then (- 1, p1)
                          else (0, set_common (\<lambda>c. c\<lparr>RtspUrl := copy_url strUrl (RtspUrl c)\<rparr>) p1))"

definition parseRtspHeaderIndex :: "string \<Rightarrow> nat" where
  "parseRtspHeaderIndex strLine = first_index (\<lambda>h. strncasecmp_eq strLine h (length h)) m_strRtspHeaders"

text \<open>One \<open>key=value\<close> of the NAT information; the length of each comparison includes the NUL.\<close>

definition nat_field :: "string \<Rightarrow> string \<Rightarrow> RTSP_NAT_INFO \<Rightarrow> int \<times> RTSP_NAT_INFO" where
  "nat_field strKey strValue info =
     (if strncasecmp_eq strKey ''type'' (length ''type'' + 1)
      then if strncasecmp_eq strValue ''RTP'' (length ''RTP'' + 1) then (0, info\<lparr>NatType := RTSP_NAT_TYPE_RTP\<rparr>)
           else if strncasecmp_eq strValue ''RTCP'' (length ''RTCP'' + 1) then (0, info\<lparr>NatType := RTSP_NAT_TYPE_RTCP\<rparr>)
           else (- 1, info)
      else if strncasecmp_eq strKey ''local_addr'' (length ''local_addr'' + 1)
      then (if inet_addr strValue = 0 then - 1 else 0, info\<lparr>LocalIp := inet_addr strValue\<rparr>)
      else if strncasecmp_eq strKey ''local_port'' (length ''local_port'' + 1)
      then (if (ucast (atoi strValue) :: u16) = 0 then - 1 else 0, info\<lparr>LocalPort := ucast (atoi strValue)\<rparr>)
      else if strncasecmp_eq strKey ''src_addr'' (length ''src_addr'' + 1)
      then (if inet_addr strValue = 0 then - 1 else 0, info\<lparr>SrcIp := inet_addr strValue\<rparr>)
      else if strncasecmp_eq strKey ''src_port'' (length ''src_port'' + 1)
      then (if (ucast (atoi strValue) :: u16) = 0 then - 1 else 0, info\<lparr>SrcPort := ucast (atoi strValue)\<rparr>)
      else (- 1, info))"

function nat_loop :: "string \<Rightarrow> RTSP_NAT_INFO \<Rightarrow> int \<times> RTSP_NAT_INFO" where
  "nat_loop s info =
     (case str_find '';'' s of
        None \<Rightarrow> (0, info)
      | Some n \<Rightarrow>
          (case str_find ''='' (take n s) of
             None \<Rightarrow> (- 1, info)
           | Some k \<Rightarrow>
               (case nat_field (trimString (take k (take n s))) (trimString (drop (k + 1) (take n s))) info of
                  (r, info') \<Rightarrow> if r \<noteq> 0 then (- 1, info') else nat_loop (drop (n + 1) s) info')))"
  by auto
termination
  by (relation "measure (length \<circ> fst)") (auto dest!: str_find_bound [of "'';''"])

declare nat_loop.simps [simp del]

definition parseNatInfo :: "string \<Rightarrow> CRtspPacket \<Rightarrow> int \<times> CRtspPacket" where
  "parseNatInfo strNatInfo p =
     (case nat_loop (if last strNatInfo \<noteq> CHR '';'' then strNatInfo @ '';'' else strNatInfo) (m_RtspNatInfo p) of
        (r, info) \<Rightarrow> (r, p\<lparr>m_RtspNatInfo := info\<rparr>))"

definition parseRtspHeaderValue :: "(string \<Rightarrow> u64) \<Rightarrow> nat \<Rightarrow> string \<Rightarrow> CRtspPacket \<Rightarrow> int \<times> CRtspPacket" where
  "parseRtspHeaderValue atof nHeaderIndex strLine p =
     (if RtspNotAcceptedHeader \<le> nHeaderIndex then (- 1, p)
      else case str_find '':'' (drop (length (m_strRtspHeaders ! nHeaderIndex)) strLine) of
             None \<Rightarrow> (- 1, p)
           | Some nPos \<Rightarrow>
               let strValue = trimString (drop (nPos + 1) (drop (length (m_strRtspHeaders ! nHeaderIndex)) strLine))
               in if nHeaderIndex = RtspCseqHeader then (0, set_common (\<lambda>c. c\<lparr>Cseq := ucast (strtoull0 strValue)\<rparr>) p)
                  else if nHeaderIndex = RtspSessionHeader then (0, set_common (\<lambda>c. c\<lparr>SessionID := strtoull0 strValue\<rparr>) p)
                  else if nHeaderIndex = RtspXNatInfoHeader then if strValue = [] then (- 1, p) else parseNatInfo strValue p
                  else if nHeaderIndex = RtspRangeHeader then (0, p\<lparr>m_strRange := strValue\<rparr>)
                  else if nHeaderIndex = RtspSpeedHeader then (0, p\<lparr>m_dSpeed := atof strValue\<rparr>)
                  else if nHeaderIndex = RtspScaleHeader then (0, p\<lparr>m_dScale := atof strValue\<rparr>)
                  else if nHeaderIndex = RtspContentLengthHeader then (0, p\<lparr>m_ulContenLength := atoi strValue\<rparr>)
                  else if nHeaderIndex = RtspContentType then if strValue = [] then (- 1, p) else (0, p\<lparr>m_strContentType := strValue\<rparr>)
                  else if nHeaderIndex = RtspTransPortHeader then if strValue = [] then (- 1, p) else (0, p\<lparr>m_strTransPort := strValue\<rparr>)
                  else if nHeaderIndex = RtspRtpInfoHeader then if strValue = [] then (- 1, p) else (0, p\<lparr>m_strRtpInfo := strValue\<rparr>)
                  else if nHeaderIndex = RtspXPlayInfoHeader then (0, p\<lparr>m_strXPlayInfo := strValue\<rparr>)
                  else (0, p))"

text \<open>The loop of \<open>parse\<close> over the header lines, from the offset on.\<close>

function parse_headers :: "(string \<Rightarrow> u64) \<Rightarrow> string \<Rightarrow> nat \<Rightarrow> nat \<Rightarrow> CRtspPacket \<Rightarrow> int \<times> CRtspPacket" where
  "parse_headers atof pszRtsp unRtspSize nOffset p =
     (if nOffset < unRtspSize
      then case readRtspLine (drop nOffset pszRtsp) of
             None \<Rightarrow> (- 1, p)
           | Some (strRtspLine, nReadSize) \<Rightarrow>
               if strRtspLine = [] then (0, p)
               else if parseRtspHeaderIndex strRtspLine = RtspNotAcceptedHeader
               then parse_headers atof pszRtsp unRtspSize (nOffset + nReadSize) p
               else case parseRtspHeaderValue atof (parseRtspHeaderIndex strRtspLine) strRtspLine p of
                      (r, p') \<Rightarrow> if r \<noteq> 0 then (- 1, p')
                                else parse_headers atof pszRtsp unRtspSize (nOffset + nReadSize) p'
      else (0, p))"
  by auto
termination
  by (relation "measure (\<lambda>(_, _, n, off, _). n - off)")
    (auto simp: readRtspLine_def RTSP_END_LINE_def split: option.splits)

declare parse_headers.simps [simp del]

definition parse :: "(string \<Rightarrow> u64) \<Rightarrow> string option \<Rightarrow> nat \<Rightarrow> CRtspPacket \<Rightarrow> int \<times> CRtspPacket" where
  "parse atof msg unRtspSize p =
     (case msg of
        None \<Rightarrow> (- 1, p)
      | Some pszRtsp \<Rightarrow>
          if unRtspSize = 0 then (- 1, p)
          else case readRtspLine pszRtsp of
                 None \<Rightarrow> (- 1, p)
               | Some (strRtspLine, nReadSize) \<Rightarrow>
                   (case parseRtspMethodLine strRtspLine p of
                      (r, p1) \<Rightarrow>
                        if r \<noteq> 0 then (- 1, p1)
                        else case parse_headers atof pszRtsp unRtspSize nReadSize p1 of
                               (r2, p2) \<Rightarrow>
                                 if r2 \<noteq> 0 then (- 1, p2)
                                 else if m_ulContenLength p2 \<noteq> 0
                                 then case str_find RTSP_END_MSG (take unRtspSize pszRtsp) of
                                        None \<Rightarrow> (- 1, p2)
                                      | Some endPos \<Rightarrow>
                                          (0, p2\<lparr>m_strContent := drop (endPos + length RTSP_END_MSG) (take unRtspSize pszRtsp)\<rparr>)
                                 else (0, p2)))"

section \<open>Generating\<close>

definition uint64ToStr :: "u64 \<Rightarrow> string" where
  "uint64ToStr num = (if sint num < 0 then CHR ''-'' # dec (nat (- sint num)) else dec (nat (sint num)))"

definition uint32ToStr :: "u32 \<Rightarrow> string" where
  "uint32ToStr num = dec (unat num)"

text \<open>\<open>fmt6\<close> is what \<open>%6.6f\<close> prints; 15 characters of it fit.\<close>

definition double2Str :: "(u64 \<Rightarrow> string) \<Rightarrow> u64 \<Rightarrow> string" where
  "double2Str fmt6 num = take 15 (fmt6 num)"

text \<open>The comparison of a \<open>double\<close> with 0, which is true for both zeros.\<close>

definition double_is_zero :: "u64 \<Rightarrow> bool" where
  "double_is_zero d \<longleftrightarrow> d = 0 \<or> d = 0x8000000000000000"

text \<open>\<open>RtspUrl\<close> as a C string; without a NUL the code reads on behind the array.\<close>

definition url_c_str :: "RTSP_COMMON_INFO \<Rightarrow> string option" where
  "url_c_str c = (if NUL \<in> set (RtspUrl c) then Some (c_str (RtspUrl c)) else None)"

definition header_line :: "nat \<Rightarrow> string \<Rightarrow> string" where
  "header_line i v = m_strRtspHeaders ! i @ '':'' @ v @ RTSP_END_LINE"

definition generateCommonHeader :: "CRtspPacket \<Rightarrow> string" where
  "generateCommonHeader p =
     header_line RtspSessionHeader (uint64ToStr (SessionID (m_RtspCommonInfo p))) @
     header_line RtspCseqHeader (uint32ToStr (Cseq (m_RtspCommonInfo p))) @
     (if m_strRange p \<noteq> [] then header_line RtspRangeHeader (m_strRange p) else []) @
     header_line RtspUserAgentHeader RTSP_USER_AGENT"

definition generateAcceptedHeader :: "(u64 \<Rightarrow> string) \<Rightarrow> CRtspPacket \<Rightarrow> string" where
  "generateAcceptedHeader fmt6 p =
     (if \<not> double_is_zero (m_dSpeed p) then header_line RtspSpeedHeader (double2Str fmt6 (m_dSpeed p)) else []) @
     (if \<not> double_is_zero (m_dScale p) then header_line RtspScaleHeader (double2Str fmt6 (m_dScale p)) else [])"

definition generateNatInfo :: "CRtspPacket \<Rightarrow> string" where
  "generateNatInfo p =
     (let i = m_RtspNatInfo p
      in if NatType i = RTSP_INVALID_NAT_TYPE then []
         else (if NatType i = RTSP_NAT_TYPE_RTP then ''x-NAT-Info:type=RTP;'' else ''x-NAT-Info:type=RTCP;'') @
           ''local_addr='' @ inet_ntoa (LocalIp i) @ '';local_port='' @ dec (unat (LocalPort i)) @ '';'' @
           (if SrcIp i \<noteq> 0 \<and> SrcPort i \<noteq> 0
            then ''src_addr='' @ inet_ntoa (SrcIp i) @ '';src_port='' @ dec (unat (SrcPort i)) else []) @
           RTSP_END_LINE)"

definition generateRtspResp :: "(u64 \<Rightarrow> string) \<Rightarrow> CRtspPacket \<Rightarrow> int \<times> string option" where
  "generateRtspResp fmt6 p =
     (let unStatusIndex = unat (StatusCodeIndex (m_RtspCommonInfo p))
      in if RtspNotAcceptedStatus \<le> unStatusIndex then (- 1, None)
         else (0, Some (RTSP_VERSION @ '' '' @ m_strRtspStatusCode ! unStatusIndex @ RTSP_END_LINE @
                generateCommonHeader p @ generateAcceptedHeader fmt6 p @ generateNatInfo p @
                (if m_strRtpInfo p \<noteq> [] then header_line RtspRtpInfoHeader (m_strRtpInfo p) else []) @
                RTSP_END_LINE)))"

text \<open>The result is \<open>None\<close> where the URL has no terminator.\<close>

definition generateRtspReq :: "(u64 \<Rightarrow> string) \<Rightarrow> CRtspPacket \<Rightarrow> (int \<times> string option) option" where
  "generateRtspReq fmt6 p =
     (let i = unat (MethodIndex (m_RtspCommonInfo p))
      in if RtspIllegalMethod \<le> i then Some (- 1, None)
         else map_option (\<lambda>url. (0, Some (m_strRtspMethods ! i @ '' '' @ url @ '' '' @ RTSP_VERSION @ RTSP_END_LINE @
                generateCommonHeader p @ generateAcceptedHeader fmt6 p @ generateNatInfo p @
                (if i = RtspSetParameterMethod \<and> m_strXPlayCtrl p \<noteq> []
                 then header_line RtspXPlayCtrl (m_strXPlayCtrl p) else []) @
                (if i = RtspSetParameterMethod \<and> m_strXPlayInfo p \<noteq> []
                 then header_line RtspXPlayInfoHeader (m_strXPlayInfo p) else []) @
                RTSP_END_LINE)))
           (url_c_str (m_RtspCommonInfo p)))"

section \<open>Fields, ranges and URLs\<close>

definition setCseq :: "u32 \<Rightarrow> CRtspPacket \<Rightarrow> CRtspPacket" where
  "setCseq unCseq p = set_common (\<lambda>c. c\<lparr>Cseq := unCseq\<rparr>) p"

definition setSessionID :: "u64 \<Rightarrow> CRtspPacket \<Rightarrow> CRtspPacket" where
  "setSessionID ullSessionID p = set_common (\<lambda>c. c\<lparr>SessionID := ullSessionID\<rparr>) p"

definition setMethodIndex :: "u32 \<Rightarrow> CRtspPacket \<Rightarrow> CRtspPacket" where
  "setMethodIndex unMethodIndex p = set_common (\<lambda>c. c\<lparr>MethodIndex := unMethodIndex\<rparr>) p"

definition setSpeed :: "u64 \<Rightarrow> CRtspPacket \<Rightarrow> CRtspPacket" where
  "setSpeed dSpeed p = p\<lparr>m_dSpeed := dSpeed\<rparr>"

definition setScale :: "u64 \<Rightarrow> CRtspPacket \<Rightarrow> CRtspPacket" where
  "setScale dScale p = p\<lparr>m_dScale := dScale\<rparr>"

definition setXPlayCtrl :: "string \<Rightarrow> CRtspPacket \<Rightarrow> CRtspPacket" where
  "setXPlayCtrl strXPlayCtrl p = p\<lparr>m_strXPlayCtrl := strXPlayCtrl\<rparr>"

definition setXPlayInfo :: "string \<Rightarrow> CRtspPacket \<Rightarrow> CRtspPacket" where
  "setXPlayInfo strXPlayInfo p = p\<lparr>m_strXPlayInfo := strXPlayInfo\<rparr>"

definition setNatInfo :: "RTSP_NAT_INFO \<Rightarrow> CRtspPacket \<Rightarrow> CRtspPacket" where
  "setNatInfo info p = p\<lparr>m_RtspNatInfo := info\<rparr>"

definition setTransPort :: "string \<Rightarrow> CRtspPacket \<Rightarrow> CRtspPacket" where
  "setTransPort strTransPort p = p\<lparr>m_strTransPort := strTransPort\<rparr>"

definition SetContent :: "string \<Rightarrow> CRtspPacket \<Rightarrow> CRtspPacket" where
  "SetContent strContent p = p\<lparr>m_strContent := strContent\<rparr>"

definition setRtpInfoText :: "string \<Rightarrow> CRtspPacket \<Rightarrow> CRtspPacket" where
  "setRtpInfoText strRtpInfo p = p\<lparr>m_strRtpInfo := strRtpInfo\<rparr>"

definition setRtspStatusCode :: "u32 \<Rightarrow> CRtspPacket \<Rightarrow> CRtspPacket" where
  "setRtspStatusCode unRespCode p =
     (if RtspNotAcceptedStatus \<le> unat unRespCode then p else set_common (\<lambda>c. c\<lparr>StatusCodeIndex := unRespCode\<rparr>) p)"

definition getRtspUrl :: "CRtspPacket \<Rightarrow> string option" where
  "getRtspUrl p = url_c_str (m_RtspCommonInfo p)"

definition setRtspUrl :: "string \<Rightarrow> CRtspPacket \<Rightarrow> CRtspPacket" where
  "setRtspUrl strUrl p =
     set_common (\<lambda>c. c\<lparr>RtspUrl :=
       if RTSP_MAX_URL_LENGTH < length strUrl then replicate 512 NUL
       else copy_url (c_str strUrl @ replicate (length strUrl - length (c_str strUrl)) NUL) (replicate 512 NUL)\<rparr>) p"

definition isResponse :: "CRtspPacket \<Rightarrow> bool" where
  "isResponse p \<longleftrightarrow> MethodIndex (m_RtspCommonInfo p) = of_nat RtspResponseMethod"

definition hasNetInfo :: "CRtspPacket \<Rightarrow> bool" where
  "hasNetInfo p \<longleftrightarrow> NatType (m_RtspNatInfo p) \<noteq> RTSP_INVALID_NAT_TYPE"

definition clearNatInfo :: "CRtspPacket \<Rightarrow> CRtspPacket" where
  "clearNatInfo p = p\<lparr>m_RtspNatInfo := (m_RtspNatInfo p)\<lparr>NatType := RTSP_INVALID_NAT_TYPE\<rparr>\<rparr>"

definition getXPlayInfoType :: "CRtspPacket \<Rightarrow> RTSP_XPLAYINFO_TYPE" where
  "getXPlayInfoType p =
     (let s = m_strXPlayInfo p
      in if s = [] then RTSP_XPLAYINFO_INVALID_TYPE
         else if str_find ''CLOSE'' s \<noteq> None then RTSP_XPLAYINFO_TYPE_CLOSE
         else if str_find ''EOS'' s \<noteq> None then RTSP_XPLAYINFO_TYPE_EOS
         else if str_find ''BOS'' s \<noteq> None then RTSP_XPLAYINFO_TYPE_BOS
         else RTSP_XPLAYINFO_INVALID_TYPE)"

definition setRtpInfo :: "string \<Rightarrow> u32 \<Rightarrow> u32 \<Rightarrow> CRtspPacket \<Rightarrow> CRtspPacket" where
  "setRtpInfo strRtpInfoUrl unSeq unTimestamp p =
     p\<lparr>m_strRtpInfo := strRtpInfoUrl @ '';seq='' @ uint32ToStr unSeq @ '';rtptime='' @ uint32ToStr unTimestamp\<rparr>"

text \<open>
  \<open>getRangeTime\<close>: the return value and the time type, start and stop as they are left; \<open>clock_of\<close> is \<open>strptime\<close> with
  \<open>mktime\<close>.
\<close>

abbreviation (input) RANGE_ABSOLUTE :: u32 where "RANGE_ABSOLUTE \<equiv> 0"
abbreviation (input) RANGE_RELATIVE :: u32 where "RANGE_RELATIVE \<equiv> 1"

definition getRangeTime ::
    "(string \<Rightarrow> u32 option) \<Rightarrow> CRtspPacket \<Rightarrow> u32 \<times> u32 \<times> u32 \<Rightarrow> int \<times> u32 \<times> u32 \<times> u32" where
  "getRangeTime clock_of p t0 =
     (let range = m_strRange p
      in if range = [] then (1, RANGE_RELATIVE, 0, 0)
         else case str_find ''clock='' range of
           Some nStartPos \<Rightarrow>
             (let r = drop nStartPos range
              in case str_find ''-'' r of
                   None \<Rightarrow> (- 1, RANGE_ABSOLUTE, snd t0)
                 | Some nStopPos \<Rightarrow>
                     let strStop = trimString (drop (nStopPos + 1) r)
                     in case clock_of (trimString (take nStopPos (drop (length ''clock='') r))) of
                          None \<Rightarrow> (- 1, RANGE_ABSOLUTE, snd t0)
                        | Some start \<Rightarrow>
                            if strStop = [] then (0, RANGE_ABSOLUTE, start, 0)
                            else case clock_of strStop of
                                   None \<Rightarrow> (- 1, RANGE_ABSOLUTE, start, 0)
                                 | Some stop \<Rightarrow> (0, RANGE_ABSOLUTE, start, stop))
         | None \<Rightarrow>
             (case str_find ''npt='' range of
                None \<Rightarrow> (- 1, t0)
              | Some nStartPos \<Rightarrow>
                  let r = drop nStartPos range
                  in case str_find ''-'' r of
                       None \<Rightarrow> (- 1, RANGE_RELATIVE, snd t0)
                     | Some nStopPos \<Rightarrow>
                         let strStart = trimString (take nStopPos (drop (length ''npt='') r));
                             strStop = trimString (drop (nStopPos + 1) r)
                         in (0, RANGE_RELATIVE, atoi strStart, if strStop = [] then 0 else atoi strStop)))"

definition setRangeTime :: "(u32 \<Rightarrow> string) \<Rightarrow> u32 \<Rightarrow> u32 \<Rightarrow> u32 \<Rightarrow> CRtspPacket \<Rightarrow> CRtspPacket" where
  "setRangeTime print_clock unTimeType unStartTime unStopTime p =
     p\<lparr>m_strRange :=
       if unTimeType = RANGE_ABSOLUTE
       then ''clock='' @ take 31 (print_clock unStartTime) @ ''-'' @
            (if unStopTime \<noteq> 0 then take 31 (print_clock unStopTime) else [])
       else ''npt='' @ (if unStartTime = 0 then ''now'' else dec (unat unStartTime)) @ ''-'' @
            (if unStopTime \<noteq> 0 then dec (unat unStopTime) else [])\<rparr>"

definition parseRtspUrl :: "string \<Rightarrow> RTSP_URL_INFO \<Rightarrow> int \<times> RTSP_URL_INFO" where
  "parseRtspUrl strUrl info =
     (case str_find RTSP_URL_PROTOCOL strUrl of
        None \<Rightarrow> (- 1, info)
      | Some _ \<Rightarrow>
          (let least = drop (length RTSP_URL_PROTOCOL) strUrl
           in case str_find ''/'' least of
                None \<Rightarrow> (- 1, info)
              | Some n \<Rightarrow>
                  let ip0 = take n least;
                      least1 = drop (n + 1) least;
                      ip1 = (case str_find ''@'' ip0 of None \<Rightarrow> ip0 | Some k \<Rightarrow> drop (k + 1) ip0);
                      port = (case str_find '':'' ip1 of None \<Rightarrow> 554 | Some k \<Rightarrow> ucast (atoi (drop (k + 1) ip1)));
                      ip2 = (case str_find '':'' ip1 of None \<Rightarrow> ip1 | Some k \<Rightarrow> take k ip1);
                      info1 = info\<lparr>url_Port := port, url_Ip := inet_addr ip2\<rparr>
                  in if inet_addr ip2 = 0 \<or> port = 0 then (- 1, info1)
                     else case str_find ''.'' least1 of
                            None \<Rightarrow> (0, info1\<lparr>url_ContentId := least1\<rparr>)
                          | Some k \<Rightarrow>
                              if RTSP_MAX_DEVID_LENGTH - 1 < length (take k least1) then (- 1, info1)
                              else (0, info1\<lparr>url_ContentId := take k least1\<rparr>)))"

section \<open>Lines\<close>

text \<open>Text that can stand in a line, and a value that a parser takes as it is.\<close>

definition line_ok :: "string \<Rightarrow> bool" where
  "line_ok s \<longleftrightarrow> NUL \<notin> set s \<and> CR \<notin> set s"

definition value_ok :: "string \<Rightarrow> bool" where
  "value_ok s \<longleftrightarrow> line_ok s \<and> s \<noteq> [] \<and> hd s \<noteq> CHR '' '' \<and> last s \<noteq> CHR '' ''"

definition text_lines :: "string list \<Rightarrow> string" where
  "text_lines ls = concat (map (\<lambda>l. l @ RTSP_END_LINE) ls)"

lemma line_ok_simps [simp]:
  "line_ok []" "line_ok (c # s) \<longleftrightarrow> c \<noteq> NUL \<and> c \<noteq> CR \<and> line_ok s" "line_ok (a @ b) \<longleftrightarrow> line_ok a \<and> line_ok b"
  by (auto simp: line_ok_def)

lemma value_ok_trim: "value_ok s \<Longrightarrow> trimString s = s"
  by (simp add: value_ok_def trimString_id)

lemma text_lines_simps [simp]:
  "text_lines [] = []" "text_lines (l # ls) = l @ RTSP_END_LINE @ text_lines ls" "text_lines (ks @ ls) = text_lines ks @ text_lines ls"
  by (simp_all add: text_lines_def)

lemma readRtspLine_line: "line_ok l \<Longrightarrow> readRtspLine (l @ RTSP_END_LINE @ r) = Some (l, length l + 2)"
  by (simp add: readRtspLine_def RTSP_END_LINE_def line_ok_def c_str_def takeWhile_append str_find_at [of CR l "[LF]", simplified])

fun apply_lines :: "(string \<Rightarrow> u64) \<Rightarrow> string list \<Rightarrow> CRtspPacket \<Rightarrow> int \<times> CRtspPacket" where
  "apply_lines atof [] p = (0, p)"
| "apply_lines atof (l # ls) p =
     (if parseRtspHeaderIndex l = RtspNotAcceptedHeader then apply_lines atof ls p
      else case parseRtspHeaderValue atof (parseRtspHeaderIndex l) l p of
             (r, p') \<Rightarrow> if r \<noteq> 0 then (- 1, p') else apply_lines atof ls p')"

lemma parse_headers_lines:
  assumes "\<And>l. l \<in> set ls \<Longrightarrow> line_ok l \<and> l \<noteq> []" "length (pre @ text_lines ls) < n"
  shows "parse_headers atof (pre @ text_lines ls @ RTSP_END_LINE @ rest) n (length pre) p = apply_lines atof ls p"
  using assms
proof (induction ls arbitrary: pre p)
  case Nil
  then show ?case
    using readRtspLine_line [of "[]" rest] by (subst parse_headers.simps) simp
next
  case (Cons l ls)
  let ?msg = "pre @ text_lines (l # ls) @ RTSP_END_LINE @ rest"
  have rd: "readRtspLine (drop (length pre) ?msg) = Some (l, length l + 2)"
    using readRtspLine_line [of l] Cons.prems(1) [of l] by simp
  have "parse_headers atof ?msg n (length pre + (length l + 2)) q = apply_lines atof ls q" for q
    using Cons.IH [of "pre @ l @ RTSP_END_LINE" q] Cons.prems by (simp add: RTSP_END_LINE_def)
  then show ?case
    using rd Cons.prems by (subst parse_headers.simps) (auto split: prod.split)
qed

section \<open>Header lines\<close>

definition hline :: "nat \<Rightarrow> string \<Rightarrow> string" where
  "hline i v = m_strRtspHeaders ! i @ '':'' @ v"

lemma header_line_hline: "header_line i v = hline i v @ RTSP_END_LINE"
  by (simp add: header_line_def hline_def)

lemma less_13: "i < 13 \<longleftrightarrow> i \<in> {0, 1, 2, 3, 4, 5, 6, 7, 8, 9, 10, 11, 12 :: nat}"
  by (simp, presburger)

lemma hline_index: "i < 13 \<Longrightarrow> parseRtspHeaderIndex (hline i v) = i"
  unfolding less_13
  by (elim insertE emptyE)
    (simp_all add: parseRtspHeaderIndex_def hline_def first_index_def m_strRtspHeaders_def strncasecmp_eq_def c_str_def c_tolower_def char_of_eq)

lemma hline_ok: "i < 13 \<Longrightarrow> line_ok (hline i v) = line_ok v \<and> hline i v \<noteq> []"
  unfolding less_13 by (elim insertE emptyE) (simp_all add: hline_def m_strRtspHeaders_def)

lemma hline_value:
  assumes "i < 13"
  shows "str_find '':'' (drop (length (m_strRtspHeaders ! i)) (hline i v)) = Some 0"
    "drop (0 + 1) (drop (length (m_strRtspHeaders ! i)) (hline i v)) = v"
  using str_find_append [of "'':''" v] by (simp_all add: hline_def)

lemma ucast_widen [simp]: "(ucast (ucast (x :: u16) :: u32) :: u16) = x" "(ucast (ucast (y :: u32) :: u64) :: u32) = y"
  by (rule bit_word_eqI, auto simp: bit_simps)+

lemma apply_hline:
  assumes "i < 13"
  shows "apply_lines atof (hline i v # ls) p =
    (case parseRtspHeaderValue atof i (hline i v) p of (r, p') \<Rightarrow> if r \<noteq> 0 then (- 1, p') else apply_lines atof ls p')"
  using assms by (simp add: hline_index)

text \<open>What each generated header line does to the packet that is parsed.\<close>

lemma apply_numbers:
  "apply_lines atof (hline RtspSessionHeader (uint64ToStr x) # ls) p = apply_lines atof ls (set_common (\<lambda>c. c\<lparr>SessionID := x\<rparr>) p)"
  "apply_lines atof (hline RtspCseqHeader (uint32ToStr y) # ls) p = apply_lines atof ls (set_common (\<lambda>c. c\<lparr>Cseq := y\<rparr>) p)"
proof -
  have ok: "trimString (dec n) = dec n" "trimString (CHR ''-'' # dec n) = CHR ''-'' # dec n" for n
    using dec_hd [of n] by (auto intro!: trimString_id)
  have "strtoull0 (trimString (uint64ToStr x)) = x"
  proof (cases "sint x < 0")
    case True
    have "strtoull0 (CHR ''-'' # dec (nat (- sint x))) = - of_nat (nat (- sint x))"
      using sint_ge [of x] by (intro strtoull0_neg) simp
    then show ?thesis using True by (simp add: uint64ToStr_def ok)
  next
    case False
    have "strtoull0 (dec (nat (sint x))) = of_nat (nat (sint x))"
      using sint_lt [of x] by (intro strtoull0_dec) simp
    then show ?thesis using False by (simp add: uint64ToStr_def ok)
  qed
  then show "apply_lines atof (hline RtspSessionHeader (uint64ToStr x) # ls) p = apply_lines atof ls (set_common (\<lambda>c. c\<lparr>SessionID := x\<rparr>) p)"
    using hline_value [of RtspSessionHeader "uint64ToStr x"]
    by (simp add: hline_index parseRtspHeaderValue_def)
  have "unat y < 2 ^ 32" using unsigned_less [of y] by simp
  then have "ucast (strtoull0 (trimString (uint32ToStr y))) = y"
    by (simp add: uint32ToStr_def ok strtoull0_dec)
  then show "apply_lines atof (hline RtspCseqHeader (uint32ToStr y) # ls) p = apply_lines atof ls (set_common (\<lambda>c. c\<lparr>Cseq := y\<rparr>) p)"
    using hline_value [of RtspCseqHeader "uint32ToStr y"]
    by (simp add: hline_index parseRtspHeaderValue_def)
qed

lemma apply_values:
  assumes "value_ok v"
  shows "apply_lines atof (hline RtspRangeHeader v # ls) p = apply_lines atof ls (p\<lparr>m_strRange := v\<rparr>)"
    "apply_lines atof (hline RtspUserAgentHeader v # ls) p = apply_lines atof ls p"
    "apply_lines atof (hline RtspSpeedHeader v # ls) p = apply_lines atof ls (p\<lparr>m_dSpeed := atof v\<rparr>)"
    "apply_lines atof (hline RtspScaleHeader v # ls) p = apply_lines atof ls (p\<lparr>m_dScale := atof v\<rparr>)"
    "apply_lines atof (hline RtspXPlayCtrl v # ls) p = apply_lines atof ls p"
    "apply_lines atof (hline RtspXPlayInfoHeader v # ls) p = apply_lines atof ls (p\<lparr>m_strXPlayInfo := v\<rparr>)"
    "apply_lines atof (hline RtspRtpInfoHeader v # ls) p = apply_lines atof ls (p\<lparr>m_strRtpInfo := v\<rparr>)"
  using assms hline_value [where v = v]
  by (simp_all add: hline_index parseRtspHeaderValue_def value_ok_trim value_ok_def)

section \<open>The NAT information\<close>

lemma nat_loop_field:
  assumes "CHR '';'' \<notin> set k" "CHR ''='' \<notin> set k" "CHR '';'' \<notin> set v"
  shows "nat_loop (k @ ''='' @ v @ '';'' @ s) info =
    (case nat_field (trimString k) (trimString v) info of (r, info') \<Rightarrow> if r \<noteq> 0 then (- 1, info') else nat_loop s info')"
proof -
  have "str_find '';'' (k @ ''='' @ v @ '';'' @ s) = Some (length (k @ ''='' @ v))"
    using str_find_at [of "CHR '';''" "k @ ''='' @ v" "[]" s] assms by simp
  moreover have "str_find ''='' (k @ ''='' @ v) = Some (length k)"
    using str_find_at [of "CHR ''=''" k "[]" v] assms by simp
  ultimately show ?thesis by (subst nat_loop.simps) (simp split: prod.split)
qed

lemma nat_loop_end: "nat_loop [] info = (0, info)"
  by (subst nat_loop.simps) simp

definition sent_nat :: "RTSP_NAT_INFO \<Rightarrow> RTSP_NAT_INFO \<Rightarrow> RTSP_NAT_INFO" where
  "sent_nat i old =
     (if NatType i = RTSP_INVALID_NAT_TYPE then old
      else if SrcIp i \<noteq> 0 \<and> SrcPort i \<noteq> 0 then i else i\<lparr>SrcIp := SrcIp old, SrcPort := SrcPort old\<rparr>)"

definition nat_value :: "RTSP_NAT_INFO \<Rightarrow> string" where
  "nat_value i =
     (if NatType i = RTSP_NAT_TYPE_RTP then ''type=RTP;'' else ''type=RTCP;'') @
     ''local_addr='' @ inet_ntoa (LocalIp i) @ '';local_port='' @ dec (unat (LocalPort i)) @ '';'' @
     (if SrcIp i \<noteq> 0 \<and> SrcPort i \<noteq> 0
      then ''src_addr='' @ inet_ntoa (SrcIp i) @ '';src_port='' @ dec (unat (SrcPort i)) else [])"

lemma generateNatInfo_eq:
  "generateNatInfo p = (let i = m_RtspNatInfo p in
     if NatType i = RTSP_INVALID_NAT_TYPE then [] else hline RtspXNatInfoHeader (nat_value i) @ RTSP_END_LINE)"
  by (simp add: generateNatInfo_def Let_def hline_def nat_value_def m_strRtspHeaders_def)

lemma ntoa_special:
  "CHR '';'' \<notin> set (inet_ntoa ip)" "CHR '' '' \<notin> set (inet_ntoa ip)" "NUL \<notin> set (inet_ntoa ip)" "CR \<notin> set (inet_ntoa ip)"
  using inet_ntoa_chars by fastforce+

lemma dec_special:
  "CHR '';'' \<notin> set (dec n)" "CHR '' '' \<notin> set (dec n)" "NUL \<notin> set (dec n)" "CR \<notin> set (dec n)"
  by (simp_all add: dec_not_special)

lemma trim_plain: "CHR '' '' \<notin> set s \<Longrightarrow> trimString s = s"
  by (rule trimString_id) (metis hd_in_set last_in_set)

lemma port_roundtrip: "(ucast (atoi (dec (unat (x :: u16)))) :: u16) = x"
proof -
  have "unat x < 2 ^ 16" using unsigned_less [of x] by simp
  then have "atoi (dec (unat x)) = of_nat (unat x)" using atoi_dec [of "unat x" "[]"] by simp
  then show ?thesis by simp
qed

lemma nat_fields:
  "nat_field ''type'' ''RTP'' i = (0, i\<lparr>NatType := RTSP_NAT_TYPE_RTP\<rparr>)"
  "nat_field ''type'' ''RTCP'' i = (0, i\<lparr>NatType := RTSP_NAT_TYPE_RTCP\<rparr>)"
  "nat_field ''local_addr'' v i = (if inet_addr v = 0 then - 1 else 0, i\<lparr>LocalIp := inet_addr v\<rparr>)"
  "nat_field ''local_port'' v i = (if (ucast (atoi v) :: u16) = 0 then - 1 else 0, i\<lparr>LocalPort := ucast (atoi v)\<rparr>)"
  "nat_field ''src_addr'' v i = (if inet_addr v = 0 then - 1 else 0, i\<lparr>SrcIp := inet_addr v\<rparr>)"
  "nat_field ''src_port'' v i = (if (ucast (atoi v) :: u16) = 0 then - 1 else 0, i\<lparr>SrcPort := ucast (atoi v)\<rparr>)"
  by (simp_all add: nat_field_def strncasecmp_eq_def c_str_def c_tolower_def char_of_eq)

lemma nat_steps:
  "ip \<noteq> 0 \<Longrightarrow> nat_loop (''local_addr'' @ ''='' @ inet_ntoa ip @ '';'' @ r) i = nat_loop r (i\<lparr>LocalIp := ip\<rparr>)"
  "port \<noteq> 0 \<Longrightarrow> nat_loop (''local_port'' @ ''='' @ dec (unat port) @ '';'' @ r) i = nat_loop r (i\<lparr>LocalPort := port\<rparr>)"
  "ip \<noteq> 0 \<Longrightarrow> nat_loop (''src_addr'' @ ''='' @ inet_ntoa ip @ '';'' @ r) i = nat_loop r (i\<lparr>SrcIp := ip\<rparr>)"
  "port \<noteq> 0 \<Longrightarrow> nat_loop (''src_port'' @ ''='' @ dec (unat port) @ '';'' @ r) i = nat_loop r (i\<lparr>SrcPort := port\<rparr>)"
  by (subst nat_loop_field; simp add: ntoa_special dec_special trim_plain nat_fields inet_addr_ntoa port_roundtrip)+

lemma nat_step_type:
  "NatType i \<noteq> RTSP_INVALID_NAT_TYPE \<Longrightarrow>
   nat_loop (''type'' @ ''='' @ (if NatType i = RTSP_NAT_TYPE_RTP then ''RTP'' else ''RTCP'') @ '';'' @ r) old =
   nat_loop r (old\<lparr>NatType := NatType i\<rparr>)"
  by (cases "NatType i"; subst nat_loop_field; simp add: trim_plain nat_fields)

lemma nat_loop_value:
  assumes "NatType i \<noteq> RTSP_INVALID_NAT_TYPE" "LocalIp i \<noteq> 0" "LocalPort i \<noteq> 0"
  shows "nat_loop (if last (nat_value i) \<noteq> CHR '';'' then nat_value i @ '';'' else nat_value i) old = (0, sent_nat i old)"
proof -
  let ?head = "\<lambda>r. ''type'' @ ''='' @ (if NatType i = RTSP_NAT_TYPE_RTP then ''RTP'' else ''RTCP'') @ '';'' @
      ''local_addr'' @ ''='' @ inet_ntoa (LocalIp i) @ '';'' @ ''local_port'' @ ''='' @ dec (unat (LocalPort i)) @ '';'' @ r"
  have head: "nat_loop (?head r) old = nat_loop r (old\<lparr>NatType := NatType i, LocalIp := LocalIp i, LocalPort := LocalPort i\<rparr>)" for r
    by (simp only: nat_step_type [OF assms(1)] nat_steps(1) [OF assms(2)] nat_steps(2) [OF assms(3)])
  show ?thesis
  proof (cases "SrcIp i \<noteq> 0 \<and> SrcPort i \<noteq> 0")
    case True
    have "last (dec (unat (SrcPort i))) \<noteq> CHR '';''" by (metis dec_special(1) dec_hd_last(2))
    then have l: "last (nat_value i) \<noteq> CHR '';''" using True by (simp add: nat_value_def)
    have eq: "nat_value i @ '';'' = ?head (''src_addr'' @ ''='' @ inet_ntoa (SrcIp i) @ '';'' @ ''src_port'' @ ''='' @ dec (unat (SrcPort i)) @ '';'' @ [])"
      using True by (simp add: nat_value_def)
    have "nat_loop (nat_value i @ '';'') old = (0, sent_nat i old)"
      unfolding eq head nat_steps(3) [OF True [THEN conjunct1]] nat_steps(4) [OF True [THEN conjunct2]] nat_loop_end
      using True assms(1) by (simp add: sent_nat_def)
    then show ?thesis using l by simp
  next
    case False
    then have eq: "nat_value i = ?head []" by (auto simp: nat_value_def)
    have l: "last (nat_value i) = CHR '';''" using False by (auto simp: nat_value_def)
    have "nat_loop (nat_value i) old = (0, sent_nat i old)"
      unfolding eq head nat_loop_end using False assms(1) by (auto simp: sent_nat_def)
    then show ?thesis using l by simp
  qed
qed

section \<open>A generated message is parsed back\<close>

lemma parse_lines:
  assumes "line_ok first" "\<And>l. l \<in> set ls \<Longrightarrow> line_ok l \<and> l \<noteq> []"
    and m: "parseRtspMethodLine first p = (0, p1)" and a: "apply_lines atof ls p1 = (0, p2)" "m_ulContenLength p2 = 0"
  shows "parse atof (Some (first @ RTSP_END_LINE @ text_lines ls @ RTSP_END_LINE))
    (length (first @ RTSP_END_LINE @ text_lines ls @ RTSP_END_LINE)) p = (0, p2)"
proof -
  have "readRtspLine (first @ RTSP_END_LINE @ text_lines ls @ RTSP_END_LINE) = Some (first, length first + 2)"
    using assms(1) by (rule readRtspLine_line)
  moreover have "parse_headers atof (first @ RTSP_END_LINE @ text_lines ls @ RTSP_END_LINE)
      (length (first @ RTSP_END_LINE @ text_lines ls @ RTSP_END_LINE)) (length first + 2) p1 = (0, p2)"
    using parse_headers_lines [of ls "first @ RTSP_END_LINE" "length (first @ RTSP_END_LINE @ text_lines ls @ RTSP_END_LINE)" atof "[]" p1]
      assms(2) a by (simp add: RTSP_END_LINE_def)
  ultimately show ?thesis
    using m a(2) by (simp add: parse_def RTSP_END_LINE_def)
qed

definition common_lines :: "CRtspPacket \<Rightarrow> string list" where
  "common_lines p =
     [hline RtspSessionHeader (uint64ToStr (SessionID (m_RtspCommonInfo p))), hline RtspCseqHeader (uint32ToStr (Cseq (m_RtspCommonInfo p)))] @
     (if m_strRange p \<noteq> [] then [hline RtspRangeHeader (m_strRange p)] else []) @ [hline RtspUserAgentHeader RTSP_USER_AGENT]"

definition accepted_lines :: "(u64 \<Rightarrow> string) \<Rightarrow> CRtspPacket \<Rightarrow> string list" where
  "accepted_lines fmt6 p =
     (if \<not> double_is_zero (m_dSpeed p) then [hline RtspSpeedHeader (double2Str fmt6 (m_dSpeed p))] else []) @
     (if \<not> double_is_zero (m_dScale p) then [hline RtspScaleHeader (double2Str fmt6 (m_dScale p))] else [])"

definition nat_lines :: "CRtspPacket \<Rightarrow> string list" where
  "nat_lines p =
     (if NatType (m_RtspNatInfo p) = RTSP_INVALID_NAT_TYPE then [] else [hline RtspXNatInfoHeader (nat_value (m_RtspNatInfo p))])"

definition general_lines :: "(u64 \<Rightarrow> string) \<Rightarrow> CRtspPacket \<Rightarrow> string list" where
  "general_lines fmt6 p = common_lines p @ accepted_lines fmt6 p @ nat_lines p"

lemma general_lines_text:
  "generateCommonHeader p @ generateAcceptedHeader fmt6 p @ generateNatInfo p = text_lines (general_lines fmt6 p)"
  by (simp add: generateCommonHeader_def generateAcceptedHeader_def generateNatInfo_eq header_line_hline general_lines_def
      common_lines_def accepted_lines_def nat_lines_def Let_def)

text \<open>
  What a packet has to be like for its text to be read back: values without line ends or outer spaces, doubles that print
  as such a value (every finite one does), NAT information with an address and a port.
\<close>

definition double_ok :: "(u64 \<Rightarrow> string) \<Rightarrow> u64 \<Rightarrow> bool" where
  "double_ok fmt6 d \<longleftrightarrow> double_is_zero d \<or> value_ok (double2Str fmt6 d)"

definition sendable :: "(u64 \<Rightarrow> string) \<Rightarrow> CRtspPacket \<Rightarrow> bool" where
  "sendable fmt6 p \<longleftrightarrow>
     (m_strRange p = [] \<or> value_ok (m_strRange p)) \<and> double_ok fmt6 (m_dSpeed p) \<and> double_ok fmt6 (m_dScale p) \<and>
     (NatType (m_RtspNatInfo p) = RTSP_INVALID_NAT_TYPE \<or> LocalIp (m_RtspNatInfo p) \<noteq> 0 \<and> LocalPort (m_RtspNatInfo p) \<noteq> 0)"

text \<open>
  The fields that the general header lines carry.  A speed other than 0 is what \<open>atof\<close> makes of at most 15 characters with six decimals, so one
  below half a millionth arrives as 0.
\<close>

definition sent_double :: "(string \<Rightarrow> u64) \<Rightarrow> (u64 \<Rightarrow> string) \<Rightarrow> u64 \<Rightarrow> u64 \<Rightarrow> u64" where
  "sent_double atof fmt6 d old = (if double_is_zero d then old else atof (double2Str fmt6 d))"

definition sent_general :: "(string \<Rightarrow> u64) \<Rightarrow> (u64 \<Rightarrow> string) \<Rightarrow> CRtspPacket \<Rightarrow> CRtspPacket \<Rightarrow> CRtspPacket" where
  "sent_general atof fmt6 p q =
     (set_common (\<lambda>c. c\<lparr>SessionID := SessionID (m_RtspCommonInfo p), Cseq := Cseq (m_RtspCommonInfo p)\<rparr>) q)
       \<lparr>m_strRange := if m_strRange p = [] then m_strRange q else m_strRange p,
        m_dSpeed := sent_double atof fmt6 (m_dSpeed p) (m_dSpeed q),
        m_dScale := sent_double atof fmt6 (m_dScale p) (m_dScale q),
        m_RtspNatInfo := sent_nat (m_RtspNatInfo p) (m_RtspNatInfo q)\<rparr>"

lemma user_agent_ok: "value_ok RTSP_USER_AGENT"
  by (simp add: value_ok_def RTSP_USER_AGENT_def)

lemma number_lines_ok: "line_ok (dec n)" "line_ok (uint64ToStr x)" "line_ok (uint32ToStr y)" "line_ok (inet_ntoa ip)"
  by (simp_all add: line_ok_def uint64ToStr_def uint32ToStr_def dec_special ntoa_special)

lemma nat_value_ok: "value_ok (nat_value i)"
proof -
  have "last (dec n) \<noteq> CHR '' ''" for n by (metis dec_special(2) dec_hd_last(2))
  then show ?thesis by (simp add: value_ok_def nat_value_def number_lines_ok)
qed

lemma general_lines_ok:
  assumes "sendable fmt6 p" "l \<in> set (general_lines fmt6 p)"
  shows "line_ok l \<and> l \<noteq> []"
  using assms
  by (auto simp: general_lines_def common_lines_def accepted_lines_def nat_lines_def sendable_def double_ok_def value_ok_def
      hline_ok number_lines_ok user_agent_ok [unfolded value_ok_def] nat_value_ok [unfolded value_ok_def] split: if_splits)

lemma apply_nat:
  assumes "NatType i \<noteq> RTSP_INVALID_NAT_TYPE" "LocalIp i \<noteq> 0" "LocalPort i \<noteq> 0"
  shows "apply_lines atof (hline RtspXNatInfoHeader (nat_value i) # ls) q =
    apply_lines atof ls (q\<lparr>m_RtspNatInfo := sent_nat i (m_RtspNatInfo q)\<rparr>)"
  using hline_value [of RtspXNatInfoHeader "nat_value i"] nat_loop_value [OF assms, of "m_RtspNatInfo q"] nat_value_ok [of i]
  by (simp add: hline_index parseRtspHeaderValue_def value_ok_trim parseNatInfo_def value_ok_def)

lemma apply_common:
  assumes "m_strRange p = [] \<or> value_ok (m_strRange p)"
  shows "apply_lines atof (common_lines p @ ls) q = apply_lines atof ls
    ((set_common (\<lambda>c. c\<lparr>SessionID := SessionID (m_RtspCommonInfo p), Cseq := Cseq (m_RtspCommonInfo p)\<rparr>) q)
       \<lparr>m_strRange := if m_strRange p = [] then m_strRange q else m_strRange p\<rparr>)"
  using assms by (cases "m_strRange p = []")
    (simp_all add: common_lines_def apply_numbers apply_values user_agent_ok set_common_def del: apply_lines.simps(2) One_nat_def)

lemma apply_accepted:
  assumes "double_ok fmt6 (m_dSpeed p)" "double_ok fmt6 (m_dScale p)"
  shows "apply_lines atof (accepted_lines fmt6 p @ ls) q = apply_lines atof ls
    (q\<lparr>m_dSpeed := sent_double atof fmt6 (m_dSpeed p) (m_dSpeed q), m_dScale := sent_double atof fmt6 (m_dScale p) (m_dScale q)\<rparr>)"
  using assms by (cases "double_is_zero (m_dSpeed p)"; cases "double_is_zero (m_dScale p)")
    (simp_all add: accepted_lines_def double_ok_def apply_values sent_double_def del: apply_lines.simps(2))

lemma apply_general:
  assumes "sendable fmt6 p"
  shows "apply_lines atof (general_lines fmt6 p @ ls) q = apply_lines atof ls (sent_general atof fmt6 p q)"
proof -
  have n: "apply_lines atof (nat_lines p @ ls) r = apply_lines atof ls (r\<lparr>m_RtspNatInfo := sent_nat (m_RtspNatInfo p) (m_RtspNatInfo r)\<rparr>)" for r
    using assms by (cases "NatType (m_RtspNatInfo p) = RTSP_INVALID_NAT_TYPE")
      (simp_all add: nat_lines_def apply_nat sendable_def sent_nat_def del: apply_lines.simps(2))
  have "m_strRange p = [] \<or> value_ok (m_strRange p)" "double_ok fmt6 (m_dSpeed p)" "double_ok fmt6 (m_dScale p)"
    using assms by (simp_all add: sendable_def)
  then show ?thesis
    by (simp add: general_lines_def apply_common apply_accepted n sent_general_def set_common_def)
qed

text \<open>The first line.\<close>

lemma str_find_after:
  assumes "str_find p a = None" "c \<notin> set p"
  shows "str_find p (a @ c # p @ s) = Some (length a + 1)"
  using assms
proof (induction a)
  case Nil
  then show ?case using str_find_append [of p s] by (cases p) (auto simp: starts_with_def)
next
  case (Cons x a)
  have "\<not> starts_with p (x # a @ c # p @ s)"
  proof
    assume st: "starts_with p (x # a @ c # p @ s)"
    show False
    proof (cases "length p \<le> length (x # a)")
      case True
      then have "starts_with p (x # a)" using st by (simp add: starts_with_def take_Cons split: nat.splits)
      then show False using Cons.prems by simp
    next
      case False
      then have "(x # a @ c # p @ s) ! length (x # a) \<in> set (take (length p) (x # a @ c # p @ s))"
        by (subst in_set_conv_nth) (rule exI [of _ "length (x # a)"], simp)
      then show False using st Cons.prems by (simp add: starts_with_def)
    qed
  qed
  then show ?case using Cons by (auto split: if_splits)
qed

lemma less_12: "i < 12 \<longleftrightarrow> i \<in> {0, 1, 2, 3, 4, 5, 6, 7, 8, 9, 10, 11 :: nat}"
  by (simp, presburger)

lemma method_index_line: "i < 12 \<Longrightarrow> method_index (m_strRtspMethods ! i @ r) = i"
  unfolding less_12
  by (elim insertE emptyE)
    (simp_all add: method_index_def first_index_def m_strRtspMethods_def RTSP_VERSION_def strncmp_eq_def c_str_def)

lemma method_line_ok: "i < 12 \<Longrightarrow> line_ok (m_strRtspMethods ! i) \<and> m_strRtspMethods ! i \<noteq> []"
proof -
  assume "i < 12"
  then have "m_strRtspMethods ! i \<in> set m_strRtspMethods" by (intro nth_mem) (simp add: m_strRtspMethods_def)
  moreover have "\<forall>m \<in> set m_strRtspMethods. line_ok m \<and> m \<noteq> []" by (simp add: m_strRtspMethods_def RTSP_VERSION_def)
  ultimately show ?thesis by blast
qed

definition url_ok :: "string \<Rightarrow> bool" where
  "url_ok url \<longleftrightarrow> value_ok url \<and> str_find RTSP_VERSION url = None \<and> length url < RTSP_MAX_URL_LENGTH"

definition request_line :: "nat \<Rightarrow> string \<Rightarrow> string" where
  "request_line i url = m_strRtspMethods ! i @ '' '' @ url @ '' '' @ RTSP_VERSION"

lemma parse_request_line:
  assumes "i < 11" "url_ok url"
  shows "parseRtspMethodLine (request_line i url) p =
    (0, set_common (\<lambda>c. c\<lparr>MethodIndex := of_nat i, RtspUrl := copy_url url (RtspUrl c)\<rparr>) p)"
proof -
  have u: "value_ok url" "str_find RTSP_VERSION url = None" "length url < 512" using assms(2) by (simp_all add: url_ok_def)
  have i: "method_index (request_line i url) = i"
    using method_index_line [of i] assms(1) by (simp add: request_line_def)
  have t: "trimString (url @ '' '' @ RTSP_VERSION) = url @ '' '' @ RTSP_VERSION"
    using u(1) by (intro trimString_id) (auto simp: value_ok_def RTSP_VERSION_def)
  have f: "str_find RTSP_VERSION (url @ '' '' @ RTSP_VERSION) = Some (length url + 1)"
    using str_find_after [OF u(2), of "CHR '' ''" "[]"] by (simp add: RTSP_VERSION_def)
  have "trimString (take (length url + 1) (url @ '' '' @ RTSP_VERSION)) = url"
    using u(1) by (simp add: trimString_space value_ok_trim)
  then show ?thesis
    using assms(1) u(3) t f i by (simp add: parseRtspMethodLine_def request_line_def Let_def set_common_def)
qed

definition status_line :: "nat \<Rightarrow> string" where
  "status_line k = RTSP_VERSION @ '' '' @ m_strRtspStatusCode ! k"

lemma less_7: "k < 7 \<longleftrightarrow> k \<in> {0, 1, 2, 3, 4, 5, 6 :: nat}"
  by (simp, presburger)

lemma parse_status_line:
  assumes "k < 7"
  shows "parseRtspMethodLine (status_line k) p =
    (0, set_common (\<lambda>c. c\<lparr>MethodIndex := of_nat RtspResponseMethod, StatusCodeIndex := of_nat k\<rparr>) p)"
  using assms unfolding less_7
  by (elim insertE emptyE)
    (simp_all add: parseRtspMethodLine_def status_line_def method_index_def first_index_def m_strRtspMethods_def RTSP_VERSION_def
      strncmp_eq_def c_str_def m_strRtspStatusCode_def trimString_def set_common_def)

lemma status_line_ok: "k < 7 \<Longrightarrow> line_ok (status_line k)"
  unfolding less_7 by (elim insertE emptyE) (simp_all add: status_line_def RTSP_VERSION_def m_strRtspStatusCode_def)

definition request_lines :: "(u64 \<Rightarrow> string) \<Rightarrow> CRtspPacket \<Rightarrow> string list" where
  "request_lines fmt6 p =
     (let i = unat (MethodIndex (m_RtspCommonInfo p))
      in general_lines fmt6 p @
         (if i = RtspSetParameterMethod \<and> m_strXPlayCtrl p \<noteq> [] then [hline RtspXPlayCtrl (m_strXPlayCtrl p)] else []) @
         (if i = RtspSetParameterMethod \<and> m_strXPlayInfo p \<noteq> [] then [hline RtspXPlayInfoHeader (m_strXPlayInfo p)] else []))"

lemma request_text:
  assumes "unat (MethodIndex (m_RtspCommonInfo p)) < 11" "getRtspUrl p = Some url"
  shows "generateRtspReq fmt6 p = Some (0, Some
    (request_line (unat (MethodIndex (m_RtspCommonInfo p))) url @ RTSP_END_LINE @ text_lines (request_lines fmt6 p) @ RTSP_END_LINE))"
proof -
  have "(generateCommonHeader p @ generateAcceptedHeader fmt6 p @ generateNatInfo p @ r) = text_lines (general_lines fmt6 p) @ r" for r
    using general_lines_text [of p fmt6] by (metis append.assoc)
  then show ?thesis
    using assms by (simp add: generateRtspReq_def getRtspUrl_def request_lines_def request_line_def header_line_hline Let_def)
qed

definition response_lines :: "(u64 \<Rightarrow> string) \<Rightarrow> CRtspPacket \<Rightarrow> string list" where
  "response_lines fmt6 p =
     general_lines fmt6 p @ (if m_strRtpInfo p \<noteq> [] then [hline RtspRtpInfoHeader (m_strRtpInfo p)] else [])"

lemma response_text:
  assumes "unat (StatusCodeIndex (m_RtspCommonInfo p)) < 7"
  shows "generateRtspResp fmt6 p = (0, Some
    (status_line (unat (StatusCodeIndex (m_RtspCommonInfo p))) @ RTSP_END_LINE @ text_lines (response_lines fmt6 p) @ RTSP_END_LINE))"
proof -
  have "(generateCommonHeader p @ generateAcceptedHeader fmt6 p @ generateNatInfo p @ r) = text_lines (general_lines fmt6 p) @ r" for r
    using general_lines_text [of p fmt6] by (metis append.assoc)
  then show ?thesis
    using assms by (simp add: generateRtspResp_def response_lines_def status_line_def header_line_hline Let_def)
qed

lemma url_read:
  assumes "url_ok url"
  shows "NUL \<in> set (copy_url url (replicate 512 NUL))" "c_str (copy_url url (replicate 512 NUL)) = url"
proof -
  have "length url < 512" "NUL \<notin> set url" using assms by (simp_all add: url_ok_def value_ok_def line_ok_def)
  then show "NUL \<in> set (copy_url url (replicate 512 NUL))" "c_str (copy_url url (replicate 512 NUL)) = url"
    by (simp_all add: copy_url_def c_str_append) (simp add: c_str_def)
qed

lemma sent_general_length [simp]: "m_ulContenLength (sent_general atof fmt6 p q) = m_ulContenLength q"
  by (simp add: sent_general_def set_common_def)

text \<open>
  C35.  A request that \<open>generateRtspReq\<close> writes is parsed back by a new packet: method, URL, session, sequence number, range
  and NAT information are those of the sender (source address and port only when both are non-zero); speed and scale, when they are not zero, are what \<open>atof\<close>
  reads from the six decimals they were printed with; and for SET_PARAMETER, the one method that carries it, the play
  information too.  The conditions: a request method; a URL shorter than its buffer, without line ends, outer spaces or \<open>RTSP/1.0\<close> in it; range, play control and
  play information empty or without line ends and outer spaces; speeds that print as such a value, which all but the infinities and NaNs do; and no NAT information
  or one with a local address and a local port other than 0 (zeros are written, but \<open>parse\<close> refuses them).
\<close>

theorem rtsp_request_roundtrip:
  assumes "sendable fmt6 p" "unat (MethodIndex (m_RtspCommonInfo p)) < 11" "getRtspUrl p = Some url" "url_ok url"
    and x: "m_strXPlayCtrl p = [] \<or> value_ok (m_strXPlayCtrl p)" "m_strXPlayInfo p = [] \<or> value_ok (m_strXPlayInfo p)"
  shows "\<exists>msg q. generateRtspReq fmt6 p = Some (0, Some msg) \<and> parse atof (Some msg) (length msg) CRtspPacket_new = (0, q) \<and>
    MethodIndex (m_RtspCommonInfo q) = MethodIndex (m_RtspCommonInfo p) \<and> getRtspUrl q = Some url \<and>
    SessionID (m_RtspCommonInfo q) = SessionID (m_RtspCommonInfo p) \<and> Cseq (m_RtspCommonInfo q) = Cseq (m_RtspCommonInfo p) \<and>
    m_strRange q = m_strRange p \<and> m_dSpeed q = sent_double atof fmt6 (m_dSpeed p) 0 \<and> m_dScale q = sent_double atof fmt6 (m_dScale p) 0 \<and>
    m_RtspNatInfo q = sent_nat (m_RtspNatInfo p) (m_RtspNatInfo CRtspPacket_new) \<and>
    m_strXPlayInfo q = (if MethodIndex (m_RtspCommonInfo p) = of_nat RtspSetParameterMethod then m_strXPlayInfo p else []) \<and>
    m_strContent q = []"
proof -
  let ?i = "unat (MethodIndex (m_RtspCommonInfo p))"
  let ?msg = "request_line ?i url @ RTSP_END_LINE @ text_lines (request_lines fmt6 p) @ RTSP_END_LINE"
  define p1 where "p1 = set_common (\<lambda>c. c\<lparr>MethodIndex := of_nat ?i, RtspUrl := copy_url url (RtspUrl c)\<rparr>) CRtspPacket_new"
  define q where "q = (sent_general atof fmt6 p p1)\<lparr>m_strXPlayInfo := if ?i = RtspSetParameterMethod then m_strXPlayInfo p else []\<rparr>"
  have new: "m_strXPlayInfo p1 = []" "m_ulContenLength p1 = 0" "m_strXPlayInfo (sent_general atof fmt6 p p1) = []"
    by (simp_all add: p1_def set_common_def CRtspPacket_new_def sent_general_def)
  have line: "line_ok (request_line ?i url)"
    using method_line_ok [of ?i] assms(2,4) by (simp add: request_line_def url_ok_def value_ok_def RTSP_VERSION_def)
  have lines: "line_ok l \<and> l \<noteq> []" if "l \<in> set (request_lines fmt6 p)" for l
    using that general_lines_ok [OF assms(1)] x
    by (auto simp: request_lines_def Let_def hline_ok value_ok_def split: if_splits)
  have "apply_lines atof (request_lines fmt6 p) p1 = (0, q)"
    using x new unfolding request_lines_def Let_def apply_general [OF assms(1)]
    by (auto simp: q_def apply_values simp del: apply_lines.simps(2))
  then have "parse atof (Some ?msg) (length ?msg) CRtspPacket_new = (0, q)"
    using new by (intro parse_lines [where ?p1.0 = p1] line lines) (simp_all add: parse_request_line [OF assms(2,4)] p1_def q_def)
  moreover have "generateRtspReq fmt6 p = Some (0, Some ?msg)" by (rule request_text [OF assms(2,3)])
  moreover have "MethodIndex (m_RtspCommonInfo p) = of_nat RtspSetParameterMethod \<longleftrightarrow> ?i = RtspSetParameterMethod"
    by (auto simp: word_unat_eq_iff)
  ultimately show ?thesis
    using url_read [OF assms(4)]
    by (intro exI [of _ ?msg] exI [of _ q])
      (simp add: q_def sent_general_def p1_def set_common_def CRtspPacket_new_def getRtspUrl_def url_c_str_def)
qed

definition sample_request :: CRtspPacket where
  "sample_request = CRtspPacket_new\<lparr>
     m_RtspCommonInfo := \<lparr>MethodIndex = 3, RtspUrl = ''rtsp://10.0.0.1/cam'' @ replicate 493 NUL, SessionID = 7, Cseq = 5, StatusCodeIndex = 7\<rparr>,
     m_strRange := ''npt=0-'', m_dSpeed := 0x3FF0000000000000,
     m_RtspNatInfo := \<lparr>NatType = RTSP_NAT_TYPE_RTP, LocalIp = 1, LocalPort = 5000, SrcIp = 0, SrcPort = 0\<rparr>\<rparr>"

definition sample_atof :: "string \<Rightarrow> u64" where
  "sample_atof s = (if s = ''1.000000'' then 0x3FF0000000000000 else 0)"

lemma sample_request_facts:
  "sendable (\<lambda>_. ''1.000000'') sample_request" "unat (MethodIndex (m_RtspCommonInfo sample_request)) < 11"
  "getRtspUrl sample_request = Some ''rtsp://10.0.0.1/cam''" "url_ok ''rtsp://10.0.0.1/cam''"
  "m_strXPlayCtrl sample_request = []" "m_strXPlayInfo sample_request = []"
  by (simp_all add: sample_request_def CRtspPacket_new_def sendable_def double_ok_def double_is_zero_def double2Str_def sample_atof_def value_ok_def
      getRtspUrl_def url_c_str_def c_str_def url_ok_def RTSP_VERSION_def starts_with_def)

theorem rtsp_request_roundtrip_witness:
  "\<exists>msg q. generateRtspReq (\<lambda>_. ''1.000000'') sample_request = Some (0, Some msg) \<and>
    parse sample_atof (Some msg) (length msg) CRtspPacket_new = (0, q) \<and> MethodIndex (m_RtspCommonInfo q) = 3 \<and>
    getRtspUrl q = Some ''rtsp://10.0.0.1/cam'' \<and> SessionID (m_RtspCommonInfo q) = 7 \<and> m_strRange q = ''npt=0-'' \<and>
    m_dSpeed q = 0x3FF0000000000000 \<and> LocalPort (m_RtspNatInfo q) = 5000"
proof -
  have f: "MethodIndex (m_RtspCommonInfo sample_request) = 3" "SessionID (m_RtspCommonInfo sample_request) = 7" "m_strRange sample_request = ''npt=0-''"
    "sent_double sample_atof (\<lambda>_. ''1.000000'') (m_dSpeed sample_request) 0 = 0x3FF0000000000000"
    "LocalPort (sent_nat (m_RtspNatInfo sample_request) i) = 5000" for i
    by (simp_all add: sample_request_def sent_double_def double_is_zero_def double2Str_def sample_atof_def sent_nat_def)
  from rtsp_request_roundtrip [OF sample_request_facts(1-4), where atof = sample_atof] sample_request_facts(5,6) show ?thesis
    unfolding f(1-4) by (metis f(5))
qed

text \<open>
  A response that the packet class writes is parsed back by it: status, session, sequence number, range, speed, scale,
  NAT information and RTP-Info are those of the sender.
\<close>

theorem rtsp_response_roundtrip:
  assumes "sendable fmt6 p" "unat (StatusCodeIndex (m_RtspCommonInfo p)) < 7"
    and x: "m_strRtpInfo p = [] \<or> value_ok (m_strRtpInfo p)"
  shows "\<exists>msg q. generateRtspResp fmt6 p = (0, Some msg) \<and> parse atof (Some msg) (length msg) CRtspPacket_new = (0, q) \<and>
    isResponse q \<and> StatusCodeIndex (m_RtspCommonInfo q) = StatusCodeIndex (m_RtspCommonInfo p) \<and>
    SessionID (m_RtspCommonInfo q) = SessionID (m_RtspCommonInfo p) \<and> Cseq (m_RtspCommonInfo q) = Cseq (m_RtspCommonInfo p) \<and>
    m_strRange q = m_strRange p \<and> m_dSpeed q = sent_double atof fmt6 (m_dSpeed p) 0 \<and> m_dScale q = sent_double atof fmt6 (m_dScale p) 0 \<and>
    m_RtspNatInfo q = sent_nat (m_RtspNatInfo p) (m_RtspNatInfo CRtspPacket_new) \<and> m_strRtpInfo q = m_strRtpInfo p"
proof -
  let ?k = "unat (StatusCodeIndex (m_RtspCommonInfo p))"
  let ?msg = "status_line ?k @ RTSP_END_LINE @ text_lines (response_lines fmt6 p) @ RTSP_END_LINE"
  define p1 where
    "p1 = set_common (\<lambda>c. c\<lparr>MethodIndex := of_nat RtspResponseMethod, StatusCodeIndex := of_nat ?k\<rparr>) CRtspPacket_new"
  define q where "q = (sent_general atof fmt6 p p1)\<lparr>m_strRtpInfo := m_strRtpInfo p\<rparr>"
  have new: "m_ulContenLength p1 = 0" "m_strRtpInfo (sent_general atof fmt6 p p1) = []"
    by (simp_all add: p1_def set_common_def CRtspPacket_new_def sent_general_def)
  have lines: "line_ok l \<and> l \<noteq> []" if "l \<in> set (response_lines fmt6 p)" for l
    using that general_lines_ok [OF assms(1)] x by (auto simp: response_lines_def hline_ok value_ok_def split: if_splits)
  have "apply_lines atof (response_lines fmt6 p) p1 = (0, q)"
    using x new unfolding response_lines_def apply_general [OF assms(1)]
    by (auto simp: q_def apply_values simp del: apply_lines.simps(2))
  then have "parse atof (Some ?msg) (length ?msg) CRtspPacket_new = (0, q)"
    using new by (intro parse_lines [where ?p1.0 = p1] status_line_ok [OF assms(2)] lines)
      (simp_all add: parse_status_line [OF assms(2)] p1_def q_def)
  then show ?thesis
    using response_text [OF assms(2)]
    by (intro exI [of _ ?msg] exI [of _ q])
      (simp add: q_def sent_general_def p1_def set_common_def CRtspPacket_new_def isResponse_def)
qed

definition sample_response :: CRtspPacket where
  "sample_response = sample_request\<lparr>
     m_RtspCommonInfo := (m_RtspCommonInfo sample_request)\<lparr>StatusCodeIndex := 4\<rparr>, m_strRtpInfo := ''url=a;seq=1''\<rparr>"

theorem rtsp_response_roundtrip_witness:
  "\<exists>msg q. generateRtspResp (\<lambda>_. ''1.000000'') sample_response = (0, Some msg) \<and>
    parse sample_atof (Some msg) (length msg) CRtspPacket_new = (0, q) \<and> StatusCodeIndex (m_RtspCommonInfo q) = 4 \<and>
    m_strRtpInfo q = ''url=a;seq=1''"
proof -
  have "sendable (\<lambda>_. ''1.000000'') sample_response"
    using sample_request_facts(1) by (simp add: sample_response_def sendable_def)
  from rtsp_response_roundtrip [OF this] show ?thesis
    by (fastforce simp: sample_response_def value_ok_def)
qed

section \<open>Framing of a byte stream\<close>

text \<open>
  C36.  The framing of a byte stream.  Let a message be any text that begins with the name of a method (or, for a response,
  of the protocol) and whose first empty line is its end.  When it stands at the front of the buffer, whatever
  bytes follow it, its length is found exactly and the buffer is not changed, provided that no \<open>Content-Length:\<close> or \<open>Content-length:\<close> stands
  anywhere in the buffer.  While it has not arrived completely, but with its method name and with less than 2048 bytes so far, the length is 0, which makes the caller
  wait for more.
\<close>

theorem rtsp_framing:
  assumes "i < RtspIllegalMethod" and msg: "msg = m_strRtspMethods ! i @ txt @ RTSP_END_MSG"
    and once: "\<forall>k < length msg - length RTSP_END_MSG. take (length RTSP_END_MSG) (drop k msg) \<noteq> RTSP_END_MSG"
    and absent: "str_find ''Content-Length:'' (msg @ rest) = None" "str_find ''Content-length:'' (msg @ rest) = None"
  shows "checkRtsp (msg @ rest) (length (msg @ rest)) unMsgLen = (0, of_nat (length msg), msg @ rest) \<and>
    (\<forall>n. length (m_strRtspMethods ! i) \<le> n \<and> n < length msg \<and> n < RTSP_MSG_LENGTH \<longrightarrow> checkRtsp (take n msg) n unMsgLen = (0, 0, take n msg))"
proof (intro conjI allI impI)
  let ?e = "length msg - length RTSP_END_MSG"
  have e: "length RTSP_END_MSG = 4" "?e + 4 = length msg"
    by (simp_all add: msg RTSP_END_MSG_def)
  have here: "starts_with RTSP_END_MSG (drop k (msg @ rest)) = (take 4 (drop k msg) = RTSP_END_MSG)" if "k + 4 \<le> length msg" for k
    using that by (simp add: starts_with_def e(1))
  have "take 4 (drop ?e msg) = RTSP_END_MSG"
    by (simp add: msg RTSP_END_MSG_def)
  then have "str_find RTSP_END_MSG (msg @ rest) = Some ?e"
    using here e once by (intro str_find_first) (auto simp: e(1) starts_with_append)
  moreover have "method_index (msg @ rest) = i"
    using method_index_line [OF assms(1)] by (simp add: msg)
  ultimately show "checkRtsp (msg @ rest) (length (msg @ rest)) unMsgLen = (0, of_nat (length msg), msg @ rest)"
    using absent assms(1) e by (simp add: checkRtsp_def)
next
  fix n assume n: "length (m_strRtspMethods ! i) \<le> n \<and> n < length msg \<and> n < RTSP_MSG_LENGTH"
  have e: "length RTSP_END_MSG = 4"
    by (simp add: RTSP_END_MSG_def)
  have "\<not> starts_with RTSP_END_MSG (drop k (take n msg))" for k
  proof
    assume s: "starts_with RTSP_END_MSG (drop k (take n msg))"
    then have t: "take 4 (drop k (take n msg)) = RTSP_END_MSG"
      by (simp add: starts_with_def e)
    then have "length (take 4 (drop k (take n msg))) = 4"
      by (simp only: e)
    then have k: "k + 4 \<le> n"
      using n by auto
    then have "take 4 (drop k msg) = RTSP_END_MSG"
      using t by (simp add: drop_take)
    then show False
      using once k n by (auto simp: e)
  qed
  then have f: "str_find RTSP_END_MSG (take n msg) = None"
    using str_find_None [of RTSP_END_MSG "take n msg"] by (simp add: RTSP_END_MSG_def)
  have "method_index (take n msg) = i"
    using method_index_line [OF assms(1)] n by (simp add: msg)
  then show "checkRtsp (take n msg) n unMsgLen = (0, 0, take n msg)"
    using f n assms(1) by (simp add: checkRtsp_def)
qed

text \<open>A SETUP request of a client, in two segments.\<close>

definition setup_request :: string where
  "setup_request = ''SETUP'' @ ('' rtsp://10.0.0.1/cam RTSP/1.0'' @ RTSP_END_LINE @ ''CSeq: 3'' @ RTSP_END_LINE @
     ''Transport: RTP/AVP/TCP;unicast;interleaved=0-1'') @ RTSP_END_MSG"

theorem rtsp_framing_witness:
  "checkRtsp (setup_request @ ''PLAY'') (length (setup_request @ ''PLAY'')) 0 = (0, of_nat (length setup_request), setup_request @ ''PLAY'') \<and>
   checkRtsp (take 20 setup_request) 20 0 = (0, 0, take 20 setup_request)"
proof -
  have m: "setup_request = m_strRtspMethods ! 1 @ ('' rtsp://10.0.0.1/cam RTSP/1.0'' @ RTSP_END_LINE @ ''CSeq: 3'' @ RTSP_END_LINE @
      ''Transport: RTP/AVP/TCP;unicast;interleaved=0-1'') @ RTSP_END_MSG"
    by (simp add: setup_request_def m_strRtspMethods_def)
  have l: "length setup_request = 95"
    by (simp add: setup_request_def RTSP_END_LINE_def RTSP_END_MSG_def)
  have "str_find RTSP_END_MSG setup_request = Some 91"
    by (simp add: setup_request_def RTSP_END_LINE_def RTSP_END_MSG_def starts_with_def)
  from str_find_before [OF this]
  have "\<forall>k < length setup_request - length RTSP_END_MSG. take (length RTSP_END_MSG) (drop k setup_request) \<noteq> RTSP_END_MSG"
    by (simp add: l RTSP_END_MSG_def starts_with_def)
  moreover have "str_find ''Content-Length:'' (setup_request @ ''PLAY'') = None" "str_find ''Content-length:'' (setup_request @ ''PLAY'') = None"
    by (simp_all add: setup_request_def RTSP_END_LINE_def RTSP_END_MSG_def starts_with_def)
  ultimately have "checkRtsp (setup_request @ ''PLAY'') (length (setup_request @ ''PLAY'')) 0 = (0, of_nat (length setup_request), setup_request @ ''PLAY'') \<and>
    (\<forall>n. length (m_strRtspMethods ! 1) \<le> n \<and> n < length setup_request \<and> n < RTSP_MSG_LENGTH \<longrightarrow>
      checkRtsp (take n setup_request) n 0 = (0, 0, take n setup_request))"
    by (intro rtsp_framing [OF _ m]) simp_all
  then show ?thesis
    by (simp add: l m_strRtspMethods_def)
qed

text \<open>A first segment that ends inside the method is refused, not kept until the rest arrives.\<close>

lemma short_segment_refused: "checkRtsp ''OPTI'' 4 unMsgLen = (- 1, unMsgLen, ''OPTI'')"
  by (simp add: checkRtsp_def method_index_def first_index_def m_strRtspMethods_def RTSP_VERSION_def strncmp_eq_def c_str_def)

text \<open>
  The Content-Length of a following message is added to the length of the one in front, so that the two are taken for
  one message.
\<close>

lemma pipelined_length:
  "checkRtsp (''OPTIONS * RTSP/1.0'' @ [CR, LF, CR, LF] @ ''ANNOUNCE * RTSP/1.0'' @ [CR, LF] @ ''Content-Length: 9'' @ [CR, LF, CR, LF] @ ''v=0123456'')
     74 unMsgLen =
   (0, 31, ''OPTIONS * RTSP/1.0'' @ [CR, LF, CR, LF] @ ''ANNOUNCE * RTSP/1.0'' @ [CR, LF] @ ''Content-Length: 9'' @ [CR, LF, CR, LF] @ ''v=0123456'')"
  by code_simp

text \<open>Row 8 of the header table is Content-Type, which the enumeration takes for RTP-Info.\<close>

lemma content_type_is_rtp_info:
  assumes "value_ok v"
  shows "apply_lines atof [''Content-Type:'' @ v] p = (0, p\<lparr>m_strRtpInfo := v\<rparr>)"
    "apply_lines atof [''RTP-Info:'' @ v] p = (0, p\<lparr>m_strContentType := v\<rparr>)"
proof -
  have h: "''Content-Type:'' @ v = hline RtspRtpInfoHeader v" "''RTP-Info:'' @ v = hline RtspContentType v"
    by (simp_all add: hline_def m_strRtspHeaders_def)
  show "apply_lines atof [''Content-Type:'' @ v] p = (0, p\<lparr>m_strRtpInfo := v\<rparr>)"
    unfolding h using apply_values(7) [OF assms, of atof "[]" p] by simp
  show "apply_lines atof [''RTP-Info:'' @ v] p = (0, p\<lparr>m_strContentType := v\<rparr>)"
    unfolding h using hline_value [of RtspContentType v] assms
    by (simp add: hline_index parseRtspHeaderValue_def value_ok_trim value_ok_def)
qed

section \<open>Ranges\<close>

lemma npt_parts:
  defines "a \<equiv> \<lambda>t :: u32. if t = 0 then ''now'' else dec (unat t)" and "b \<equiv> \<lambda>t :: u32. if t \<noteq> 0 then dec (unat t) else []"
  shows "CHR ''c'' \<notin> set (a t)" "CHR ''c'' \<notin> set (b t)" "CHR ''-'' \<notin> set (a t)" "CHR '' '' \<notin> set (a t)" "CHR '' '' \<notin> set (b t)"
    "atoi (a t @ CHR ''-'' # s) = t" "b t \<noteq> [] \<longleftrightarrow> t \<noteq> 0" "t \<noteq> 0 \<Longrightarrow> atoi (b t) = t"
proof -
  have lt: "unat t < 2 ^ 32" using unsigned_less [of t] by simp
  have "CHR ''c'' \<notin> set (dec n)" "CHR ''-'' \<notin> set (dec n)" for n using dec_char by fastforce+
  then show "CHR ''c'' \<notin> set (a t)" "CHR ''c'' \<notin> set (b t)" "CHR ''-'' \<notin> set (a t)" "CHR '' '' \<notin> set (a t)" "CHR '' '' \<notin> set (b t)"
    by (simp_all add: a_def b_def dec_special)
  show "atoi (a t @ CHR ''-'' # s) = t"
  proof (cases "t = 0")
    case True
    then show ?thesis by (simp add: a_def atoi_def c_str_def c_isspace_def take_sign_def digit_val_def is_digit_def)
  next
    case False
    have "atoi (dec (unat t) @ CHR ''-'' # s) = of_nat (unat t)"
      using lt by (intro atoi_dec) (simp_all add: is_digit_def digit_val_def)
    then show ?thesis using False by (simp add: a_def)
  qed
  show "b t \<noteq> [] \<longleftrightarrow> t \<noteq> 0" by (simp add: b_def)
  show "atoi (b t) = t" if "t \<noteq> 0" using that atoi_dec [of "unat t" "[]"] lt by (simp add: b_def)
qed

text \<open>
  A range that was set is read back with the same kind, start and stop, for a relative range always and for an
  absolute one where the calendar functions read a printed time back.
\<close>

theorem rtsp_range_roundtrip:
  assumes clock: "unTimeType = RANGE_ABSOLUTE \<Longrightarrow> (\<forall>t \<in> {start, stop}. length (print_clock t) \<le> 31 \<and> print_clock t \<noteq> [] \<and>
      (\<forall>c \<in> set (print_clock t). c \<noteq> CHR ''-'' \<and> c \<noteq> CHR '' '') \<and> (\<forall>s. clock_of (print_clock t @ s) = Some t))"
  shows "getRangeTime clock_of (setRangeTime print_clock unTimeType start stop p) t0 =
    (0, if unTimeType = RANGE_ABSOLUTE then RANGE_ABSOLUTE else RANGE_RELATIVE, start, stop)"
proof (cases "unTimeType = RANGE_ABSOLUTE")
  case True
  define a where "a = print_clock start"
  define b where "b = (if stop \<noteq> 0 then print_clock stop else [])"
  have good: "length (print_clock t) \<le> 31" "print_clock t \<noteq> []" "CHR ''-'' \<notin> set (print_clock t)" "CHR '' '' \<notin> set (print_clock t)"
    "clock_of (print_clock t @ s) = Some t" if "t \<in> {start, stop}" for t s
    using bspec [OF clock [OF True] that] by (blast+)
  have ok: "CHR ''-'' \<notin> set a" "CHR '' '' \<notin> set a" "CHR '' '' \<notin> set b" "clock_of (a @ s) = Some start"
    "stop \<noteq> 0 \<Longrightarrow> clock_of b = Some stop" "b = [] \<longleftrightarrow> stop = 0" for s
    using good [of start] good [of stop] good(5) [of stop "[]"] by (simp_all add: a_def b_def)
  have r: "m_strRange (setRangeTime print_clock unTimeType start stop p) = ''clock='' @ a @ ''-'' @ b"
    using good(1) [of start] good(1) [of stop] True by (simp add: setRangeTime_def a_def b_def)
  have f: "str_find ''clock='' (''clock='' @ a @ ''-'' @ b) = Some 0"
    "str_find ''-'' (''clock='' @ a @ ''-'' @ b) = Some (6 + length a)"
    using str_find_append [of "''clock=''"] str_find_at [of "CHR ''-''" "''clock='' @ a" "[]" b] ok(1) by simp_all
  have "trimString (take (6 + length a) (drop (length ''clock='') (''clock='' @ a @ ''-'' @ b))) = a @ take 6 (''-'' @ b)"
    using ok(2,3) by (subst trim_plain) (auto dest: in_set_takeD)
  moreover have "trimString (drop (6 + length a + 1) (''clock='' @ a @ ''-'' @ b)) = b"
    using ok(3) by (subst trim_plain) (simp_all add: numeral_eq_Suc)
  ultimately show ?thesis
    using True ok(4-6) unfolding getRangeTime_def r Let_def f option.case drop_0 by simp
next
  case False
  define a where "a = (if start = 0 then ''now'' else dec (unat start))"
  define b where "b = (if stop \<noteq> 0 then dec (unat stop) else [])"
  have ok: "CHR ''c'' \<notin> set a" "CHR ''c'' \<notin> set b" "CHR ''-'' \<notin> set a" "CHR '' '' \<notin> set a" "CHR '' '' \<notin> set b"
    "atoi (a @ CHR ''-'' # s) = start" "b = [] \<longleftrightarrow> stop = 0" "stop \<noteq> 0 \<Longrightarrow> atoi b = stop" for s
    using npt_parts(1,3,4,6) [of start] npt_parts(2,5,7,8) [of stop] by (auto simp: a_def b_def)
  have r: "m_strRange (setRangeTime print_clock unTimeType start stop p) = ''npt='' @ a @ ''-'' @ b"
    using False by (simp add: setRangeTime_def a_def b_def)
  have f: "str_find ''clock='' (''npt='' @ a @ ''-'' @ b) = None" "str_find ''npt='' (''npt='' @ a @ ''-'' @ b) = Some 0"
    "str_find ''-'' (''npt='' @ a @ ''-'' @ b) = Some (4 + length a)"
    using str_find_append [of "''npt=''"] str_find_at [of "CHR ''-''" "''npt='' @ a" "[]" b] ok(1-3)
      str_find_absent [of "CHR ''c''" "''npt='' @ a @ ''-'' @ b" "''lock=''"] by simp_all
  have "trimString (take (4 + length a) (drop (length ''npt='') (''npt='' @ a @ ''-'' @ b))) = a @ CHR ''-'' # take 3 b"
    using ok(4,5) by (subst trim_plain) (auto dest: in_set_takeD)
  moreover have "trimString (drop (4 + length a + 1) (''npt='' @ a @ ''-'' @ b)) = b"
    using ok(5) by (subst trim_plain) (simp_all add: numeral_eq_Suc)
  ultimately show ?thesis
    using False ok(6-8) unfolding getRangeTime_def r Let_def f option.case drop_0 by simp
qed

theorem rtsp_range_roundtrip_witness:
  "getRangeTime (\<lambda>s. None) (setRangeTime (\<lambda>_. []) RANGE_RELATIVE 0 30 CRtspPacket_new) (0, 0, 0) = (0, RANGE_RELATIVE, 0, 30) \<and>
   getRangeTime (\<lambda>s. Some 7) (setRangeTime (\<lambda>_. ''20150101T000007'') RANGE_ABSOLUTE 7 7 CRtspPacket_new) (0, 0, 0) = (0, RANGE_ABSOLUTE, 7, 7)"
  using rtsp_range_roundtrip [of RANGE_RELATIVE 0 30 "\<lambda>_. []" "\<lambda>s. None" CRtspPacket_new "(0, 0, 0)"]
    rtsp_range_roundtrip [of RANGE_ABSOLUTE 7 7 "\<lambda>_. ''20150101T000007''" "\<lambda>s. Some 7" CRtspPacket_new "(0, 0, 0)"]
  by simp

end
