(* ===== verification/MediaSdp.thy ===== *)
theory MediaSdp
  imports CStr StreamSession
begin

text \<open>
  \<open>svs_adapter_sdp.cpp\<close>: the session descriptions that the stream unit reads from cameras and clients and writes for
  them.  The pointer \<open>pMediaInfo\<close> of the parser, which points to an element of one of the two media lists, is the list
  and the position of the element in it.  The zone and server identifiers that the SSRC is made of are the memory
  they stand in.
\<close>

section \<open>Data\<close>

abbreviation (input) RTSP_END_TAG :: string where "RTSP_END_TAG \<equiv> [CR, LF]"

definition STR_SDP_RTPMAP :: string where "STR_SDP_RTPMAP = ''rtpmap:''"
definition STR_SDP_FMTP :: string where "STR_SDP_FMTP = ''fmtp:''"
definition STR_SDP_CONTROL_ATTR :: string where "STR_SDP_CONTROL_ATTR = ''control:''"
definition STR_SDP_RECVONLY_ATTR :: string where "STR_SDP_RECVONLY_ATTR = ''recvonly''"
definition STR_SDP_SENDONLY_ATTR :: string where "STR_SDP_SENDONLY_ATTR = ''sendonly''"
definition STR_SDP_SENDRECV_ATTR :: string where "STR_SDP_SENDRECV_ATTR = ''sendrecv''"

record SDP_MEDIA_INFO =
  ucPayloadType :: u8
  usPort :: u16
  strRtpmap :: string
  strFmtp :: string
  strControl :: string

datatype SDP_STATUS = SDP_GLOBAL_INFO | SDP_VIDEO_INFO | SDP_AUDIO_INFO

record CMediaSdp =
  m_unSession :: u32
  m_strOwner :: string
  m_strSessionName :: string
  m_strUrl :: string
  m_strConnAddr :: string
  m_range :: string
  m_strSsrc :: string
  m_bSetFormat :: bool
  m_str28181Format :: string
  m_enTransDirect :: TRANS_DIRECTION
  m_VideoInfoList :: "SDP_MEDIA_INFO list"
  m_AudioInfoList :: "SDP_MEDIA_INFO list"
  m_enParseStatus :: SDP_STATUS

definition CMediaSdp_new :: CMediaSdp where
  "CMediaSdp_new =
     \<lparr> m_unSession = 0, m_strOwner = ''vds'', m_strSessionName = ''allcamera media server'', m_strUrl = [],
       m_strConnAddr = ''vds.allcam.com.cn'', m_range = [], m_strSsrc = [], m_bSetFormat = False, m_str28181Format = [],
       m_enTransDirect = TRANS_DIRECTION_MAX, m_VideoInfoList = [], m_AudioInfoList = [], m_enParseStatus = SDP_GLOBAL_INFO \<rparr>"

section \<open>Media of a description\<close>

definition setUrl :: "string \<Rightarrow> CMediaSdp \<Rightarrow> CMediaSdp" where
  "setUrl strUrl sdp = sdp\<lparr>m_strUrl := strUrl\<rparr>"

definition setRange :: "string \<Rightarrow> CMediaSdp \<Rightarrow> CMediaSdp" where
  "setRange strRange sdp = sdp\<lparr>m_range := strRange\<rparr>"

definition setSessionName :: "string \<Rightarrow> CMediaSdp \<Rightarrow> CMediaSdp" where
  "setSessionName strSessionName sdp = sdp\<lparr>m_strSessionName := strSessionName\<rparr>"

definition setConnAddr :: "string \<Rightarrow> CMediaSdp \<Rightarrow> CMediaSdp" where
  "setConnAddr strConnAddr sdp = sdp\<lparr>m_strConnAddr := strConnAddr\<rparr>"

definition setTransDirect :: "TRANS_DIRECTION \<Rightarrow> CMediaSdp \<Rightarrow> CMediaSdp" where
  "setTransDirect enTransDirect sdp = sdp\<lparr>m_enTransDirect := enTransDirect\<rparr>"

definition setSsrc :: "string \<Rightarrow> CMediaSdp \<Rightarrow> CMediaSdp" where
  "setSsrc strSsrc sdp = sdp\<lparr>m_strSsrc := strSsrc\<rparr>"

definition setGB28181Format :: "string \<Rightarrow> CMediaSdp \<Rightarrow> CMediaSdp" where
  "setGB28181Format strFormat sdp = sdp\<lparr>m_str28181Format := strFormat, m_bSetFormat := True\<rparr>"

definition setOwner :: "string \<Rightarrow> CMediaSdp \<Rightarrow> CMediaSdp" where
  "setOwner strOwner sdp = sdp\<lparr>m_strOwner := strOwner\<rparr>"

definition addVideoInfo :: "SDP_MEDIA_INFO \<Rightarrow> CMediaSdp \<Rightarrow> CMediaSdp" where
  "addVideoInfo info sdp =
     sdp\<lparr>m_VideoInfoList := m_VideoInfoList sdp @
       [if strRtpmap info \<noteq> [] then info
        else info\<lparr>strRtpmap :=
          if ucPayloadType info = 26 then ''JPEG/90000''
          else if ucPayloadType info = 96 then ''PS/90000''
          else if ucPayloadType info = 97 then ''MP4V-ES/90000''
          else if ucPayloadType info = 98 then ''H264/90000''
          else if ucPayloadType info = 99 then ''H265/90000''
          else ''H264/90000''\<rparr>]\<rparr>"

definition addAudioInfo :: "SDP_MEDIA_INFO \<Rightarrow> CMediaSdp \<Rightarrow> CMediaSdp" where
  "addAudioInfo info sdp =
     sdp\<lparr>m_AudioInfoList := m_AudioInfoList sdp @
       [if strRtpmap info \<noteq> [] then info
        else info\<lparr>strRtpmap :=
          if ucPayloadType info = 0 then ''PCMU/8000''
          else if ucPayloadType info = 8 then ''PCMA/8000''
          else []\<rparr>]\<rparr>"

text \<open>\<open>copy\<close> appends the media of the other description.\<close>

definition sdp_copy :: "CMediaSdp \<Rightarrow> CMediaSdp \<Rightarrow> CMediaSdp" where
  "sdp_copy rtspSdp sdp =
     sdp\<lparr>m_strUrl := m_strUrl rtspSdp, m_range := m_range rtspSdp, m_strSessionName := m_strSessionName rtspSdp,
       m_strConnAddr := m_strConnAddr rtspSdp, m_VideoInfoList := m_VideoInfoList sdp @ m_VideoInfoList rtspSdp,
       m_AudioInfoList := m_AudioInfoList sdp @ m_AudioInfoList rtspSdp, m_enParseStatus := SDP_GLOBAL_INFO\<rparr>"

text \<open>\<open>makeRtpmap\<close>: the text is kept where the payload type is not known; the clock rate is printed as a signed number.\<close>

definition makeRtpmap :: "string \<Rightarrow> u8 \<Rightarrow> u32 \<Rightarrow> string" where
  "makeRtpmap strMap ucPT ulClockFre =
     (let rate = (if sint ulClockFre < 0 then CHR ''-'' # dec (nat (- sint ulClockFre)) else dec (nat (sint ulClockFre)));
          entry = (\<lambda>strName. strName @ ''/'' @ rate)
      in if ucPT = 0 then entry ''PCMU''
         else if ucPT = 8 then entry ''PCMA''
         else if ucPT = 100 then entry ''MPEG4-GENERIC''
         else if ucPT = 26 then entry ''JPEG''
         else if ucPT = 97 then entry ''MP4V-ES''
         else if ucPT = 98 then entry ''H264''
         else if ucPT = 99 then entry ''H265''
         else strMap)"

text \<open>
  \<open>setSsrcByGB28181Dev\<close>: an array of eleven zero characters is filled.  \<open>%04d\<close> of a number below 256 is two zeros or
  its hundreds behind a zero, and then two more digits, for which \<open>snprintf\<close> has no room.
\<close>

definition setSsrcByGB28181Dev :: "(string \<times> string) option \<Rightarrow> PLAY_TYPE \<Rightarrow> u32 \<Rightarrow> CMediaSdp \<Rightarrow> CMediaSdp" where
  "setSsrcByGB28181Dev pConnect enPlayType ulIndex sdp =
     (case pConnect of
        None \<Rightarrow> sdp
      | Some (pszZoneID, pszServiceID) \<Rightarrow>
          let kind = (case enPlayType of PLAY_TYPE_LIVE \<Rightarrow> CHR ''0'' | PLAY_TYPE_FRONT_RECORD \<Rightarrow> CHR ''1'' | _ \<Rightarrow> NUL);
              num = unat (ulIndex AND 0xFF);
              digits = replicate (4 - length (dec num)) (CHR ''0'') @ dec num
          in sdp\<lparr>m_strSsrc := c_str (kind # take 5 (drop 3 pszZoneID) @ take 2 (drop 18 pszServiceID) @ take 2 digits)\<rparr>)"

section \<open>Decoding\<close>

definition jump_space :: "string \<Rightarrow> string" where
  "jump_space s = dropWhile c_isspace s"

definition strsep :: "string \<Rightarrow> string \<times> string option" where
  "strsep s = (case str_find '' '' s of None \<Rightarrow> (s, None) | Some n \<Rightarrow> (take n s, Some (drop (n + 1) s)))"

definition is_break :: "char \<Rightarrow> bool" where
  "is_break c \<longleftrightarrow> c = NUL \<or> c = LF \<or> c = CR"

text \<open>The next line and the position behind it; a line that the end of the text ends is dropped.\<close>

definition getNextLine :: "string \<Rightarrow> nat \<Rightarrow> (string \<times> nat) option" where
  "getNextLine strSdpMsg nNextStart =
     (let nLen = length (takeWhile (\<lambda>c. \<not> is_break c) (drop nNextStart strSdpMsg))
      in if length strSdpMsg \<le> nNextStart + nLen then None
         else Some (take nLen (drop nNextStart strSdpMsg), nNextStart + nLen + 1))"

definition parseConnDesc :: "string \<Rightarrow> CMediaSdp \<Rightarrow> retcode \<times> CMediaSdp" where
  "parseConnDesc pszBuff sdp =
     (case snd (strsep pszBuff) of
        None \<Rightarrow> (RET_FAIL, sdp)
      | Some b1 \<Rightarrow>
          (case snd (strsep (jump_space b1)) of
             None \<Rightarrow> (RET_FAIL, sdp)
           | Some b2 \<Rightarrow> (RET_OK, sdp\<lparr>m_strConnAddr := jump_space b2\<rparr>)))"

type_synonym media_ptr = "(SDP_STATUS \<times> nat) option"

definition parseMediaDesc :: "string \<Rightarrow> media_ptr \<Rightarrow> CMediaSdp \<Rightarrow> retcode \<times> media_ptr \<times> CMediaSdp" where
  "parseMediaDesc pszBuff pMediaInfo sdp =
     (let cType = (case pszBuff of [] \<Rightarrow> NUL | c # _ \<Rightarrow> c_tolower c)
      in if cType \<noteq> CHR ''v'' \<and> cType \<noteq> CHR ''a'' then (RET_OK, pMediaInfo, sdp\<lparr>m_enParseStatus := SDP_GLOBAL_INFO\<rparr>)
         else
           case snd (strsep pszBuff) of
             None \<Rightarrow> (RET_FAIL, pMediaInfo, sdp)
           | Some b1 \<Rightarrow>
               (case snd (strsep (jump_space b1)) of
                  None \<Rightarrow> (RET_FAIL, pMediaInfo, sdp)
                | Some b2 \<Rightarrow>
                    (case snd (strsep (jump_space b2)) of
                       None \<Rightarrow> (RET_FAIL, pMediaInfo, sdp)
                     | Some b3 \<Rightarrow>
                         if jump_space b3 = [] then (RET_FAIL, pMediaInfo, sdp)
                         else
                           let stMediaInfo = \<lparr> ucPayloadType = ucast (atoi (jump_space b3)), usPort = 0, strRtpmap = [],
                                 strFmtp = [], strControl = [] \<rparr>
                           in if cType = CHR ''v''
                              then (RET_OK, Some (SDP_VIDEO_INFO, length (m_VideoInfoList sdp)),
                                    sdp\<lparr>m_enParseStatus := SDP_VIDEO_INFO, m_VideoInfoList := m_VideoInfoList sdp @ [stMediaInfo]\<rparr>)
                              else (RET_OK, Some (SDP_AUDIO_INFO, length (m_AudioInfoList sdp)),
                                    sdp\<lparr>m_enParseStatus := SDP_AUDIO_INFO, m_AudioInfoList := m_AudioInfoList sdp @ [stMediaInfo]\<rparr>))))"

text \<open>A change of the element that \<open>pMediaInfo\<close> points to.\<close>

definition update_media :: "SDP_STATUS \<times> nat \<Rightarrow> (SDP_MEDIA_INFO \<Rightarrow> SDP_MEDIA_INFO) \<Rightarrow> CMediaSdp \<Rightarrow> CMediaSdp" where
  "update_media ptr f sdp =
     (case ptr of (kind, i) \<Rightarrow>
        if kind = SDP_VIDEO_INFO then sdp\<lparr>m_VideoInfoList := (m_VideoInfoList sdp)[i := f (m_VideoInfoList sdp ! i)]\<rparr>
        else sdp\<lparr>m_AudioInfoList := (m_AudioInfoList sdp)[i := f (m_AudioInfoList sdp ! i)]\<rparr>)"

text \<open>\<open>strlen (psz) > attr.length ()\<close> and \<open>strncmp (psz, attr, attr.length ()) == 0\<close>.\<close>

definition has_attr :: "string \<Rightarrow> string \<Rightarrow> bool" where
  "has_attr attr psz \<longleftrightarrow> length attr < length psz \<and> strncmp_eq psz attr (length attr)"

definition parseAttributes :: "string \<Rightarrow> media_ptr \<Rightarrow> CMediaSdp \<Rightarrow> retcode \<times> CMediaSdp" where
  "parseAttributes pszBuff pMediaInfo sdp =
     (case pMediaInfo of
        None \<Rightarrow> (RET_FAIL, sdp)
      | Some ptr \<Rightarrow>
          if m_enParseStatus sdp = SDP_GLOBAL_INFO
          then if has_attr STR_SDP_CONTROL_ATTR pszBuff
               then (RET_OK, sdp\<lparr>m_strUrl := drop (length STR_SDP_CONTROL_ATTR) pszBuff\<rparr>)
               else (RET_OK, sdp)
          else if has_attr STR_SDP_RTPMAP pszBuff
          then (case snd (strsep pszBuff) of
                  None \<Rightarrow> (RET_FAIL, sdp)
                | Some rest \<Rightarrow> (RET_OK, update_media ptr (\<lambda>m. m\<lparr>strRtpmap := rest\<rparr>) sdp))
          else if has_attr STR_SDP_FMTP pszBuff
          then (case snd (strsep pszBuff) of
                  None \<Rightarrow> (RET_FAIL, sdp)
                | Some rest \<Rightarrow> (RET_OK, update_media ptr (\<lambda>m. m\<lparr>strFmtp := rest\<rparr>) sdp))
          else if has_attr STR_SDP_CONTROL_ATTR pszBuff
          then (RET_OK, update_media ptr (\<lambda>m. m\<lparr>strControl := drop (length STR_SDP_CONTROL_ATTR) pszBuff\<rparr>) sdp)
          else if strncmp_eq pszBuff ''range'' 5 then (RET_OK, sdp\<lparr>m_range := pszBuff\<rparr>)
          else if length STR_SDP_RECVONLY_ATTR < length pszBuff
          then if strncmp_eq pszBuff STR_SDP_RECVONLY_ATTR (length STR_SDP_RECVONLY_ATTR)
               then (RET_OK, sdp\<lparr>m_enTransDirect := TRANS_DIRECTION_RECVONLY\<rparr>)
               else if strncmp_eq pszBuff STR_SDP_SENDONLY_ATTR (length STR_SDP_SENDONLY_ATTR)
               then (RET_OK, sdp\<lparr>m_enTransDirect := TRANS_DIRECTION_SENDONLY\<rparr>)
               else if strncmp_eq pszBuff STR_SDP_SENDRECV_ATTR (length STR_SDP_SENDRECV_ATTR)
               then (RET_OK, sdp\<lparr>m_enTransDirect := TRANS_DIRECTION_SENDRECV\<rparr>)
               else (RET_OK, sdp)
          else (RET_OK, sdp))"

text \<open>
  One line: the code of \<open>nRet\<close>, \<open>bFirst\<close>, \<open>pMediaInfo\<close> and the description.  A failing line ends the loop, and then
  \<open>decodeSdp\<close> returns RET_FAIL, as it does where it leaves the loop at once.
\<close>

definition sdp_line :: "string \<Rightarrow> bool \<Rightarrow> media_ptr \<Rightarrow> CMediaSdp \<Rightarrow> retcode \<times> bool \<times> media_ptr \<times> CMediaSdp" where
  "sdp_line strBuff bFirst pMediaInfo sdp =
     (case jump_space strBuff of
        [] \<Rightarrow> (RET_OK, bFirst, pMediaInfo, sdp)
      | cCode # pszTmp \<Rightarrow>
          (case jump_space pszTmp of
             [] \<Rightarrow> (RET_FAIL, bFirst, pMediaInfo, sdp)
           | c # pszRest \<Rightarrow>
               if c \<noteq> CHR ''='' then (RET_FAIL, bFirst, pMediaInfo, sdp)
               else if c_tolower cCode \<noteq> CHR ''v'' \<and> bFirst then (RET_FAIL, bFirst, pMediaInfo, sdp)
               else
                 let psz = jump_space pszRest; code = c_tolower cCode
                 in if code = CHR ''s'' then (RET_OK, False, pMediaInfo, sdp\<lparr>m_strSessionName := psz\<rparr>)
                    else if code = CHR ''c'' then (case parseConnDesc psz sdp of (r, sdp') \<Rightarrow> (r, False, pMediaInfo, sdp'))
                    else if code = CHR ''m'' then (case parseMediaDesc psz pMediaInfo sdp of (r, p', sdp') \<Rightarrow> (r, False, p', sdp'))
                    else if code = CHR ''a'' then (case parseAttributes psz pMediaInfo sdp of (r, sdp') \<Rightarrow> (r, False, pMediaInfo, sdp'))
                    else if code = CHR ''u'' then (RET_OK, False, pMediaInfo, sdp\<lparr>m_strUrl := psz\<rparr>)
                    else (RET_OK, False, pMediaInfo, sdp)))"

function sdp_loop :: "string \<Rightarrow> nat \<Rightarrow> bool \<Rightarrow> media_ptr \<Rightarrow> CMediaSdp \<Rightarrow> retcode \<times> CMediaSdp" where
  "sdp_loop strSdp nNextStart bFirst pMediaInfo sdp =
     (case getNextLine strSdp nNextStart of
        None \<Rightarrow> (RET_OK, sdp)
      | Some (strBuff, next') \<Rightarrow>
          (case sdp_line strBuff bFirst pMediaInfo sdp of
             (r, first', p', sdp') \<Rightarrow>
               if r \<noteq> RET_OK then (r, sdp') else sdp_loop strSdp next' first' p' sdp'))"
  by auto
termination
  by (relation "measure (\<lambda>(s, n, _). length s - n)") (auto simp: getNextLine_def Let_def split: if_splits)

declare sdp_loop.simps [simp del]

definition decodeSdp :: "string \<Rightarrow> CMediaSdp \<Rightarrow> retcode \<times> CMediaSdp" where
  "decodeSdp strSdp sdp =
     (if strSdp = [] then (RET_FAIL, sdp)
      else case sdp_loop strSdp 0 True None sdp of
             (nRet, sdp') \<Rightarrow>
               if m_VideoInfoList sdp' = [] \<and> m_AudioInfoList sdp' = [] then (RET_FAIL, sdp') else (nRet, sdp'))"

section \<open>Encoding\<close>

definition encodeMediaDesc :: "SDP_STATUS \<Rightarrow> CMediaSdp \<Rightarrow> string" where
  "encodeMediaDesc unStatus sdp =
     (let l = (if unStatus = SDP_VIDEO_INFO then m_VideoInfoList sdp else m_AudioInfoList sdp)
      in (if unStatus = SDP_VIDEO_INFO then ''m=video '' else ''m=audio '') @ dec (unat (usPort (hd l))) @ '' '' @
         ''RTP'' @ ''/'' @ ''AVP'' @ concat (map (\<lambda>m. '' '' @ dec (unat (ucPayloadType m))) l) @ RTSP_END_TAG @
         concat (map (\<lambda>m.
           (if strFmtp m \<noteq> [] then strFmtp m @ RTSP_END_TAG
            else ''a=rtpmap:'' @ dec (unat (ucPayloadType m)) @ '' '' @ strRtpmap m @ RTSP_END_TAG) @
           (if strControl m \<noteq> [] then ''a=control:'' @ strControl m @ RTSP_END_TAG
            else if m_strUrl sdp \<noteq> [] then ''a=control:'' @ m_strUrl sdp @ RTSP_END_TAG
            else [])) l))"

definition encodeSdp :: "int \<Rightarrow> string \<Rightarrow> CMediaSdp \<Rightarrow> string" where
  "encodeSdp isplayback timeRange sdp =
     ''v=0'' @ RTSP_END_TAG @
     ''o='' @ m_strOwner sdp @ '' '' @ dec (unat (m_unSession sdp)) @ '' 0 IN IP4 '' @
       (if m_strConnAddr sdp \<noteq> [] then m_strConnAddr sdp else ''vds.allcam.com'') @ RTSP_END_TAG @
     ''s='' @ m_strSessionName sdp @ RTSP_END_TAG @
     (if m_strConnAddr sdp \<noteq> [] then ''c='' @ ''IN IP4 '' @ m_strConnAddr sdp @ RTSP_END_TAG else []) @
     ''t=0 0'' @ RTSP_END_TAG @
     (if isplayback = 1 then ''a='' @ m_range sdp @ RTSP_END_TAG @ ''a=length:'' @ timeRange @ RTSP_END_TAG else []) @
     (if m_VideoInfoList sdp \<noteq> [] then encodeMediaDesc SDP_VIDEO_INFO sdp else []) @
     (if m_AudioInfoList sdp \<noteq> [] then encodeMediaDesc SDP_AUDIO_INFO sdp else []) @
     (case m_enTransDirect sdp of
        TRANS_DIRECTION_RECVONLY \<Rightarrow> ''a='' @ STR_SDP_RECVONLY_ATTR @ RTSP_END_TAG
      | TRANS_DIRECTION_SENDONLY \<Rightarrow> ''a='' @ STR_SDP_SENDONLY_ATTR @ RTSP_END_TAG
      | TRANS_DIRECTION_SENDRECV \<Rightarrow> ''a='' @ STR_SDP_SENDRECV_ATTR @ RTSP_END_TAG
      | TRANS_DIRECTION_MAX \<Rightarrow> []) @
     (if m_strSsrc sdp \<noteq> [] then ''y='' @ m_strSsrc sdp @ RTSP_END_TAG else []) @
     (if m_bSetFormat sdp then ''f='' @ m_str28181Format sdp @ RTSP_END_TAG else [])"

section \<open>Lines\<close>

definition plain :: "string \<Rightarrow> bool" where
  "plain l \<longleftrightarrow> (\<forall>c \<in> set l. \<not> is_break c)"

definition start_ok :: "string \<Rightarrow> bool" where
  "start_ok v \<longleftrightarrow> v = [] \<or> \<not> c_isspace (hd v)"

definition sdp_text :: "string list \<Rightarrow> string" where
  "sdp_text ls = concat (map (\<lambda>l. l @ RTSP_END_TAG) ls)"

lemma plain_simps [simp]:
  "plain []" "plain (c # l) \<longleftrightarrow> \<not> is_break c \<and> plain l" "plain (a @ b) \<longleftrightarrow> plain a \<and> plain b"
  by (auto simp: plain_def)

lemma sdp_text_simps [simp]:
  "sdp_text [] = []" "sdp_text (l # ls) = l @ RTSP_END_TAG @ sdp_text ls" "sdp_text (ks @ ls) = sdp_text ks @ sdp_text ls"
  by (simp_all add: sdp_text_def)

lemma jump_space_id: "start_ok v \<Longrightarrow> jump_space v = v"
  by (auto simp: start_ok_def jump_space_def dropWhile_hd)

fun decode_lines :: "string list \<Rightarrow> bool \<Rightarrow> media_ptr \<Rightarrow> CMediaSdp \<Rightarrow> retcode \<times> CMediaSdp" where
  "decode_lines [] bFirst pMediaInfo sdp = (RET_OK, sdp)"
| "decode_lines (l # ls) bFirst pMediaInfo sdp =
     (case sdp_line l bFirst pMediaInfo sdp of
        (r, first', p', sdp') \<Rightarrow> if r \<noteq> RET_OK then (r, sdp') else decode_lines ls first' p' sdp')"

lemma getNextLine_line:
  "plain l \<Longrightarrow> is_break c \<Longrightarrow> getNextLine (pre @ l @ c # rest) (length pre) = Some (l, length pre + length l + 1)"
  by (simp add: getNextLine_def plain_def takeWhile_append2)

lemma sdp_loop_text:
  assumes "\<And>l. l \<in> set ls \<Longrightarrow> plain l"
  shows "sdp_loop (pre @ sdp_text ls) (length pre) bFirst p sdp = decode_lines ls bFirst p sdp"
  using assms
proof (induction ls arbitrary: pre bFirst p sdp)
  case Nil
  then show ?case by (subst sdp_loop.simps) (simp add: getNextLine_def)
next
  case (Cons l ls)
  let ?msg = "pre @ sdp_text (l # ls)"
  have g: "getNextLine ?msg (length pre) = Some (l, length pre + length l + 1)"
    using getNextLine_line [of l CR pre "LF # sdp_text ls"] Cons.prems by (simp add: is_break_def)
  have e: "getNextLine ?msg (length pre + length l + 1) = Some ([], length pre + length l + 2)"
    using getNextLine_line [of "[]" LF "pre @ l @ [CR]" "sdp_text ls"] by (simp add: is_break_def)
  have ih: "sdp_loop ?msg (length pre + length l + 2) f q s = decode_lines ls f q s" for f q s
    using Cons.IH [of "pre @ l @ RTSP_END_TAG" f q s] Cons.prems by simp
  have skip: "sdp_loop ?msg (length pre + length l + 1) f q s = decode_lines ls f q s" for f q s
    using e ih [of f q s] by (subst sdp_loop.simps) (simp add: sdp_line_def jump_space_def)
  show ?case
    using g by (subst sdp_loop.simps) (auto simp: skip [simplified] split: prod.split)
qed

text \<open>The lines that do not concern a medium.\<close>

lemma strsep_token: "CHR '' '' \<notin> set a \<Longrightarrow> strsep (a @ '' '' @ b) = (a, Some b)"
  using str_find_at [of "CHR '' ''" a "[]" b] by (simp add: strsep_def)

lemma line_value: "jump_space (x # CHR ''='' # v) = (if c_isspace x then jump_space (CHR ''='' # v) else x # CHR ''='' # v)"
  by (simp add: jump_space_def)

lemma not_space: "\<not> c_isspace (CHR ''='')" by (simp add: c_isspace_def)

lemma lowers: "c_tolower (CHR ''v'') = CHR ''v''" "c_tolower (CHR ''o'') = CHR ''o''" "c_tolower (CHR ''s'') = CHR ''s''"
  "c_tolower (CHR ''c'') = CHR ''c''" "c_tolower (CHR ''t'') = CHR ''t''" "c_tolower (CHR ''m'') = CHR ''m''"
  "c_tolower (CHR ''a'') = CHR ''a''" "c_tolower (CHR ''y'') = CHR ''y''" "c_tolower (CHR ''f'') = CHR ''f''"
  by (simp_all add: c_tolower_def)

lemma session_lines:
  "sdp_line ''v=0'' b p sdp = (RET_OK, False, p, sdp)"
  "sdp_line (''o='' @ v) False p sdp = (RET_OK, False, p, sdp)"
  "start_ok v \<Longrightarrow> sdp_line (''s='' @ v) False p sdp = (RET_OK, False, p, sdp\<lparr>m_strSessionName := v\<rparr>)"
  "sdp_line ''t=0 0'' False p sdp = (RET_OK, False, p, sdp)"
  "sdp_line (''y='' @ v) False p sdp = (RET_OK, False, p, sdp)"
  "sdp_line (''f='' @ v) False p sdp = (RET_OK, False, p, sdp)"
  by (simp_all add: sdp_line_def lowers jump_space_id) (simp_all add: jump_space_def c_isspace_def lowers dropWhile_hd start_ok_def)

lemma conn_line:
  assumes "start_ok v"
  shows "sdp_line (''c='' @ ''IN IP4 '' @ v) False p sdp = (RET_OK, False, p, sdp\<lparr>m_strConnAddr := v\<rparr>)"
proof -
  have "parseConnDesc (''IN IP4 '' @ v) sdp = (RET_OK, sdp\<lparr>m_strConnAddr := v\<rparr>)"
    using strsep_token [of "''IN''" "''IP4 '' @ v"] strsep_token [of "''IP4''" v] jump_space_id [OF assms] jump_space_id [of "''IP4 '' @ v"]
    by (simp add: parseConnDesc_def start_ok_def c_isspace_def)
  then show ?thesis by (simp add: sdp_line_def lowers jump_space_def c_isspace_def)
qed

section \<open>Media\<close>

definition list_of :: "SDP_STATUS \<Rightarrow> CMediaSdp \<Rightarrow> SDP_MEDIA_INFO list" where
  "list_of k sdp = (if k = SDP_VIDEO_INFO then m_VideoInfoList sdp else m_AudioInfoList sdp)"

definition with_list :: "SDP_STATUS \<Rightarrow> SDP_MEDIA_INFO list \<Rightarrow> CMediaSdp \<Rightarrow> CMediaSdp" where
  "with_list k l sdp = (if k = SDP_VIDEO_INFO then sdp\<lparr>m_VideoInfoList := l\<rparr> else sdp\<lparr>m_AudioInfoList := l\<rparr>)\<lparr>m_enParseStatus := k\<rparr>"

definition type_name :: "SDP_STATUS \<Rightarrow> string" where
  "type_name k = (if k = SDP_VIDEO_INFO then ''video'' else ''audio'')"

definition control_of :: "string \<Rightarrow> SDP_MEDIA_INFO \<Rightarrow> string" where
  "control_of url m = (if strControl m \<noteq> [] then strControl m else url)"

definition media_line :: "SDP_STATUS \<Rightarrow> SDP_MEDIA_INFO list \<Rightarrow> string" where
  "media_line k l = ''m='' @ type_name k @ '' '' @ dec (unat (usPort (hd l))) @ '' '' @ ''RTP/AVP'' @
     concat (map (\<lambda>m. '' '' @ dec (unat (ucPayloadType m))) l)"

definition attr_lines :: "string \<Rightarrow> SDP_MEDIA_INFO \<Rightarrow> string list" where
  "attr_lines url m =
     [''a=rtpmap:'' @ dec (unat (ucPayloadType m)) @ '' '' @ strRtpmap m] @
     (if control_of url m \<noteq> [] then [''a=control:'' @ control_of url m] else [])"

definition media_lines :: "SDP_STATUS \<Rightarrow> CMediaSdp \<Rightarrow> string list" where
  "media_lines k sdp =
     (if list_of k sdp = [] then []
      else media_line k (list_of k sdp) # concat (map (attr_lines (m_strUrl sdp)) (list_of k sdp)))"

lemma media_text:
  assumes "list_of k sdp \<noteq> []" "\<And>m. m \<in> set (list_of k sdp) \<Longrightarrow> strFmtp m = []" "k \<noteq> SDP_GLOBAL_INFO"
  shows "encodeMediaDesc k sdp = sdp_text (media_lines k sdp)"
proof -
  have one: "(if strFmtp m \<noteq> [] then strFmtp m @ RTSP_END_TAG
            else ''a=rtpmap:'' @ dec (unat (ucPayloadType m)) @ '' '' @ strRtpmap m @ RTSP_END_TAG) @
           (if strControl m \<noteq> [] then ''a=control:'' @ strControl m @ RTSP_END_TAG
            else if m_strUrl sdp \<noteq> [] then ''a=control:'' @ m_strUrl sdp @ RTSP_END_TAG
            else []) = sdp_text (attr_lines (m_strUrl sdp) m)" if "m \<in> set (list_of k sdp)" for m
    using assms(2) [OF that] by (simp add: attr_lines_def control_of_def)
  have cc: "sdp_text (concat (map (attr_lines (m_strUrl sdp)) l)) = concat (map (\<lambda>m. sdp_text (attr_lines (m_strUrl sdp) m)) l)" for l
    by (induction l) simp_all
  have l: "(if k = SDP_VIDEO_INFO then m_VideoInfoList sdp else m_AudioInfoList sdp) = list_of k sdp"
    by (simp add: list_of_def)
  have "map (\<lambda>m.
           (if strFmtp m \<noteq> [] then strFmtp m @ RTSP_END_TAG
            else ''a=rtpmap:'' @ dec (unat (ucPayloadType m)) @ '' '' @ strRtpmap m @ RTSP_END_TAG) @
           (if strControl m \<noteq> [] then ''a=control:'' @ strControl m @ RTSP_END_TAG
            else if m_strUrl sdp \<noteq> [] then ''a=control:'' @ m_strUrl sdp @ RTSP_END_TAG
            else [])) (list_of k sdp) = map (\<lambda>m. sdp_text (attr_lines (m_strUrl sdp) m)) (list_of k sdp)"
    by (rule map_cong [OF refl one])
  then show ?thesis
    unfolding encodeMediaDesc_def l Let_def using assms(1)
    by (simp only: media_lines_def cc sdp_text_simps if_False) (simp add: media_line_def type_name_def)
qed

text \<open>What a list of media is after it was written and read: one medium with the first payload type and the attributes of all.\<close>

definition merge_attrs :: "string \<Rightarrow> SDP_MEDIA_INFO \<Rightarrow> SDP_MEDIA_INFO \<Rightarrow> SDP_MEDIA_INFO" where
  "merge_attrs url m e =
     e\<lparr>strRtpmap := strRtpmap m, strControl := if control_of url m \<noteq> [] then control_of url m else strControl e\<rparr>"

definition received :: "string \<Rightarrow> SDP_MEDIA_INFO list \<Rightarrow> SDP_MEDIA_INFO list" where
  "received url l =
     (if l = [] then []
      else [fold (merge_attrs url) l
              \<lparr> ucPayloadType = ucPayloadType (hd l), usPort = 0, strRtpmap = [], strFmtp = [], strControl = [] \<rparr>])"

lemma update_last:
  "k \<noteq> SDP_GLOBAL_INFO \<Longrightarrow> update_media (k, length xs) f (with_list k (xs @ [e]) sdp) = with_list k (xs @ [f e]) sdp"
  by (simp add: update_media_def with_list_def)

lemma attr_line: "sdp_line (''a='' @ v) False p sdp =
  (case parseAttributes (jump_space v) p sdp of (r, sdp') \<Rightarrow> (r, False, p, sdp'))"
  by (simp add: sdp_line_def lowers) (simp add: jump_space_def c_isspace_def lowers)

lemma decode_rtpmap:
  assumes "k \<noteq> SDP_GLOBAL_INFO"
  shows "sdp_line (''a=rtpmap:'' @ dec n @ '' '' @ v) False (Some (k, length xs)) (with_list k (xs @ [e]) sdp) =
    (RET_OK, False, Some (k, length xs), with_list k (xs @ [e\<lparr>strRtpmap := v\<rparr>]) sdp)"
proof -
  have s: "strsep ((''rtpmap:'' @ dec n) @ '' '' @ v) = (''rtpmap:'' @ dec n, Some v)"
    by (rule strsep_token) (simp add: dec_not_special)
  have h: "has_attr STR_SDP_RTPMAP (''rtpmap:'' @ dec n @ '' '' @ v)"
    by (simp add: has_attr_def STR_SDP_RTPMAP_def strncmp_eq_def c_str_def)
  have g: "m_enParseStatus (with_list k (xs @ [e]) sdp) \<noteq> SDP_GLOBAL_INFO" using assms by (simp add: with_list_def)
  have j: "jump_space (''rtpmap:'' @ dec n @ '' '' @ v) = ''rtpmap:'' @ dec n @ '' '' @ v"
    by (rule jump_space_id) (simp add: start_ok_def c_isspace_def)
  have "parseAttributes (''rtpmap:'' @ dec n @ '' '' @ v) (Some (k, length xs)) (with_list k (xs @ [e]) sdp) =
      (RET_OK, with_list k (xs @ [e\<lparr>strRtpmap := v\<rparr>]) sdp)"
    using s by (simp only: parseAttributes_def h g append_assoc option.case if_True if_False snd_conv update_last [OF assms])
  then show ?thesis using attr_line [of "''rtpmap:'' @ dec n @ '' '' @ v"] unfolding j by simp
qed

lemma decode_control:
  assumes "k \<noteq> SDP_GLOBAL_INFO" "v \<noteq> []"
  shows "sdp_line (''a=control:'' @ v) False (Some (k, length xs)) (with_list k (xs @ [e]) sdp) =
    (RET_OK, False, Some (k, length xs), with_list k (xs @ [e\<lparr>strControl := v\<rparr>]) sdp)"
proof -
  have h: "\<not> has_attr STR_SDP_RTPMAP (''control:'' @ v)" "\<not> has_attr STR_SDP_FMTP (''control:'' @ v)"
    "has_attr STR_SDP_CONTROL_ATTR (''control:'' @ v)"
    using assms(2) by (simp_all add: has_attr_def STR_SDP_RTPMAP_def STR_SDP_FMTP_def STR_SDP_CONTROL_ATTR_def strncmp_eq_def c_str_def)
  have g: "m_enParseStatus (with_list k (xs @ [e]) sdp) \<noteq> SDP_GLOBAL_INFO" using assms by (simp add: with_list_def)
  have j: "jump_space (''control:'' @ v) = ''control:'' @ v" by (rule jump_space_id) (simp add: start_ok_def c_isspace_def)
  have d: "drop (length STR_SDP_CONTROL_ATTR) (''control:'' @ v) = v" by (simp add: STR_SDP_CONTROL_ATTR_def)
  have "parseAttributes (''control:'' @ v) (Some (k, length xs)) (with_list k (xs @ [e]) sdp) =
      (RET_OK, with_list k (xs @ [e\<lparr>strControl := v\<rparr>]) sdp)"
    by (simp only: parseAttributes_def h g d option.case if_True if_False update_last [OF assms(1)])
  then show ?thesis using attr_line [of "''control:'' @ v"] unfolding j by simp
qed

lemma decode_direction:
  assumes "k \<noteq> SDP_GLOBAL_INFO" "v \<in> {STR_SDP_RECVONLY_ATTR, STR_SDP_SENDONLY_ATTR, STR_SDP_SENDRECV_ATTR}"
  shows "sdp_line (''a='' @ v) False (Some q) (with_list k l sdp) = (RET_OK, False, Some q, with_list k l sdp)"
proof -
  have g: "m_enParseStatus (with_list k l sdp) \<noteq> SDP_GLOBAL_INFO" using assms by (simp add: with_list_def)
  have v: "v \<in> {''recvonly'', ''sendonly'', ''sendrecv''}"
    using assms(2) by (simp add: STR_SDP_RECVONLY_ATTR_def STR_SDP_SENDONLY_ATTR_def STR_SDP_SENDRECV_ATTR_def)
  have "\<not> has_attr STR_SDP_RTPMAP v" "\<not> has_attr STR_SDP_FMTP v" "\<not> has_attr STR_SDP_CONTROL_ATTR v" "\<not> strncmp_eq v ''range'' 5"
    "\<not> length STR_SDP_RECVONLY_ATTR < length v" "jump_space v = v"
    using v by (elim insertE emptyE; simp add: has_attr_def STR_SDP_RTPMAP_def STR_SDP_FMTP_def STR_SDP_CONTROL_ATTR_def strncmp_eq_def c_str_def
        STR_SDP_RECVONLY_ATTR_def jump_space_def c_isspace_def)+
  then have "parseAttributes (jump_space v) (Some q) (with_list k l sdp) = (RET_OK, with_list k l sdp)"
    using g by (simp only: parseAttributes_def option.case if_False)
  then show ?thesis by (simp add: attr_line [simplified])
qed

lemma decode_attrs:
  assumes "k \<noteq> SDP_GLOBAL_INFO"
  shows "decode_lines (concat (map (attr_lines url) l) @ ls) False (Some (k, length xs)) (with_list k (xs @ [e]) sdp) =
    decode_lines ls False (Some (k, length xs)) (with_list k (xs @ [fold (merge_attrs url) l e]) sdp)"
proof (induction l arbitrary: e)
  case (Cons m l)
  define rl where "rl = ''a=rtpmap:'' @ dec (unat (ucPayloadType m)) @ '' '' @ strRtpmap m"
  define cl where "cl = ''a=control:'' @ control_of url m"
  have al: "attr_lines url m = rl # (if control_of url m \<noteq> [] then [cl] else [])"
    by (simp add: attr_lines_def rl_def cl_def)
  have "sdp_line rl False (Some (k, length xs)) (with_list k (xs @ [e]) sdp) =
      (RET_OK, False, Some (k, length xs), with_list k (xs @ [e\<lparr>strRtpmap := strRtpmap m\<rparr>]) sdp)"
    unfolding rl_def by (rule decode_rtpmap [OF assms])
  moreover have "control_of url m \<noteq> [] \<Longrightarrow> sdp_line cl False (Some (k, length xs)) (with_list k (xs @ [x]) sdp) =
      (RET_OK, False, Some (k, length xs), with_list k (xs @ [x\<lparr>strControl := control_of url m\<rparr>]) sdp)" for x
    unfolding cl_def by (rule decode_control [OF assms])
  ultimately have "decode_lines (attr_lines url m @ r) False (Some (k, length xs)) (with_list k (xs @ [e]) sdp) =
      decode_lines r False (Some (k, length xs)) (with_list k (xs @ [merge_attrs url m e]) sdp)" for r
    by (cases "control_of url m = []") (simp_all add: al merge_attrs_def)
  then show ?case using Cons.IH [of "merge_attrs url m e"] by simp
qed simp

lemma decode_media_line:
  assumes "k \<noteq> SDP_GLOBAL_INFO" "l \<noteq> []"
  shows "sdp_line (media_line k l) False p sdp =
    (RET_OK, False, Some (k, length (list_of k sdp)), with_list k (list_of k sdp @
      [\<lparr> ucPayloadType = ucPayloadType (hd l), usPort = 0, strRtpmap = [], strFmtp = [], strControl = [] \<rparr>]) sdp)"
proof -
  obtain m l' where l: "l = m # l'" using assms(2) by (cases l) auto
  define rest where "rest = concat (map (\<lambda>m. '' '' @ dec (unat (ucPayloadType m))) l')"
  have rest: "rest = [] \<or> hd rest = CHR '' ''" by (cases l') (simp_all add: rest_def)
  let ?b3 = "dec (unat (ucPayloadType m)) @ rest"
  let ?b2 = "''RTP/AVP'' @ '' '' @ ?b3"
  let ?b1 = "dec (unat (usPort m)) @ '' '' @ ?b2"
  have sp: "CHR '' '' \<notin> set (dec n)" for n by (simp add: dec_not_special)
  have nsp: "\<not> c_isspace (hd (dec n))" for n
    using dec_hd [of n] by (auto simp: c_isspace_def)
  have letters: "\<not> c_isspace (CHR ''v'')" "\<not> c_isspace (CHR ''a'')" "\<not> c_isspace (CHR ''R'')" by (simp_all add: c_isspace_def)
  have steps: "strsep (type_name k @ '' '' @ ?b1) = (type_name k, Some ?b1)" "strsep ?b1 = (dec (unat (usPort m)), Some ?b2)"
    "strsep ?b2 = (''RTP/AVP'', Some ?b3)"
    by (rule strsep_token, simp add: type_name_def sp)+
  have jumps: "jump_space (type_name k @ '' '' @ ?b1) = type_name k @ '' '' @ ?b1" "jump_space ?b1 = ?b1" "jump_space ?b2 = ?b2"
    "jump_space ?b3 = ?b3"
    by (rule jump_space_id, simp add: start_ok_def type_name_def nsp letters)+
  have lt: "unat (ucPayloadType m) < 2 ^ 8" using unsigned_less [of "ucPayloadType m"] by simp
  have "atoi ?b3 = of_nat (unat (ucPayloadType m))"
    using lt rest by (intro atoi_dec) (auto simp: is_digit_def digit_val_def)
  then have "atoi ?b3 = ucast (ucPayloadType m)" by simp
  moreover have "ucast (ucast (ucPayloadType m) :: u32) = ucPayloadType m" by (rule bit_word_eqI) (auto simp: bit_simps)
  ultimately have pt: "ucast (atoi ?b3) = ucPayloadType m" by simp
  have ct: "(case type_name k @ '' '' @ ?b1 of [] \<Rightarrow> NUL | c # _ \<Rightarrow> c_tolower c) = (if k = SDP_VIDEO_INFO then CHR ''v'' else CHR ''a'')"
    by (simp add: type_name_def c_tolower_def)
  have ne: "?b3 \<noteq> []" by simp
  have "parseMediaDesc (type_name k @ '' '' @ ?b1) p sdp = (RET_OK, Some (k, length (list_of k sdp)), with_list k (list_of k sdp @
      [\<lparr> ucPayloadType = ucPayloadType m, usPort = 0, strRtpmap = [], strFmtp = [], strControl = [] \<rparr>]) sdp)"
    unfolding parseMediaDesc_def ct Let_def steps jumps snd_conv option.case pt using assms(1) ne
    by (cases k) (simp_all add: with_list_def list_of_def)
  moreover have "media_line k l = ''m='' @ type_name k @ '' '' @ ?b1"
    by (simp add: media_line_def l rest_def)
  moreover have "sdp_line (''m='' @ v) False p sdp = (case parseMediaDesc (jump_space v) p sdp of (r, p', sdp') \<Rightarrow> (r, False, p', sdp'))" for v
    by (simp add: sdp_line_def lowers) (simp add: jump_space_def c_isspace_def lowers split: prod.split)
  ultimately show ?thesis using jumps(1) by (simp only: prod.case) (simp add: l)
qed

section \<open>A description that is written is read back\<close>

definition media_ok :: "SDP_MEDIA_INFO \<Rightarrow> bool" where
  "media_ok m \<longleftrightarrow> plain (strRtpmap m) \<and> plain (strControl m) \<and> strFmtp m = []"

definition sdp_ok :: "CMediaSdp \<Rightarrow> bool" where
  "sdp_ok sdp \<longleftrightarrow>
     list_all plain [m_strOwner sdp, m_strSessionName sdp, m_strConnAddr sdp, m_strUrl sdp, m_strSsrc sdp, m_str28181Format sdp] \<and>
     start_ok (m_strSessionName sdp) \<and> start_ok (m_strConnAddr sdp) \<and>
     list_all media_ok (m_VideoInfoList sdp) \<and> list_all media_ok (m_AudioInfoList sdp)"

definition head_lines :: "CMediaSdp \<Rightarrow> string list" where
  "head_lines sdp =
     [''v=0'', ''o='' @ m_strOwner sdp @ '' '' @ dec (unat (m_unSession sdp)) @ '' 0 IN IP4 '' @
        (if m_strConnAddr sdp \<noteq> [] then m_strConnAddr sdp else ''vds.allcam.com''), ''s='' @ m_strSessionName sdp] @
     (if m_strConnAddr sdp \<noteq> [] then [''c='' @ ''IN IP4 '' @ m_strConnAddr sdp] else []) @ [''t=0 0'']"

definition direction_lines :: "CMediaSdp \<Rightarrow> string list" where
  "direction_lines sdp =
     (case m_enTransDirect sdp of
        TRANS_DIRECTION_RECVONLY \<Rightarrow> [''a='' @ STR_SDP_RECVONLY_ATTR]
      | TRANS_DIRECTION_SENDONLY \<Rightarrow> [''a='' @ STR_SDP_SENDONLY_ATTR]
      | TRANS_DIRECTION_SENDRECV \<Rightarrow> [''a='' @ STR_SDP_SENDRECV_ATTR]
      | TRANS_DIRECTION_MAX \<Rightarrow> [])"

definition tail_lines :: "CMediaSdp \<Rightarrow> string list" where
  "tail_lines sdp = direction_lines sdp @
     (if m_strSsrc sdp \<noteq> [] then [''y='' @ m_strSsrc sdp] else []) @
     (if m_bSetFormat sdp then [''f='' @ m_str28181Format sdp] else [])"

definition play_lines :: "int \<Rightarrow> string \<Rightarrow> CMediaSdp \<Rightarrow> string list" where
  "play_lines isplayback timeRange sdp = (if isplayback = 1 then [''a='' @ m_range sdp, ''a=length:'' @ timeRange] else [])"

lemma encode_text:
  assumes "sdp_ok sdp"
  shows "encodeSdp isplayback timeRange sdp =
    sdp_text (head_lines sdp @ play_lines isplayback timeRange sdp @ media_lines SDP_VIDEO_INFO sdp @ media_lines SDP_AUDIO_INFO sdp @ tail_lines sdp)"
proof -
  have md: "(if list_of k sdp \<noteq> [] then encodeMediaDesc k sdp else []) = sdp_text (media_lines k sdp)" if "k \<noteq> SDP_GLOBAL_INFO" for k
    using assms media_text [OF _ _ that, of sdp] that
    by (auto simp: sdp_ok_def media_ok_def list_all_iff list_of_def media_lines_def)
  have "(if m_VideoInfoList sdp \<noteq> [] then encodeMediaDesc SDP_VIDEO_INFO sdp else []) = sdp_text (media_lines SDP_VIDEO_INFO sdp)"
    "(if m_AudioInfoList sdp \<noteq> [] then encodeMediaDesc SDP_AUDIO_INFO sdp else []) = sdp_text (media_lines SDP_AUDIO_INFO sdp)"
    using md [of SDP_VIDEO_INFO] md [of SDP_AUDIO_INFO] by (simp_all add: list_of_def)
  then show ?thesis
    unfolding encodeSdp_def
    by (cases "m_enTransDirect sdp") (simp_all add: play_lines_def head_lines_def tail_lines_def direction_lines_def)
qed

lemma dec_plain: "plain (dec n)"
  using dec_char [of _ n] by (fastforce simp: plain_def is_break_def)

lemma lines_plain:
  assumes "sdp_ok sdp" "l \<in> set (head_lines sdp @ media_lines SDP_VIDEO_INFO sdp @ media_lines SDP_AUDIO_INFO sdp @ tail_lines sdp)"
  shows "plain l"
proof -
  have "plain (concat (map (\<lambda>m. '' '' @ dec (unat (ucPayloadType m))) ms))" for ms
    by (induction ms) (simp_all add: dec_plain is_break_def)
  moreover have "plain (control_of (m_strUrl sdp) m)" if "media_ok m" for m
    using assms(1) that by (simp add: control_of_def media_ok_def sdp_ok_def)
  ultimately have media: "plain l" if "l \<in> set (media_lines k sdp)" for k
    using assms(1) that
    by (auto simp: media_lines_def media_line_def type_name_def attr_lines_def list_of_def sdp_ok_def list_all_iff media_ok_def dec_plain
        is_break_def split: if_splits)
  moreover have "plain l" if "l \<in> set (head_lines sdp)"
    using that assms(1) by (auto simp: head_lines_def sdp_ok_def dec_plain is_break_def split: if_splits)
  moreover have "plain l" if "l \<in> set (tail_lines sdp)"
    using that assms(1)
    by (auto simp: tail_lines_def direction_lines_def sdp_ok_def is_break_def STR_SDP_RECVONLY_ATTR_def STR_SDP_SENDONLY_ATTR_def
        STR_SDP_SENDRECV_ATTR_def split: if_splits TRANS_DIRECTION.splits)
  ultimately show ?thesis using assms(2) by auto
qed

definition read_head :: "CMediaSdp \<Rightarrow> CMediaSdp \<Rightarrow> CMediaSdp" where
  "read_head s sdp = (sdp\<lparr>m_strSessionName := m_strSessionName s\<rparr>)
     \<lparr>m_strConnAddr := if m_strConnAddr s \<noteq> [] then m_strConnAddr s else m_strConnAddr sdp\<rparr>"

lemma decode_head:
  assumes "sdp_ok s"
  shows "decode_lines (head_lines s @ ls) True p sdp = decode_lines ls False p (read_head s sdp)"
proof -
  define ol where "ol = ''o='' @ m_strOwner s @ '' '' @ dec (unat (m_unSession s)) @ '' 0 IN IP4 '' @
        (if m_strConnAddr s \<noteq> [] then m_strConnAddr s else ''vds.allcam.com'')"
  define sl cl where "sl = ''s='' @ m_strSessionName s" and "cl = ''c='' @ ''IN IP4 '' @ m_strConnAddr s"
  have ok: "start_ok (m_strSessionName s)" "start_ok (m_strConnAddr s)" using assms by (simp_all add: sdp_ok_def)
  have l: "head_lines s = ''v=0'' # ol # sl # (if m_strConnAddr s \<noteq> [] then [cl] else []) @ [''t=0 0'']"
    unfolding head_lines_def ol_def sl_def cl_def by (simp only: append.simps)
  have "sdp_line ol False q x = (RET_OK, False, q, x)" "sdp_line sl False q x = (RET_OK, False, q, x\<lparr>m_strSessionName := m_strSessionName s\<rparr>)"
    "sdp_line cl False q x = (RET_OK, False, q, x\<lparr>m_strConnAddr := m_strConnAddr s\<rparr>)" for q x
    unfolding ol_def sl_def cl_def by (rule session_lines(2), rule session_lines(3) [OF ok(1)], rule conn_line [OF ok(2)])
  then show ?thesis
    using session_lines(1) session_lines(4) by (cases "m_strConnAddr s = []") (simp_all add: l read_head_def)
qed

lemma decode_media:
  assumes "k \<noteq> SDP_GLOBAL_INFO" "list_of k sdp = []"
  shows "decode_lines (media_lines k s @ ls) False p sdp =
    decode_lines ls False (if list_of k s = [] then p else Some (k, 0))
      (if list_of k s = [] then sdp else with_list k (received (m_strUrl s) (list_of k s)) sdp)"
  using decode_media_line [OF assms(1), of "list_of k s" p sdp] decode_attrs [OF assms(1), of "m_strUrl s" "list_of k s" ls "[]"] assms(2)
  by (simp add: media_lines_def received_def)

lemma decode_tail:
  assumes "k \<noteq> SDP_GLOBAL_INFO"
  shows "decode_lines (tail_lines s) False (Some q) (with_list k l sdp) = (RET_OK, with_list k l sdp)"
proof -
  define yl fl where "yl = ''y='' @ m_strSsrc s" and "fl = ''f='' @ m_str28181Format s"
  have "sdp_line yl False p x = (RET_OK, False, p, x)" "sdp_line fl False p x = (RET_OK, False, p, x)" for p x
    unfolding yl_def fl_def by (rule session_lines(5), rule session_lines(6))
  then have "decode_lines ((if m_strSsrc s \<noteq> [] then [yl] else []) @ (if m_bSetFormat s then [fl] else [])) False p x = (RET_OK, x)" for p x
    by simp
  moreover have "decode_lines (direction_lines s @ ls) False (Some q) (with_list k l sdp) = decode_lines ls False (Some q) (with_list k l sdp)" for ls
    using decode_direction [OF assms, of _ q l sdp] by (cases "m_enTransDirect s") (simp_all add: direction_lines_def)
  moreover have "tail_lines s = direction_lines s @ (if m_strSsrc s \<noteq> [] then [yl] else []) @ (if m_bSetFormat s then [fl] else [])"
    by (simp only: tail_lines_def yl_def fl_def)
  ultimately show ?thesis by (simp only:)
qed

text \<open>
  C37.  A session description that is written with \<open>isplayback\<close> other than 1 and read by a fresh object gives exactly the session name, the connection address and,
  for video and audio, one medium: it has the first payload type of the list, but the rtpmap of the last payload of the list, and as control the last
  control of the list, the URL standing in for an empty one.  Ports, owner, URL, SSRC and the transmission direction are not read back.  The
  conditions: there is at least one medium; no medium has an fmtp text; no field has a line break; and session name and connection address do not begin with a space.
\<close>

theorem sdp_roundtrip:
  assumes "sdp_ok s" "m_VideoInfoList s \<noteq> [] \<or> m_AudioInfoList s \<noteq> []" "isplayback \<noteq> 1"
  shows "decodeSdp (encodeSdp isplayback timeRange s) CMediaSdp_new = (RET_OK, CMediaSdp_new\<lparr>m_strSessionName := m_strSessionName s,
       m_strConnAddr := if m_strConnAddr s \<noteq> [] then m_strConnAddr s else m_strConnAddr CMediaSdp_new,
       m_VideoInfoList := received (m_strUrl s) (m_VideoInfoList s),
       m_AudioInfoList := received (m_strUrl s) (m_AudioInfoList s),
       m_enParseStatus := if m_AudioInfoList s \<noteq> [] then SDP_AUDIO_INFO else SDP_VIDEO_INFO\<rparr>)"
    (is "_ = (_, ?r)")
proof -
  let ?ls = "head_lines s @ media_lines SDP_VIDEO_INFO s @ media_lines SDP_AUDIO_INFO s @ tail_lines s"
  have t: "encodeSdp isplayback timeRange s = sdp_text ?ls"
    using encode_text [OF assms(1), of isplayback timeRange] assms(3) by (simp add: play_lines_def)
  have ne: "sdp_text ?ls \<noteq> []" by (simp add: head_lines_def)
  have loop: "sdp_loop (sdp_text ?ls) 0 True None CMediaSdp_new = decode_lines ?ls True None CMediaSdp_new"
    using sdp_loop_text [of ?ls "[]"] lines_plain [OF assms(1)] by (metis append_Nil list.size(3))
  let ?h = "read_head s CMediaSdp_new"
  let ?v = "if m_VideoInfoList s = [] then ?h else with_list SDP_VIDEO_INFO (received (m_strUrl s) (m_VideoInfoList s)) ?h"
  let ?p = "if m_VideoInfoList s = [] then None else Some (SDP_VIDEO_INFO, 0)"
  have "list_of SDP_VIDEO_INFO ?h = []" "list_of SDP_AUDIO_INFO ?v = []"
    by (simp_all add: list_of_def read_head_def CMediaSdp_new_def with_list_def)
  then have m: "decode_lines (media_lines SDP_VIDEO_INFO s @ ls) False None ?h = decode_lines ls False ?p ?v"
    "decode_lines (media_lines SDP_AUDIO_INFO s @ ls) False ?p ?v = decode_lines ls False
       (if m_AudioInfoList s = [] then ?p else Some (SDP_AUDIO_INFO, 0))
       (if m_AudioInfoList s = [] then ?v else with_list SDP_AUDIO_INFO (received (m_strUrl s) (m_AudioInfoList s)) ?v)" for ls
    using decode_media [of SDP_VIDEO_INFO ?h s ls None] decode_media [of SDP_AUDIO_INFO ?v s ls ?p]
    by (simp_all only: list_of_def SDP_STATUS.distinct not_False_eq_True if_True if_False simp_thms)
  have "decode_lines ?ls True None CMediaSdp_new =
      decode_lines (tail_lines s) False
        (if m_AudioInfoList s = [] then ?p else Some (SDP_AUDIO_INFO, 0))
        (if m_AudioInfoList s = [] then ?v else with_list SDP_AUDIO_INFO (received (m_strUrl s) (m_AudioInfoList s)) ?v)"
    unfolding decode_head [OF assms(1)] m ..
  also have "\<dots> = (RET_OK, if m_AudioInfoList s = [] then ?v else with_list SDP_AUDIO_INFO (received (m_strUrl s) (m_AudioInfoList s)) ?v)"
    using assms(2) by (auto simp: decode_tail)
  also have "\<dots> = (RET_OK, ?r)"
    using assms(2) by (auto simp: with_list_def read_head_def CMediaSdp_new_def received_def)
  finally have "sdp_loop (sdp_text ?ls) 0 True None CMediaSdp_new = (RET_OK, ?r)" unfolding loop .
  moreover have "\<not> (m_VideoInfoList ?r = [] \<and> m_AudioInfoList ?r = [])" using assms(2) by (simp add: received_def)
  ultimately show ?thesis using ne unfolding decodeSdp_def t by (simp only: prod.case if_False)
qed

definition sample_sdp :: CMediaSdp where
  "sample_sdp = setTransDirect TRANS_DIRECTION_RECVONLY (setConnAddr ''10.0.0.1'' (addAudioInfo \<lparr>ucPayloadType = 8, usPort = 0, strRtpmap = [], strFmtp = [], strControl = ''audio''\<rparr>
     (addVideoInfo \<lparr>ucPayloadType = 98, usPort = 0, strRtpmap = [], strFmtp = [], strControl = ''video''\<rparr>
       CMediaSdp_new)))"

lemma sample_sdp_ok: "sdp_ok sample_sdp" "m_VideoInfoList sample_sdp \<noteq> []"
  by (simp_all add: sdp_ok_def sample_sdp_def setTransDirect_def setConnAddr_def addAudioInfo_def addVideoInfo_def CMediaSdp_new_def start_ok_def c_isspace_def media_ok_def is_break_def)

theorem sdp_roundtrip_witness:
  "\<exists>d. decodeSdp (encodeSdp 0 [] sample_sdp) CMediaSdp_new = (RET_OK, d) \<and> m_strConnAddr d = ''10.0.0.1'' \<and>
     m_VideoInfoList d = [\<lparr>ucPayloadType = 98, usPort = 0, strRtpmap = ''H264/90000'', strFmtp = [], strControl = ''video''\<rparr>] \<and>
     m_AudioInfoList d = [\<lparr>ucPayloadType = 8, usPort = 0, strRtpmap = ''PCMA/8000'', strFmtp = [], strControl = ''audio''\<rparr>]"
  using sdp_roundtrip [OF sample_sdp_ok(1), of 0 "[]"] sample_sdp_ok(2)
  by (simp add: sample_sdp_def setTransDirect_def setConnAddr_def addAudioInfo_def addVideoInfo_def CMediaSdp_new_def received_def merge_attrs_def control_of_def)

section \<open>What is refused or lost\<close>

text \<open>
  C38.  A description with an attribute in front of the media is refused: what \<open>encodeSdp\<close> writes for a playback, with the
  range and the length as such attributes, cannot be decoded.
\<close>

theorem sdp_playback_refused:
  assumes "sdp_ok s" "plain (m_range s)" "plain timeRange"
  shows "fst (decodeSdp (encodeSdp 1 timeRange s) CMediaSdp_new) = RET_FAIL"
proof -
  define al ll where "al = ''a='' @ m_range s" and "ll = ''a=length:'' @ timeRange"
  define ls where "ls = media_lines SDP_VIDEO_INFO s @ media_lines SDP_AUDIO_INFO s @ tail_lines s"
  have t: "encodeSdp 1 timeRange s = sdp_text (head_lines s @ al # ll # ls)"
    using encode_text [OF assms(1), of 1 timeRange] by (simp add: play_lines_def al_def ll_def ls_def)
  have "plain l" if "l \<in> set (head_lines s @ al # ll # ls)" for l
    using that lines_plain [OF assms(1), of l] assms(2,3) by (auto simp: al_def ll_def ls_def is_break_def)
  then have loop: "sdp_loop (sdp_text (head_lines s @ al # ll # ls)) 0 True None CMediaSdp_new =
      decode_lines (head_lines s @ al # ll # ls) True None CMediaSdp_new"
    using sdp_loop_text [of "head_lines s @ al # ll # ls" "[]"] by (metis append_Nil list.size(3))
  have "sdp_line al False None sdp = (RET_FAIL, False, None, sdp)" for sdp
    unfolding al_def attr_line by (simp add: parseAttributes_def)
  then have "decode_lines (head_lines s @ al # ll # ls) True None CMediaSdp_new = (RET_FAIL, read_head s CMediaSdp_new)"
    unfolding decode_head [OF assms(1)] by simp
  then show ?thesis unfolding decodeSdp_def t loop by simp
qed

theorem sdp_playback_refused_witness:
  "fst (decodeSdp (encodeSdp 1 ''30'' (setRange ''range:npt=0-30'' sample_sdp)) CMediaSdp_new) = RET_FAIL"
  using sdp_playback_refused [of "setRange ''range:npt=0-30'' sample_sdp" "''30''"] sample_sdp_ok(1)
  by (simp add: setRange_def sdp_ok_def is_break_def)

text \<open>A medium with format parameters is written without the attribute name, as a line that the parser refuses.\<close>

lemma fmtp_line_refused:
  assumes "\<not> c_isspace c" "\<not> c_isspace d" "d \<noteq> CHR ''=''"
  shows "fst (sdp_line (c # d # s) bFirst p sdp) = RET_FAIL"
  using assms by (simp add: sdp_line_def jump_space_def)

text \<open>The direction is never read: neither of the attributes that \<open>encodeSdp\<close> writes is longer than its name.\<close>

lemma direction_ignored:
  "v \<in> {STR_SDP_RECVONLY_ATTR, STR_SDP_SENDONLY_ATTR, STR_SDP_SENDRECV_ATTR} \<Longrightarrow> m_enParseStatus sdp \<noteq> SDP_GLOBAL_INFO \<Longrightarrow>
   snd (snd (snd (sdp_line (''a='' @ v) False (Some q) sdp))) = sdp"
proof -
  assume "v \<in> {STR_SDP_RECVONLY_ATTR, STR_SDP_SENDONLY_ATTR, STR_SDP_SENDRECV_ATTR}" "m_enParseStatus sdp \<noteq> SDP_GLOBAL_INFO"
  moreover have "with_list (m_enParseStatus sdp) (list_of (m_enParseStatus sdp) sdp) sdp = sdp"
    by (cases sdp) (simp add: with_list_def list_of_def)
  ultimately show ?thesis
    using decode_direction [of "m_enParseStatus sdp" v q "list_of (m_enParseStatus sdp) sdp" sdp] by (simp only: snd_conv simp_thms)
qed

text \<open>Of the number of a session only the hundreds of its low byte get into the SSRC, so a server has three different ones.\<close>

lemma ssrc_hundreds:
  assumes "unat (i AND 0xFF) div 100 = unat (j AND 0xFF) div 100"
  shows "setSsrcByGB28181Dev c t i sdp = setSsrcByGB28181Dev c t j sdp"
proof -
  have two: "take 2 (replicate (4 - length (dec n)) (CHR ''0'') @ dec n) = [CHR ''0'', char_of (n div 100 + 48)]" if "n < 256" for n
  proof -
    consider (one) "n < 10" | (two) "10 \<le> n" "n < 100" | (three) "100 \<le> n" by linarith
    then show ?thesis
    proof cases
      case one
      then show ?thesis by (simp add: dec.simps [of n] numeral_3_eq_3 char_of_eq)
    next
      case two
      then have "dec n = [char_of (n div 10 + 48), char_of (n mod 10 + 48)]" by (simp add: dec.simps [of n] dec.simps [of "n div 10"])
      then show ?thesis using two by (simp add: numeral_2_eq_2 char_of_eq)
    next
      case three
      have "dec (n div 10) = dec (n div 10 div 10) @ [char_of (n div 10 mod 10 + 48)]" using three by (subst dec.simps) simp
      moreover have "dec (n div 10 div 10) = [char_of (n div 100 + 48)]" using that by (subst dec.simps) (simp add: div_mult2_eq [symmetric])
      ultimately have "dec n = [char_of (n div 100 + 48), char_of (n div 10 mod 10 + 48), char_of (n mod 10 + 48)]"
        using three by (subst dec.simps) simp
      then show ?thesis by simp
    qed
  qed
  have "unat (x AND 0xFF) < 256" for x :: u32
    using unat_mono [of "x AND 0xFF" 256] word_and_le1 [of x 255] by (simp add: word_le_nat_alt le_less_trans)
  note lt = this
  show ?thesis
    unfolding setSsrcByGB28181Dev_def Let_def two [OF lt [of i]] two [OF lt [of j]] assms ..
qed

end
