(* ===== verification/RecordIndex.thy ===== *)
theory RecordIndex
  imports CStr
begin

text \<open>
  \<open>svs_index_list.cpp\<close> of the recording unit: what a camera records is written to the index of the database in steps.
  The file writer reports the segment it is writing (\<open>updateLocalIndex\<close>), the recording plan says which time is wanted
  (\<open>updateDBIndex\<close>), and the part of the segments that is wanted is sent as insertions and updates of index records,
  split where a day ends.  Times are seconds as integers, sizes 64-bit words.  A division by zero, and a copy whose
  length is negative, is \<^const>\<open>None\<close>.  Arguments are the calendar of the time zone, whether there is memory for a
  message, whether the record server exists and takes the message, and the size of a file name; they may depend on what
  was sent before.
\<close>

section \<open>Data\<close>

datatype svs_result = SVS_RESULT_OK | SVS_RESULT_FAILURE | SVS_ERR_PARAM

datatype RECORD_INDEX_SET_TYPE = RECORD_INDEX_TYPE_UPDATE | RECORD_INDEX_TYPE_INSERT | RECORD_INDEX_TYPE_OVERWRITE

datatype REPORT_INDEX_TYPE = REPORT_INDEX_TYPE_NORMAL | REPORT_INDEX_TYPE_OVER | REPORT_INDEX_TYPE_RECONNECT

abbreviation (input) SVS_PRORECORD_MAX_TIME :: int where "SVS_PRORECORD_MAX_TIME \<equiv> 300"
abbreviation (input) RTRECORD_UNIT_K :: u64 where "RTRECORD_UNIT_K \<equiv> 1024"

record IndexInfo =
  StartTime :: int
  StopTime :: int
  VideoFlux :: u64
  iRecordStopFlag :: int
  RecordFileName :: string

record Update_Record_Index =
  ur_Type :: RECORD_INDEX_SET_TYPE
  ur_LensId :: string
  ur_ChangeBeforeStartTime :: int
  ur_StartTime :: int
  ur_EndTime :: int
  ur_VideoFlux :: u64
  ur_RecordReportType :: REPORT_INDEX_TYPE
  ur_RecordFilePath :: string

text \<open>What becomes of a message: it is remembered for sending again, and it is queued or dropped.\<close>

datatype index_event =
    PastIndex Update_Record_Index
  | IndexQueued Update_Record_Index
  | IndexDropped Update_Record_Index

record index_env =
  ie_alloc :: "index_event list \<Rightarrow> bool"
  ie_server :: "index_event list \<Rightarrow> bool"
  ie_enqueue :: "index_event list \<Rightarrow> bool"
  ie_yday :: "int \<Rightarrow> int"
  ie_midnight :: "int \<Rightarrow> int"
  ie_maxname :: nat

record SVS_Index_List =
  m_szDeviceID :: string
  m_localIndexStartTime :: int
  m_localIndexStopTime :: int
  m_localIndexList :: "IndexInfo list"
  m_dbIndexStartTime :: int
  m_dbIndexList :: "IndexInfo list"
  m_lastLocalIndexTime :: int
  m_lastDBIndexTime :: int
  m_ullCurFileSize :: u64
  m_ullIndexFileSize :: u64
  index_log :: "index_event list"

definition index_reset :: "SVS_Index_List \<Rightarrow> SVS_Index_List" where
  "index_reset s = s\<lparr>m_szDeviceID := [], m_localIndexStartTime := 0, m_localIndexStopTime := 0, m_localIndexList := [],
     m_dbIndexStartTime := 0, m_dbIndexList := [], m_lastLocalIndexTime := 0, m_lastDBIndexTime := 0, m_ullCurFileSize := 0,
     m_ullIndexFileSize := 0\<rparr>"

text \<open>\<open>init\<close> with the text that the identifier of the device is stored as, and \<open>close\<close>.\<close>

definition index_init :: "string \<Rightarrow> SVS_Index_List \<Rightarrow> svs_result \<times> SVS_Index_List" where
  "index_init szDevID s = (SVS_RESULT_OK, s\<lparr>m_szDeviceID := szDevID\<rparr>)"

definition index_close :: "SVS_Index_List \<Rightarrow> SVS_Index_List" where
  "index_close s = index_reset s"

section \<open>Sending\<close>

definition sendDBRecordIndex ::
    "index_env \<Rightarrow> RECORD_INDEX_SET_TYPE \<Rightarrow> int \<Rightarrow> int \<Rightarrow> int \<Rightarrow> u64 \<Rightarrow> string \<Rightarrow> int \<Rightarrow> SVS_Index_List \<Rightarrow>
     (svs_result \<times> SVS_Index_List) option" where
  "sendDBRecordIndex e nType nChangeBeforeStartTime nStartTime nEndTime ullDataSize szFilePath stopFlag s =
     (let size' = (if ullDataSize = 0 then RTRECORD_UNIT_K else ullDataSize)
      in if \<not> ie_alloc e (index_log s) then Some (SVS_RESULT_FAILURE, s)
         else
           let path = (case str_find (m_szDeviceID s) szFilePath of None \<Rightarrow> Some []
                 | Some n \<Rightarrow> if n = 0 then None else Some (take (n - 1) szFilePath))
           in case path of
                None \<Rightarrow> None
              | Some p \<Rightarrow>
                  let msg = \<lparr> ur_Type = nType, ur_LensId = m_szDeviceID s, ur_ChangeBeforeStartTime = nChangeBeforeStartTime,
                        ur_StartTime = nStartTime, ur_EndTime = nEndTime, ur_VideoFlux = size' div RTRECORD_UNIT_K,
                        ur_RecordReportType = (if stopFlag \<noteq> 0 then REPORT_INDEX_TYPE_OVER else REPORT_INDEX_TYPE_NORMAL),
                        ur_RecordFilePath = p \<rparr>;
                      s1 = (if stopFlag \<noteq> 0 then s\<lparr>index_log := index_log s @ [PastIndex msg]\<rparr> else s)
                  in if \<not> ie_server e (index_log s1) then Some (SVS_RESULT_FAILURE, s1)
                     else Some (SVS_RESULT_OK, s1\<lparr>index_log := index_log s1 @
                            [if ie_enqueue e (index_log s1) then IndexQueued msg else IndexDropped msg]\<rparr>))"

section \<open>Comparing plan and recording\<close>

text \<open>\<open>(size / (uint64_t)d) * (uint64_t)n\<close>\<close>

definition scale_size :: "u64 \<Rightarrow> int \<Rightarrow> int \<Rightarrow> u64 option" where
  "scale_size size' d n = (if (of_int d :: u64) = 0 then None else Some (size' div of_int d * of_int n))"

text \<open>
  The part of a segment from \<open>dbStartTime\<close> to \<open>dbStopTime\<close> is sent, as one record or as two that meet at midnight: the
  new stop flag and the list.
\<close>

definition send_part ::
    "index_env \<Rightarrow> RECORD_INDEX_SET_TYPE \<Rightarrow> int \<Rightarrow> int \<Rightarrow> u64 \<Rightarrow> string \<Rightarrow> int \<Rightarrow> SVS_Index_List \<Rightarrow> (int \<times> SVS_Index_List) option" where
  "send_part e operType dbStartTime dbStopTime ullFileSize name flag s =
     (if ie_yday e dbStartTime \<noteq> ie_yday e dbStopTime
      then
        let stop_time = ie_midnight e dbStopTime;
            s1 = s\<lparr>m_ullIndexFileSize := m_ullCurFileSize s\<rparr>
        in case scale_size ullFileSize (dbStopTime - dbStartTime) (stop_time - dbStartTime) of
             None \<Rightarrow> None
           | Some size1 \<Rightarrow>
               (case sendDBRecordIndex e operType 0 dbStartTime (stop_time - 1) size1 name 1 s1 of
                  None \<Rightarrow> None
                | Some (_, s2) \<Rightarrow>
                    (case sendDBRecordIndex e RECORD_INDEX_TYPE_INSERT 0 stop_time dbStopTime RTRECORD_UNIT_K name 0 s2 of
                       None \<Rightarrow> None
                     | Some (_, s3) \<Rightarrow>
                         Some (0, s3\<lparr>m_dbIndexStartTime := stop_time, m_lastDBIndexTime := stop_time, m_lastLocalIndexTime := dbStopTime\<rparr>)))
      else map_option (\<lambda>(_, s1). (flag, s1)) (sendDBRecordIndex e operType 0 dbStartTime dbStopTime ullFileSize name flag s))"

fun partition_loop ::
    "index_env \<Rightarrow> IndexInfo list \<Rightarrow> RECORD_INDEX_SET_TYPE \<Rightarrow> int \<Rightarrow> int \<Rightarrow> int \<Rightarrow> int \<Rightarrow> SVS_Index_List \<Rightarrow> (bool \<times> SVS_Index_List) option" where
  "partition_loop e [] operType indexStartTime indexStopTime stopFlag localFlag s = Some (False, s)"
| "partition_loop e (i # is) operType indexStartTime indexStopTime stopFlag localFlag s =
     (if \<not> StartTime i < indexStopTime then Some (False, s)
      else if StopTime i \<le> indexStartTime then partition_loop e is operType indexStartTime indexStopTime stopFlag localFlag s
      else
        let fresh = indexStartTime < StartTime i;
            s1 = (if fresh then s\<lparr>m_dbIndexStartTime := StartTime i, m_lastDBIndexTime := StartTime i\<rparr> else s);
            type1 = (if fresh then RECORD_INDEX_TYPE_INSERT else operType);
            flag1 = (if stopFlag = 0 then iRecordStopFlag i else localFlag);
            start1 = (if fresh then StartTime i else indexStartTime);
            stop1 = (if indexStopTime < StopTime i then indexStopTime else StopTime i)
        in case (if fresh then Some (VideoFlux i) else scale_size (VideoFlux i) (StopTime i - StartTime i) (StopTime i - indexStartTime)) of
             None \<Rightarrow> None
           | Some size1 \<Rightarrow>
               (case (if indexStopTime < StopTime i then scale_size size1 (StopTime i - start1) (indexStopTime - start1) else Some size1) of
                  None \<Rightarrow> None
                | Some size2 \<Rightarrow>
                    (case send_part e type1 start1 stop1 size2 (RecordFileName i) flag1 s1 of
                       None \<Rightarrow> None
                     | Some (flag2, s2) \<Rightarrow>
                         let s3 = s2\<lparr>m_lastLocalIndexTime := stop1\<rparr>
                         in if indexStopTime \<le> StopTime i then Some (True, s3)
                            else partition_loop e is type1 indexStartTime indexStopTime stopFlag flag2 s3)))"

definition partitionDBRecordIndex ::
    "index_env \<Rightarrow> RECORD_INDEX_SET_TYPE \<Rightarrow> int \<Rightarrow> int \<Rightarrow> int \<Rightarrow> SVS_Index_List \<Rightarrow> (svs_result \<times> SVS_Index_List) option" where
  "partitionDBRecordIndex e operType indexStartTime indexStopTime stopFlag s =
     map_option (\<lambda>(found, s1). (if found then SVS_RESULT_OK else SVS_RESULT_FAILURE, s1))
       (partition_loop e (m_localIndexList s) operType indexStartTime indexStopTime stopFlag stopFlag s)"

definition processDBIndex :: "index_env \<Rightarrow> int \<Rightarrow> int \<Rightarrow> SVS_Index_List \<Rightarrow> (svs_result \<times> SVS_Index_List) option" where
  "processDBIndex e startTime stopTime s =
     (if startTime \<ge> m_localIndexStopTime s then Some (SVS_RESULT_OK, s)
      else if startTime \<ge> stopTime \<and> stopTime \<noteq> 0 then Some (SVS_RESULT_OK, s)
      else
        let known = m_dbIndexStartTime s \<noteq> 0;
            indexStartTime = (if known then m_dbIndexStartTime s
              else if startTime < m_lastLocalIndexTime s then m_lastLocalIndexTime s else startTime);
            operType = (if known then RECORD_INDEX_TYPE_UPDATE else RECORD_INDEX_TYPE_INSERT);
            s1 = (if known then s else s\<lparr>m_dbIndexStartTime := indexStartTime, m_lastDBIndexTime := indexStartTime\<rparr>);
            indexStopTime = (if stopTime = 0 \<or> stopTime > m_localIndexStopTime s then m_localIndexStopTime s else stopTime)
        in partitionDBRecordIndex e operType indexStartTime indexStopTime
             (if stopTime \<noteq> 0 \<and> indexStopTime \<ge> stopTime then 1 else 0) s1)"

text \<open>The loop over the planned times; the ones that are done are erased.\<close>

fun handle_loop :: "index_env \<Rightarrow> IndexInfo list \<Rightarrow> SVS_Index_List \<Rightarrow> SVS_Index_List option" where
  "handle_loop e [] s = Some (s\<lparr>m_dbIndexList := []\<rparr>)"
| "handle_loop e (i # is) s =
     (case processDBIndex e (StartTime i) (StopTime i) s of
        None \<Rightarrow> None
      | Some (r, s1) \<Rightarrow>
          if r \<noteq> SVS_RESULT_OK then Some (s1\<lparr>m_dbIndexList := i # is\<rparr>)
          else if StopTime i \<noteq> 0 \<and> StopTime i \<le> m_localIndexStopTime s1
          then handle_loop e is (s1\<lparr>m_dbIndexStartTime := 0\<rparr>)
          else Some (s1\<lparr>m_dbIndexList := i # is\<rparr>))"

definition handleDBIndex :: "index_env \<Rightarrow> SVS_Index_List \<Rightarrow> SVS_Index_List option" where
  "handleDBIndex e s = handle_loop e (m_dbIndexList s) s"

section \<open>The operations\<close>

text \<open>The change of the first element with a property, if there is one.\<close>

fun update_first :: "('a \<Rightarrow> bool) \<Rightarrow> ('a \<Rightarrow> 'a) \<Rightarrow> 'a list \<Rightarrow> 'a list option" where
  "update_first P f [] = None"
| "update_first P f (x # xs) = (if P x then Some (f x # xs) else map_option ((#) x) (update_first P f xs))"

text \<open>A new segment of the recording: it is appended, and the oldest one is dropped when it is too old for a plan.\<close>

definition add_segment :: "index_env \<Rightarrow> int \<Rightarrow> int \<Rightarrow> u64 \<Rightarrow> string \<Rightarrow> int \<Rightarrow> SVS_Index_List \<Rightarrow> SVS_Index_List" where
  "add_segment e firstTime lastTime ullWriteSize szFileName stopFlag s =
     (let l = m_localIndexList s @ [\<lparr> StartTime = firstTime, StopTime = lastTime, VideoFlux = ullWriteSize - m_ullCurFileSize s,
                iRecordStopFlag = stopFlag, RecordFileName = c_str (take (ie_maxname e) szFileName) \<rparr>];
          s1 = s\<lparr>m_ullIndexFileSize := m_ullCurFileSize s, m_localIndexStartTime := firstTime, m_localIndexList := l\<rparr>
      in if length l > 1 \<and> SVS_PRORECORD_MAX_TIME < firstTime - StopTime (hd l)
         then s1\<lparr>m_localIndexList := tl l, m_lastLocalIndexTime := StartTime (hd (tl l))\<rparr>
         else s1)"

definition updateLocalIndex ::
    "index_env \<Rightarrow> int \<Rightarrow> int \<Rightarrow> u64 \<Rightarrow> string option \<Rightarrow> int \<Rightarrow> SVS_Index_List \<Rightarrow> (svs_result \<times> SVS_Index_List) option" where
  "updateLocalIndex e firstTime lastTime ullWriteSize szFileName stopFlag s =
     (let step = (if firstTime \<noteq> m_localIndexStartTime s
        then (case szFileName of
                None \<Rightarrow> Inl SVS_ERR_PARAM
              | Some name \<Rightarrow> if firstTime > lastTime then Inl SVS_ERR_PARAM
                             else Inr (add_segment e firstTime lastTime ullWriteSize name stopFlag s))
        else (case update_first (\<lambda>i. StartTime i = firstTime)
                (\<lambda>i. i\<lparr>StopTime := lastTime, VideoFlux := ullWriteSize - m_ullIndexFileSize s, iRecordStopFlag := stopFlag\<rparr>)
                (m_localIndexList s) of
                None \<Rightarrow> Inl SVS_RESULT_FAILURE
              | Some l \<Rightarrow> Inr (s\<lparr>m_localIndexList := l\<rparr>)))
      in case step of
           Inl r \<Rightarrow> Some (r, s)
         | Inr s1 \<Rightarrow>
             let s2 = s1\<lparr>m_ullCurFileSize := ullWriteSize, m_localIndexStopTime := lastTime,
                   m_lastLocalIndexTime := (if m_lastLocalIndexTime s1 = 0 then firstTime else m_lastLocalIndexTime s1)\<rparr>
             in if m_lastDBIndexTime s2 \<ge> m_localIndexStopTime s2 then Some (SVS_RESULT_OK, s2)
                else map_option (\<lambda>s3. (SVS_RESULT_OK, s3)) (handleDBIndex e s2))"

definition updateDBIndex :: "int \<Rightarrow> int \<Rightarrow> SVS_Index_List \<Rightarrow> svs_result \<times> SVS_Index_List" where
  "updateDBIndex startTime stopTime s =
     (if startTime = 0 then (SVS_RESULT_FAILURE, s)
      else case update_first (\<lambda>i. StartTime i = startTime) (\<lambda>i. i\<lparr>StopTime := stopTime\<rparr>) (m_dbIndexList s) of
             Some l \<Rightarrow> (SVS_RESULT_OK, s\<lparr>m_dbIndexList := l\<rparr>)
           | None \<Rightarrow> (SVS_RESULT_OK, s\<lparr>m_dbIndexList := m_dbIndexList s @
               [\<lparr> StartTime = startTime, StopTime = stopTime, VideoFlux = 0, iRecordStopFlag = 0, RecordFileName = [] \<rparr>]\<rparr>))"

definition updateDBIndexStartTime :: "int \<Rightarrow> SVS_Index_List \<Rightarrow> svs_result \<times> SVS_Index_List" where
  "updateDBIndexStartTime startTime s =
     (if m_dbIndexStartTime s \<noteq> 0 \<and> m_dbIndexStartTime s < startTime
      then (SVS_RESULT_OK, s\<lparr>m_dbIndexStartTime := startTime\<rparr>) else (SVS_RESULT_OK, s))"

section \<open>The database behind the messages\<close>

text \<open>
  A record of the index has a start and an end.  An insertion adds one, an update changes the end of the record with the
  start, if there is one.
\<close>

definition put_record :: "RECORD_INDEX_SET_TYPE \<Rightarrow> int \<Rightarrow> int \<Rightarrow> (int \<rightharpoonup> int) \<Rightarrow> (int \<rightharpoonup> int)" where
  "put_record type a b D = (if type = RECORD_INDEX_TYPE_INSERT \<or> D a \<noteq> None then D(a \<mapsto> b) else D)"

fun db_apply :: "index_event \<Rightarrow> (int \<rightharpoonup> int) \<Rightarrow> (int \<rightharpoonup> int)" where
  "db_apply (IndexQueued m) D = put_record (ur_Type m) (ur_StartTime m) (ur_EndTime m) D"
| "db_apply _ D = D"

definition db_of :: "index_event list \<Rightarrow> (int \<rightharpoonup> int)" where
  "db_of log = fold db_apply log Map.empty"

definition covers :: "(int \<rightharpoonup> int) \<Rightarrow> int set" where
  "covers D = {t. \<exists>a b. D a = Some b \<and> a \<le> t \<and> t \<le> b}"

lemma db_of_simps [simp]: "db_of [] = Map.empty" "db_of (l @ k) = fold db_apply k (db_of l)"
  by (simp_all add: db_of_def)

lemma covers_empty [simp]: "covers Map.empty = {}"
  by (simp add: covers_def)

lemma covers_mem: "D a = Some b \<Longrightarrow> {a..b} \<subseteq> covers D"
  unfolding covers_def by auto blast

lemma covers_upd: "(\<And>c. D a = Some c \<Longrightarrow> c \<le> b) \<Longrightarrow> covers (D(a \<mapsto> b)) = covers D \<union> {a..b}"
  by (fastforce simp: covers_def split: if_splits)

text \<open>Messages that get through, and what the calendar functions promise.\<close>

definition delivered :: "index_env \<Rightarrow> bool" where
  "delivered e \<longleftrightarrow> (\<forall>log. ie_alloc e log \<and> ie_server e log \<and> ie_enqueue e log)"

definition cal_ok :: "index_env \<Rightarrow> bool" where
  "cal_ok e \<longleftrightarrow> (\<forall>t. ie_midnight e t \<le> t \<and> ie_yday e (ie_midnight e t) = ie_yday e t) \<and>
     (\<forall>a b. a \<le> b \<and> ie_yday e a \<noteq> ie_yday e b \<longrightarrow> a < ie_midnight e b)"

lemma send_ok:
  assumes "delivered e" "str_find (m_szDeviceID s) name \<noteq> Some 0"
  shows "\<exists>log. sendDBRecordIndex e type c a b size' name flag s = Some (SVS_RESULT_OK, s\<lparr>index_log := log\<rparr>) \<and>
    db_of log = put_record type a b (db_of (index_log s))"
proof -
  have env: "ie_alloc e l" "ie_server e l" "ie_enqueue e l" for l using assms(1) by (simp_all add: delivered_def)
  obtain p where p: "(case str_find (m_szDeviceID s) name of None \<Rightarrow> Some [] | Some n \<Rightarrow> if n = 0 then None else Some (take (n - 1) name)) = Some p"
    using assms(2) by (cases "str_find (m_szDeviceID s) name") auto
  show ?thesis
    unfolding sendDBRecordIndex_def Let_def p by (cases "flag = 0"; cases "size' = 0"; simp add: env; (intro exI conjI, rule refl, simp))
qed

lemma scale_size_ok: "0 < d \<Longrightarrow> d < 2 ^ 64 \<Longrightarrow> \<exists>z. scale_size size' d n = Some z"
proof -
  assume "0 < d" "d < 2 ^ 64"
  then have "uint (of_int d :: u64) = d" by (simp add: uint_word_of_int)
  with \<open>0 < d\<close> have "(of_int d :: u64) \<noteq> 0" by (metis less_irrefl unsigned_0)
  then show ?thesis by (simp add: scale_size_def)
qed

text \<open>The open record of the database: its start is in \<open>m_dbIndexStartTime\<close> and it ends at \<open>z\<close>.\<close>

definition open_record :: "index_env \<Rightarrow> int \<Rightarrow> SVS_Index_List \<Rightarrow> bool" where
  "open_record e z s \<longleftrightarrow>
     (let D = db_of (index_log s); k = m_dbIndexStartTime s
      in D k = Some z \<and> k \<le> z \<and> (\<forall>a \<in> dom D. a \<le> k) \<and> ie_yday e k = ie_yday e z \<and> m_lastDBIndexTime s = k)"

text \<open>The fields that sending leaves alone.\<close>

definition same_lists :: "SVS_Index_List \<Rightarrow> SVS_Index_List \<Rightarrow> bool" where
  "same_lists s s' \<longleftrightarrow> m_szDeviceID s' = m_szDeviceID s \<and> m_localIndexStartTime s' = m_localIndexStartTime s \<and>
     m_localIndexStopTime s' = m_localIndexStopTime s \<and> m_localIndexList s' = m_localIndexList s \<and> m_dbIndexList s' = m_dbIndexList s"

text \<open>The part from \<open>a\<close> to \<open>b\<close> is sent as a new record or as a continuation of the open record.\<close>

lemma send_part_ok:
  assumes "delivered e" "cal_ok e" "str_find (m_szDeviceID s) name \<noteq> Some 0" "a < b" "b - a < 2 ^ 64"
    and key: "m_dbIndexStartTime s = a" "m_lastDBIndexTime s = a" "\<forall>x \<in> dom (db_of (index_log s)). x \<le> a"
    and rec: "type = RECORD_INDEX_TYPE_INSERT \<and> db_of (index_log s) a = None \<or> (\<exists>z \<le> b. open_record e z s)"
  shows "\<exists>flag' s'. send_part e type a b size' name flag s = Some (flag', s') \<and> same_lists s s' \<and> open_record e b s' \<and>
    covers (db_of (index_log s')) = covers (db_of (index_log s)) \<union> {a..b} \<and> a \<le> m_dbIndexStartTime s' \<and>
    (ie_yday e a = ie_yday e b \<longrightarrow> m_dbIndexStartTime s' = a)"
proof (cases "ie_yday e a = ie_yday e b")
  case True
  obtain log where log: "sendDBRecordIndex e type 0 a b size' name flag s = Some (SVS_RESULT_OK, s\<lparr>index_log := log\<rparr>)"
    "db_of log = put_record type a b (db_of (index_log s))"
    using send_ok [OF assms(1,3)] by blast
  have D: "db_of log = (db_of (index_log s))(a \<mapsto> b)" "\<And>c. db_of (index_log s) a = Some c \<Longrightarrow> c \<le> b"
    using rec key(1) log(2) by (auto simp: put_record_def open_record_def Let_def)
  show ?thesis
    using log(1) D covers_upd [OF D(2)] key assms(4) True
    by (auto simp: send_part_def same_lists_def open_record_def Let_def)
next
  case False
  define m where "m = ie_midnight e b"
  have m: "a < m" "m \<le> b" "ie_yday e m = ie_yday e b"
    using assms(2,4) False by (auto simp: cal_ok_def m_def)
  obtain z where z: "scale_size size' (b - a) (m - a) = Some z" using scale_size_ok [of "b - a"] assms(4,5) by auto
  let ?s1 = "s\<lparr>m_ullIndexFileSize := m_ullCurFileSize s\<rparr>"
  obtain l1 where l1: "sendDBRecordIndex e type 0 a (m - 1) z name 1 ?s1 = Some (SVS_RESULT_OK, ?s1\<lparr>index_log := l1\<rparr>)"
    "db_of l1 = put_record type a (m - 1) (db_of (index_log s))"
    using send_ok [OF assms(1), of ?s1 name type 0 a "m - 1" z 1] assms(3) by auto
  obtain l2 where l2: "sendDBRecordIndex e RECORD_INDEX_TYPE_INSERT 0 m b RTRECORD_UNIT_K name 0 (?s1\<lparr>index_log := l1\<rparr>) =
      Some (SVS_RESULT_OK, ?s1\<lparr>index_log := l2\<rparr>)" "db_of l2 = put_record RECORD_INDEX_TYPE_INSERT m b (db_of l1)"
    using send_ok [OF assms(1), of "?s1\<lparr>index_log := l1\<rparr>" name RECORD_INDEX_TYPE_INSERT 0 m b RTRECORD_UNIT_K 0] assms(3) by auto
  have before: "c \<le> m - 1" if "db_of (index_log s) a = Some c" for c
  proof -
    have "c \<le> b" "ie_yday e c = ie_yday e a" using that rec key(1) by (auto simp: open_record_def Let_def)
    then have "c < m" using assms(2) False by (auto simp: cal_ok_def m_def)
    then show ?thesis by simp
  qed
  have D1: "db_of l1 = (db_of (index_log s))(a \<mapsto> m - 1)"
    using rec key(1) l1(2) by (auto simp: put_record_def open_record_def Let_def)
  have D2: "db_of l2 = (db_of l1)(m \<mapsto> b)" using l2(2) by (simp add: put_record_def)
  have keys: "\<forall>x \<in> dom (db_of l1). x \<le> a" using D1 key(3) by auto
  then have none: "db_of l1 m = None" using m(1) by (meson domIff not_le)
  have keys': "x \<le> m" if "db_of l1 x = Some y" for x y
  proof -
    have "x \<in> dom (db_of l1)" using that by auto
    then show ?thesis using keys m(1) by force
  qed
  have "covers (db_of l2) = covers (db_of (index_log s)) \<union> {a..m - 1} \<union> {m..b}"
    unfolding D2 using covers_upd [of "db_of l1" m b] none covers_upd [OF before] D1 by simp
  moreover have "{a..m - 1} \<union> {m..b} = {a..b}" using m by auto
  ultimately have "covers (db_of l2) = covers (db_of (index_log s)) \<union> {a..b}" by (metis Un_assoc)
  then show ?thesis
    using False z l1(1) l2(1) D2 keys' m
    by (auto simp: send_part_def m_def [symmetric] same_lists_def open_record_def Let_def)
qed

section \<open>A recording under an open plan\<close>

text \<open>The segments of a recording: a call with the start of the last segment extends it.\<close>

definition add_time :: "int \<Rightarrow> int \<Rightarrow> (int \<times> int) list \<Rightarrow> (int \<times> int) list" where
  "add_time f l segs = (if segs \<noteq> [] \<and> fst (last segs) = f then butlast segs @ [(f, l)] else segs @ [(f, l)])"

text \<open>Time goes on: a segment grows, or a new one begins behind the last.\<close>

definition next_time :: "int \<Rightarrow> int \<Rightarrow> (int \<times> int) list \<Rightarrow> bool" where
  "next_time f l segs \<longleftrightarrow> 0 < f \<and> f < l \<and> l < 2 ^ 63 \<and> (segs = [] \<or> fst (last segs) = f \<and> snd (last segs) \<le> l \<or> snd (last segs) \<le> f)"

text \<open>What of the segments is wanted from time \<open>p\<close> on.\<close>

definition wanted :: "int \<Rightarrow> (int \<times> int) list \<Rightarrow> int set" where
  "wanted p segs = (\<Union>(f, l) \<in> set segs. if max p f < l then {max p f..l} else {})"

definition plan_of :: "int \<Rightarrow> IndexInfo" where
  "plan_of p = \<lparr> StartTime = p, StopTime = 0, VideoFlux = 0, iRecordStopFlag = 0, RecordFileName = [] \<rparr>"

definition local_ok :: "(int \<times> int) list \<Rightarrow> SVS_Index_List \<Rightarrow> bool" where
  "local_ok segs s \<longleftrightarrow>
     (if segs = [] then m_localIndexList s = [] \<and> m_localIndexStartTime s = 0
      else \<exists>xs x. m_localIndexList s = xs @ [x] \<and> StartTime x = fst (last segs) \<and> StopTime x = snd (last segs) \<and>
        m_localIndexStartTime s = StartTime x \<and> m_localIndexStopTime s = StopTime x \<and> 0 < StartTime x \<and> StartTime x < StopTime x \<and>
        StopTime x < 2 ^ 63 \<and>
        (\<forall>y \<in> set xs. 0 < StartTime y \<and> StartTime y < StopTime y \<and> StopTime y \<le> StartTime x) \<and>
        (\<forall>y \<in> set (xs @ [x]). str_find (m_szDeviceID s) (RecordFileName y) \<noteq> Some 0))"

definition tracks :: "index_env \<Rightarrow> string \<Rightarrow> int \<Rightarrow> (int \<times> int) list \<Rightarrow> SVS_Index_List \<Rightarrow> bool" where
  "tracks e dev p segs s \<longleftrightarrow> m_szDeviceID s = dev \<and> local_ok segs s \<and> m_dbIndexList s = [plan_of p] \<and> covers (db_of (index_log s)) = wanted p segs \<and>
     (if segs = [] \<or> snd (last segs) \<le> p
      then m_dbIndexStartTime s = 0 \<and> m_lastDBIndexTime s = 0 \<and> db_of (index_log s) = Map.empty \<and>
        (if segs = [] then m_lastLocalIndexTime s = 0 else 0 < m_lastLocalIndexTime s \<and> m_lastLocalIndexTime s \<le> fst (last segs))
      else open_record e (snd (last segs)) s \<and> fst (last segs) \<le> m_dbIndexStartTime s)"

lemma loop_skip:
  "(\<And>y. y \<in> set xs \<Longrightarrow> StartTime y < b \<and> StopTime y \<le> a) \<Longrightarrow>
   partition_loop e (xs @ ys) type a b f g s = partition_loop e ys type a b f g s"
  by (induction xs) auto

text \<open>The last segment: it is sent from \<open>a\<close> or its start on, whichever is later.\<close>

lemma loop_last:
  assumes "delivered e" "cal_ok e" "str_find (m_szDeviceID s) (RecordFileName x) \<noteq> Some 0"
    and x: "0 < StartTime x" "StartTime x < StopTime x" "StopTime x < 2 ^ 63" and a: "0 < a" "a < StopTime x"
    and key: "m_dbIndexStartTime s = a" "m_lastDBIndexTime s = a" "\<forall>k \<in> dom (db_of (index_log s)). k \<le> a"
    and rec: "type = RECORD_INDEX_TYPE_INSERT \<and> db_of (index_log s) = Map.empty \<or> (\<exists>z \<le> StopTime x. open_record e z s)"
  shows "\<exists>s'. partition_loop e (x # is) type a (StopTime x) f g s = Some (True, s') \<and> same_lists s s' \<and> open_record e (StopTime x) s' \<and>
    covers (db_of (index_log s')) = covers (db_of (index_log s)) \<union> {max a (StartTime x)..StopTime x} \<and>
    StartTime x \<le> m_dbIndexStartTime s'"
proof -
  let ?fresh = "a < StartTime x"
  let ?start = "if ?fresh then StartTime x else a"
  let ?s1 = "if ?fresh then s\<lparr>m_dbIndexStartTime := StartTime x, m_lastDBIndexTime := StartTime x\<rparr> else s"
  let ?type = "if ?fresh then RECORD_INDEX_TYPE_INSERT else type"
  obtain z where z: "(if ?fresh then Some (VideoFlux x) else scale_size (VideoFlux x) (StopTime x - StartTime x) (StopTime x - a)) = Some z"
    using scale_size_ok [of "StopTime x - StartTime x" "VideoFlux x" "StopTime x - a"] x by (cases ?fresh) auto
  have log: "index_log ?s1 = index_log s" by simp
  have "?type = RECORD_INDEX_TYPE_INSERT \<and> db_of (index_log ?s1) ?start = None \<or> (\<exists>w \<le> StopTime x. open_record e w ?s1)"
  proof (cases ?fresh)
    case True
    then have "db_of (index_log s) (StartTime x) = None" using key(3) by (meson domIff not_le)
    then show ?thesis using True by simp
  next
    case False
    then show ?thesis using rec by auto
  qed
  moreover have "\<forall>k \<in> dom (db_of (index_log ?s1)). k \<le> ?start" using key(3) by force
  moreover have "?start < StopTime x" "StopTime x - ?start < 2 ^ 64" using x a by auto
  ultimately obtain flag' s' where s': "send_part e ?type ?start (StopTime x) z (RecordFileName x) (if f = 0 then iRecordStopFlag x else g) ?s1 = Some (flag', s')"
    "same_lists ?s1 s'" "open_record e (StopTime x) s'" "covers (db_of (index_log s')) = covers (db_of (index_log s)) \<union> {?start..StopTime x}"
    "?start \<le> m_dbIndexStartTime s'"
    using send_part_ok [OF assms(1,2), of ?s1 "RecordFileName x" ?start "StopTime x" ?type z "if f = 0 then iRecordStopFlag x else g"]
      assms(3) key(1,2) unfolding log by (auto split: if_splits)
  have "partition_loop e (x # is) type a (StopTime x) f g s = Some (True, s'\<lparr>m_lastLocalIndexTime := StopTime x\<rparr>)"
    using s'(1) z x a by (simp add: Let_def)
  then show ?thesis
    using s'(2-5) by (intro exI [of _ "s'\<lparr>m_lastLocalIndexTime := StopTime x\<rparr>"])
      (auto simp: same_lists_def open_record_def Let_def max_def split: if_splits)
qed

text \<open>An earlier segment that the open record belongs to is sent again and changes nothing.\<close>

lemma loop_again:
  assumes "delivered e" "cal_ok e" "str_find (m_szDeviceID s) (RecordFileName y) \<noteq> Some 0"
    and y: "0 < StartTime y" "StartTime y \<le> a" "a < StopTime y" "StopTime y < 2 ^ 63" "StopTime y < b"
    and rec: "m_dbIndexStartTime s = a" "open_record e (StopTime y) s"
  shows "\<exists>s' g'. partition_loop e (y # is) type a b f g s = partition_loop e is type a b f g' s' \<and> same_lists s s' \<and>
    open_record e (StopTime y) s' \<and> covers (db_of (index_log s')) = covers (db_of (index_log s)) \<and> m_dbIndexStartTime s' = a"
proof -
  obtain z where z: "scale_size (VideoFlux y) (StopTime y - StartTime y) (StopTime y - a) = Some z"
    using scale_size_ok [of "StopTime y - StartTime y" "VideoFlux y" "StopTime y - a"] y by auto
  have o: "m_lastDBIndexTime s = a" "\<forall>x \<in> dom (db_of (index_log s)). x \<le> a" "ie_yday e a = ie_yday e (StopTime y)"
    "db_of (index_log s) a = Some (StopTime y)"
    using rec by (auto simp: open_record_def Let_def)
  obtain g' s' where s': "send_part e type a (StopTime y) z (RecordFileName y) (if f = 0 then iRecordStopFlag y else g) s = Some (g', s')"
    "same_lists s s'" "open_record e (StopTime y) s'" "covers (db_of (index_log s')) = covers (db_of (index_log s)) \<union> {a..StopTime y}"
    "m_dbIndexStartTime s' = a"
    using send_part_ok [OF assms(1-3) y(3) _ rec(1) o(1,2), of type z "if f = 0 then iRecordStopFlag y else g"] rec(2) o(3) y by fastforce
  have "{a..StopTime y} \<subseteq> covers (db_of (index_log s))" using o(4) by (rule covers_mem)
  then have c: "covers (db_of (index_log s')) = covers (db_of (index_log s))" using s'(4) by blast
  have "partition_loop e (y # is) type a b f g s = partition_loop e is type a b f g' (s'\<lparr>m_lastLocalIndexTime := StopTime y\<rparr>)"
    using s'(1) z y by (simp add: Let_def)
  then show ?thesis
    using s'(2,3,5) c by (intro exI [of _ "s'\<lparr>m_lastLocalIndexTime := StopTime y\<rparr>"] exI [of _ g'])
      (auto simp: same_lists_def open_record_def Let_def)
qed

declare partition_loop.simps [simp del]

text \<open>\<open>handleDBIndex\<close> with the open plan from \<open>p\<close> on and the last segment \<open>x\<close>.\<close>

lemma handle_plan:
  assumes "m_dbIndexList s = [plan_of p]" "p < m_localIndexStopTime s"
    "processDBIndex e p 0 s = Some (SVS_RESULT_OK, s')" "m_dbIndexList s' = [plan_of p]"
  shows "handleDBIndex e s = Some s'"
proof -
  have "s'\<lparr>m_dbIndexList := [plan_of p]\<rparr> = s'" using assms(4) by (cases s') simp
  then show ?thesis using assms(1,3) by (simp add: handleDBIndex_def plan_of_def)
qed

lemma handle_first:
  assumes "delivered e" "cal_ok e" and p: "0 < p" "p < StopTime x"
    and l: "m_localIndexList s = xs @ [x]" "m_localIndexStopTime s = StopTime x" "m_dbIndexList s = [plan_of p]"
    and x: "0 < StartTime x" "StartTime x < StopTime x" "StopTime x < 2 ^ 63" "str_find (m_szDeviceID s) (RecordFileName x) \<noteq> Some 0"
    and xs: "\<forall>y \<in> set xs. StartTime y < StopTime x \<and> StopTime y \<le> p"
    and none: "m_dbIndexStartTime s = 0" "db_of (index_log s) = Map.empty" "m_lastLocalIndexTime s \<le> StartTime x"
  shows "\<exists>s'. handleDBIndex e s = Some s' \<and> same_lists s s' \<and> open_record e (StopTime x) s' \<and>
    covers (db_of (index_log s')) = {max p (StartTime x)..StopTime x} \<and> StartTime x \<le> m_dbIndexStartTime s'"
proof -
  define a where "a = (if p < m_lastLocalIndexTime s then m_lastLocalIndexTime s else p)"
  define s1 where "s1 = s\<lparr>m_dbIndexStartTime := a, m_lastDBIndexTime := a\<rparr>"
  have a: "p \<le> a" "a < StopTime x" "max a (StartTime x) = max p (StartTime x)" using p none(3) x by (auto simp: a_def)
  have s1: "same_lists s s1" "m_dbIndexStartTime s1 = a" "m_lastDBIndexTime s1 = a" "index_log s1 = index_log s" "m_szDeviceID s1 = m_szDeviceID s"
    by (simp_all add: s1_def same_lists_def)
  obtain s2 where s2: "partition_loop e [x] RECORD_INDEX_TYPE_INSERT a (StopTime x) 0 0 s1 = Some (True, s2)" "same_lists s1 s2"
    "open_record e (StopTime x) s2" "covers (db_of (index_log s2)) = {max a (StartTime x)..StopTime x}" "StartTime x \<le> m_dbIndexStartTime s2"
    using loop_last [OF assms(1,2), of s1 x a RECORD_INDEX_TYPE_INSERT "[]" 0 0] x p a s1 none(2) by auto
  have "partition_loop e (xs @ [x]) RECORD_INDEX_TYPE_INSERT a (StopTime x) 0 0 s1 = Some (True, s2)"
    using loop_skip [of xs "StopTime x" a] xs a(1) s2(1) by force
  then have "processDBIndex e p 0 s = Some (SVS_RESULT_OK, s2)"
    using p(2) l none(1) unfolding processDBIndex_def partitionDBRecordIndex_def Let_def a_def [symmetric] s1_def [symmetric]
    by (simp add: s1_def)
  moreover have "same_lists s s2" using s1(1) s2(2) by (simp add: same_lists_def)
  ultimately show ?thesis
    using handle_plan [OF l(3), of e s2] p(2) l s2 a(3) by (auto simp: same_lists_def)
qed

lemma handle_open:
  assumes "delivered e" "cal_ok e" and p: "p < StopTime x"
    and l: "m_localIndexList s = xs @ [x]" "m_localIndexStopTime s = StopTime x" "m_dbIndexList s = [plan_of p]"
    and x: "0 < StartTime x" "StartTime x < StopTime x" "StopTime x < 2 ^ 63"
    and names: "\<forall>y \<in> set (xs @ [x]). str_find (m_szDeviceID s) (RecordFileName y) \<noteq> Some 0"
    and k: "m_dbIndexStartTime s = k" "0 < k" "k < StopTime x" "open_record e z s" "z \<le> StopTime x"
    and xs: "(\<forall>y \<in> set xs. StartTime y < StopTime x \<and> StopTime y \<le> k) \<or>
      (\<exists>ys y. xs = ys @ [y] \<and> (\<forall>w \<in> set ys. StartTime w < StopTime x \<and> StopTime w \<le> k) \<and> 0 < StartTime y \<and>
        StartTime y \<le> k \<and> k < StopTime y \<and> StopTime y = z \<and> z \<le> StartTime x)"
  shows "\<exists>s'. handleDBIndex e s = Some s' \<and> same_lists s s' \<and> open_record e (StopTime x) s' \<and>
    covers (db_of (index_log s')) = covers (db_of (index_log s)) \<union> {max k (StartTime x)..StopTime x} \<and> StartTime x \<le> m_dbIndexStartTime s'"
proof -
  have key: "m_lastDBIndexTime s = k" "\<forall>a \<in> dom (db_of (index_log s)). a \<le> k" using k by (auto simp: open_record_def Let_def)
  have "\<exists>s2. partition_loop e (xs @ [x]) RECORD_INDEX_TYPE_UPDATE k (StopTime x) 0 0 s = Some (True, s2) \<and> same_lists s s2 \<and>
    open_record e (StopTime x) s2 \<and> covers (db_of (index_log s2)) = covers (db_of (index_log s)) \<union> {max k (StartTime x)..StopTime x} \<and>
    StartTime x \<le> m_dbIndexStartTime s2"
    using xs
  proof (elim disjE exE conjE)
    assume "\<forall>y \<in> set xs. StartTime y < StopTime x \<and> StopTime y \<le> k"
    then have "partition_loop e (xs @ [x]) RECORD_INDEX_TYPE_UPDATE k (StopTime x) 0 0 s =
        partition_loop e [x] RECORD_INDEX_TYPE_UPDATE k (StopTime x) 0 0 s"
      by (intro loop_skip) simp
    then show ?thesis
      using loop_last [OF assms(1,2) _ x k(2,3,1) key, of RECORD_INDEX_TYPE_UPDATE "[]" 0 0] names k(4,5) by auto
  next
    fix ys y
    assume y: "xs = ys @ [y]" "\<forall>w \<in> set ys. StartTime w < StopTime x \<and> StopTime w \<le> k" "0 < StartTime y" "StartTime y \<le> k"
      "k < StopTime y" "StopTime y = z" "z \<le> StartTime x"
    have sk: "partition_loop e (xs @ [x]) RECORD_INDEX_TYPE_UPDATE k (StopTime x) 0 0 s =
        partition_loop e (y # [x]) RECORD_INDEX_TYPE_UPDATE k (StopTime x) 0 0 s"
      unfolding y(1) append_assoc using y(2) by (subst loop_skip) simp_all
    have "StopTime y < 2 ^ 63" "StopTime y < StopTime x" "str_find (m_szDeviceID s) (RecordFileName y) \<noteq> Some 0" "open_record e (StopTime y) s"
      using y x names k(4) by simp_all
    then obtain s1 g where s1: "partition_loop e (y # [x]) RECORD_INDEX_TYPE_UPDATE k (StopTime x) 0 0 s =
        partition_loop e [x] RECORD_INDEX_TYPE_UPDATE k (StopTime x) 0 g s1" "same_lists s s1" "open_record e z s1"
      "covers (db_of (index_log s1)) = covers (db_of (index_log s))" "m_dbIndexStartTime s1 = k"
      using loop_again [OF assms(1,2) _ y(3-5) _ _ k(1), of "StopTime x" "[x]" RECORD_INDEX_TYPE_UPDATE 0 0] y(6) by metis
    have k1: "m_lastDBIndexTime s1 = k" "\<forall>a \<in> dom (db_of (index_log s1)). a \<le> k" "str_find (m_szDeviceID s1) (RecordFileName x) \<noteq> Some 0"
      using s1(2,3,5) names by (auto simp: open_record_def same_lists_def Let_def)
    show ?thesis
      using loop_last [OF assms(1,2) k1(3) x k(2,3) s1(5) k1(1,2), of RECORD_INDEX_TYPE_UPDATE "[]" 0 g] s1(2-4) k(5)
      unfolding sk s1(1) by (auto simp: same_lists_def)
  qed
  then obtain s2 where s2: "partition_loop e (xs @ [x]) RECORD_INDEX_TYPE_UPDATE k (StopTime x) 0 0 s = Some (True, s2)" "same_lists s s2"
    "open_record e (StopTime x) s2" "covers (db_of (index_log s2)) = covers (db_of (index_log s)) \<union> {max k (StartTime x)..StopTime x}"
    "StartTime x \<le> m_dbIndexStartTime s2" by blast
  have "processDBIndex e p 0 s = Some (SVS_RESULT_OK, s2)"
    using p l k(1,2) s2(1) by (simp add: processDBIndex_def partitionDBRecordIndex_def Let_def)
  then show ?thesis
    using handle_plan [OF l(3), of e s2] p l s2 by (auto simp: same_lists_def)
qed

text \<open>The local part of \<open>updateLocalIndex\<close>; what follows is left to \<open>after_local\<close>.\<close>

definition after_local :: "index_env \<Rightarrow> int \<Rightarrow> SVS_Index_List \<Rightarrow> (svs_result \<times> SVS_Index_List) option" where
  "after_local e l s = (if m_lastDBIndexTime s \<ge> l then Some (SVS_RESULT_OK, s) else map_option (\<lambda>s3. (SVS_RESULT_OK, s3)) (handleDBIndex e s))"

definition same_db :: "SVS_Index_List \<Rightarrow> SVS_Index_List \<Rightarrow> bool" where
  "same_db s s' \<longleftrightarrow> m_szDeviceID s' = m_szDeviceID s \<and> m_dbIndexStartTime s' = m_dbIndexStartTime s \<and> m_dbIndexList s' = m_dbIndexList s \<and>
     m_lastDBIndexTime s' = m_lastDBIndexTime s \<and> index_log s' = index_log s"

lemma update_first_last:
  "(\<And>y. y \<in> set xs \<Longrightarrow> \<not> P y) \<Longrightarrow> P x \<Longrightarrow> update_first P f (xs @ [x]) = Some (xs @ [f x])"
  by (induction xs) auto

lemma local_grow:
  assumes ok: "local_ok segs s" and segs: "segs \<noteq> []" "fst (last segs) = f" "f < l" "l < 2 ^ 63"
    and l: "m_localIndexList s = xs @ [x]"
  shows "\<exists>x' s2. updateLocalIndex e f l size' name flag s = after_local e l s2 \<and> same_db s s2 \<and>
    m_localIndexList s2 = xs @ [x'] \<and> StartTime x' = f \<and> StopTime x' = l \<and> m_localIndexStopTime s2 = l \<and>
    local_ok (add_time f l segs) s2 \<and>
    m_lastLocalIndexTime s2 = (if m_lastLocalIndexTime s = 0 then f else m_lastLocalIndexTime s)"
proof -
  have x: "StartTime x = f" "m_localIndexStartTime s = f" "0 < f" "\<forall>y \<in> set xs. 0 < StartTime y \<and> StartTime y < StopTime y \<and> StopTime y \<le> f"
    "\<forall>y \<in> set (xs @ [x]). str_find (m_szDeviceID s) (RecordFileName y) \<noteq> Some 0"
    using ok segs(1,2) l by (auto simp: local_ok_def)
  define x' where "x' = x\<lparr>StopTime := l, VideoFlux := size' - m_ullIndexFileSize s, iRecordStopFlag := flag\<rparr>"
  have u: "update_first (\<lambda>i. StartTime i = f) (\<lambda>i. i\<lparr>StopTime := l, VideoFlux := size' - m_ullIndexFileSize s, iRecordStopFlag := flag\<rparr>)
      (m_localIndexList s) = Some (xs @ [x'])"
    unfolding l x'_def using x(1,4) by (intro update_first_last) auto
  define s2 where "s2 = s\<lparr>m_localIndexList := xs @ [x'], m_ullCurFileSize := size', m_localIndexStopTime := l,
    m_lastLocalIndexTime := (if m_lastLocalIndexTime s = 0 then f else m_lastLocalIndexTime s)\<rparr>"
  have "updateLocalIndex e f l size' name flag s = after_local e l s2"
    unfolding updateLocalIndex_def after_local_def s2_def Let_def u using x(2) by simp
  moreover have "local_ok (add_time f l segs) s2"
    unfolding local_ok_def using x segs
    by (auto simp: s2_def x'_def add_time_def intro!: exI [of _ xs] exI [of _ x'])
  ultimately show ?thesis by (intro exI [of _ x'] exI [of _ s2]) (simp add: s2_def x'_def same_db_def x(1))
qed

lemma local_add:
  assumes ok: "local_ok segs s" and f: "0 < f" "f \<le> l" "segs = [] \<or> snd (last segs) \<le> f"
    and name: "str_find (m_szDeviceID s) (c_str (take (ie_maxname e) name)) \<noteq> Some 0"
  shows "\<exists>xs x s2. updateLocalIndex e f l size' (Some name) flag s = after_local e l s2 \<and> same_db s s2 \<and>
    m_localIndexList s2 = xs @ [x] \<and> StartTime x = f \<and> StopTime x = l \<and> m_localIndexStopTime s2 = l \<and>
    (xs = m_localIndexList s \<or> xs = tl (m_localIndexList s)) \<and> m_localIndexStartTime s2 = f \<and>
    str_find (m_szDeviceID s) (RecordFileName x) \<noteq> Some 0 \<and>
    (m_lastLocalIndexTime s2 = (if m_lastLocalIndexTime s = 0 then f else m_lastLocalIndexTime s) \<or>
     0 < m_lastLocalIndexTime s2 \<and> m_lastLocalIndexTime s2 \<le> f)"
proof -
  have new: "m_localIndexStartTime s \<noteq> f" "segs \<noteq> [] \<longrightarrow> fst (last segs) \<noteq> f"
    using ok f(1,3) by (auto simp: local_ok_def split: if_splits)
  have old: "\<forall>y \<in> set (m_localIndexList s). 0 < StartTime y \<and> StartTime y < StopTime y \<and> StopTime y \<le> f \<and>
      str_find (m_szDeviceID s) (RecordFileName y) \<noteq> Some 0"
    using ok f(3) by (fastforce simp: local_ok_def split: if_splits)
  define x where "x = \<lparr>StartTime = f, StopTime = l, VideoFlux = size' - m_ullCurFileSize s, iRecordStopFlag = flag,
    RecordFileName = c_str (take (ie_maxname e) name)\<rparr>"
  define s1 where "s1 = add_segment e f l size' name flag s"
  define s2 where "s2 = s1\<lparr>m_ullCurFileSize := size', m_localIndexStopTime := l,
    m_lastLocalIndexTime := (if m_lastLocalIndexTime s1 = 0 then f else m_lastLocalIndexTime s1)\<rparr>"
  have "updateLocalIndex e f l size' (Some name) flag s = after_local e l s2"
    using new(1) f(2) by (simp add: updateLocalIndex_def after_local_def s2_def s1_def Let_def)
  moreover obtain xs where xs: "m_localIndexList s1 = xs @ [x]" "xs = m_localIndexList s \<or> xs = tl (m_localIndexList s)"
    "m_lastLocalIndexTime s1 = m_lastLocalIndexTime s \<or> 0 < m_lastLocalIndexTime s1 \<and> m_lastLocalIndexTime s1 \<le> f"
  proof (cases "length (m_localIndexList s @ [x]) > 1 \<and> SVS_PRORECORD_MAX_TIME < f - StopTime (hd (m_localIndexList s @ [x]))")
    case True
    then obtain y ys where y: "m_localIndexList s = y # ys" by (cases "m_localIndexList s") auto
    have "0 < StartTime (hd (ys @ [x])) \<and> StartTime (hd (ys @ [x])) \<le> f" using old y f(1) by (cases ys) (auto simp: x_def)
    then show thesis
      using that [of ys] True y by (simp add: s1_def add_segment_def x_def Let_def)
  next
    case False
    then show thesis using that [of "m_localIndexList s"] by (auto simp: s1_def add_segment_def x_def Let_def)
  qed
  moreover have "m_localIndexStartTime s1 = f" "same_db s s1" by (simp_all add: s1_def add_segment_def same_db_def Let_def)
  ultimately show ?thesis
    using f(1) name by (intro exI [of _ xs] exI [of _ x] exI [of _ s2]) (auto simp: s2_def x_def same_db_def)
qed

text \<open>A last segment that is not empty, behind segments of the list.\<close>

lemma local_ok_append:
  assumes ok: "local_ok segs s" and f: "0 < f" "f < l" "l < 2 ^ 63" "segs = [] \<or> snd (last segs) \<le> f"
    and dev: "m_szDeviceID s2 = m_szDeviceID s" and l: "m_localIndexList s2 = xs @ [x]"
    and xs: "xs = m_localIndexList s \<or> xs = tl (m_localIndexList s)"
    and x: "StartTime x = f" "StopTime x = l" "m_localIndexStartTime s2 = f" "m_localIndexStopTime s2 = l"
      "str_find (m_szDeviceID s) (RecordFileName x) \<noteq> Some 0"
  shows "local_ok (add_time f l segs) s2" "add_time f l segs = segs @ [(f, l)]" "\<forall>y \<in> set xs. 0 < StartTime y \<and> StartTime y < StopTime y \<and> StopTime y \<le> f"
proof -
  have sub: "set xs \<subseteq> set (m_localIndexList s)" using xs by (cases "m_localIndexList s") auto
  have old: "\<forall>y \<in> set (m_localIndexList s). 0 < StartTime y \<and> StartTime y < StopTime y \<and> StopTime y \<le> f \<and>
      str_find (m_szDeviceID s) (RecordFileName y) \<noteq> Some 0"
    using ok f(4) by (fastforce simp: local_ok_def split: if_splits)
  have "segs \<noteq> [] \<longrightarrow> fst (last segs) \<noteq> f"
    using ok f(1,4) by (auto simp: local_ok_def split: if_splits)
  then show l2: "add_time f l segs = segs @ [(f, l)]" by (auto simp: add_time_def)
  show "local_ok (add_time f l segs) s2"
    unfolding local_ok_def l2 using l old sub f x dev
    by (auto simp: subset_iff intro!: exI [of _ xs] exI [of _ x])
  show "\<forall>y \<in> set xs. 0 < StartTime y \<and> StartTime y < StopTime y \<and> StopTime y \<le> f" using old sub by auto
qed

text \<open>One report of the file writer.\<close>

lemma wanted_append: "wanted p (segs @ [(f, l)]) = wanted p segs \<union> (if max p f < l then {max p f..l} else {})"
  by (auto simp: wanted_def)

lemma wanted_late: "(\<And>f l. (f, l) \<in> set segs \<Longrightarrow> l \<le> p) \<Longrightarrow> wanted p segs = {}"
  by (force simp: wanted_def)

lemma wanted_from: "t \<in> wanted p segs \<Longrightarrow> p \<le> t"
  by (auto simp: wanted_def split: if_splits)

lemma step_late:
  assumes tr: "tracks e dev p segs s" "segs = [] \<or> snd (last segs) \<le> p" and n: "next_time f l segs" "l \<le> p"
    and upd: "U = after_local e l s2" "same_db s s2" "local_ok (add_time f l segs) s2"
    "m_localIndexStopTime s2 = l" "0 < m_lastLocalIndexTime s2" "m_lastLocalIndexTime s2 \<le> f"
  shows "U = Some (SVS_RESULT_OK, s2) \<and> tracks e dev p (add_time f l segs) s2"
proof -
  have none: "m_dbIndexStartTime s2 = 0" "m_lastDBIndexTime s2 = 0" "db_of (index_log s2) = Map.empty" "m_dbIndexList s2 = [plan_of p]" "m_szDeviceID s2 = dev"
    using tr upd(2) by (auto simp: tracks_def same_db_def)
  have "0 < l" using n by (auto simp: next_time_def)
  have "s2\<lparr>m_dbIndexList := [plan_of p]\<rparr> = s2" using none(4) by (cases s2) simp
  then have "handleDBIndex e s2 = Some s2"
    using none n(2) upd(4) by (simp add: handleDBIndex_def processDBIndex_def plan_of_def)
  then have "after_local e l s2 = Some (SVS_RESULT_OK, s2)" using \<open>0 < l\<close> none(2) by (simp add: after_local_def)
  moreover have "wanted p (add_time f l segs) = {}"
  proof -
    have "wanted p segs = {}" using tr by (auto simp: tracks_def)
    then have "wanted p (butlast segs) = {}" by (auto simp: wanted_def dest: in_set_butlastD)
    then show ?thesis using \<open>wanted p segs = {}\<close> n(2) by (auto simp: add_time_def wanted_append)
  qed
  moreover have "last (add_time f l segs) = (f, l)" "add_time f l segs \<noteq> []" by (simp_all add: add_time_def)
  ultimately show ?thesis
    using upd none n(2) by (simp add: tracks_def)
qed

lemma tracks_lists:
  assumes "same_lists s s'" "m_szDeviceID s = dev" "local_ok segs s" "m_dbIndexList s = [plan_of p]" "segs \<noteq> []" "\<not> snd (last segs) \<le> p"
    "open_record e (snd (last segs)) s'" "fst (last segs) \<le> m_dbIndexStartTime s'" "covers (db_of (index_log s')) = wanted p segs"
  shows "tracks e dev p segs s'"
  using assms by (simp add: tracks_def local_ok_def same_lists_def)

text \<open>The first report behind the start of the plan.\<close>

lemma step_first:
  assumes env: "delivered e" "cal_ok e" and p: "0 < p" "p < l"
    and tr: "tracks e dev p segs s" "segs = [] \<or> snd (last segs) \<le> p" and n: "next_time f l segs"
    and upd: "U = after_local e l s2" "same_db s s2" "local_ok (add_time f l segs) s2"
    "m_localIndexStopTime s2 = l" "0 < m_lastLocalIndexTime s2" "m_lastLocalIndexTime s2 \<le> f"
    and xs: "m_localIndexList s2 = xs @ [x]" "\<forall>y \<in> set xs. StopTime y \<le> p"
  shows "\<exists>s'. U = Some (SVS_RESULT_OK, s') \<and> tracks e dev p (add_time f l segs) s'"
proof -
  have la: "last (add_time f l segs) = (f, l)" "add_time f l segs \<noteq> []" by (simp_all add: add_time_def)
  have none: "m_dbIndexStartTime s2 = 0" "m_lastDBIndexTime s2 = 0" "db_of (index_log s2) = Map.empty" "m_dbIndexList s2 = [plan_of p]"
    "m_szDeviceID s2 = dev"
    using tr upd(2) by (auto simp: tracks_def same_db_def)
  have x: "StartTime x = f" "StopTime x = l" "0 < StartTime x" "StartTime x < StopTime x" "StopTime x < 2 ^ 63"
    "\<forall>y \<in> set xs. StartTime y < StopTime y \<and> StopTime y \<le> StartTime x" "str_find (m_szDeviceID s2) (RecordFileName x) \<noteq> Some 0"
    using upd(3) xs(1) la by (auto simp: local_ok_def)
  obtain s' where s': "handleDBIndex e s2 = Some s'" "same_lists s2 s'" "open_record e (StopTime x) s'"
    "covers (db_of (index_log s')) = {max p (StartTime x)..StopTime x}" "StartTime x \<le> m_dbIndexStartTime s'"
    using handle_first [OF env p(1) _ xs(1) _ none(4) x(3-5,7) _ none(1,3)] p(2) upd(4,6) x xs(2) by fastforce
  have "wanted p segs = {}" using tr by (auto simp: tracks_def)
  then have "wanted p (butlast segs) = {}" by (auto simp: wanted_def dest: in_set_butlastD)
  then have "wanted p (add_time f l segs) = {max p f..l}"
    using \<open>wanted p segs = {}\<close> p(2) n by (auto simp: add_time_def wanted_append next_time_def)
  then have "tracks e dev p (add_time f l segs) s'"
    using tracks_lists [OF s'(2) none(5) upd(3) none(4) la(2)] la(1) p(2) s'(3-5) x by simp
  moreover have "U = Some (SVS_RESULT_OK, s')"
    using upd(1) s'(1) none(2) p by (simp add: after_local_def)
  ultimately show ?thesis by blast
qed

text \<open>A later report.\<close>

lemma step_open:
  assumes env: "delivered e" "cal_ok e"
    and tr: "tracks e dev p segs s" "segs \<noteq> []" "p < snd (last segs)" "m_dbIndexStartTime s < l"
    and upd: "U = after_local e l s2" "same_db s s2" "local_ok (add_time f l segs) s2"
    "m_localIndexStopTime s2 = l" "snd (last segs) \<le> l"
    and xs: "m_localIndexList s2 = xs @ [x]" "(\<forall>y \<in> set xs. StopTime y \<le> m_dbIndexStartTime s) \<or>
      (\<exists>ys y. xs = ys @ [y] \<and> (\<forall>w \<in> set ys. StopTime w \<le> m_dbIndexStartTime s) \<and> StartTime y \<le> m_dbIndexStartTime s \<and>
        m_dbIndexStartTime s < StopTime y \<and> StopTime y = snd (last segs))"
    and cover: "wanted p segs \<union> {max (m_dbIndexStartTime s) f..l} = wanted p (add_time f l segs)"
  shows "\<exists>s'. U = Some (SVS_RESULT_OK, s') \<and> tracks e dev p (add_time f l segs) s'"
proof -
  let ?k = "m_dbIndexStartTime s" and ?z = "snd (last segs)"
  have la: "last (add_time f l segs) = (f, l)" "add_time f l segs \<noteq> []" by (simp_all add: add_time_def)
  have o: "open_record e ?z s" "fst (last segs) \<le> ?k" "covers (db_of (index_log s)) = wanted p segs" "0 < fst (last segs)"
    using tr by (auto simp: tracks_def local_ok_def)
  have s2: "open_record e ?z s2" "m_dbIndexStartTime s2 = ?k" "m_dbIndexList s2 = [plan_of p]" "index_log s2 = index_log s" "m_lastDBIndexTime s2 = ?k"
    "m_szDeviceID s2 = dev"
    using o(1) tr(1) upd(2) by (auto simp: open_record_def same_db_def tracks_def Let_def)
  have x: "StartTime x = f" "StopTime x = l" "0 < StartTime x" "StartTime x < StopTime x" "StopTime x < 2 ^ 63"
    "\<forall>y \<in> set xs. 0 < StartTime y \<and> StartTime y < StopTime y \<and> StopTime y \<le> StartTime x"
    "\<forall>y \<in> set (xs @ [x]). str_find (m_szDeviceID s2) (RecordFileName y) \<noteq> Some 0"
    using upd(3) xs(1) la by (auto simp: local_ok_def)
  have xs': "(\<forall>y \<in> set xs. StartTime y < StopTime x \<and> StopTime y \<le> ?k) \<or>
      (\<exists>ys y. xs = ys @ [y] \<and> (\<forall>w \<in> set ys. StartTime w < StopTime x \<and> StopTime w \<le> ?k) \<and> 0 < StartTime y \<and>
        StartTime y \<le> ?k \<and> ?k < StopTime y \<and> StopTime y = ?z \<and> ?z \<le> StartTime x)"
    using xs(2)
  proof (elim disjE exE conjE)
    assume "\<forall>y \<in> set xs. StopTime y \<le> ?k"
    then show ?thesis using x(4,6) by force
  next
    fix ys y
    assume "xs = ys @ [y]" "\<forall>w \<in> set ys. StopTime w \<le> ?k" "StartTime y \<le> ?k" "?k < StopTime y" "StopTime y = ?z"
    then show ?thesis using x(4,6) by (intro disjI2 exI [of _ ys] exI [of _ y]) force
  qed
  have "0 < ?k" "p < StopTime x" "?k < StopTime x" "?z \<le> StopTime x" using o(2,4) tr(3,4) upd(5) x(2) by auto
  then obtain s' where s': "handleDBIndex e s2 = Some s'" "same_lists s2 s'" "open_record e (StopTime x) s'"
    "covers (db_of (index_log s')) = covers (db_of (index_log s2)) \<union> {max ?k (StartTime x)..StopTime x}" "StartTime x \<le> m_dbIndexStartTime s'"
    using handle_open [OF env _ xs(1) _ s2(3) x(3-5,7) s2(2) _ _ s2(1) _ xs'] upd(4) x(2) by auto
  have "tracks e dev p (add_time f l segs) s'"
    using tracks_lists [OF s'(2) s2(6) upd(3) s2(3) la(2)] la(1) tr(3) upd(5) s'(3-5) x(1,2) o(3) s2(4) cover by simp
  moreover have "U = Some (SVS_RESULT_OK, s')"
    using upd(1) s'(1) s2(5) tr(4) by (simp add: after_local_def)
  ultimately show ?thesis by blast
qed

lemma wanted_grow:
  assumes "segs \<noteq> []" "last segs = (f, z)" "p < z" "f \<le> k" "p \<le> k" "k \<le> z" "z \<le> l" "f < z"
  shows "wanted p segs \<union> {max k f..l} = wanted p (butlast segs @ [(f, l)])"
proof -
  have "segs = butlast segs @ [(f, z)]" using assms(1,2) by (metis append_butlast_last_id)
  then have "wanted p segs = wanted p (butlast segs) \<union> {max p f..z}"
    using wanted_append [of p "butlast segs" f z] assms(3,8) by simp
  moreover have "{max p f..z} \<union> {max k f..l} = {max p f..l}" using assms by auto
  ultimately show ?thesis using assms by (simp add: wanted_append Un_assoc)
qed

lemma open_key:
  assumes "tracks e dev p segs s" "segs \<noteq> []" "p < snd (last segs)"
  shows "p \<le> m_dbIndexStartTime s" "m_dbIndexStartTime s \<le> snd (last segs)" "fst (last segs) \<le> m_dbIndexStartTime s"
    "m_lastDBIndexTime s = m_dbIndexStartTime s" "open_record e (snd (last segs)) s" "covers (db_of (index_log s)) = wanted p segs"
proof -
  show o: "open_record e (snd (last segs)) s" "covers (db_of (index_log s)) = wanted p segs" "fst (last segs) \<le> m_dbIndexStartTime s"
    using assms by (auto simp: tracks_def)
  then have k: "db_of (index_log s) (m_dbIndexStartTime s) = Some (snd (last segs))" "m_dbIndexStartTime s \<le> snd (last segs)"
    by (auto simp: open_record_def Let_def)
  then have "m_dbIndexStartTime s \<in> covers (db_of (index_log s))" using covers_mem [of "db_of (index_log s)", OF k(1)] k(2) by auto
  then show "p \<le> m_dbIndexStartTime s" using o(2) wanted_from by blast
  show "m_dbIndexStartTime s \<le> snd (last segs)" by (rule k(2))
  show "m_lastDBIndexTime s = m_dbIndexStartTime s" using o(1) by (simp add: open_record_def Let_def)
qed

text \<open>A report of a new segment that is not empty, after the local part.\<close>

lemma step_new:
  assumes env: "delivered e" "cal_ok e" and p: "0 < p" and tr: "tracks e dev p segs s" and n: "next_time f l segs"
    and sn: "segs = [] \<or> snd (last segs) \<le> f"
    and upd: "U = after_local e l s2" "same_db s s2" "m_localIndexList s2 = xs @ [x]"
      "m_localIndexStopTime s2 = l" "xs = m_localIndexList s \<or> xs = tl (m_localIndexList s)" "local_ok (add_time f l segs) s2"
      "add_time f l segs = segs @ [(f, l)]"
    and ll: "segs = [] \<or> snd (last segs) \<le> p \<Longrightarrow> 0 < m_lastLocalIndexTime s2 \<and> m_lastLocalIndexTime s2 \<le> f"
  shows "\<exists>s'. U = Some (SVS_RESULT_OK, s') \<and> tracks e dev p (add_time f l segs) s'"
proof -
  have ok: "local_ok segs s" using tr by (simp add: tracks_def)
  have n': "0 < f" "f < l" "l < 2 ^ 63" using n by (auto simp: next_time_def)
  note app = upd(7)
  show ?thesis
  proof (cases "segs = [] \<or> snd (last segs) \<le> p")
    case before: True
    then have ll: "0 < m_lastLocalIndexTime s2" "m_lastLocalIndexTime s2 \<le> f" using ll by auto
    have "\<forall>y \<in> set (m_localIndexList s). StopTime y \<le> p" using ok before by (fastforce simp: local_ok_def split: if_splits)
    then have "\<forall>y \<in> set xs. StopTime y \<le> p" using upd(5) by (cases "m_localIndexList s") auto
    then show ?thesis
      using step_late [OF tr before n _ upd(1,2,6,4) ll] step_first [OF env p _ tr before n upd(1,2,6,4) ll upd(3)] by (cases "l \<le> p") auto
  next
    case open': False
    then have segs: "segs \<noteq> []" "p < snd (last segs)" by auto
    note k = open_key [OF tr segs]
    obtain ys y where old: "m_localIndexList s = ys @ [y]" "StartTime y = fst (last segs)" "StopTime y = snd (last segs)"
      "\<forall>w \<in> set ys. StopTime w \<le> fst (last segs)"
      using ok segs(1) by (auto simp: local_ok_def)
    have zf: "snd (last segs) \<le> f" using sn segs by simp
    then have lt: "m_dbIndexStartTime s < l" "snd (last segs) \<le> l" using k(2) n'(2) by auto
    have "(\<forall>y \<in> set xs. StopTime y \<le> m_dbIndexStartTime s) \<or>
      (\<exists>ys y. xs = ys @ [y] \<and> (\<forall>w \<in> set ys. StopTime w \<le> m_dbIndexStartTime s) \<and> StartTime y \<le> m_dbIndexStartTime s \<and>
        m_dbIndexStartTime s < StopTime y \<and> StopTime y = snd (last segs))"
    proof (cases "xs = []")
      case False
      then obtain ys' where xs: "xs = ys' @ [y]" "set ys' \<subseteq> set ys" using upd(5) old(1) by (cases ys) auto
      have "\<forall>w \<in> set ys'. StopTime w \<le> m_dbIndexStartTime s" using old(4) xs(2) k(3) by force
      then show ?thesis
        using xs(1) old(2,3) k(2,3) by (cases "m_dbIndexStartTime s < StopTime y") auto
    qed simp
    moreover have "wanted p segs \<union> {max (m_dbIndexStartTime s) f..l} = wanted p (add_time f l segs)"
      using zf k(2) segs(2) n'(2) by (simp add: app wanted_append max_def)
    ultimately show ?thesis
      using step_open [OF env tr segs lt(1) upd(1,2,6,4) lt(2) upd(3)] by blast
  qed
qed

text \<open>The file name of a report matters only when the report begins a segment.\<close>

definition name_ok :: "index_env \<Rightarrow> string \<Rightarrow> int \<Rightarrow> (int \<times> int) list \<Rightarrow> string option \<Rightarrow> bool" where
  "name_ok e dev f segs name \<longleftrightarrow>
     segs \<noteq> [] \<and> fst (last segs) = f \<or>
     (case name of None \<Rightarrow> False | Some n \<Rightarrow> str_find dev (c_str (take (ie_maxname e) n)) \<noteq> Some 0)"

lemma step_tracks:
  assumes env: "delivered e" "cal_ok e" and p: "0 < p" and tr: "tracks e dev p segs s" and n: "next_time f l segs"
    and name: "name_ok e (m_szDeviceID s) f segs name"
  shows "\<exists>s'. updateLocalIndex e f l size' name flag s = Some (SVS_RESULT_OK, s') \<and> tracks e dev p (add_time f l segs) s'"
proof -
  have ok: "local_ok segs s" using tr by (simp add: tracks_def)
  have n': "0 < f" "f < l" "l < 2 ^ 63" using n by (auto simp: next_time_def)
  have late: "0 < m_lastLocalIndexTime s" "m_lastLocalIndexTime s \<le> fst (last segs)" if "segs \<noteq> []" "snd (last segs) \<le> p"
    using tr that by (auto simp: tracks_def)
  have zero: "m_lastLocalIndexTime s = 0" if "segs = []" using tr that by (auto simp: tracks_def)
  show ?thesis
  proof (cases "segs \<noteq> [] \<and> fst (last segs) = f")
    case True
    then obtain xs x where old: "m_localIndexList s = xs @ [x]" "StartTime x = f" "StopTime x = snd (last segs)"
      "\<forall>y \<in> set xs. StopTime y \<le> f" "f < snd (last segs)"
      using ok by (auto simp: local_ok_def)
    have z: "snd (last segs) \<le> l" using n True n'(2) old(5) by (auto simp: next_time_def)
    from local_grow [OF ok _ _ n'(2,3) old(1), of e size' name flag] True obtain x' s2 where
      upd: "updateLocalIndex e f l size' name flag s = after_local e l s2" "same_db s s2" "m_localIndexList s2 = xs @ [x']"
      "m_localIndexStopTime s2 = l" "local_ok (add_time f l segs) s2"
      "m_lastLocalIndexTime s2 = (if m_lastLocalIndexTime s = 0 then f else m_lastLocalIndexTime s)" by blast
    show ?thesis
    proof (cases "snd (last segs) \<le> p")
      case before: True
      have ll: "0 < m_lastLocalIndexTime s2" "m_lastLocalIndexTime s2 \<le> f" using late True before upd(6) by auto
      have "\<forall>y \<in> set xs. StopTime y \<le> p" using old(4,5) before by force
      then show ?thesis
        using step_late [OF tr _ n _ upd(1,2,5,4) ll] step_first [OF env p _ tr _ n upd(1,2,5,4) ll upd(3)] before by (cases "l \<le> p") auto
    next
      case False
      then have k: "p \<le> m_dbIndexStartTime s" "m_dbIndexStartTime s \<le> snd (last segs)" "f \<le> m_dbIndexStartTime s"
        "m_lastDBIndexTime s = m_dbIndexStartTime s" using open_key [OF tr] True by auto
      have la: "last segs = (f, snd (last segs))" using True by (metis prod.collapse)
      show ?thesis
      proof (cases "m_dbIndexStartTime s < l")
        case lt: True
        have "wanted p segs \<union> {max (m_dbIndexStartTime s) f..l} = wanted p (add_time f l segs)"
          using wanted_grow [OF _ la _ k(3,1,2) z old(5)] True False by (simp add: add_time_def)
        moreover have "\<forall>y \<in> set xs. StopTime y \<le> m_dbIndexStartTime s" using old(4) k(3) by force
        ultimately show ?thesis
          using step_open [OF env tr _ _ lt upd(1,2,5,4) z upd(3)] True False by auto
      next
        case ge: False
        then have "add_time f l segs = segs" using True la k(2) z by (simp add: add_time_def) (metis append_butlast_last_id dual_order.antisym order.trans not_less)
        moreover have "after_local e l s2 = Some (SVS_RESULT_OK, s2)" using ge k(4) upd(2) by (simp add: after_local_def same_db_def)
        moreover have "tracks e dev p segs s2"
          using tr upd(2,5) \<open>add_time f l segs = segs\<close> True False by (auto simp: tracks_def same_db_def open_record_def Let_def)
        ultimately show ?thesis using upd(1) by simp
      qed
    qed
  next
    case False
    then have sn: "segs = [] \<or> snd (last segs) \<le> f" using n by (auto simp: next_time_def)
    with name False obtain nm where nm: "name = Some nm" "str_find (m_szDeviceID s) (c_str (take (ie_maxname e) nm)) \<noteq> Some 0"
      by (auto simp: name_ok_def split: option.splits)
    from local_add [OF ok n'(1) less_imp_le [OF n'(2)] sn nm(2), of size' flag] obtain xs x s2 where
      upd: "updateLocalIndex e f l size' name flag s = after_local e l s2" "same_db s s2" "m_localIndexList s2 = xs @ [x]"
      "m_localIndexStopTime s2 = l" "xs = m_localIndexList s \<or> xs = tl (m_localIndexList s)" "True" "m_localIndexStartTime s2 = f"
      "str_find (m_szDeviceID s) (RecordFileName x) \<noteq> Some 0"
      "m_lastLocalIndexTime s2 = (if m_lastLocalIndexTime s = 0 then f else m_lastLocalIndexTime s) \<or>
       0 < m_lastLocalIndexTime s2 \<and> m_lastLocalIndexTime s2 \<le> f" "StartTime x = f" "StopTime x = l"
      unfolding nm(1) by blast
    note loc = local_ok_append [OF ok n' sn _ upd(3,5) _ _ _ upd(4) upd(8)]
    have sd: "m_szDeviceID s2 = m_szDeviceID s" using upd(2) by (simp add: same_db_def)
    have "fst (last segs) \<le> f" if "segs \<noteq> []" using that sn ok by (auto simp: local_ok_def)
    then have ll: "0 < m_lastLocalIndexTime s2 \<and> m_lastLocalIndexTime s2 \<le> f" if "segs = [] \<or> snd (last segs) \<le> p"
      using late zero that upd(9) n'(1) by (cases "segs = []"; force)
    show ?thesis
      using step_new [OF env p tr n sn upd(1,2,3,4,5) loc(1,2) [OF sd upd(10,11,7)] ll] by blast
  qed
qed

section \<open>Segments without length\<close>

text \<open>
  When the file writer begins a new segment it first reports it with its start as its end.  Such a report sends nothing
  new; the segment is \<open>pending\<close> until it grows.  The state is that of the segments before it (\<open>s0\<close>), but for the list.
\<close>

definition pending :: "index_env \<Rightarrow> string \<Rightarrow> int \<Rightarrow> (int \<times> int) list \<Rightarrow> int \<Rightarrow> SVS_Index_List \<Rightarrow> bool" where
  "pending e dev p segs f s \<longleftrightarrow> 0 < f \<and> f < 2 ^ 63 \<and> (segs = [] \<or> snd (last segs) \<le> f) \<and> m_localIndexStartTime s = f \<and>
     (segs = [] \<or> snd (last segs) \<le> p \<longrightarrow> f \<le> p \<and> 0 < m_lastLocalIndexTime s \<and> m_lastLocalIndexTime s \<le> f) \<and>
     (\<exists>s0 xs x. tracks e dev p segs s0 \<and> same_db s0 s \<and> m_localIndexList s = xs @ [x] \<and>
        (xs = m_localIndexList s0 \<or> xs = tl (m_localIndexList s0)) \<and> StartTime x = f \<and> StopTime x = f \<and>
        str_find dev (RecordFileName x) \<noteq> Some 0)"

lemma loop_empty_last:
  "StartTime x = b \<Longrightarrow> partition_loop e [x] t a b f g s = Some (False, s)"
  by (simp add: partition_loop.simps)

lemma handle_fail:
  assumes "m_dbIndexList s = [plan_of p]" "processDBIndex e p 0 s = Some (SVS_RESULT_FAILURE, s')" "m_dbIndexList s' = [plan_of p]"
  shows "handleDBIndex e s = Some s'"
proof -
  have "s'\<lparr>m_dbIndexList := [plan_of p]\<rparr> = s'" using assms(3) by (cases s') simp
  then show ?thesis using assms(1,2) by (simp add: handleDBIndex_def plan_of_def)
qed

lemma handle_empty:
  assumes "delivered e" "cal_ok e" and p: "p < f"
    and l: "m_localIndexList s = xs @ [x]" "m_localIndexStopTime s = f" "m_dbIndexList s = [plan_of p]" "StartTime x = f"
    and names: "\<forall>y \<in> set xs. str_find (m_szDeviceID s) (RecordFileName y) \<noteq> Some 0"
    and k: "m_dbIndexStartTime s = k" "0 < k" "k < f" "open_record e z s" "z \<le> f" "f < 2 ^ 63" "g \<le> k"
    and xs: "(\<forall>y \<in> set xs. StartTime y < f \<and> StopTime y \<le> k) \<or>
      (\<exists>ys y. xs = ys @ [y] \<and> (\<forall>w \<in> set ys. StartTime w < f \<and> StopTime w \<le> k) \<and> 0 < StartTime y \<and> StartTime y = g \<and>
        StartTime y \<le> k \<and> k < StopTime y \<and> StopTime y = z)"
  shows "\<exists>s'. handleDBIndex e s = Some s' \<and> same_lists s s' \<and> open_record e z s' \<and>
    covers (db_of (index_log s')) = covers (db_of (index_log s)) \<and> g \<le> m_dbIndexStartTime s'"
proof -
  have key: "m_lastDBIndexTime s = k" "\<forall>a \<in> dom (db_of (index_log s)). a \<le> k" "db_of (index_log s) k = Some z"
    using k by (auto simp: open_record_def Let_def)
  have proc: "processDBIndex e p 0 s =
      map_option (\<lambda>(found, s1). (if found then SVS_RESULT_OK else SVS_RESULT_FAILURE, s1))
        (partition_loop e (xs @ [x]) RECORD_INDEX_TYPE_UPDATE k f 0 0 s)"
    using p l k(1,2) by (simp add: processDBIndex_def partitionDBRecordIndex_def Let_def)
  have finish: ?thesis
    if "partition_loop e (xs @ [x]) RECORD_INDEX_TYPE_UPDATE k f 0 0 s = Some (found, s1)" "same_lists s s1" "open_record e z s1"
      "covers (db_of (index_log s1)) = covers (db_of (index_log s))" "g \<le> m_dbIndexStartTime s1" for found s1
  proof -
    have "m_dbIndexList s1 = [plan_of p]" using that(2) l(3) by (simp add: same_lists_def)
    then have "handleDBIndex e s = Some s1"
      using handle_fail [OF l(3), of e s1] handle_plan [OF l(3), of e s1] p l(2) proc that(1) by (cases found) simp_all
    with that show ?thesis by blast
  qed
  show ?thesis
    using xs
  proof (elim disjE exE conjE)
    assume "\<forall>y \<in> set xs. StartTime y < f \<and> StopTime y \<le> k"
    then have "partition_loop e (xs @ [x]) RECORD_INDEX_TYPE_UPDATE k f 0 0 s = partition_loop e [x] RECORD_INDEX_TYPE_UPDATE k f 0 0 s"
      by (intro loop_skip) simp
    then show ?thesis
      using loop_empty_last [OF l(4)] k by (intro finish [of False s]) (simp_all add: same_lists_def)
  next
    fix ys y
    assume y: "xs = ys @ [y]" "\<forall>w \<in> set ys. StartTime w < f \<and> StopTime w \<le> k" "0 < StartTime y" "StartTime y = g" "StartTime y \<le> k"
      "k < StopTime y" "StopTime y = z"
    have sk: "partition_loop e (xs @ [x]) RECORD_INDEX_TYPE_UPDATE k f 0 0 s = partition_loop e (y # [x]) RECORD_INDEX_TYPE_UPDATE k f 0 0 s"
      unfolding y(1) append_assoc using y(2) by (subst loop_skip) simp_all
    have ny: "str_find (m_szDeviceID s) (RecordFileName y) \<noteq> Some 0" using names y(1) by simp
    show ?thesis
    proof (cases "z < f")
      case True
      have "StopTime y < 2 ^ 63" "StopTime y < f" "open_record e (StopTime y) s" using y(7) True k(4,6) by simp_all
      then obtain s1 g' where s1: "partition_loop e (y # [x]) RECORD_INDEX_TYPE_UPDATE k f 0 0 s =
          partition_loop e [x] RECORD_INDEX_TYPE_UPDATE k f 0 g' s1" "same_lists s s1" "open_record e z s1"
        "covers (db_of (index_log s1)) = covers (db_of (index_log s))" "m_dbIndexStartTime s1 = k"
        using loop_again [OF assms(1,2) ny y(3,5,6) _ _ k(1), of f "[x]" RECORD_INDEX_TYPE_UPDATE 0 0] y(7) by metis
      then show ?thesis
        using loop_empty_last [OF l(4)] k(7) by (intro finish [of False s1]) (simp_all add: sk)
    next
      case False
      then have z: "z = f" using k(5) by simp
      have "\<exists>w \<le> StopTime y. open_record e w s" using k(4) y(7) by auto
      then obtain s1 where s1: "partition_loop e (y # [x]) RECORD_INDEX_TYPE_UPDATE k (StopTime y) 0 0 s = Some (True, s1)" "same_lists s s1"
        "open_record e (StopTime y) s1"
        "covers (db_of (index_log s1)) = covers (db_of (index_log s)) \<union> {max k (StartTime y)..StopTime y}" "StartTime y \<le> m_dbIndexStartTime s1"
        using loop_last [OF assms(1,2) ny y(3) _ _ k(2) y(6) k(1) key(1,2), of RECORD_INDEX_TYPE_UPDATE "[x]" 0 0] y(5-7) k(6) z by auto
      have "{max k (StartTime y)..StopTime y} \<subseteq> covers (db_of (index_log s))"
        using covers_mem [of "db_of (index_log s)", OF key(3)] y(5,7) by (simp add: max_def)
      then show ?thesis
        using s1 y(4,7) z by (intro finish [of True s1]) (auto simp: sk)
    qed
  qed
qed

text \<open>After the local part of an empty report the segment is pending.\<close>

lemma empty_after:
  assumes env: "delivered e" "cal_ok e" and tr: "tracks e dev p segs s0" and f: "0 < f" "f < 2 ^ 63" "segs = [] \<or> snd (last segs) \<le> f"
    and early: "segs = [] \<or> snd (last segs) \<le> p \<Longrightarrow> f \<le> p \<and> 0 < m_lastLocalIndexTime s \<and> m_lastLocalIndexTime s \<le> f"
    and upd: "same_db s0 s" "m_localIndexList s = xs @ [x]" "xs = m_localIndexList s0 \<or> xs = tl (m_localIndexList s0)"
      "StartTime x = f" "StopTime x = f" "str_find dev (RecordFileName x) \<noteq> Some 0" "m_localIndexStartTime s = f" "m_localIndexStopTime s = f"
  shows "\<exists>s'. after_local e f s = Some (SVS_RESULT_OK, s') \<and> pending e dev p segs f s'"
proof -
  have ok: "local_ok segs s0" and dev: "m_szDeviceID s0 = dev" using tr by (auto simp: tracks_def)
  have pend: "pending e dev p segs f s" using assms(3-7) upd unfolding pending_def by blast
  show ?thesis
  proof (cases "segs = [] \<or> snd (last segs) \<le> p")
    case True
    have none: "m_dbIndexStartTime s = 0" "m_lastDBIndexTime s = 0" "m_dbIndexList s = [plan_of p]"
      using tr upd(1) True by (auto simp: tracks_def same_db_def)
    have "s\<lparr>m_dbIndexList := [plan_of p]\<rparr> = s" using none(3) by (cases s) simp
    then have "handleDBIndex e s = Some s"
      using none early [OF True] upd(8) by (simp add: handleDBIndex_def processDBIndex_def plan_of_def)
    then have "after_local e f s = Some (SVS_RESULT_OK, s)" using f(1) none(2) by (simp add: after_local_def)
    with pend show ?thesis by blast
  next
    case False
    then have segs: "segs \<noteq> []" "p < snd (last segs)" by auto
    note key = open_key [OF tr segs]
    let ?k = "m_dbIndexStartTime s0" and ?z = "snd (last segs)"
    have s: "m_dbIndexStartTime s = ?k" "m_lastDBIndexTime s = ?k" "m_dbIndexList s = [plan_of p]" "index_log s = index_log s0"
      "open_record e ?z s" "m_szDeviceID s = dev"
      using key(4,5) tr upd(1) by (auto simp: same_db_def tracks_def open_record_def Let_def)
    show ?thesis
    proof (cases "?k < f")
      case False
      then have "after_local e f s = Some (SVS_RESULT_OK, s)" using s(2) by (simp add: after_local_def)
      with pend show ?thesis by blast
    next
      case lt: True
      obtain ys y where old: "m_localIndexList s0 = ys @ [y]" "StartTime y = fst (last segs)" "StopTime y = ?z" "0 < StartTime y"
        "StartTime y < StopTime y" "\<forall>w \<in> set ys. StartTime w < StopTime w \<and> StopTime w \<le> fst (last segs)"
        "\<forall>w \<in> set (ys @ [y]). str_find dev (RecordFileName w) \<noteq> Some 0"
        using ok segs(1) dev by (auto simp: local_ok_def)
      have zf: "?z \<le> f" using f(3) segs(1) by simp
      have sub: "set xs \<subseteq> set (ys @ [y])" using upd(3) old(1) by (metis list.set_sel(2) subsetI tl_Nil)
      have ysf: "StartTime w < f \<and> StopTime w \<le> ?k" if "w \<in> set ys" for w
        using old(2,3,5,6) that key(3) zf by fastforce
      have "(\<forall>w \<in> set xs. StartTime w < f \<and> StopTime w \<le> ?k) \<or>
        (\<exists>zs w. xs = zs @ [w] \<and> (\<forall>v \<in> set zs. StartTime v < f \<and> StopTime v \<le> ?k) \<and> 0 < StartTime w \<and> StartTime w = fst (last segs) \<and>
          StartTime w \<le> ?k \<and> ?k < StopTime w \<and> StopTime w = ?z)"
      proof (cases "?z \<le> ?k")
        case True
        have "StartTime w < f \<and> StopTime w \<le> ?k" if "w \<in> set xs" for w
          using that sub ysf old(3,5) True zf lt by (cases "w = y") auto
        then show ?thesis by blast
      next
        case False
        show ?thesis
        proof (cases "xs = []")
          case False
          then obtain zs where zs: "xs = zs @ [y]" "set zs \<subseteq> set ys"
            using upd(3) old(1) by (cases ys) auto
          then show ?thesis
            using ysf old(2-4) key(3) \<open>\<not> ?z \<le> ?k\<close> by (intro disjI2 exI [of _ zs] exI [of _ y]) auto
        qed simp
      qed
      moreover have "\<forall>w \<in> set xs. str_find (m_szDeviceID s) (RecordFileName w) \<noteq> Some 0" using old(7) sub s(6) by blast
      moreover have "0 < ?k" "p < f" using key(3) old(2,4) segs(2) zf by auto
      ultimately obtain s' where s': "handleDBIndex e s = Some s'" "same_lists s s'" "open_record e ?z s'"
        "covers (db_of (index_log s')) = covers (db_of (index_log s))" "fst (last segs) \<le> m_dbIndexStartTime s'"
        using handle_empty [OF env _ upd(2,8) s(3) upd(4) _ s(1) _ lt s(5) zf f(2) key(3)] by blast
      define t where "t = s'\<lparr>m_localIndexList := m_localIndexList s0, m_localIndexStartTime := m_localIndexStartTime s0,
        m_localIndexStopTime := m_localIndexStopTime s0\<rparr>"
      have t: "m_localIndexList t = m_localIndexList s0" "same_db t s'" by (simp_all add: t_def same_db_def)
      have eqs: "m_szDeviceID t = m_szDeviceID s0" "m_localIndexList t = m_localIndexList s0"
        "m_localIndexStartTime t = m_localIndexStartTime s0" "m_localIndexStopTime t = m_localIndexStopTime s0"
        using s'(2) s(6) dev by (simp_all add: t_def same_lists_def)
      have "local_ok segs t" using ok unfolding local_ok_def eqs .
      then have "tracks e dev p segs t"
        using s' s key(6) segs by (simp add: tracks_def t_def same_lists_def open_record_def Let_def)
      moreover have "m_localIndexList s' = xs @ [x]" "m_localIndexStartTime s' = f"
        using s'(2) upd(2,7) by (simp_all add: same_lists_def)
      ultimately have "pending e dev p segs f s'"
        unfolding pending_def using f segs upd(3-6) t by (intro conjI exI [of _ t] exI [of _ xs] exI [of _ x]) auto
      moreover have "after_local e f s = Some (SVS_RESULT_OK, s')" using s'(1) s(2) lt by (simp add: after_local_def)
      ultimately show ?thesis by blast
    qed
  qed
qed

text \<open>
  Which report may come next: the last segment grows (it may have been empty), or a new one begins behind a last segment
  that is not empty.  A new one may be empty only if it lies before the plan or a record is open already.
\<close>

definition report_ok :: "int \<Rightarrow> int \<Rightarrow> int \<Rightarrow> (int \<times> int) list \<Rightarrow> bool" where
  "report_ok p f l segs \<longleftrightarrow> 0 < f \<and> f \<le> l \<and> l < 2 ^ 63 \<and>
     (segs \<noteq> [] \<and> fst (last segs) = f \<and> snd (last segs) \<le> l \<or>
      (segs = [] \<or> fst (last segs) < snd (last segs) \<and> snd (last segs) \<le> f) \<and>
      (f < l \<or> f \<le> p \<or> segs \<noteq> [] \<and> p < snd (last segs)))"

definition follows :: "index_env \<Rightarrow> string \<Rightarrow> int \<Rightarrow> (int \<times> int) list \<Rightarrow> SVS_Index_List \<Rightarrow> bool" where
  "follows e dev p segs s \<longleftrightarrow> tracks e dev p segs s \<or> (\<exists>segs' f. segs = segs' @ [(f, f)] \<and> pending e dev p segs' f s)"

lemma follows_covers:
  assumes "follows e dev p segs s"
  shows "covers (db_of (index_log s)) = wanted p segs" "m_szDeviceID s = dev"
proof -
  have "covers (db_of (index_log s)) = wanted p segs \<and> m_szDeviceID s = dev"
    using assms unfolding follows_def
  proof (elim disjE exE conjE)
    fix segs' f
    assume "segs = segs' @ [(f, f)]" "pending e dev p segs' f s"
    moreover from this(2) obtain s0 where "tracks e dev p segs' s0" "same_db s0 s" by (auto simp: pending_def)
    ultimately show ?thesis by (simp add: tracks_def same_db_def wanted_append)
  qed (simp add: tracks_def)
  then show "covers (db_of (index_log s)) = wanted p segs" "m_szDeviceID s = dev" by simp_all
qed

lemma pending_grow:
  assumes env: "delivered e" "cal_ok e" and p: "0 < p" and pd: "pending e dev p segs f s" and l: "f \<le> l" "l < 2 ^ 63"
  shows "\<exists>s'. updateLocalIndex e f l size' name flag s = Some (SVS_RESULT_OK, s') \<and> follows e dev p (segs @ [(f, l)]) s'"
proof -
  have f: "0 < f" "f < 2 ^ 63" "segs = [] \<or> snd (last segs) \<le> f" "m_localIndexStartTime s = f"
    and early: "segs = [] \<or> snd (last segs) \<le> p \<Longrightarrow> f \<le> p \<and> 0 < m_lastLocalIndexTime s \<and> m_lastLocalIndexTime s \<le> f"
    using pd by (auto simp: pending_def)
  obtain s0 xs x where s0: "tracks e dev p segs s0" "same_db s0 s" "m_localIndexList s = xs @ [x]"
    "xs = m_localIndexList s0 \<or> xs = tl (m_localIndexList s0)" "StartTime x = f" "str_find dev (RecordFileName x) \<noteq> Some 0"
    using pd by (auto simp: pending_def)
  have ok: "local_ok segs s0" "m_szDeviceID s0 = dev" using s0(1) by (auto simp: tracks_def)
  have "y \<in> set (m_localIndexList s0)" if "y \<in> set xs" for y using that s0(4) by (cases "m_localIndexList s0") auto
  then have xs: "StartTime y < f" if "y \<in> set xs" for y
    using ok(1) f(3) that by (fastforce simp: local_ok_def split: if_splits)
  define x' where "x' = x\<lparr>StopTime := l, VideoFlux := size' - m_ullIndexFileSize s, iRecordStopFlag := flag\<rparr>"
  have u: "update_first (\<lambda>i. StartTime i = f) (\<lambda>i. i\<lparr>StopTime := l, VideoFlux := size' - m_ullIndexFileSize s, iRecordStopFlag := flag\<rparr>)
      (m_localIndexList s) = Some (xs @ [x'])"
    unfolding s0(3) x'_def by (rule update_first_last) (use xs in \<open>metis less_irrefl\<close>, use s0(5) in simp)
  define s2 where "s2 = s\<lparr>m_localIndexList := xs @ [x'], m_ullCurFileSize := size', m_localIndexStopTime := l,
    m_lastLocalIndexTime := (if m_lastLocalIndexTime s = 0 then f else m_lastLocalIndexTime s)\<rparr>"
  have upd: "updateLocalIndex e f l size' name flag s = after_local e l s2"
    unfolding updateLocalIndex_def after_local_def s2_def Let_def u using f(4) by simp
  have s2: "same_db s0 s2" "m_localIndexList s2 = xs @ [x']" "StartTime x' = f" "StopTime x' = l" "m_localIndexStartTime s2 = f"
    "m_localIndexStopTime s2 = l" "str_find dev (RecordFileName x') \<noteq> Some 0" "m_szDeviceID s2 = m_szDeviceID s0"
    using s0(2,5,6) f(4) by (simp_all add: s2_def x'_def same_db_def)
  have ll: "0 < m_lastLocalIndexTime s2 \<and> m_lastLocalIndexTime s2 \<le> f" if "segs = [] \<or> snd (last segs) \<le> p"
    using early that by (auto simp: s2_def)
  show ?thesis
  proof (cases "l = f")
    case True
    then have "\<exists>s'. after_local e f s2 = Some (SVS_RESULT_OK, s') \<and> pending e dev p segs f s'"
      using early ll s2 by (intro empty_after [OF env s0(1) f(1-3) _ s2(1,2) s0(4) s2(3)]) auto
    with True upd show ?thesis by (auto simp: follows_def)
  next
    case False
    then have lt: "f < l" using l(1) by simp
    note loc = local_ok_append [OF ok(1) f(1) lt l(2) f(3) s2(8,2) s0(4) s2(3-6) s2(7) [folded ok(2)]]
    have "next_time f l segs" using f lt l(2) by (auto simp: next_time_def)
    then have "\<exists>s'. updateLocalIndex e f l size' name flag s = Some (SVS_RESULT_OK, s') \<and> tracks e dev p (add_time f l segs) s'"
      using step_new [OF env p s0(1) _ f(3) upd s2(1,2,6) s0(4) loc(1,2) ll] by blast
    then show ?thesis unfolding loc(2) follows_def by blast
  qed
qed

lemma empty_new:
  assumes env: "delivered e" "cal_ok e" and tr: "tracks e dev p segs s" and f: "0 < f" "f < 2 ^ 63" "segs = [] \<or> snd (last segs) \<le> f"
    and early: "f \<le> p \<or> segs \<noteq> [] \<and> p < snd (last segs)" and nm: "str_find dev (c_str (take (ie_maxname e) nm)) \<noteq> Some 0"
  shows "\<exists>s'. updateLocalIndex e f f size' (Some nm) flag s = Some (SVS_RESULT_OK, s') \<and> follows e dev p (segs @ [(f, f)]) s'"
proof -
  have ok: "local_ok segs s" "m_szDeviceID s = dev" using tr by (auto simp: tracks_def)
  from local_add [OF ok(1) f(1) order_refl f(3), of e nm size' flag] nm ok(2) obtain xs x s2 where
    upd: "updateLocalIndex e f f size' (Some nm) flag s = after_local e f s2" "same_db s s2" "m_localIndexList s2 = xs @ [x]"
    "StartTime x = f" "StopTime x = f" "m_localIndexStopTime s2 = f" "xs = m_localIndexList s \<or> xs = tl (m_localIndexList s)"
    "m_localIndexStartTime s2 = f" "str_find dev (RecordFileName x) \<noteq> Some 0"
    "m_lastLocalIndexTime s2 = (if m_lastLocalIndexTime s = 0 then f else m_lastLocalIndexTime s) \<or>
     0 < m_lastLocalIndexTime s2 \<and> m_lastLocalIndexTime s2 \<le> f" by blast
  have "f \<le> p \<and> 0 < m_lastLocalIndexTime s2 \<and> m_lastLocalIndexTime s2 \<le> f" if "segs = [] \<or> snd (last segs) \<le> p"
  proof -
    have "segs = [] \<and> m_lastLocalIndexTime s = 0 \<or>
        segs \<noteq> [] \<and> 0 < m_lastLocalIndexTime s \<and> m_lastLocalIndexTime s \<le> fst (last segs) \<and> fst (last segs) < snd (last segs)"
      using tr that ok(1) by (auto simp: tracks_def local_ok_def split: if_splits)
    then show ?thesis using upd(10) early f(1,3) that by (auto split: if_splits)
  qed
  from empty_after [OF env tr f this upd(2,3,7,4,5,9,8,6)] upd(1) show ?thesis by (auto simp: follows_def)
qed

lemma step_follows:
  assumes env: "delivered e" "cal_ok e" and p: "0 < p" and fo: "follows e dev p segs s" and r: "report_ok p f l segs"
    and name: "name_ok e dev f segs name"
  shows "\<exists>s'. updateLocalIndex e f l size' name flag s = Some (SVS_RESULT_OK, s') \<and> follows e dev p (add_time f l segs) s'"
  using fo unfolding follows_def [of e dev p segs s]
proof (elim disjE exE conjE)
  fix segs' g
  assume pd: "segs = segs' @ [(g, g)]" "pending e dev p segs' g s"
  then have "f = g" "f \<le> l" "l < 2 ^ 63" using r by (auto simp: report_ok_def)
  then show ?thesis
    using pending_grow [OF env p pd(2), of l size' name flag] pd(1) by (simp add: add_time_def)
next
  assume tr: "tracks e dev p segs s"
  then have ok: "local_ok segs s" "m_szDeviceID s = dev" by (auto simp: tracks_def)
  have len: "fst (last segs) < snd (last segs)" if "segs \<noteq> []" using ok(1) that by (auto simp: local_ok_def)
  show ?thesis
  proof (cases "f < l")
    case True
    then have "next_time f l segs" using r by (auto simp: report_ok_def next_time_def)
    then show ?thesis
      using step_tracks [OF env p tr, of f l name size' flag] name ok(2) unfolding follows_def by blast
  next
    case False
    then have fl: "l = f" "0 < f" "f < 2 ^ 63" using r by (auto simp: report_ok_def)
    have nw: "segs = [] \<or> snd (last segs) \<le> f" "f \<le> p \<or> segs \<noteq> [] \<and> p < snd (last segs)"
      using r fl len by (auto simp: report_ok_def)
    then have nl: "segs = [] \<or> fst (last segs) \<noteq> f" using len by force
    then obtain nm where nm: "name = Some nm" "str_find dev (c_str (take (ie_maxname e) nm)) \<noteq> Some 0"
      using name by (auto simp: name_ok_def split: option.splits)
    have "add_time f l segs = segs @ [(f, f)]" using nl fl(1) by (auto simp: add_time_def)
    then show ?thesis
      using empty_new [OF env tr fl(2,3) nw nm(2), of size' flag] fl(1) nm(1) by simp
  qed
qed

text \<open>The reports of the file writer, one after the other: start, end, size, file and stop flag.\<close>

type_synonym report = "int \<times> int \<times> u64 \<times> string option \<times> int"

fun report_run :: "index_env \<Rightarrow> report list \<Rightarrow> SVS_Index_List \<Rightarrow> SVS_Index_List option" where
  "report_run e [] s = Some s"
| "report_run e ((f, l, size', name, flag) # rs) s =
     (case updateLocalIndex e f l size' name flag s of None \<Rightarrow> None | Some (_, s') \<Rightarrow> report_run e rs s')"

fun timely :: "index_env \<Rightarrow> string \<Rightarrow> int \<Rightarrow> (int \<times> int) list \<Rightarrow> report list \<Rightarrow> bool" where
  "timely e dev p segs [] \<longleftrightarrow> True"
| "timely e dev p segs ((f, l, size', name, flag) # rs) \<longleftrightarrow>
     report_ok p f l segs \<and> name_ok e dev f segs name \<and> timely e dev p (add_time f l segs) rs"

definition segments :: "report list \<Rightarrow> (int \<times> int) list \<Rightarrow> (int \<times> int) list" where
  "segments rs segs = fold (\<lambda>(f, l, _). add_time f l) rs segs"

definition SVS_Index_List_new :: SVS_Index_List where
  "SVS_Index_List_new =
     \<lparr> m_szDeviceID = [], m_localIndexStartTime = 0, m_localIndexStopTime = 0, m_localIndexList = [], m_dbIndexStartTime = 0,
       m_dbIndexList = [], m_lastLocalIndexTime = 0, m_lastDBIndexTime = 0, m_ullCurFileSize = 0, m_ullIndexFileSize = 0, index_log = [] \<rparr>"

lemma run_follows:
  assumes "delivered e" "cal_ok e" "0 < p" "follows e dev p segs s" "timely e dev p segs rs"
  shows "\<exists>s'. report_run e rs s = Some s' \<and> follows e dev p (segments rs segs) s'"
  using assms(4,5)
proof (induction rs arbitrary: segs s)
  case Nil
  then show ?case by (simp add: segments_def)
next
  case (Cons r rs)
  obtain f l z name flag where r: "r = (f, l, z, name, flag)" by (metis prod_cases5)
  obtain s1 where "updateLocalIndex e f l z name flag s = Some (SVS_RESULT_OK, s1)" "follows e dev p (add_time f l segs) s1"
    using step_follows [OF assms(1-3) Cons.prems(1), of f l name z flag] Cons.prems(2) r by auto
  then show ?case using Cons.IH [of "add_time f l segs" s1] Cons.prems(2) by (simp add: r segments_def)
qed

text \<open>
  C20.  The index follows the recording.  There is one plan, which began at \<open>p\<close> and has no end; every message gets through
  (there is memory, the server exists and takes it); the calendar is one in which midnight is not behind a time and on its day,
  and two times on different days have a midnight between them.  The reports of the file writer come in the order of time
  (\<open>timely\<close>): the last segment grows, or a new one begins at or behind the end of the last; a new segment may be reported with its
  start as its end, as the writer does at each break, except when it lies behind \<open>p\<close> and nothing was recorded behind \<open>p\<close> before it
  (see below), and grows before the next begins; and the path of a file does not begin with the identifier of the device.
  Then no report faults, and after all of them the records of the database cover exactly the recorded seconds from \<open>p\<close> on, over
  gaps and over the ends of days.
\<close>

theorem index_follows_recording:
  assumes "delivered e" "cal_ok e" "0 < p" "timely e dev p [] rs"
  shows "\<exists>s. report_run e rs (snd (updateDBIndex p 0 (snd (index_init dev SVS_Index_List_new)))) = Some s \<and>
    covers (db_of (index_log s)) = wanted p (segments rs [])"
proof -
  have "tracks e dev p [] (snd (updateDBIndex p 0 (snd (index_init dev SVS_Index_List_new))))"
    using assms(3) by (simp add: tracks_def updateDBIndex_def index_init_def SVS_Index_List_new_def local_ok_def plan_of_def wanted_def)
  then have "follows e dev p [] (snd (updateDBIndex p 0 (snd (index_init dev SVS_Index_List_new))))" by (simp add: follows_def)
  from run_follows [OF assms(1-3) this assms(4)]
  obtain s where "report_run e rs (snd (updateDBIndex p 0 (snd (index_init dev SVS_Index_List_new)))) = Some s" "follows e dev p (segments rs []) s"
    by blast
  then show ?thesis using follows_covers(1) by blast
qed

text \<open>A calendar without time zones.\<close>

definition utc_env :: index_env where
  "utc_env = \<lparr> ie_alloc = (\<lambda>_. True), ie_server = (\<lambda>_. True), ie_enqueue = (\<lambda>_. True), ie_yday = (\<lambda>t. t div 86400),
     ie_midnight = (\<lambda>t. 86400 * (t div 86400)), ie_maxname = 255 \<rparr>"

lemma utc_ok: "delivered utc_env" "cal_ok utc_env"
proof -
  have "a < 86400 * (b div 86400)" if "a \<le> b" "a div 86400 \<noteq> b div 86400" for a b :: int
  proof -
    have "a div 86400 < b div 86400" using that zdiv_mono1 [of a b 86400] by simp
    then show ?thesis by linarith
  qed
  moreover have "86400 * (t div 86400) \<le> t" for t :: int by linarith
  ultimately show "delivered utc_env" "cal_ok utc_env" by (auto simp: delivered_def cal_ok_def utc_env_def)
qed

theorem index_follows_recording_witness:
  "\<exists>s. report_run utc_env [(86000, 86100, 4096, Some ''/d/1/a'', 0), (86000, 86500, 8192, None, 0), (86600, 86600, 8192, Some ''/d/1/a'', 0),
         (86600, 86700, 9000, Some ''/d/1/a'', 0)]
       (snd (updateDBIndex 86050 0 (snd (index_init ''1'' SVS_Index_List_new)))) = Some s \<and>
     covers (db_of (index_log s)) = {86050..86500} \<union> {86600..86700}"
proof -
  have "timely utc_env ''1'' 86050 [] [(86000, 86100, 4096, Some ''/d/1/a'', 0), (86000, 86500, 8192, None, 0), (86600, 86600, 8192, Some ''/d/1/a'', 0),
         (86600, 86700, 9000, Some ''/d/1/a'', 0)]"
    by (simp add: report_ok_def name_ok_def add_time_def utc_env_def c_str_def starts_with_def)
  from index_follows_recording [OF utc_ok _ this] show ?thesis
    by (auto simp: segments_def add_time_def wanted_def)
qed

text \<open>
  What the condition on empty segments excludes: the first segment behind the start of the plan is reported empty.  Then its
  record is only ever updated, never inserted.
\<close>

abbreviation (input) events_of :: "SVS_Index_List \<Rightarrow> (RECORD_INDEX_SET_TYPE \<times> int \<times> int) list" where
  "events_of s \<equiv> map (\<lambda>ev. case ev of IndexQueued m \<Rightarrow> (ur_Type m, ur_StartTime m, ur_EndTime m) | PastIndex m \<Rightarrow> (ur_Type m, 0, 0)
     | IndexDropped m \<Rightarrow> (ur_Type m, 0, 0)) (index_log s)"

lemma empty_first_segment_lost:
  "events_of (the (report_run utc_env [(600, 600, 4096, Some ''/d/1/a'', 0), (600, 630, 8192, Some ''/d/1/a'', 0), (600, 660, 9000, None, 0)]
     (snd (updateDBIndex 500 0 (snd (index_init ''1'' SVS_Index_List_new)))))) =
   [(RECORD_INDEX_TYPE_UPDATE, 600, 630), (RECORD_INDEX_TYPE_UPDATE, 600, 660)]"
  by code_simp

section \<open>A plan without a recording\<close>

text \<open>The first plan is over, and nothing in memory was recorded before its end.\<close>

definition blocked :: "IndexInfo \<Rightarrow> SVS_Index_List \<Rightarrow> bool" where
  "blocked i s \<longleftrightarrow> m_dbIndexList s \<noteq> [] \<and> hd (m_dbIndexList s) = i \<and> 0 < StartTime i \<and> StartTime i < StopTime i \<and>
     (\<forall>x \<in> set (m_localIndexList s). StopTime i \<le> StartTime x)"

lemma update_first_set: "update_first P f xs = Some ys \<Longrightarrow> y \<in> set ys \<Longrightarrow> y \<in> set xs \<or> (\<exists>x \<in> set xs. P x \<and> y = f x)"
  by (induction xs arbitrary: ys) (auto split: if_splits)

lemma blocked_process:
  assumes "blocked i s" "StopTime i \<le> m_localIndexStopTime s"
  shows "\<exists>s'. processDBIndex e (StartTime i) (StopTime i) s = Some (SVS_RESULT_FAILURE, s') \<and> m_localIndexList s' = m_localIndexList s \<and>
    m_dbIndexList s' = m_dbIndexList s \<and> index_log s' = index_log s"
proof -
  have "partition_loop e (m_localIndexList s) type a (StopTime i) f g s1 = Some (False, s1)" for type a f g s1
    using assms(1) by (cases "m_localIndexList s") (auto simp: blocked_def partition_loop.simps)
  then show ?thesis
    using assms by (auto simp: processDBIndex_def partitionDBRecordIndex_def blocked_def Let_def)
qed

lemma blocked_step:
  assumes "blocked i s" "StopTime i \<le> f" "f \<le> l"
  shows "\<exists>r s'. updateLocalIndex e f l size' name flag s = Some (r, s') \<and> blocked i s' \<and> m_dbIndexList s' = m_dbIndexList s \<and>
    index_log s' = index_log s"
proof -
  have finish: "\<exists>r s'. after_local e l s2 = Some (r, s') \<and> blocked i s' \<and> m_dbIndexList s' = m_dbIndexList s2 \<and> index_log s' = index_log s2"
    if bl: "blocked i s2" and lt: "m_localIndexStopTime s2 = l" for s2
  proof -
    have "m_dbIndexList s2 \<noteq> []" "hd (m_dbIndexList s2) = i" using bl by (simp_all add: blocked_def)
    then obtain js where js: "m_dbIndexList s2 = i # js" by (metis list.collapse)
    obtain s' where s': "processDBIndex e (StartTime i) (StopTime i) s2 = Some (SVS_RESULT_FAILURE, s')" "m_localIndexList s' = m_localIndexList s2"
      "m_dbIndexList s' = m_dbIndexList s2" "index_log s' = index_log s2"
      using blocked_process [OF bl] lt assms(2,3) by force
    have "handleDBIndex e s2 = Some (s'\<lparr>m_dbIndexList := i # js\<rparr>)" using s'(1) js by (simp add: handleDBIndex_def)
    then show ?thesis using bl s' js by (auto simp: after_local_def blocked_def)
  qed
  show ?thesis
  proof (cases "f = m_localIndexStartTime s")
    case new: False
    show ?thesis
    proof (cases name)
      case None
      then show ?thesis using new assms(1) by (simp add: updateLocalIndex_def Let_def)
    next
      case (Some nm)
      define s2 where "s2 = (let s1 = add_segment e f l size' nm flag s in s1\<lparr>m_ullCurFileSize := size', m_localIndexStopTime := l,
        m_lastLocalIndexTime := (if m_lastLocalIndexTime s1 = 0 then f else m_lastLocalIndexTime s1)\<rparr>)"
      have u: "updateLocalIndex e f l size' name flag s = after_local e l s2"
        using new Some assms(3) by (simp add: updateLocalIndex_def after_local_def s2_def Let_def)
      have "set (m_localIndexList s2) \<subseteq> insert (last (m_localIndexList s2)) (set (m_localIndexList s))" "StartTime (last (m_localIndexList s2)) = f"
        by (cases "m_localIndexList s"; auto simp: s2_def add_segment_def Let_def)+
      then have "blocked i s2" using assms(1,2) by (auto simp: blocked_def s2_def add_segment_def Let_def)
      moreover have "m_localIndexStopTime s2 = l" "m_dbIndexList s2 = m_dbIndexList s" "index_log s2 = index_log s"
        by (auto simp: s2_def add_segment_def Let_def)
      ultimately show ?thesis using finish [of s2] u by metis
    qed
  next
    case True
    let ?u = "update_first (\<lambda>i. StartTime i = f) (\<lambda>i. i\<lparr>StopTime := l, VideoFlux := size' - m_ullIndexFileSize s, iRecordStopFlag := flag\<rparr>) (m_localIndexList s)"
    show ?thesis
    proof (cases ?u)
      case None
      then show ?thesis using True assms(1) by (simp add: updateLocalIndex_def Let_def)
    next
      case (Some l')
      define s2 where "s2 = s\<lparr>m_localIndexList := l', m_ullCurFileSize := size', m_localIndexStopTime := l,
        m_lastLocalIndexTime := (if m_lastLocalIndexTime s = 0 then f else m_lastLocalIndexTime s)\<rparr>"
      have u: "updateLocalIndex e f l size' name flag s = after_local e l s2"
        using True Some by (simp add: updateLocalIndex_def after_local_def s2_def Let_def)
      have "blocked i s2" using assms(1) update_first_set [OF Some] by (fastforce simp: blocked_def s2_def)
      then show ?thesis using finish [of s2] u by (simp add: s2_def)
    qed
  qed
qed

text \<open>
  C21.  A plan that ended before anything was recorded is never removed: as long as the reports of the file writer are about
  times behind its end, nothing is sent to the database any more, whatever plans stand behind it.
\<close>

theorem index_plan_blocks:
  assumes "blocked i s" "\<forall>(f, l, _) \<in> set rs. StopTime i \<le> f \<and> f \<le> l"
  shows "\<exists>s'. report_run e rs s = Some s' \<and> m_dbIndexList s' = m_dbIndexList s \<and> index_log s' = index_log s"
proof -
  have "\<exists>s'. report_run e rs s = Some s' \<and> blocked i s' \<and> m_dbIndexList s' = m_dbIndexList s \<and> index_log s' = index_log s"
    using assms
  proof (induction rs arbitrary: s)
    case (Cons r rs)
    obtain f l z name flag where r: "r = (f, l, z, name, flag)" by (metis prod_cases5)
    then obtain c s1 where s1: "updateLocalIndex e f l z name flag s = Some (c, s1)" "blocked i s1" "m_dbIndexList s1 = m_dbIndexList s"
      "index_log s1 = index_log s"
      using blocked_step [OF Cons.prems(1), of f l e z name flag] Cons.prems(2) by auto
    then show ?case using Cons.IH [OF s1(2)] Cons.prems(2) r by auto
  qed simp
  then show ?thesis by blast
qed

theorem index_plan_blocks_witness:
  "\<exists>s'. report_run utc_env [(200, 300, 4096, Some ''/d/1/a'', 0), (200, 400, 8192, Some ''/d/1/a'', 0)]
     (snd (updateDBIndex 190 0 (snd (updateDBIndex 100 150 (snd (index_init ''1'' SVS_Index_List_new)))))) = Some s' \<and> index_log s' = []"
proof -
  let ?s = "snd (updateDBIndex 190 0 (snd (updateDBIndex 100 150 (snd (index_init ''1'' SVS_Index_List_new)))))"
  have "blocked (\<lparr> StartTime = 100, StopTime = 150, VideoFlux = 0, iRecordStopFlag = 0, RecordFileName = [] \<rparr>) ?s" "index_log ?s = []"
    by (simp_all add: blocked_def updateDBIndex_def index_init_def SVS_Index_List_new_def)
  from index_plan_blocks [OF this(1), of "[(200, 300, 4096, Some ''/d/1/a'', 0), (200, 400, 8192, Some ''/d/1/a'', 0)]" utc_env]
  obtain s' where "report_run utc_env [(200, 300, 4096, Some ''/d/1/a'', 0), (200, 400, 8192, Some ''/d/1/a'', 0)] ?s = Some s'" "index_log s' = index_log ?s"
    by fastforce
  then show ?thesis using \<open>index_log ?s = []\<close> by (simp only: option.inject) blast
qed

text \<open>Two plans that overlap: the second one begins with an update of a record that was never inserted.\<close>

lemma overlapping_plans:
  "map (\<lambda>ev. case ev of IndexQueued m \<Rightarrow> (ur_Type m, ur_StartTime m, ur_EndTime m) | PastIndex m \<Rightarrow> (ur_Type m, 0, 0) | IndexDropped m \<Rightarrow> (ur_Type m, 0, 0))
     (index_log (the (report_run utc_env [(100, 200, 4096, Some ''/d/1/a'', 0), (100, 210, 8192, Some ''/d/1/a'', 0)]
        (snd (updateDBIndex 150 0 (snd (updateDBIndex 100 200 (snd (index_init ''1'' SVS_Index_List_new))))))))) =
   [(RECORD_INDEX_TYPE_INSERT, 0, 0), (RECORD_INDEX_TYPE_INSERT, 100, 200), (RECORD_INDEX_TYPE_UPDATE, 200, 210)]"
  by code_simp

end
