(* ===== verification/IndexResend.thy ===== *)
theory IndexResend
  imports RecordIndex StdMap "HOL-Library.Char_ord" "HOL-Library.List_Lexorder"
begin

text \<open>
  \<open>svs_index_resend_mgr.cpp\<close> of the recording unit: the last message of an index record is kept until the store confirms it,
  and is sent again while it does not.  The nodes of the map may be null in the source, so they are options here.  Arguments
  are the clock, whether there is memory, whether the store is connected and whether the queue of the record server takes a
  message; \<open>resend_log\<close> is what was put into that queue.  The device identifier of a confirmation is the text it is
  stored as, and the length of its fixed part an argument.
\<close>

section \<open>Data\<close>

record RecordIndexCacheNode =
  stIndexInfo :: Update_Record_Index
  uiResendTimes :: u32
  ulSendTimeTick :: int

record CIndexResendMgr =
  m_indexMap :: "(string, RecordIndexCacheNode option) stdmap"
  m_iTimerId :: int
  resend_log :: "Update_Record_Index list"

definition resend_new :: CIndexResendMgr where
  "resend_new = \<lparr> m_indexMap = [], m_iTimerId = - 1, resend_log = [] \<rparr>"

abbreviation (input) UNACKED_INDEX_RESEND_TIMES :: u32 where "UNACKED_INDEX_RESEND_TIMES \<equiv> 3"
abbreviation (input) UNACKED_INDEX_RESEND_INTERVAL :: int where "UNACKED_INDEX_RESEND_INTERVAL \<equiv> 120"
abbreviation (input) INDEX_KEY_LEN :: nat where "INDEX_KEY_LEN \<equiv> 80"
abbreviation (input) DELETE_INDEX :: int where "DELETE_INDEX \<equiv> 1"
abbreviation (input) RESEND_INDEX :: int where "RESEND_INDEX \<equiv> 2"

text \<open>A confirmation of the store, and what a resend meets.\<close>

record index_resp =
  rp_PacketLength :: u32
  rp_DeviceID :: string
  rp_IndexStartTime :: u32
  rp_IndexEndTime :: u32
  rp_RespCode :: int

record resend_env =
  rs_alloc :: bool
  rs_server :: bool
  rs_enqueue :: bool
  rs_now :: int

section \<open>The operations\<close>

text \<open>\<open>Init\<close> with the identifier the timer manager returns, or without a timer manager.\<close>

definition resend_init :: "int option \<Rightarrow> CIndexResendMgr \<Rightarrow> int \<times> CIndexResendMgr" where
  "resend_init timer s =
     (case timer of
        None \<Rightarrow> (- 1, s)
      | Some i \<Rightarrow> if m_iTimerId s \<noteq> - 1 then (- 1, s) else (if i = - 1 then - 1 else 0, s\<lparr>m_iTimerId := i\<rparr>))"

text \<open>\<open>%08x\<close> of a 32-bit number, and the key, which \<open>snprintf\<close> cuts to its buffer.\<close>

definition hex8 :: "u32 \<Rightarrow> string" where
  "hex8 w = map (\<lambda>i. ''0123456789abcdef'' ! unat (take_bit 4 (drop_bit (4 * i) w))) [7, 6, 5, 4, 3, 2, 1, 0]"

definition index_key :: "int \<Rightarrow> string \<Rightarrow> string" where
  "index_key start lens = take (INDEX_KEY_LEN - 2) (hex8 (of_int start) @ ''_'' @ lens)"

definition MakeIndexInfoKey :: "Update_Record_Index \<Rightarrow> string" where
  "MakeIndexInfoKey pInfo = index_key (ur_StartTime pInfo) (ur_LensId pInfo)"

definition record_new :: "bool \<Rightarrow> int \<Rightarrow> Update_Record_Index \<Rightarrow> CIndexResendMgr \<Rightarrow> int \<times> CIndexResendMgr" where
  "record_new new now pIndex s =
     (if \<not> new then (- 1, s)
      else (0, s\<lparr>m_indexMap := sm_insert (MakeIndexInfoKey pIndex)
        (Some \<lparr> stIndexInfo = pIndex\<lparr>ur_RecordReportType := REPORT_INDEX_TYPE_RECONNECT\<rparr>, uiResendTimes = 0, ulSendTimeTick = now \<rparr>)
        (m_indexMap s)\<rparr>))"

text \<open>\<open>RecordPastIndex\<close>; after a null node is erased the function calls itself and finds nothing.\<close>

definition RecordPastIndex :: "bool \<Rightarrow> int \<Rightarrow> Update_Record_Index option \<Rightarrow> CIndexResendMgr \<Rightarrow> int \<times> CIndexResendMgr" where
  "RecordPastIndex new now index s =
     (case index of
        None \<Rightarrow> (- 1, s)
      | Some pIndex \<Rightarrow>
          (case map_of (m_indexMap s) (MakeIndexInfoKey pIndex) of
             None \<Rightarrow> record_new new now pIndex s
           | Some None \<Rightarrow> record_new new now pIndex (s\<lparr>m_indexMap := sm_erase (MakeIndexInfoKey pIndex) (m_indexMap s)\<rparr>)
           | Some (Some n) \<Rightarrow>
               if ur_EndTime (stIndexInfo n) < ur_EndTime pIndex
               then (0, s\<lparr>m_indexMap := sm_assign (MakeIndexInfoKey pIndex) (Some (n\<lparr>stIndexInfo := pIndex\<rparr>)) (m_indexMap s)\<rparr>)
               else (0, s)))"

definition HandleReportConfirm :: "u32 \<Rightarrow> index_resp option \<Rightarrow> CIndexResendMgr \<Rightarrow> int \<times> CIndexResendMgr" where
  "HandleReportConfirm fixLen mb s =
     (case mb of
        None \<Rightarrow> (- 1, s)
      | Some r \<Rightarrow>
          if rp_PacketLength r < fixLen then (- 1, s)
          else
            let strIndexKey = index_key (uint (rp_IndexStartTime r)) (rp_DeviceID r)
            in case map_of (m_indexMap s) strIndexKey of
                 None \<Rightarrow> (0, s)
               | Some _ \<Rightarrow> (0, s\<lparr>m_indexMap := sm_erase strIndexKey (m_indexMap s)\<rparr>))"

definition ResendIndex :: "resend_env \<Rightarrow> Update_Record_Index \<Rightarrow> CIndexResendMgr \<Rightarrow> int \<times> CIndexResendMgr" where
  "ResendIndex e pIndex s =
     (if \<not> rs_alloc e then (- 1, s) else if \<not> rs_server e then (- 1, s) else if \<not> rs_enqueue e then (- 1, s)
      else (0, s\<lparr>resend_log := resend_log s @ [pIndex]\<rparr>))"

definition deal_index :: "int \<Rightarrow> (string \<Rightarrow> resend_env) \<Rightarrow> string \<Rightarrow> CIndexResendMgr \<Rightarrow> CIndexResendMgr" where
  "deal_index iFlag env key s =
     (case map_of (m_indexMap s) key of
        None \<Rightarrow> s
      | Some None \<Rightarrow> s\<lparr>m_indexMap := sm_erase key (m_indexMap s)\<rparr>
      | Some (Some n) \<Rightarrow>
          if iFlag = DELETE_INDEX then s\<lparr>m_indexMap := sm_erase key (m_indexMap s)\<rparr>
          else if iFlag \<noteq> RESEND_INDEX then s
          else
            (case ResendIndex (env key) (stIndexInfo n) s of
               (r, s1) \<Rightarrow>
                 if r = 0
                 then s1\<lparr>m_indexMap := sm_assign key
                        (Some (n\<lparr>uiResendTimes := uiResendTimes n + 1, ulSendTimeTick := rs_now (env key)\<rparr>)) (m_indexMap s1)\<rparr>
                 else s1))"

definition BatchDealIndex :: "string list \<Rightarrow> int \<Rightarrow> (string \<Rightarrow> resend_env) \<Rightarrow> CIndexResendMgr \<Rightarrow> CIndexResendMgr" where
  "BatchDealIndex indexKeyList iFlag env s = fold (deal_index iFlag env) indexKeyList s"

text \<open>The loop of \<open>CheckUnackedIndex\<close>: the keys to delete and the keys to send again.\<close>

fun scan_index :: "int \<Rightarrow> (string, RecordIndexCacheNode option) stdmap \<Rightarrow> string list \<times> string list" where
  "scan_index tCurrent [] = ([], [])"
| "scan_index tCurrent ((k, v) # m) =
     (case scan_index tCurrent m of
        (del, resend) \<Rightarrow>
          (case v of
             None \<Rightarrow> (k # del, resend)
           | Some n \<Rightarrow>
               if uiResendTimes n > UNACKED_INDEX_RESEND_TIMES then (k # del, resend)
               else if tCurrent - ulSendTimeTick n > UNACKED_INDEX_RESEND_INTERVAL then (del, k # resend)
               else (del, resend)))"

definition CheckUnackedIndex :: "bool \<Rightarrow> int \<Rightarrow> (string \<Rightarrow> resend_env) \<Rightarrow> CIndexResendMgr \<Rightarrow> int \<times> CIndexResendMgr" where
  "CheckUnackedIndex connected tCurrent env s =
     (if \<not> connected then (- 1, s)
      else
        case scan_index tCurrent (m_indexMap s) of
          (del, resend) \<Rightarrow> (0, BatchDealIndex resend RESEND_INDEX env (BatchDealIndex del DELETE_INDEX env s)))"

section \<open>The keys\<close>

lemma hex_inj: "i < 16 \<Longrightarrow> j < 16 \<Longrightarrow> ''0123456789abcdef'' ! i = ''0123456789abcdef'' ! j \<Longrightarrow> i = j"
proof -
  have d: "distinct ''0123456789abcdef''" and l: "length ''0123456789abcdef'' = 16"
    by simp_all
  show "i < 16 \<Longrightarrow> j < 16 \<Longrightarrow> ''0123456789abcdef'' ! i = ''0123456789abcdef'' ! j \<Longrightarrow> i = j"
    using nth_eq_iff_index_eq [OF d] unfolding l by blast
qed

lemma nibble: "unat (take_bit 4 (w :: u32)) < 16"
  using take_bit_nat_less_exp [of 4 "unat w"] by (simp add: unsigned_take_bit_eq)

lemma nibbles_eq:
  assumes "\<forall>i < 8. take_bit 4 (drop_bit (4 * i) v) = take_bit 4 (drop_bit (4 * i) (w :: u32))"
  shows "v = w"
proof (rule bit_word_eqI)
  fix n assume n: "n < LENGTH(32)"
  have "bit (take_bit 4 (drop_bit (4 * (n div 4)) x)) (n mod 4) = bit x n" for x :: u32
    by (simp add: bit_take_bit_iff bit_drop_bit_eq)
  moreover have "n div 4 < 8"
    using n by simp
  ultimately show "bit v n \<longleftrightarrow> bit w n"
    using assms by metis
qed

lemma hex8_inj: "hex8 v = hex8 w \<Longrightarrow> v = w"
proof (rule nibbles_eq, intro allI impI)
  fix i :: nat assume h: "hex8 v = hex8 w" and i: "i < 8"
  have "i \<in> set [7, 6, 5, 4, 3, 2, 1, 0]"
    using i by (simp; linarith)
  then have "''0123456789abcdef'' ! unat (take_bit 4 (drop_bit (4 * i) v)) = ''0123456789abcdef'' ! unat (take_bit 4 (drop_bit (4 * i) w))"
    using h unfolding hex8_def map_eq_conv by blast
  from hex_inj [OF nibble nibble this] show "take_bit 4 (drop_bit (4 * i) v) = take_bit 4 (drop_bit (4 * i) w)"
    by (simp only: word_unat_eq_iff)
qed

text \<open>With identifiers of the length a device has, no two records share a key.\<close>

lemma index_key_inj:
  assumes "length l \<le> 69" and "length l' \<le> 69"
  shows "index_key a l = index_key b l' \<longleftrightarrow> (of_int a :: u32) = of_int b \<and> l = l'"
proof -
  have "length (hex8 w) = 8" for w
    by (simp add: hex8_def)
  then have "index_key a l = hex8 (of_int a) @ ''_'' @ l" "index_key b l' = hex8 (of_int b) @ ''_'' @ l'"
    "length (hex8 (of_int a)) = length (hex8 (of_int b))"
    using assms by (simp_all add: index_key_def)
  then show ?thesis
    using hex8_inj by auto
qed

section \<open>What a call does to one key\<close>

definition resend_ok :: "CIndexResendMgr \<Rightarrow> bool" where
  "resend_ok s \<longleftrightarrow> sm_inv (m_indexMap s) \<and> (\<forall>k n. map_of (m_indexMap s) k = Some (Some n) \<longrightarrow> MakeIndexInfoKey (stIndexInfo n) = k)"

text \<open>The messages for a key.\<close>

definition sent :: "string \<Rightarrow> Update_Record_Index list \<Rightarrow> Update_Record_Index list" where
  "sent k log = filter (\<lambda>p. MakeIndexInfoKey p = k) log"

lemma sent_append [simp]: "sent k (a @ b) = sent k a @ sent k b"
  by (simp add: sent_def)

definition takes :: "resend_env \<Rightarrow> bool" where
  "takes e \<longleftrightarrow> rs_alloc e \<and> rs_server e \<and> rs_enqueue e"

lemma ResendIndex_eq: "ResendIndex e p s = (if takes e then (0, s\<lparr>resend_log := resend_log s @ [p]\<rparr>) else (- 1, s))"
  by (simp add: ResendIndex_def takes_def)

text \<open>One check, for one key: what becomes of its node, and whether it is sent.\<close>

definition resend_due :: "int \<Rightarrow> resend_env \<Rightarrow> RecordIndexCacheNode \<Rightarrow> bool" where
  "resend_due t e n \<longleftrightarrow> \<not> uiResendTimes n > UNACKED_INDEX_RESEND_TIMES \<and> t - ulSendTimeTick n > UNACKED_INDEX_RESEND_INTERVAL \<and> takes e"

definition node_after :: "int \<Rightarrow> resend_env \<Rightarrow> RecordIndexCacheNode option option \<Rightarrow> RecordIndexCacheNode option option" where
  "node_after t e v =
     (case v of
        Some (Some n) \<Rightarrow>
          if uiResendTimes n > UNACKED_INDEX_RESEND_TIMES then None
          else if resend_due t e n then Some (Some (n\<lparr>uiResendTimes := uiResendTimes n + 1, ulSendTimeTick := rs_now e\<rparr>))
          else Some (Some n)
      | _ \<Rightarrow> None)"

definition sent_now :: "int \<Rightarrow> resend_env \<Rightarrow> RecordIndexCacheNode option option \<Rightarrow> Update_Record_Index list" where
  "sent_now t e v = (case v of Some (Some n) \<Rightarrow> if resend_due t e n then [stIndexInfo n] else [] | _ \<Rightarrow> [])"

lemma delete_all:
  "m_indexMap (BatchDealIndex ks DELETE_INDEX env s) = fold sm_erase ks (m_indexMap s) \<and>
   resend_log (BatchDealIndex ks DELETE_INDEX env s) = resend_log s"
  unfolding BatchDealIndex_def
  by (induction ks arbitrary: s) (auto simp: deal_index_def sm_erase_absent split: option.splits)

lemma erase_all: "map_of (fold sm_erase ks m) k = (if k \<in> set ks then None else map_of m k)"
  by (induction ks arbitrary: m) (auto simp: map_of_sm_erase)

lemma erase_all_inv: "sm_inv m \<Longrightarrow> sm_inv (fold sm_erase ks m)"
  by (induction ks arbitrary: m) (auto simp: sm_inv_erase)

lemma resend_one:
  assumes "resend_ok s" and "map_of (m_indexMap s) k = Some (Some n)"
  shows "resend_ok (deal_index RESEND_INDEX env k s)"
    and "map_of (m_indexMap (deal_index RESEND_INDEX env k s)) k' =
      (if k' = k \<and> takes (env k) then Some (Some (n\<lparr>uiResendTimes := uiResendTimes n + 1, ulSendTimeTick := rs_now (env k)\<rparr>))
       else map_of (m_indexMap s) k')"
    and "resend_log (deal_index RESEND_INDEX env k s) = resend_log s @ (if takes (env k) then [stIndexInfo n] else [])"
proof -
  have i: "sm_inv (m_indexMap s)" "MakeIndexInfoKey (stIndexInfo n) = k"
    using assms by (simp_all add: resend_ok_def)
  have e: "deal_index RESEND_INDEX env k s = (if takes (env k)
      then s\<lparr>resend_log := resend_log s @ [stIndexInfo n], m_indexMap := sm_assign k
        (Some (n\<lparr>uiResendTimes := uiResendTimes n + 1, ulSendTimeTick := rs_now (env k)\<rparr>)) (m_indexMap s)\<rparr> else s)"
    using assms(2) by (simp add: deal_index_def ResendIndex_eq)
  show "map_of (m_indexMap (deal_index RESEND_INDEX env k s)) k' =
      (if k' = k \<and> takes (env k) then Some (Some (n\<lparr>uiResendTimes := uiResendTimes n + 1, ulSendTimeTick := rs_now (env k)\<rparr>))
       else map_of (m_indexMap s) k')"
    "resend_log (deal_index RESEND_INDEX env k s) = resend_log s @ (if takes (env k) then [stIndexInfo n] else [])"
    by (simp_all add: e map_of_sm_assign [OF i(1)])
  show "resend_ok (deal_index RESEND_INDEX env k s)"
    using assms(1) i by (auto simp: e resend_ok_def map_of_sm_assign sm_inv_assign)
qed

lemma resend_all:
  assumes "resend_ok s" and "distinct ks" and "\<forall>k \<in> set ks. \<exists>n. map_of (m_indexMap s) k = Some (Some n)"
  shows "resend_ok (BatchDealIndex ks RESEND_INDEX env s) \<and>
    map_of (m_indexMap (BatchDealIndex ks RESEND_INDEX env s)) k =
      (if k \<in> set ks \<and> takes (env k)
       then map_option (map_option (\<lambda>n. n\<lparr>uiResendTimes := uiResendTimes n + 1, ulSendTimeTick := rs_now (env k)\<rparr>)) (map_of (m_indexMap s) k)
       else map_of (m_indexMap s) k) \<and>
    sent k (resend_log (BatchDealIndex ks RESEND_INDEX env s)) = sent k (resend_log s) @
      (if k \<in> set ks \<and> takes (env k) then map stIndexInfo ((case map_of (m_indexMap s) k of Some (Some n) \<Rightarrow> [n] | _ \<Rightarrow> [])) else [])"
  using assms
proof (induction ks arbitrary: s)
  case Nil
  then show ?case by (simp add: BatchDealIndex_def)
next
  case (Cons a ks)
  obtain n where n: "map_of (m_indexMap s) a = Some (Some n)"
    using Cons(4) by auto
  let ?s = "deal_index RESEND_INDEX env a s"
  note d = resend_one [OF Cons(2) n, of env]
  have b: "BatchDealIndex (a # ks) RESEND_INDEX env s = BatchDealIndex ks RESEND_INDEX env ?s"
    by (simp add: BatchDealIndex_def)
  have "\<forall>k \<in> set ks. \<exists>n. map_of (m_indexMap ?s) k = Some (Some n)"
    using Cons(3,4) d(2) by auto
  moreover have "distinct ks" "a \<notin> set ks"
    using Cons(3) by simp_all
  moreover have "MakeIndexInfoKey (stIndexInfo n) = a"
    using Cons(2) n by (simp add: resend_ok_def)
  ultimately show ?case
    using Cons(1) [OF d(1)] n unfolding b d(2,3) by (auto simp: sent_def)
qed

lemma scan_keys:
  assumes "sm_inv m" and "scan_index t m = (del, resend)"
  shows "k \<in> set del \<longleftrightarrow> (case map_of m k of None \<Rightarrow> False | Some None \<Rightarrow> True | Some (Some n) \<Rightarrow> uiResendTimes n > UNACKED_INDEX_RESEND_TIMES)"
    and "k \<in> set resend \<longleftrightarrow>
      (case map_of m k of Some (Some n) \<Rightarrow> \<not> uiResendTimes n > UNACKED_INDEX_RESEND_TIMES \<and> t - ulSendTimeTick n > UNACKED_INDEX_RESEND_INTERVAL
       | _ \<Rightarrow> False)"
    and "distinct resend" and "set resend \<subseteq> fst ` set m"
  using assms
proof (induction m arbitrary: del resend)
  case Nil
  { case 1 then show ?case by simp next case 2 then show ?case by simp next case 3 then show ?case by simp next case 4 then show ?case by simp }
next
  case (Cons x m)
  obtain a v where x: "x = (a, v)" by fastforce
  obtain d r where dr: "scan_index t m = (d, r)" by fastforce
  { case 1
    then have m: "sm_inv m" "map_of m a = None" using x by (auto intro: map_of_smaller)
    show ?case using 1 Cons.IH(1) [OF m(1) dr] m(2) unfolding x by (auto simp: dr split: option.splits if_splits)
  next
    case 2
    then have m: "sm_inv m" "map_of m a = None" using x by (auto intro: map_of_smaller)
    show ?case using 2 Cons.IH(2) [OF m(1) dr] m(2) unfolding x by (auto simp: dr split: option.splits if_splits)
  next
    case 3
    then have m: "sm_inv m" "a \<notin> fst ` set m" using x by auto
    show ?case using 3 Cons.IH(3,4) [OF m(1) dr] m(2) unfolding x by (auto simp: dr split: option.splits if_splits)
  next
    case 4
    then have m: "sm_inv m" using x by auto
    show ?case using 4 Cons.IH(4) [OF m dr] unfolding x by (auto simp: dr split: option.splits if_splits)
  }
qed

lemma check_one_key:
  assumes "resend_ok s"
  shows "resend_ok (snd (CheckUnackedIndex True t env s))"
    and "map_of (m_indexMap (snd (CheckUnackedIndex True t env s))) k = node_after t (env k) (map_of (m_indexMap s) k)"
    and "sent k (resend_log (snd (CheckUnackedIndex True t env s))) = sent k (resend_log s) @ sent_now t (env k) (map_of (m_indexMap s) k)"
proof -
  obtain del res where sc: "scan_index t (m_indexMap s) = (del, res)" by fastforce
  let ?s = "BatchDealIndex del DELETE_INDEX env s"
  have i: "sm_inv (m_indexMap s)"
    using assms by (simp add: resend_ok_def)
  note keys = scan_keys [OF i sc]
  have d: "map_of (m_indexMap ?s) k = (if k \<in> set del then None else map_of (m_indexMap s) k)" "resend_log ?s = resend_log s" for k
    by (simp_all add: delete_all erase_all)
  have ok: "resend_ok ?s"
    using assms i by (auto simp: resend_ok_def d delete_all erase_all erase_all_inv split: if_splits)
  have "\<forall>k \<in> set res. \<exists>n. map_of (m_indexMap ?s) k = Some (Some n)"
    using keys(1,2) by (auto simp: d split: option.splits)
  note r = resend_all [OF ok keys(3) this, of env]
  have c: "snd (CheckUnackedIndex True t env s) = BatchDealIndex res RESEND_INDEX env ?s"
    by (simp add: CheckUnackedIndex_def sc)
  show "resend_ok (snd (CheckUnackedIndex True t env s))"
    using r by (simp add: c)
  show "map_of (m_indexMap (snd (CheckUnackedIndex True t env s))) k = node_after t (env k) (map_of (m_indexMap s) k)"
    using r [of k] keys(1,2) [of k] by (auto simp: c d node_after_def resend_due_def split: option.splits)
  show "sent k (resend_log (snd (CheckUnackedIndex True t env s))) = sent k (resend_log s) @ sent_now t (env k) (map_of (m_indexMap s) k)"
    using r [of k] keys(1,2) [of k] by (auto simp: c d sent_now_def resend_due_def split: option.splits)
qed

section \<open>Sequences of calls\<close>

datatype resend_call =
    Past bool int "Update_Record_Index option"
  | Confirm "index_resp option"
  | Check bool int "string \<Rightarrow> resend_env"

fun resend_do :: "u32 \<Rightarrow> resend_call \<Rightarrow> CIndexResendMgr \<Rightarrow> CIndexResendMgr" where
  "resend_do fixLen (Past new now p) s = snd (RecordPastIndex new now p s)"
| "resend_do fixLen (Confirm r) s = snd (HandleReportConfirm fixLen r s)"
| "resend_do fixLen (Check c t e) s = snd (CheckUnackedIndex c t e s)"

definition resend_run :: "u32 \<Rightarrow> resend_call list \<Rightarrow> CIndexResendMgr \<Rightarrow> CIndexResendMgr" where
  "resend_run fixLen = fold (resend_do fixLen)"

fun confirms :: "u32 \<Rightarrow> string \<Rightarrow> resend_call \<Rightarrow> bool" where
  "confirms fixLen k (Confirm (Some r)) \<longleftrightarrow> fixLen \<le> rp_PacketLength r \<and> index_key (uint (rp_IndexStartTime r)) (rp_DeviceID r) = k"
| "confirms fixLen k _ \<longleftrightarrow> False"

lemma past_one_key:
  assumes "resend_ok s"
  shows "resend_ok (snd (RecordPastIndex new now p s))" and "resend_log (snd (RecordPastIndex new now p s)) = resend_log s"
    and "map_of (m_indexMap s) k = Some (Some n) \<Longrightarrow>
      \<exists>i. map_of (m_indexMap (snd (RecordPastIndex new now p s))) k = Some (Some (n\<lparr>stIndexInfo := i\<rparr>)) \<and> ur_EndTime (stIndexInfo n) \<le> ur_EndTime i"
proof -
  have i: "sm_inv (m_indexMap s)"
    using assms by (simp add: resend_ok_def)
  have key: "MakeIndexInfoKey (q\<lparr>ur_RecordReportType := z\<rparr>) = MakeIndexInfoKey q" for q z
    by (simp add: MakeIndexInfoKey_def)
  show "resend_ok (snd (RecordPastIndex new now p s))"
    using assms i by (auto simp: RecordPastIndex_def record_new_def resend_ok_def map_of_sm_insert map_of_sm_assign map_of_sm_erase
        sm_inv_insert sm_inv_assign sm_inv_erase key split: option.splits if_splits)
  show "resend_log (snd (RecordPastIndex new now p s)) = resend_log s"
    by (auto simp: RecordPastIndex_def record_new_def split: option.splits)
  have r: "n = n\<lparr>stIndexInfo := stIndexInfo n\<rparr>"
    by simp
  assume k: "map_of (m_indexMap s) k = Some (Some n)"
  show "\<exists>i. map_of (m_indexMap (snd (RecordPastIndex new now p s))) k = Some (Some (n\<lparr>stIndexInfo := i\<rparr>)) \<and> ur_EndTime (stIndexInfo n) \<le> ur_EndTime i"
  proof (cases "p \<noteq> None \<and> k = MakeIndexInfoKey (the p) \<and> ur_EndTime (stIndexInfo n) < ur_EndTime (the p)")
    case True
    then show ?thesis
      using k i by (intro exI [of _ "the p"]) (auto simp: RecordPastIndex_def map_of_sm_assign)
  next
    case False
    then have "map_of (m_indexMap (snd (RecordPastIndex new now p s))) k = Some (Some n)"
      using k i by (auto simp: RecordPastIndex_def record_new_def map_of_sm_insert map_of_sm_assign map_of_sm_erase sm_inv_erase split: option.splits)
    then show ?thesis
      by (intro exI [of _ "stIndexInfo n"]) simp
  qed
qed

lemma confirm_one_key:
  assumes "resend_ok s"
  shows "resend_ok (snd (HandleReportConfirm fixLen r s))" and "resend_log (snd (HandleReportConfirm fixLen r s)) = resend_log s"
    and "map_of (m_indexMap (snd (HandleReportConfirm fixLen r s))) k = (if confirms fixLen k (Confirm r) then None else map_of (m_indexMap s) k)"
  using assms
  by (auto simp: HandleReportConfirm_def Let_def resend_ok_def map_of_sm_erase sm_inv_erase not_less not_le[symmetric] split: option.splits if_splits)

lemma do_ok:
  assumes "resend_ok s"
  shows "resend_ok (resend_do fixLen c s)"
proof (cases c)
  case (Check a t e)
  then show ?thesis using assms check_one_key(1) [OF assms] by (cases a) (simp_all add: CheckUnackedIndex_def)
qed (simp_all add: past_one_key(1) [OF assms] confirm_one_key(1) [OF assms])

lemma run_ok: "resend_ok s \<Longrightarrow> resend_ok (resend_run fixLen cs s)"
  unfolding resend_run_def by (induction cs arbitrary: s) (auto simp: do_ok)

lemma new_ok: "resend_ok resend_new"
  by (simp add: resend_ok_def resend_new_def)

text \<open>
  A key that was remembered with the end \<open>b\<close>: until four messages for it have been sent it is stored, with the number
  of messages sent so far and an end that is not before \<open>b\<close>.
\<close>

definition remembered :: "int \<Rightarrow> RecordIndexCacheNode option option \<Rightarrow> Update_Record_Index list \<Rightarrow> bool" where
  "remembered b v ms \<longleftrightarrow> (\<forall>m \<in> set (take 4 ms). b \<le> ur_EndTime m) \<and>
     (4 \<le> length ms \<or> (\<exists>n. v = Some (Some n) \<and> uiResendTimes n = of_nat (length ms) \<and> b \<le> ur_EndTime (stIndexInfo n)))"

lemma remembered_check:
  assumes "remembered b v ms"
  shows "remembered b (node_after t e v) (ms @ sent_now t e v)"
proof (cases "4 \<le> length ms")
  case True
  then show ?thesis using assms by (simp add: remembered_def)
next
  case False
  then obtain n where n: "v = Some (Some n)" "uiResendTimes n = of_nat (length ms)" "b \<le> ur_EndTime (stIndexInfo n)"
    and ms: "\<forall>m \<in> set ms. b \<le> ur_EndTime m"
    using assms by (auto simp: remembered_def)
  have "length ms = 0 \<or> length ms = 1 \<or> length ms = 2 \<or> length ms = 3"
    using False by linarith
  then have "\<not> uiResendTimes n > UNACKED_INDEX_RESEND_TIMES"
    using n(2) by auto
  then show ?thesis
    using n ms by (auto simp: remembered_def node_after_def sent_now_def dest!: in_set_takeD)
qed

lemma remembered_do:
  assumes "resend_ok s" and "\<not> confirms fixLen k c" and "remembered b (map_of (m_indexMap s) k) (drop d (sent k (resend_log s)))"
    and "d \<le> length (sent k (resend_log s))"
  shows "remembered b (map_of (m_indexMap (resend_do fixLen c s)) k) (drop d (sent k (resend_log (resend_do fixLen c s)))) \<and>
    d \<le> length (sent k (resend_log (resend_do fixLen c s)))"
proof (cases c)
  case (Past new now p)
  show ?thesis
  proof (cases "4 \<le> length (drop d (sent k (resend_log s)))")
    case True
    then show ?thesis using assms(3,4) unfolding Past by (simp add: remembered_def past_one_key(2) [OF assms(1)])
  next
    case False
    then obtain n where n: "map_of (m_indexMap s) k = Some (Some n)" "uiResendTimes n = of_nat (length (drop d (sent k (resend_log s))))"
        "b \<le> ur_EndTime (stIndexInfo n)"
      using assms(3) by (auto simp: remembered_def)
    from past_one_key(3) [OF assms(1) n(1), of new now p] obtain i
      where i: "map_of (m_indexMap (snd (RecordPastIndex new now p s))) k = Some (Some (n\<lparr>stIndexInfo := i\<rparr>))" "ur_EndTime (stIndexInfo n) \<le> ur_EndTime i"
      by blast
    then show ?thesis
      using assms(3,4) n unfolding Past remembered_def by (simp add: past_one_key(2) [OF assms(1)])
  qed
next
  case (Confirm r)
  then show ?thesis using assms by (simp add: confirm_one_key [OF assms(1)])
next
  case (Check a t e)
  show ?thesis
  proof (cases a)
    case True
    then show ?thesis
      using remembered_check [OF assms(3), of t "e k"] assms(4) unfolding Check by (simp add: check_one_key [OF assms(1)])
  next
    case False
    then show ?thesis using assms unfolding Check by (simp add: CheckUnackedIndex_def)
  qed
qed

lemma remembered_run:
  assumes "resend_ok s" and "\<forall>c \<in> set cs. \<not> confirms fixLen k c"
    and "remembered b (map_of (m_indexMap s) k) (drop d (sent k (resend_log s)))" and "d \<le> length (sent k (resend_log s))"
  shows "remembered b (map_of (m_indexMap (resend_run fixLen cs s)) k) (drop d (sent k (resend_log (resend_run fixLen cs s))))"
  using assms
proof (induction cs arbitrary: s)
  case Nil
  then show ?case by (simp add: resend_run_def)
next
  case (Cons c cs)
  then have "\<not> confirms fixLen k c" "\<forall>c \<in> set cs. \<not> confirms fixLen k c"
    by simp_all
  with Cons.IH [OF do_ok [OF Cons.prems(1)], of fixLen c] remembered_do [OF Cons.prems(1) _ Cons.prems(3,4), of fixLen c] show ?case
    by (simp add: resend_run_def)
qed

lemma past_stored:
  assumes "resend_ok s" and "map_of (m_indexMap s) (MakeIndexInfoKey p) = None"
  shows "map_of (m_indexMap (snd (RecordPastIndex True now (Some p) s))) (MakeIndexInfoKey p) =
    Some (Some \<lparr> stIndexInfo = p\<lparr>ur_RecordReportType := REPORT_INDEX_TYPE_RECONNECT\<rparr>, uiResendTimes = 0, ulSendTimeTick = now \<rparr>)"
  using assms by (simp add: RecordPastIndex_def record_new_def resend_ok_def map_of_sm_insert)

section \<open>The theorems\<close>

text \<open>
  The last message of an index record is not forgotten: after it was remembered, whatever is remembered, confirmed or checked
  afterwards, as long as no confirmation of this record arrives its entry stays or four messages have been sent.
\<close>

lemma resend_not_forgotten:
  assumes "map_of (m_indexMap (resend_run fixLen bs resend_new)) (MakeIndexInfoKey p) = None"
    and "\<forall>c \<in> set cs. \<not> confirms fixLen (MakeIndexInfoKey p) c"
  shows "remembered (ur_EndTime p) (map_of (m_indexMap (resend_run fixLen (bs @ Past True now (Some p) # cs) resend_new)) (MakeIndexInfoKey p))
    (drop (length (sent (MakeIndexInfoKey p) (resend_log (resend_run fixLen bs resend_new))))
      (sent (MakeIndexInfoKey p) (resend_log (resend_run fixLen (bs @ Past True now (Some p) # cs) resend_new))))"
proof -
  let ?s = "resend_run fixLen bs resend_new" and ?k = "MakeIndexInfoKey p"
  let ?t = "snd (RecordPastIndex True now (Some p) ?s)"
  have ok: "resend_ok ?s"
    by (rule run_ok [OF new_ok])
  have run: "resend_run fixLen (bs @ Past True now (Some p) # cs) resend_new = resend_run fixLen cs ?t"
    by (simp add: resend_run_def)
  have "remembered (ur_EndTime p) (map_of (m_indexMap ?t) ?k) (drop (length (sent ?k (resend_log ?s))) (sent ?k (resend_log ?t)))"
    unfolding past_stored [OF ok assms(1)] past_one_key(2) [OF ok] by (simp add: remembered_def)
  moreover have "length (sent ?k (resend_log ?s)) \<le> length (sent ?k (resend_log ?t))"
    by (simp add: past_one_key(2) [OF ok])
  ultimately show ?thesis
    unfolding run by (rule remembered_run [OF past_one_key(1) [OF ok] assms(2)])
qed

text \<open>Calls that are not about the record with key \<open>k\<close>: those for other records, and every check.\<close>

fun elsewhere :: "u32 \<Rightarrow> string \<Rightarrow> resend_call \<Rightarrow> bool" where
  "elsewhere fixLen k (Past new now p) \<longleftrightarrow> (case p of None \<Rightarrow> True | Some q \<Rightarrow> MakeIndexInfoKey q \<noteq> k)"
| "elsewhere fixLen k (Confirm r) \<longleftrightarrow> \<not> confirms fixLen k (Confirm r)"
| "elsewhere fixLen k (Check c t e) \<longleftrightarrow> True"

fun checks :: "resend_call \<Rightarrow> bool" where
  "checks (Check c t e) \<longleftrightarrow> c"
| "checks c \<longleftrightarrow> False"

text \<open>
  A check is due for \<open>k\<close> when the store is connected, more than two minutes have passed since the time \<open>t0\<close> of the message before, and
  the message can be made and queued.  \<open>due\<close> gives, for each due check, the calls behind it.
\<close>

fun is_due :: "string \<Rightarrow> int \<Rightarrow> resend_call \<Rightarrow> bool" where
  "is_due k t0 (Check c t e) \<longleftrightarrow> c \<and> t - t0 > UNACKED_INDEX_RESEND_INTERVAL \<and> takes (e k)"
| "is_due k t0 c \<longleftrightarrow> False"

fun sent_at :: "string \<Rightarrow> resend_call \<Rightarrow> int" where
  "sent_at k (Check c t e) = rs_now (e k)"
| "sent_at k c = 0"

fun due :: "string \<Rightarrow> int \<Rightarrow> resend_call list \<Rightarrow> resend_call list list" where
  "due k t0 [] = []"
| "due k t0 (c # cs) = (if is_due k t0 c then cs # due k (sent_at k c) cs else due k t0 cs)"

lemma past_other_key:
  assumes "resend_ok s" and "elsewhere fixLen k (Past new now p)"
  shows "map_of (m_indexMap (snd (RecordPastIndex new now p s))) k = map_of (m_indexMap s) k"
proof -
  have i: "sm_inv (m_indexMap s)"
    using assms(1) by (simp add: resend_ok_def)
  show ?thesis
    using assms(2) i by (auto simp: RecordPastIndex_def record_new_def map_of_sm_insert map_of_sm_assign map_of_sm_erase sm_inv_erase
        split: option.splits)
qed

lemma elsewhere_do:
  assumes "resend_ok s" and "elsewhere fixLen k c" and "\<not> checks c"
  shows "map_of (m_indexMap (resend_do fixLen c s)) k = map_of (m_indexMap s) k \<and> resend_log (resend_do fixLen c s) = resend_log s"
proof (cases c)
  case (Past new now p)
  then show ?thesis
    using past_other_key [OF assms(1), of fixLen k new now p] past_one_key(2) [OF assms(1)] assms(2) by simp
next
  case (Confirm r)
  then show ?thesis
    using confirm_one_key(2,3) [OF assms(1)] assms(2) by simp
next
  case (Check a t e)
  then show ?thesis
    using assms(3) by (simp add: CheckUnackedIndex_def)
qed

lemma gone_do:
  assumes "resend_ok s" and "elsewhere fixLen k c" and "map_of (m_indexMap s) k = None"
  shows "map_of (m_indexMap (resend_do fixLen c s)) k = None \<and> sent k (resend_log (resend_do fixLen c s)) = sent k (resend_log s)"
proof (cases "checks c")
  case True
  then obtain t e where "c = Check True t e"
    by (cases c) auto
  then show ?thesis
    using check_one_key(2,3) [OF assms(1), where t = t and env = e and k = k] assms(3) by (simp add: node_after_def sent_now_def)
next
  case False
  then show ?thesis
    using elsewhere_do [OF assms(1,2)] assms(3) by simp
qed

lemma gone_run:
  assumes "resend_ok s" and "\<forall>c \<in> set cs. elsewhere fixLen k c" and "map_of (m_indexMap s) k = None"
  shows "map_of (m_indexMap (resend_run fixLen cs s)) k = None \<and> sent k (resend_log (resend_run fixLen cs s)) = sent k (resend_log s)"
  using assms
proof (induction cs arbitrary: s)
  case Nil
  then show ?case by (simp add: resend_run_def)
next
  case (Cons c cs)
  then have "elsewhere fixLen k c" "\<forall>c \<in> set cs. elsewhere fixLen k c"
    by simp_all
  with Cons.IH [OF do_ok [OF Cons.prems(1)], of fixLen c] gone_do [OF Cons.prems(1) _ Cons.prems(3), of fixLen c] show ?case
    by (simp add: resend_run_def)
qed

text \<open>
  An entry that was sent \<open>j\<close> times: it is sent by the due checks until there are four, and the first check with the store connected behind
  the fourth message removes it.
\<close>

lemma due_run:
  assumes "resend_ok s" and "\<forall>c \<in> set cs. elsewhere fixLen k c" and "map_of (m_indexMap s) k = Some (Some n)"
    and "uiResendTimes n = of_nat j" and "j \<le> 4"
  shows "sent k (resend_log (resend_run fixLen cs s)) =
      sent k (resend_log s) @ replicate (min (4 - j) (length (due k (ulSendTimeTick n) cs))) (stIndexInfo n) \<and>
    (map_of (m_indexMap (resend_run fixLen cs s)) k = None \<longleftrightarrow>
      4 - j \<le> length (due k (ulSendTimeTick n) cs) \<and> (\<exists>c \<in> set ((cs # due k (ulSendTimeTick n) cs) ! (4 - j)). checks c))"
  using assms
proof (induction cs arbitrary: s n j)
  case Nil
  then show ?case by (cases "4 - j") (simp_all add: resend_run_def)
next
  case (Cons c cs)
  let ?s = "resend_do fixLen c s"
  have el: "elsewhere fixLen k c" "\<forall>c \<in> set cs. elsewhere fixLen k c"
    using Cons.prems(2) by simp_all
  have ok: "resend_ok ?s"
    by (rule do_ok [OF Cons.prems(1)])
  have run: "resend_run fixLen (c # cs) s = resend_run fixLen cs ?s"
    by (simp add: resend_run_def)
  show ?case
  proof (cases "checks c")
    case False
    then have d: "\<not> is_due k (ulSendTimeTick n) c"
      by (cases c) auto
    have m: "map_of (m_indexMap ?s) k = Some (Some n)" "resend_log ?s = resend_log s"
      using elsewhere_do [OF Cons.prems(1) el(1) False] Cons.prems(3) by simp_all
    show ?thesis
      using Cons.IH [OF ok el(2) m(1) Cons.prems(4,5)] d m(2) False unfolding run by (cases "4 - j") simp_all
  next
    case True
    then obtain t e where c: "c = Check True t e"
      by (cases c) auto
    note v = check_one_key(2,3) [OF Cons.prems(1), where t = t and env = e and k = k]
    show ?thesis
    proof (cases "j = 4")
      case True
      then have "map_of (m_indexMap ?s) k = None" "sent k (resend_log ?s) = sent k (resend_log s)"
        using v Cons.prems(3,4) by (simp_all add: c node_after_def sent_now_def resend_due_def)
      then show ?thesis
        using gone_run [OF ok el(2)] True unfolding run by (simp add: c)
    next
      case False
      then have "j = 0 \<or> j = 1 \<or> j = 2 \<or> j = 3"
        using Cons.prems(5) by linarith
      then have le: "\<not> uiResendTimes n > UNACKED_INDEX_RESEND_TIMES"
        using Cons.prems(4) by auto
      have j: "4 - j = Suc (4 - Suc j)" "Suc j \<le> 4"
        using False Cons.prems(5) by simp_all
      show ?thesis
      proof (cases "is_due k (ulSendTimeTick n) c")
        case True
        let ?n = "n\<lparr>uiResendTimes := uiResendTimes n + 1, ulSendTimeTick := rs_now (e k)\<rparr>"
        have m: "map_of (m_indexMap ?s) k = Some (Some ?n)" "sent k (resend_log ?s) = sent k (resend_log s) @ [stIndexInfo n]"
          using v Cons.prems(3) le True by (simp_all add: c node_after_def sent_now_def resend_due_def)
        have n: "uiResendTimes ?n = of_nat (Suc j)" "ulSendTimeTick ?n = sent_at k c" "stIndexInfo ?n = stIndexInfo n"
          using Cons.prems(4) by (simp_all add: c)
        show ?thesis
          using Cons.IH [OF ok el(2) m(1) n(1) j(2)] True unfolding run n m(2) j(1) by simp
      next
        case False
        then have "\<not> resend_due t (e k) n"
          by (auto simp: c resend_due_def)
        then have "map_of (m_indexMap ?s) k = Some (Some n)" "sent k (resend_log ?s) = sent k (resend_log s)"
          using v Cons.prems(3) le by (simp_all add: c node_after_def sent_now_def)
        then show ?thesis
          using Cons.IH [OF ok el(2) _ Cons.prems(4,5)] False unfolding run j(1) by simp
      qed
    qed
  qed
qed

text \<open>
  C27.  A record the manager did not have is remembered (there is memory for the entry); after that follow, in any order and at any times, calls
  for other records and checks, with the store connected or not and with the queue taking messages or not.  A check is due when the store is connected, the message
  can be made and queued, and more than two minutes have passed since the record was remembered or its last message was sent.  Then
  exactly the first four due checks send the remembered message again, no other call sends one for this record, and its
  entry is gone exactly when a check with the store connected came behind the fourth message.
\<close>

theorem resend_schedule:
  assumes "map_of (m_indexMap (resend_run fixLen bs resend_new)) (MakeIndexInfoKey p) = None"
    and "\<forall>c \<in> set cs. elsewhere fixLen (MakeIndexInfoKey p) c"
  shows "sent (MakeIndexInfoKey p) (resend_log (resend_run fixLen (bs @ Past True now (Some p) # cs) resend_new)) =
      sent (MakeIndexInfoKey p) (resend_log (resend_run fixLen bs resend_new)) @
        replicate (min 4 (length (due (MakeIndexInfoKey p) now cs))) (p\<lparr>ur_RecordReportType := REPORT_INDEX_TYPE_RECONNECT\<rparr>) \<and>
    (map_of (m_indexMap (resend_run fixLen (bs @ Past True now (Some p) # cs) resend_new)) (MakeIndexInfoKey p) = None \<longleftrightarrow>
      4 \<le> length (due (MakeIndexInfoKey p) now cs) \<and> (\<exists>c \<in> set (due (MakeIndexInfoKey p) now cs ! 3). checks c))"
proof -
  let ?s = "resend_run fixLen bs resend_new" and ?k = "MakeIndexInfoKey p"
  let ?t = "snd (RecordPastIndex True now (Some p) ?s)"
  have ok: "resend_ok ?s"
    by (rule run_ok [OF new_ok])
  have run: "resend_run fixLen (bs @ Past True now (Some p) # cs) resend_new = resend_run fixLen cs ?t"
    by (simp add: resend_run_def)
  show ?thesis
    using due_run [OF past_one_key(1) [OF ok] assms(2) past_stored [OF ok assms(1)], where j = 0]
    unfolding run by (simp add: past_one_key(2) [OF ok])
qed

definition sample_past :: Update_Record_Index where
  "sample_past = \<lparr> ur_Type = RECORD_INDEX_TYPE_UPDATE, ur_LensId = ''cam'', ur_ChangeBeforeStartTime = 0, ur_StartTime = 1000, ur_EndTime = 1060,
     ur_VideoFlux = 4, ur_RecordReportType = REPORT_INDEX_TYPE_OVER, ur_RecordFilePath = ''/disk'' \<rparr>"

definition sample_env :: "int \<Rightarrow> string \<Rightarrow> resend_env" where
  "sample_env t k = \<lparr> rs_alloc = True, rs_server = True, rs_enqueue = True, rs_now = t \<rparr>"

lemma run_nil: "resend_run fixLen [] s = s"
  by (simp add: resend_run_def)

text \<open>The timer checks every minute: every third check is due, the twelfth sends the fourth message and the thirteenth removes the entry.\<close>

definition timer_checks :: "int list \<Rightarrow> resend_call list" where
  "timer_checks ms = map (\<lambda>m. Check True (1060 + 60 * m) (sample_env (1060 + 60 * m))) ms"

lemma timer_due: "due (MakeIndexInfoKey sample_past) 1060 (timer_checks [1, 2, 3, 4, 5, 6, 7, 8, 9, 10, 11, 12, 13]) =
    map timer_checks [[4, 5, 6, 7, 8, 9, 10, 11, 12, 13], [7, 8, 9, 10, 11, 12, 13], [10, 11, 12, 13], [13]]"
  by (simp add: timer_checks_def sample_env_def takes_def)

theorem resend_schedule_witness:
  "sent (MakeIndexInfoKey sample_past) (resend_log (resend_run 56 ([] @ Past True 1060 (Some sample_past) #
       timer_checks [1, 2, 3, 4, 5, 6, 7, 8, 9, 10, 11, 12, 13]) resend_new)) =
     replicate 4 (sample_past\<lparr>ur_RecordReportType := REPORT_INDEX_TYPE_RECONNECT\<rparr>) \<and>
   map_of (m_indexMap (resend_run 56 ([] @ Past True 1060 (Some sample_past) #
       timer_checks [1, 2, 3, 4, 5, 6, 7, 8, 9, 10, 11, 12, 13]) resend_new)) (MakeIndexInfoKey sample_past) = None"
proof -
  have n: "map_of (m_indexMap (resend_run 56 [] resend_new)) (MakeIndexInfoKey sample_past) = None"
    and e: "\<forall>c \<in> set (timer_checks [1, 2, 3, 4, 5, 6, 7, 8, 9, 10, 11, 12, 13]). elsewhere 56 (MakeIndexInfoKey sample_past) c"
    by (simp_all add: run_nil resend_new_def timer_checks_def)
  have s: "sent k (resend_log (resend_run 56 [] resend_new)) = []" for k
    by (simp add: run_nil resend_new_def sent_def)
  let ?d = "map timer_checks [[4, 5, 6, 7, 8, 9, 10, 11, 12, 13], [7, 8, 9, 10, 11, 12, 13], [10, 11, 12, 13], [13]]"
  have l: "length ?d = 4" and c: "\<exists>c \<in> set (?d ! 3). checks c"
    by (simp_all add: timer_checks_def numeral_3_eq_3)
  show ?thesis
    using resend_schedule [OF n e, of 1060] c unfolding timer_due s l by simp
qed

section \<open>The index list and the resend manager\<close>

text \<open>
  C26.  A record of the index that is closed is not lost when the queue does not take its message, or when there is no
  server: whenever \<open>sendDBRecordIndex\<close> closes a record and there is memory for the message, the log of the index list says
  that the manager was told, with the record's camera, start and end.  And when the manager has no entry for this start and
  camera yet and has memory for one, it keeps the record through every sequence of calls without a confirmation of this start and
  camera, until four messages for it have been sent.  (An entry that exists is extended and keeps its count, see the end of this theory.)
\<close>

theorem closed_record_kept:
  assumes "sendDBRecordIndex e nType c a b sz path flag l = Some (r, l1)" and "flag \<noteq> 0" and "ie_alloc e (index_log l)"
    and "map_of (m_indexMap (resend_run fixLen bs resend_new)) (index_key a (m_szDeviceID l)) = None"
    and "\<forall>x \<in> set cs. \<not> confirms fixLen (index_key a (m_szDeviceID l)) x"
  shows "\<exists>p. index_log l1 ! length (index_log l) = PastIndex p \<and> ur_LensId p = m_szDeviceID l \<and> ur_StartTime p = a \<and> ur_EndTime p = b \<and>
    remembered b (map_of (m_indexMap (resend_run fixLen (bs @ Past True now (Some p) # cs) resend_new)) (index_key a (m_szDeviceID l)))
      (drop (length (sent (index_key a (m_szDeviceID l)) (resend_log (resend_run fixLen bs resend_new))))
        (sent (index_key a (m_szDeviceID l)) (resend_log (resend_run fixLen (bs @ Past True now (Some p) # cs) resend_new))))"
proof -
  obtain p where p: "index_log l1 ! length (index_log l) = PastIndex p" "ur_LensId p = m_szDeviceID l" "ur_StartTime p = a" "ur_EndTime p = b"
    using assms(1-3) by (auto simp: sendDBRecordIndex_def Let_def nth_append split: option.splits if_splits)
  then have k: "index_key a (m_szDeviceID l) = MakeIndexInfoKey p"
    by (simp add: MakeIndexInfoKey_def)
  from resend_not_forgotten [OF assms(4,5) [unfolded k], of now] p show ?thesis
    unfolding k by blast
qed

definition sample_list :: SVS_Index_List where
  "sample_list = SVS_Index_List_new\<lparr>m_szDeviceID := ''cam''\<rparr>"

theorem closed_record_kept_witness:
  "\<exists>p l1. sendDBRecordIndex utc_env RECORD_INDEX_TYPE_UPDATE 0 1000 1060 4096 [] 1 sample_list = Some (SVS_RESULT_OK, l1) \<and>
     index_log l1 ! 0 = PastIndex p \<and>
     remembered 1060 (map_of (m_indexMap (resend_run 56 [Past True 1060 (Some p), Check False 1200 (sample_env 1201)] resend_new)) (index_key 1000 ''cam''))
       (sent (index_key 1000 ''cam'') (resend_log (resend_run 56 [Past True 1060 (Some p), Check False 1200 (sample_env 1201)] resend_new)))"
proof -
  have l: "index_log sample_list = []" "m_szDeviceID sample_list = ''cam''"
    by (simp_all add: sample_list_def SVS_Index_List_new_def index_reset_def)
  have f: "str_find ''cam'' [] = None" "ie_alloc utc_env [] = True" "\<And>x. ie_server utc_env x"
    by (simp_all add: utc_env_def)
  then obtain l1 where s: "sendDBRecordIndex utc_env RECORD_INDEX_TYPE_UPDATE 0 1000 1060 4096 [] 1 sample_list = Some (SVS_RESULT_OK, l1)"
    unfolding sendDBRecordIndex_def Let_def l by simp
  have n: "map_of (m_indexMap (resend_run 56 [] resend_new)) (index_key 1000 (m_szDeviceID sample_list)) = None"
    by (simp add: run_nil resend_new_def)
  have r: "drop (length (sent k (resend_log (resend_run 56 [] resend_new)))) xs = xs" for k and xs :: "Update_Record_Index list"
    by (simp add: run_nil resend_new_def sent_def)
  from closed_record_kept [OF s _ _ n, of "[Check False 1200 (sample_env 1201)]" 1060] f(2) s show ?thesis
    unfolding r unfolding l append_Nil list.size by auto
qed

section \<open>What is not kept\<close>

text \<open>A confirmation is matched by start and camera only: that of an earlier end removes the entry with the later end.\<close>

lemma confirm_ignores_end:
  assumes "resend_ok s" and "fixLen \<le> rp_PacketLength r" and "MakeIndexInfoKey p = index_key (uint (rp_IndexStartTime r)) (rp_DeviceID r)"
  shows "map_of (m_indexMap (snd (HandleReportConfirm fixLen (Some r) s))) (MakeIndexInfoKey p) = None"
  using assms by (simp add: confirm_one_key [OF assms(1)])

text \<open>A node that is overwritten keeps its count: one that has been sent four times is removed without the later end being sent.\<close>

lemma extended_after_four:
  assumes "resend_ok s" and "map_of (m_indexMap s) (MakeIndexInfoKey p) = Some (Some n)" and "uiResendTimes n = 4"
    and "ur_EndTime (stIndexInfo n) < ur_EndTime p"
  shows "map_of (m_indexMap (snd (CheckUnackedIndex True t e (snd (RecordPastIndex new now (Some p) s))))) (MakeIndexInfoKey p) = None"
    and "sent (MakeIndexInfoKey p) (resend_log (snd (CheckUnackedIndex True t e (snd (RecordPastIndex new now (Some p) s))))) =
      sent (MakeIndexInfoKey p) (resend_log s)"
proof -
  have "map_of (m_indexMap (snd (RecordPastIndex new now (Some p) s))) (MakeIndexInfoKey p) = Some (Some (n\<lparr>stIndexInfo := p\<rparr>))"
    using assms by (simp add: RecordPastIndex_def map_of_sm_assign resend_ok_def)
  then show "map_of (m_indexMap (snd (CheckUnackedIndex True t e (snd (RecordPastIndex new now (Some p) s))))) (MakeIndexInfoKey p) = None"
    and "sent (MakeIndexInfoKey p) (resend_log (snd (CheckUnackedIndex True t e (snd (RecordPastIndex new now (Some p) s))))) =
      sent (MakeIndexInfoKey p) (resend_log s)"
    using assms(3) by (simp_all add: check_one_key [OF past_one_key(1) [OF assms(1)]] past_one_key(2) [OF assms(1)] node_after_def
        sent_now_def resend_due_def)
qed

text \<open>And it is not marked as sent again.\<close>

lemma extended_not_reconnect:
  assumes "resend_ok s" and "map_of (m_indexMap s) (MakeIndexInfoKey p) = Some (Some n)" and "ur_EndTime (stIndexInfo n) < ur_EndTime p"
  shows "map_of (m_indexMap (snd (RecordPastIndex new now (Some p) s))) (MakeIndexInfoKey p) = Some (Some (n\<lparr>stIndexInfo := p\<rparr>))"
  using assms by (simp add: RecordPastIndex_def map_of_sm_assign resend_ok_def)

end
