(* ===== verification/MbBuffer.thy ===== *)
theory MbBuffer
  imports SvsPrelude "HOL-Library.Multiset"
begin

text \<open>
  \<open>svs_mb_buffer.cpp\<close> of the recording unit: message blocks of several kinds and sizes are made once and then taken and
  returned, by the threads through caches of their own.  A block is its identity, the kind and length class in the two
  bytes in front of its data, and its size.  Blocks that are linked by \<open>next\<close> or \<open>cont\<close> are lists.  The arrays over kind
  and length class are functions of the two indices.  Allocation is an argument.  A call through a null pointer is
  \<^const>\<open>None\<close>.
\<close>

section \<open>One pool\<close>

record msg_block =
  blk_id :: nat
  blk_type :: nat
  blk_length :: nat
  blk_size :: nat

record CSVS_Mb_Buffer =
  mb_size :: nat
  free_mb_count :: u32
  max_free_mb_count :: u32
  free_mb_list :: "msg_block list"
  mb_inited_flag :: bool
  mb_type :: nat
  mb_len :: nat

definition mb_reset :: "CSVS_Mb_Buffer" where
  "mb_reset = \<lparr> mb_size = 0, free_mb_count = 0, max_free_mb_count = 0, free_mb_list = [], mb_inited_flag = False, mb_type = 0,
     mb_len = 0 \<rparr>"

text \<open>\<open>clear\<close>: the return value, the pool and the deleted blocks.\<close>

definition mb_clear :: "CSVS_Mb_Buffer \<Rightarrow> int \<times> CSVS_Mb_Buffer \<times> msg_block list" where
  "mb_clear p = (0, mb_reset, free_mb_list p)"

text \<open>The loop of \<open>init\<close> from \<open>i\<close> on; \<open>alloc i\<close> is the block that is made, if there is memory for it and its data.\<close>

fun mb_init_loop :: "(nat \<Rightarrow> nat option) \<Rightarrow> nat \<Rightarrow> nat \<Rightarrow> CSVS_Mb_Buffer \<Rightarrow> bool \<times> CSVS_Mb_Buffer" where
  "mb_init_loop alloc i 0 p = (True, p)"
| "mb_init_loop alloc i (Suc n) p =
     (case alloc i of
        None \<Rightarrow> (False, p)
      | Some a \<Rightarrow> mb_init_loop alloc (i + 1) n (p\<lparr>free_mb_list :=
          \<lparr> blk_id = a, blk_type = mb_type p, blk_length = mb_len p, blk_size = mb_size p \<rparr> # free_mb_list p\<rparr>))"

definition mb_init :: "(nat \<Rightarrow> nat option) \<Rightarrow> u32 \<Rightarrow> nat \<Rightarrow> nat \<Rightarrow> nat \<Rightarrow> CSVS_Mb_Buffer \<Rightarrow> int \<times> CSVS_Mb_Buffer" where
  "mb_init alloc mbCount mbSize mbType mbLen p =
     (if mb_inited_flag p then (- 1, p)
      else
        case mb_init_loop alloc 0 (unat mbCount)
               (p\<lparr>max_free_mb_count := mbCount, free_mb_count := mbCount, mb_size := mbSize, mb_type := mbType, mb_len := mbLen\<rparr>) of
          (ok, p1) \<Rightarrow> if \<not> ok then (- 1, fst (snd (mb_clear p1))) else (0, p1\<lparr>mb_inited_flag := True\<rparr>))"

text \<open>\<open>alloc_mb (allocCount)\<close>: the chain of the blocks, empty for NULL; \<open>alloc_mb ()\<close> is the chain of one block.\<close>

fun alloc_loop :: "nat \<Rightarrow> CSVS_Mb_Buffer \<Rightarrow> msg_block list \<times> CSVS_Mb_Buffer" where
  "alloc_loop 0 p = ([], p)"
| "alloc_loop (Suc n) p =
     (case free_mb_list p of
        [] \<Rightarrow> ([], p)
      | b # bs \<Rightarrow> (case alloc_loop n (p\<lparr>free_mb_list := bs, free_mb_count := free_mb_count p - 1\<rparr>) of (c, p1) \<Rightarrow> (b # c, p1)))"

definition mb_alloc_count :: "u32 \<Rightarrow> CSVS_Mb_Buffer \<Rightarrow> msg_block list \<times> CSVS_Mb_Buffer" where
  "mb_alloc_count allocCount p =
     (if \<not> mb_inited_flag p then ([], p) else if allocCount = 0 then ([], p) else alloc_loop (unat allocCount) p)"

definition mb_alloc :: "CSVS_Mb_Buffer \<Rightarrow> msg_block list \<times> CSVS_Mb_Buffer" where
  "mb_alloc p = (if \<not> mb_inited_flag p then ([], p) else alloc_loop 1 p)"

text \<open>\<open>free_mb\<close>: a block of another size is dropped.\<close>

fun free_chain :: "msg_block list \<Rightarrow> CSVS_Mb_Buffer \<Rightarrow> CSVS_Mb_Buffer" where
  "free_chain [] p = p"
| "free_chain (b # bs) p =
     free_chain bs (if blk_size b \<noteq> mb_size p then p
       else p\<lparr>free_mb_list := b # free_mb_list p, free_mb_count := free_mb_count p + 1\<rparr>)"

definition mb_free :: "msg_block list \<Rightarrow> CSVS_Mb_Buffer \<Rightarrow> int \<times> CSVS_Mb_Buffer" where
  "mb_free mb p = (if mb = [] then (- 1, p) else (0, free_chain mb p))"

section \<open>The manager\<close>

abbreviation (input) MB_TYPE_ALARM_EVENT :: nat where "MB_TYPE_ALARM_EVENT \<equiv> 0"
abbreviation (input) MB_TYPE_NORMAL_EVENT :: nat where "MB_TYPE_NORMAL_EVENT \<equiv> 1"
abbreviation (input) MB_TYPE_CALL_BACK :: nat where "MB_TYPE_CALL_BACK \<equiv> 2"
abbreviation (input) MB_TYPE_SEND_MSG :: nat where "MB_TYPE_SEND_MSG \<equiv> 3"
abbreviation (input) MB_TYPE_EVENT_MSG :: nat where "MB_TYPE_EVENT_MSG \<equiv> 4"
abbreviation (input) MB_TYPE_MAX_VALUE :: nat where "MB_TYPE_MAX_VALUE \<equiv> 5"
abbreviation (input) MB_LEN_128_BYTE :: nat where "MB_LEN_128_BYTE \<equiv> 0"
abbreviation (input) MB_LEN_256_BYTE :: nat where "MB_LEN_256_BYTE \<equiv> 1"
abbreviation (input) MB_LEN_1K_BYTE :: nat where "MB_LEN_1K_BYTE \<equiv> 2"
abbreviation (input) MB_LEN_4K_BYTE :: nat where "MB_LEN_4K_BYTE \<equiv> 3"
abbreviation (input) MB_LEN_64K_BYTE :: nat where "MB_LEN_64K_BYTE \<equiv> 4"
abbreviation (input) MB_LEN_MAX_VALUE :: nat where "MB_LEN_MAX_VALUE \<equiv> 5"

record CSVS_Mb_Buffer_Manager =
  mb_buff :: "nat \<Rightarrow> nat \<Rightarrow> CSVS_Mb_Buffer option"
  mgr_inited_flag :: bool

definition mgr_new :: CSVS_Mb_Buffer_Manager where
  "mgr_new = \<lparr> mb_buff = (\<lambda>_ _. None), mgr_inited_flag = False \<rparr>"

definition set_cell :: "nat \<Rightarrow> nat \<Rightarrow> 'a \<Rightarrow> (nat \<Rightarrow> nat \<Rightarrow> 'a) \<Rightarrow> nat \<Rightarrow> nat \<Rightarrow> 'a" where
  "set_cell i j x g = g(i := (g i)(j := x))"

definition buffCount :: "u32 list list" where
  "buffCount = [[25000, 0, 0, 0, 0], [5000, 20000, 4000, 160, 50], [40000, 0, 0, 5000, 0], [20000, 4000, 1000, 0, 50], [3000, 0, 0, 0, 0]]"

definition buffSize :: "nat list" where
  "buffSize = [128, 256, 1024, 4096, 65536]"

text \<open>
  \<open>init\<close>: a failure ends the row, and at the end everything is cleared.  \<open>pool i j\<close> says whether there is memory for the
  pool, \<open>alloc i j\<close> what its blocks are.
\<close>

fun init_row :: "(nat \<Rightarrow> bool) \<Rightarrow> (nat \<Rightarrow> nat \<Rightarrow> nat option) \<Rightarrow> nat \<Rightarrow> nat list \<Rightarrow>
    (nat \<Rightarrow> nat \<Rightarrow> CSVS_Mb_Buffer option) \<Rightarrow> bool \<times> (nat \<Rightarrow> nat \<Rightarrow> CSVS_Mb_Buffer option)" where
  "init_row pool alloc i [] g = (True, g)"
| "init_row pool alloc i (j # js) g =
     (if buffCount ! i ! j = 0 then init_row pool alloc i js (set_cell i j None g)
      else if \<not> pool j then (False, g)
      else case mb_init (alloc j) (buffCount ! i ! j) (buffSize ! j + 2) i j mb_reset of
             (r, p) \<Rightarrow> if r \<noteq> 0 then (False, set_cell i j (Some p) g) else init_row pool alloc i js (set_cell i j (Some p) g))"

fun init_rows :: "(nat \<Rightarrow> nat \<Rightarrow> bool) \<Rightarrow> (nat \<Rightarrow> nat \<Rightarrow> nat \<Rightarrow> nat option) \<Rightarrow> nat list \<Rightarrow>
    (nat \<Rightarrow> nat \<Rightarrow> CSVS_Mb_Buffer option) \<Rightarrow> bool \<times> (nat \<Rightarrow> nat \<Rightarrow> CSVS_Mb_Buffer option)" where
  "init_rows pool alloc [] g = (True, g)"
| "init_rows pool alloc (i # is) g =
     (case init_row (pool i) (alloc i) i [0..<MB_LEN_MAX_VALUE] g of
        (ok, g1) \<Rightarrow> (case init_rows pool alloc is g1 of (ok', g2) \<Rightarrow> (ok \<and> ok', g2)))"

definition mgr_clear :: "CSVS_Mb_Buffer_Manager \<Rightarrow> int \<times> CSVS_Mb_Buffer_Manager" where
  "mgr_clear m = (0, m\<lparr>mb_buff := (\<lambda>i j. if i < MB_TYPE_MAX_VALUE \<and> j < MB_LEN_MAX_VALUE then None else mb_buff m i j),
     mgr_inited_flag := False\<rparr>)"

definition mgr_init :: "(nat \<Rightarrow> nat \<Rightarrow> bool) \<Rightarrow> (nat \<Rightarrow> nat \<Rightarrow> nat \<Rightarrow> nat option) \<Rightarrow> CSVS_Mb_Buffer_Manager \<Rightarrow> int \<times> CSVS_Mb_Buffer_Manager" where
  "mgr_init pool alloc m =
     (if mgr_inited_flag m then (- 1, m)
      else case init_rows pool alloc [0..<MB_TYPE_MAX_VALUE] (mb_buff m) of
             (ok, g) \<Rightarrow> if \<not> ok then (- 1, snd (mgr_clear (m\<lparr>mb_buff := g\<rparr>))) else (0, m\<lparr>mb_buff := g, mgr_inited_flag := True\<rparr>))"

definition size_to_len_normal :: "u32 \<Rightarrow> nat" where
  "size_to_len_normal mbSize =
     (if mbSize \<le> 128 then MB_LEN_128_BYTE else if mbSize \<le> 256 then MB_LEN_256_BYTE else if mbSize \<le> 1024 then MB_LEN_1K_BYTE
      else if mbSize \<le> 4096 then MB_LEN_4K_BYTE else if mbSize \<le> 65536 then MB_LEN_64K_BYTE else MB_LEN_MAX_VALUE)"

definition mb_size_to_len_type :: "nat \<Rightarrow> u32 \<Rightarrow> nat" where
  "mb_size_to_len_type mbType mbSize =
     (if mbType = MB_TYPE_ALARM_EVENT then if mbSize \<le> 128 then MB_LEN_128_BYTE else MB_LEN_MAX_VALUE
      else if mbType = MB_TYPE_NORMAL_EVENT then size_to_len_normal mbSize
      else if mbType = MB_TYPE_CALL_BACK
      then if mbSize \<le> 128 then MB_LEN_128_BYTE else if mbSize \<le> 4096 then MB_LEN_4K_BYTE else MB_LEN_MAX_VALUE
      else if mbType = MB_TYPE_SEND_MSG
      then if mbSize \<le> 128 then MB_LEN_128_BYTE else if mbSize \<le> 256 then MB_LEN_256_BYTE
           else if mbSize \<le> 1024 then MB_LEN_1K_BYTE else if mbSize \<le> 65536 then MB_LEN_64K_BYTE else MB_LEN_MAX_VALUE
      else if mbType = MB_TYPE_EVENT_MSG then if mbSize \<le> 128 then MB_LEN_128_BYTE else MB_LEN_MAX_VALUE
      else MB_LEN_MAX_VALUE)"

text \<open>\<open>get_mb_buffer\<close> as the position of the pool, with the three functions for the kinds that have several sizes.\<close>

definition get_mb_buffer_call_back :: "u32 \<Rightarrow> (nat \<times> nat) option" where
  "get_mb_buffer_call_back mbSize =
     (if mbSize \<le> 128 then Some (MB_TYPE_CALL_BACK, MB_LEN_128_BYTE)
      else if mbSize \<le> 4096 then Some (MB_TYPE_CALL_BACK, MB_LEN_4K_BYTE) else None)"

definition get_mb_buffer_send_msg :: "u32 \<Rightarrow> (nat \<times> nat) option" where
  "get_mb_buffer_send_msg mbSize =
     (if mbSize \<le> 128 then Some (MB_TYPE_SEND_MSG, MB_LEN_128_BYTE) else if mbSize \<le> 256 then Some (MB_TYPE_SEND_MSG, MB_LEN_256_BYTE)
      else if mbSize \<le> 1024 then Some (MB_TYPE_SEND_MSG, MB_LEN_1K_BYTE)
      else if mbSize \<le> 65536 then Some (MB_TYPE_SEND_MSG, MB_LEN_64K_BYTE) else None)"

definition get_mb_buffer_normal_event :: "u32 \<Rightarrow> (nat \<times> nat) option" where
  "get_mb_buffer_normal_event mbSize =
     (if mbSize \<le> 128 then Some (MB_TYPE_NORMAL_EVENT, MB_LEN_128_BYTE) else if mbSize \<le> 256 then Some (MB_TYPE_NORMAL_EVENT, MB_LEN_256_BYTE)
      else if mbSize \<le> 1024 then Some (MB_TYPE_NORMAL_EVENT, MB_LEN_1K_BYTE)
      else if mbSize \<le> 65536 then Some (MB_TYPE_NORMAL_EVENT, MB_LEN_64K_BYTE) else None)"

definition get_mb_buffer :: "nat \<Rightarrow> u32 \<Rightarrow> (nat \<times> nat) option" where
  "get_mb_buffer mbType mbSize =
     (if mbType = MB_TYPE_ALARM_EVENT then if mbSize \<le> 128 then Some (MB_TYPE_ALARM_EVENT, MB_LEN_128_BYTE) else None
      else if mbType = MB_TYPE_NORMAL_EVENT then get_mb_buffer_normal_event mbSize
      else if mbType = MB_TYPE_CALL_BACK then get_mb_buffer_call_back mbSize
      else if mbType = MB_TYPE_SEND_MSG then get_mb_buffer_send_msg mbSize
      else if mbType = MB_TYPE_EVENT_MSG then if mbSize \<le> 128 then Some (MB_TYPE_EVENT_MSG, MB_LEN_128_BYTE) else None
      else None)"

definition mgr_alloc_mb :: "nat \<Rightarrow> u32 \<Rightarrow> u32 \<Rightarrow> CSVS_Mb_Buffer_Manager \<Rightarrow> msg_block list \<times> CSVS_Mb_Buffer_Manager" where
  "mgr_alloc_mb mbType mbSize mbCount m =
     (case get_mb_buffer mbType mbSize of
        None \<Rightarrow> ([], m)
      | Some (i, j) \<Rightarrow>
          (case mb_buff m i j of
             None \<Rightarrow> ([], m)
           | Some p \<Rightarrow> (case mb_alloc_count mbCount p of (c, p1) \<Rightarrow> (c, m\<lparr>mb_buff := set_cell i j (Some p1) (mb_buff m)\<rparr>))))"

text \<open>\<open>free_mb\<close>: the chain is split by kind and length class, and each part goes to its pool.  A header outside the array is \<^const>\<open>None\<close>, too.\<close>

fun split_chain :: "msg_block list \<Rightarrow> (nat \<Rightarrow> nat \<Rightarrow> msg_block list) \<Rightarrow> nat \<Rightarrow> nat \<Rightarrow> msg_block list" where
  "split_chain [] g = g"
| "split_chain (b # bs) g = split_chain bs (set_cell (blk_type b) (blk_length b) (b # g (blk_type b) (blk_length b)) g)"

fun free_cells :: "(nat \<times> nat) list \<Rightarrow> (nat \<Rightarrow> nat \<Rightarrow> msg_block list) \<Rightarrow> CSVS_Mb_Buffer_Manager \<Rightarrow> CSVS_Mb_Buffer_Manager option" where
  "free_cells [] g m = Some m"
| "free_cells ((i, j) # cs) g m =
     (if g i j = [] then free_cells cs g m
      else case mb_buff m i j of
             None \<Rightarrow> None
           | Some p \<Rightarrow> free_cells cs g (m\<lparr>mb_buff := set_cell i j (Some (snd (mb_free (g i j) p))) (mb_buff m)\<rparr>))"

definition mb_cells :: "(nat \<times> nat) list" where
  "mb_cells = List.product [0..<MB_TYPE_MAX_VALUE] [0..<MB_LEN_MAX_VALUE]"

definition mgr_free_mb :: "msg_block list \<Rightarrow> CSVS_Mb_Buffer_Manager \<Rightarrow> (int \<times> CSVS_Mb_Buffer_Manager) option" where
  "mgr_free_mb mb m =
     (if mb = [] then Some (- 1, m)
      else if list_ex (\<lambda>b. MB_TYPE_MAX_VALUE \<le> blk_type b \<or> MB_LEN_MAX_VALUE \<le> blk_length b) mb then None
      else map_option (\<lambda>m1. (0, m1)) (free_cells mb_cells (split_chain mb (\<lambda>_ _. [])) m))"

section \<open>The cache of a thread\<close>

abbreviation (input) SVS_ALLOC_MSG_BUFF_COUNT :: u32 where "SVS_ALLOC_MSG_BUFF_COUNT \<equiv> 200"
abbreviation (input) SVS_FREE_MSG_BUFF_COUNT :: u32 where "SVS_FREE_MSG_BUFF_COUNT \<equiv> 200"

record CSVS_Thread_Msg_Buffer_Manager =
  free_msg_buffer :: "nat \<Rightarrow> nat \<Rightarrow> msg_block list"
  used_msg_buffer :: "msg_block list"
  used_msg_buffer_count :: u32
  alloced_msg_buffer_count :: "nat \<Rightarrow> nat \<Rightarrow> u32"

definition thread_reset :: CSVS_Thread_Msg_Buffer_Manager where
  "thread_reset = \<lparr> free_msg_buffer = (\<lambda>_ _. []), used_msg_buffer = [], used_msg_buffer_count = 0, alloced_msg_buffer_count = (\<lambda>_ _. 0) \<rparr>"

definition thread_alloc_mb ::
    "nat \<Rightarrow> u32 \<Rightarrow> CSVS_Thread_Msg_Buffer_Manager \<Rightarrow> CSVS_Mb_Buffer_Manager \<Rightarrow>
     msg_block option \<times> CSVS_Thread_Msg_Buffer_Manager \<times> CSVS_Mb_Buffer_Manager" where
  "thread_alloc_mb mbType mbSize t m =
     (let mbLen = mb_size_to_len_type mbType mbSize
      in if mbLen = MB_LEN_MAX_VALUE then (None, t, m)
         else
           case (if free_msg_buffer t mbType mbLen = [] then mgr_alloc_mb mbType mbSize SVS_ALLOC_MSG_BUFF_COUNT m
                 else (free_msg_buffer t mbType mbLen, m)) of
             ([], m1) \<Rightarrow> (None, t, m1)
           | (b # bs, m1) \<Rightarrow>
               (Some b, t\<lparr>free_msg_buffer := set_cell mbType mbLen bs (free_msg_buffer t),
                  alloced_msg_buffer_count := set_cell mbType mbLen (alloced_msg_buffer_count t mbType mbLen + 1) (alloced_msg_buffer_count t)\<rparr>, m1))"

text \<open>
  \<open>free_mb\<close> of a block with the chain \<open>rest\<close> behind it, or of NULL; the link to \<open>rest\<close> is overwritten when the list of used
  blocks is not empty.
\<close>

definition thread_free_mb ::
    "msg_block list \<Rightarrow> CSVS_Thread_Msg_Buffer_Manager \<Rightarrow> CSVS_Mb_Buffer_Manager \<Rightarrow>
     (CSVS_Thread_Msg_Buffer_Manager \<times> CSVS_Mb_Buffer_Manager) option" where
  "thread_free_mb mb t m =
     (case mb of
        [] \<Rightarrow> Some (t, m)
      | b # rest \<Rightarrow>
          (let used = (if used_msg_buffer t = [] then b # rest else b # used_msg_buffer t);
               n = used_msg_buffer_count t + 1;
               t1 = t\<lparr>used_msg_buffer := used, used_msg_buffer_count := n,
                 alloced_msg_buffer_count := set_cell (blk_type b) (blk_length b)
                   (alloced_msg_buffer_count t (blk_type b) (blk_length b) - 1) (alloced_msg_buffer_count t)\<rparr>
           in if SVS_FREE_MSG_BUFF_COUNT \<le> n \<or> blk_length b \<ge> MB_LEN_4K_BYTE
              then map_option (\<lambda>(_, m1). (t1\<lparr>used_msg_buffer := [], used_msg_buffer_count := 0\<rparr>, m1)) (mgr_free_mb used m)
              else Some (t1, m)))"

text \<open>\<open>clear\<close>: the cached blocks of every cell and the used ones go back.\<close>

fun clear_cells :: "(nat \<times> nat) list \<Rightarrow> CSVS_Thread_Msg_Buffer_Manager \<Rightarrow> CSVS_Mb_Buffer_Manager \<Rightarrow>
    (CSVS_Thread_Msg_Buffer_Manager \<times> CSVS_Mb_Buffer_Manager) option" where
  "clear_cells [] t m = Some (t, m)"
| "clear_cells ((i, j) # cs) t m =
     (let t1 = t\<lparr>free_msg_buffer := set_cell i j [] (free_msg_buffer t),
            alloced_msg_buffer_count := set_cell i j 0 (alloced_msg_buffer_count t)\<rparr>
      in if free_msg_buffer t i j = [] then clear_cells cs t1 m
         else case mgr_free_mb (free_msg_buffer t i j) m of None \<Rightarrow> None | Some (_, m1) \<Rightarrow> clear_cells cs t1 m1)"

definition thread_clear :: "CSVS_Thread_Msg_Buffer_Manager \<Rightarrow> CSVS_Mb_Buffer_Manager \<Rightarrow>
    (CSVS_Thread_Msg_Buffer_Manager \<times> CSVS_Mb_Buffer_Manager) option" where
  "thread_clear t m =
     (case clear_cells mb_cells t m of
        None \<Rightarrow> None
      | Some (t1, m1) \<Rightarrow>
          if used_msg_buffer t1 = [] then Some (t1, m1)
          else map_option (\<lambda>(_, m2). (t1\<lparr>used_msg_buffer := [], used_msg_buffer_count := 0\<rparr>, m2)) (mgr_free_mb (used_msg_buffer t1) m1))"

section \<open>What the pools keep\<close>

text \<open>
  A pool exists where the table has a count.  It holds blocks of its own header and size and counts them; a block fits when
  its header names a pool of its size.
\<close>

definition has_pool :: "nat \<Rightarrow> nat \<Rightarrow> bool" where
  "has_pool i j \<longleftrightarrow> i < MB_TYPE_MAX_VALUE \<and> j < MB_LEN_MAX_VALUE \<and> buffCount ! i ! j \<noteq> 0"

definition block_ok :: "msg_block \<Rightarrow> bool" where
  "block_ok b \<longleftrightarrow> has_pool (blk_type b) (blk_length b) \<and> blk_size b = buffSize ! blk_length b + 2"

definition pool_ok :: "nat \<Rightarrow> nat \<Rightarrow> CSVS_Mb_Buffer \<Rightarrow> bool" where
  "pool_ok i j p \<longleftrightarrow> mb_inited_flag p \<and> mb_size p = buffSize ! j + 2 \<and> free_mb_count p = of_nat (length (free_mb_list p)) \<and>
     (\<forall>b \<in> set (free_mb_list p). blk_type b = i \<and> blk_length b = j \<and> blk_size b = mb_size p)"

definition mgr_ok :: "CSVS_Mb_Buffer_Manager \<Rightarrow> bool" where
  "mgr_ok m \<longleftrightarrow> (\<forall>i j. case mb_buff m i j of None \<Rightarrow> \<not> has_pool i j | Some p \<Rightarrow> has_pool i j \<and> pool_ok i j p)"

definition thread_ok :: "CSVS_Thread_Msg_Buffer_Manager \<Rightarrow> bool" where
  "thread_ok t \<longleftrightarrow>
     (\<forall>i j. \<forall>b \<in> set (free_msg_buffer t i j). j < MB_LEN_MAX_VALUE \<and> block_ok b \<and> blk_type b = i \<and> j \<le> blk_length b) \<and>
     (\<forall>b \<in> set (used_msg_buffer t). block_ok b) \<and>
     used_msg_buffer_count t = of_nat (length (used_msg_buffer t)) \<and> length (used_msg_buffer t) < 200"

text \<open>The blocks of an array over kind and length class, of the manager and of a thread.\<close>

definition cell_sum :: "(nat \<Rightarrow> nat \<Rightarrow> 'a multiset) \<Rightarrow> 'a multiset" where
  "cell_sum f = sum_list (map (\<lambda>(i, j). f i j) mb_cells)"

definition pool_blocks :: "CSVS_Mb_Buffer_Manager \<Rightarrow> nat \<Rightarrow> nat \<Rightarrow> msg_block multiset" where
  "pool_blocks m i j = (case mb_buff m i j of None \<Rightarrow> {#} | Some p \<Rightarrow> mset (free_mb_list p))"

definition mgr_blocks :: "CSVS_Mb_Buffer_Manager \<Rightarrow> msg_block multiset" where
  "mgr_blocks m = cell_sum (pool_blocks m)"

definition thread_blocks :: "CSVS_Thread_Msg_Buffer_Manager \<Rightarrow> msg_block multiset" where
  "thread_blocks t = cell_sum (\<lambda>i j. mset (free_msg_buffer t i j)) + mset (used_msg_buffer t)"

lemma set_cell_apply: "set_cell i j x g i' j' = (if i' = i \<and> j' = j then x else g i' j')"
  by (simp add: set_cell_def)

lemma cells_mem: "(i, j) \<in> set mb_cells \<longleftrightarrow> i < MB_TYPE_MAX_VALUE \<and> j < MB_LEN_MAX_VALUE"
  by (auto simp: mb_cells_def)

lemma cells_distinct: "distinct mb_cells"
  by (simp add: mb_cells_def distinct_product)

lemma sum_cells_set:
  "distinct cs \<Longrightarrow> sum_list (map (\<lambda>(a, b). (set_cell i j x f) a b) cs) + (if (i, j) \<in> set cs then f i j else {#})
     = sum_list (map (\<lambda>(a, b). f a b) cs) + (if (i, j) \<in> set cs then x else {#})"
  by (induction cs) (auto simp: set_cell_apply ac_simps split: if_splits)

lemma cell_sum_set:
  assumes "i < MB_TYPE_MAX_VALUE" and "j < MB_LEN_MAX_VALUE"
  shows "cell_sum (set_cell i j x f) + f i j = cell_sum f + x"
  using sum_cells_set [OF cells_distinct, of i j x f] assms by (simp add: cell_sum_def cells_mem)

lemma cell_sum_filter:
  assumes "\<forall>b \<in> set mb. blk_type b < MB_TYPE_MAX_VALUE \<and> blk_length b < MB_LEN_MAX_VALUE"
  shows "cell_sum (\<lambda>i j. mset (filter (\<lambda>b. blk_type b = i \<and> blk_length b = j) mb)) = mset mb"
  using assms
proof (induction mb)
  case Nil
  then show ?case by (simp add: cell_sum_def case_prod_unfold)
next
  case (Cons b mb)
  let ?f = "\<lambda>mb i j. mset (filter (\<lambda>b. blk_type b = i \<and> blk_length b = j) mb)"
  have "?f (b # mb) = set_cell (blk_type b) (blk_length b) (add_mset b (?f mb (blk_type b) (blk_length b))) (?f mb)"
    by (auto simp: set_cell_apply fun_eq_iff)
  then show ?case
    using cell_sum_set [of "blk_type b" "blk_length b" "add_mset b (?f mb (blk_type b) (blk_length b))" "?f mb"] Cons by simp
qed

lemma mgr_pool:
  assumes "mgr_ok m"
  shows "mb_buff m i j = Some p \<Longrightarrow> has_pool i j \<and> pool_ok i j p" and "has_pool i j \<Longrightarrow> \<exists>p. mb_buff m i j = Some p"
  using assms by (auto simp: mgr_ok_def split: option.splits dest: spec [of _ i] spec [of _ j])

lemma mgr_set_cell:
  assumes "mgr_ok m" and "has_pool i j" and "pool_ok i j p" and "mb_buff m i j = Some q"
  shows "mgr_ok (m\<lparr>mb_buff := set_cell i j (Some p) (mb_buff m)\<rparr>)"
    and "mgr_blocks (m\<lparr>mb_buff := set_cell i j (Some p) (mb_buff m)\<rparr>) + mset (free_mb_list q) = mgr_blocks m + mset (free_mb_list p)"
proof -
  show "mgr_ok (m\<lparr>mb_buff := set_cell i j (Some p) (mb_buff m)\<rparr>)"
    using assms by (auto simp: mgr_ok_def set_cell_apply)
  have e: "pool_blocks (m\<lparr>mb_buff := set_cell i j (Some p) (mb_buff m)\<rparr>) = set_cell i j (mset (free_mb_list p)) (pool_blocks m)"
    by (auto simp: pool_blocks_def set_cell_apply fun_eq_iff)
  have "pool_blocks m i j = mset (free_mb_list q)"
    using assms by (simp add: pool_blocks_def)
  then show "mgr_blocks (m\<lparr>mb_buff := set_cell i j (Some p) (mb_buff m)\<rparr>) + mset (free_mb_list q) = mgr_blocks m + mset (free_mb_list p)"
    using cell_sum_set [of i j "mset (free_mb_list p)" "pool_blocks m"] assms(2) unfolding mgr_blocks_def e has_pool_def by simp
qed

section \<open>Taking and returning\<close>

lemma alloc_loop_eq:
  "alloc_loop n p = (take n (free_mb_list p), p\<lparr>free_mb_list := drop n (free_mb_list p),
     free_mb_count := free_mb_count p - of_nat (length (take n (free_mb_list p)))\<rparr>)"
  by (induction n p rule: alloc_loop.induct) (auto split: list.splits)

lemma free_chain_eq:
  "\<forall>b \<in> set mb. blk_size b = mb_size p \<Longrightarrow>
   free_chain mb p = p\<lparr>free_mb_list := rev mb @ free_mb_list p, free_mb_count := free_mb_count p + of_nat (length mb)\<rparr>"
  by (induction mb p rule: free_chain.induct) (auto simp: algebra_simps)

lemma split_chain_eq: "split_chain mb g i j = rev (filter (\<lambda>b. blk_type b = i \<and> blk_length b = j) mb) @ g i j"
  by (induction mb arbitrary: g) (auto simp: set_cell_apply)

lemma alloc_pool_ok:
  assumes "pool_ok i j p"
  shows "pool_ok i j (snd (alloc_loop n p))"
proof -
  have "length (free_mb_list p) = length (take n (free_mb_list p)) + length (drop n (free_mb_list p))"
    by simp
  then have "(of_nat (length (free_mb_list p)) :: u32) - of_nat (length (take n (free_mb_list p))) = of_nat (length (drop n (free_mb_list p)))"
    by (metis add_diff_cancel_left' of_nat_add)
  then show ?thesis
    using assms by (auto simp: pool_ok_def alloc_loop_eq dest: in_set_dropD)
qed

lemma free_pool_ok:
  assumes "pool_ok i j p" and "\<forall>b \<in> set mb. blk_type b = i \<and> blk_length b = j \<and> block_ok b"
  shows "pool_ok i j (snd (mb_free mb p))" and "mset (free_mb_list (snd (mb_free mb p))) = mset (free_mb_list p) + mset mb"
proof -
  have "\<forall>b \<in> set mb. blk_size b = mb_size p"
    using assms by (auto simp: pool_ok_def block_ok_def)
  then show "pool_ok i j (snd (mb_free mb p))" and "mset (free_mb_list (snd (mb_free mb p))) = mset (free_mb_list p) + mset mb"
    using assms by (auto simp: mb_free_def free_chain_eq pool_ok_def)
qed

text \<open>The pool that is asked is one whose blocks are not shorter than the length class of the size.\<close>

lemma get_mb_buffer_class:
  "get_mb_buffer mbType mbSize = Some (i, j) \<Longrightarrow> i = mbType \<and> mb_size_to_len_type mbType mbSize \<le> j \<and> j < MB_LEN_MAX_VALUE"
  by (auto simp: get_mb_buffer_def get_mb_buffer_normal_event_def get_mb_buffer_call_back_def get_mb_buffer_send_msg_def
      mb_size_to_len_type_def size_to_len_normal_def split: if_splits)

lemma mgr_alloc_keeps:
  assumes "mgr_ok m" and "mgr_alloc_mb mbType mbSize n m = (c, m1)"
  shows "mgr_ok m1" and "mgr_blocks m = mgr_blocks m1 + mset c"
    and "\<forall>b \<in> set c. block_ok b \<and> blk_type b = mbType \<and> mb_size_to_len_type mbType mbSize \<le> blk_length b"
proof -
  consider (none) "c = []" "m1 = m"
    | (pool) i j p where "get_mb_buffer mbType mbSize = Some (i, j)" "mb_buff m i j = Some p" "c = fst (alloc_loop (unat n) p)"
        "m1 = m\<lparr>mb_buff := set_cell i j (Some (snd (alloc_loop (unat n) p))) (mb_buff m)\<rparr>"
    using assms mgr_pool(1) [OF assms(1)]
    by (fastforce simp: mgr_alloc_mb_def mb_alloc_count_def pool_ok_def split: option.splits prod.splits if_splits)
  then have "mgr_ok m1 \<and> mgr_blocks m = mgr_blocks m1 + mset c \<and>
      (\<forall>b \<in> set c. block_ok b \<and> blk_type b = mbType \<and> mb_size_to_len_type mbType mbSize \<le> blk_length b)"
  proof cases
    case none
    then show ?thesis using assms by simp
  next
    case pool
    note k = mgr_pool(1) [OF assms(1) pool(2)] and g = get_mb_buffer_class [OF pool(1)]
    note u = mgr_set_cell [OF assms(1) conjunct1 [OF k] alloc_pool_ok [OF conjunct2 [OF k], of "unat n"] pool(2)]
    have l: "mset (free_mb_list p) = mset c + mset (free_mb_list (snd (alloc_loop (unat n) p)))"
      unfolding pool(3) alloc_loop_eq by (simp flip: mset_append)
    have "set c \<subseteq> set (free_mb_list p)"
      unfolding pool(3) by (auto simp: alloc_loop_eq dest: in_set_takeD)
    then have "\<forall>b \<in> set c. block_ok b \<and> blk_type b = mbType \<and> mb_size_to_len_type mbType mbSize \<le> blk_length b"
      using k g by (auto simp: pool_ok_def block_ok_def)
    then show ?thesis
      using u l unfolding pool(4) by (simp add: add.assoc [symmetric])
  qed
  then show "mgr_ok m1" and "mgr_blocks m = mgr_blocks m1 + mset c"
    and "\<forall>b \<in> set c. block_ok b \<and> blk_type b = mbType \<and> mb_size_to_len_type mbType mbSize \<le> blk_length b"
    by blast+
qed

lemma free_cells_keeps:
  assumes "mgr_ok m" and "\<forall>i j. \<forall>b \<in> set (g i j). blk_type b = i \<and> blk_length b = j \<and> block_ok b"
  shows "\<exists>m1. free_cells cs g m = Some m1 \<and> mgr_ok m1 \<and> mgr_blocks m1 = mgr_blocks m + sum_list (map (\<lambda>(i, j). mset (g i j)) cs)"
  using assms
proof (induction cs g m rule: free_cells.induct)
  case (1 g m)
  then show ?case by simp
next
  case (2 i j cs g m)
  show ?case
  proof (cases "g i j = []")
    case True
    then show ?thesis using 2 by simp
  next
    case False
    then have "has_pool i j"
      using 2(4) by (metis block_ok_def list.set_intros(1) neq_Nil_conv)
    then obtain p where p: "mb_buff m i j = Some p"
      using mgr_pool(2) [OF 2(3)] by blast
    note k = mgr_pool(1) [OF 2(3) p]
    have h: "\<forall>b \<in> set (g i j). blk_type b = i \<and> blk_length b = j \<and> block_ok b"
      using 2(4) by blast
    note u = mgr_set_cell [OF 2(3) conjunct1 [OF k] free_pool_ok(1) [OF conjunct2 [OF k] h] p]
    have "mgr_blocks (m\<lparr>mb_buff := set_cell i j (Some (snd (mb_free (g i j) p))) (mb_buff m)\<rparr>) = mgr_blocks m + mset (g i j)"
      using u(2) unfolding free_pool_ok(2) [OF conjunct2 [OF k] h] by (simp add: ac_simps)
    then show ?thesis
      using 2(2) [OF False p u(1) 2(4)] False p by (auto simp: ac_simps)
  qed
qed

lemma mgr_free_keeps:
  assumes "mgr_ok m" and "\<forall>b \<in> set mb. block_ok b"
  shows "\<exists>r m1. mgr_free_mb mb m = Some (r, m1) \<and> mgr_ok m1 \<and> mgr_blocks m1 = mgr_blocks m + mset mb"
proof (cases "mb = []")
  case True
  then show ?thesis using assms by (simp add: mgr_free_mb_def)
next
  case False
  let ?g = "split_chain mb (\<lambda>_ _. [])"
  have r: "\<forall>b \<in> set mb. blk_type b < MB_TYPE_MAX_VALUE \<and> blk_length b < MB_LEN_MAX_VALUE"
    using assms(2) by (auto simp: block_ok_def has_pool_def)
  have "\<forall>i j. \<forall>b \<in> set (?g i j). blk_type b = i \<and> blk_length b = j \<and> block_ok b"
    using assms(2) by (auto simp: split_chain_eq)
  from free_cells_keeps [OF assms(1) this, of mb_cells] obtain m1
    where m1: "free_cells mb_cells ?g m = Some m1" "mgr_ok m1" "mgr_blocks m1 = mgr_blocks m + cell_sum (\<lambda>i j. mset (?g i j))"
    by (auto simp: cell_sum_def)
  moreover have "cell_sum (\<lambda>i j. mset (?g i j)) = mset mb"
    using cell_sum_filter [OF r] by (simp add: split_chain_eq)
  moreover have "\<not> list_ex (\<lambda>b. MB_TYPE_MAX_VALUE \<le> blk_type b \<or> MB_LEN_MAX_VALUE \<le> blk_length b) mb"
    using r by (auto simp: list_ex_iff)
  ultimately show ?thesis
    using False by (simp add: mgr_free_mb_def)
qed

section \<open>The caches\<close>

lemma thread_set_cell:
  assumes "i < MB_TYPE_MAX_VALUE" and "j < MB_LEN_MAX_VALUE"
  shows "cell_sum (\<lambda>a b. mset (set_cell i j xs g a b)) + mset (g i j) = cell_sum (\<lambda>a b. mset (g a b)) + mset xs"
proof -
  have "(\<lambda>a b. mset (set_cell i j xs g a b)) = set_cell i j (mset xs) (\<lambda>a b. mset (g a b))"
    by (auto simp: set_cell_apply fun_eq_iff)
  then show ?thesis
    using cell_sum_set [OF assms, of "mset xs" "\<lambda>a b. mset (g a b)"] by simp
qed

lemma mset_swap:
  fixes M F M1 B X S S1 U :: "'a multiset"
  assumes "M + F = M1 + (B + X)" and "S1 + F = S + X"
  shows "M + (S + U) = M1 + (S1 + U) + B"
proof (rule multiset_eqI)
  fix x
  show "count (M + (S + U)) x = count (M1 + (S1 + U) + B) x"
    using arg_cong [OF assms(1), of "\<lambda>z. count z x"] arg_cong [OF assms(2), of "\<lambda>z. count z x"] by simp
qed

lemma len_type_bound:
  "mb_size_to_len_type mbType mbSize \<noteq> MB_LEN_MAX_VALUE \<Longrightarrow>
   mbType < MB_TYPE_MAX_VALUE \<and> mb_size_to_len_type mbType mbSize < MB_LEN_MAX_VALUE"
  by (auto simp: mb_size_to_len_type_def size_to_len_normal_def split: if_splits)

lemma len_type_room:
  assumes "block_ok b" and "mb_size_to_len_type mbType mbSize \<le> blk_length b"
  shows "unat mbSize + 2 \<le> blk_size b"
proof -
  have l: "blk_length b < MB_LEN_MAX_VALUE" "blk_size b = buffSize ! blk_length b + 2"
    using assms(1) by (simp_all add: block_ok_def has_pool_def)
  have m: "\<And>i j. i \<le> j \<Longrightarrow> j < MB_LEN_MAX_VALUE \<Longrightarrow> buffSize ! i \<le> buffSize ! j"
    by (auto simp: buffSize_def nth_Cons split: nat.splits)
  have "unat mbSize \<le> buffSize ! mb_size_to_len_type mbType mbSize"
    using assms(2) l(1)
    by (auto simp: mb_size_to_len_type_def size_to_len_normal_def buffSize_def word_le_nat_alt split: if_splits)
  also have "\<dots> \<le> buffSize ! blk_length b"
    by (rule m [OF assms(2) l(1)])
  finally show ?thesis
    using l(2) by simp
qed

lemma thread_alloc_none:
  assumes "thread_alloc_mb mbType mbSize t m = (None, t1, m1)" and "mgr_ok m"
  shows "t1 = t" and "mgr_ok m1" and "mgr_blocks m1 = mgr_blocks m"
proof -
  have "t1 = t \<and> (m1 = m \<or> mgr_alloc_mb mbType mbSize SVS_ALLOC_MSG_BUFF_COUNT m = ([], m1))"
    using assms(1) by (auto simp: thread_alloc_mb_def Let_def split: if_splits prod.splits list.splits)
  then show "t1 = t" and "mgr_ok m1" and "mgr_blocks m1 = mgr_blocks m"
    using assms(2) mgr_alloc_keeps [OF assms(2)] by fastforce+
qed

lemma thread_alloc_some:
  assumes "thread_alloc_mb mbType mbSize t m = (Some b, t1, m1)" and "mgr_ok m" and "thread_ok t"
  shows "mgr_ok m1" and "thread_ok t1" and "mgr_blocks m + thread_blocks t = mgr_blocks m1 + thread_blocks t1 + {#b#}"
    and "block_ok b \<and> blk_type b = mbType \<and> mb_size_to_len_type mbType mbSize \<le> blk_length b"
proof -
  let ?l = "mb_size_to_len_type mbType mbSize"
  have l: "mbType < MB_TYPE_MAX_VALUE" "?l < MB_LEN_MAX_VALUE"
    using assms(1) len_type_bound [of mbType mbSize] by (auto simp: thread_alloc_mb_def Let_def split: if_splits)
  obtain bs where src: "(if free_msg_buffer t mbType ?l = [] then mgr_alloc_mb mbType mbSize SVS_ALLOC_MSG_BUFF_COUNT m
        else (free_msg_buffer t mbType ?l, m)) = (b # bs, m1)"
    and t1: "t1 = t\<lparr>free_msg_buffer := set_cell mbType ?l bs (free_msg_buffer t),
        alloced_msg_buffer_count := set_cell mbType ?l (alloced_msg_buffer_count t mbType ?l + 1) (alloced_msg_buffer_count t)\<rparr>"
    using assms(1) by (auto simp: thread_alloc_mb_def Let_def split: if_splits prod.splits list.splits)
  have c: "mgr_ok m1 \<and> mgr_blocks m + mset (free_msg_buffer t mbType ?l) = mgr_blocks m1 + mset (b # bs) \<and>
      (\<forall>x \<in> set (b # bs). block_ok x \<and> blk_type x = mbType \<and> ?l \<le> blk_length x)"
  proof (cases "free_msg_buffer t mbType ?l = []")
    case True
    then show ?thesis using src mgr_alloc_keeps [OF assms(2), of mbType mbSize "SVS_ALLOC_MSG_BUFF_COUNT" "b # bs" m1] by auto
  next
    case False
    then have f: "free_msg_buffer t mbType ?l = b # bs" "m1 = m"
      using src by simp_all
    have "\<forall>x \<in> set (free_msg_buffer t mbType ?l). block_ok x \<and> blk_type x = mbType \<and> ?l \<le> blk_length x"
      using assms(3) by (simp add: thread_ok_def)
    then show ?thesis using f assms(2) by metis
  qed
  then show "mgr_ok m1" and "block_ok b \<and> blk_type b = mbType \<and> ?l \<le> blk_length b"
    by auto
  show "thread_ok t1"
    using assms(3) c l unfolding t1 thread_ok_def by (simp add: set_cell_apply)
  have tb: "thread_blocks t1 = cell_sum (\<lambda>i j. mset (set_cell mbType ?l bs (free_msg_buffer t) i j)) + mset (used_msg_buffer t)"
    by (simp add: t1 thread_blocks_def)
  show "mgr_blocks m + thread_blocks t = mgr_blocks m1 + thread_blocks t1 + {#b#}"
    unfolding tb thread_blocks_def [of t] by (rule mset_swap [OF _ thread_set_cell [OF l]]) (use c in simp)
qed

lemma thread_free_keeps:
  assumes "mgr_ok m" and "thread_ok t" and "block_ok b"
  shows "\<exists>t1 m1. thread_free_mb [b] t m = Some (t1, m1) \<and> mgr_ok m1 \<and> thread_ok t1 \<and>
    mgr_blocks m1 + thread_blocks t1 = mgr_blocks m + thread_blocks t + {#b#}"
proof -
  have n: "used_msg_buffer_count t + 1 = of_nat (length (b # used_msg_buffer t))"
    using assms(2) by (simp add: thread_ok_def)
  have u: "\<forall>x \<in> set (b # used_msg_buffer t). block_ok x"
    using assms by (simp add: thread_ok_def)
  have e: "(if used_msg_buffer t = [] then [b] else b # used_msg_buffer t) = b # used_msg_buffer t"
    by simp
  have s: "length (b # used_msg_buffer t) < 200" if "\<not> (200 :: u32) \<le> of_nat (length (b # used_msg_buffer t))"
  proof -
    have "length (b # used_msg_buffer t) \<le> 200"
      using assms(2) by (simp add: thread_ok_def)
    moreover have "length (b # used_msg_buffer t) \<noteq> 200"
      using that by (auto simp only: of_nat_numeral order_refl)
    ultimately show ?thesis by linarith
  qed
  show ?thesis
  proof (cases "(200 :: u32) \<le> of_nat (length (b # used_msg_buffer t)) \<or> MB_LEN_4K_BYTE \<le> blk_length b")
    case True
    with mgr_free_keeps [OF assms(1) u] assms(2) show ?thesis
      unfolding thread_free_mb_def list.case Let_def n e by (auto simp: thread_ok_def thread_blocks_def)
  next
    case False
    with assms s n show ?thesis
      unfolding thread_free_mb_def list.case Let_def n e by (auto simp: thread_ok_def thread_blocks_def)
  qed
qed

lemma clear_cells_keeps:
  assumes "mgr_ok m" and "thread_ok t" and "set cs \<subseteq> set mb_cells"
  shows "\<exists>t1 m1. clear_cells cs t m = Some (t1, m1) \<and> mgr_ok m1 \<and> thread_ok t1 \<and>
    mgr_blocks m1 + thread_blocks t1 = mgr_blocks m + thread_blocks t \<and>
    (\<forall>i j. free_msg_buffer t1 i j = (if (i, j) \<in> set cs then [] else free_msg_buffer t i j))"
  using assms
proof (induction cs t m rule: clear_cells.induct)
  case (1 t m)
  then show ?case by simp
next
  case (2 i j cs t m)
  let ?t = "t\<lparr>free_msg_buffer := set_cell i j [] (free_msg_buffer t),
    alloced_msg_buffer_count := set_cell i j 0 (alloced_msg_buffer_count t)\<rparr>"
  have ij: "i < MB_TYPE_MAX_VALUE" "j < MB_LEN_MAX_VALUE" and cs: "set cs \<subseteq> set mb_cells"
    using 2(5) cells_mem [of i j] by auto
  have ok: "thread_ok ?t"
    using 2(4) by (auto simp: thread_ok_def set_cell_apply)
  have bl: "thread_blocks ?t + mset (free_msg_buffer t i j) = thread_blocks t"
    using thread_set_cell [OF ij, of "[]" "free_msg_buffer t"] by (simp add: thread_blocks_def ac_simps)
  show ?case
  proof (cases "free_msg_buffer t i j = []")
    case True
    with 2(1) [OF refl True 2(3) ok cs] bl show ?thesis
      by (auto simp: Let_def set_cell_apply)
  next
    case False
    have "\<forall>b \<in> set (free_msg_buffer t i j). block_ok b"
      using 2(4) by (auto simp: thread_ok_def)
    from mgr_free_keeps [OF 2(3) this] obtain r m1
      where m1: "mgr_free_mb (free_msg_buffer t i j) m = Some (r, m1)" "mgr_ok m1" "mgr_blocks m1 = mgr_blocks m + mset (free_msg_buffer t i j)"
      by blast
    have "mgr_blocks m1 + thread_blocks ?t = mgr_blocks m + thread_blocks t"
      unfolding m1(3) bl [symmetric] by (simp only: add.assoc add.commute add.left_commute)
    with 2(2) [OF refl False m1(1) refl m1(2) ok cs] False m1(1) show ?thesis
      by (simp add: Let_def) (auto simp: set_cell_apply)
  qed
qed

lemma sum_list_empty: "\<forall>x \<in> set cs. f x = {#} \<Longrightarrow> sum_list (map f cs) = {#}"
  by (induction cs) auto

lemma thread_clear_keeps:
  assumes "mgr_ok m" and "thread_ok t"
  shows "\<exists>t1 m1. thread_clear t m = Some (t1, m1) \<and> mgr_ok m1 \<and> thread_ok t1 \<and>
    thread_blocks t1 = {#} \<and> mgr_blocks m1 = mgr_blocks m + thread_blocks t"
proof -
  obtain t1 m1 where c: "clear_cells mb_cells t m = Some (t1, m1)" "mgr_ok m1" "thread_ok t1"
      "mgr_blocks m1 + thread_blocks t1 = mgr_blocks m + thread_blocks t"
      "\<forall>i j. free_msg_buffer t1 i j = (if (i, j) \<in> set mb_cells then [] else free_msg_buffer t i j)"
    using clear_cells_keeps [OF assms, of mb_cells] by blast
  have z: "cell_sum (\<lambda>i j. mset (free_msg_buffer t1 i j)) = {#}"
    unfolding cell_sum_def using c(5) by (intro sum_list_empty) auto
  have "\<forall>b \<in> set (used_msg_buffer t1). block_ok b"
    using c(3) by (simp add: thread_ok_def)
  from mgr_free_keeps [OF c(2) this] z c show ?thesis
    by (auto simp: thread_clear_def thread_blocks_def thread_ok_def)
qed

section \<open>Several threads\<close>

text \<open>
  The manager, the caches of the threads and the blocks that are in use.  The calls of the threads follow each other in any
  order.  A block is returned by any thread, as a single block, and only while it is in use.
\<close>

record mb_sys =
  sys_mgr :: CSVS_Mb_Buffer_Manager
  sys_thr :: "CSVS_Thread_Msg_Buffer_Manager list"
  sys_held :: "msg_block list"

datatype mb_call = Alloc nat nat u32 | Free nat msg_block | Clear nat

fun mb_do :: "mb_call \<Rightarrow> mb_sys \<Rightarrow> mb_sys option" where
  "mb_do (Alloc k mbType mbSize) s =
     (if length (sys_thr s) \<le> k then Some s
      else case thread_alloc_mb mbType mbSize (sys_thr s ! k) (sys_mgr s) of
             (r, t, m) \<Rightarrow> Some (s\<lparr>sys_mgr := m, sys_thr := (sys_thr s)[k := t],
               sys_held := (case r of None \<Rightarrow> sys_held s | Some b \<Rightarrow> b # sys_held s)\<rparr>))"
| "mb_do (Free k b) s =
     (if length (sys_thr s) \<le> k \<or> b \<notin> set (sys_held s) then Some s
      else map_option (\<lambda>(t, m). s\<lparr>sys_mgr := m, sys_thr := (sys_thr s)[k := t], sys_held := remove1 b (sys_held s)\<rparr>)
             (thread_free_mb [b] (sys_thr s ! k) (sys_mgr s)))"
| "mb_do (Clear k) s =
     (if length (sys_thr s) \<le> k then Some s
      else map_option (\<lambda>(t, m). s\<lparr>sys_mgr := m, sys_thr := (sys_thr s)[k := t]\<rparr>) (thread_clear (sys_thr s ! k) (sys_mgr s)))"

fun mb_run :: "mb_call list \<Rightarrow> mb_sys \<Rightarrow> mb_sys option" where
  "mb_run [] s = Some s"
| "mb_run (c # cs) s = Option.bind (mb_do c s) (mb_run cs)"

definition mb_start :: "nat \<Rightarrow> CSVS_Mb_Buffer_Manager \<Rightarrow> mb_sys" where
  "mb_start n m = \<lparr> sys_mgr = m, sys_thr = replicate n thread_reset, sys_held = [] \<rparr>"

definition sys_ok :: "mb_sys \<Rightarrow> bool" where
  "sys_ok s \<longleftrightarrow> mgr_ok (sys_mgr s) \<and> list_all thread_ok (sys_thr s) \<and> list_all block_ok (sys_held s)"

definition sys_blocks :: "mb_sys \<Rightarrow> msg_block multiset" where
  "sys_blocks s = mgr_blocks (sys_mgr s) + sum_list (map thread_blocks (sys_thr s)) + mset (sys_held s)"

lemma sum_list_set:
  fixes xs :: "'a multiset list"
  assumes "k < length xs"
  shows "sum_list (xs[k := y]) + xs ! k = sum_list xs + y"
  using assms by (induction xs arbitrary: k) (auto simp: nth_Cons ac_simps split: nat.splits)

lemma mset_swap2:
  fixes H H1 M M1 T T1 S S1 :: "'a multiset"
  assumes "S1 + T = S + T1" and "H1 + (M1 + T1) = H + (M + T)"
  shows "M1 + S1 + H1 = M + S + H"
proof (rule multiset_eqI)
  fix x
  show "count (M1 + S1 + H1) x = count (M + S + H) x"
    using arg_cong [OF assms(1), of "\<lambda>z. count z x"] arg_cong [OF assms(2), of "\<lambda>z. count z x"] by simp
qed

lemma sys_step_blocks:
  assumes "k < length (sys_thr s)" and "mset h + (mgr_blocks m + thread_blocks t) = mset (sys_held s) + (mgr_blocks (sys_mgr s) + thread_blocks (sys_thr s ! k))"
  shows "sys_blocks (s\<lparr>sys_mgr := m, sys_thr := (sys_thr s)[k := t], sys_held := h\<rparr>) = sys_blocks s"
proof -
  have "sum_list (map thread_blocks ((sys_thr s)[k := t])) + thread_blocks (sys_thr s ! k) = sum_list (map thread_blocks (sys_thr s)) + thread_blocks t"
    using sum_list_set [of k "map thread_blocks (sys_thr s)" "thread_blocks t"] assms(1) by (simp add: map_update)
  from mset_swap2 [OF this assms(2)] show ?thesis
    by (simp add: sys_blocks_def)
qed

lemma list_all_update: "list_all P xs \<Longrightarrow> P y \<Longrightarrow> list_all P (xs[k := y])"
  by (auto simp: list_all_iff dest: set_update_subset_insert [THEN subsetD])

lemma mb_do_keeps:
  assumes "sys_ok s"
  shows "\<exists>s1. mb_do c s = Some s1 \<and> sys_ok s1 \<and> sys_blocks s1 = sys_blocks s \<and> length (sys_thr s1) = length (sys_thr s)"
proof (cases c)
  case (Alloc k mbType mbSize)
  show ?thesis
  proof (cases "length (sys_thr s) \<le> k")
    case True
    then show ?thesis using assms Alloc by simp
  next
    case False
    then have k: "k < length (sys_thr s)" "mgr_ok (sys_mgr s)" "thread_ok (sys_thr s ! k)"
      using assms by (simp_all add: sys_ok_def list_all_length)
    obtain r t m where e: "thread_alloc_mb mbType mbSize (sys_thr s ! k) (sys_mgr s) = (r, t, m)"
      using prod_cases3 by blast
    show ?thesis
    proof (cases r)
      case None
      note a = thread_alloc_none [OF e [unfolded None] k(2)]
      have "sys_blocks (s\<lparr>sys_mgr := m, sys_thr := (sys_thr s)[k := t], sys_held := sys_held s\<rparr>) = sys_blocks s"
        by (rule sys_step_blocks [OF k(1)]) (simp add: a)
      then show ?thesis
        using assms Alloc False e None a by (simp add: sys_ok_def)
    next
      case (Some b)
      note a = thread_alloc_some [OF e [unfolded Some] k(2,3)]
      have "sys_blocks (s\<lparr>sys_mgr := m, sys_thr := (sys_thr s)[k := t], sys_held := b # sys_held s\<rparr>) = sys_blocks s"
        by (rule sys_step_blocks [OF k(1)]) (simp add: a(3) ac_simps)
      then show ?thesis
        using assms Alloc False e Some a by (simp add: sys_ok_def list_all_update)
    qed
  qed
next
  case (Free k b)
  show ?thesis
  proof (cases "length (sys_thr s) \<le> k \<or> b \<notin> set (sys_held s)")
    case True
    then show ?thesis using assms Free by auto
  next
    case False
    then have k: "k < length (sys_thr s)" "mgr_ok (sys_mgr s)" "thread_ok (sys_thr s ! k)" "block_ok b"
      using assms by (auto simp: sys_ok_def list_all_length in_set_conv_nth)
    obtain t m where e: "thread_free_mb [b] (sys_thr s ! k) (sys_mgr s) = Some (t, m)" "mgr_ok m" "thread_ok t"
        "mgr_blocks m + thread_blocks t = mgr_blocks (sys_mgr s) + thread_blocks (sys_thr s ! k) + {#b#}"
      using thread_free_keeps [OF k(2-4)] by blast
    have "sys_blocks (s\<lparr>sys_mgr := m, sys_thr := (sys_thr s)[k := t], sys_held := remove1 b (sys_held s)\<rparr>) = sys_blocks s"
      using False by (intro sys_step_blocks [OF k(1)]) (simp add: e(4) ac_simps)
    moreover have "list_all block_ok (remove1 b (sys_held s))"
      using assms set_remove1_subset [of b "sys_held s"] by (auto simp: sys_ok_def list_all_iff)
    ultimately show ?thesis
      using assms Free False e by (simp add: sys_ok_def list_all_update)
  qed
next
  case (Clear k)
  show ?thesis
  proof (cases "length (sys_thr s) \<le> k")
    case True
    then show ?thesis using assms Clear by simp
  next
    case False
    then have k: "k < length (sys_thr s)" "mgr_ok (sys_mgr s)" "thread_ok (sys_thr s ! k)"
      using assms by (simp_all add: sys_ok_def list_all_length)
    obtain t m where e: "thread_clear (sys_thr s ! k) (sys_mgr s) = Some (t, m)" "mgr_ok m" "thread_ok t" "thread_blocks t = {#}"
        "mgr_blocks m = mgr_blocks (sys_mgr s) + thread_blocks (sys_thr s ! k)"
      using thread_clear_keeps [OF k(2,3)] by blast
    have "sys_blocks (s\<lparr>sys_mgr := m, sys_thr := (sys_thr s)[k := t], sys_held := sys_held s\<rparr>) = sys_blocks s"
      by (intro sys_step_blocks [OF k(1)]) (simp add: e(4,5))
    then show ?thesis
      using assms Clear False e by (simp add: sys_ok_def list_all_update)
  qed
qed

lemma mb_run_keeps:
  "sys_ok s \<Longrightarrow> \<exists>s1. mb_run cs s = Some s1 \<and> sys_ok s1 \<and> sys_blocks s1 = sys_blocks s \<and> length (sys_thr s1) = length (sys_thr s)"
proof (induction cs arbitrary: s)
  case Nil
  then show ?case by simp
next
  case (Cons c cs)
  from mb_do_keeps [OF Cons(2), of c] obtain s1
    where s1: "mb_do c s = Some s1" "sys_ok s1" "sys_blocks s1 = sys_blocks s" "length (sys_thr s1) = length (sys_thr s)"
    by blast
  with Cons(1) [OF s1(2)] show ?case by simp
qed

section \<open>The start\<close>

lemma mb_init_loop_made:
  "mb_init_loop alloc i n p = (True, p1) \<Longrightarrow>
   \<exists>bs. p1 = p\<lparr>free_mb_list := bs @ free_mb_list p\<rparr> \<and> length bs = n \<and>
     (\<forall>b \<in> set bs. blk_type b = mb_type p \<and> blk_length b = mb_len p \<and> blk_size b = mb_size p)"
proof (induction alloc i n p rule: mb_init_loop.induct)
  case (1 alloc i p)
  then show ?case by auto
next
  case (2 alloc i n p)
  then obtain a where a: "alloc i = Some a"
    by (auto split: option.splits)
  let ?b = "\<lparr> blk_id = a, blk_type = mb_type p, blk_length = mb_len p, blk_size = mb_size p \<rparr>"
  from 2(1) [OF a] 2(2) a obtain bs
    where "p1 = p\<lparr>free_mb_list := bs @ ?b # free_mb_list p\<rparr>" "length bs = n"
      "\<forall>b \<in> set bs. blk_type b = mb_type p \<and> blk_length b = mb_len p \<and> blk_size b = mb_size p"
    by auto
  then show ?case
    by (intro exI [of _ "bs @ [?b]"]) auto
qed

lemma mb_init_loop_ids:
  "mb_init_loop alloc i n p = (True, p1) \<Longrightarrow>
   map (Some \<circ> blk_id) (free_mb_list p1) = rev (map alloc [i..<i + n]) @ map (Some \<circ> blk_id) (free_mb_list p)"
proof (induction alloc i n p rule: mb_init_loop.induct)
  case (1 alloc i p)
  then show ?case by simp
next
  case (2 alloc i n p)
  then obtain a where a: "alloc i = Some a"
    by (auto split: option.splits)
  have u: "[i..<i + Suc n] = i # [i + 1..<i + 1 + n]"
    by (simp add: upt_conv_Cons)
  from 2(1) [OF a] 2(2) a show ?case
    unfolding u by simp
qed

lemma mb_init_loop_full: "\<forall>k. alloc k \<noteq> None \<Longrightarrow> fst (mb_init_loop alloc i n p)"
  by (induction alloc i n p rule: mb_init_loop.induct) (auto split: option.splits)

lemma mb_init_made:
  assumes "mb_init alloc n (buffSize ! j + 2) i j mb_reset = (0, p)"
  shows "pool_ok i j p \<and> length (free_mb_list p) = unat n \<and>
    map (Some \<circ> blk_id) (free_mb_list p) = rev (map alloc [0..<length (free_mb_list p)])"
proof -
  let ?p = "mb_reset\<lparr>max_free_mb_count := n, free_mb_count := n, mb_size := buffSize ! j + 2, mb_type := i, mb_len := j\<rparr>"
  obtain p1 where p1: "mb_init_loop alloc 0 (unat n) ?p = (True, p1)" "p = p1\<lparr>mb_inited_flag := True\<rparr>"
    using assms by (auto simp: mb_init_def mb_reset_def mb_clear_def split: prod.splits if_splits)
  from mb_init_loop_made [OF p1(1)] mb_init_loop_ids [OF p1(1)] p1(2) show ?thesis
    by (auto simp: pool_ok_def mb_reset_def)
qed

definition cell_made :: "(nat \<Rightarrow> nat option) \<Rightarrow> nat \<Rightarrow> nat \<Rightarrow> CSVS_Mb_Buffer option \<Rightarrow> bool" where
  "cell_made alloc i j c \<longleftrightarrow>
     (case c of None \<Rightarrow> buffCount ! i ! j = 0
      | Some p \<Rightarrow> buffCount ! i ! j \<noteq> 0 \<and> pool_ok i j p \<and> length (free_mb_list p) = unat (buffCount ! i ! j) \<and>
          map (Some \<circ> blk_id) (free_mb_list p) = rev (map alloc [0..<length (free_mb_list p)]))"

lemma init_row_made:
  "init_row pool alloc i js g = (True, g1) \<Longrightarrow>
   (\<forall>j \<in> set js. cell_made (alloc j) i j (g1 i j)) \<and> (\<forall>i' j. i' \<noteq> i \<or> j \<notin> set js \<longrightarrow> g1 i' j = g i' j)"
proof (induction js arbitrary: g)
  case Nil
  then show ?case by simp
next
  case (Cons j js)
  obtain c where c: "init_row pool alloc i js (set_cell i j c g) = (True, g1)" "cell_made (alloc j) i j c"
  proof (cases "buffCount ! i ! j = 0")
    case True
    then have "init_row pool alloc i js (set_cell i j None g) = (True, g1)" "cell_made (alloc j) i j None"
      using Cons(2) by (simp_all add: cell_made_def)
    then show thesis by (rule that)
  next
    case False
    then obtain p where p: "mb_init (alloc j) (buffCount ! i ! j) (buffSize ! j + 2) i j mb_reset = (0, p)"
        "init_row pool alloc i js (set_cell i j (Some p) g) = (True, g1)"
      using Cons(2) by (auto split: if_splits prod.splits)
    moreover have "cell_made (alloc j) i j (Some p)"
      using mb_init_made [OF p(1)] False by (simp add: cell_made_def)
    ultimately show thesis using that by blast
  qed
  have "set_cell i j c g i j = c" "\<And>i' j'. i' \<noteq> i \<or> j' \<noteq> j \<Longrightarrow> set_cell i j c g i' j' = g i' j'"
    by (auto simp: set_cell_apply)
  with Cons(1) [OF c(1)] c(2) show ?case
    by (metis (no_types, lifting) set_ConsD list.set_intros)
qed

lemma init_rows_made:
  "init_rows pool alloc is g = (True, g1) \<Longrightarrow>
   (\<forall>i \<in> set is. \<forall>j < MB_LEN_MAX_VALUE. cell_made (alloc i j) i j (g1 i j)) \<and> (\<forall>i j. i \<notin> set is \<or> MB_LEN_MAX_VALUE \<le> j \<longrightarrow> g1 i j = g i j)"
proof (induction pool alloc "is" g rule: init_rows.induct)
  case (1 pool alloc g)
  then show ?case by simp
next
  case (2 pool alloc i "is" g)
  obtain g2 where g2: "init_row (pool i) (alloc i) i [0..<MB_LEN_MAX_VALUE] g = (True, g2)" "init_rows pool alloc is g2 = (True, g1)"
    using 2(2) by (auto simp del: upt_rec_numeral split: prod.splits)
  note a = init_row_made [OF g2(1)] and b = 2(1) [OF g2(1) [symmetric] g2(2)]
  then show ?case
    by (simp del: upt_rec_numeral) (metis atLeastLessThan_iff linorder_not_less zero_le)
qed

lemma mgr_init_made:
  assumes "mgr_init pool alloc mgr_new = (0, m)"
  shows "mgr_ok m" and "has_pool i j \<Longrightarrow> size (pool_blocks m i j) = unat (buffCount ! i ! j)"
    and "\<exists>xs. pool_blocks m i j = mset xs \<and> map (Some \<circ> blk_id) xs = rev (map (alloc i j) [0..<length xs])"
proof -
  obtain g where g: "init_rows pool alloc [0..<MB_TYPE_MAX_VALUE] (\<lambda>_ _. None) = (True, g)" "mb_buff m = g"
    using assms by (auto simp: mgr_init_def mgr_new_def mgr_clear_def simp del: upt_rec_numeral split: prod.splits if_splits)
  note a = init_rows_made [OF g(1)]
  have c: "if i < MB_TYPE_MAX_VALUE \<and> j < MB_LEN_MAX_VALUE then cell_made (alloc i j) i j (mb_buff m i j) else mb_buff m i j = None" for i j
    using a unfolding g(2) by (auto simp del: upt_rec_numeral)
  show "mgr_ok m"
    unfolding mgr_ok_def
  proof (intro allI)
    fix i j
    show "case mb_buff m i j of None \<Rightarrow> \<not> has_pool i j | Some p \<Rightarrow> has_pool i j \<and> pool_ok i j p"
      using c [of i j] by (auto simp: cell_made_def has_pool_def split: option.splits if_splits)
  qed
  show "\<exists>xs. pool_blocks m i j = mset xs \<and> map (Some \<circ> blk_id) xs = rev (map (alloc i j) [0..<length xs])"
    using c [of i j] by (auto simp: cell_made_def pool_blocks_def split: option.splits if_splits)
  show "size (pool_blocks m i j) = unat (buffCount ! i ! j)" if "has_pool i j"
    using c [of i j] that by (auto simp: cell_made_def has_pool_def pool_blocks_def split: option.splits)
qed

text \<open>With memory for everything the manager is set up.\<close>

lemma mb_init_full:
  assumes "\<forall>k. alloc k \<noteq> None"
  shows "\<exists>p. mb_init alloc n sz i j mb_reset = (0, p)"
proof -
  let ?p = "mb_reset\<lparr>max_free_mb_count := n, free_mb_count := n, mb_size := sz, mb_type := i, mb_len := j\<rparr>"
  have "fst (mb_init_loop alloc 0 (unat n) ?p)"
    by (rule mb_init_loop_full [OF assms])
  then show ?thesis
    by (auto simp: mb_init_def mb_reset_def split: prod.splits)
qed

lemma init_row_full:
  assumes "\<forall>j. pool j" and "\<forall>j k. alloc j k \<noteq> None"
  shows "fst (init_row pool alloc i js g)"
proof (induction js arbitrary: g)
  case Nil
  then show ?case by simp
next
  case (Cons j js)
  obtain p where "mb_init (alloc j) (buffCount ! i ! j) (buffSize ! j + 2) i j mb_reset = (0, p)"
    using mb_init_full assms(2) by blast
  then show ?case using Cons assms(1) by simp
qed

lemma init_rows_full:
  assumes "\<forall>i j. pool i j" and "\<forall>i j k. alloc i j k \<noteq> None"
  shows "fst (init_rows pool alloc is g)"
proof (induction "is" arbitrary: g)
  case Nil
  then show ?case by simp
next
  case (Cons i "is")
  have "fst (init_row (pool i) (alloc i) i [0..<MB_LEN_MAX_VALUE] g)"
    using init_row_full assms by blast
  then show ?case using Cons by (simp del: upt_rec_numeral add: case_prod_unfold)
qed

lemma mgr_init_full:
  assumes "\<forall>i j. pool i j" and "\<forall>i j k. alloc i j k \<noteq> None"
  shows "\<exists>m. mgr_init pool alloc mgr_new = (0, m)"
  using init_rows_full [OF assms, of "[0..<MB_TYPE_MAX_VALUE]" "\<lambda>_ _. None"]
  by (simp add: mgr_init_def mgr_new_def case_prod_unfold del: upt_rec_numeral)

lemma mb_start_ok:
  assumes "mgr_init pool alloc mgr_new = (0, m)"
  shows "sys_ok (mb_start n m)" and "sys_blocks (mb_start n m) = mgr_blocks m" and "length (sys_thr (mb_start n m)) = n"
proof -
  have "thread_blocks thread_reset = {#}"
    unfolding thread_blocks_def cell_sum_def thread_reset_def by (simp add: sum_list_empty case_prod_unfold)
  then have "sum_list (map thread_blocks (replicate n thread_reset)) = {#}"
    by (intro sum_list_empty) simp
  then show "sys_blocks (mb_start n m) = mgr_blocks m"
    by (simp add: sys_blocks_def mb_start_def)
  have "thread_ok thread_reset"
    by (simp add: thread_ok_def thread_reset_def)
  then show "sys_ok (mb_start n m)" and "length (sys_thr (mb_start n m)) = n"
    using mgr_init_made(1) [OF assms] by (simp_all add: sys_ok_def mb_start_def list_all_length)
qed

text \<open>Every call of \<open>clear\<close> empties one cache.\<close>

lemma clear_run:
  assumes "sys_ok s" and "set ks \<subseteq> {..<length (sys_thr s)}"
  shows "\<exists>s1. mb_run (map Clear ks) s = Some s1 \<and> sys_held s1 = sys_held s \<and> length (sys_thr s1) = length (sys_thr s) \<and>
    (\<forall>k < length (sys_thr s). k \<in> set ks \<or> thread_blocks (sys_thr s ! k) = {#} \<longrightarrow> thread_blocks (sys_thr s1 ! k) = {#})"
  using assms
proof (induction ks arbitrary: s)
  case Nil
  then show ?case by simp
next
  case (Cons k ks)
  then have k: "k < length (sys_thr s)" "mgr_ok (sys_mgr s)" "thread_ok (sys_thr s ! k)"
    by (simp_all add: sys_ok_def list_all_length)
  obtain t m where e: "thread_clear (sys_thr s ! k) (sys_mgr s) = Some (t, m)" "thread_blocks t = {#}"
    using thread_clear_keeps [OF k(2,3)] by blast
  let ?s = "s\<lparr>sys_mgr := m, sys_thr := (sys_thr s)[k := t]\<rparr>"
  have d: "mb_do (Clear k) s = Some ?s"
    using e k by simp
  have "sys_ok ?s"
    using mb_do_keeps [OF Cons(2), of "Clear k"] d by auto
  from Cons(1) [OF this] Cons(3) obtain s1 where s1: "mb_run (map Clear ks) ?s = Some s1" "sys_held s1 = sys_held s"
      "length (sys_thr s1) = length (sys_thr s)"
      "\<forall>a < length (sys_thr s). a \<in> set ks \<or> thread_blocks ((sys_thr s)[k := t] ! a) = {#} \<longrightarrow> thread_blocks (sys_thr s1 ! a) = {#}"
    by auto
  have "\<forall>a < length (sys_thr s). a \<in> set (k # ks) \<or> thread_blocks (sys_thr s ! a) = {#} \<longrightarrow> thread_blocks (sys_thr s1 ! a) = {#}"
    using s1(4) e(2) k(1) by (auto simp: nth_list_update)
  then show ?case
    using s1 d by auto
qed

text \<open>The blocks of one pool are those of the manager with its header.\<close>

lemma pool_blocks_filter:
  assumes "mgr_ok m" and "i < MB_TYPE_MAX_VALUE" and "j < MB_LEN_MAX_VALUE"
  shows "pool_blocks m i j = {# b \<in># mgr_blocks m. blk_type b = i \<and> blk_length b = j #}"
proof -
  have h: "{# b \<in># pool_blocks m a c. blk_type b = i \<and> blk_length b = j #} = (if a = i \<and> c = j then pool_blocks m a c else {#})" for a c
  proof -
    have "\<forall>b \<in># pool_blocks m a c. blk_type b = a \<and> blk_length b = c"
      using mgr_pool(1) [OF assms(1), of a c] by (auto simp: pool_blocks_def pool_ok_def split: option.splits)
    then have "b \<notin># pool_blocks m a c" if "blk_type b \<noteq> a \<or> blk_length b \<noteq> c" for b
      using that by blast
    then show ?thesis
      by (auto simp: multiset_eq_iff not_in_iff)
  qed
  have "{# b \<in># sum_list (map (\<lambda>(a, c). pool_blocks m a c) cs). blk_type b = i \<and> blk_length b = j #}
      = (if (i, j) \<in> set cs then pool_blocks m i j else {#})" if "distinct cs" for cs
    using that
  proof (induction cs)
    case Nil
    then show ?case by simp
  next
    case (Cons x cs)
    obtain a c where x: "x = (a, c)"
      by fastforce
    have "{# b \<in># sum_list (map (\<lambda>(a, c). pool_blocks m a c) (x # cs)). blk_type b = i \<and> blk_length b = j #}
        = (if a = i \<and> c = j then pool_blocks m a c else {#}) + (if (i, j) \<in> set cs then pool_blocks m i j else {#})"
      using Cons h [of a c] by (simp only: x list.map sum_list.Cons prod.case filter_union_mset distinct.simps)
    then show ?case using Cons(2) x by auto
  qed
  from this [OF cells_distinct] show ?thesis
    using assms(2,3) by (simp add: mgr_blocks_def cell_sum_def cells_mem)
qed

text \<open>Memory that is allocated is not handed out again.\<close>

definition fresh :: "(nat \<Rightarrow> nat \<Rightarrow> nat \<Rightarrow> nat option) \<Rightarrow> bool" where
  "fresh alloc \<longleftrightarrow> (\<forall>i j k k' a. alloc i j k = Some a \<and> alloc i j k' = Some a \<longrightarrow> k = k')"

lemma fresh_blocks:
  assumes "mgr_init pool alloc mgr_new = (0, m)" and "fresh alloc"
  shows "count (mgr_blocks m) b \<le> 1"
proof -
  have p: "count (pool_blocks m i j) b \<le> 1" for i j
  proof -
    obtain xs where xs: "pool_blocks m i j = mset xs" "map (Some \<circ> blk_id) xs = rev (map (alloc i j) [0..<length xs])"
      using mgr_init_made(3) [OF assms(1)] by blast
    have "\<exists>a. alloc i j k = Some a" if "k < length xs" for k
    proof -
      have "alloc i j k \<in> set (map (Some \<circ> blk_id) xs)"
        unfolding xs(2) using that by auto
      then show ?thesis by auto
    qed
    then have "inj_on (alloc i j) (set [0..<length xs])"
      using assms(2) by (fastforce simp: fresh_def inj_on_def)
    then have "distinct (map (Some \<circ> blk_id) xs)"
      unfolding xs(2) by (simp add: distinct_map)
    then have "distinct xs"
      by (simp only: distinct_map)
    then show ?thesis
      using xs(1) by (simp add: distinct_count_atmost_1)
  qed
  show ?thesis
  proof (cases "blk_type b < MB_TYPE_MAX_VALUE \<and> blk_length b < MB_LEN_MAX_VALUE")
    case True
    then have "count (mgr_blocks m) b = count (pool_blocks m (blk_type b) (blk_length b)) b"
      using pool_blocks_filter [OF mgr_init_made(1) [OF assms(1)]] by simp
    then show ?thesis using p by simp
  next
    case False
    have "b \<notin># pool_blocks m i j" for i j
      using mgr_pool(1) [OF mgr_init_made(1) [OF assms(1)], of i j] False
      by (auto simp: pool_blocks_def pool_ok_def has_pool_def split: option.splits)
    then have "b \<notin># sum_list (map (\<lambda>(i, j). pool_blocks m i j) cs)" for cs
      by (induction cs) auto
    from this [of mb_cells] show ?thesis
      by (simp only: mgr_blocks_def cell_sum_def not_in_iff)
  qed
qed

section \<open>The theorems\<close>

text \<open>
  C22.  After an \<open>init\<close> that succeeds, however the calls of the threads follow each other: no call goes through a null pointer
  or outside an array; every pool holds only blocks of its own kind, length class and size and counts them rightly; the cache of
  a thread for a kind and a length class holds only blocks of that kind whose class is that one or a larger one (a request is
  served from a larger pool for some classes), and its counter of used blocks is right; and the blocks in the pools, in the
  caches and in use are together those that were made at the start: none is lost, none is made and none is in two places.  The
  counters of allocated blocks by length class are not part of it; they go wrong.
\<close>

theorem mb_conserved:
  assumes "mgr_init pool alloc mgr_new = (0, m)"
  shows "\<exists>s. mb_run cs (mb_start n m) = Some s \<and> sys_ok s \<and> sys_blocks s = mgr_blocks m"
  using mb_run_keeps [OF mb_start_ok(1) [OF assms], of cs n] mb_start_ok(2) [OF assms] by auto

definition sample_alloc :: "nat \<Rightarrow> nat \<Rightarrow> nat \<Rightarrow> nat option" where
  "sample_alloc i j k = Some (i + 5 * j + 25 * k)"

lemma sample_init: "\<exists>m. mgr_init (\<lambda>_ _. True) sample_alloc mgr_new = (0, m)"
  by (rule mgr_init_full) (simp_all add: sample_alloc_def)

theorem mb_conserved_witness:
  "\<exists>m s. mgr_init (\<lambda>_ _. True) sample_alloc mgr_new = (0, m) \<and>
     mb_run [Alloc 0 1 100, Alloc 1 1 3000, Clear 0, Alloc 1 3 70000] (mb_start 2 m) = Some s \<and> sys_ok s \<and> sys_blocks s = mgr_blocks m"
proof -
  obtain m where m: "mgr_init (\<lambda>_ _. True) sample_alloc mgr_new = (0, m)"
    using sample_init by blast
  from mb_conserved [OF m, of "[Alloc 0 1 100, Alloc 1 1 3000, Clear 0, Alloc 1 3 70000]" 2] m show ?thesis by blast
qed

text \<open>
  C23.  Nothing leaks through the caches: when no block is in use any more and every thread clears its cache, each pool has
  its blocks back, as many as the table of \<open>init\<close> says, whatever was called before and whichever thread returned what.
\<close>

theorem mb_no_leak:
  assumes "mgr_init pool alloc mgr_new = (0, m)" and "mb_run cs (mb_start n m) = Some s" and "sys_held s = []" and "has_pool i j"
  shows "\<exists>s1 p. mb_run (map Clear [0..<n]) s = Some s1 \<and> mb_buff (sys_mgr s1) i j = Some p \<and>
    free_mb_count p = buffCount ! i ! j \<and> mset (free_mb_list p) = pool_blocks m i j"
proof -
  have s: "sys_ok s" "sys_blocks s = mgr_blocks m" "length (sys_thr s) = n"
    using mb_run_keeps [OF mb_start_ok(1) [OF assms(1)], of cs n] mb_start_ok(2,3) [OF assms(1), of n] assms(2) by auto
  obtain s1 where r: "mb_run (map Clear [0..<n]) s = Some s1" "sys_held s1 = []" "length (sys_thr s1) = n"
      "\<forall>k < n. thread_blocks (sys_thr s1 ! k) = {#}"
    using clear_run [OF s(1), of "[0..<n]"] s(3) assms(3) by (auto simp: subset_iff)
  have k: "mgr_ok (sys_mgr s1)" "sys_blocks s1 = mgr_blocks m"
    using mb_run_keeps [OF s(1), of "map Clear [0..<n]"] r(1) s(2) by (auto simp: sys_ok_def)
  have "sum_list (map thread_blocks (sys_thr s1)) = {#}"
    using r(3,4) by (intro sum_list_empty) (auto simp: in_set_conv_nth)
  then have b: "mgr_blocks (sys_mgr s1) = mgr_blocks m"
    using k(2) r(2) by (simp add: sys_blocks_def)
  obtain p where p: "mb_buff (sys_mgr s1) i j = Some p" "pool_ok i j p"
    using mgr_pool [OF k(1)] assms(4) by blast
  have e: "pool_blocks (sys_mgr s1) i j = pool_blocks m i j"
    using pool_blocks_filter [OF k(1)] pool_blocks_filter [OF mgr_init_made(1) [OF assms(1)]] b assms(4) by (simp add: has_pool_def)
  then have "length (free_mb_list p) = unat (buffCount ! i ! j)"
    using mgr_init_made(2) [OF assms(1,4)] p(1) unfolding pool_blocks_def by (metis option.simps(5) size_mset)
  then have "free_mb_count p = buffCount ! i ! j"
    using p(2) by (simp add: pool_ok_def)
  then show ?thesis
    using r(1) p e by (auto simp: pool_blocks_def)
qed

theorem mb_no_leak_witness:
  "\<exists>m s1 p. mb_run (map Clear [0..<2]) (mb_start 2 m) = Some s1 \<and> mb_buff (sys_mgr s1) 1 4 = Some p \<and> free_mb_count p = 50 \<and>
     mset (free_mb_list p) = pool_blocks m 1 4"
proof -
  obtain m where m: "mgr_init (\<lambda>_ _. True) sample_alloc mgr_new = (0, m)"
    using sample_init by blast
  have "mb_run [] (mb_start 2 m) = Some (mb_start 2 m)" "sys_held (mb_start 2 m) = []" "has_pool 1 4" "buffCount ! 1 ! 4 = 50"
    by (simp_all add: mb_start_def has_pool_def buffCount_def)
  with mb_no_leak [OF m, of "[]" 2 "mb_start 2 m" 1 4] show ?thesis by auto
qed

text \<open>
  C24.  A block that a thread gets is of the kind it asked for, has room for the size it asked for behind the two bytes of
  the header, and is not in use: two callers never hold the same block, and a cache never hands out a block it has given away.
\<close>

theorem mb_alloc_safe:
  assumes "mgr_init pool alloc mgr_new = (0, m)" and "fresh alloc" and "mb_run cs (mb_start n m) = Some s" and "k < n"
    and "thread_alloc_mb mbType mbSize (sys_thr s ! k) (sys_mgr s) = (Some b, t1, m1)"
  shows "blk_type b = mbType \<and> unat mbSize + 2 \<le> blk_size b \<and> b \<notin> set (sys_held s)"
proof -
  have s: "sys_ok s" "sys_blocks s = mgr_blocks m" "length (sys_thr s) = n"
    using mb_run_keeps [OF mb_start_ok(1) [OF assms(1)], of cs n] mb_start_ok(2,3) [OF assms(1), of n] assms(3) by auto
  have k: "mgr_ok (sys_mgr s)" "thread_ok (sys_thr s ! k)"
    using s(1,3) assms(4) by (simp_all add: sys_ok_def list_all_length)
  note a = thread_alloc_some [OF assms(5) k]
  have "mb_do (Alloc k mbType mbSize) s = Some (s\<lparr>sys_mgr := m1, sys_thr := (sys_thr s)[k := t1], sys_held := b # sys_held s\<rparr>)"
    using assms(4,5) s(3) by simp
  with mb_do_keeps [OF s(1), of "Alloc k mbType mbSize"] s(2)
  have "sys_blocks (s\<lparr>sys_mgr := m1, sys_thr := (sys_thr s)[k := t1], sys_held := b # sys_held s\<rparr>) = mgr_blocks m"
    by simp
  then have "count (mgr_blocks m1 + sum_list (map thread_blocks ((sys_thr s)[k := t1])) + mset (b # sys_held s)) b = count (mgr_blocks m) b"
    by (simp add: sys_blocks_def)
  then have "count (mset (sys_held s)) b = 0"
    using fresh_blocks [OF assms(1,2), of b] unfolding count_union mset.simps(2) count_add_mset if_P [OF refl] by linarith
  moreover have "unat mbSize + 2 \<le> blk_size b"
    using a(4) len_type_room by blast
  ultimately show ?thesis
    using a(4) by (simp only: count_mset_0_iff) simp
qed

theorem mb_alloc_safe_witness:
  "\<exists>m b t1 m1. thread_alloc_mb 1 100 (sys_thr (mb_start 1 m) ! 0) (sys_mgr (mb_start 1 m)) = (Some b, t1, m1) \<and>
     blk_type b = 1 \<and> unat (100 :: u32) + 2 \<le> blk_size b \<and> b \<notin> set (sys_held (mb_start 1 m))"
proof -
  obtain m where m: "mgr_init (\<lambda>_ _. True) sample_alloc mgr_new = (0, m)"
    using sample_init by blast
  have h: "has_pool 1 0" "buffCount ! 1 ! 0 = 5000"
    by (simp_all add: has_pool_def buffCount_def)
  obtain p where p: "mb_buff m 1 0 = Some p" "pool_ok 1 0 p"
    using mgr_pool [OF mgr_init_made(1) [OF m]] h(1) by blast
  then have "length (free_mb_list p) = 5000"
    using mgr_init_made(2) [OF m h(1)] h(2) by (simp add: pool_blocks_def)
  then obtain b bs where l: "free_mb_list p = b # bs"
    by (cases "free_mb_list p") auto
  have "mb_size_to_len_type 1 100 = 0" "get_mb_buffer 1 100 = Some (1, 0)" "fresh sample_alloc"
    by (simp_all add: mb_size_to_len_type_def size_to_len_normal_def get_mb_buffer_def get_mb_buffer_normal_event_def fresh_def sample_alloc_def)
  moreover from this(2) p l have "\<exists>c m1. mgr_alloc_mb 1 100 SVS_ALLOC_MSG_BUFF_COUNT m = (b # c, m1)"
    by (simp add: mgr_alloc_mb_def mb_alloc_count_def pool_ok_def alloc_loop_eq take_Cons split: nat.splits)
  ultimately obtain t1 m1 where "thread_alloc_mb 1 100 (sys_thr (mb_start 1 m) ! 0) (sys_mgr (mb_start 1 m)) = (Some b, t1, m1)"
    by (auto simp: thread_alloc_mb_def mb_start_def thread_reset_def)
  with mb_alloc_safe [OF m \<open>fresh sample_alloc\<close>, of "[]" 1 "mb_start 1 m" 0 1 100 b t1 m1] show ?thesis by auto
qed

section \<open>The 4K blocks of the normal events\<close>

text \<open>
  The two tables disagree: a request of a normal event above 1K and up to 4K has the length class 4K but is served from the
  64K pool, and no request at all is served from the 160 blocks of 4K.
\<close>

lemma normal_event_4k_unused: "get_mb_buffer mbType mbSize \<noteq> Some (MB_TYPE_NORMAL_EVENT, MB_LEN_4K_BYTE)"
  by (simp add: get_mb_buffer_def get_mb_buffer_normal_event_def get_mb_buffer_call_back_def get_mb_buffer_send_msg_def)

lemma normal_event_classes_differ:
  "1024 < mbSize \<Longrightarrow> mbSize \<le> 4096 \<Longrightarrow> mb_size_to_len_type MB_TYPE_NORMAL_EVENT mbSize = MB_LEN_4K_BYTE \<and>
   get_mb_buffer MB_TYPE_NORMAL_EVENT mbSize = Some (MB_TYPE_NORMAL_EVENT, MB_LEN_64K_BYTE)"
  by (auto simp: mb_size_to_len_type_def size_to_len_normal_def get_mb_buffer_def get_mb_buffer_normal_event_def word_le_nat_alt word_less_nat_alt)

end
