(* ===== verification/RecvMediaBuffer.thy ===== *)
theory RecvMediaBuffer
  imports SvsPrelude "HOL-Library.Multiset"
begin

text \<open>
  \<open>svs_recv_rt_media_buffer.cpp\<close> of the recording unit: the blocks that the received media is written to, in memory and in
  files of a memory file system.  A block in memory is to be kept for every camera that has none yet.  Blocks are numbers,
  and what a block holds is read in \<open>rb_block\<close>.  Whether a block can be made is an argument; the statistics object is
  left out.  A division by zero is \<^const>\<open>None\<close>.
\<close>

section \<open>Data\<close>

text \<open>Of the header at the start of a block: whether it has the two lists of indices.\<close>

record SVS_Media_Block =
  m_pOwner :: bool
  m_bTmpfsMemory :: bool
  m_bLastMemoryBufferFlag :: bool
  hdr_IndexList :: bool
  hdr_IndexBreakList :: bool

record CSVS_Recv_RT_Media_Buffer =
  rb_init_flag :: bool
  rb_buffer_len :: u32
  alloc_buffer_times :: u64
  alloc_buffer_failure_times :: u64
  free_buffer_list :: "nat list"
  used_buffer_list :: "nat list"
  tmpfs_free_buffer_list :: "nat list"
  tmpfs_used_buffer_list :: "nat list"
  serve_lens_num :: u32
  curr_serve_lens_num :: u32
  free_memory_buffer_num :: u32
  free_tmpfs_buffer_num :: u32
  used_tmpfs_buffer_flag :: bool
  rb_block :: "nat \<Rightarrow> SVS_Media_Block"

abbreviation (input) RB_RESULT_OK :: int where "RB_RESULT_OK \<equiv> 0"
abbreviation (input) RB_RESULT_FAILURE :: int where "RB_RESULT_FAILURE \<equiv> - 1"
abbreviation (input) SVS_RECV_RT_MEDIA_DATA_POOL_MAX_LEN :: u32 where "SVS_RECV_RT_MEDIA_DATA_POOL_MAX_LEN \<equiv> 1782579200"

definition media_block :: "bool \<Rightarrow> SVS_Media_Block" where
  "media_block tmpfs = \<lparr> m_pOwner = True, m_bTmpfsMemory = tmpfs, m_bLastMemoryBufferFlag = False, hdr_IndexList = False,
     hdr_IndexBreakList = False \<rparr>"

definition rb_new :: CSVS_Recv_RT_Media_Buffer where
  "rb_new = \<lparr> rb_init_flag = False, rb_buffer_len = 0, alloc_buffer_times = 0, alloc_buffer_failure_times = 0, free_buffer_list = [],
     used_buffer_list = [], tmpfs_free_buffer_list = [], tmpfs_used_buffer_list = [], serve_lens_num = 0, curr_serve_lens_num = 0,
     free_memory_buffer_num = 0, free_tmpfs_buffer_num = 0, used_tmpfs_buffer_flag = False, rb_block = (\<lambda>_. media_block False) \<rparr>"

section \<open>Making the blocks\<close>

fun tmpfs_loop :: "(nat \<Rightarrow> nat option) \<Rightarrow> nat \<Rightarrow> nat \<Rightarrow> CSVS_Recv_RT_Media_Buffer \<Rightarrow> int \<times> CSVS_Recv_RT_Media_Buffer" where
  "tmpfs_loop mk i 0 s = (RB_RESULT_OK, s)"
| "tmpfs_loop mk i (Suc n) s =
     (case mk i of
        None \<Rightarrow> (RB_RESULT_FAILURE, s)
      | Some b \<Rightarrow> tmpfs_loop mk (i + 1) n (s\<lparr>tmpfs_free_buffer_list := tmpfs_free_buffer_list s @ [b],
          rb_block := (rb_block s)(b := media_block True)\<rparr>))"

definition init_tempfs_buffer :: "(nat \<Rightarrow> nat option) \<Rightarrow> u32 \<Rightarrow> CSVS_Recv_RT_Media_Buffer \<Rightarrow> int \<times> CSVS_Recv_RT_Media_Buffer" where
  "init_tempfs_buffer mk tmpfsBufferNum s = tmpfs_loop mk 0 (unat tmpfsBufferNum) (s\<lparr>used_tmpfs_buffer_flag := True\<rparr>)"

fun memory_loop :: "(nat \<Rightarrow> nat option) \<Rightarrow> nat \<Rightarrow> nat \<Rightarrow> CSVS_Recv_RT_Media_Buffer \<Rightarrow> bool \<times> CSVS_Recv_RT_Media_Buffer" where
  "memory_loop mk i 0 s = (True, s)"
| "memory_loop mk i (Suc n) s =
     (case mk i of
        None \<Rightarrow> (False, s)
      | Some b \<Rightarrow> memory_loop mk (i + 1) n (s\<lparr>free_buffer_list := free_buffer_list s @ [b],
          rb_block := (rb_block s)(b := media_block False)\<rparr>))"

definition rb_init ::
    "(nat \<Rightarrow> nat option) \<Rightarrow> (nat \<Rightarrow> nat option) \<Rightarrow> u32 \<Rightarrow> u32 \<Rightarrow> u32 \<Rightarrow> u32 \<Rightarrow> CSVS_Recv_RT_Media_Buffer \<Rightarrow>
     (int \<times> CSVS_Recv_RT_Media_Buffer) option" where
  "rb_init mk mk_tmpfs BufferLen BufferNum tmpfsBufferNum serveLensNum s =
     (if rb_init_flag s then Some (RB_RESULT_OK, s)
      else if BufferNum = 0 then Some (RB_RESULT_FAILURE, s)
      else if BufferLen = 0 then None
      else if BufferNum > SVS_RECV_RT_MEDIA_DATA_POOL_MAX_LEN div BufferLen then Some (RB_RESULT_FAILURE, s)
      else
        let s1 = s\<lparr>used_buffer_list := [], free_buffer_list := [], serve_lens_num := serveLensNum, curr_serve_lens_num := 0,
              tmpfs_used_buffer_list := [], tmpfs_free_buffer_list := [], used_tmpfs_buffer_flag := False\<rparr>
        in case (if tmpfsBufferNum > 0 then init_tempfs_buffer mk_tmpfs tmpfsBufferNum s1 else (RB_RESULT_OK, s1)) of
             (r, s2) \<Rightarrow>
               if r \<noteq> RB_RESULT_OK then Some (r, s2)
               else (case memory_loop mk 0 (unat BufferNum) s2 of
                       (ok, s3) \<Rightarrow>
                         if \<not> ok then Some (RB_RESULT_FAILURE, s3\<lparr>free_buffer_list := []\<rparr>)
                         else Some (RB_RESULT_OK, s3\<lparr>rb_init_flag := True, rb_buffer_len := BufferLen\<rparr>)))"

definition rb_close :: "CSVS_Recv_RT_Media_Buffer \<Rightarrow> int \<times> CSVS_Recv_RT_Media_Buffer" where
  "rb_close s =
     (if \<not> rb_init_flag s then (RB_RESULT_FAILURE, s)
      else (RB_RESULT_OK, s\<lparr>free_buffer_list := [], used_buffer_list := [], rb_init_flag := False\<rparr>))"

section \<open>Taking and returning\<close>

definition alloc_tmpfs_buffer :: "CSVS_Recv_RT_Media_Buffer \<Rightarrow> nat option \<times> CSVS_Recv_RT_Media_Buffer" where
  "alloc_tmpfs_buffer s =
     (if \<not> rb_init_flag s then (None, s)
      else case tmpfs_free_buffer_list s of
             [] \<Rightarrow> (None, s\<lparr>alloc_buffer_failure_times := alloc_buffer_failure_times s + 1\<rparr>)
           | b # bs \<Rightarrow> (Some b, s\<lparr>tmpfs_free_buffer_list := bs, tmpfs_used_buffer_list := tmpfs_used_buffer_list s @ [b],
               alloc_buffer_times := alloc_buffer_times s + 1, free_tmpfs_buffer_num := free_tmpfs_buffer_num s - 1\<rparr>))"

definition alloc_buffer :: "bool \<Rightarrow> CSVS_Recv_RT_Media_Buffer \<Rightarrow> nat option \<times> CSVS_Recv_RT_Media_Buffer" where
  "alloc_buffer bLensFirstAllocFlag s =
     (if \<not> rb_init_flag s then (None, s)
      else if \<not> bLensFirstAllocFlag \<and> used_tmpfs_buffer_flag s \<and> free_memory_buffer_num s < serve_lens_num s - curr_serve_lens_num s
      then (None, s\<lparr>alloc_buffer_failure_times := alloc_buffer_failure_times s + 1\<rparr>)
      else case free_buffer_list s of
             [] \<Rightarrow> (None, s\<lparr>alloc_buffer_failure_times := alloc_buffer_failure_times s + 1\<rparr>)
           | b # bs \<Rightarrow> (Some b, s\<lparr>curr_serve_lens_num := (if bLensFirstAllocFlag then curr_serve_lens_num s + 1 else curr_serve_lens_num s),
               free_buffer_list := bs, used_buffer_list := used_buffer_list s @ [b], alloc_buffer_times := alloc_buffer_times s + 1,
               free_memory_buffer_num := free_memory_buffer_num s - 1\<rparr>))"

definition free_buffer :: "nat option \<Rightarrow> bool \<Rightarrow> bool \<Rightarrow> CSVS_Recv_RT_Media_Buffer \<Rightarrow> int \<times> CSVS_Recv_RT_Media_Buffer" where
  "free_buffer buffer bTmpfsMemory bLastMemoryBuffer s =
     (case buffer of
        None \<Rightarrow> (RB_RESULT_FAILURE, s)
      | Some b \<Rightarrow>
          if \<not> rb_init_flag s then (RB_RESULT_FAILURE, s)
          else if bTmpfsMemory
          then (RB_RESULT_OK, s\<lparr>tmpfs_used_buffer_list := removeAll b (tmpfs_used_buffer_list s),
                 tmpfs_free_buffer_list := tmpfs_free_buffer_list s @ [b], free_tmpfs_buffer_num := free_tmpfs_buffer_num s + 1\<rparr>)
          else (RB_RESULT_OK, s\<lparr>used_buffer_list := removeAll b (used_buffer_list s), free_buffer_list := free_buffer_list s @ [b],
                 free_memory_buffer_num := free_memory_buffer_num s + 1,
                 curr_serve_lens_num := (if bLastMemoryBuffer then curr_serve_lens_num s - 1 else curr_serve_lens_num s)\<rparr>))"

text \<open>\<open>SVS_Media_Block::release\<close>, and the flag that the last block of a camera gets.\<close>

definition release_block :: "nat \<Rightarrow> CSVS_Recv_RT_Media_Buffer \<Rightarrow> CSVS_Recv_RT_Media_Buffer" where
  "release_block b s =
     (if m_pOwner (rb_block s b)
      then snd (free_buffer (Some b) (m_bTmpfsMemory (rb_block s b)) (m_bLastMemoryBufferFlag (rb_block s b))
             (s\<lparr>rb_block := (rb_block s)(b := (rb_block s b)\<lparr>hdr_IndexList := False, hdr_IndexBreakList := False\<rparr>)\<rparr>))
      else s)"

definition SetLastMemoryBufferFlag :: "nat \<Rightarrow> bool \<Rightarrow> CSVS_Recv_RT_Media_Buffer \<Rightarrow> CSVS_Recv_RT_Media_Buffer" where
  "SetLastMemoryBufferFlag b bFlag s = s\<lparr>rb_block := (rb_block s)(b := (rb_block s b)\<lparr>m_bLastMemoryBufferFlag := bFlag\<rparr>)\<rparr>"

definition free_buffer_size :: "CSVS_Recv_RT_Media_Buffer \<Rightarrow> u32" where
  "free_buffer_size s = of_nat (length (free_buffer_list s)) + of_nat (length (tmpfs_free_buffer_list s))"

definition used_buffer_size :: "CSVS_Recv_RT_Media_Buffer \<Rightarrow> u32" where
  "used_buffer_size s = of_nat (length (used_buffer_list s)) + of_nat (length (tmpfs_used_buffer_list s))"

section \<open>Sequences of calls\<close>

text \<open>A block is released, or gets its flag, only while it is in use.\<close>

datatype rb_call = AllocMemory bool | AllocTmpfs | SetLast nat | Release nat

fun rb_do :: "rb_call \<Rightarrow> CSVS_Recv_RT_Media_Buffer \<Rightarrow> CSVS_Recv_RT_Media_Buffer" where
  "rb_do (AllocMemory first) s = snd (alloc_buffer first s)"
| "rb_do AllocTmpfs s = snd (alloc_tmpfs_buffer s)"
| "rb_do (SetLast b) s = (if b \<in> set (used_buffer_list s) then SetLastMemoryBufferFlag b True s else s)"
| "rb_do (Release b) s = (if b \<in> set (used_buffer_list s) \<union> set (tmpfs_used_buffer_list s) then release_block b s else s)"

definition rb_run :: "rb_call list \<Rightarrow> CSVS_Recv_RT_Media_Buffer \<Rightarrow> CSVS_Recv_RT_Media_Buffer" where
  "rb_run = fold rb_do"

text \<open>
  The blocks in memory are \<open>M\<close> and those in files \<open>T\<close>, each in one list only.  The two counters of free blocks are
  minus the numbers of blocks in use.
\<close>

definition rb_ok :: "nat set \<Rightarrow> nat set \<Rightarrow> CSVS_Recv_RT_Media_Buffer \<Rightarrow> bool" where
  "rb_ok M T s \<longleftrightarrow> rb_init_flag s \<and>
     set (free_buffer_list s) \<union> set (used_buffer_list s) = M \<and> distinct (free_buffer_list s @ used_buffer_list s) \<and>
     set (tmpfs_free_buffer_list s) \<union> set (tmpfs_used_buffer_list s) = T \<and>
     distinct (tmpfs_free_buffer_list s @ tmpfs_used_buffer_list s) \<and>
     free_memory_buffer_num s = - of_nat (length (used_buffer_list s)) \<and>
     free_tmpfs_buffer_num s = - of_nat (length (tmpfs_used_buffer_list s)) \<and>
     (\<forall>b \<in> M. m_pOwner (rb_block s b) \<and> \<not> m_bTmpfsMemory (rb_block s b)) \<and>
     (\<forall>b \<in> T. m_pOwner (rb_block s b) \<and> m_bTmpfsMemory (rb_block s b))"

lemma of_nat_remove:
  assumes "distinct xs" and "b \<in> set xs"
  shows "- (of_nat (length xs) :: u32) + 1 = - of_nat (length (removeAll b xs))"
proof -
  have "length xs = Suc (length (remove1 b xs))"
    using assms(2) by (induction xs) auto
  then show ?thesis
    unfolding distinct_remove1_removeAll [OF assms(1), symmetric] by simp
qed

lemma alloc_ok: "rb_ok M T s \<Longrightarrow> rb_ok M T (snd (alloc_buffer first s))"
  unfolding alloc_buffer_def rb_ok_def by (cases "free_buffer_list s") auto

lemma alloc_tmpfs_ok: "rb_ok M T s \<Longrightarrow> rb_ok M T (snd (alloc_tmpfs_buffer s))"
  unfolding alloc_tmpfs_buffer_def rb_ok_def by (cases "tmpfs_free_buffer_list s") auto

lemma release_ok:
  assumes "rb_ok M T s" and "M \<inter> T = {}" and "b \<in> set (used_buffer_list s) \<union> set (tmpfs_used_buffer_list s)"
  shows "rb_ok M T (release_block b s)"
proof (cases "b \<in> M")
  case True
  then have b: "b \<in> set (used_buffer_list s)" "distinct (used_buffer_list s)" "m_pOwner (rb_block s b)" "\<not> m_bTmpfsMemory (rb_block s b)"
    using assms by (auto simp: rb_ok_def)
  show ?thesis
    using assms(1,2) True b of_nat_remove [OF b(2,1)] unfolding release_block_def free_buffer_def rb_ok_def
    by (auto simp: distinct_removeAll)
next
  case False
  then have b: "b \<in> set (tmpfs_used_buffer_list s)" "b \<in> T" "distinct (tmpfs_used_buffer_list s)" "m_pOwner (rb_block s b)" "m_bTmpfsMemory (rb_block s b)"
    using assms by (auto simp: rb_ok_def)
  show ?thesis
    using assms(1,2) False b of_nat_remove [OF b(3,1)] unfolding release_block_def free_buffer_def rb_ok_def
    by (auto simp: distinct_removeAll)
qed

lemma rb_do_ok:
  assumes "rb_ok M T s" and "M \<inter> T = {}"
  shows "rb_ok M T (rb_do c s)"
proof (cases c)
  case (SetLast b)
  then show ?thesis using assms by (auto simp: rb_ok_def SetLastMemoryBufferFlag_def)
qed (use assms in \<open>simp_all add: alloc_ok alloc_tmpfs_ok release_ok\<close>)

lemma rb_run_ok: "rb_ok M T s \<Longrightarrow> M \<inter> T = {} \<Longrightarrow> rb_ok M T (rb_run cs s)"
  unfolding rb_run_def by (induction cs arbitrary: s) (auto simp: rb_do_ok)

text \<open>What a call leaves as it is.\<close>

lemma rb_do_fixed: "serve_lens_num (rb_do c s) = serve_lens_num s \<and> used_tmpfs_buffer_flag (rb_do c s) = used_tmpfs_buffer_flag s"
  by (cases c) (auto simp: alloc_buffer_def alloc_tmpfs_buffer_def SetLastMemoryBufferFlag_def release_block_def free_buffer_def split: list.splits)

lemma rb_run_fixed: "serve_lens_num (rb_run cs s) = serve_lens_num s \<and> used_tmpfs_buffer_flag (rb_run cs s) = used_tmpfs_buffer_flag s"
  unfolding rb_run_def by (induction cs arbitrary: s) (auto simp: rb_do_fixed)

section \<open>The start\<close>

lemma tmpfs_loop_made:
  "tmpfs_loop mk i n s = (RB_RESULT_OK, s1) \<Longrightarrow>
   \<exists>bs. map Some bs = map mk [i..<i + n] \<and>
     s1 = s\<lparr>tmpfs_free_buffer_list := tmpfs_free_buffer_list s @ bs, rb_block := (\<lambda>b. if b \<in> set bs then media_block True else rb_block s b)\<rparr>"
proof (induction mk i n s rule: tmpfs_loop.induct)
  case (1 mk i s)
  then show ?case by simp
next
  case (2 mk i n s)
  then obtain b where b: "mk i = Some b"
    by (auto split: option.splits)
  let ?s = "s\<lparr>tmpfs_free_buffer_list := tmpfs_free_buffer_list s @ [b], rb_block := (rb_block s)(b := media_block True)\<rparr>"
  have "tmpfs_loop mk (i + 1) n ?s = (RB_RESULT_OK, s1)"
    using 2(2) b by simp
  from 2(1) [OF b this] obtain bs where bs: "map Some bs = map mk [i + 1..<i + 1 + n]"
      "s1 = ?s\<lparr>tmpfs_free_buffer_list := tmpfs_free_buffer_list ?s @ bs, rb_block := (\<lambda>b. if b \<in> set bs then media_block True else rb_block ?s b)\<rparr>"
    by blast
  have f: "(\<lambda>c. if c \<in> set bs then media_block True else rb_block ?s c) = (\<lambda>c. if c \<in> set (b # bs) then media_block True else rb_block s c)"
    by auto
  have "map Some (b # bs) = map mk [i..<i + Suc n]"
    using b bs(1) by (simp add: upt_conv_Cons del: upt_Suc)
  moreover have "s1 = s\<lparr>tmpfs_free_buffer_list := tmpfs_free_buffer_list s @ b # bs, rb_block := (\<lambda>c. if c \<in> set (b # bs) then media_block True else rb_block s c)\<rparr>"
    unfolding bs(2) f by simp
  ultimately show ?case by blast
qed

lemma memory_loop_made:
  "memory_loop mk i n s = (True, s1) \<Longrightarrow>
   \<exists>bs. map Some bs = map mk [i..<i + n] \<and>
     s1 = s\<lparr>free_buffer_list := free_buffer_list s @ bs, rb_block := (\<lambda>b. if b \<in> set bs then media_block False else rb_block s b)\<rparr>"
proof (induction mk i n s rule: memory_loop.induct)
  case (1 mk i s)
  then show ?case by simp
next
  case (2 mk i n s)
  then obtain b where b: "mk i = Some b"
    by (auto split: option.splits)
  let ?s = "s\<lparr>free_buffer_list := free_buffer_list s @ [b], rb_block := (rb_block s)(b := media_block False)\<rparr>"
  have "memory_loop mk (i + 1) n ?s = (True, s1)"
    using 2(2) b by simp
  from 2(1) [OF b this] obtain bs where bs: "map Some bs = map mk [i + 1..<i + 1 + n]"
      "s1 = ?s\<lparr>free_buffer_list := free_buffer_list ?s @ bs, rb_block := (\<lambda>b. if b \<in> set bs then media_block False else rb_block ?s b)\<rparr>"
    by blast
  have f: "(\<lambda>c. if c \<in> set bs then media_block False else rb_block ?s c) = (\<lambda>c. if c \<in> set (b # bs) then media_block False else rb_block s c)"
    by auto
  have "map Some (b # bs) = map mk [i..<i + Suc n]"
    using b bs(1) by (simp add: upt_conv_Cons del: upt_Suc)
  moreover have "s1 = s\<lparr>free_buffer_list := free_buffer_list s @ b # bs, rb_block := (\<lambda>c. if c \<in> set (b # bs) then media_block False else rb_block s c)\<rparr>"
    unfolding bs(2) f by simp
  ultimately show ?case by blast
qed

text \<open>Memory that was allocated is not allocated again.\<close>

definition rb_fresh :: "(nat \<Rightarrow> nat option) \<Rightarrow> (nat \<Rightarrow> nat option) \<Rightarrow> bool" where
  "rb_fresh mk mk_tmpfs \<longleftrightarrow>
     (\<forall>i j a. (mk i = Some a \<and> mk j = Some a \<longrightarrow> i = j) \<and> (mk_tmpfs i = Some a \<and> mk_tmpfs j = Some a \<longrightarrow> i = j) \<and>
       \<not> (mk i = Some a \<and> mk_tmpfs j = Some a))"

lemma made_list:
  assumes "map Some bs = map mk [0..<n]" and "\<forall>i j a. mk i = Some a \<and> mk j = Some a \<longrightarrow> i = j"
  shows "distinct bs" and "length bs = n" and "\<forall>b \<in> set bs. \<exists>i. mk i = Some b"
proof -
  show l: "length bs = n"
    using arg_cong [OF assms(1), of length] by simp
  have e: "mk i = Some (bs ! i)" if "i < n" for i
    using arg_cong [OF assms(1), of "\<lambda>l. l ! i"] that l by simp
  then show "\<forall>b \<in> set bs. \<exists>i. mk i = Some b"
    using l by (metis in_set_conv_nth)
  show "distinct bs"
    unfolding distinct_conv_nth using e l assms(2) by metis
qed

lemma tmpfs_made:
  assumes "init_tempfs_buffer mk n s1 = (RB_RESULT_OK, s2)"
  shows "\<exists>bs. map Some bs = map mk [0..<unat n] \<and> s2 = s1\<lparr>used_tmpfs_buffer_flag := True,
    tmpfs_free_buffer_list := tmpfs_free_buffer_list s1 @ bs, rb_block := (\<lambda>b. if b \<in> set bs then media_block True else rb_block s1 b)\<rparr>"
proof -
  have r: "rb_block (s1\<lparr>used_tmpfs_buffer_flag := True\<rparr>) = rb_block s1"
      "tmpfs_free_buffer_list (s1\<lparr>used_tmpfs_buffer_flag := True\<rparr>) = tmpfs_free_buffer_list s1"
    by simp_all
  show ?thesis
    using tmpfs_loop_made [OF assms [unfolded init_tempfs_buffer_def]] unfolding r by simp
qed

lemma rb_init_made:
  assumes "rb_init mk mk_tmpfs BufferLen BufferNum tmpfsBufferNum serveLensNum rb_new = Some (RB_RESULT_OK, s)" and "rb_fresh mk mk_tmpfs"
  obtains M T where "rb_ok M T s" "M \<inter> T = {}" "finite M" "card M = unat BufferNum" "card M \<le> 1782579200" "serve_lens_num s = serveLensNum"
    "used_tmpfs_buffer_flag s \<longleftrightarrow> 0 < tmpfsBufferNum"
proof -
  let ?s1 = "rb_new\<lparr>used_buffer_list := [], free_buffer_list := [], serve_lens_num := serveLensNum, curr_serve_lens_num := 0,
      tmpfs_used_buffer_list := [], tmpfs_free_buffer_list := [], used_tmpfs_buffer_flag := False\<rparr>"
  have n: "BufferNum \<le> SVS_RECV_RT_MEDIA_DATA_POOL_MAX_LEN div BufferLen"
    using assms(1) by (simp add: rb_init_def rb_new_def not_less split: if_splits)
  have "unat BufferNum \<le> unat (SVS_RECV_RT_MEDIA_DATA_POOL_MAX_LEN div BufferLen)"
    using n by (simp add: word_le_nat_alt)
  also have "\<dots> \<le> 1782579200"
    by (simp add: unat_div)
  finally have n': "unat BufferNum \<le> 1782579200" .
  obtain s2 s3 where s2: "(if tmpfsBufferNum > 0 then init_tempfs_buffer mk_tmpfs tmpfsBufferNum ?s1 else (RB_RESULT_OK, ?s1)) = (RB_RESULT_OK, s2)"
    and s3: "memory_loop mk 0 (unat BufferNum) s2 = (True, s3)" and s: "s = s3\<lparr>rb_init_flag := True, rb_buffer_len := BufferLen\<rparr>"
    using assms(1) unfolding rb_init_def Let_def by (auto simp: rb_new_def split: if_splits prod.splits)
  obtain ts where ts: "distinct ts" "\<forall>b \<in> set ts. \<exists>i. mk_tmpfs i = Some b"
      "s2 = ?s1\<lparr>tmpfs_free_buffer_list := ts, used_tmpfs_buffer_flag := 0 < tmpfsBufferNum,
        rb_block := (\<lambda>b. if b \<in> set ts then media_block True else rb_block ?s1 b)\<rparr>"
  proof (cases "tmpfsBufferNum > 0")
    case True
    then have "init_tempfs_buffer mk_tmpfs tmpfsBufferNum ?s1 = (RB_RESULT_OK, s2)"
      using s2 by simp
    from tmpfs_made [OF this] obtain bs where bs: "map Some bs = map mk_tmpfs [0..<unat tmpfsBufferNum]"
        "s2 = ?s1\<lparr>used_tmpfs_buffer_flag := True, tmpfs_free_buffer_list := bs,
          rb_block := (\<lambda>b. if b \<in> set bs then media_block True else rb_block ?s1 b)\<rparr>"
      by auto
    have "\<forall>i j a. mk_tmpfs i = Some a \<and> mk_tmpfs j = Some a \<longrightarrow> i = j"
      using assms(2) by (simp add: rb_fresh_def)
    note l = made_list [OF bs(1) this]
    show thesis
      by (rule that [OF l(1,3)]) (use True in \<open>simp add: bs(2)\<close>)
  next
    case False
    then show thesis
      using that [of "[]"] s2 by simp
  qed
  obtain bs where bs: "map Some bs = map mk [0..<0 + unat BufferNum]"
      "s3 = s2\<lparr>free_buffer_list := bs, rb_block := (\<lambda>b. if b \<in> set bs then media_block False else rb_block s2 b)\<rparr>"
    using memory_loop_made [OF s3] unfolding ts(3) by auto
  note b = made_list [of bs mk "unat BufferNum"]
  have m: "distinct bs" "length bs = unat BufferNum" "\<forall>b \<in> set bs. \<exists>i. mk i = Some b"
    using b bs(1) assms(2) by (auto simp: rb_fresh_def)
  have disj: "set bs \<inter> set ts = {}"
    using m(3) ts(2) assms(2) by (auto simp: rb_fresh_def) metis
  show thesis
  proof (rule that [of "set bs" "set ts"])
    show "rb_ok (set bs) (set ts) s"
      using disj m(1) ts(1) unfolding s bs(2) ts(3) by (auto simp: rb_ok_def rb_new_def media_block_def)
    show "card (set bs) = unat BufferNum" "card (set bs) \<le> 1782579200"
      using m n' by (simp_all add: distinct_card)
    show "serve_lens_num s = serveLensNum" "used_tmpfs_buffer_flag s \<longleftrightarrow> 0 < tmpfsBufferNum"
      unfolding s bs(2) ts(3) by simp_all
  qed (use disj in auto)
qed

section \<open>The reservation\<close>

lemma minus_count:
  assumes "0 < k" and "k \<le> 1782579200"
  shows "unat (- (of_nat k :: u32)) = 2 ^ 32 - k"
proof -
  define m where "m = (2 ^ 32 - k :: nat)"
  have m: "m < 2 ^ 32" "m + k = 2 ^ 32"
    using assms by (simp_all add: m_def)
  have "(of_nat m :: u32) + of_nat k = of_nat (m + k)"
    by simp
  also have "\<dots> = 0"
    unfolding m(2) by simp
  finally have "- (of_nat k :: u32) = of_nat m"
    by (metis add_eq_0_iff2)
  moreover have "unat (of_nat m :: u32) = m"
    using m(1) by (simp add: unat_of_nat take_bit_eq_mod)
  ultimately show ?thesis
    by (simp add: m_def)
qed

text \<open>
  C25.  The free blocks in memory are meant to be kept for the cameras that have none yet.  The counter of free blocks
  begins at 0 and not at their number, so this does not happen: a camera that has a block already gets another one whenever one
  is free and any block is in use, however few are left for the others; and when none is in use it gets none although all are
  free, unless every camera is counted as served.
\<close>

theorem rt_reservation_void:
  assumes "rb_init mk mk_tmpfs BufferLen BufferNum tmpfsBufferNum serveLensNum rb_new = Some (RB_RESULT_OK, s0)" and "rb_fresh mk mk_tmpfs"
    and "0 < tmpfsBufferNum" and "rb_run cs s0 = s" and "curr_serve_lens_num s \<le> serve_lens_num s" and "unat serveLensNum \<le> 2 ^ 31"
  shows "fst (alloc_buffer False s) \<noteq> None \<longleftrightarrow>
    free_buffer_list s \<noteq> [] \<and> (used_buffer_list s \<noteq> [] \<or> curr_serve_lens_num s = serve_lens_num s)"
proof -
  obtain M T where m: "rb_ok M T s0" "M \<inter> T = {}" "finite M" "card M \<le> 1782579200" "serve_lens_num s0 = serveLensNum" "used_tmpfs_buffer_flag s0"
    using rb_init_made [OF assms(1,2)] assms(3) by metis
  have ok: "rb_ok M T s" and fx: "serve_lens_num s = serveLensNum" "used_tmpfs_buffer_flag s"
    using rb_run_ok [OF m(1,2), of cs] rb_run_fixed [of cs s0] m(5,6) assms(4) by auto
  have "card (set (used_buffer_list s)) \<le> card M"
    using ok m(3) by (intro card_mono) (auto simp: rb_ok_def)
  then have k: "length (used_buffer_list s) \<le> 1782579200"
    using ok m(4) by (simp add: rb_ok_def distinct_card)
  have f: "free_memory_buffer_num s = - of_nat (length (used_buffer_list s))" and i: "rb_init_flag s"
    using ok by (auto simp: rb_ok_def)
  have d: "unat (serve_lens_num s - curr_serve_lens_num s) \<le> 2 ^ 31"
    using assms(5,6) fx(1) by (simp add: unat_sub)
  have g: "free_memory_buffer_num s < serve_lens_num s - curr_serve_lens_num s \<longleftrightarrow> used_buffer_list s = [] \<and> curr_serve_lens_num s \<noteq> serve_lens_num s"
  proof (cases "used_buffer_list s = []")
    case True
    then show ?thesis
      unfolding f by (auto simp: word_gt_0)
  next
    case False
    then have "unat (free_memory_buffer_num s) = 2 ^ 32 - length (used_buffer_list s)"
      unfolding f using k by (intro minus_count) auto
    then have "unat (serve_lens_num s - curr_serve_lens_num s) \<le> unat (free_memory_buffer_num s)"
      using d k by simp
    then show ?thesis
      using False by (simp add: word_less_nat_alt)
  qed
  show ?thesis
    unfolding alloc_buffer_def using i fx(2) g by (cases "free_buffer_list s") auto
qed

text \<open>Two blocks for two cameras, with one block in a file: the first camera gets both blocks, and the second one gets none.\<close>

definition sample_rb :: "CSVS_Recv_RT_Media_Buffer option" where
  "sample_rb = map_option snd (rb_init (\<lambda>i. Some (2 * i)) (\<lambda>i. Some (2 * i + 1)) 65536 2 1 2 rb_new)"

lemma sample_rb_eq:
  "rb_init (\<lambda>i. Some (2 * i)) (\<lambda>i. Some (2 * i + 1)) 65536 2 1 2 rb_new = Some (RB_RESULT_OK, the sample_rb)"
proof -
  have u: "unat (2 :: u32) = Suc (Suc 0)" "unat (1 :: u32) = Suc 0"
    by simp_all
  show ?thesis
    unfolding sample_rb_def rb_init_def init_tempfs_buffer_def u by (simp add: rb_new_def)
qed

lemma sample_rb_lists:
  "free_buffer_list (the sample_rb) = [0, 2]" "used_buffer_list (the sample_rb) = []" "rb_init_flag (the sample_rb)"
  "serve_lens_num (the sample_rb) = 2" "curr_serve_lens_num (the sample_rb) = 0" "free_memory_buffer_num (the sample_rb) = 0"
  "used_tmpfs_buffer_flag (the sample_rb)"
proof -
  have u: "unat (2 :: u32) = Suc (Suc 0)" "unat (1 :: u32) = Suc 0"
    by simp_all
  show "free_buffer_list (the sample_rb) = [0, 2]" "used_buffer_list (the sample_rb) = []" "rb_init_flag (the sample_rb)"
    "serve_lens_num (the sample_rb) = 2" "curr_serve_lens_num (the sample_rb) = 0" "free_memory_buffer_num (the sample_rb) = 0"
    "used_tmpfs_buffer_flag (the sample_rb)"
    unfolding sample_rb_def rb_init_def init_tempfs_buffer_def u by (simp_all add: rb_new_def)
qed

theorem rt_reservation_void_witness:
  "fst (alloc_buffer False (rb_run [AllocMemory True] (the sample_rb))) \<noteq> None \<and> fst (alloc_buffer False (the sample_rb)) = None"
proof -
  have f: "rb_fresh (\<lambda>i. Some (2 * i)) (\<lambda>i. Some (2 * i + 1))"
    by (auto simp: rb_fresh_def) presburger
  let ?s = "rb_run [AllocMemory True] (the sample_rb)"
  have s: "free_buffer_list ?s = [2]" "used_buffer_list ?s = [0]" "curr_serve_lens_num ?s = 1" "serve_lens_num ?s = 2"
    by (simp_all add: rb_run_def alloc_buffer_def sample_rb_lists)
  have "unat (2 :: u32) \<le> 2 ^ 31"
    by simp
  note t = rt_reservation_void [OF sample_rb_eq f _ _ _ this]
  have "fst (alloc_buffer False ?s) \<noteq> None"
    using t [of "[AllocMemory True]" ?s] s by simp
  moreover have "fst (alloc_buffer False (the sample_rb)) = None"
    using t [of "[]" "the sample_rb"] sample_rb_lists by (simp add: rb_run_def)
  ultimately show ?thesis by simp
qed

lemma second_camera_gets_none:
  "fst (alloc_buffer True (rb_run [AllocMemory True, AllocMemory False] (the sample_rb))) = None"
  by (simp add: rb_run_def alloc_buffer_def sample_rb_lists)

text \<open>
  The flag of the last block of a camera is never taken back: the block is handed out with it, and every release of it
  counts one camera less.
\<close>

lemma last_flag_sticks:
  assumes "rb_init_flag s" and "m_pOwner (rb_block s b)" and "\<not> m_bTmpfsMemory (rb_block s b)" and "m_bLastMemoryBufferFlag (rb_block s b)"
  shows "curr_serve_lens_num (release_block b s) = curr_serve_lens_num s - 1" and "m_bLastMemoryBufferFlag (rb_block (release_block b s) b)"
    and "m_bLastMemoryBufferFlag (rb_block (snd (alloc_buffer first s)) b)"
  using assms by (auto simp: release_block_def free_buffer_def alloc_buffer_def split: list.splits)

text \<open>Every block in memory is in one list only, and the total never changes.\<close>

lemma rt_buffers_conserved:
  assumes "rb_init mk mk_tmpfs BufferLen BufferNum tmpfsBufferNum serveLensNum rb_new = Some (RB_RESULT_OK, s0)" and "rb_fresh mk mk_tmpfs"
  shows "\<exists>M T. rb_ok M T (rb_run cs s0) \<and> M \<inter> T = {} \<and> card M = unat BufferNum"
  using rb_init_made [OF assms] rb_run_ok by metis

end
