(* ===== verification/Spec2Isabelle.thy ===== *)
theory Spec2Isabelle
  imports Rtp2PsProcessor EsRtpEncap MediaBlockBuffer Base64 MediaPort BusinessManager RtmpAmf RtspPacket MediaSdp IndexResend MbBuffer RecvMediaBuffer
begin

text \<open>
  \<^bold>\<open>The stream unit and parts of the recording unit of the allcamera video management system.\<close>

  The stream unit (\<open>svs_mu/svs_mu_stream\<close>) receives media of cameras and hands it on: as RTP, as an MPEG program stream
  over RTP (the form of GB28181 devices), as elementary streams over RTP, or to RTMP and RTSP clients.  File names below
  are relative to its directories \<open>src\<close> and \<open>inc\<close>, those that begin with \<open>svs_common\<close> to the repository, those named for the
  recording unit to the same directories of \<open>svs_mu/svs_mu_record\<close>.  The recording unit writes media to disk and reports an
  index of what was recorded.

  \<^bold>\<open>Parts and how they interact.\<close>
  A \<^emph>\<open>business\<close> joins the session of a source with the session of a receiver; the business manager keeps the table of all
  businesses, the session factory the table of all sessions, and both count references.  A session gets its UDP ports
  from the media ports, its parameters from RTSP messages and session descriptions, and its data in blocks of the block
  pool, which travel through lock-free queues.  Between the two sessions a media processor turns packets of one form
  into the other: it parses the RTP header, puts the packets of a frame in order, joins the fragments of a NAL unit,
  multiplexes the frame into a program stream and cuts this into RTP packets.  In the recording unit the list of a camera
  compares what was recorded with what was planned and sends index records; the last message of each record goes to the
  resend manager, too, which repeats it until the store confirms it.  The messages of all its threads are blocks of the
  message pools.

  \<^bold>\<open>Theories.\<close>
  \<^item> \<open>SvsPrelude\<close>: bytes, words, bit fields, loads and stores in network and host order, return codes; the collections
    \<open>mem_simps\<close> and \<open>bf_simps\<close>.
  \<^item> \<open>RtpPacket\<close> (\<open>svs_adapter_rtp_packet.cpp\<close>): a packet is the bytes of its buffer.  Every well-formed packet is
    accepted with exactly its fields (the SSRC with its bytes reversed, as the code reads it), a packet is accepted exactly when its header lies inside
    its buffer, generating and parsing agree.
  \<^item> \<open>RtpSegment\<close>: the contract \<open>rtp_segmenter\<close> of code that cuts data into packets; interpreted by \<open>PsRtpEncap\<close> and
    \<open>EsRtpEncap\<close>.
  \<^item> \<open>MpegPsEnc\<close> (\<open>svs_adapter_mpeg_ps_enc.cpp\<close>): the multiplexer with its cache; the CRC is CRC-32/MPEG-2, writes stay
    inside the cache.  \<open>MpegPsDec\<close> (\<open>svs_adapter_mpeg_ps_dec.cpp\<close>): the demultiplexer reads the frame back; what it
    makes of any sequence of complete headers and packets; exactly which packets make its loop run forever.
  \<^item> \<open>PsRtpEncap\<close> (\<open>svs_adapter_ps_rtp_encap.cpp\<close>), \<open>EsStartCode\<close> and \<open>EsRtpEncap\<close> (\<open>svs_es_rtp_encap.cpp\<close>): packets of a
    program stream and of elementary streams; the search that tests four bytes at once finds the first start code
    that has a byte behind it; the exact packets of a large NAL unit.
  \<^item> \<open>RtpFrameOrganizer\<close> (\<open>svs_adapter_rtp_frame_organizer.cpp\<close>): the reordering buffer keeps its invariant, loses no block
    and delivers complete frames only.
  \<^item> \<open>H264Packager\<close> (\<open>svs_adapter_rtp_packer.cpp\<close>): packets of NAL units and audio.
  \<^item> \<open>Rtp2PsProcessor\<close> (\<open>svs_adapter_rtp_to_ps_Processor.cpp\<close>): the composition.  The packets of a NAL unit, in any order in
    which the first comes before the last, end as RTP packets whose program stream decodes to a start code and this NAL unit.
  \<^item> \<open>MediaDataQueue\<close> (\<open>svs_adapter_media_data_queue.cpp\<close>, \<open>svs_adapter_atomic.h\<close>): both operations of the lock-free queue as
    single memory accesses of any number of threads; it implements a queue of tickets, in order and without loss, and
    stays inside its array.  \<open>MediaQueueSeq\<close>: the contract \<open>fifo_queue\<close> for calls that do not overlap, interpreted on the
    queue; \<open>MediaBlockBuffer\<close> (\<open>svs_adapter_media_block_buffer.cpp\<close>) is its client: no block of the pool is lost or given
    away twice.
  \<^item> \<open>Base64\<close> (\<open>svs_common/base64\<close>): encoding and decoding agree.
  \<^item> \<open>StdMap\<close>: \<open>std::map\<close> as a sorted association list, with the contract \<open>assoc_store\<close>.  \<open>MediaPort\<close>
    (\<open>svs_adapter_media_port.cpp\<close>, \<open>svs_adapter_port_manager.cpp\<close>): no port is given away twice.
  \<^item> \<open>StreamSession\<close> (\<open>svs_adapter_session.cpp\<close>): the status machine; a released session stays released, a stalled one times
    out, the NAT handshake of two RTP sessions answers all waiting requests in order.
  \<^item> \<open>RefStore\<close>: the contract \<open>ref_store\<close> of a table of reference-counted objects, interpreted by \<open>SessionFactory\<close>
    (\<open>svs_adapter_session_factory.cpp\<close>) and \<open>BusinessManager\<close> (\<open>svs_adapter_business_manager.cpp\<close>, on \<open>StreamBusiness\<close>,
    \<open>svs_adapter_business.cpp\<close>): counters are exact, nothing is used after it was deleted, an object without references is gone (RTP sessions
    that are each other's peers keep themselves), the capacity is kept.
  \<^item> \<open>CStr\<close>: the C string library.  \<open>RtspPacket\<close> (\<open>svs_adapter_rtsp_packet.cpp\<close>): requests and responses are parsed as they
    were written, the length of any message in a byte stream is found.  \<open>MediaSdp\<close> (\<open>svs_adapter_sdp.cpp\<close>): what of a session
    description is read back, and which ones are refused.  \<open>RtmpAmf\<close> (\<open>rtmpserver/svs_rtmp_amf.cpp\<close>): values are read as
    they were written, truncated ones are refused.
  \<^item> \<open>RecordIndex\<close> (recording unit, \<open>svs_index_list.cpp\<close>): the records in the database, as the messages make them, cover
    exactly the recorded time from the start of the plan on, across gaps and midnights; which first report loses its record; and when a plan blocks the list.
    \<open>IndexResend\<close> (\<open>svs_index_resend_mgr.cpp\<close>): a closed record is kept until it is confirmed or four messages were sent,
    the four checks that send it are exactly the first that are due, and the next check removes it.  \<open>MbBuffer\<close> (\<open>svs_mb_buffer.cpp\<close>): whatever the threads call, blocks are conserved, fit
    the request, are in one place only and return to their pools.  \<open>RecvMediaBuffer\<close> (\<open>svs_recv_rt_media_buffer.cpp\<close>): the
    blocks for received media are conserved, and exactly when one is given to a camera that has one already.

  \<^bold>\<open>How code is read.\<close>
  A class is a record of its members, a method a function that returns its result and the object.  Machine integers are
  words of their width, so sums wrap where the code's do.  Error codes are values; an access outside of memory, a use of
  deleted memory or a failing assertion is \<open>None\<close> or a constructor of its own, and the theorems say that it does not occur
  (or when it does).  Loops are recursive functions with termination proofs; a loop that can run forever is a
  \<open>partial_function\<close> into \<open>option\<close>, and that it returns is a theorem.  No fuel is used.  Calls of handlers and callbacks
  are recorded in the order they are made.  Objects that are shared by pointer stand in a heap by address.

  \<^bold>\<open>Arguments.\<close>
  What is not part of the sources is an argument: whether an allocation succeeds, the clock, random numbers, opening a
  socket, the virtual methods of derived sessions (a return code and the status changes they make; \<open>sendStartRequest\<close> is written out), \<open>%6.6f\<close> and \<open>atof\<close>,
  and the calendar functions.  The queue is modelled with sequentially consistent memory, which the locked instructions
  it uses give on x86, and its theorem on order holds until a 32-bit tag comes back.

  \<^bold>\<open>Not modelled.\<close>
  Sockets, epoll, threads, files, configuration, logging and the debugging console.  The media exchange and the concrete
  sessions beyond what the factory and the handshake use, the RTSP and RTMP servers beyond their messages, the
  signalling messages, the rest of the recording unit (disk and file management, the tasks and their messages) and the access
  control server (handlers around eXosip and the EHome SDK) are not modelled, as most of what they do is I/O
  and calls of code that is not part of the repository; in \<open>IndexResend\<close> a check is one step, although the source releases
  its lock between the scan and the resending.  Libraries that are copied into the repository (TinyXML, cJSON, MD5) and
  the SDKs it links (eXosip, EHome, ACE) are not part of it.
\<close>

end
